(* ===== verification/FG_Prelude.thy ===== *)
theory FG_Prelude
  imports Main "HOL-Library.Word"
begin

section \<open>Shared vocabulary of the development\<close>

text \<open>
  The types, fault values and generic lemmas every component of the FG-MPI development uses:
  addresses of C objects, the outcome of code guarded by \<^verbatim>\<open>assert\<close>, pointer chains
  (the path a field such as \<^verbatim>\<open>next\<close> spells out through the store) and a few facts on
  lists, maps and modular arithmetic.
\<close>

named_theorems fg_defs \<open>definitions of operations that are unfolded in component proofs\<close>
named_theorems fg_frame \<open>what an operation leaves unchanged\<close>

subsection \<open>Addresses and faults\<close>

type_synonym addr = nat

abbreviation (input) NULL :: addr where
  "NULL \<equiv> 0"

text \<open>
  A failed \<^verbatim>\<open>assert\<close> ends the process (\<^verbatim>\<open>assert_failed\<close> in
  \<^verbatim>\<open>fgutil/src/util/debug.c\<close>), as do \<^verbatim>\<open>abort\<close>, \<^verbatim>\<open>exit\<close> and
  \<^verbatim>\<open>fatal\<close>; each is a value of the model.  So are an access outside an object
  (\<open>Undefined\<close>: the C standard gives the program no meaning) and a loop that does not end
  (\<open>No_return\<close>).
\<close>

datatype fault =
    Assert_failed string
  | Exit_called string
  | Undefined string
  | No_return

type_synonym 'a outcome = "fault + 'a"

definition bind_outcome :: "'a outcome \<Rightarrow> ('a \<Rightarrow> 'b outcome) \<Rightarrow> 'b outcome" where
  "bind_outcome r f = (case r of Inl e \<Rightarrow> Inl e | Inr x \<Rightarrow> f x)"

definition check :: "bool \<Rightarrow> string \<Rightarrow> unit outcome" where
  "check b msg = (if b then Inr () else Inl (Assert_failed msg))"

definition returned :: "'a option \<Rightarrow> 'a outcome" where
  "returned r = (case r of None \<Rightarrow> Inl No_return | Some x \<Rightarrow> Inr x)"

lemma returned_simps [simp]: "returned None = Inl No_return" "returned (Some x) = Inr x"
  by (simp_all add: returned_def)

lemma bind_outcome_simps [simp]:
  "bind_outcome (Inl e) f = Inl e"
  "bind_outcome (Inr x) f = f x"
  by (simp_all add: bind_outcome_def)

lemma bind_outcome_Inr_iff:
  "bind_outcome r f = Inr y \<longleftrightarrow> (\<exists>x. r = Inr x \<and> f x = Inr y)"
  by (cases r) simp_all

lemma check_Inr_iff [simp]: "check b msg = Inr u \<longleftrightarrow> b"
  by (simp add: check_def)

lemma check_True [simp]: "check True msg = Inr ()"
  by (simp add: check_def)

lemma check_if [simp]: "b \<Longrightarrow> check b msg = Inr ()"
  by (simp add: check_def)

subsection \<open>Pointer chains\<close>

text \<open>
  \<open>links nx xs e\<close>: following the field \<open>nx\<close> from each address of \<open>xs\<close> leads to the
  next address of \<open>xs\<close>, and from the last one to \<open>e\<close>.
\<close>

fun links :: "('a \<Rightarrow> 'a) \<Rightarrow> 'a list \<Rightarrow> 'a \<Rightarrow> bool" where
  "links nx [] e = True"
| "links nx [x] e = (nx x = e)"
| "links nx (x # y # ys) e = (nx x = y \<and> links nx (y # ys) e)"

lemma links_Cons: "links nx (x # xs) e \<longleftrightarrow> nx x = hd (xs @ [e]) \<and> links nx xs e"
  by (cases xs) auto

lemma links_append:
  "links nx (xs @ ys) e \<longleftrightarrow> links nx xs (hd (ys @ [e])) \<and> links nx ys e"
proof (induction xs)
  case Nil
  then show ?case by simp
next
  case (Cons x xs)
  then show ?case by (cases xs) (auto simp: links_Cons)
qed

lemma links_snoc: "links nx (xs @ [y]) e \<longleftrightarrow> links nx xs y \<and> nx y = e"
  by (simp add: links_append)

lemma links_upd_other [simp]:
  "x \<notin> set xs \<Longrightarrow> links (nx(x := v)) xs e = links nx xs e"
  by (induction nx xs e rule: links.induct) auto

lemma links_cong:
  "(\<And>x. x \<in> set xs \<Longrightarrow> nx x = nx' x) \<Longrightarrow> links nx xs e = links nx' xs e"
  by (induction nx xs e rule: links.induct) auto

lemma links_upd_last:
  "distinct (xs @ [y]) \<Longrightarrow> links nx (xs @ [y]) e \<Longrightarrow> links (nx(y := e')) (xs @ [y]) e'"
  by (simp add: links_snoc)

lemma links_last: "xs \<noteq> [] \<Longrightarrow> links nx xs e \<Longrightarrow> nx (last xs) = e"
  by (induction nx xs e rule: links.induct) auto

lemma links_retarget:
  assumes "links nx xs e" "distinct xs" "xs \<noteq> []"
  shows "links (nx(last xs := e')) xs e'"
proof -
  obtain ys y where xs: "xs = ys @ [y]" using assms(3) by (cases xs rule: rev_cases) auto
  show ?thesis using links_upd_last [of ys y nx e e'] assms unfolding xs by simp
qed

subsection \<open>Lists\<close>

lemma hd_append_singleton: "hd (xs @ [e]) = (if xs = [] then e else hd xs)"
  by (cases xs) auto

lemma hd_end_iff: "e \<notin> set xs \<Longrightarrow> hd (xs @ [e]) = e \<longleftrightarrow> xs = []"
  by (cases xs) auto

lemma remove1_split: "x \<notin> set xs \<Longrightarrow> remove1 x (xs @ x # ys) = xs @ ys"
  by (simp add: remove1_append)

end
