(* ===== verification/Object_Pool.thy ===== *)
theory Object_Pool
  imports FG_Prelude
begin

section \<open>The object pool (\<^verbatim>\<open>fgutil/src/util/object_pool.c\<close>)\<close>

text \<open>
  The store that the lists of the thread library live in, the bump allocator that stands for
  \<^verbatim>\<open>malloc\<close>, and the pool of equally sized objects carved out of malloced blocks.
  An object is named by its address; a field of an object is a function from addresses, as in
  Burstall's model.  The theorems: the pool never hands out an object that overlaps a live one,
  every object it holds stays inside allocated memory, and returning an object makes it
  available again in last-in first-out order.
\<close>

subsection \<open>Store and malloc\<close>

record 'd heap =
  h_next :: "addr \<Rightarrow> addr"
  h_prev :: "addr \<Rightarrow> addr"
  h_list :: "addr \<Rightarrow> addr"
  h_data :: "addr \<Rightarrow> 'd"
  h_brk :: addr
  h_limit :: addr

text \<open>
  \<^verbatim>\<open>malloc\<close>: the next \<open>n\<close> bytes above the break, or \<open>NULL\<close> when they do not
  fit under the limit.
\<close>

definition malloc :: "nat \<Rightarrow> 'd heap \<Rightarrow> addr \<times> 'd heap" where
  "malloc n h = (if h_brk h + n \<le> h_limit h then (h_brk h, h\<lparr>h_brk := h_brk h + n\<rparr>) else (NULL, h))"

subsection \<open>The pool\<close>

record object_pool =
  entry_size :: nat
  malloc_size :: nat
  free_entries :: addr
  num_free_entries :: nat
  malloced_entries :: addr
  num_malloced_entries :: nat

text \<open>
  Sizes of \<^verbatim>\<open>object_pool_entry_t\<close> (two pointers of eight bytes) and of
  \<^verbatim>\<open>object_pool_t\<close>.
\<close>

definition sizeof_object_pool_entry :: nat where
  "sizeof_object_pool_entry = 16"

definition sizeof_object_pool :: nat where
  "sizeof_object_pool = 40"

text \<open>
  \<^verbatim>\<open>free_entries\<close> and \<^verbatim>\<open>malloced_entries\<close> are not initialised by the code: they are
  the arguments \<open>junk\<close> and \<open>junk'\<close> here, and no theorem depends on them.  Sizes are natural numbers:
  \<open>100 * esize\<close> and the rounding up to whole blocks are taken to fit their C types, as they do for
  the entries of the library, of a few words each.
\<close>

definition new_object_pool ::
  "addr \<Rightarrow> addr \<Rightarrow> nat \<Rightarrow> nat \<Rightarrow> 'd heap \<Rightarrow> (object_pool \<times> 'd heap) outcome" where
  "new_object_pool junk junk' esize min_alloc_block h =
     (let (p, h') = malloc sizeof_object_pool h in
      bind_outcome (check (p \<noteq> NULL) ''pool'') (\<lambda>_.
      bind_outcome (check (esize > sizeof_object_pool_entry) ''entry_size'') (\<lambda>_.
        let msize = 100 * esize in
        Inr (\<lparr>entry_size = esize,
              malloc_size = (if msize \<le> min_alloc_block then min_alloc_block
                             else (msize div min_alloc_block + 1) * min_alloc_block),
              free_entries = junk,
              num_free_entries = 0,
              malloced_entries = junk',
              num_malloced_entries = 0\<rparr>, h'))))"

definition op_new_object :: "object_pool \<Rightarrow> 'd heap \<Rightarrow> (addr \<times> object_pool \<times> 'd heap) outcome" where
  "op_new_object pool h =
     (if num_free_entries pool > 0 then
        let ne = free_entries pool in
        Inr (ne, pool\<lparr>free_entries := h_next h ne,
                      num_free_entries := num_free_entries pool - 1\<rparr>, h)
      else
        bind_outcome
          (if num_malloced_entries pool = 0 then
             let (p, h') = malloc (malloc_size pool) h in
             bind_outcome (check (p \<noteq> NULL) ''malloced_entries'') (\<lambda>_.
               Inr (pool\<lparr>malloced_entries := p,
                         num_malloced_entries := malloc_size pool div entry_size pool\<rparr>, h'))
           else Inr (pool, h))
          (\<lambda>(pool, h).
             let ne = malloced_entries pool in
             Inr (ne, pool\<lparr>malloced_entries := malloced_entries pool + entry_size pool,
                           num_malloced_entries := num_malloced_entries pool - 1\<rparr>, h)))"

definition op_free_entry :: "object_pool \<Rightarrow> addr \<Rightarrow> 'd heap \<Rightarrow> object_pool \<times> 'd heap" where
  "op_free_entry pool e h =
     (pool\<lparr>free_entries := e, num_free_entries := num_free_entries pool + 1\<rparr>,
      h\<lparr>h_next := (h_next h)(e := free_entries pool)\<rparr>)"

subsection \<open>Invariant\<close>

text \<open>Objects of size \<open>sz\<close> at the addresses of \<open>A\<close> do not overlap.\<close>

definition spaced :: "nat \<Rightarrow> addr set \<Rightarrow> bool" where
  "spaced sz A \<longleftrightarrow> (\<forall>a\<in>A. \<forall>b\<in>A. a < b \<longrightarrow> a + sz \<le> b)"

definition region :: "object_pool \<Rightarrow> addr set" where
  "region pool = (\<lambda>i. malloced_entries pool + i * entry_size pool) ` {..<num_malloced_entries pool}"

text \<open>
  \<open>pool_inv pool h fs L\<close>: \<open>fs\<close> are the objects on the free list, in order, and \<open>L\<close> the
  objects handed out and not yet returned.  The free list is counted and not terminated: the
  last \<^verbatim>\<open>next\<close> field holds an arbitrary address.
\<close>

definition pool_inv :: "object_pool \<Rightarrow> 'd heap \<Rightarrow> addr list \<Rightarrow> addr set \<Rightarrow> bool" where
  "pool_inv pool h fs L \<longleftrightarrow>
     0 < entry_size pool \<and> entry_size pool \<le> malloc_size pool \<and> 0 < h_brk h \<and>
     num_free_entries pool = length fs \<and>
     (fs \<noteq> [] \<longrightarrow> free_entries pool = hd fs) \<and>
     (\<exists>z. links (h_next h) fs z) \<and>
     distinct fs \<and> set fs \<inter> L = {} \<and> region pool \<inter> (set fs \<union> L) = {} \<and>
     spaced (entry_size pool) (set fs \<union> L \<union> region pool) \<and>
     (\<forall>a \<in> set fs \<union> L \<union> region pool. 0 < a \<and> a + entry_size pool \<le> h_brk h)"

lemma pool_invD:
  assumes "pool_inv pool h fs L"
  shows "0 < entry_size pool" "entry_size pool \<le> malloc_size pool" "0 < h_brk h"
    "num_free_entries pool = length fs" "distinct fs" "set fs \<inter> L = {}"
    "region pool \<inter> (set fs \<union> L) = {}"
    "spaced (entry_size pool) (set fs \<union> L \<union> region pool)"
    "\<And>a. a \<in> set fs \<union> L \<union> region pool \<Longrightarrow> 0 < a \<and> a + entry_size pool \<le> h_brk h"
    "fs \<noteq> [] \<Longrightarrow> free_entries pool = hd fs" "\<exists>z. links (h_next h) fs z"
  using assms by (auto simp: pool_inv_def)

lemma spacedD:
  "spaced sz A \<Longrightarrow> a \<in> A \<Longrightarrow> b \<in> A \<Longrightarrow> a \<noteq> b \<Longrightarrow> a + sz \<le> b \<or> b + sz \<le> a"
  by (cases "a < b") (auto simp: spaced_def not_less_iff_gr_or_eq)

lemma malloc_brk_mono: "malloc n h = (p, h') \<Longrightarrow> h_brk h \<le> h_brk h'"
  by (auto simp: malloc_def split: if_splits)

lemma new_object_pool_inv:
  assumes new: "new_object_pool junk junk' esize blk h = Inr (pool, h')"
    and "0 < h_brk h" "0 < blk"
  shows "pool_inv pool h' [] {}"
proof -
  let ?ms = "100 * esize"
  have "?ms < (?ms div blk + 1) * blk"
    using assms(3) by (metis Suc_eq_plus1 dividend_less_div_times mult_Suc add.commute)
  then have "esize \<le> (?ms div blk + 1) * blk" by simp
  moreover have "0 < h_brk h'"
    using new assms(2) by (auto simp: new_object_pool_def bind_outcome_Inr_iff Let_def
        dest!: malloc_brk_mono split: prod.splits)
  ultimately show ?thesis
    using new
    by (auto simp: new_object_pool_def bind_outcome_Inr_iff pool_inv_def region_def spaced_def
        sizeof_object_pool_entry_def Let_def split: prod.splits)
qed

lemma region_pop:
  assumes "0 < num_malloced_entries pool"
  shows "region pool = insert (malloced_entries pool)
           (region (pool\<lparr>malloced_entries := malloced_entries pool + entry_size pool,
                         num_malloced_entries := num_malloced_entries pool - 1\<rparr>))"
proof -
  obtain k where k: "num_malloced_entries pool = Suc k" using assms gr0_conv_Suc by blast
  show ?thesis
    by (simp add: region_def k lessThan_Suc_eq_insert_0 image_image algebra_simps)
qed

lemma region_pop_notin:
  assumes "0 < num_malloced_entries pool" "0 < entry_size pool"
  shows "malloced_entries pool \<notin> region (pool\<lparr>malloced_entries := malloced_entries pool + entry_size pool,
                         num_malloced_entries := num_malloced_entries pool - 1\<rparr>)"
  using assms by (auto simp: region_def)

lemma region_block_bound:
  assumes "a \<in> region pool" "num_malloced_entries pool = n div entry_size pool" "0 < entry_size pool"
  shows "a + entry_size pool \<le> malloced_entries pool + n"
proof -
  obtain i where i: "i < n div entry_size pool" "a = malloced_entries pool + i * entry_size pool"
    using assms(1,2) by (auto simp: region_def)
  have "Suc i * entry_size pool \<le> (n div entry_size pool) * entry_size pool"
    using i(1) by (intro mult_le_mono1) simp
  also have "\<dots> \<le> n" by simp
  finally show ?thesis using i(2) by simp
qed

lemma region_spaced: "0 < entry_size pool \<Longrightarrow> spaced (entry_size pool) (region pool)"
proof -
  assume sz: "0 < entry_size pool"
  have "i * s + s \<le> j * s" if "i * s < j * s" for i j s :: nat
  proof -
    have "Suc i \<le> j" using that by auto
    then have "Suc i * s \<le> j * s" by (rule mult_le_mono1)
    then show ?thesis by simp
  qed
  then show ?thesis using sz by (auto simp: spaced_def region_def)
qed

text \<open>Refilling an exhausted pool: the new block lies above every object the pool had.\<close>

lemma pool_inv_refill:
  assumes inv: "pool_inv pool h [] L" and r: "num_malloced_entries pool = 0"
    and m: "malloc (malloc_size pool) h = (p, h')" "p \<noteq> NULL"
  shows "pool_inv (pool\<lparr>malloced_entries := p,
                        num_malloced_entries := malloc_size pool div entry_size pool\<rparr>) h' [] L"
    (is "pool_inv ?pool h' [] L")
proof -
  note D = pool_invD [OF inv]
  from m have p: "p = h_brk h" "h' = h\<lparr>h_brk := h_brk h + malloc_size pool\<rparr>"
    by (auto simp: malloc_def split: if_splits)
  have old: "0 < a \<and> a + entry_size pool \<le> p" if "a \<in> L" for a
    using D(9) [of a] that p by auto
  have new: "p \<le> a \<and> a + entry_size pool \<le> p + malloc_size pool" if "a \<in> region ?pool" for a
    using region_block_bound [of a ?pool "malloc_size pool"] that D(1) by (auto simp: region_def)
  have sp: "spaced (entry_size pool) (region ?pool)"
    using region_spaced [of ?pool] D(1) by simp
  have Lsp: "spaced (entry_size pool) L"
    using D(8) by (auto simp: spaced_def)
  have "spaced (entry_size pool) (L \<union> region ?pool)"
    unfolding spaced_def
  proof (intro ballI impI)
    fix a b assume ab: "a \<in> L \<union> region ?pool" "b \<in> L \<union> region ?pool" "a < b"
    consider "a \<in> L" "b \<in> L" | "a \<in> L" "b \<in> region ?pool" | "a \<in> region ?pool" "b \<in> L"
      | "a \<in> region ?pool" "b \<in> region ?pool" using ab by blast
    then show "a + entry_size pool \<le> b"
    proof cases
      case 1 with Lsp ab(3) show ?thesis by (auto simp: spaced_def)
    next
      case 2 with old [of a] new [of b] show ?thesis by auto
    next
      case 3 with old [of b] new [of a] ab(3) show ?thesis by auto
    next
      case 4 with sp ab(3) show ?thesis by (auto simp: spaced_def)
    qed
  qed
  moreover have "region ?pool \<inter> L = {}"
    using old new D(1) by fastforce
  moreover have "0 < a \<and> a + entry_size pool \<le> h_brk h'" if "a \<in> L \<union> region ?pool" for a
    using that old [of a] new [of a] p D(3) by auto
  ultimately show ?thesis
    using D p by (auto simp: pool_inv_def)
qed

text \<open>Taking an object: it was not live before, it is now, and the store's fields are untouched.\<close>

lemma op_new_object_inv:
  assumes inv: "pool_inv pool h fs L" and new: "op_new_object pool h = Inr (ne, pool', h')"
  shows "\<exists>fs'. pool_inv pool' h' fs' (insert ne L) \<and> set fs' \<subseteq> set fs" "ne \<notin> L" "ne \<noteq> NULL"
    "h_next h' = h_next h" "h_prev h' = h_prev h" "h_list h' = h_list h" "h_data h' = h_data h"
    "entry_size pool' = entry_size pool"
proof -
  note D = pool_invD [OF inv]
  have "(\<exists>fs'. pool_inv pool' h' fs' (insert ne L) \<and> set fs' \<subseteq> set fs) \<and> ne \<notin> L \<and> ne \<noteq> NULL \<and>
    h_next h' = h_next h \<and> h_prev h' = h_prev h \<and> h_list h' = h_list h \<and> h_data h' = h_data h
    \<and> entry_size pool' = entry_size pool"
  proof (cases "num_free_entries pool > 0")
    case True
    then obtain x xs where fs: "fs = x # xs" using D(4) by (cases fs) auto
    have ne: "ne = x" "pool' = pool\<lparr>free_entries := h_next h x,
        num_free_entries := num_free_entries pool - 1\<rparr>" "h' = h"
      using new True D(10) fs by (auto simp: op_new_object_def Let_def)
    obtain z where z: "links (h_next h) (x # xs) z" using D(11) fs by auto
    have reg: "region pool' = region pool" by (simp add: ne region_def)
    have "pool_inv pool' h' xs (insert ne L)"
      using D z fs reg unfolding pool_inv_def ne
      by (auto simp: links_Cons hd_append_singleton)
    then show ?thesis using D(6) D(9) [of x] fs ne by auto
  next
    case False
    then have fs: "fs = []" using D(4) by auto
    obtain pool1 h1 where p1: "pool_inv pool1 h1 [] L" "0 < num_malloced_entries pool1"
      "ne = malloced_entries pool1"
      "pool' = pool1\<lparr>malloced_entries := malloced_entries pool1 + entry_size pool1,
                      num_malloced_entries := num_malloced_entries pool1 - 1\<rparr>" "h' = h1"
      "h_next h1 = h_next h" "h_prev h1 = h_prev h" "h_list h1 = h_list h" "h_data h1 = h_data h"
      "entry_size pool1 = entry_size pool" "num_free_entries pool1 = 0"
    proof (cases "num_malloced_entries pool = 0")
      case True
      obtain p h2 where m: "malloc (malloc_size pool) h = (p, h2)" by fastforce
      have "0 < malloc_size pool div entry_size pool"
        using D(1,2) by (simp add: div_greater_zero_iff)
      moreover have "p \<noteq> NULL" using new False True m
        by (auto simp: op_new_object_def bind_outcome_Inr_iff check_def split: if_splits)
      ultimately show ?thesis
        using new False True m pool_inv_refill [OF inv [unfolded fs] True m] D(4) fs
        by (intro that [of "pool\<lparr>malloced_entries := p,
              num_malloced_entries := malloc_size pool div entry_size pool\<rparr>" h2])
          (auto simp: op_new_object_def malloc_def Let_def split: if_splits)
    next
      case nz: False
      show ?thesis
        using new False nz inv fs D(4)
        by (intro that [of pool h]) (auto simp: op_new_object_def Let_def)
    qed
    note D1 = pool_invD [OF p1(1)]
    have reg: "region pool1 = insert ne (region pool')" and nin: "ne \<notin> region pool'"
      using region_pop [OF p1(2)] region_pop_notin [OF p1(2) D1(1)] p1(3,4) by auto
    have "pool_inv pool' h' [] (insert ne L)"
      using D1 p1 reg nin unfolding pool_inv_def by (auto simp: insert_commute)
    then show ?thesis using D1(7) D1(9) [of ne] reg p1 fs by auto
  qed
  then show "\<exists>fs'. pool_inv pool' h' fs' (insert ne L) \<and> set fs' \<subseteq> set fs" "ne \<notin> L" "ne \<noteq> NULL"
    "h_next h' = h_next h" "h_prev h' = h_prev h" "h_list h' = h_list h" "h_data h' = h_data h"
    "entry_size pool' = entry_size pool" by auto
qed

lemma op_new_object_mem:
  assumes "op_new_object pool h = Inr (ne, pool', h')"
  shows "h_brk h' \<le> h_brk h + malloc_size pool" "h_limit h' = h_limit h"
    "malloc_size pool' = malloc_size pool"
  using assms by (auto simp: op_new_object_def bind_outcome_Inr_iff malloc_def Let_def split: if_splits)

lemma op_new_object_succeeds:
  assumes "0 < h_brk h" "h_brk h + malloc_size pool \<le> h_limit h"
  shows "\<exists>r. op_new_object pool h = Inr r"
  using assms by (auto simp: op_new_object_def malloc_def Let_def)

lemma op_free_entry_inv:
  assumes inv: "pool_inv pool h fs L" and e: "e \<in> L"
    and free: "op_free_entry pool e h = (pool', h')"
  shows "pool_inv pool' h' (e # fs) (L - {e})"
proof -
  note D = pool_invD [OF inv]
  have h': "h' = h\<lparr>h_next := (h_next h)(e := free_entries pool)\<rparr>"
    and p': "pool' = pool\<lparr>free_entries := e, num_free_entries := num_free_entries pool + 1\<rparr>"
    using free by (auto simp: op_free_entry_def)
  have enf: "e \<notin> set fs" using D(6) e by auto
  obtain z where z: "links (h_next h) fs z" using D(11) by auto
  have "links (h_next h') (e # fs) (if fs = [] then free_entries pool else z)"
    using z D(10) enf by (auto simp: h' links_Cons hd_append_singleton)
  moreover have reg: "region pool' = region pool" by (simp add: p' region_def)
  moreover have "set (e # fs) \<union> (L - {e}) = set fs \<union> L" using e by auto
  ultimately show ?thesis
    using D enf e unfolding pool_inv_def h' p' by (auto simp: insert_absorb)
qed

subsection \<open>Properties\<close>

text \<open>
  C1.  An object taken from the pool never overlaps an object that is live: it lies at least one
  entry size away from each of them, inside allocated memory, and it is not NULL.  With the block
  size asked of \<^verbatim>\<open>malloc\<close> still available, the request succeeds.
\<close>

theorem op_new_object_no_overlap:
  assumes "pool_inv pool h fs L" "h_brk h + malloc_size pool \<le> h_limit h"
  shows "\<exists>ne pool' h'. op_new_object pool h = Inr (ne, pool', h') \<and> ne \<noteq> NULL \<and>
    ne + entry_size pool \<le> h_brk h' \<and>
    (\<forall>a \<in> L. a + entry_size pool \<le> ne \<or> ne + entry_size pool \<le> a) \<and>
    (\<exists>fs'. pool_inv pool' h' fs' (insert ne L))"
proof -
  obtain ne pool' h' where r: "op_new_object pool h = Inr (ne, pool', h')"
    using op_new_object_succeeds [OF pool_invD(3) [OF assms(1)] assms(2)] by auto
  note O = op_new_object_inv [OF assms(1) r]
  obtain fs' where fs': "pool_inv pool' h' fs' (insert ne L)" using O(1) by auto
  have "a + entry_size pool \<le> ne \<or> ne + entry_size pool \<le> a" if "a \<in> L" for a
    using spacedD [OF pool_invD(8) [OF fs'], of a ne] that O(2,8) by auto
  moreover have "ne + entry_size pool \<le> h_brk h'" using pool_invD(9) [OF fs', of ne] O(8) by auto
  ultimately show ?thesis using r O(3) fs' by blast
qed

theorem op_new_object_no_overlap_witness:
  "\<exists>pool h. new_object_pool 7 9 32 1024
      \<lparr>h_next = (\<lambda>_. 0), h_prev = (\<lambda>_. 0), h_list = (\<lambda>_. 0), h_data = (\<lambda>_. 0 :: nat),
       h_brk = 8, h_limit = 100000\<rparr> = Inr (pool, h) \<and>
     (\<exists>ne pool' h'. op_new_object pool h = Inr (ne, pool', h') \<and> ne \<noteq> NULL)"
proof -
  let ?h = "\<lparr>h_next = (\<lambda>_. 0), h_prev = (\<lambda>_. 0), h_list = (\<lambda>_. 0), h_data = (\<lambda>_. 0 :: nat),
       h_brk = 8, h_limit = 100000\<rparr>"
  let ?p = "\<lparr>entry_size = 32, malloc_size = 4096, free_entries = 7, num_free_entries = 0,
       malloced_entries = 9, num_malloced_entries = 0\<rparr>"
  have n: "new_object_pool 7 9 32 1024 ?h = Inr (?p, ?h\<lparr>h_brk := 48\<rparr>)"
    by (simp add: new_object_pool_def malloc_def sizeof_object_pool_def sizeof_object_pool_entry_def)
  have i: "pool_inv ?p (?h\<lparr>h_brk := 48\<rparr>) [] {}"
    by (rule new_object_pool_inv [OF n]) simp_all
  show ?thesis using n op_new_object_no_overlap [OF i] by auto
qed

end
