(* ===== verification/Linked_List.thy ===== *)
theory Linked_List
  imports Object_Pool
begin

section \<open>Doubly linked lists (\<^verbatim>\<open>fgutil/src/util/linked_list.c\<close>)\<close>

text \<open>
  The lists that hold runnable, sleeping and existing threads.  Every operation of the file is
  translated pointer assignment by pointer assignment over the store of the pool theory.  The
  invariant \<open>ll_inv ll h xs\<close> says that the entries of the list are \<open>xs\<close>, head first, that the
  forward and the backward chain agree, that the counter is right and that the entries are live
  objects of the list's pool.  Every operation keeps it and has the effect on \<open>xs\<close> that its
  comment promises; through the locale \<open>pointer_list\<close> the list is a refinement of HOL lists.
\<close>

subsection \<open>The structure\<close>

text \<open>
  \<^verbatim>\<open>linked_list_t\<close>; \<open>ll_self\<close> is the address of the structure, which
  \<^verbatim>\<open>e->list\<close> holds while the entry \<^verbatim>\<open>e\<close> is on the list.
\<close>

record linked_list =
  ll_self :: addr
  ll_name :: string
  num_entries :: int
  ll_head :: addr
  ll_tail :: addr
  ll_pool :: object_pool

definition MIN_ALLOC_BLOCK :: nat where
  "MIN_ALLOC_BLOCK = 1024"

text \<open>Sizes of \<^verbatim>\<open>linked_list_entry_t\<close> and of \<^verbatim>\<open>pointer_list_entry_t\<close>.\<close>

definition sizeof_linked_list_entry :: nat where
  "sizeof_linked_list_entry = 24"

definition sizeof_pointer_list_entry :: nat where
  "sizeof_pointer_list_entry = 32"

definition sizeof_linked_list :: nat where
  "sizeof_linked_list = 40"

definition ll_free_entry :: "linked_list \<Rightarrow> addr \<Rightarrow> 'd heap \<Rightarrow> linked_list \<times> 'd heap" where
  "ll_free_entry ll e h =
     (let (pool', h') = op_free_entry (ll_pool ll) e h in (ll\<lparr>ll_pool := pool'\<rparr>, h'))"

definition ll_init :: "addr \<Rightarrow> string option \<Rightarrow> object_pool \<Rightarrow> linked_list" where
  "ll_init self name pool =
     \<lparr>ll_self = self,
      ll_name = (case name of Some n \<Rightarrow> n | None \<Rightarrow> ''noname''),
      num_entries = 0, ll_head = NULL, ll_tail = NULL, ll_pool = pool\<rparr>"

definition new_linked_list ::
  "addr \<Rightarrow> addr \<Rightarrow> string option \<Rightarrow> nat \<Rightarrow> 'd heap \<Rightarrow> (linked_list \<times> 'd heap) outcome" where
  "new_linked_list junk junk' name esize h =
     bind_outcome (check (esize > sizeof_linked_list_entry) ''entry_size'') (\<lambda>_.
       let (self, h1) = malloc sizeof_linked_list h in
       bind_outcome (check (self \<noteq> NULL) ''ll'') (\<lambda>_.
       bind_outcome (new_object_pool junk junk' esize MIN_ALLOC_BLOCK h1) (\<lambda>(pool, h2).
         Inr (ll_init self name pool, h2))))"

subsection \<open>Adding entries\<close>

definition ll_add_existing_to_tail :: "linked_list \<Rightarrow> addr \<Rightarrow> 'd heap \<Rightarrow> linked_list \<times> 'd heap" where
  "ll_add_existing_to_tail ll e h0 =
     (let h = h0\<lparr>h_list := (h_list h0)(e := ll_self ll)\<rparr> in
      if ll_head ll = NULL then
        (ll\<lparr>ll_head := e, ll_tail := e, num_entries := num_entries ll + 1\<rparr>,
         h\<lparr>h_next := (h_next h)(e := NULL), h_prev := (h_prev h)(e := NULL)\<rparr>)
      else
        (ll\<lparr>ll_tail := e, num_entries := num_entries ll + 1\<rparr>,
         h\<lparr>h_next := (h_next h)(ll_tail ll := e, e := NULL),
           h_prev := (h_prev h)(e := ll_tail ll)\<rparr>))"

definition ll_add_existing_to_head :: "linked_list \<Rightarrow> addr \<Rightarrow> 'd heap \<Rightarrow> linked_list \<times> 'd heap" where
  "ll_add_existing_to_head ll e h0 =
     (let h = h0\<lparr>h_list := (h_list h0)(e := ll_self ll)\<rparr> in
      if ll_head ll = NULL then
        (ll\<lparr>ll_head := e, ll_tail := e, num_entries := num_entries ll + 1\<rparr>,
         h\<lparr>h_next := (h_next h)(e := NULL), h_prev := (h_prev h)(e := NULL)\<rparr>)
      else
        (ll\<lparr>ll_head := e, num_entries := num_entries ll + 1\<rparr>,
         h\<lparr>h_next := (h_next h)(e := ll_head ll),
           h_prev := (h_prev h)(e := NULL, ll_head ll := e)\<rparr>))"

definition ll_insert_existing_before ::
  "linked_list \<Rightarrow> addr \<Rightarrow> addr \<Rightarrow> 'd heap \<Rightarrow> (linked_list \<times> 'd heap) outcome" where
  "ll_insert_existing_before ll e newe h0 =
     bind_outcome (check (e \<noteq> NULL) ''e != NULL'') (\<lambda>_.
       let h1 = h0\<lparr>h_list := (h_list h0)(newe := ll_self ll)\<rparr>;
           h2 = h1\<lparr>h_next := (h_next h1)(newe := e), h_prev := (h_prev h1)(newe := h_prev h1 e)\<rparr>;
           (ll', h3) = (if e = ll_head ll then (ll\<lparr>ll_head := newe\<rparr>, h2)
                        else (ll, h2\<lparr>h_next := (h_next h2)(h_prev h2 e := newe)\<rparr>))
       in Inr (ll'\<lparr>num_entries := num_entries ll' + 1\<rparr>,
               h3\<lparr>h_prev := (h_prev h3)(e := newe)\<rparr>))"

definition ll_add_tail :: "linked_list \<Rightarrow> 'd heap \<Rightarrow> (addr \<times> linked_list \<times> 'd heap) outcome" where
  "ll_add_tail ll h =
     bind_outcome (op_new_object (ll_pool ll) h) (\<lambda>(e, pool', h').
       Inr (e, ll_add_existing_to_tail (ll\<lparr>ll_pool := pool'\<rparr>) e h'))"

definition ll_add_head :: "linked_list \<Rightarrow> 'd heap \<Rightarrow> (addr \<times> linked_list \<times> 'd heap) outcome" where
  "ll_add_head ll h =
     bind_outcome (op_new_object (ll_pool ll) h) (\<lambda>(e, pool', h').
       Inr (e, ll_add_existing_to_head (ll\<lparr>ll_pool := pool'\<rparr>) e h'))"

definition ll_insert_before ::
  "linked_list \<Rightarrow> addr \<Rightarrow> 'd heap \<Rightarrow> (addr \<times> linked_list \<times> 'd heap) outcome" where
  "ll_insert_before ll item h =
     bind_outcome (check (h_list h item = ll_self ll) ''item->list == ll'') (\<lambda>_.
     bind_outcome (op_new_object (ll_pool ll) h) (\<lambda>(e, pool', h').
     bind_outcome (ll_insert_existing_before (ll\<lparr>ll_pool := pool'\<rparr>) item e h') (\<lambda>r.
       Inr (e, r))))"

subsection \<open>Removing entries\<close>

definition ll_remove_head :: "linked_list \<Rightarrow> 'd heap \<Rightarrow> addr \<times> linked_list \<times> 'd heap" where
  "ll_remove_head ll h =
     (if ll_head ll = NULL then (NULL, ll, h)
      else
        let e = ll_head ll;
            ll1 = ll\<lparr>num_entries := num_entries ll - 1, ll_head := h_next h e\<rparr>;
            (ll2, h2) = (if ll_head ll1 = NULL then (ll1\<lparr>ll_tail := NULL\<rparr>, h)
                         else (ll1, h\<lparr>h_prev := (h_prev h)(ll_head ll1 := NULL)\<rparr>))
        in (e, ll2, h2\<lparr>h_list := (h_list h2)(e := NULL)\<rparr>))"

definition ll_remove_tail :: "linked_list \<Rightarrow> 'd heap \<Rightarrow> addr \<times> linked_list \<times> 'd heap" where
  "ll_remove_tail ll h =
     (if ll_tail ll = NULL then (NULL, ll, h)
      else
        let e = ll_tail ll;
            ll1 = ll\<lparr>num_entries := num_entries ll - 1, ll_tail := h_prev h e\<rparr>;
            (ll2, h2) = (if ll_tail ll1 = NULL then (ll1\<lparr>ll_head := NULL\<rparr>, h)
                         else (ll1, h\<lparr>h_next := (h_next h)(ll_tail ll1 := NULL)\<rparr>))
        in (e, ll2, h2\<lparr>h_list := (h_list h2)(e := NULL)\<rparr>))"

definition ll_remove_entry :: "linked_list \<Rightarrow> addr \<Rightarrow> 'd heap \<Rightarrow> linked_list \<times> 'd heap" where
  "ll_remove_entry ll e h0 =
     (if h_list h0 e \<noteq> ll_self ll then (ll, h0)
      else
        let h = h0\<lparr>h_list := (h_list h0)(e := NULL)\<rparr>;
            p = h_prev h e; n = h_next h e;
            h1 = (if p \<noteq> NULL then h\<lparr>h_next := (h_next h)(p := n)\<rparr> else h);
            h2 = (if n \<noteq> NULL then h1\<lparr>h_prev := (h_prev h1)(n := p)\<rparr> else h1);
            ll1 = (if p = NULL then ll\<lparr>ll_head := n\<rparr> else ll);
            ll2 = (if n = NULL then ll1\<lparr>ll_tail := p\<rparr> else ll1)
        in (ll2\<lparr>num_entries := num_entries ll2 - 1\<rparr>, h2))"

definition ll_size :: "linked_list \<Rightarrow> int" where
  "ll_size ll = num_entries ll"

definition ll_view_head :: "linked_list \<Rightarrow> addr" where
  "ll_view_head ll = ll_head ll"

definition ll_view_tail :: "linked_list \<Rightarrow> addr" where
  "ll_view_tail ll = ll_tail ll"

definition ll_view_next :: "linked_list \<Rightarrow> addr \<Rightarrow> 'd heap \<Rightarrow> addr outcome" where
  "ll_view_next ll e h =
     bind_outcome (check (h_list h e = ll_self ll) ''e->list == ll'') (\<lambda>_. Inr (h_next h e))"

definition ll_view_prev :: "linked_list \<Rightarrow> addr \<Rightarrow> 'd heap \<Rightarrow> addr outcome" where
  "ll_view_prev ll e h =
     bind_outcome (check (h_list h e = ll_self ll) ''e->list == ll'') (\<lambda>_. Inr (h_prev h e))"

subsection \<open>Pointer lists\<close>

text \<open>
  The value \<^verbatim>\<open>(void*)-1\<close> with which \<^verbatim>\<open>pl_remove_head\<close>, \<^verbatim>\<open>pl_remove_tail\<close> and
  \<^verbatim>\<open>pl_view_head\<close> answer on an empty list is \<open>None\<close>.
\<close>

definition new_pointer_list ::
  "addr \<Rightarrow> addr \<Rightarrow> string option \<Rightarrow> 'd heap \<Rightarrow> (linked_list \<times> 'd heap) outcome" where
  "new_pointer_list junk junk' name h = new_linked_list junk junk' name sizeof_pointer_list_entry h"

definition pl_set_pointer :: "addr \<Rightarrow> 'd \<Rightarrow> 'd heap \<Rightarrow> 'd heap" where
  "pl_set_pointer e d h = h\<lparr>h_data := (h_data h)(e := d)\<rparr>"

definition pl_get_pointer :: "addr \<Rightarrow> 'd heap \<Rightarrow> 'd" where
  "pl_get_pointer e h = h_data h e"

definition pl_add_tail :: "'d \<Rightarrow> linked_list \<times> 'd heap \<Rightarrow> (linked_list \<times> 'd heap) outcome" where
  "pl_add_tail d s =
     bind_outcome (ll_add_tail (fst s) (snd s)) (\<lambda>(e, ll', h'). Inr (ll', pl_set_pointer e d h'))"

definition pl_add_head :: "'d \<Rightarrow> linked_list \<times> 'd heap \<Rightarrow> (linked_list \<times> 'd heap) outcome" where
  "pl_add_head d s =
     bind_outcome (ll_add_head (fst s) (snd s)) (\<lambda>(e, ll', h'). Inr (ll', pl_set_pointer e d h'))"

definition pl_remove_head :: "linked_list \<times> 'd heap \<Rightarrow> 'd option \<times> linked_list \<times> 'd heap" where
  "pl_remove_head s =
     (let (e, ll', h') = ll_remove_head (fst s) (snd s) in
      if e = NULL then (None, ll', h')
      else let data = pl_get_pointer e h' in (Some data, ll_free_entry ll' e h'))"

definition pl_remove_tail :: "linked_list \<times> 'd heap \<Rightarrow> 'd option \<times> linked_list \<times> 'd heap" where
  "pl_remove_tail s =
     (let (e, ll', h') = ll_remove_tail (fst s) (snd s) in
      if e = NULL then (None, ll', h')
      else let data = pl_get_pointer e h' in (Some data, ll_free_entry ll' e h'))"

text \<open>The search loop of \<^verbatim>\<open>pl_remove_pointer\<close>; on a cyclic chain it does not return.\<close>

partial_function (option) pl_find :: "'d heap \<Rightarrow> 'd \<Rightarrow> addr \<Rightarrow> addr option" where
  "pl_find h d e = (if e \<noteq> NULL \<and> h_data h e \<noteq> d then pl_find h d (h_next h e) else Some e)"

definition pl_remove_pointer :: "'d \<Rightarrow> linked_list \<times> 'd heap \<Rightarrow> (linked_list \<times> 'd heap) option" where
  "pl_remove_pointer d s =
     (case pl_find (snd s) d (ll_view_head (fst s)) of
        None \<Rightarrow> None
      | Some e \<Rightarrow> Some (if e \<noteq> NULL then ll_remove_entry (fst s) e (snd s) else s))"

definition pl_size :: "linked_list \<times> 'd heap \<Rightarrow> int" where
  "pl_size s = num_entries (fst s)"

definition pl_view_head :: "linked_list \<times> 'd heap \<Rightarrow> 'd option" where
  "pl_view_head s =
     (let e = ll_view_head (fst s) in if e = NULL then None else Some (pl_get_pointer e (snd s)))"

subsection \<open>Invariant\<close>

text \<open>The two chains, the end pointers, the counter and the owner fields.\<close>

definition dll :: "linked_list \<Rightarrow> 'd heap \<Rightarrow> addr list \<Rightarrow> bool" where
  "dll ll h xs \<longleftrightarrow>
     links (h_next h) xs NULL \<and> links (h_prev h) (rev xs) NULL \<and>
     ll_head ll = hd (xs @ [NULL]) \<and> ll_tail ll = hd (rev xs @ [NULL]) \<and>
     distinct xs \<and> NULL \<notin> set xs \<and> num_entries ll = int (length xs) \<and>
     ll_self ll \<noteq> NULL \<and> (\<forall>x \<in> set xs. h_list h x = ll_self ll)"

definition ll_inv :: "linked_list \<Rightarrow> 'd heap \<Rightarrow> addr list \<Rightarrow> bool" where
  "ll_inv ll h xs \<longleftrightarrow> dll ll h xs \<and> (\<exists>fs L. pool_inv (ll_pool ll) h fs L \<and> set xs \<subseteq> L)"

definition pl_inv :: "linked_list \<times> 'd heap \<Rightarrow> bool" where
  "pl_inv s \<longleftrightarrow> (\<exists>xs. ll_inv (fst s) (snd s) xs)"

text \<open>The entries of a list, read off the forward chain; \<open>num_entries\<close> bounds the walk.\<close>

fun walk :: "(addr \<Rightarrow> addr) \<Rightarrow> addr \<Rightarrow> nat \<Rightarrow> addr list" where
  "walk nx e 0 = []"
| "walk nx e (Suc n) = e # walk nx (nx e) n"

definition pl_entries :: "linked_list \<times> 'd heap \<Rightarrow> addr list" where
  "pl_entries s = walk (h_next (snd s)) (ll_head (fst s)) (nat (num_entries (fst s)))"

definition pl_list :: "linked_list \<times> 'd heap \<Rightarrow> 'd list" where
  "pl_list s = map (h_data (snd s)) (pl_entries s)"

text \<open>There is room for one more block in the store.\<close>

definition pl_room :: "linked_list \<times> 'd heap \<Rightarrow> bool" where
  "pl_room s \<longleftrightarrow> h_brk (snd s) + malloc_size (ll_pool (fst s)) \<le> h_limit (snd s)"

text \<open>Sequences of operations, on the linked list and on a HOL list.\<close>

datatype 'd list_op = Add_tail 'd | Add_head 'd | Remove_head | Remove_tail

fun pl_step :: "'d list_op \<Rightarrow> linked_list \<times> 'd heap \<Rightarrow> ('d option \<times> linked_list \<times> 'd heap) outcome" where
  "pl_step (Add_tail d) s = bind_outcome (pl_add_tail d s) (\<lambda>s'. Inr (None, s'))"
| "pl_step (Add_head d) s = bind_outcome (pl_add_head d s) (\<lambda>s'. Inr (None, s'))"
| "pl_step Remove_head s = Inr (pl_remove_head s)"
| "pl_step Remove_tail s = Inr (pl_remove_tail s)"

fun pl_run :: "'d list_op list \<Rightarrow> linked_list \<times> 'd heap \<Rightarrow> ('d option list \<times> linked_list \<times> 'd heap) outcome" where
  "pl_run [] s = Inr ([], s)"
| "pl_run (p # ps) s = bind_outcome (pl_step p s) (\<lambda>(r, s').
     bind_outcome (pl_run ps s') (\<lambda>(rs, s''). Inr (r # rs, s'')))"

fun list_step :: "'d list_op \<Rightarrow> 'd list \<Rightarrow> 'd option \<times> 'd list" where
  "list_step (Add_tail d) xs = (None, xs @ [d])"
| "list_step (Add_head d) xs = (None, d # xs)"
| "list_step Remove_head xs = ((case xs of [] \<Rightarrow> None | d # _ \<Rightarrow> Some d), tl xs)"
| "list_step Remove_tail xs = ((if xs = [] then None else Some (last xs)), butlast xs)"

fun list_run :: "'d list_op list \<Rightarrow> 'd list \<Rightarrow> 'd option list \<times> 'd list" where
  "list_run [] xs = ([], xs)"
| "list_run (p # ps) xs =
     (let (r, xs') = list_step p xs; (rs, xs'') = list_run ps xs' in (r # rs, xs''))"

lemma dllD:
  assumes "dll ll h xs"
  shows "links (h_next h) xs NULL" "links (h_prev h) (rev xs) NULL"
    "ll_head ll = hd (xs @ [NULL])" "ll_tail ll = hd (rev xs @ [NULL])"
    "distinct xs" "NULL \<notin> set xs" "num_entries ll = int (length xs)" "ll_self ll \<noteq> NULL"
    "\<And>x. x \<in> set xs \<Longrightarrow> h_list h x = ll_self ll"
  using assms by (auto simp: dll_def)

lemma dll_ends_NULL:
  assumes "dll ll h xs"
  shows "ll_head ll = NULL \<longleftrightarrow> xs = []" "ll_tail ll = NULL \<longleftrightarrow> xs = []"
  using dllD(3,4,6) [OF assms] by (simp_all add: hd_end_iff)

lemma walk_links: "links nx xs e \<Longrightarrow> walk nx (hd (xs @ [e])) (length xs) = xs"
  by (induction xs) (auto simp: links_Cons)

lemma pl_entries_eq: "dll ll h xs \<Longrightarrow> pl_entries (ll, h) = xs"
  using walk_links [of "h_next h" xs NULL] dllD(1,3,7) [of ll h xs] by (simp add: pl_entries_def)

lemma pl_list_eq: "dll ll h xs \<Longrightarrow> pl_list (ll, h) = map (h_data h) xs"
  by (simp add: pl_list_def pl_entries_eq)

text \<open>The pool invariant reads only the \<open>next\<close> fields of free objects, and the break.\<close>

lemma pool_inv_frame:
  assumes "pool_inv pool h fs L" "\<And>x. x \<notin> L \<Longrightarrow> h_next h' x = h_next h x" "h_brk h' = h_brk h"
  shows "pool_inv pool h' fs L"
proof -
  have "\<And>x. x \<in> set fs \<Longrightarrow> h_next h' x = h_next h x" using assms(1,2) pool_invD(6) by blast
  then have "\<exists>z. links (h_next h') fs z"
    using pool_invD(11) [OF assms(1)] links_cong [of fs "h_next h'" "h_next h"] by metis
  then show ?thesis using assms(1,3) by (auto simp: pool_inv_def)
qed

lemma dll_add_tail:
  assumes d: "dll ll h xs" and e: "e \<notin> set xs" "e \<noteq> NULL"
    and r: "ll_add_existing_to_tail ll e h = (ll', h')"
  shows "dll ll' h' (xs @ [e])" "\<And>x. x \<notin> insert e (set xs) \<Longrightarrow> h_next h' x = h_next h x"
    "h_brk h' = h_brk h" "h_data h' = h_data h" "ll_pool ll' = ll_pool ll" "h_limit h' = h_limit h"
proof -
  note D = dllD [OF d]
  have "dll ll' h' (xs @ [e]) \<and> (\<forall>x. x \<notin> insert e (set xs) \<longrightarrow> h_next h' x = h_next h x) \<and>
    h_brk h' = h_brk h \<and> h_data h' = h_data h \<and> ll_pool ll' = ll_pool ll \<and> h_limit h' = h_limit h"
  proof (cases xs rule: rev_cases)
    case Nil
    then show ?thesis using D e r by (auto simp: ll_add_existing_to_tail_def dll_def)
  next
    case (snoc ys y)
    have ne: "ll_head ll \<noteq> NULL" using dll_ends_NULL [OF d] snoc by simp
    have l: "ll_tail ll = y" using D(4) snoc by simp
    have n: "links ((h_next h)(y := e, e := NULL)) (ys @ [y, e]) NULL"
      using D(1,5) e snoc links_upd_last [of ys y "h_next h" NULL e]
      by (auto simp: links_append links_snoc)
    have p: "links ((h_prev h)(e := y)) (e # y # rev ys) NULL"
      using D(2) e snoc by simp
    show ?thesis
      using r ne D n p e snoc l
      by (auto simp: ll_add_existing_to_tail_def dll_def Let_def fun_upd_twist hd_append)
  qed
  then show "dll ll' h' (xs @ [e])" "\<And>x. x \<notin> insert e (set xs) \<Longrightarrow> h_next h' x = h_next h x"
    "h_brk h' = h_brk h" "h_data h' = h_data h" "ll_pool ll' = ll_pool ll" "h_limit h' = h_limit h"
    by auto
qed

lemma dll_add_head:
  assumes d: "dll ll h xs" and e: "e \<notin> set xs" "e \<noteq> NULL"
    and r: "ll_add_existing_to_head ll e h = (ll', h')"
  shows "dll ll' h' (e # xs)" "\<And>x. x \<notin> insert e (set xs) \<Longrightarrow> h_next h' x = h_next h x"
    "h_brk h' = h_brk h" "h_data h' = h_data h" "ll_pool ll' = ll_pool ll" "h_limit h' = h_limit h"
proof -
  note D = dllD [OF d]
  have "dll ll' h' (e # xs) \<and> (\<forall>x. x \<notin> insert e (set xs) \<longrightarrow> h_next h' x = h_next h x) \<and>
    h_brk h' = h_brk h \<and> h_data h' = h_data h \<and> ll_pool ll' = ll_pool ll \<and> h_limit h' = h_limit h"
  proof (cases xs)
    case Nil
    then show ?thesis using D e r by (auto simp: ll_add_existing_to_head_def dll_def)
  next
    case (Cons y ys)
    have l: "ll_head ll = y" "y \<noteq> NULL" using D(3,6) Cons by auto
    have p: "links ((h_prev h)(e := NULL, y := e)) (rev ys @ [y, e]) NULL"
      using D(2,5) e Cons links_upd_last [of "rev ys" y "h_prev h" NULL e]
      by (auto simp: links_append links_snoc)
    show ?thesis
      using r D p e Cons l
      by (auto simp: ll_add_existing_to_head_def dll_def Let_def hd_append)
  qed
  then show "dll ll' h' (e # xs)" "\<And>x. x \<notin> insert e (set xs) \<Longrightarrow> h_next h' x = h_next h x"
    "h_brk h' = h_brk h" "h_data h' = h_data h" "ll_pool ll' = ll_pool ll" "h_limit h' = h_limit h"
    by auto
qed

lemma dll_neighbours:
  assumes d: "dll ll h (as @ e # bs)"
  shows "h_next h e = hd (bs @ [NULL])" "h_prev h e = hd (rev as @ [NULL])"
  using dllD(1,2) [OF d] by (auto simp: links_append links_Cons)

lemma dll_insert_before:
  assumes d: "dll ll h (as @ e # bs)" and n: "newe \<notin> set (as @ e # bs)" "newe \<noteq> NULL"
    and r: "ll_insert_existing_before ll e newe h = Inr (ll', h')"
  shows "dll ll' h' (as @ newe # e # bs)"
    "\<And>x. x \<notin> insert newe (set (as @ e # bs)) \<Longrightarrow> h_next h' x = h_next h x"
    "h_brk h' = h_brk h" "h_data h' = h_data h" "ll_pool ll' = ll_pool ll" "h_limit h' = h_limit h"
proof -
  note D = dllD [OF d] and N = dll_neighbours [OF d]
  have e0: "e \<noteq> NULL" using D(6) by auto
  have "dll ll' h' (as @ newe # e # bs) \<and>
    (\<forall>x. x \<notin> insert newe (set (as @ e # bs)) \<longrightarrow> h_next h' x = h_next h x) \<and>
    h_brk h' = h_brk h \<and> h_data h' = h_data h \<and> ll_pool ll' = ll_pool ll \<and> h_limit h' = h_limit h"
  proof (cases as rule: rev_cases)
    case Nil
    have p: "links ((h_prev h)(newe := NULL, e := newe)) (rev bs @ [e, newe]) NULL"
      using D(2,5) n Nil links_upd_last [of "rev bs" e "h_prev h" NULL newe]
      by (auto simp: links_append links_snoc)
    show ?thesis
      using r e0 D p n Nil N
      by (auto simp: ll_insert_existing_before_def dll_def Let_def hd_append links_Cons)
  next
    case (snoc ys y)
    have ne: "e \<noteq> ll_head ll" using D(3,5) snoc by (cases ys) auto
    have py: "h_prev h e = y" using N(2) snoc by simp
    have nx: "links ((h_next h)(newe := e, y := newe)) (ys @ y # newe # e # bs) NULL"
      using D(1,5) n snoc by (auto simp: links_append links_Cons)
    have pv: "links ((h_prev h)(newe := y, e := newe)) (rev bs @ e # newe # y # rev ys) NULL"
      using D(2,5) n snoc by (auto simp: links_append links_Cons)
    have eq: "ll' = ll\<lparr>num_entries := num_entries ll + 1\<rparr>"
      "h' = h\<lparr>h_list := (h_list h)(newe := ll_self ll), h_next := (h_next h)(newe := e, y := newe),
             h_prev := (h_prev h)(newe := y, e := newe)\<rparr>"
      using r e0 ne py n snoc by (auto simp: ll_insert_existing_before_def Let_def)
    have "dll ll' h' (as @ newe # e # bs)"
      using D(3-9) nx pv n snoc unfolding dll_def eq by (simp add: hd_append)
    then show ?thesis unfolding eq using snoc by simp
  qed
  then show "dll ll' h' (as @ newe # e # bs)"
    "\<And>x. x \<notin> insert newe (set (as @ e # bs)) \<Longrightarrow> h_next h' x = h_next h x"
    "h_brk h' = h_brk h" "h_data h' = h_data h" "ll_pool ll' = ll_pool ll" "h_limit h' = h_limit h"
    by auto
qed

lemma dll_remove_entry:
  assumes d: "dll ll h (as @ e # bs)" and r: "ll_remove_entry ll e h = (ll', h')"
  shows "dll ll' h' (as @ bs)" "h_list h' e = NULL"
    "\<And>x. x \<notin> set (as @ e # bs) \<Longrightarrow> h_next h' x = h_next h x"
    "h_brk h' = h_brk h" "h_data h' = h_data h" "ll_pool ll' = ll_pool ll" "h_limit h' = h_limit h"
proof -
  note D = dllD [OF d] and N = dll_neighbours [OF d]
  have own: "h_list h e = ll_self ll" using D(9) by simp
  have e: "e \<notin> set as" "e \<notin> set bs" using D(5) by auto
  have nx: "links (if as = [] then h_next h else (h_next h)(last as := hd (bs @ [NULL]))) (as @ bs) NULL"
  proof (cases as rule: rev_cases)
    case Nil then show ?thesis using D(1) by (simp add: links_Cons)
  next
    case (snoc ys y)
    then show ?thesis using D(1,5)
      by (auto simp: links_append links_Cons hd_append_singleton)
  qed
  have pv: "links (if bs = [] then h_prev h else (h_prev h)(hd bs := hd (rev as @ [NULL])))
              (rev bs @ rev as) NULL"
  proof (cases bs)
    case Nil then show ?thesis using D(2) by (simp add: links_Cons)
  next
    case (Cons y ys)
    then show ?thesis using D(2,5)
      by (auto simp: links_append links_Cons hd_append_singleton)
  qed
  have pz: "h_prev h e = NULL \<longleftrightarrow> as = []" and nz: "h_next h e = NULL \<longleftrightarrow> bs = []"
    using N D(6) by (simp_all add: hd_end_iff)
  have pl: "as \<noteq> [] \<Longrightarrow> h_prev h e = last as" and nl: "bs \<noteq> [] \<Longrightarrow> h_next h e = hd bs"
    using N by (auto simp: hd_append_singleton hd_rev)
  have ends: "ll_head ll = (if as = [] then e else hd as)" "ll_tail ll = (if bs = [] then e else last bs)"
    using D(3,4) by (auto simp: hd_append hd_rev)
  have "dll ll' h' (as @ bs) \<and> h_list h' e = NULL \<and>
    (\<forall>x. x \<notin> set (as @ e # bs) \<longrightarrow> h_next h' x = h_next h x) \<and>
    h_brk h' = h_brk h \<and> h_data h' = h_data h \<and> ll_pool ll' = ll_pool ll \<and> h_limit h' = h_limit h"
    using r own D(5-9) e nx pv pz nz pl nl ends N
    by (auto simp: ll_remove_entry_def Let_def dll_def hd_append hd_rev split: if_splits)
  then show "dll ll' h' (as @ bs)" "h_list h' e = NULL"
    "\<And>x. x \<notin> set (as @ e # bs) \<Longrightarrow> h_next h' x = h_next h x"
    "h_brk h' = h_brk h" "h_data h' = h_data h" "ll_pool ll' = ll_pool ll" "h_limit h' = h_limit h"
    by auto
qed

lemma dll_frame:
  assumes "dll ll h xs"
    and "\<And>x. x \<in> set xs \<Longrightarrow> h_next h' x = h_next h x \<and> h_prev h' x = h_prev h x \<and> h_list h' x = h_list h x"
    and "ll_self ll' = ll_self ll" "num_entries ll' = num_entries ll"
      "ll_head ll' = ll_head ll" "ll_tail ll' = ll_tail ll"
  shows "dll ll' h' xs"
  using assms links_cong [of xs "h_next h" "h_next h'" NULL]
    links_cong [of "rev xs" "h_prev h" "h_prev h'" NULL]
  by (auto simp: dll_def)

lemma dll_remove_head:
  assumes d: "dll ll h (e # bs)" and r: "ll_remove_head ll h = (e', ll', h')"
  shows "e' = e" "dll ll' h' bs" "h_next h' = h_next h"
    "h_brk h' = h_brk h" "h_data h' = h_data h" "ll_pool ll' = ll_pool ll" "h_limit h' = h_limit h"
proof -
  note D = dllD [OF d] and N = dll_neighbours [of ll h "[]" e bs, simplified, OF d]
  have e: "ll_head ll = e" "e \<noteq> NULL" using D(3,6) by auto
  have "e' = e \<and> dll ll' h' bs \<and> h_next h' = h_next h \<and>
    h_brk h' = h_brk h \<and> h_data h' = h_data h \<and> ll_pool ll' = ll_pool ll \<and> h_limit h' = h_limit h"
  proof (cases bs)
    case Nil
    then show ?thesis using r e N D by (auto simp: ll_remove_head_def Let_def dll_def)
  next
    case (Cons y ys)
    have pv: "links ((h_prev h)(y := NULL)) (rev ys @ [y]) NULL"
      using D(2,5) Cons by (auto simp: links_append links_Cons)
    have y: "y \<noteq> NULL" using D(6) Cons by simp
    have n: "h_next h e = y" using N Cons by simp
    have eq: "e' = e" "ll' = ll\<lparr>num_entries := num_entries ll - 1, ll_head := y\<rparr>"
      "h' = h\<lparr>h_prev := (h_prev h)(y := NULL), h_list := (h_list h)(e := NULL)\<rparr>"
      using r e n y by (auto simp: ll_remove_head_def Let_def)
    have "dll ll' h' bs"
      using D pv Cons y unfolding dll_def eq by (simp add: hd_append) blast
    then show ?thesis by (simp add: eq)
  qed
  then show "e' = e" "dll ll' h' bs" "h_next h' = h_next h" "h_brk h' = h_brk h"
    "h_data h' = h_data h" "ll_pool ll' = ll_pool ll" "h_limit h' = h_limit h" by auto
qed

lemma dll_remove_tail:
  assumes d: "dll ll h (as @ [e])" and r: "ll_remove_tail ll h = (e', ll', h')"
  shows "e' = e" "dll ll' h' as" "\<And>x. x \<notin> set as \<Longrightarrow> h_next h' x = h_next h x"
    "h_brk h' = h_brk h" "h_data h' = h_data h" "ll_pool ll' = ll_pool ll" "h_limit h' = h_limit h"
proof -
  note D = dllD [OF d] and N = dll_neighbours [OF d]
  have e: "ll_tail ll = e" "e \<noteq> NULL" using D(4,6) by auto
  have "e' = e \<and> dll ll' h' as \<and> (\<forall>x. x \<notin> set as \<longrightarrow> h_next h' x = h_next h x) \<and>
    h_brk h' = h_brk h \<and> h_data h' = h_data h \<and> ll_pool ll' = ll_pool ll \<and> h_limit h' = h_limit h"
  proof (cases as rule: rev_cases)
    case Nil
    then show ?thesis using r e N D by (auto simp: ll_remove_tail_def Let_def dll_def)
  next
    case (snoc ys y)
    have nx: "links ((h_next h)(y := NULL)) (ys @ [y]) NULL"
      using D(1,5) snoc by (auto simp: links_append links_Cons)
    have y: "y \<noteq> NULL" using D(6) snoc by simp
    have n: "h_prev h e = y" using N snoc by simp
    have eq: "e' = e" "ll' = ll\<lparr>num_entries := num_entries ll - 1, ll_tail := y\<rparr>"
      "h' = h\<lparr>h_next := (h_next h)(y := NULL), h_list := (h_list h)(e := NULL)\<rparr>"
      using r e n y by (auto simp: ll_remove_tail_def Let_def)
    have "dll ll' h' as"
      using D nx snoc y unfolding dll_def eq by (simp add: hd_append links_Cons) blast
    then show ?thesis using snoc by (simp add: eq)
  qed
  then show "e' = e" "dll ll' h' as" "\<And>x. x \<notin> set as \<Longrightarrow> h_next h' x = h_next h x"
    "h_brk h' = h_brk h" "h_data h' = h_data h" "ll_pool ll' = ll_pool ll" "h_limit h' = h_limit h"
    by auto
qed

lemma ll_remove_empty:
  "dll ll h [] \<Longrightarrow> ll_remove_head ll h = (NULL, ll, h) \<and> ll_remove_tail ll h = (NULL, ll, h)"
  by (simp add: dll_def ll_remove_head_def ll_remove_tail_def)

subsection \<open>Pointer lists refine lists\<close>

text \<open>Putting a fresh entry on the list, whatever its position.\<close>

lemma ll_new_entry:
  assumes inv: "ll_inv ll h xs" and new: "op_new_object (ll_pool ll) h = Inr (e, pool', h1)"
  shows "dll (ll\<lparr>ll_pool := pool'\<rparr>) h1 xs" "e \<notin> set xs" "e \<noteq> NULL" "h_data h1 = h_data h"
proof -
  obtain fs L where d: "dll ll h xs" and p: "pool_inv (ll_pool ll) h fs L" "set xs \<subseteq> L"
    using inv by (auto simp: ll_inv_def)
  note O = op_new_object_inv [OF p(1) new]
  show "dll (ll\<lparr>ll_pool := pool'\<rparr>) h1 xs" using d O by (auto intro: dll_frame)
  show "e \<notin> set xs" "e \<noteq> NULL" "h_data h1 = h_data h" using O p(2) by auto
qed

lemma ll_inv_after_add:
  assumes inv: "ll_inv ll h xs" and new: "op_new_object (ll_pool ll) h = Inr (e, pool', h1)"
    and d: "dll ll' h' ys" "set ys = insert e (set xs)"
    and f: "\<And>x. x \<notin> insert e (set xs) \<Longrightarrow> h_next h' x = h_next h1 x"
      "h_brk h' = h_brk h1" "h_data h' = h_data h1" "ll_pool ll' = pool'"
  shows "ll_inv ll' (pl_set_pointer v d h') ys" "pl_list (ll', pl_set_pointer v d h') = map ((h_data h)(v := d)) ys"
proof -
  obtain fs L where p: "pool_inv (ll_pool ll) h fs L" "set xs \<subseteq> L"
    using inv by (auto simp: ll_inv_def)
  note O = op_new_object_inv [OF p(1) new]
  obtain fs' where fs': "pool_inv pool' h1 fs' (insert e L)" using O(1) by auto
  have pi: "pool_inv pool' (pl_set_pointer v d h') fs' (insert e L)"
    using f p(2) by (intro pool_inv_frame [OF fs']) (auto simp: pl_set_pointer_def)
  have dl: "dll ll' (pl_set_pointer v d h') ys"
    using d(1) by (auto simp: pl_set_pointer_def intro: dll_frame)
  have "set ys \<subseteq> insert e L" using d(2) p(2) by auto
  then show "ll_inv ll' (pl_set_pointer v d h') ys"
    using dl pi f(4) unfolding ll_inv_def by blast
  show "pl_list (ll', pl_set_pointer v d h') = map ((h_data h)(v := d)) ys"
    using pl_list_eq [OF dl] f(3) O(7) by (simp add: pl_set_pointer_def)
qed

lemma pl_add_tail_refines:
  assumes inv: "pl_inv s" and r: "pl_add_tail d s = Inr s'"
  shows "pl_inv s' \<and> pl_list s' = pl_list s @ [d]"
proof -
  obtain ll h where s: "s = (ll, h)" by (cases s)
  obtain xs where i: "ll_inv ll h xs" using inv s by (auto simp: pl_inv_def)
  obtain e pool' h1 ll' h' where new: "op_new_object (ll_pool ll) h = Inr (e, pool', h1)"
    and add: "ll_add_existing_to_tail (ll\<lparr>ll_pool := pool'\<rparr>) e h1 = (ll', h')"
    and s': "s' = (ll', pl_set_pointer e d h')"
    using r s by (auto simp: pl_add_tail_def ll_add_tail_def bind_outcome_Inr_iff split: prod.splits)
  note E = ll_new_entry [OF i new]
  note A = dll_add_tail [OF E(1-3) add]
  have "ll_inv ll' (pl_set_pointer e d h') (xs @ [e])"
    "pl_list s' = map ((h_data h)(e := d)) (xs @ [e])"
    using ll_inv_after_add [OF i new A(1) _ A(2-4)] A(5) by (auto simp: s')
  moreover have "pl_list s = map (h_data h) xs" using i s by (auto simp: ll_inv_def pl_list_eq)
  ultimately show ?thesis using E(2) by (auto simp: s' pl_inv_def)
qed

lemma pl_add_head_refines:
  assumes inv: "pl_inv s" and r: "pl_add_head d s = Inr s'"
  shows "pl_inv s' \<and> pl_list s' = d # pl_list s"
proof -
  obtain ll h where s: "s = (ll, h)" by (cases s)
  obtain xs where i: "ll_inv ll h xs" using inv s by (auto simp: pl_inv_def)
  obtain e pool' h1 ll' h' where new: "op_new_object (ll_pool ll) h = Inr (e, pool', h1)"
    and add: "ll_add_existing_to_head (ll\<lparr>ll_pool := pool'\<rparr>) e h1 = (ll', h')"
    and s': "s' = (ll', pl_set_pointer e d h')"
    using r s by (auto simp: pl_add_head_def ll_add_head_def bind_outcome_Inr_iff split: prod.splits)
  note E = ll_new_entry [OF i new]
  note A = dll_add_head [OF E(1-3) add]
  have "ll_inv ll' (pl_set_pointer e d h') (e # xs)"
    "pl_list s' = map ((h_data h)(e := d)) (e # xs)"
    using ll_inv_after_add [OF i new A(1) _ A(2-4)] A(5) by (auto simp: s')
  moreover have "pl_list s = map (h_data h) xs" using i s by (auto simp: ll_inv_def pl_list_eq)
  ultimately show ?thesis using E(2) by (auto simp: s' pl_inv_def)
qed

text \<open>Taking an entry off the list and returning it to the pool.\<close>

lemma ll_inv_after_free:
  assumes p: "pool_inv (ll_pool ll) h fs L" "e \<in> L"
    and d: "dll ll' h' ys" "set ys \<subseteq> L - {e}"
    and f: "ll_pool ll' = ll_pool ll" "h_brk h' = h_brk h" "\<And>x. x \<notin> L \<Longrightarrow> h_next h' x = h_next h x"
    and r: "ll_free_entry ll' e h' = (ll'', h'')"
  shows "ll_inv ll'' h'' ys \<and> h_data h'' = h_data h'"
proof -
  have p': "pool_inv (ll_pool ll') h' fs L" using pool_inv_frame [OF p(1) f(3) f(2)] f(1) by simp
  obtain pool2 where o: "op_free_entry (ll_pool ll') e h' = (pool2, h'')" "ll'' = ll'\<lparr>ll_pool := pool2\<rparr>"
    using r by (auto simp: ll_free_entry_def split: prod.splits)
  have "dll ll'' h'' ys" using d o by (auto simp: op_free_entry_def intro!: dll_frame [OF d(1)])
  moreover have "pool_inv pool2 h'' (e # fs) (L - {e})" by (rule op_free_entry_inv [OF p' p(2) o(1)])
  moreover have "h_data h'' = h_data h'" using o(1) by (auto simp: op_free_entry_def)
  ultimately show ?thesis using d(2) o(2) by (auto simp: ll_inv_def)
qed

lemma pl_remove_head_refines:
  assumes inv: "pl_inv s" and r: "pl_remove_head s = (res, s')"
  shows "pl_inv s' \<and> res = (case pl_list s of [] \<Rightarrow> None | d # _ \<Rightarrow> Some d) \<and> pl_list s' = tl (pl_list s)"
proof -
  obtain ll h where s: "s = (ll, h)" by (cases s)
  obtain xs fs L where d: "dll ll h xs" and p: "pool_inv (ll_pool ll) h fs L" "set xs \<subseteq> L"
    using inv s by (auto simp: pl_inv_def ll_inv_def)
  have l: "pl_list s = map (h_data h) xs" using d s by (simp add: pl_list_eq)
  show ?thesis
  proof (cases xs)
    case Nil
    have "res = None" "s' = s"
      using r s ll_remove_empty [OF d [unfolded Nil]] by (auto simp: pl_remove_head_def)
    then show ?thesis using inv l Nil by simp
  next
    case (Cons e bs)
    obtain e' ll1 h1 where rh: "ll_remove_head ll h = (e', ll1, h1)" by (cases "ll_remove_head ll h")
    note R = dll_remove_head [OF d [unfolded Cons] rh]
    obtain ll2 h2 where f: "ll_free_entry ll1 e h1 = (ll2, h2)" by fastforce
    have e: "e \<noteq> NULL" "e \<in> L" "set bs \<subseteq> L - {e}" using d p(2) Cons by (auto simp: dll_def)
    have "ll_inv ll2 h2 bs \<and> h_data h2 = h_data h1"
      using R e by (intro ll_inv_after_free [OF p(1) e(2) R(2) e(3) _ _ _ f]) auto
    moreover have "res = Some (h_data h e)" "s' = (ll2, h2)"
      using r s rh R e f by (auto simp: pl_remove_head_def pl_get_pointer_def)
    ultimately show ?thesis using l Cons R by (auto simp: pl_inv_def ll_inv_def pl_list_eq)
  qed
qed

lemma pl_remove_tail_refines:
  assumes inv: "pl_inv s" and r: "pl_remove_tail s = (res, s')"
  shows "pl_inv s' \<and> res = (if pl_list s = [] then None else Some (last (pl_list s))) \<and>
    pl_list s' = butlast (pl_list s)"
proof -
  obtain ll h where s: "s = (ll, h)" by (cases s)
  obtain xs fs L where d: "dll ll h xs" and p: "pool_inv (ll_pool ll) h fs L" "set xs \<subseteq> L"
    using inv s by (auto simp: pl_inv_def ll_inv_def)
  have l: "pl_list s = map (h_data h) xs" using d s by (simp add: pl_list_eq)
  show ?thesis
  proof (cases xs rule: rev_cases)
    case Nil
    have "res = None" "s' = s"
      using r s ll_remove_empty [OF d [unfolded Nil]] by (auto simp: pl_remove_tail_def)
    then show ?thesis using inv l Nil by simp
  next
    case (snoc bs e)
    obtain e' ll1 h1 where rh: "ll_remove_tail ll h = (e', ll1, h1)" by (cases "ll_remove_tail ll h")
    note R = dll_remove_tail [OF d [unfolded snoc] rh]
    obtain ll2 h2 where f: "ll_free_entry ll1 e h1 = (ll2, h2)" by fastforce
    have e: "e \<noteq> NULL" "e \<in> L" "set bs \<subseteq> L - {e}" using d p(2) snoc by (auto simp: dll_def)
    have "ll_inv ll2 h2 bs \<and> h_data h2 = h_data h1"
      using R e by (intro ll_inv_after_free [OF p(1) e(2) R(2) e(3) _ _ _ f]) auto
    moreover have "res = Some (h_data h e)" "s' = (ll2, h2)"
      using r s rh R e f by (auto simp: pl_remove_tail_def pl_get_pointer_def)
    ultimately show ?thesis using l snoc R by (auto simp: pl_inv_def ll_inv_def pl_list_eq butlast_append map_butlast)
  qed
qed

lemma pl_find_chain:
  assumes "links (h_next h) xs NULL" "NULL \<notin> set xs"
  shows "pl_find h d (hd (xs @ [NULL])) =
    Some (case dropWhile (\<lambda>x. h_data h x \<noteq> d) xs of [] \<Rightarrow> NULL | e # _ \<Rightarrow> e)"
  using assms
proof (induction xs)
  case Nil
  then show ?case by (simp add: pl_find.simps)
next
  case (Cons x xs)
  then have "pl_find h d (hd (xs @ [NULL])) =
      Some (case dropWhile (\<lambda>x. h_data h x \<noteq> d) xs of [] \<Rightarrow> NULL | e # _ \<Rightarrow> e)" "h_next h x = hd (xs @ [NULL])" "x \<noteq> NULL"
    by (auto simp: links_Cons)
  then show ?case by (simp add: pl_find.simps [of h d x])
qed

lemma pl_remove_pointer_refines:
  assumes inv: "pl_inv s"
  shows "\<exists>s'. pl_remove_pointer d s = Some s' \<and> pl_inv s' \<and> pl_list s' = remove1 d (pl_list s) \<and>
    num_free_entries (ll_pool (fst s')) = num_free_entries (ll_pool (fst s))"
proof -
  obtain ll h where s: "s = (ll, h)" by (cases s)
  obtain xs fs L where dl: "dll ll h xs" and p: "pool_inv (ll_pool ll) h fs L" "set xs \<subseteq> L"
    using inv s by (auto simp: pl_inv_def ll_inv_def)
  have l: "pl_list s = map (h_data h) xs" using dl s by (simp add: pl_list_eq)
  have f: "pl_find h d (ll_view_head ll) =
      Some (case dropWhile (\<lambda>x. h_data h x \<noteq> d) xs of [] \<Rightarrow> NULL | e # _ \<Rightarrow> e)"
    using pl_find_chain [OF dllD(1,6) [OF dl]] dllD(3) [OF dl] by (simp add: ll_view_head_def)
  show ?thesis
  proof (cases "dropWhile (\<lambda>x. h_data h x \<noteq> d) xs")
    case Nil
    then have "d \<notin> set (pl_list s)" using l by auto
    then show ?thesis using f Nil inv s by (simp add: pl_remove_pointer_def remove1_idem)
  next
    case (Cons e bs)
    define as where "as = takeWhile (\<lambda>x. h_data h x \<noteq> d) xs"
    have xs: "xs = as @ e # bs" using Cons takeWhile_dropWhile_id [of "\<lambda>x. h_data h x \<noteq> d" xs]
      by (simp add: as_def)
    have e: "h_data h e = d" "e \<noteq> NULL" using Cons hd_dropWhile [of "\<lambda>x. h_data h x \<noteq> d" xs] dllD(6) [OF dl] xs
      by auto
    have nd: "d \<notin> h_data h ` set as" by (auto simp: as_def dest: set_takeWhileD)
    obtain ll' h' where r: "ll_remove_entry ll e h = (ll', h')" by fastforce
    note R = dll_remove_entry [OF dl [unfolded xs] r]
    have fr: "h_next h' x = h_next h x" if "x \<notin> L" for x
      using that p(2) xs by (intro R(3)) auto
    have "pool_inv (ll_pool ll') h' fs L"
      using pool_inv_frame [OF p(1) fr R(4)] R(6) by simp
    moreover have "set (as @ bs) \<subseteq> L" using p(2) xs by auto
    ultimately have "ll_inv ll' h' (as @ bs)" using R(1) unfolding ll_inv_def by blast
    then have "pl_inv (ll', h')" by (auto simp: pl_inv_def)
    moreover have "pl_list (ll', h') = remove1 d (pl_list s)"
      using R(1,5) l xs e nd by (simp add: pl_list_eq remove1_append)
    ultimately show ?thesis using f Cons e(2) r s R(6) by (simp add: pl_remove_pointer_def)
  qed
qed

lemma new_pointer_list_inv:
  assumes r: "new_pointer_list junk junk' name h = Inr s" and b: "0 < h_brk h"
  shows "pl_inv s \<and> pl_list s = []"
proof -
  obtain self h1 pool h2 where m: "malloc sizeof_linked_list h = (self, h1)" "self \<noteq> NULL"
    and n: "new_object_pool junk junk' sizeof_pointer_list_entry MIN_ALLOC_BLOCK h1 = Inr (pool, h2)"
    and s: "s = (ll_init self name pool, h2)"
    using r by (auto simp: new_pointer_list_def new_linked_list_def bind_outcome_Inr_iff split: prod.splits)
  have d: "dll (ll_init self name pool) h2 []" using m(2) by (simp add: dll_def ll_init_def)
  have "pool_inv pool h2 [] {}"
    using new_object_pool_inv [OF n] malloc_brk_mono [OF m(1)] b by (simp add: MIN_ALLOC_BLOCK_def)
  then have "ll_inv (ll_init self name pool) h2 []"
    using d by (auto simp: ll_inv_def ll_init_def)
  then show ?thesis using d by (auto simp: s pl_inv_def pl_list_eq)
qed

lemma pl_add_succeeds:
  assumes "pl_inv s" "pl_room s"
  shows "\<exists>s'. pl_add_tail d s = Inr s'" "\<exists>s'. pl_add_head d s = Inr s'"
proof -
  obtain ll h where s: "s = (ll, h)" by (cases s)
  obtain fs L where p: "pool_inv (ll_pool ll) h fs L"
    using assms(1) s by (auto simp: pl_inv_def ll_inv_def)
  obtain r where r: "op_new_object (ll_pool ll) h = Inr r"
    using op_new_object_succeeds [of h "ll_pool ll"] pool_invD(3) [OF p] assms(2) s
    by (auto simp: pl_room_def)
  show "\<exists>s'. pl_add_tail d s = Inr s'" "\<exists>s'. pl_add_head d s = Inr s'"
    using r s by (auto simp: pl_add_tail_def ll_add_tail_def pl_add_head_def ll_add_head_def
        split: prod.splits)
qed

subsection \<open>The interface the schedulers rely on\<close>

text \<open>
  What \<^verbatim>\<open>sched_global_rr.c\<close> and \<^verbatim>\<open>threadlib.c\<close> use of a pointer list, as a contract over
  an arbitrary state type: \<open>abs\<close> is the list a state stands for, \<open>inv\<close> its invariant and
  \<open>room\<close> says that an addition does not run out of memory.
\<close>

locale pointer_list =
  fixes add_tail add_head :: "'d \<Rightarrow> 's \<Rightarrow> 's outcome"
    and remove_head remove_tail :: "'s \<Rightarrow> 'd option \<times> 's"
    and remove_pointer :: "'d \<Rightarrow> 's \<Rightarrow> 's option"
    and size_of :: "'s \<Rightarrow> int" and view_head :: "'s \<Rightarrow> 'd option"
    and abs :: "'s \<Rightarrow> 'd list" and inv room :: "'s \<Rightarrow> bool"
  assumes add_tail: "inv s \<Longrightarrow> add_tail d s = Inr s' \<Longrightarrow> inv s' \<and> abs s' = abs s @ [d]"
    and add_head: "inv s \<Longrightarrow> add_head d s = Inr s' \<Longrightarrow> inv s' \<and> abs s' = d # abs s"
    and remove_head: "inv s \<Longrightarrow> remove_head s = (r, s') \<Longrightarrow>
      inv s' \<and> r = (case abs s of [] \<Rightarrow> None | d # _ \<Rightarrow> Some d) \<and> abs s' = tl (abs s)"
    and remove_tail: "inv s \<Longrightarrow> remove_tail s = (r, s') \<Longrightarrow>
      inv s' \<and> r = (if abs s = [] then None else Some (last (abs s))) \<and> abs s' = butlast (abs s)"
    and remove_pointer: "inv s \<Longrightarrow>
      \<exists>s'. remove_pointer d s = Some s' \<and> inv s' \<and> abs s' = remove1 d (abs s)"
    and size_of: "inv s \<Longrightarrow> size_of s = int (length (abs s))"
    and view_head: "inv s \<Longrightarrow> view_head s = (case abs s of [] \<Rightarrow> None | d # _ \<Rightarrow> Some d)"
    and add_total: "inv s \<Longrightarrow> room s \<Longrightarrow> \<exists>s'. add_tail d s = Inr s'"
      "inv s \<Longrightarrow> room s \<Longrightarrow> \<exists>s'. add_head d s = Inr s'"
begin

lemma fifo:
  assumes "inv s" "abs s = []" "add_tail a s = Inr s1" "add_tail b s1 = Inr s2"
    "remove_head s2 = (r, s3)" "remove_head s3 = (r', s4)"
  shows "r = Some a \<and> r' = Some b \<and> abs s4 = []"
proof -
  have 1: "inv s1" "abs s1 = [a]" using add_tail assms by fastforce+
  have 2: "inv s2" "abs s2 = [a, b]" using add_tail [OF 1(1) assms(4)] 1 by auto
  have 3: "inv s3" "r = Some a" "abs s3 = [b]" using remove_head [OF 2(1) assms(5)] 2 by auto
  show ?thesis using remove_head [OF 3(1) assms(6)] 3 by auto
qed

lemma remove_head_None_iff: "inv s \<Longrightarrow> fst (remove_head s) = None \<longleftrightarrow> abs s = []"
  using remove_head [of s "fst (remove_head s)" "snd (remove_head s)"] by (auto split: list.splits)

end

interpretation pl: pointer_list pl_add_tail pl_add_head pl_remove_head pl_remove_tail
  pl_remove_pointer pl_size pl_view_head pl_list pl_inv pl_room
proof (unfold_locales, goal_cases)
  case (1 s d s') then show ?case by (rule pl_add_tail_refines)
next
  case (2 s d s') then show ?case by (rule pl_add_head_refines)
next
  case (3 s r s') then show ?case by (rule pl_remove_head_refines)
next
  case (4 s r s') then show ?case by (rule pl_remove_tail_refines)
next
  case (5 s d) then show ?case using pl_remove_pointer_refines [of s d] by auto
next
  case (6 s)
  obtain ll h where s: "s = (ll, h)" by (cases s)
  obtain xs where d: "dll ll h xs" using 6 s by (auto simp: pl_inv_def ll_inv_def)
  show ?case using dllD(7) [OF d] pl_list_eq [OF d] s by (simp add: pl_size_def)
next
  case (7 s)
  obtain ll h where s: "s = (ll, h)" by (cases s)
  obtain xs where d: "dll ll h xs" using 7 s by (auto simp: pl_inv_def ll_inv_def)
  show ?case
    using dllD(3,6) [OF d] pl_list_eq [OF d]
    by (cases xs) (simp_all add: s pl_view_head_def ll_view_head_def pl_get_pointer_def)
next
  case (8 s d) then show ?case by (rule pl_add_succeeds)
next
  case (9 s d) then show ?case by (rule pl_add_succeeds)
qed

subsection \<open>Memory use of the operations\<close>

text \<open>An operation takes at most one block from \<^verbatim>\<open>malloc\<close>.\<close>

definition pl_mem_ok :: "linked_list \<times> 'd heap \<Rightarrow> linked_list \<times> 'd heap \<Rightarrow> bool" where
  "pl_mem_ok s s' \<longleftrightarrow> h_brk (snd s') \<le> h_brk (snd s) + malloc_size (ll_pool (fst s)) \<and>
     h_limit (snd s') = h_limit (snd s) \<and>
     malloc_size (ll_pool (fst s')) = malloc_size (ll_pool (fst s))"

lemma pl_add_mem:
  assumes "pl_add_tail d s = Inr s' \<or> pl_add_head d s = Inr s'"
  shows "pl_mem_ok s s'"
proof -
  obtain ll h where s: "s = (ll, h)" by (cases s)
  obtain e pool' h1 where new: "op_new_object (ll_pool ll) h = Inr (e, pool', h1)"
    and s': "s' = (let (ll', h') = ll_add_existing_to_tail (ll\<lparr>ll_pool := pool'\<rparr>) e h1
                   in (ll', pl_set_pointer e d h')) \<or>
             s' = (let (ll', h') = ll_add_existing_to_head (ll\<lparr>ll_pool := pool'\<rparr>) e h1
                   in (ll', pl_set_pointer e d h'))"
    using assms s
    by (auto simp: pl_add_tail_def ll_add_tail_def pl_add_head_def ll_add_head_def bind_outcome_Inr_iff
        split: prod.splits)
  show ?thesis
    using s' op_new_object_mem [OF new] unfolding s
    by (auto simp: pl_mem_ok_def Let_def pl_set_pointer_def ll_add_existing_to_tail_def
        ll_add_existing_to_head_def)
qed

lemma pl_remove_mem: "pl_mem_ok s (snd (pl_remove_head s))" "pl_mem_ok s (snd (pl_remove_tail s))"
  by (auto simp: pl_mem_ok_def pl_remove_head_def pl_remove_tail_def ll_remove_head_def
      ll_remove_tail_def ll_free_entry_def op_free_entry_def Let_def)

lemma pl_step_refines:
  assumes inv: "pl_inv s" and room: "pl_room s"
  shows "\<exists>r s'. pl_step p s = Inr (r, s') \<and> pl_inv s' \<and> list_step p (pl_list s) = (r, pl_list s') \<and>
    pl_mem_ok s s'"
proof (cases p)
  case (Add_tail d)
  then obtain s' where "pl_add_tail d s = Inr s'" using pl.add_total(1) [OF inv room] by blast
  then show ?thesis using Add_tail pl.add_tail [OF inv, of d s'] pl_add_mem [of d s s'] by auto
next
  case (Add_head d)
  then obtain s' where "pl_add_head d s = Inr s'" using pl.add_total(2) [OF inv room] by blast
  then show ?thesis using Add_head pl.add_head [OF inv, of d s'] pl_add_mem [of d s s'] by auto
next
  case Remove_head
  obtain r s' where r: "pl_remove_head s = (r, s')" by (cases "pl_remove_head s")
  then show ?thesis using Remove_head pl.remove_head [OF inv r] pl_remove_mem(1) [of s] by auto
next
  case Remove_tail
  obtain r s' where r: "pl_remove_tail s = (r, s')" by (cases "pl_remove_tail s")
  then show ?thesis using Remove_tail pl.remove_tail [OF inv r] pl_remove_mem(2) [of s] by auto
qed

lemma pl_run_refines:
  assumes "pl_inv s"
    "h_brk (snd s) + length ps * malloc_size (ll_pool (fst s)) \<le> h_limit (snd s)"
  shows "\<exists>rs s'. pl_run ps s = Inr (rs, s') \<and> pl_inv s' \<and> list_run ps (pl_list s) = (rs, pl_list s')"
  using assms
proof (induction ps arbitrary: s)
  case Nil
  then show ?case by simp
next
  case (Cons p ps)
  have "pl_room s" using Cons.prems(2) by (simp add: pl_room_def)
  then obtain r s' where S: "pl_step p s = Inr (r, s')" "pl_inv s'"
    "list_step p (pl_list s) = (r, pl_list s')" "pl_mem_ok s s'"
    using pl_step_refines [OF Cons.prems(1)] by blast
  have "h_brk (snd s') + length ps * malloc_size (ll_pool (fst s')) \<le> h_limit (snd s')"
    using Cons.prems(2) S(4) by (simp add: pl_mem_ok_def)
  then obtain rs s'' where "pl_run ps s' = Inr (rs, s'')" "pl_inv s''"
    "list_run ps (pl_list s') = (rs, pl_list s'')"
    using Cons.IH [OF S(2)] by blast
  then show ?case using S by auto
qed

subsection \<open>Properties\<close>

text \<open>
  C2.  A pointer list created by \<^verbatim>\<open>new_pointer_list\<close> behaves as a list: any sequence of
  additions and removals at either end runs without a fault while memory lasts (one block per
  operation is enough), returns what the same sequence returns on a HOL list starting empty, and
  leaves a well-formed list holding the same data in the same order.
\<close>

theorem pointer_list_refines_list:
  assumes "new_pointer_list junk junk' name h = Inr s" "0 < h_brk h"
    "h_brk (snd s) + length ps * malloc_size (ll_pool (fst s)) \<le> h_limit (snd s)"
  shows "\<exists>rs s'. pl_run ps s = Inr (rs, s') \<and> pl_inv s' \<and> list_run ps [] = (rs, pl_list s')"
  using new_pointer_list_inv [OF assms(1,2)] pl_run_refines [of s ps] assms(3) by auto

theorem pointer_list_refines_list_witness:
  "\<exists>s rs s'. new_pointer_list 5 6 None
      \<lparr>h_next = (\<lambda>_. 3), h_prev = (\<lambda>_. 3), h_list = (\<lambda>_. 3), h_data = (\<lambda>_. 0 :: nat),
       h_brk = 8, h_limit = 100000\<rparr> = Inr s \<and>
     pl_run [Add_tail 1, Add_head 2, Remove_tail, Remove_head, Remove_head] s = Inr (rs, s') \<and>
     rs = [None, None, Some 1, Some 2, None]"
proof -
  let ?h = "\<lparr>h_next = (\<lambda>_. 3), h_prev = (\<lambda>_. 3), h_list = (\<lambda>_. 3), h_data = (\<lambda>_. 0 :: nat),
       h_brk = 8, h_limit = 100000\<rparr>"
  let ?p = "\<lparr>entry_size = 32, malloc_size = 4096, free_entries = 5, num_free_entries = 0,
       malloced_entries = 6, num_malloced_entries = 0\<rparr>"
  let ?s = "(ll_init 8 None ?p, ?h\<lparr>h_brk := 88\<rparr>)"
  let ?ps = "[Add_tail 1, Add_head 2, Remove_tail, Remove_head, Remove_head] :: nat list_op list"
  have n: "new_pointer_list 5 6 None ?h = Inr ?s"
    by (simp add: new_pointer_list_def new_linked_list_def new_object_pool_def malloc_def
        sizeof_object_pool_def sizeof_object_pool_entry_def sizeof_linked_list_def
        sizeof_linked_list_entry_def sizeof_pointer_list_entry_def MIN_ALLOC_BLOCK_def)
  obtain rs s' where "pl_run ?ps ?s = Inr (rs, s')" "list_run ?ps [] = (rs, pl_list s')"
    using pointer_list_refines_list [OF n, of ?ps] by (auto simp: ll_init_def)
  then show ?thesis using n by (auto simp: Let_def)
qed

text \<open>
  \<^verbatim>\<open>ll_remove_entry\<close> takes exactly the given entry off the list, keeps the order of the
  others, and, as its comment says, may be called again on the same entry: the second call changes
  nothing.
\<close>

theorem ll_remove_entry_idempotent:
  assumes "dll ll h (as @ e # bs)"
  shows "case ll_remove_entry ll e h of
    (ll', h') \<Rightarrow> dll ll' h' (as @ bs) \<and> ll_remove_entry ll' e h' = (ll', h')"
proof -
  obtain ll' h' where r: "ll_remove_entry ll e h = (ll', h')" by fastforce
  note R = dll_remove_entry [OF assms r]
  have "ll_self ll' \<noteq> NULL" using dllD(8) [OF R(1)] .
  then show ?thesis using r R(1,2) by (simp add: ll_remove_entry_def)
qed

theorem ll_remove_entry_idempotent_witness:
  "dll \<lparr>ll_self = 4, ll_name = ''q'', num_entries = 1, ll_head = 8, ll_tail = 8, ll_pool = undefined\<rparr>
     \<lparr>h_next = (\<lambda>_. 0), h_prev = (\<lambda>_. 0), h_list = (\<lambda>_. 4), h_data = (\<lambda>_. 0 :: nat), h_brk = 9, h_limit = 9\<rparr>
     [8] \<and>
   fst (ll_remove_entry \<lparr>ll_self = 4, ll_name = ''q'', num_entries = 1, ll_head = 8, ll_tail = 8, ll_pool = undefined\<rparr>
     8 \<lparr>h_next = (\<lambda>_. 0), h_prev = (\<lambda>_. 0), h_list = (\<lambda>_. 4), h_data = (\<lambda>_. 0 :: nat), h_brk = 9, h_limit = 9\<rparr>) =
   \<lparr>ll_self = 4, ll_name = ''q'', num_entries = 0, ll_head = 0, ll_tail = 0, ll_pool = undefined\<rparr>"
  (is "dll ?ll ?h [8] \<and> _")
proof -
  have d: "dll ?ll ?h ([] @ 8 # [])" by (simp add: dll_def)
  show ?thesis using d ll_remove_entry_idempotent [OF d] by (simp add: ll_remove_entry_def Let_def)
qed

text \<open>
  C4.  \<^verbatim>\<open>pl_remove_pointer\<close> returns, removes the first entry that holds the pointer and
  nothing else, and gives no entry back to the pool's free list.
\<close>

theorem pl_remove_pointer_removes_first:
  assumes "pl_inv s"
  shows "\<exists>s'. pl_remove_pointer d s = Some s' \<and> pl_inv s' \<and> pl_list s' = remove1 d (pl_list s) \<and>
    num_free_entries (ll_pool (fst s')) = num_free_entries (ll_pool (fst s))"
  by (rule pl_remove_pointer_refines [OF assms])

theorem pl_remove_pointer_removes_first_witness:
  "\<exists>s s'. new_pointer_list 5 6 None
      \<lparr>h_next = (\<lambda>_. 3), h_prev = (\<lambda>_. 3), h_list = (\<lambda>_. 3), h_data = (\<lambda>_. 0 :: nat),
       h_brk = 8, h_limit = 100000\<rparr> = Inr s \<and> pl_remove_pointer 7 s = Some s' \<and> pl_list s' = []"
proof -
  let ?h = "\<lparr>h_next = (\<lambda>_. 3), h_prev = (\<lambda>_. 3), h_list = (\<lambda>_. 3), h_data = (\<lambda>_. 0 :: nat),
       h_brk = 8, h_limit = 100000\<rparr>"
  have "\<exists>s. new_pointer_list 5 6 None ?h = Inr s"
    by (simp add: new_pointer_list_def new_linked_list_def new_object_pool_def malloc_def
        sizeof_object_pool_def sizeof_object_pool_entry_def sizeof_linked_list_def
        sizeof_linked_list_entry_def sizeof_pointer_list_entry_def MIN_ALLOC_BLOCK_def)
  then obtain s where n: "new_pointer_list 5 6 None ?h = Inr s" by blast
  have i: "pl_inv s" "pl_list s = []" using new_pointer_list_inv [OF n] by auto
  show ?thesis using n pl_remove_pointer_removes_first [OF i(1), of 7] i(2) by auto
qed

end
