(* ===== verification/Hash_Primes.thy ===== *)
theory Hash_Primes
  imports FG_Prelude
begin

section \<open>The table sizes of hashlib are prime\<close>

text \<open>
  \<^verbatim>\<open>hashlib.c\<close> takes its table sizes from \<^verbatim>\<open>primetbl\<close>: the sizes are claimed to be the
  primes just below powers of two.  Double hashing visits every slot only because they are.
  Primality is proved here by Lucas certificates (an element of order \<open>n - 1\<close> modulo \<open>n\<close>),
  checked by modular exponentiation in the simplifier.
\<close>

definition FIRSTN :: nat where
  "FIRSTN = 8"

definition primetbl :: "nat list" where
  "primetbl = [45, 45, 41, 45, 45, 45, 45, 49,
               57, 49, 41, 45, 59, 55, 57, 61,
               63, 61, 45, 79, 0]"

definition ithprime :: "nat \<Rightarrow> nat" where
  "ithprime i = (if i < length primetbl \<and> primetbl ! i \<noteq> 0 then 2 ^ (FIRSTN + i) - primetbl ! i else 0)"

definition INITSZ :: nat where
  "INITSZ = 17"

definition is_prime :: "nat \<Rightarrow> bool" where
  "is_prime n \<longleftrightarrow> 1 < n \<and> (\<forall>d. d dvd n \<longrightarrow> d = 1 \<or> d = n)"

text \<open>The sizes a table can have.\<close>

definition table_sizes :: "nat list" where
  "table_sizes = INITSZ # map ithprime [0..<20]"

text \<open>Left-to-right binary exponentiation modulo \<open>n\<close>; \<open>bits\<close> holds the exponent's binary digits.\<close>

fun powm :: "int \<Rightarrow> int \<Rightarrow> int \<Rightarrow> bool list \<Rightarrow> int" where
  "powm n a acc [] = acc"
| "powm n a acc (b # bs) = powm n a ((if b then acc * acc * a else acc * acc) mod n) bs"

fun bits_val :: "int \<Rightarrow> bool list \<Rightarrow> int" where
  "bits_val v [] = v"
| "bits_val v (b # bs) = bits_val (if b then 2 * v + 1 else 2 * v) bs"

text \<open>
  A certificate: the base, the exponent \<open>n - 1\<close>, its factorisation and, for each prime factor,
  the exponent that misses it.
\<close>

definition lucas_ok :: "int \<Rightarrow> int \<Rightarrow> bool list \<Rightarrow> int list \<Rightarrow> (int \<times> bool list) list \<Rightarrow> bool" where
  "lucas_ok n a bs qs cs \<longleftrightarrow>
     1 < n \<and> 0 < a \<and> bits_val 0 bs = n - 1 \<and> powm n a 1 bs = 1 \<and> foldr (*) qs 1 = n - 1 \<and>
     list_all (\<lambda>q. 0 < q \<and> list_ex (\<lambda>c. fst c = q) cs) qs \<and>
     list_all (\<lambda>(q, bs'). bits_val 0 bs' * q = n - 1 \<and> powm n a 1 bs' \<noteq> 1) cs"

subsection \<open>Small primes by trial division\<close>

lemma is_prime_small:
  assumes n: "1 < n" "n < 1024" and c: "\<forall>d \<in> set [2..<32]. n \<le> d \<or> n mod d \<noteq> 0"
  shows "is_prime n"
proof -
  have "d = 1 \<or> d = n" if dn: "d dvd n" for d
  proof (rule ccontr)
    assume c2: "\<not> (d = 1 \<or> d = n)"
    obtain e where e: "n = d * e" using dn by blast
    have nz: "d \<noteq> 0" "e \<noteq> 0" using e n(1) by (metis mult_0 mult_0_right not_less_zero)+
    have "e \<noteq> 1" "e \<noteq> n" using c2 e n(1) nz by auto
    have "d < n" "e < n"
      using dvd_imp_le [OF dn] dvd_imp_le [of e n] e n(1) c2 \<open>e \<noteq> n\<close> by auto
    have small: "d < 32 \<or> e < 32"
    proof (rule ccontr)
      assume "\<not> (d < 32 \<or> e < 32)"
      then have "32 * 32 \<le> d * e" by (intro mult_le_mono) auto
      then show False using e n(2) by simp
    qed
    have div: "n mod d = 0" "n mod e = 0" using e by auto
    have nd: "n mod k \<noteq> 0" if "k < 32" "k \<noteq> 0" "k \<noteq> 1" "k < n" for k
    proof -
      have "k \<in> set [2..<32]" using that unfolding set_upt atLeastLessThan_iff by arith
      then show ?thesis using bspec [OF c, of k] that(4) by linarith
    qed
    from small show False
    proof
      assume "d < 32"
      then show False using nd [of d] nz(1) c2 \<open>d < n\<close> div(1) by simp
    next
      assume "e < 32"
      then show False using nd [of e] nz(2) \<open>e \<noteq> 1\<close> \<open>e < n\<close> div(2) by simp
    qed
  qed
  then show ?thesis using n by (simp add: is_prime_def)
qed

subsection \<open>Lucas certificates\<close>

lemma is_prime_coprime: "is_prime q \<Longrightarrow> \<not> q dvd m \<Longrightarrow> coprime m q"
  unfolding is_prime_def coprime_iff_gcd_eq_1 by (metis gcd_dvd1 gcd_dvd2)

lemma proper_divisor_misses_prime:
  assumes "\<forall>q \<in> set qs. is_prime q" "m dvd prod_list qs" "m \<noteq> prod_list qs"
  shows "\<exists>q \<in> set qs. m dvd prod_list qs div q"
  using assms
proof (induction qs arbitrary: m)
  case Nil
  then show ?case by simp
next
  case (Cons q qs)
  have q0: "0 < q" using Cons.prems(1) by (auto simp: is_prime_def)
  show ?case
  proof (cases "q dvd m")
    case False
    then have "coprime m q" using Cons.prems(1) by (intro is_prime_coprime) auto
    then have "m dvd prod_list qs" using Cons.prems(2) by (simp add: coprime_dvd_mult_right_iff)
    then show ?thesis using q0 by auto
  next
    case True
    then obtain m' where m': "m = q * m'" by blast
    have "m' dvd prod_list qs" "m' \<noteq> prod_list qs" using Cons.prems(2,3) m' q0 by auto
    then obtain p where p: "p \<in> set qs" "m' dvd prod_list qs div p"
      using Cons.IH Cons.prems(1) by auto
    have "p dvd prod_list qs" using p(1) by (rule prod_list_dvd)
    then have "prod_list (q # qs) div p = q * (prod_list qs div p)"
      by (simp add: div_mult_swap)
    then show ?thesis using p m' by (auto intro!: bexI [of _ p] mult_dvd_mono)
  qed
qed

lemma power_mod_one_diff:
  fixes a n i j :: nat
  assumes "coprime a n" "i \<le> j" "a ^ i mod n = a ^ j mod n" "1 < n"
  shows "a ^ (j - i) mod n = 1"
proof -
  have a0: "a \<noteq> 0" using assms(1,4) by (cases "a = 0") simp_all
  have j: "a ^ j = a ^ i * a ^ (j - i)" using assms(2) by (simp flip: power_add)
  have le: "a ^ i \<le> a ^ j" using a0 assms(2) by (simp add: power_increasing Suc_le_eq)
  have "n dvd a ^ j - a ^ i"
    using mod_eq_dvd_iff_nat [OF le, of n] assms(3) by simp
  then have "n dvd a ^ i * (a ^ (j - i) - 1)" unfolding j diff_mult_distrib2 mult_1_right .
  moreover have "coprime n (a ^ i)" using assms(1) by (simp add: coprime_commute)
  ultimately have d: "n dvd a ^ (j - i) - 1" by (simp add: coprime_dvd_mult_right_iff)
  have "1 \<le> a ^ (j - i)" using a0 by simp
  then have "a ^ (j - i) mod n = 1 mod n" using mod_eq_dvd_iff_nat d by blast
  then show ?thesis using mod_less [OF assms(4)] by (simp only:)
qed

lemma lucas:
  assumes n: "1 < n" and fermat: "a ^ (n - 1) mod n = 1"
    and f: "n - 1 = prod_list qs" "\<forall>q \<in> set qs. is_prime q"
    and w: "\<forall>q \<in> set qs. a ^ ((n - 1) div q) mod n \<noteq> 1"
  shows "is_prime n"
proof -
  have co: "coprime a n"
  proof (rule coprimeI)
    fix c assume c: "c dvd a" "c dvd n"
    show "is_unit c"
    proof (cases "n = 2")
      case True
      then show ?thesis using fermat c by (metis One_nat_def diff_Suc_1 numeral_2_eq_2 power_one_right
            dvd_mod_iff)
    next
      case False
      have "c dvd a ^ (n - 1)" using c(1) n False by (simp add: dvd_power_le dvd_trans dvd_power)
      then show ?thesis using c(2) fermat by (metis dvd_mod_iff)
    qed
  qed
  define P where "P k \<longleftrightarrow> 0 < k \<and> a ^ k mod n = 1" for k
  define ord where "ord = (LEAST k. P k)"
  have "P (n - 1)" using n fermat by (simp add: P_def)
  then have od: "P ord" "\<And>k. P k \<Longrightarrow> ord \<le> k" by (auto simp: ord_def intro: LeastI Least_le)
  have full: "a ^ (ord * k) mod n = 1" for k
    using od(1) n by (simp add: P_def power_mult power_mod [symmetric, of "a ^ ord" k])
  have "ord dvd n - 1"
  proof -
    let ?r = "(n - 1) mod ord" and ?q = "(n - 1) div ord"
    have "a ^ (n - 1) mod n = (a ^ (ord * ?q) mod n * (a ^ ?r mod n)) mod n"
      by (simp add: mod_mult_eq flip: power_add)
    then have "a ^ ?r mod n = 1" using fermat full n by simp
    moreover have "?r < ord" using od(1) by (simp add: P_def)
    ultimately have "?r = 0" using od(2) [of ?r] by (auto simp: P_def)
    then show ?thesis by (simp add: dvd_eq_mod_eq_0)
  qed
  have ord: "ord = n - 1"
  proof (rule ccontr)
    assume "ord \<noteq> n - 1"
    then obtain q k where "q \<in> set qs" "(n - 1) div q = ord * k"
      using proper_divisor_misses_prime [OF f(2), of ord] \<open>ord dvd n - 1\<close> f(1) by (auto elim!: dvdE)
    then show False using bspec [OF w, of q] full [of k] by simp
  qed
  let ?S = "(\<lambda>i. a ^ i mod n) ` {..<n - 1}"
  have "inj_on (\<lambda>i. a ^ i mod n) {..<n - 1}"
  proof (rule linorder_inj_onI')
    fix i j assume ij: "i \<in> {..<n - 1}" "j \<in> {..<n - 1}" "i < j"
    show "a ^ i mod n \<noteq> a ^ j mod n"
    proof
      assume "a ^ i mod n = a ^ j mod n"
      then have "P (j - i)" using power_mod_one_diff [OF co _ _ n, of i j] ij by (simp add: P_def)
      then show False using od(2) [of "j - i"] ord ij by auto
    qed
  qed
  then have card: "card ?S = n - 1" by (simp add: card_image)
  have cop: "coprime d n" if "d \<in> ?S" for d
    using that co n by (auto simp: coprime_power_left_iff)
  have "?S \<subseteq> {1..<n}"
  proof
    fix d assume d: "d \<in> ?S"
    then have "d < n" using n by auto
    moreover have "d \<noteq> 0" using cop [OF d] n by (cases "d = 0") simp_all
    ultimately show "d \<in> {1..<n}" by simp
  qed
  then have S: "?S = {1..<n}" using card by (intro card_subset_eq) auto
  have "d = 1 \<or> d = n" if dn: "d dvd n" for d
  proof (rule ccontr)
    assume c: "\<not> (d = 1 \<or> d = n)"
    have "d \<in> {1..<n}" using dn c n by (auto simp: Suc_le_eq intro!: gr0I dest: dvd_imp_le)
    then have "coprime d n" using cop S by blast
    then show False using dn c by (metis coprime_common_divisor dvd_refl nat_dvd_1_iff_1)
  qed
  then show ?thesis using n by (simp add: is_prime_def)
qed

lemma bits_val_nonneg: "0 \<le> v \<Longrightarrow> 0 \<le> bits_val v bs"
  by (induction bs arbitrary: v) auto

lemma powm_power:
  "0 \<le> v \<Longrightarrow> powm n a (a ^ nat v mod n) bs = a ^ nat (bits_val v bs) mod n"
proof (induction bs arbitrary: v)
  case Nil
  then show ?case by simp
next
  case (Cons b bs)
  have sq: "a ^ nat (2 * v) = a ^ nat v * a ^ nat v" "a ^ nat (2 * v + 1) = a * (a ^ nat v * a ^ nat v)"
  proof -
    have "nat (2 * v) = nat v + nat v" "nat (2 * v + 1) = Suc (nat v + nat v)"
      using Cons.prems by arith+
    then show "a ^ nat (2 * v) = a ^ nat v * a ^ nat v" "a ^ nat (2 * v + 1) = a * (a ^ nat v * a ^ nat v)"
      by (simp_all only: power_add power_Suc)
  qed
  have "(if b then (a ^ nat v mod n) * (a ^ nat v mod n) * a else (a ^ nat v mod n) * (a ^ nat v mod n)) mod n =
      (if b then a ^ nat (2 * v + 1) else a ^ nat (2 * v)) mod n"
    unfolding sq mult.commute [of _ a]
    by (cases b) (simp_all add: mod_mult_eq, metis mod_mult_eq mod_mult_right_eq)
  then have "powm n a (a ^ nat v mod n) (b # bs) =
      powm n a (a ^ nat (if b then 2 * v + 1 else 2 * v) mod n) bs"
    unfolding powm.simps by (cases b) (simp_all only: if_True if_False)
  also have "\<dots> = a ^ nat (bits_val (if b then 2 * v + 1 else 2 * v) bs) mod n"
    using Cons.prems by (intro Cons.IH) simp
  finally show ?case by simp
qed

lemma powm_nat:
  assumes "1 < n" "0 < a"
  shows "powm n a 1 bs = int (nat a ^ nat (bits_val 0 bs) mod nat n)"
  using powm_power [of 0 n a bs] assms by (simp add: zmod_int)

lemma nat_prod_foldr: "\<forall>q \<in> set qs. 0 < q \<Longrightarrow> nat (foldr (*) qs 1) = prod_list (map nat qs) \<and> 0 < foldr (*) qs (1::int)"
  by (induction qs) (auto simp: nat_mult_distrib)

lemma lucas_check:
  assumes ok: "lucas_ok n a bs qs cs" and pr: "\<forall>c \<in> set cs. is_prime (nat (fst c))"
  shows "is_prime (nat n)"
proof (rule lucas [of "nat n" "nat a" "map nat qs"])
  have n: "1 < n" "0 < a" and qs: "\<And>q. q \<in> set qs \<Longrightarrow> 0 < q"
    using ok by (auto simp: lucas_ok_def list_all_iff)
  have nn: "nat n - 1 = nat (n - 1)" using n by (simp add: nat_diff_distrib)
  show "1 < nat n" using n by simp
  show "nat a ^ (nat n - 1) mod nat n = 1"
    unfolding nn using ok powm_nat [OF n, of bs] by (auto simp: lucas_ok_def)
  show "nat n - 1 = prod_list (map nat qs)"
    unfolding nn using ok nat_prod_foldr [of qs] qs by (auto simp: lucas_ok_def)
  have *: "is_prime (nat q) \<and> nat a ^ ((nat n - 1) div nat q) mod nat n \<noteq> 1" if q: "q \<in> set qs" for q
  proof -
    obtain bs' where c: "(q, bs') \<in> set cs" using ok q
      by (force simp: lucas_ok_def list_all_iff list_ex_iff)
    have e: "bits_val 0 bs' * q = n - 1" "powm n a 1 bs' \<noteq> 1"
      using ok c by (auto simp: lucas_ok_def list_all_iff)
    have "(nat n - 1) div nat q = nat (bits_val 0 bs')"
      unfolding nn e(1) [symmetric]
      using qs [OF q] bits_val_nonneg [of 0 bs'] by (simp add: nat_mult_distrib)
    then show ?thesis using pr c e(2) powm_nat [OF n, of bs'] by force
  qed
  then show "\<forall>q \<in> set (map nat qs). is_prime q"
    "\<forall>q \<in> set (map nat qs). nat a ^ ((nat n - 1) div q) mod nat n \<noteq> 1" by auto
qed

lemma lucas_certificate:
  "lucas_ok n a bs qs cs \<Longrightarrow> \<forall>c \<in> set cs. is_prime (nat (fst c)) \<Longrightarrow> nat n = m \<Longrightarrow> is_prime m"
  using lucas_check by blast

subsection \<open>The certificates\<close>

lemma is_prime_17: "is_prime 17"
  by (rule is_prime_small) (simp_all add: upt_rec)

lemma is_prime_211: "is_prime 211"
  by (rule is_prime_small) (simp_all add: upt_rec)

lemma is_prime_467: "is_prime 467"
  by (rule is_prime_small) (simp_all add: upt_rec)

lemma is_prime_983: "is_prime 983"
  by (rule is_prime_small) (simp_all add: upt_rec)

lemma is_prime_2: "is_prime 2"
  by (rule is_prime_small) (simp_all add: upt_rec)

lemma is_prime_7: "is_prime 7"
  by (rule is_prime_small) (simp_all add: upt_rec)

lemma is_prime_11: "is_prime 11"
  by (rule is_prime_small) (simp_all add: upt_rec)

lemma is_prime_13: "is_prime 13"
  by (rule is_prime_small) (simp_all add: upt_rec)

lemma is_prime_2003: "is_prime 2003"
  by (rule lucas_certificate [where n = 2003 and a = 5 and bs = "[True, True, True, True, True, False, True, False,
      False, True, False]"
      and qs = "[2, 7, 11, 13]" and cs = "[(2, [True, True, True, True, True, False, True, False,
      False, True]), (7, [True, False, False, False, True, True, True, True, False]), (11, [True,
      False, True, True, False, True, True, False]), (13, [True, False, False, True, True, False,
      True, False])]"])
    (code_simp, simp add: is_prime_2 is_prime_7 is_prime_11 is_prime_13, simp)

lemma is_prime_3: "is_prime 3"
  by (rule is_prime_small) (simp_all add: upt_rec)

lemma is_prime_5: "is_prime 5"
  by (rule is_prime_small) (simp_all add: upt_rec)

lemma is_prime_4051: "is_prime 4051"
  by (rule lucas_certificate [where n = 4051 and a = 10 and bs = "[True, True, True, True, True, True, False, True,
      False, False, True, False]"
      and qs = "[2, 3, 3, 3, 3, 5, 5]" and cs = "[(2, [True, True, True, True, True, True, False,
      True, False, False, True]), (3, [True, False, True, False, True, False, False, False, True,
      True, False]), (5, [True, True, False, False, True, False, True, False, True, False])]"])
    (code_simp, simp add: is_prime_2 is_prime_3 is_prime_5, simp)

lemma is_prime_509: "is_prime 509"
  by (rule is_prime_small) (simp_all add: upt_rec)

lemma is_prime_4073: "is_prime 4073"
  by (rule lucas_certificate [where n = 4073 and a = 3 and bs = "[True, True, True, True, True, True, True, False,
      True, False, False, False]"
      and qs = "[2, 2, 2, 509]" and cs = "[(2, [True, True, True, True, True, True, True, False,
      True, False, False]), (509, [True, False, False, False])]"])
    (code_simp, simp add: is_prime_2 is_prime_509, simp)

lemma is_prime_8147: "is_prime 8147"
  by (rule lucas_certificate [where n = 8147 and a = 2 and bs = "[True, True, True, True, True, True, True, False,
      True, False, False, True, False]"
      and qs = "[2, 4073]" and cs = "[(2, [True, True, True, True, True, True, True, False, True,
      False, False, True]), (4073, [True, False])]"])
    (code_simp, simp add: is_prime_2 is_prime_4073, simp)

lemma is_prime_389: "is_prime 389"
  by (rule is_prime_small) (simp_all add: upt_rec)

lemma is_prime_16339: "is_prime 16339"
  by (rule lucas_certificate [where n = 16339 and a = 2 and bs = "[True, True, True, True, True, True, True, True,
      False, True, False, False, True, False]"
      and qs = "[2, 3, 7, 389]" and cs = "[(2, [True, True, True, True, True, True, True, True,
      False, True, False, False, True]), (3, [True, False, True, False, True, False, True, False,
      False, False, True, True, False]), (7, [True, False, False, True, False, False, False, True,
      True, True, True, False]), (389, [True, False, True, False, True, False])]"])
    (code_simp, simp add: is_prime_2 is_prime_3 is_prime_7 is_prime_389, simp)

lemma is_prime_19: "is_prime 19"
  by (rule is_prime_small) (simp_all add: upt_rec)

lemma is_prime_41: "is_prime 41"
  by (rule is_prime_small) (simp_all add: upt_rec)

lemma is_prime_32719: "is_prime 32719"
  by (rule lucas_certificate [where n = 32719 and a = 3 and bs = "[True, True, True, True, True, True, True, True, True,
      False, False, True, True, True, False]"
      and qs = "[2, 3, 7, 19, 41]" and cs = "[(2, [True, True, True, True, True, True, True, True,
      True, False, False, True, True, True]), (3, [True, False, True, False, True, False, True,
      False, False, True, True, False, True, False]), (7, [True, False, False, True, False, False,
      True, False, False, False, False, True, False]), (19, [True, True, False, True, False, True,
      True, True, False, True, False]), (41, [True, True, False, False, False, True, True, True,
      True, False])]"])
    (code_simp, simp add: is_prime_2 is_prime_3 is_prime_7 is_prime_19 is_prime_41, simp)

lemma is_prime_1559: "is_prime 1559"
  by (rule lucas_certificate [where n = 1559 and a = 19 and bs = "[True, True, False, False, False, False, True, False,
      True, True, False]"
      and qs = "[2, 19, 41]" and cs = "[(2, [True, True, False, False, False, False, True, False,
      True, True]), (19, [True, False, True, False, False, True, False]), (41, [True, False, False,
      True, True, False])]"])
    (code_simp, simp add: is_prime_2 is_prime_19 is_prime_41, simp)

lemma is_prime_65479: "is_prime 65479"
  by (rule lucas_certificate [where n = 65479 and a = 7 and bs = "[True, True, True, True, True, True, True, True, True,
      True, False, False, False, True, True, False]"
      and qs = "[2, 3, 7, 1559]" and cs = "[(2, [True, True, True, True, True, True, True, True,
      True, True, False, False, False, True, True]), (3, [True, False, True, False, True, False,
      True, False, True, False, False, False, False, True, False]), (7, [True, False, False, True,
      False, False, True, False, False, False, True, False, True, False]), (1559, [True, False,
      True, False, True, False])]"])
    (code_simp, simp add: is_prime_2 is_prime_3 is_prime_7 is_prime_1559, simp)

lemma is_prime_29: "is_prime 29"
  by (rule is_prime_small) (simp_all add: upt_rec)

lemma is_prime_251: "is_prime 251"
  by (rule is_prime_small) (simp_all add: upt_rec)

lemma is_prime_131023: "is_prime 131023"
  by (rule lucas_certificate [where n = 131023 and a = 6 and bs = "[True, True, True, True, True, True, True, True, True,
      True, True, False, False, True, True, True, False]"
      and qs = "[2, 3, 3, 29, 251]" and cs = "[(2, [True, True, True, True, True, True, True, True,
      True, True, True, False, False, True, True, True]), (3, [True, False, True, False, True,
      False, True, False, True, False, False, True, True, False, True, False]), (29, [True, False,
      False, False, True, True, False, True, False, False, True, True, False]), (251, [True, False,
      False, False, False, False, True, False, True, False])]"])
    (code_simp, simp add: is_prime_2 is_prime_3 is_prime_29 is_prime_251, simp)

lemma is_prime_4519: "is_prime 4519"
  by (rule lucas_certificate [where n = 4519 and a = 3 and bs = "[True, False, False, False, True, True, False, True,
      False, False, True, True, False]"
      and qs = "[2, 3, 3, 251]" and cs = "[(2, [True, False, False, False, True, True, False, True,
      False, False, True, True]), (3, [True, False, True, True, True, True, False, False, False,
      True, False]), (251, [True, False, False, True, False])]"])
    (code_simp, simp add: is_prime_2 is_prime_3 is_prime_251, simp)

lemma is_prime_262103: "is_prime 262103"
  by (rule lucas_certificate [where n = 262103 and a = 5 and bs = "[True, True, True, True, True, True, True, True, True,
      True, True, True, False, True, False, True, True, False]"
      and qs = "[2, 29, 4519]" and cs = "[(2, [True, True, True, True, True, True, True, True, True,
      True, True, True, False, True, False, True, True]), (29, [True, False, False, False, True,
      True, False, True, False, False, True, True, True, False]), (4519, [True, True, True, False,
      True, False])]"])
    (code_simp, simp add: is_prime_2 is_prime_29 is_prime_4519, simp)

lemma is_prime_6553: "is_prime 6553"
  by (rule lucas_certificate [where n = 6553 and a = 10 and bs = "[True, True, False, False, True, True, False, False,
      True, True, False, False, False]"
      and qs = "[2, 2, 2, 3, 3, 7, 13]" and cs = "[(2, [True, True, False, False, True, True, False,
      False, True, True, False, False]), (3, [True, False, False, False, True, False, False, False,
      True, False, False, False]), (7, [True, True, True, False, True, False, True, False, False,
      False]), (13, [True, True, True, True, True, True, False, False, False])]"])
    (code_simp, simp add: is_prime_2 is_prime_3 is_prime_7 is_prime_13, simp)

lemma is_prime_262121: "is_prime 262121"
  by (rule lucas_certificate [where n = 262121 and a = 3 and bs = "[True, True, True, True, True, True, True, True, True,
      True, True, True, True, False, True, False, False, False]"
      and qs = "[2, 2, 2, 5, 6553]" and cs = "[(2, [True, True, True, True, True, True, True, True,
      True, True, True, True, True, False, True, False, False]), (5, [True, True, False, False,
      True, True, False, False, True, True, False, False, True, False, False, False]), (6553, [True,
      False, True, False, False, False])]"])
    (code_simp, simp add: is_prime_2 is_prime_5 is_prime_6553, simp)

lemma is_prime_524243: "is_prime 524243"
  by (rule lucas_certificate [where n = 524243 and a = 2 and bs = "[True, True, True, True, True, True, True, True, True,
      True, True, True, True, False, True, False, False, True, False]"
      and qs = "[2, 262121]" and cs = "[(2, [True, True, True, True, True, True, True, True, True,
      True, True, True, True, False, True, False, False, True]), (262121, [True, False])]"])
    (code_simp, simp add: is_prime_2 is_prime_262121, simp)

lemma is_prime_79: "is_prime 79"
  by (rule is_prime_small) (simp_all add: upt_rec)

lemma is_prime_37447: "is_prime 37447"
  by (rule lucas_certificate [where n = 37447 and a = 3 and bs = "[True, False, False, True, False, False, True, False,
      False, True, False, False, False, True, True, False]"
      and qs = "[2, 3, 79, 79]" and cs = "[(2, [True, False, False, True, False, False, True, False,
      False, True, False, False, False, True, True]), (3, [True, True, False, False, False, False,
      True, True, False, False, False, False, True, False]), (79, [True, True, True, False, True,
      True, False, True, False])]"])
    (code_simp, simp add: is_prime_2 is_prime_3 is_prime_79, simp)

lemma is_prime_1048517: "is_prime 1048517"
  by (rule lucas_certificate [where n = 1048517 and a = 2 and bs = "[True, True, True, True, True, True, True, True, True,
      True, True, True, True, True, False, False, False, True, False, False]"
      and qs = "[2, 2, 7, 37447]" and cs = "[(2, [True, True, True, True, True, True, True, True,
      True, True, True, True, True, True, False, False, False, True, False]), (7, [True, False,
      False, True, False, False, True, False, False, True, False, False, False, True, True, True,
      False, False]), (37447, [True, True, True, False, False])]"])
    (code_simp, simp add: is_prime_2 is_prime_7 is_prime_37447, simp)

lemma is_prime_59: "is_prime 59"
  by (rule is_prime_small) (simp_all add: upt_rec)

lemma is_prime_37: "is_prime 37"
  by (rule is_prime_small) (simp_all add: upt_rec)

lemma is_prime_1481: "is_prime 1481"
  by (rule lucas_certificate [where n = 1481 and a = 3 and bs = "[True, False, True, True, True, False, False, True,
      False, False, False]"
      and qs = "[2, 2, 2, 5, 37]" and cs = "[(2, [True, False, True, True, True, False, False, True,
      False, False]), (5, [True, False, False, True, False, True, False, False, False]), (37, [True,
      False, True, False, False, False])]"])
    (code_simp, simp add: is_prime_2 is_prime_5 is_prime_37, simp)

lemma is_prime_2097097: "is_prime 2097097"
  by (rule lucas_certificate [where n = 2097097 and a = 10 and bs = "[True, True, True, True, True, True, True, True,
      True, True, True, True, True, True, True, False, False, True, False, False, False]"
      and qs = "[2, 2, 2, 3, 59, 1481]" and cs = "[(2, [True, True, True, True, True, True, True,
      True, True, True, True, True, True, True, True, False, False, True, False, False]), (3, [True,
      False, True, False, True, False, True, False, True, False, True, False, True, False, False,
      True, True, False, False, False]), (59, [True, False, False, False, True, False, True, False,
      True, True, False, True, True, False, False, False]), (1481, [True, False, True, True, False,
      False, False, True, False, False, False])]"])
    (code_simp, simp add: is_prime_2 is_prime_3 is_prime_59 is_prime_1481, simp)

lemma is_prime_71: "is_prime 71"
  by (rule is_prime_small) (simp_all add: upt_rec)

lemma is_prime_2699: "is_prime 2699"
  by (rule lucas_certificate [where n = 2699 and a = 2 and bs = "[True, False, True, False, True, False, False, False,
      True, False, True, False]"
      and qs = "[2, 19, 71]" and cs = "[(2, [True, False, True, False, True, False, False, False,
      True, False, True]), (19, [True, False, False, False, True, True, True, False]), (71, [True,
      False, False, True, True, False])]"])
    (code_simp, simp add: is_prime_2 is_prime_19 is_prime_71, simp)

lemma is_prime_4194247: "is_prime 4194247"
  by (rule lucas_certificate [where n = 4194247 and a = 3 and bs = "[True, True, True, True, True, True, True, True, True,
      True, True, True, True, True, True, True, False, False, False, True, True, False]"
      and qs = "[2, 3, 7, 37, 2699]" and cs = "[(2, [True, True, True, True, True, True, True, True,
      True, True, True, True, True, True, True, True, False, False, False, True, True]), (3, [True,
      False, True, False, True, False, True, False, True, False, True, False, True, False, True,
      False, False, False, False, True, False]), (7, [True, False, False, True, False, False, True,
      False, False, True, False, False, True, False, False, False, True, False, True, False]), (37,
      [True, True, False, True, True, True, False, True, False, True, True, False, False, True,
      True, True, False]), (2699, [True, True, False, False, False, False, True, False, False, True,
      False])]"])
    (code_simp, simp add: is_prime_2 is_prime_3 is_prime_7 is_prime_37 is_prime_2699, simp)

lemma is_prime_73: "is_prime 73"
  by (rule is_prime_small) (simp_all add: upt_rec)

lemma is_prime_1607: "is_prime 1607"
  by (rule lucas_certificate [where n = 1607 and a = 5 and bs = "[True, True, False, False, True, False, False, False,
      True, True, False]"
      and qs = "[2, 11, 73]" and cs = "[(2, [True, True, False, False, True, False, False, False,
      True, True]), (11, [True, False, False, True, False, False, True, False]), (73, [True, False,
      True, True, False])]"])
    (code_simp, simp add: is_prime_2 is_prime_11 is_prime_73, simp)

lemma is_prime_1398091: "is_prime 1398091"
  by (rule lucas_certificate [where n = 1398091 and a = 2 and bs = "[True, False, True, False, True, False, True, False,
      True, False, True, False, True, False, True, False, False, True, False, True, False]"
      and qs = "[2, 3, 5, 29, 1607]" and cs = "[(2, [True, False, True, False, True, False, True,
      False, True, False, True, False, True, False, True, False, False, True, False, True]), (3,
      [True, True, True, False, False, False, True, True, True, False, False, False, True, True,
      False, True, True, True, False]), (5, [True, False, False, False, True, False, False, False,
      True, False, False, False, True, False, False, False, False, True, False]), (29, [True, False,
      True, True, True, True, False, False, False, True, False, True, False, False, True, False]),
      (1607, [True, True, False, True, True, False, False, True, True, False])]"])
    (code_simp, simp add: is_prime_2 is_prime_3 is_prime_5 is_prime_29 is_prime_1607, simp)

lemma is_prime_8388547: "is_prime 8388547"
  by (rule lucas_certificate [where n = 8388547 and a = 2 and bs = "[True, True, True, True, True, True, True, True, True,
      True, True, True, True, True, True, True, True, False, False, False, False, True, False]"
      and qs = "[2, 3, 1398091]" and cs = "[(2, [True, True, True, True, True, True, True, True,
      True, True, True, True, True, True, True, True, True, False, False, False, False, True]), (3,
      [True, False, True, False, True, False, True, False, True, False, True, False, True, False,
      True, False, False, True, False, True, True, False]), (1398091, [True, True, False])]"])
    (code_simp, simp add: is_prime_2 is_prime_3 is_prime_1398091, simp)

lemma is_prime_16777153: "is_prime 16777153"
  by (rule lucas_certificate [where n = 16777153 and a = 5 and bs = "[True, True, True, True, True, True, True, True, True,
      True, True, True, True, True, True, True, True, True, False, False, False, False, False,
      False]"
      and qs = "[2, 2, 2, 2, 2, 2, 3, 3, 3, 7, 19, 73]" and cs = "[(2, [True, True, True, True,
      True, True, True, True, True, True, True, True, True, True, True, True, True, True, False,
      False, False, False, False]), (3, [True, False, True, False, True, False, True, False, True,
      False, True, False, True, False, True, False, True, False, False, False, False, False,
      False]), (7, [True, False, False, True, False, False, True, False, False, True, False, False,
      True, False, False, True, False, False, False, False, False, False]), (19, [True, True, False,
      True, False, True, True, True, True, False, False, True, False, True, False, False, False,
      False, False, False]), (73, [True, True, True, False, False, False, False, False, False, True,
      True, True, False, False, False, False, False, False])]"])
    (code_simp, simp add: is_prime_2 is_prime_3 is_prime_7 is_prime_19 is_prime_73, simp)

lemma is_prime_131: "is_prime 131"
  by (rule is_prime_small) (simp_all add: upt_rec)

lemma is_prime_1423: "is_prime 1423"
  by (rule lucas_certificate [where n = 1423 and a = 3 and bs = "[True, False, True, True, False, False, False, True,
      True, True, False]"
      and qs = "[2, 3, 3, 79]" and cs = "[(2, [True, False, True, True, False, False, False, True,
      True, True]), (3, [True, True, True, False, True, True, False, True, False]), (79, [True,
      False, False, True, False])]"])
    (code_simp, simp add: is_prime_2 is_prime_3 is_prime_79, simp)

lemma is_prime_1118479: "is_prime 1118479"
  by (rule lucas_certificate [where n = 1118479 and a = 3 and bs = "[True, False, False, False, True, False, False, False,
      True, False, False, False, True, False, False, False, False, True, True, True, False]"
      and qs = "[2, 3, 131, 1423]" and cs = "[(2, [True, False, False, False, True, False, False,
      False, True, False, False, False, True, False, False, False, False, True, True, True]), (3,
      [True, False, True, True, False, True, True, False, False, False, False, False, True, False,
      True, True, False, True, False]), (131, [True, False, False, False, False, True, False, True,
      False, True, True, False, True, False]), (1423, [True, True, False, False, False, True, False,
      False, True, False])]"])
    (code_simp, simp add: is_prime_2 is_prime_3 is_prime_131 is_prime_1423, simp)

lemma is_prime_33554371: "is_prime 33554371"
  by (rule lucas_certificate [where n = 33554371 and a = 2 and bs = "[True, True, True, True, True, True, True, True, True,
      True, True, True, True, True, True, True, True, True, True, False, False, False, False, True,
      False]"
      and qs = "[2, 3, 5, 1118479]" and cs = "[(2, [True, True, True, True, True, True, True, True,
      True, True, True, True, True, True, True, True, True, True, True, False, False, False, False,
      True]), (3, [True, False, True, False, True, False, True, False, True, False, True, False,
      True, False, True, False, True, False, False, True, False, True, True, False]), (5, [True,
      True, False, False, True, True, False, False, True, True, False, False, True, True, False,
      False, True, False, True, True, False, True, False]), (1118479, [True, True, True, True,
      False])]"])
    (code_simp, simp add: is_prime_2 is_prime_3 is_prime_5 is_prime_1118479, simp)

lemma is_prime_173: "is_prime 173"
  by (rule is_prime_small) (simp_all add: upt_rec)

lemma is_prime_577: "is_prime 577"
  by (rule is_prime_small) (simp_all add: upt_rec)

lemma is_prime_2309: "is_prime 2309"
  by (rule lucas_certificate [where n = 2309 and a = 2 and bs = "[True, False, False, True, False, False, False, False,
      False, True, False, False]"
      and qs = "[2, 2, 577]" and cs = "[(2, [True, False, False, True, False, False, False, False,
      False, True, False]), (577, [True, False, False])]"])
    (code_simp, simp add: is_prime_2 is_prime_577, simp)

lemma is_prime_1597829: "is_prime 1597829"
  by (rule lucas_certificate [where n = 1597829 and a = 2 and bs = "[True, True, False, False, False, False, True, True,
      False, False, False, False, True, True, False, False, False, False, True, False, False]"
      and qs = "[2, 2, 173, 2309]" and cs = "[(2, [True, True, False, False, False, False, True,
      True, False, False, False, False, True, True, False, False, False, False, True, False]), (173,
      [True, False, False, True, False, False, False, False, False, True, False, True, False,
      False]), (2309, [True, False, True, False, True, True, False, True, False, False])]"])
    (code_simp, simp add: is_prime_2 is_prime_173 is_prime_2309, simp)

lemma is_prime_67108819: "is_prime 67108819"
  by (rule lucas_certificate [where n = 67108819 and a = 2 and bs = "[True, True, True, True, True, True, True, True, True,
      True, True, True, True, True, True, True, True, True, True, True, False, True, False, False,
      True, False]"
      and qs = "[2, 3, 7, 1597829]" and cs = "[(2, [True, True, True, True, True, True, True, True,
      True, True, True, True, True, True, True, True, True, True, True, True, False, True, False,
      False, True]), (3, [True, False, True, False, True, False, True, False, True, False, True,
      False, True, False, True, False, True, False, True, False, False, False, True, True, False]),
      (7, [True, False, False, True, False, False, True, False, False, True, False, False, True,
      False, False, True, False, False, False, True, True, True, True, False]), (1597829, [True,
      False, True, False, True, False])]"])
    (code_simp, simp add: is_prime_2 is_prime_3 is_prime_7 is_prime_1597829, simp)

lemma is_prime_311: "is_prime 311"
  by (rule is_prime_small) (simp_all add: upt_rec)

lemma is_prime_134217649: "is_prime 134217649"
  by (rule lucas_certificate [where n = 134217649 and a = 7 and bs = "[True, True, True, True, True, True, True, True, True,
      True, True, True, True, True, True, True, True, True, True, True, False, True, True, False,
      False, False, False]"
      and qs = "[2, 2, 2, 2, 3, 3, 3, 3, 3, 3, 37, 311]" and cs = "[(2, [True, True, True, True,
      True, True, True, True, True, True, True, True, True, True, True, True, True, True, True,
      True, False, True, True, False, False, False]), (3, [True, False, True, False, True, False,
      True, False, True, False, True, False, True, False, True, False, True, False, True, False,
      False, True, False, False, False, False]), (37, [True, True, False, True, True, True, False,
      True, False, True, True, False, False, True, True, True, True, True, False, False, False,
      False]), (311, [True, True, False, True, False, False, True, False, True, False, True, True,
      True, False, True, False, False, False, False])]"])
    (code_simp, simp add: is_prime_2 is_prime_3 is_prime_37 is_prime_311, simp)

lemmas is_prime_sizes =
  is_prime_17 is_prime_211 is_prime_467 is_prime_983 is_prime_2003
  is_prime_4051 is_prime_8147 is_prime_16339 is_prime_32719 is_prime_65479
  is_prime_131023 is_prime_262103 is_prime_524243 is_prime_1048517 is_prime_2097097
  is_prime_4194247 is_prime_8388547 is_prime_16777153 is_prime_33554371 is_prime_67108819
  is_prime_134217649

lemma table_sizes_eq:
  "table_sizes = [17, 211, 467, 983, 2003, 4051, 8147, 16339, 32719, 65479, 131023, 262103, 524243,
     1048517, 2097097, 4194247, 8388547, 16777153, 33554371, 67108819, 134217649]"
  by (simp add: table_sizes_def ithprime_def primetbl_def FIRSTN_def INITSZ_def upt_rec)

lemma table_sizes_prime: "n \<in> set table_sizes \<Longrightarrow> is_prime n"
  unfolding table_sizes_eq by (auto simp: is_prime_sizes)

end
