(* ===== verification/Hash_Lib.thy ===== *)
theory Hash_Lib
  imports Hash_Primes
begin

unbundle bit_operations_syntax

section \<open>The hash table (\<^verbatim>\<open>fgutil/src/hash/hashlib.c\<close>)\<close>

text \<open>
  An open-addressing table with double hashing, deletion marks and reorganisation.  The probing
  loops are \<open>partial_function\<close>s: on a full table they would not return.  The lemmas of the
  locale \<open>hash_client\<close> show for every client (a key, two hash functions that respect it, a
  comparison that decides it) that the loops return and that find, insert and delete are the
  operations of a finite map, through reorganisation included.
\<close>

subsection \<open>State\<close>

text \<open>A slot of \<^verbatim>\<open>htbl\<close>: NULL, the mark \<^verbatim>\<open>DELETED\<close>, or a pointer to an item.\<close>

datatype 'a slot = Empty | Deleted | Item 'a

record 'a hshtbl =
  htbl :: "'a slot list"
  currentsz :: nat
  hash :: "'a \<Rightarrow> 64 word"
  rehash :: "'a \<Rightarrow> 64 word"
  cmp :: "'a \<Rightarrow> 'a \<Rightarrow> int"
  dupe :: "'a \<Rightarrow> 'a option"
  probes :: nat
  misses :: nat
  hentries :: nat
  hdeleted :: nat
  herror :: "32 word"

definition hshOK :: "32 word" where "hshOK = 0"
definition hshNOMEM :: "32 word" where "hshNOMEM = 1"
definition hshTBLFULL :: "32 word" where "hshTBLFULL = 2"
definition hshINTERR :: "32 word" where "hshINTERR = 4"

definition TTHRESH :: "nat \<Rightarrow> nat" where
  "TTHRESH sz = sz - sz div 8"

definition TSPACE :: "'a hshtbl \<Rightarrow> int" where
  "TSPACE m = int (TTHRESH (currentsz m)) - int (hentries m)"

text \<open>
  \<open>ok n\<close>: \<^verbatim>\<open>malloc\<close> grants a table of \<open>n\<close> slots.  The master structure is a value here, so its own
  \<^verbatim>\<open>malloc\<close> is taken to succeed, and \<^verbatim>\<open>hshinit\<close> is given functions and never NULL, as its callers in
  \<^verbatim>\<open>hashmap.c\<close> do.  The statistics \<open>probes\<close> and \<open>misses\<close>, which nothing reads but the statistics
  routine, do not wrap.
\<close>

definition maketbl :: "(nat \<Rightarrow> bool) \<Rightarrow> nat \<Rightarrow> 'a slot list option" where
  "maketbl ok newsize = (if ok newsize then Some (replicate newsize Empty) else None)"

definition hshinit ::
  "(nat \<Rightarrow> bool) \<Rightarrow> ('a \<Rightarrow> 64 word) \<Rightarrow> ('a \<Rightarrow> 64 word) \<Rightarrow> ('a \<Rightarrow> 'a \<Rightarrow> int) \<Rightarrow> ('a \<Rightarrow> 'a option) \<Rightarrow>
   'a hshtbl option" where
  "hshinit ok hash_fn rehash_fn cmp_fn dupe_fn =
     (case maketbl ok INITSZ of
        None \<Rightarrow> None
      | Some t \<Rightarrow> Some \<lparr>htbl = t, currentsz = INITSZ, hash = hash_fn, rehash = rehash_fn,
                       cmp = cmp_fn, dupe = dupe_fn,
                       probes = 0, misses = 0, hentries = 0, hdeleted = 0, herror = hshOK\<rparr>)"

text \<open>\<^verbatim>\<open>hshkill\<close>: the items handed to \<^verbatim>\<open>undupe\<close>, in order.\<close>

definition hshkill :: "'a hshtbl option \<Rightarrow> 'a list" where
  "hshkill m = (case m of None \<Rightarrow> []
     | Some m \<Rightarrow> List.map_filter (\<lambda>s. case s of Item x \<Rightarrow> Some x | _ \<Rightarrow> None) (htbl m))"

subsection \<open>Insertion\<close>

definition inserted :: "'a hshtbl \<Rightarrow> nat \<Rightarrow> 'a \<Rightarrow> bool \<Rightarrow> 'a option \<times> 'a hshtbl" where
  "inserted m0 h item copying =
     (let m = m0\<lparr>probes := probes m0 + 1\<rparr> in
      case htbl m ! h of
        Empty \<Rightarrow>
          if copying then (Some item, m\<lparr>htbl := (htbl m)[h := Item item]\<rparr>)
          else (case dupe m item of
                  Some x \<Rightarrow> (Some x, m\<lparr>htbl := (htbl m)[h := Item x], hentries := hentries m + 1\<rparr>)
                | None \<Rightarrow> (None, m\<lparr>herror := herror m OR hshNOMEM\<rparr>))
      | Deleted \<Rightarrow> (None, m)
      | Item y \<Rightarrow>
          if copying then (None, m)
          else if cmp m y item \<noteq> 0 then (None, m)
          else (Some y, m))"

partial_function (option) put_loop ::
  "'a hshtbl \<Rightarrow> nat \<Rightarrow> nat \<Rightarrow> 'a \<Rightarrow> bool \<Rightarrow> ('a option \<times> 'a hshtbl) option" where
  "put_loop m0 h0 h2 item copying =
     (let m = m0\<lparr>misses := misses m0 + 1\<rparr>;
          h = (h0 + h2) mod currentsz m;
          r = inserted m h item copying
      in if fst r = None \<and> herror (snd r) = hshOK
         then put_loop (snd r) h h2 item copying else Some r)"

definition putintbl :: "'a hshtbl \<Rightarrow> 'a \<Rightarrow> bool \<Rightarrow> ('a option \<times> 'a hshtbl) option" where
  "putintbl m item copying =
     (let h = unat (hash m item) mod currentsz m;
          r = inserted m h item copying
      in if fst r = None \<and> herror (snd r) = hshOK
         then put_loop (snd r) h (unat (rehash m item) mod (currentsz m div 8) + 1) item copying
         else Some r)"

function next_size :: "nat \<Rightarrow> nat \<Rightarrow> nat \<Rightarrow> nat" where
  "next_size oldsize newsize i =
     (if newsize \<noteq> 0 \<and> newsize \<le> oldsize then next_size oldsize (ithprime i) (i + 1) else newsize)"
  by pat_completeness auto
termination
  by (relation "measure (\<lambda>(old, new, i). (if new = 0 then 0 else 1) + (22 - i))")
    (auto simp: ithprime_def primetbl_def)

declare next_size.simps [simp del]

fun reinsert :: "'a slot list \<Rightarrow> nat \<Rightarrow> 'a hshtbl \<Rightarrow> (nat \<times> 'a hshtbl) option" where
  "reinsert [] n m = Some (n, m)"
| "reinsert (Item x # ss) n m =
     (case putintbl m x True of None \<Rightarrow> None | Some (r, m') \<Rightarrow> reinsert ss (n + 1) m')"
| "reinsert (s # ss) n m = reinsert ss n m"

definition reorganize :: "(nat \<Rightarrow> bool) \<Rightarrow> 'a hshtbl \<Rightarrow> (bool \<times> 'a hshtbl) option" where
  "reorganize ok m =
     (let oldsize = currentsz m;
          oldtbl = htbl m;
          newsize = (if hdeleted m > hentries m div 4 then oldsize
                     else next_size oldsize (ithprime 0) 1)
      in case (if newsize \<noteq> 0 then maketbl ok newsize else None) of
           None \<Rightarrow> Some (False, m)
         | Some newtbl \<Rightarrow>
             (case reinsert oldtbl 0 (m\<lparr>currentsz := newsize, htbl := newtbl\<rparr>) of
                None \<Rightarrow> None
              | Some (oldentries, m') \<Rightarrow>
                  if int oldentries \<noteq> int (hentries m') - int (hdeleted m') then
                    Some (False, m'\<lparr>herror := herror m' OR hshINTERR, htbl := oldtbl,
                                    currentsz := oldsize\<rparr>)
                  else Some (True, m'\<lparr>hentries := oldentries, hdeleted := 0\<rparr>)))"

definition hshinsert :: "(nat \<Rightarrow> bool) \<Rightarrow> 'a hshtbl \<Rightarrow> 'a \<Rightarrow> ('a option \<times> 'a hshtbl) option" where
  "hshinsert ok m item =
     (if TSPACE m \<le> 0 then
        (case reorganize ok m of
           None \<Rightarrow> None
         | Some (False, m') \<Rightarrow> Some (None, m'\<lparr>herror := herror m' OR hshTBLFULL\<rparr>)
         | Some (True, m') \<Rightarrow> putintbl m' item False)
      else putintbl m item False)"

subsection \<open>Lookup and deletion\<close>

definition found :: "'a hshtbl \<Rightarrow> nat \<Rightarrow> 'a \<Rightarrow> bool \<times> 'a hshtbl" where
  "found m0 h item =
     (let m = m0\<lparr>probes := probes m0 + 1\<rparr> in
      case htbl m ! h of
        Item y \<Rightarrow> (cmp m y item = 0, m)
      | _ \<Rightarrow> (False, m))"

partial_function (option) hunt_loop ::
  "'a hshtbl \<Rightarrow> nat \<Rightarrow> nat \<Rightarrow> 'a \<Rightarrow> (nat \<times> 'a hshtbl) option" where
  "hunt_loop m0 h0 h2 item =
     (let m = m0\<lparr>misses := misses m0 + 1\<rparr>;
          h = (h0 + h2) mod currentsz m;
          r = found m h item
      in if \<not> fst r \<and> htbl (snd r) ! h \<noteq> Empty then hunt_loop (snd r) h h2 item
         else Some (h, snd r))"

definition huntup :: "'a hshtbl \<Rightarrow> 'a \<Rightarrow> (nat \<times> 'a hshtbl) option" where
  "huntup m item =
     (let h = unat (hash m item) mod currentsz m;
          r = found m h item
      in if \<not> fst r \<and> htbl (snd r) ! h \<noteq> Empty
         then hunt_loop (snd r) h (unat (rehash m item) mod (currentsz m div 8) + 1) item
         else Some (h, snd r))"

definition hshfind :: "'a hshtbl \<Rightarrow> 'a \<Rightarrow> ('a slot \<times> 'a hshtbl) option" where
  "hshfind m item =
     (case huntup m item of None \<Rightarrow> None | Some (h, m') \<Rightarrow> Some (htbl m' ! h, m'))"

definition hshdelete :: "'a hshtbl \<Rightarrow> 'a \<Rightarrow> ('a slot \<times> 'a hshtbl) option" where
  "hshdelete m item =
     (case huntup m item of
        None \<Rightarrow> None
      | Some (h, m') \<Rightarrow>
          (let olditem = htbl m' ! h in
           if olditem \<noteq> Empty
           then Some (olditem, m'\<lparr>htbl := (htbl m')[h := Deleted], hdeleted := hdeleted m' + 1\<rparr>)
           else Some (olditem, m')))"

subsection \<open>Walking the table, statistics, string hashes\<close>

fun walk_slots :: "('a \<Rightarrow> 's \<Rightarrow> int \<times> 's) \<Rightarrow> 'a slot list \<Rightarrow> 's \<Rightarrow> int \<times> 's" where
  "walk_slots exec [] d = (0, d)"
| "walk_slots exec (Item x # ss) d =
     (let (err, d') = exec x d in if err \<noteq> 0 then (err, d') else walk_slots exec ss d')"
| "walk_slots exec (s # ss) d = walk_slots exec ss d"

definition hshwalk :: "'a hshtbl \<Rightarrow> ('a \<Rightarrow> 's \<Rightarrow> int \<times> 's) option \<Rightarrow> 's \<Rightarrow> int \<times> 's" where
  "hshwalk m exec d = (case exec of None \<Rightarrow> (-1, d) | Some f \<Rightarrow> walk_slots f (htbl m) d)"

definition hshstatus :: "'a hshtbl \<Rightarrow> nat \<times> nat \<times> nat \<times> nat \<times> 32 word" where
  "hshstatus m = (probes m, misses m, hentries m, hdeleted m, herror m)"

fun str_hash :: "64 word \<Rightarrow> 64 word \<Rightarrow> 8 word list \<Rightarrow> 64 word" where
  "str_hash mult h [] = h"
| "str_hash mult h (c # cs) = str_hash mult (h * mult + ucast c) cs"

definition hshstrhash :: "8 word list \<Rightarrow> 64 word" where
  "hshstrhash s = str_hash 31 0 s"

definition hshstrehash :: "8 word list \<Rightarrow> 64 word" where
  "hshstrehash s = str_hash 37 0 s"

subsection \<open>Probe sequences, invariant and abstraction\<close>

text \<open>The slot examined by the \<open>k\<close>-th probe for \<open>x\<close> in a table of \<open>sz\<close> slots.\<close>

definition probe :: "('a \<Rightarrow> 64 word) \<Rightarrow> ('a \<Rightarrow> 64 word) \<Rightarrow> nat \<Rightarrow> 'a \<Rightarrow> nat \<Rightarrow> nat" where
  "probe hf rf sz x k = (unat (hf x) mod sz + k * (unat (rf x) mod (sz div 8) + 1)) mod sz"

definition slot_count :: "('a slot \<Rightarrow> bool) \<Rightarrow> 'a slot list \<Rightarrow> nat" where
  "slot_count P t = length (filter P t)"

definition slot_items :: "'a slot list \<Rightarrow> 'a list" where
  "slot_items t = List.map_filter (\<lambda>s. case s of Item x \<Rightarrow> Some x | _ \<Rightarrow> None) t"

text \<open>
  A table is in order when its size is one of the primes, every item is met before any empty slot
  on its own probe sequence, and no two slots hold items with one key.
\<close>

definition tbl_ok :: "('a \<Rightarrow> 64 word) \<Rightarrow> ('a \<Rightarrow> 64 word) \<Rightarrow> ('a \<Rightarrow> 'k) \<Rightarrow> 'a slot list \<Rightarrow> bool" where
  "tbl_ok hf rf key t \<longleftrightarrow>
     length t \<in> set table_sizes \<and>
     (\<forall>i<length t. \<forall>x. t ! i = Item x \<longrightarrow>
        (\<exists>k. probe hf rf (length t) x k = i \<and> (\<forall>j<k. t ! probe hf rf (length t) x j \<noteq> Empty))) \<and>
     (\<forall>i<length t. \<forall>j<length t. \<forall>x y. t ! i = Item x \<longrightarrow> t ! j = Item y \<longrightarrow> key x = key y \<longrightarrow> i = j)"

definition hsh_inv ::
  "('a \<Rightarrow> 64 word) \<Rightarrow> ('a \<Rightarrow> 64 word) \<Rightarrow> ('a \<Rightarrow> 'a \<Rightarrow> int) \<Rightarrow> ('a \<Rightarrow> 'k) \<Rightarrow> 'a hshtbl \<Rightarrow> bool" where
  "hsh_inv hf rf cf key m \<longleftrightarrow>
     hash m = hf \<and> rehash m = rf \<and> cmp m = cf \<and> (\<forall>x y. dupe m x = Some y \<longrightarrow> y = x) \<and>
     tbl_ok hf rf key (htbl m) \<and> currentsz m = length (htbl m) \<and>
     hentries m = slot_count (\<lambda>s. s \<noteq> Empty) (htbl m) \<and>
     hdeleted m = slot_count (\<lambda>s. s = Deleted) (htbl m) \<and>
     hentries m \<le> TTHRESH (currentsz m) \<and> herror m = hshOK"

text \<open>The finite map a table stands for.\<close>

definition hsh_map :: "('a \<Rightarrow> 'k) \<Rightarrow> 'a hshtbl \<Rightarrow> 'k \<rightharpoonup> 'a" where
  "hsh_map key m = map_of (map (\<lambda>x. (key x, x)) (slot_items (htbl m)))"

text \<open>The number of items the largest table holds for sure, deletion marks notwithstanding.\<close>

definition HSH_CAPACITY :: nat where
  "HSH_CAPACITY = 88080332"

definition hsh_rep ::
  "('a \<Rightarrow> 64 word) \<Rightarrow> ('a \<Rightarrow> 64 word) \<Rightarrow> ('a \<Rightarrow> 'a \<Rightarrow> int) \<Rightarrow> ('a \<Rightarrow> 'k) \<Rightarrow> 'a hshtbl \<Rightarrow>
   ('k \<rightharpoonup> 'a) \<Rightarrow> bool" where
  "hsh_rep hf rf cf key m M \<longleftrightarrow> hsh_inv hf rf cf key m \<and> dupe m = Some \<and> hsh_map key m = M"

definition count_probes :: "'a hshtbl \<Rightarrow> nat \<Rightarrow> nat \<Rightarrow> 'a hshtbl" where
  "count_probes m p n = m\<lparr>probes := probes m + p, misses := misses m + n\<rparr>"

text \<open>The size the reorganised table will have; 0 when there is none.\<close>

definition regrow :: "'a hshtbl \<Rightarrow> nat" where
  "regrow m = (if hdeleted m > hentries m div 4 then currentsz m else next_size (currentsz m) (ithprime 0) 1)"

text \<open>The slots at which a probing loop stops, with or without comparisons.\<close>

definition stop_at :: "'a hshtbl \<Rightarrow> bool \<Rightarrow> 'a \<Rightarrow> nat \<Rightarrow> bool" where
  "stop_at m copying x h \<longleftrightarrow>
     (case htbl m ! h of Empty \<Rightarrow> True | Deleted \<Rightarrow> False | Item y \<Rightarrow> \<not> copying \<and> cmp m y x = 0)"

definition probe_of :: "'a hshtbl \<Rightarrow> 'a \<Rightarrow> nat \<Rightarrow> nat" where
  "probe_of m x k = probe (hash m) (rehash m) (currentsz m) x k"

subsection \<open>Double hashing reaches every slot\<close>

lemma probe_0: "probe hf rf sz x 0 = unat (hf x) mod sz"
  by (simp add: probe_def)

lemma probe_Suc:
  "probe hf rf sz x (Suc k) = (probe hf rf sz x k + (unat (rf x) mod (sz div 8) + 1)) mod sz"
  unfolding probe_def mod_add_left_eq by (simp only: mult_Suc ac_simps)

lemma table_size_bounds: "sz \<in> set table_sizes \<Longrightarrow> 17 \<le> sz \<and> sz < 2 ^ 27"
  unfolding table_sizes_eq by auto

lemma arith_progression_hits:
  assumes "is_prime p" "0 < d" "d < p" "i < p"
  shows "\<exists>k<p. (h + k * d) mod p = i"
proof -
  have co: "coprime d p" using is_prime_coprime [OF assms(1), of d] assms(2,3) nat_dvd_not_less by blast
  have "inj_on (\<lambda>k. (h + k * d) mod p) {..<p}"
  proof (rule linorder_inj_onI')
    fix a b assume ab: "a \<in> {..<p}" "b \<in> {..<p}" "a < b"
    show "(h + a * d) mod p \<noteq> (h + b * d) mod p"
    proof
      assume e: "(h + a * d) mod p = (h + b * d) mod p"
      have "h + a * d \<le> h + b * d" using ab(3) by simp
      then have "p dvd (h + b * d) - (h + a * d)" using mod_eq_dvd_iff_nat e by metis
      then have "p dvd (b - a) * d" by (simp add: diff_mult_distrib)
      then have "p dvd b - a" using co by (simp add: coprime_commute coprime_dvd_mult_left_iff)
      then show False using ab by (auto dest: dvd_imp_le)
    qed
  qed
  moreover have "(\<lambda>k. (h + k * d) mod p) ` {..<p} \<subseteq> {..<p}" using assms(4) by auto
  ultimately have "(\<lambda>k. (h + k * d) mod p) ` {..<p} = {..<p}" by (intro endo_inj_surj) auto
  then have "i \<in> (\<lambda>k. (h + k * d) mod p) ` {..<p}" using assms(4) by simp
  then show ?thesis by blast
qed

lemma probe_hits:
  assumes "sz \<in> set table_sizes" "i < sz"
  shows "\<exists>k < sz. probe hf rf sz x k = i"
proof -
  have b: "17 \<le> sz" using table_size_bounds assms(1) by blast
  have "unat (rf x) mod (sz div 8) < sz div 8" using b by (intro mod_less_divisor) simp
  then have "unat (rf x) mod (sz div 8) + 1 < sz" using b by linarith
  then show ?thesis unfolding probe_def
    by (intro arith_progression_hits table_sizes_prime assms) simp_all
qed

lemma probe_less: "sz \<in> set table_sizes \<Longrightarrow> probe hf rf sz x k < sz"
  using table_size_bounds [of sz] by (simp add: probe_def)

subsection \<open>Slots\<close>

lemma option_eqI: "(\<And>y. a = Some y \<longleftrightarrow> b = Some y) \<Longrightarrow> a = b"
  by (cases a; cases b) auto

lemma slot_count_upd:
  "i < length t \<Longrightarrow> slot_count P (t[i := v]) + (if P (t ! i) then 1 else 0) =
     slot_count P t + (if P v then 1 else 0)"
  unfolding slot_count_def
proof (induction t arbitrary: i)
  case Nil
  then show ?case by simp
next
  case (Cons s t)
  show ?case
  proof (cases i)
    case 0
    then show ?thesis by simp
  next
    case (Suc j)
    then show ?thesis using Cons.IH [of j] Cons.prems by (cases "P s") simp_all
  qed
qed

lemma slot_items_set: "x \<in> set (slot_items t) \<longleftrightarrow> (\<exists>i<length t. t ! i = Item x)"
proof -
  have "x \<in> set (slot_items t) \<longleftrightarrow> Item x \<in> set t"
    unfolding slot_items_def List.map_filter_def by (force split: slot.splits)
  then show ?thesis by (simp add: in_set_conv_nth)
qed

lemma slot_items_simps [simp]:
  "slot_items [] = []" "slot_items (Empty # t) = slot_items t"
  "slot_items (Deleted # t) = slot_items t" "slot_items (Item x # t) = x # slot_items t"
  by (simp_all add: slot_items_def List.map_filter_def)

lemma slot_items_length:
  "length (slot_items t) + slot_count (\<lambda>s. s = Deleted) t = slot_count (\<lambda>s. s \<noteq> Empty) t"
proof (induction t)
  case Nil
  then show ?case by (simp add: slot_count_def)
next
  case (Cons s t)
  then show ?case by (cases s) (simp_all add: slot_count_def)
qed

lemma free_slot:
  assumes "slot_count (\<lambda>s. s \<noteq> Empty) t < length t"
  shows "\<exists>i<length t. t ! i = Empty"
proof (rule ccontr)
  assume "\<not> ?thesis"
  then have "filter (\<lambda>s. s \<noteq> Empty) t = t" by (intro filter_True) (auto simp: in_set_conv_nth)
  then show False using assms by (simp add: slot_count_def)
qed

lemma slot_items_distinct:
  "(\<And>i j x y. i < length t \<Longrightarrow> j < length t \<Longrightarrow> t ! i = Item x \<Longrightarrow> t ! j = Item y \<Longrightarrow> key x = key y \<Longrightarrow> i = j)
   \<Longrightarrow> distinct (map key (slot_items t))"
proof (induction t)
  case Nil
  then show ?case by simp
next
  case (Cons s t)
  have IH: "distinct (map key (slot_items t))"
  proof (rule Cons.IH)
    fix i j x y
    assume "i < length t" "j < length t" "t ! i = Item x" "t ! j = Item y" "key x = key y"
    then show "i = j" using Cons.prems [of "Suc i" "Suc j" x y] by simp
  qed
  show ?case
  proof (cases s)
    case (Item x)
    have "key x \<noteq> key y" if "y \<in> set (slot_items t)" for y
      using that Cons.prems [of 0 "Suc j" x y for j] Item by (auto simp: slot_items_set)
    then show ?thesis using Item IH by (auto simp: image_iff)
  qed (use IH in simp_all)
qed

text \<open>A larger table leaves room even for a table filled to its threshold.\<close>

lemma ithprime_values:
  "ithprime 0 = 211" "ithprime 1 = 467" "ithprime 2 = 983" "ithprime 3 = 2003"
  "ithprime 4 = 4051" "ithprime 5 = 8147" "ithprime 6 = 16339" "ithprime 7 = 32719"
  "ithprime 8 = 65479" "ithprime 9 = 131023" "ithprime 10 = 262103" "ithprime 11 = 524243"
  "ithprime 12 = 1048517" "ithprime 13 = 2097097" "ithprime 14 = 4194247" "ithprime 15 = 8388547"
  "ithprime 16 = 16777153" "ithprime 17 = 33554371" "ithprime 18 = 67108819" "ithprime 19 = 134217649"
  "ithprime 20 = 0"
  by (simp_all add: ithprime_def primetbl_def FIRSTN_def)

lemma next_size_larger:
  "n \<in> set table_sizes \<Longrightarrow>
   next_size n (ithprime 0) 1 = 0 \<and> n = 134217649 \<or>
   next_size n (ithprime 0) 1 \<in> set table_sizes \<and> n < TTHRESH (next_size n (ithprime 0) 1)"
  unfolding table_sizes_eq
  by (simp del: One_nat_def, elim disjE)
    (simp_all add: next_size.simps ithprime_values TTHRESH_def del: One_nat_def)

lemma regrow_fits:
  assumes "currentsz m \<in> set table_sizes" "hentries m \<le> TTHRESH (currentsz m)"
    "hentries m = n + hdeleted m" "regrow m \<noteq> 0"
  shows "regrow m \<in> set table_sizes \<and> n < TTHRESH (regrow m)"
proof (cases "hdeleted m > hentries m div 4")
  case True
  then show ?thesis using assms by (simp add: regrow_def)
next
  case False
  then have "currentsz m < TTHRESH (regrow m)" "regrow m \<in> set table_sizes"
    using next_size_larger [OF assms(1)] assms(4) by (auto simp: regrow_def)
  then show ?thesis using assms(2,3) by (simp add: TTHRESH_def)
qed

lemma map_of_items:
  assumes "tbl_ok hf rf key t"
  shows "map_of (map (\<lambda>x. (key x, x)) (slot_items t)) k = Some x \<longleftrightarrow> key x = k \<and> (\<exists>i<length t. t ! i = Item x)"
proof -
  have u: "y = x" if "y \<in> set (slot_items t)" "x \<in> set (slot_items t)" "key y = key x" for x y
    using that assms unfolding tbl_ok_def slot_items_set by (metis slot.inject)
  show ?thesis
  proof
    assume "map_of (map (\<lambda>x. (key x, x)) (slot_items t)) k = Some x"
    then have "(k, x) \<in> set (map (\<lambda>x. (key x, x)) (slot_items t))" by (rule map_of_SomeD)
    then show "key x = k \<and> (\<exists>i<length t. t ! i = Item x)" unfolding slot_items_set [symmetric] by auto
  next
    assume a: "key x = k \<and> (\<exists>i<length t. t ! i = Item x)"
    then have xi: "x \<in> set (slot_items t)" unfolding slot_items_set by simp
    have "map_of (map (\<lambda>x. (key x, x)) (slot_items t)) k \<noteq> None"
      using xi a by (auto simp: map_of_eq_None_iff image_image)
    then obtain y where y: "map_of (map (\<lambda>x. (key x, x)) (slot_items t)) k = Some y" by blast
    then have "(k, y) \<in> set (map (\<lambda>x. (key x, x)) (slot_items t))" by (rule map_of_SomeD)
    then have "y \<in> set (slot_items t)" "key y = k" by auto
    then show "map_of (map (\<lambda>x. (key x, x)) (slot_items t)) k = Some x" using u xi a y by metis
  qed
qed

lemma hsh_map_Some:
  "tbl_ok hf rf key (htbl m) \<Longrightarrow>
   hsh_map key m k = Some x \<longleftrightarrow> key x = k \<and> (\<exists>i<length (htbl m). htbl m ! i = Item x)"
  unfolding hsh_map_def by (rule map_of_items)

lemma hsh_map_None:
  "tbl_ok hf rf key (htbl m) \<Longrightarrow>
   hsh_map key m k = None \<longleftrightarrow> (\<forall>i<length (htbl m). \<forall>x. htbl m ! i = Item x \<longrightarrow> key x \<noteq> k)"
  using hsh_map_Some [of hf rf key m k] by (metis not_None_eq)

subsection \<open>The probing loops\<close>

lemma count_probes_simps [simp]:
  "htbl (count_probes m p n) = htbl m" "currentsz (count_probes m p n) = currentsz m"
  "hash (count_probes m p n) = hash m" "rehash (count_probes m p n) = rehash m"
  "cmp (count_probes m p n) = cmp m" "dupe (count_probes m p n) = dupe m"
  "hentries (count_probes m p n) = hentries m" "hdeleted (count_probes m p n) = hdeleted m"
  "herror (count_probes m p n) = herror m"
  "count_probes (count_probes m p n) p' n' = count_probes m (p + p') (n + n')"
  by (simp_all add: count_probes_def)

lemma count_probes_0: "m = count_probes m 0 0"
  by (simp add: count_probes_def)

lemma stop_at_count [simp]: "stop_at (count_probes m p n) c x h = stop_at m c x h"
  by (simp add: stop_at_def split: slot.split)

lemma probe_of_count [simp]: "probe_of (count_probes m p n) x k = probe_of m x k"
  by (simp add: probe_of_def)

lemma hsh_map_count [simp]: "hsh_map key (count_probes m p n) = hsh_map key m"
  by (simp add: hsh_map_def)

lemma hsh_inv_count [simp]: "hsh_inv hf rf cf key (count_probes m p n) = hsh_inv hf rf cf key m"
  by (simp add: hsh_inv_def)

lemma found_eq:
  "found m h x = (stop_at m False x h \<and> htbl m ! h \<noteq> Empty, count_probes m 1 0)"
  by (simp add: found_def stop_at_def count_probes_def split: slot.split)

lemma probe_of_Suc:
  "(probe_of m x k + (unat (rehash m x) mod (currentsz m div 8) + 1)) mod currentsz m = probe_of m x (Suc k)"
  unfolding probe_of_def probe_Suc ..

lemma misses_count: "m\<lparr>misses := misses m + 1\<rparr> = count_probes m 0 1"
  by (simp add: count_probes_def)

lemma hunt_loop_stops:
  "\<lbrakk>\<And>k. k < n \<Longrightarrow> \<not> stop_at m False x (probe_of m x (Suc (j + k))); stop_at m False x (probe_of m x (Suc (j + n)))\<rbrakk>
   \<Longrightarrow> hunt_loop m (probe_of m x j) (unat (rehash m x) mod (currentsz m div 8) + 1) x =
       Some (probe_of m x (Suc (j + n)), count_probes m (Suc n) (Suc n))"
proof (induction n arbitrary: m j)
  case 0
  then show ?case
    unfolding hunt_loop.simps [of m] Let_def misses_count found_eq count_probes_simps probe_of_Suc
    by simp
next
  case (Suc n)
  have no: "\<not> stop_at m False x (probe_of m x (Suc j))" using Suc.prems(1) [of 0] by simp
  then have "htbl m ! probe_of m x (Suc j) \<noteq> Empty" by (auto simp: stop_at_def)
  then have "hunt_loop m (probe_of m x j) (unat (rehash m x) mod (currentsz m div 8) + 1) x =
     hunt_loop (count_probes m 1 1) (probe_of m x (Suc j)) (unat (rehash m x) mod (currentsz m div 8) + 1) x"
    unfolding hunt_loop.simps [of m] Let_def misses_count found_eq count_probes_simps probe_of_Suc
    using no by simp
  then show ?case using Suc.IH [of "count_probes m 1 1" "Suc j"] Suc.prems(1) [of "Suc k" for k] Suc.prems(2)
    by simp
qed

lemma huntup_stops:
  assumes "\<forall>k<n. \<not> stop_at m False x (probe_of m x k)" "stop_at m False x (probe_of m x n)"
  shows "huntup m x = Some (probe_of m x n, count_probes m (Suc n) n)"
proof (cases n)
  case 0
  then show ?thesis using assms(2) unfolding huntup_def Let_def found_eq
    by (simp add: probe_of_def probe_0)
next
  case (Suc n')
  have p0: "unat (hash m x) mod currentsz m = probe_of m x 0" by (simp add: probe_of_def probe_0)
  have no: "\<not> stop_at m False x (probe_of m x 0)" using assms(1) Suc by simp
  then have "htbl m ! probe_of m x 0 \<noteq> Empty" by (auto simp: stop_at_def)
  then show ?thesis unfolding huntup_def Let_def found_eq p0
    using no hunt_loop_stops [of n' "count_probes m 1 0" x 0] assms(1) assms(2) Suc
    by simp
qed

lemma inserted_passes:
  "\<not> stop_at m c x h \<Longrightarrow> inserted m h x c = (None, count_probes m 1 0)"
  by (auto simp: inserted_def Let_def stop_at_def count_probes_def split: slot.splits)

lemma inserted_stops:
  "stop_at m c x h \<Longrightarrow> herror m = hshOK \<Longrightarrow>
   \<not> (fst (inserted m h x c) = None \<and> herror (snd (inserted m h x c)) = hshOK)"
  by (auto simp: inserted_def Let_def stop_at_def hshOK_def hshNOMEM_def split: slot.splits option.splits)

lemma put_loop_stops:
  "\<lbrakk>\<And>k. k < n \<Longrightarrow> \<not> stop_at m c x (probe_of m x (Suc (j + k))); stop_at m c x (probe_of m x (Suc (j + n)));
    herror m = hshOK\<rbrakk>
   \<Longrightarrow> put_loop m (probe_of m x j) (unat (rehash m x) mod (currentsz m div 8) + 1) x c =
       Some (inserted (count_probes m n (Suc n)) (probe_of m x (Suc (j + n))) x c)"
proof (induction n arbitrary: m j)
  case 0
  have "\<not> (fst (inserted (count_probes m 0 1) (probe_of m x (Suc j)) x c) = None \<and>
      herror (snd (inserted (count_probes m 0 1) (probe_of m x (Suc j)) x c)) = hshOK)"
    using 0 by (intro inserted_stops) simp_all
  then show ?case
    unfolding put_loop.simps [of m] Let_def misses_count count_probes_simps probe_of_Suc
    by (auto simp: add_0_right)
next
  case (Suc n)
  have no: "\<not> stop_at (count_probes m 0 1) c x (probe_of m x (Suc j))" using Suc.prems(1) [of 0] by simp
  have "put_loop m (probe_of m x j) (unat (rehash m x) mod (currentsz m div 8) + 1) x c =
     put_loop (count_probes m 1 1) (probe_of m x (Suc j)) (unat (rehash m x) mod (currentsz m div 8) + 1) x c"
    unfolding put_loop.simps [of m] Let_def misses_count count_probes_simps probe_of_Suc
    using inserted_passes [OF no] Suc.prems(3) by simp
  then show ?case using Suc.IH [of "count_probes m 1 1" "Suc j"] Suc.prems(1) [of "Suc k" for k] Suc.prems(2,3)
    by simp
qed

lemma putintbl_stops:
  assumes "\<forall>k<n. \<not> stop_at m c x (probe_of m x k)" "stop_at m c x (probe_of m x n)" "herror m = hshOK"
  shows "putintbl m x c = Some (inserted (count_probes m n n) (probe_of m x n) x c)"
proof (cases n)
  case 0
  have "\<not> (fst (inserted m (probe_of m x 0) x c) = None \<and>
      herror (snd (inserted m (probe_of m x 0) x c)) = hshOK)"
    using assms 0 by (intro inserted_stops) simp_all
  then show ?thesis using 0 count_probes_0 [of m] unfolding putintbl_def Let_def
    by (auto simp: probe_of_def probe_0)
next
  case (Suc n')
  have p0: "unat (hash m x) mod currentsz m = probe_of m x 0" by (simp add: probe_of_def probe_0)
  have no: "\<not> stop_at m c x (probe_of m x 0)" using assms(1) Suc by simp
  then show ?thesis unfolding putintbl_def Let_def p0
    using inserted_passes [OF no] put_loop_stops [of n' "count_probes m 1 0" c x 0]
      assms(1) assms(2,3) Suc
    by simp
qed

subsection \<open>What a client promises, and what the table then does\<close>

locale hash_client =
  fixes hf rf :: "'a \<Rightarrow> 64 word" and cf :: "'a \<Rightarrow> 'a \<Rightarrow> int" and key :: "'a \<Rightarrow> 'k"
  assumes cmp_key: "cf x y = 0 \<longleftrightarrow> key x = key y"
    and hash_key: "key x = key y \<Longrightarrow> hf x = hf y"
    and rehash_key: "key x = key y \<Longrightarrow> rf x = rf y"
begin

lemma probe_key: "key x = key y \<Longrightarrow> probe hf rf sz x k = probe hf rf sz y k"
  unfolding probe_def using hash_key [of x y] rehash_key [of x y] by simp

lemma stop_exists:
  assumes "tbl_ok hf rf key (htbl m)" "currentsz m = length (htbl m)" "hash m = hf" "rehash m = rf"
    "slot_count (\<lambda>s. s \<noteq> Empty) (htbl m) < length (htbl m)"
  obtains n where "\<forall>k<n. \<not> stop_at m c x (probe_of m x k)" "stop_at m c x (probe_of m x n)"
proof -
  obtain i where i: "i < length (htbl m)" "htbl m ! i = Empty" using free_slot [OF assms(5)] by blast
  have "length (htbl m) \<in> set table_sizes" using assms(1) by (simp add: tbl_ok_def)
  then obtain k where "probe_of m x k = i"
    using probe_hits i(1) assms(2-4) unfolding probe_of_def by metis
  then have "stop_at m c x (probe_of m x k)" using i(2) by (simp add: stop_at_def)
  then have "stop_at m c x (probe_of m x (LEAST n. stop_at m c x (probe_of m x n)))" by (rule LeastI)
  moreover have "\<forall>k<(LEAST n. stop_at m c x (probe_of m x n)). \<not> stop_at m c x (probe_of m x k)"
    by (auto dest: not_less_Least)
  ultimately show ?thesis by (rule that [rotated])
qed

lemma inv_space:
  assumes "hsh_inv hf rf cf key m"
  shows "slot_count (\<lambda>s. s \<noteq> Empty) (htbl m) < length (htbl m)"
proof -
  have "17 \<le> length (htbl m)" using assms table_size_bounds by (auto simp: hsh_inv_def tbl_ok_def)
  then show ?thesis using assms by (auto simp: hsh_inv_def TTHRESH_def)
qed

text \<open>A probe that stops at an empty slot shows that the key is absent.\<close>

lemma empty_absent:
  assumes ok: "tbl_ok hf rf key t"
    and pre: "\<And>k y. k < n \<Longrightarrow> t ! probe hf rf (length t) x k = Item y \<Longrightarrow> key y \<noteq> key x"
    and e: "t ! probe hf rf (length t) x n = Empty"
    and i: "i < length t" "t ! i = Item y"
  shows "key y \<noteq> key x"
proof
  assume k: "key y = key x"
  obtain k' where k': "probe hf rf (length t) y k' = i" "\<And>j. j < k' \<Longrightarrow> t ! probe hf rf (length t) y j \<noteq> Empty"
    using ok i unfolding tbl_ok_def by blast
  note * = probe_key [OF k]
  consider "k' < n" | "k' = n" | "n < k'" by linarith
  then show False
  proof cases
    case 1
    then show ?thesis using pre [of k' y] k'(1) i(2) k by (simp add: *)
  next
    case 2
    then show ?thesis using e k'(1) i(2) by (simp add: *)
  next
    case 3
    then show ?thesis using e k'(2) by (simp add: *)
  qed
qed

lemma stop_cases:
  assumes inv: "hsh_inv hf rf cf key m"
    and n: "\<forall>k<n. \<not> stop_at m False x (probe_of m x k)" "stop_at m False x (probe_of m x n)"
  shows "probe_of m x n < length (htbl m) \<and>
     (htbl m ! probe_of m x n = Empty \<and> hsh_map key m (key x) = None \<or>
      (\<exists>y. htbl m ! probe_of m x n = Item y \<and> key y = key x \<and> hsh_map key m (key x) = Some y))"
proof -
  have f: "hash m = hf" "rehash m = rf" "cmp m = cf" "currentsz m = length (htbl m)"
    and ok: "tbl_ok hf rf key (htbl m)" using inv by (simp_all add: hsh_inv_def)
  have pr: "probe_of m x k = probe hf rf (length (htbl m)) x k" for k by (simp add: probe_of_def f)
  have lt: "probe_of m x n < length (htbl m)"
    unfolding pr by (rule probe_less) (use ok in \<open>simp add: tbl_ok_def\<close>)
  have pre: "key y \<noteq> key x" if "k < n" "htbl m ! probe hf rf (length (htbl m)) x k = Item y" for k y
    using spec [OF n(1), of k] that by (simp add: stop_at_def pr f cmp_key)
  show ?thesis
  proof (cases "htbl m ! probe_of m x n")
    case Empty
    then show ?thesis
      using lt empty_absent [OF ok pre, of n] hsh_map_None [OF ok] by (auto simp: pr)
  next
    case Deleted
    then show ?thesis using n(2) by (simp add: stop_at_def)
  next
    case (Item y)
    then have "key y = key x" using n(2) by (simp add: stop_at_def f cmp_key)
    then show ?thesis using Item lt hsh_map_Some [OF ok, of "key x" y] by blast
  qed
qed

text \<open>\<^verbatim>\<open>hshfind\<close> returns, and returns what the map holds.\<close>

theorem hshfind_map:
  assumes "hsh_inv hf rf cf key m"
  shows "\<exists>m'. hshfind m x = Some (case hsh_map key m (key x) of None \<Rightarrow> Empty | Some y \<Rightarrow> Item y, m') \<and>
    hsh_inv hf rf cf key m' \<and> hsh_map key m' = hsh_map key m \<and> dupe m' = dupe m"
proof -
  have f: "tbl_ok hf rf key (htbl m)" "currentsz m = length (htbl m)" "hash m = hf" "rehash m = rf"
    using assms by (simp_all add: hsh_inv_def)
  obtain n where n: "\<forall>k<n. \<not> stop_at m False x (probe_of m x k)" "stop_at m False x (probe_of m x n)"
    using stop_exists [OF f inv_space [OF assms]] by blast
  have "hshfind m x = Some (htbl m ! probe_of m x n, count_probes m (Suc n) n)"
    using huntup_stops [OF n] by (simp add: hshfind_def)
  then show ?thesis using stop_cases [OF assms n] assms by auto
qed

subsubsection \<open>Insertion and deletion\<close>

lemma tbl_ok_delete:
  assumes "tbl_ok hf rf key t" "i < length t"
  shows "tbl_ok hf rf key (t[i := Deleted])"
proof -
  have *: "t[i := Deleted] ! j = Item x \<longleftrightarrow> t ! j = Item x \<and> j \<noteq> i" if "j < length t" for j x
    using that assms(2) by (cases "j = i") simp_all
  have **: "t ! j \<noteq> Empty \<Longrightarrow> t[i := Deleted] ! j \<noteq> Empty" for j
    using assms(2) by (cases "i = j") simp_all
  show ?thesis
    using assms(1) unfolding tbl_ok_def length_list_update
    by (safe; simp add: *) (use ** in \<open>meson\<close>)+
qed

lemma tbl_ok_insert:
  assumes ok: "tbl_ok hf rf key t"
    and pre: "\<And>k. k < n \<Longrightarrow> t ! probe hf rf (length t) x k \<noteq> Empty"
    and e: "t ! probe hf rf (length t) x n = Empty"
    and new: "\<And>i y. i < length t \<Longrightarrow> t ! i = Item y \<Longrightarrow> key y \<noteq> key x"
  shows "tbl_ok hf rf key (t[probe hf rf (length t) x n := Item x])"
proof -
  let ?p = "probe hf rf (length t) x n"
  have sz: "length t \<in> set table_sizes" using ok by (simp add: tbl_ok_def)
  note p = probe_less [OF sz, of hf rf x n]
  have *: "t[?p := Item x] ! i = Item y \<longleftrightarrow> i = ?p \<and> y = x \<or> t ! i = Item y" if "i < length t" for i y
    using that e p by (cases "i = ?p") auto
  have **: "t ! i \<noteq> Empty \<Longrightarrow> t[?p := Item x] ! i \<noteq> Empty" for i
    using p by (cases "?p = i") simp_all
  have reach: "\<exists>k. probe hf rf (length t) y k = i \<and> (\<forall>j<k. t[?p := Item x] ! probe hf rf (length t) y j \<noteq> Empty)"
    if i: "i < length t" "t[?p := Item x] ! i = Item y" for i y
  proof (cases "i = ?p \<and> y = x")
    case True
    then show ?thesis using pre ** by blast
  next
    case False
    then have "t ! i = Item y" using i * by blast
    then obtain k where "probe hf rf (length t) y k = i" "\<forall>j<k. t ! probe hf rf (length t) y j \<noteq> Empty"
      using ok i(1) unfolding tbl_ok_def by blast
    then show ?thesis using ** by blast
  qed
  have uniq: "i = j" if ij: "i < length t" "j < length t" "t[?p := Item x] ! i = Item y"
      "t[?p := Item x] ! j = Item z" "key y = key z" for i j y z
  proof -
    have "i = ?p \<and> y = x \<or> t ! i = Item y" "j = ?p \<and> z = x \<or> t ! j = Item z" using ij * by blast+
    then show ?thesis using ok new [of i y] new [of j z] ij unfolding tbl_ok_def by metis
  qed
  show ?thesis unfolding tbl_ok_def length_list_update using sz reach uniq by blast
qed

lemma items_insert:
  assumes ok: "tbl_ok hf rf key t" "tbl_ok hf rf key (t[p := Item x])" and p: "p < length t" "t ! p = Empty"
  shows "map_of (map (\<lambda>x. (key x, x)) (slot_items (t[p := Item x]))) =
    (map_of (map (\<lambda>x. (key x, x)) (slot_items t)))(key x \<mapsto> x)"
proof (rule ext, rule option_eqI)
  fix k y
  let ?l = "map_of (map (\<lambda>x. (key x, x)) (slot_items (t[p := Item x])))"
  let ?m = "map_of (map (\<lambda>x. (key x, x)) (slot_items t))"
  have l: "?l k = Some y \<longleftrightarrow> key y = k \<and> (y = x \<or> (\<exists>i<length t. t ! i = Item y))" for y
  proof -
    have "(\<exists>i<length t. t[p := Item x] ! i = Item y) \<longleftrightarrow> y = x \<or> (\<exists>i<length t. t ! i = Item y)"
      using p by (metis nth_list_update nth_list_update_neq slot.distinct(3) slot.inject)
    then show ?thesis unfolding map_of_items [OF ok(2)] by simp
  qed
  show "?l k = Some y \<longleftrightarrow> (?m(key x \<mapsto> x)) k = Some y"
  proof (cases "k = key x")
    case True
    then show ?thesis using l [of x] by auto
  next
    case False
    then show ?thesis using l [of y] map_of_items [OF ok(1), of k y] by auto
  qed
qed

lemma items_delete:
  assumes ok: "tbl_ok hf rf key t" and p: "p < length t" "t ! p = Item x"
  shows "map_of (map (\<lambda>x. (key x, x)) (slot_items (t[p := Deleted]))) =
    (map_of (map (\<lambda>x. (key x, x)) (slot_items t)))(key x := None)"
proof (rule ext, rule option_eqI)
  fix k y
  let ?l = "map_of (map (\<lambda>x. (key x, x)) (slot_items (t[p := Deleted])))"
  let ?m = "map_of (map (\<lambda>x. (key x, x)) (slot_items t))"
  have "(\<exists>i<length t. t[p := Deleted] ! i = Item y) \<longleftrightarrow> (\<exists>i<length t. i \<noteq> p \<and> t ! i = Item y)"
    using p by (metis nth_list_update nth_list_update_neq slot.distinct(5))
  moreover have "(\<exists>i<length t. i \<noteq> p \<and> t ! i = Item y) \<longleftrightarrow> key y \<noteq> key x \<and> (\<exists>i<length t. t ! i = Item y)"
    using ok p unfolding tbl_ok_def by (metis slot.inject)
  ultimately show "?l k = Some y \<longleftrightarrow> (?m(key x := None)) k = Some y"
    using map_of_items [OF tbl_ok_delete [OF ok p(1)], of k y] map_of_items [OF ok, of k y] by auto
qed

text \<open>\<^verbatim>\<open>hshdelete\<close> returns the item and takes it out of the map.\<close>

theorem hshdelete_map:
  assumes inv: "hsh_inv hf rf cf key m"
  shows "\<exists>m'. hshdelete m x = Some (case hsh_map key m (key x) of None \<Rightarrow> Empty | Some y \<Rightarrow> Item y, m') \<and>
    hsh_inv hf rf cf key m' \<and> hsh_map key m' = (hsh_map key m)(key x := None) \<and> dupe m' = dupe m"
proof -
  have f: "tbl_ok hf rf key (htbl m)" "currentsz m = length (htbl m)" "hash m = hf" "rehash m = rf"
    using inv by (simp_all add: hsh_inv_def)
  obtain n where n: "\<forall>k<n. \<not> stop_at m False x (probe_of m x k)" "stop_at m False x (probe_of m x n)"
    using stop_exists [OF f inv_space [OF inv]] by blast
  let ?p = "probe_of m x n"
  note h = huntup_stops [OF n]
  from stop_cases [OF inv n] consider
    (absent) "htbl m ! ?p = Empty" "hsh_map key m (key x) = None"
  | (present) y where "?p < length (htbl m)" "htbl m ! ?p = Item y" "key y = key x" "hsh_map key m (key x) = Some y"
    by auto
  then show ?thesis
  proof cases
    case absent
    then show ?thesis using h inv by (auto simp: hshdelete_def fun_upd_idem)
  next
    case (present y)
    let ?m = "(count_probes m (Suc n) n)\<lparr>htbl := (htbl m)[?p := Deleted], hdeleted := hdeleted m + 1\<rparr>"
    have d: "hshdelete m x = Some (Item y, ?m)" using h present(2) by (simp add: hshdelete_def)
    have c: "slot_count (\<lambda>s. s \<noteq> Empty) ((htbl m)[?p := Deleted]) = slot_count (\<lambda>s. s \<noteq> Empty) (htbl m)"
      "slot_count (\<lambda>s. s = Deleted) ((htbl m)[?p := Deleted]) = slot_count (\<lambda>s. s = Deleted) (htbl m) + 1"
      using slot_count_upd [OF present(1), of "\<lambda>s. s \<noteq> Empty" Deleted]
        slot_count_upd [OF present(1), of "\<lambda>s. s = Deleted" Deleted] present(2) by simp_all
    have "hsh_inv hf rf cf key ?m"
      using inv tbl_ok_delete [OF f(1) present(1)] c by (auto simp: hsh_inv_def)
    moreover have "hsh_map key ?m = (hsh_map key m)(key x := None)"
      using items_delete [OF f(1) present(1,2)] present(3) by (simp add: hsh_map_def)
    ultimately show ?thesis using d present(4) by auto
  qed
qed

text \<open>Insertion into a table below its threshold.\<close>

lemma putintbl_map:
  assumes inv: "hsh_inv hf rf cf key m" and space: "0 < TSPACE m"
  shows "\<exists>r m'. putintbl m x False = Some (r, m') \<and> dupe m' = dupe m \<and>
    (case hsh_map key m (key x) of
       Some y \<Rightarrow> r = Some y \<and> hsh_inv hf rf cf key m' \<and> hsh_map key m' = hsh_map key m
     | None \<Rightarrow>
        (case dupe m x of
           Some _ \<Rightarrow> r = Some x \<and> hsh_inv hf rf cf key m' \<and> hsh_map key m' = (hsh_map key m)(key x \<mapsto> x)
         | None \<Rightarrow> r = None \<and> herror m' = hshNOMEM \<and> hsh_map key m' = hsh_map key m))"
proof -
  have f: "tbl_ok hf rf key (htbl m)" "currentsz m = length (htbl m)" "hash m = hf" "rehash m = rf"
    and g: "cmp m = cf" "herror m = hshOK" "\<And>x y. dupe m x = Some y \<Longrightarrow> y = x"
    using inv by (simp_all add: hsh_inv_def)
  obtain n where n: "\<forall>k<n. \<not> stop_at m False x (probe_of m x k)" "stop_at m False x (probe_of m x n)"
    using stop_exists [OF f inv_space [OF inv]] by blast
  let ?p = "probe_of m x n" and ?c = "count_probes m (Suc n) n"
  have p: "putintbl m x False = Some (inserted (count_probes m n n) ?p x False)"
    by (rule putintbl_stops [OF n g(2)])
  have cc: "(count_probes m n n)\<lparr>probes := probes (count_probes m n n) + 1\<rparr> = ?c"
    by (simp add: count_probes_def)
  from stop_cases [OF inv n] consider
    (absent) "?p < length (htbl m)" "htbl m ! ?p = Empty" "hsh_map key m (key x) = None"
  | (present) y where "htbl m ! ?p = Item y" "key y = key x" "hsh_map key m (key x) = Some y"
    by auto
  then show ?thesis
  proof cases
    case (present y)
    have "inserted (count_probes m n n) ?p x False = (Some y, ?c)"
      unfolding inserted_def Let_def cc using present(1,2) by (simp add: g(1) cmp_key)
    then show ?thesis using p present(3) inv by simp
  next
    case absent
    show ?thesis
    proof (cases "dupe m x")
      case None
      have "inserted (count_probes m n n) ?p x False = (None, ?c\<lparr>herror := hshNOMEM\<rparr>)"
        unfolding inserted_def Let_def cc using absent(2) None g(2) by (simp add: hshOK_def)
      then show ?thesis using p absent(3) None by (simp add: hsh_map_def)
    next
      case (Some y)
      let ?m = "?c\<lparr>htbl := (htbl m)[?p := Item x], hentries := hentries m + 1\<rparr>"
      have i: "inserted (count_probes m n n) ?p x False = (Some x, ?m)"
        unfolding inserted_def Let_def cc using absent(2) Some g(3) [of x y] by simp
      have pr: "probe_of m x k = probe hf rf (length (htbl m)) x k" for k by (simp add: probe_of_def f)
      have pre: "\<And>k. k < n \<Longrightarrow> htbl m ! probe hf rf (length (htbl m)) x k \<noteq> Empty"
        using n(1) by (auto simp: stop_at_def pr)
      have ok: "tbl_ok hf rf key ((htbl m)[?p := Item x])"
        unfolding pr using absent hsh_map_None [OF f(1), of "key x"]
        by (intro tbl_ok_insert f(1) pre) (auto simp: pr)
      have c: "slot_count (\<lambda>s. s \<noteq> Empty) ((htbl m)[?p := Item x]) = slot_count (\<lambda>s. s \<noteq> Empty) (htbl m) + 1"
        "slot_count (\<lambda>s. s = Deleted) ((htbl m)[?p := Item x]) = slot_count (\<lambda>s. s = Deleted) (htbl m)"
        using slot_count_upd [OF absent(1), of "\<lambda>s. s \<noteq> Empty" "Item x"]
          slot_count_upd [OF absent(1), of "\<lambda>s. s = Deleted" "Item x"] absent(2) by simp_all
      have "hsh_inv hf rf cf key ?m"
        using inv ok c space by (simp add: hsh_inv_def TSPACE_def)
      moreover have "hsh_map key ?m = (hsh_map key m)(key x \<mapsto> x)"
        using items_insert [OF f(1) ok absent(1,2)] by (simp add: hsh_map_def)
      ultimately show ?thesis using p i absent(3) Some by simp
    qed
  qed
qed

subsubsection \<open>Reorganisation\<close>

text \<open>A table being filled: in order, no deletion marks, and room for \<open>n\<close> more items.\<close>

lemma copy_one:
  assumes m: "tbl_ok hf rf key (htbl m)" "currentsz m = length (htbl m)" "hash m = hf" "rehash m = rf"
    "slot_count (\<lambda>s. s \<noteq> Empty) (htbl m) < length (htbl m)" "herror m = hshOK"
    and del: "slot_count (\<lambda>s. s = Deleted) (htbl m) = 0"
    and new: "\<forall>y \<in> set (slot_items (htbl m)). key y \<noteq> key x"
  shows "\<exists>p q i. putintbl m x True = Some (Some x, (count_probes m p q)\<lparr>htbl := (htbl m)[i := Item x]\<rparr>) \<and>
    tbl_ok hf rf key ((htbl m)[i := Item x]) \<and> slot_count (\<lambda>s. s = Deleted) ((htbl m)[i := Item x]) = 0 \<and>
    slot_count (\<lambda>s. s \<noteq> Empty) ((htbl m)[i := Item x]) = slot_count (\<lambda>s. s \<noteq> Empty) (htbl m) + 1 \<and>
    set (slot_items ((htbl m)[i := Item x])) = insert x (set (slot_items (htbl m)))"
proof -
  obtain n where n: "\<forall>k<n. \<not> stop_at m True x (probe_of m x k)" "stop_at m True x (probe_of m x n)"
    using stop_exists [OF m(1-5)] by blast
  let ?p = "probe_of m x n" and ?t = "(htbl m)[probe_of m x n := Item x]"
  have pr: "probe_of m x k = probe hf rf (length (htbl m)) x k" for k by (simp add: probe_of_def m)
  have e: "htbl m ! ?p = Empty" using n(2) by (simp add: stop_at_def split: slot.splits)
  have lt: "?p < length (htbl m)"
    unfolding pr by (rule probe_less) (use m(1) in \<open>simp add: tbl_ok_def\<close>)
  have put: "putintbl m x True = Some (Some x, (count_probes m (Suc n) n)\<lparr>htbl := ?t\<rparr>)"
    unfolding putintbl_stops [OF n m(6)] inserted_def Let_def using e by (simp add: count_probes_def)
  have pre: "htbl m ! probe hf rf (length (htbl m)) x k \<noteq> Empty" if "k < n" for k
    using spec [OF n(1), of k] that by (auto simp: stop_at_def pr)
  have ok: "tbl_ok hf rf key ?t"
    unfolding pr using e new by (intro tbl_ok_insert m(1) pre) (auto simp: pr slot_items_set)
  have "map_of (map (\<lambda>x. (key x, x)) (slot_items ?t)) =
      (map_of (map (\<lambda>x. (key x, x)) (slot_items (htbl m))))(key x \<mapsto> x)"
    by (rule items_insert [OF m(1) ok lt e])
  have "y \<in> set (slot_items ?t) \<longleftrightarrow> y = x \<or> y \<in> set (slot_items (htbl m))" for y
    unfolding slot_items_set using lt e
    by (metis length_list_update nth_list_update nth_list_update_neq slot.distinct(3) slot.inject)
  then have "set (slot_items ?t) = insert x (set (slot_items (htbl m)))" by blast
  moreover have "slot_count (\<lambda>s. s \<noteq> Empty) ?t = slot_count (\<lambda>s. s \<noteq> Empty) (htbl m) + 1"
    "slot_count (\<lambda>s. s = Deleted) ?t = 0"
    using slot_count_upd [OF lt, of "\<lambda>s. s \<noteq> Empty" "Item x"]
      slot_count_upd [OF lt, of "\<lambda>s. s = Deleted" "Item x"] e del by simp_all
  ultimately show ?thesis using put ok by blast
qed

lemma reinsert_all:
  "\<lbrakk>tbl_ok hf rf key (htbl m); currentsz m = length (htbl m); hash m = hf; rehash m = rf;
    slot_count (\<lambda>s. s \<noteq> Empty) (htbl m) + length (slot_items ss) < length (htbl m); herror m = hshOK;
    slot_count (\<lambda>s. s = Deleted) (htbl m) = 0; distinct (map key (slot_items ss));
    key ` set (slot_items (htbl m)) \<inter> key ` set (slot_items ss) = {}\<rbrakk>
   \<Longrightarrow> \<exists>p q t. reinsert ss n m = Some (n + length (slot_items ss), (count_probes m p q)\<lparr>htbl := t\<rparr>) \<and>
     tbl_ok hf rf key t \<and> length t = length (htbl m) \<and> slot_count (\<lambda>s. s = Deleted) t = 0 \<and>
     slot_count (\<lambda>s. s \<noteq> Empty) t = slot_count (\<lambda>s. s \<noteq> Empty) (htbl m) + length (slot_items ss) \<and>
     set (slot_items t) = set (slot_items (htbl m)) \<union> set (slot_items ss)"
proof (induction ss arbitrary: n m)
  case Nil
  have "m = (count_probes m 0 0)\<lparr>htbl := htbl m\<rparr>" by (simp add: count_probes_def)
  then show ?case using Nil.prems by (simp, metis)
next
  case (Cons s ss)
  show ?case
  proof (cases s)
    case (Item x)
    have new: "\<forall>y \<in> set (slot_items (htbl m)). key y \<noteq> key x"
    proof -
      have "key x \<notin> key ` set (slot_items (htbl m))" using Cons.prems(9) Item by simp
      then show ?thesis by (metis imageI)
    qed
    obtain p q i where pq:
      "putintbl m x True = Some (Some x, (count_probes m p q)\<lparr>htbl := (htbl m)[i := Item x]\<rparr>)"
      and t: "tbl_ok hf rf key ((htbl m)[i := Item x])"
        "slot_count (\<lambda>s. s = Deleted) ((htbl m)[i := Item x]) = 0"
        "slot_count (\<lambda>s. s \<noteq> Empty) ((htbl m)[i := Item x]) = slot_count (\<lambda>s. s \<noteq> Empty) (htbl m) + 1"
        "set (slot_items ((htbl m)[i := Item x])) = insert x (set (slot_items (htbl m)))"
      using copy_one [OF Cons.prems(1-4) _ Cons.prems(6,7) new] Cons.prems(5) by auto
    let ?m = "(count_probes m p q)\<lparr>htbl := (htbl m)[i := Item x]\<rparr>"
    have d: "distinct (map key (slot_items ss))"
      "key ` set (slot_items (htbl ?m)) \<inter> key ` set (slot_items ss) = {}"
      using Cons.prems(8,9) Item t(4) by auto
    obtain p' q' t' where r:
      "reinsert ss (n + 1) ?m = Some (n + 1 + length (slot_items ss), (count_probes ?m p' q')\<lparr>htbl := t'\<rparr>)"
      "tbl_ok hf rf key t'" "length t' = length (htbl m)" "slot_count (\<lambda>s. s = Deleted) t' = 0"
      "slot_count (\<lambda>s. s \<noteq> Empty) t' = slot_count (\<lambda>s. s \<noteq> Empty) (htbl m) + 1 + length (slot_items ss)"
      "set (slot_items t') = insert x (set (slot_items (htbl m))) \<union> set (slot_items ss)"
      using Cons.IH [of ?m "n + 1"] Cons.prems Item t d by auto
    have "(count_probes ?m p' q')\<lparr>htbl := t'\<rparr> = (count_probes m (p + p') (q + q'))\<lparr>htbl := t'\<rparr>"
      by (simp add: count_probes_def)
    then show ?thesis using Item pq r by (auto simp: add.assoc)
  qed (use Cons in simp_all)
qed

lemma reorganize_map:
  assumes inv: "hsh_inv hf rf cf key m" and size: "regrow m \<noteq> 0" "ok (regrow m)"
  shows "\<exists>m'. reorganize ok m = Some (True, m') \<and> hsh_inv hf rf cf key m' \<and> hsh_map key m' = hsh_map key m \<and>
    0 < TSPACE m' \<and> dupe m' = dupe m"
proof -
  have f: "tbl_ok hf rf key (htbl m)" "currentsz m = length (htbl m)" "hash m = hf" "rehash m = rf"
    and g: "herror m = hshOK" "hentries m \<le> TTHRESH (length (htbl m))"
    and h: "hentries m = length (slot_items (htbl m)) + hdeleted m"
    using inv slot_items_length [of "htbl m"] by (auto simp: hsh_inv_def)
  let ?n = "length (slot_items (htbl m))"
  have sz: "regrow m \<in> set table_sizes" "?n < TTHRESH (regrow m)"
    using regrow_fits [of m] f(1,2) g(2) h size(1) by (simp_all add: tbl_ok_def)
  let ?m = "m\<lparr>currentsz := regrow m, htbl := replicate (regrow m) Empty\<rparr>"
  have lt: "?n < regrow m" using sz(2) by (simp add: TTHRESH_def)
  have t0: "tbl_ok hf rf key (htbl ?m)" "slot_items (htbl ?m) = []"
    "slot_count (\<lambda>s. s \<noteq> Empty) (htbl ?m) = 0" "slot_count (\<lambda>s. s = Deleted) (htbl ?m) = 0"
    using sz(1) by (simp_all add: tbl_ok_def slot_items_def slot_count_def List.map_filter_def)
  have d: "distinct (map key (slot_items (htbl m)))"
    using f(1) unfolding tbl_ok_def by (intro slot_items_distinct) blast
  obtain p q t where r: "reinsert (htbl m) 0 ?m = Some (0 + ?n, (count_probes ?m p q)\<lparr>htbl := t\<rparr>)"
    and t: "tbl_ok hf rf key t" "length t = regrow m" "slot_count (\<lambda>s. s = Deleted) t = 0"
      "slot_count (\<lambda>s. s \<noteq> Empty) t = ?n" "set (slot_items t) = set (slot_items (htbl m))"
    using reinsert_all [of ?m "htbl m" 0] t0 lt d f(3,4) g(1) by auto
  let ?m' = "(count_probes ?m p q)\<lparr>htbl := t, hentries := ?n, hdeleted := 0\<rparr>"
  have "reorganize ok m = Some (True, ?m')"
    unfolding reorganize_def Let_def regrow_def [symmetric] using size r h by (simp add: maketbl_def)
  moreover have "hsh_inv hf rf cf key ?m'"
    using inv t sz(2) by (simp add: hsh_inv_def)
  moreover have "hsh_map key ?m' = hsh_map key m"
  proof (rule ext, rule option_eqI)
    fix k y
    show "hsh_map key ?m' k = Some y \<longleftrightarrow> hsh_map key m k = Some y"
      using hsh_map_Some [of hf rf key ?m' k y] hsh_map_Some [of hf rf key m k y] t(1,5) f(1)
      by (simp add: slot_items_set [symmetric])
  qed
  moreover have "0 < TSPACE ?m'" using sz(2) by (simp add: TSPACE_def)
  ultimately show ?thesis by auto
qed

lemma reorganize_fails: "regrow m = 0 \<or> \<not> ok (regrow m) \<Longrightarrow> reorganize ok m = Some (False, m)"
  unfolding reorganize_def Let_def regrow_def [symmetric] by (auto simp: maketbl_def)

text \<open>
  \<^verbatim>\<open>hshinsert\<close>: the item stored under the key if there is one, else the item itself, now in
  the map; an error only when memory is refused or the largest table is full.
\<close>

theorem hshinsert_map:
  assumes inv: "hsh_inv hf rf cf key m"
  shows "\<exists>r m'. hshinsert ok m x = Some (r, m') \<and> dupe m' = dupe m \<and>
    (if TSPACE m \<le> 0 \<and> (regrow m = 0 \<or> \<not> ok (regrow m))
     then r = None \<and> herror m' = hshTBLFULL \<and> hsh_map key m' = hsh_map key m
     else case hsh_map key m (key x) of
       Some y \<Rightarrow> r = Some y \<and> hsh_inv hf rf cf key m' \<and> hsh_map key m' = hsh_map key m
     | None \<Rightarrow>
        (case dupe m x of
           Some _ \<Rightarrow> r = Some x \<and> hsh_inv hf rf cf key m' \<and> hsh_map key m' = (hsh_map key m)(key x \<mapsto> x)
         | None \<Rightarrow> r = None \<and> herror m' = hshNOMEM \<and> hsh_map key m' = hsh_map key m))"
proof (cases "TSPACE m \<le> 0")
  case False
  then show ?thesis using putintbl_map [OF inv, of x] by (simp add: hshinsert_def)
next
  case full: True
  show ?thesis
  proof (cases "regrow m = 0 \<or> \<not> ok (regrow m)")
    case True
    have "herror m = 0" using inv by (simp add: hsh_inv_def hshOK_def)
    then show ?thesis using full True reorganize_fails [of m ok]
      by (simp add: hshinsert_def hsh_map_def)
  next
    case False
    then obtain m' where m': "reorganize ok m = Some (True, m')" "hsh_inv hf rf cf key m'"
      "hsh_map key m' = hsh_map key m" "0 < TSPACE m'" "dupe m' = dupe m"
      using reorganize_map [OF inv, of ok] by blast
    obtain r m'' where p: "putintbl m' x False = Some (r, m'')"
      "dupe m'' = dupe m \<and> (case hsh_map key m (key x) of
         Some y \<Rightarrow> r = Some y \<and> hsh_inv hf rf cf key m'' \<and> hsh_map key m'' = hsh_map key m
       | None \<Rightarrow>
          (case dupe m x of
             Some _ \<Rightarrow> r = Some x \<and> hsh_inv hf rf cf key m'' \<and> hsh_map key m'' = (hsh_map key m)(key x \<mapsto> x)
           | None \<Rightarrow> r = None \<and> herror m'' = hshNOMEM \<and> hsh_map key m'' = hsh_map key m))"
      using putintbl_map [OF m'(2,4), of x, unfolded m'(3,5)] by blast
    then have "hshinsert ok m x = Some (r, m'')"
      using full m'(1) by (simp add: hshinsert_def)
    then show ?thesis using False p(2) by (intro exI [of _ r] exI [of _ m'']) simp
  qed
qed

lemma hshinit_map:
  assumes "ok INITSZ" "\<And>x y. df x = Some y \<Longrightarrow> y = x"
  shows "\<exists>m. hshinit ok hf rf cf df = Some m \<and> hsh_inv hf rf cf key m \<and> hsh_map key m = Map.empty \<and> dupe m = df"
proof -
  have "INITSZ \<in> set table_sizes" by (simp add: table_sizes_def)
  then show ?thesis using assms
    by (auto simp: hshinit_def maketbl_def hsh_inv_def tbl_ok_def slot_count_def hsh_map_def
        slot_items_def List.map_filter_def)
qed

text \<open>
  The interface clients use: \<open>m\<close> stands for the map \<open>M\<close> and its \<open>dupe\<close> copies items.
\<close>

lemma rep_init:
  assumes "ok INITSZ"
  shows "\<exists>m. hshinit ok hf rf cf Some = Some m \<and> hsh_rep hf rf cf key m Map.empty"
  using hshinit_map [of ok Some] assms by (auto simp: hsh_rep_def)

lemma rep_find:
  assumes "hsh_rep hf rf cf key m M"
  shows "\<exists>m'. hshfind m x = Some (case M (key x) of None \<Rightarrow> Empty | Some y \<Rightarrow> Item y, m') \<and>
    hsh_rep hf rf cf key m' M"
  using assms hshfind_map [of m x] by (auto simp: hsh_rep_def)

lemma rep_delete:
  assumes "hsh_rep hf rf cf key m M"
  shows "\<exists>m'. hshdelete m x = Some (case M (key x) of None \<Rightarrow> Empty | Some y \<Rightarrow> Item y, m') \<and>
    hsh_rep hf rf cf key m' (M(key x := None))"
  using assms hshdelete_map [of m x] by (auto simp: hsh_rep_def)

lemma live_items: "tbl_ok hf rf key (htbl m) \<Longrightarrow> card (dom (hsh_map key m)) = length (slot_items (htbl m))"
proof -
  assume "tbl_ok hf rf key (htbl m)"
  then have "distinct (map key (slot_items (htbl m)))"
    unfolding tbl_ok_def by (intro slot_items_distinct) blast
  then have "card (set (map key (slot_items (htbl m)))) = length (slot_items (htbl m))"
    by (simp only: distinct_card length_map)
  then show ?thesis by (simp add: hsh_map_def dom_map_of_conv_image_fst image_image)
qed

lemma rep_room:
  assumes "hsh_rep hf rf cf key m M" "card (dom M) \<le> HSH_CAPACITY" "TSPACE m \<le> 0"
  shows "regrow m \<noteq> 0 \<and> regrow m \<in> set table_sizes"
proof -
  have inv: "currentsz m \<in> set table_sizes" "hentries m \<le> TTHRESH (currentsz m)"
    and h: "hentries m = length (slot_items (htbl m)) + hdeleted m" "length (slot_items (htbl m)) \<le> HSH_CAPACITY"
    using assms(1,2) slot_items_length [of "htbl m"] live_items [of m]
    by (auto simp: hsh_rep_def hsh_inv_def tbl_ok_def)
  have "hentries m = TTHRESH (currentsz m)" using inv(2) assms(3) by (simp add: TSPACE_def)
  then have "hdeleted m > hentries m div 4" if "currentsz m = 134217649"
    using h that by (simp add: HSH_CAPACITY_def TTHRESH_def)
  then have "regrow m \<noteq> 0"
    using next_size_larger [OF inv(1)] inv(1) table_size_bounds [of "currentsz m"]
    by (auto simp: regrow_def TTHRESH_def)
  then show ?thesis using regrow_fits [OF inv h(1)] by simp
qed

lemma rep_insert:
  assumes rep: "hsh_rep hf rf cf key m M" and ok: "\<forall>k \<in> set table_sizes. ok k"
    and n: "card (dom M) \<le> HSH_CAPACITY"
  shows "\<exists>m'. hshinsert ok m x = Some (Some (case M (key x) of None \<Rightarrow> x | Some y \<Rightarrow> y), m') \<and>
    hsh_rep hf rf cf key m' (case M (key x) of None \<Rightarrow> M(key x \<mapsto> x) | Some y \<Rightarrow> M)"
proof -
  have r: "hsh_inv hf rf cf key m" "dupe m = Some" "hsh_map key m = M"
    using rep by (simp_all add: hsh_rep_def)
  have "\<not> (TSPACE m \<le> 0 \<and> (regrow m = 0 \<or> \<not> ok (regrow m)))"
    using rep_room [OF rep n] ok by blast
  then show ?thesis using hshinsert_map [OF r(1), of ok x, unfolded r(2,3)]
    by (cases "M (key x)") (auto simp: hsh_rep_def)
qed

lemma rep_finite: "hsh_rep hf rf cf key m M \<Longrightarrow> finite (dom M)"
  by (auto simp: hsh_rep_def hsh_map_def finite_dom_map_of)

end

end
