(* ===== verification/Hash_Map.thy ===== *)
theory Hash_Map
  imports Hash_Lib
begin

section \<open>The lookup tables of FG-MPI (\<^verbatim>\<open>fgutil/src/hash/hashmap.c\<close>)\<close>

text \<open>
  The five clients of hashlib: local rank to world rank (RTW), blocked threads by world rank (the
  scheduler's queue), shared variables by context id and leader, shared variables by context id,
  and the nested-communicator tables by parent rank; and the array form of the RTW map that
  \<^verbatim>\<open>fgmpiimpl.h\<close> selects by default.  Each client is an interpretation of \<open>hash_client\<close>.
  A C \<^verbatim>\<open>int\<close> is an \<open>int\<close>; converting it to \<^verbatim>\<open>unsigned long\<close> is \<open>word_of_int\<close>, and \<open>>> 3\<close>
  on it is the arithmetic shift \<open>div 8\<close>.  A client's \<^verbatim>\<open>dupe\<close> copies the item and ends the process
  when \<^verbatim>\<open>malloc\<close> fails, so it never returns NULL: it is \<open>Some\<close>.  Where the code passes a probe
  item with uninitialised fields, the model has 0 there; no result depends on them.
\<close>

subsection \<open>What a lookup hands back\<close>

text \<open>
  The pointer read from a slot.  \<open>Deleted\<close> would be a pointer to the table itself; reading an item
  through it is undefined.  The probing loops never stop there.
\<close>

definition stored_item :: "'a slot \<Rightarrow> 'a option outcome" where
  "stored_item s = (case s of Empty \<Rightarrow> Inr None | Item x \<Rightarrow> Inr (Some x)
     | Deleted \<Rightarrow> Inl (Undefined ''item read through DELETED''))"

definition find_stored :: "'a hshtbl \<Rightarrow> 'a \<Rightarrow> ('a option \<times> 'a hshtbl) outcome" where
  "find_stored h x = bind_outcome (returned (hshfind h x)) (\<lambda>(s, h').
     bind_outcome (stored_item s) (\<lambda>r. Inr (r, h')))"

definition delete_stored :: "'a hshtbl \<Rightarrow> 'a \<Rightarrow> ('a option \<times> 'a hshtbl) outcome" where
  "delete_stored h x = bind_outcome (returned (hshdelete h x)) (\<lambda>(s, h').
     bind_outcome (stored_item s) (\<lambda>r. Inr (r, h')))"

subsection \<open>RTW hash map\<close>

record ranktoworlditem =
  fgrank :: int
  worldrank :: int

definition ranktoworldhash :: "ranktoworlditem \<Rightarrow> 64 word" where
  "ranktoworldhash x = word_of_int (fgrank x)"

definition ranktoworldrehash :: "ranktoworlditem \<Rightarrow> 64 word" where
  "ranktoworldrehash x = word_of_int (fgrank x div 8)"

definition ranktoworldcmp :: "ranktoworlditem \<Rightarrow> ranktoworlditem \<Rightarrow> int" where
  "ranktoworldcmp l r =
     (if fgrank l = fgrank r then 0 else if fgrank l > fgrank r then 1 else -1)"

definition ranktoworlddupe :: "ranktoworlditem \<Rightarrow> ranktoworlditem option" where
  "ranktoworlddupe = Some"

definition RTWhashCreate :: "(nat \<Rightarrow> bool) \<Rightarrow> int \<Rightarrow> ranktoworlditem hshtbl option" where
  "RTWhashCreate ok mapsize =
     hshinit ok ranktoworldhash ranktoworldrehash ranktoworldcmp ranktoworlddupe"

definition RTWhashFind ::
  "ranktoworlditem hshtbl \<Rightarrow> int \<Rightarrow> (int \<times> ranktoworlditem hshtbl) outcome" where
  "RTWhashFind h key =
     bind_outcome (find_stored h \<lparr>fgrank = key, worldrank = 0\<rparr>) (\<lambda>(stored, h').
     case stored of
       None \<Rightarrow> Inl (Exit_called ''find_item.fgrank not found in hashtable'')
     | Some x \<Rightarrow>
         bind_outcome (check (worldrank x \<ge> 0) ''(*worldrank_ptr)>=0'') (\<lambda>_. Inr (worldrank x, h')))"

definition RTWhashInsert ::
  "(nat \<Rightarrow> bool) \<Rightarrow> ranktoworlditem hshtbl \<Rightarrow> int \<Rightarrow> int \<Rightarrow> ranktoworlditem hshtbl outcome" where
  "RTWhashInsert ok h key wr =
     bind_outcome (returned (hshinsert ok h \<lparr>fgrank = key, worldrank = wr\<rparr>)) (\<lambda>(r, h').
     case r of None \<Rightarrow> Inl (Exit_called ''Store failure in rtw_hshtbl'') | Some _ \<Rightarrow> Inr h')"

fun block_insert_from ::
  "(nat \<Rightarrow> bool) \<Rightarrow> ranktoworlditem hshtbl \<Rightarrow> int \<Rightarrow> int list \<Rightarrow> ranktoworlditem hshtbl outcome" where
  "block_insert_from ok h i [] = Inr h"
| "block_insert_from ok h i (w # ws) =
     bind_outcome (RTWhashInsert ok h i w) (\<lambda>h'. block_insert_from ok h' (i + 1) ws)"

definition RTWhashBlockInsert ::
  "(nat \<Rightarrow> bool) \<Rightarrow> ranktoworlditem hshtbl \<Rightarrow> nat \<Rightarrow> int list \<Rightarrow> ranktoworlditem hshtbl outcome" where
  "RTWhashBlockInsert ok h n blockarray =
     (if n \<le> length blockarray then block_insert_from ok h 0 (take n blockarray)
      else Inl (Undefined ''blockarray[i]''))"

fun duplicate_from ::
  "(nat \<Rightarrow> bool) \<Rightarrow> ranktoworlditem hshtbl \<Rightarrow> ranktoworlditem hshtbl \<Rightarrow> int list \<Rightarrow>
   (ranktoworlditem hshtbl \<times> ranktoworlditem hshtbl) outcome" where
  "duplicate_from ok orig dup [] = Inr (orig, dup)"
| "duplicate_from ok orig dup (i # is) =
     bind_outcome (find_stored orig \<lparr>fgrank = i, worldrank = 0\<rparr>) (\<lambda>(stored, orig').
     case stored of
       None \<Rightarrow> Inl (Exit_called ''find_item.fgrank not found in hashtable'')
     | Some x \<Rightarrow>
         bind_outcome (returned (hshinsert ok dup x)) (\<lambda>(r, dup').
         case r of
           None \<Rightarrow> Inl (Exit_called ''Store failure in duphshtbl'')
         | Some _ \<Rightarrow> duplicate_from ok orig' dup' is))"

definition RTWhashDuplicate ::
  "(nat \<Rightarrow> bool) \<Rightarrow> ranktoworlditem hshtbl \<Rightarrow> nat \<Rightarrow>
   (ranktoworlditem hshtbl \<times> ranktoworlditem hshtbl option) outcome" where
  "RTWhashDuplicate ok orig numentries_hsh =
     (case RTWhashCreate ok (int numentries_hsh) of
        None \<Rightarrow> if numentries_hsh = 0 then Inr (orig, None) else Inl (Undefined ''hshinsert on NULL'')
      | Some dup \<Rightarrow>
          bind_outcome (duplicate_from ok orig dup (map int [0..<numentries_hsh]))
            (\<lambda>(orig', dup'). Inr (orig', Some dup')))"

text \<open>One round of the search for the smallest world rank.\<close>

definition leader_step :: "int \<Rightarrow> int \<Rightarrow> int" where
  "leader_step leaderWorldRank stored_worldrank =
     (if leaderWorldRank = -1 \<or> leaderWorldRank > stored_worldrank then stored_worldrank else leaderWorldRank)"

fun leader_from ::
  "ranktoworlditem hshtbl \<Rightarrow> int \<Rightarrow> int list \<Rightarrow> (int \<times> ranktoworlditem hshtbl) outcome" where
  "leader_from h l [] = Inr (l, h)"
| "leader_from h l (i # is) =
     bind_outcome (find_stored h \<lparr>fgrank = i, worldrank = 0\<rparr>) (\<lambda>(stored, h').
     case stored of
       None \<Rightarrow> Inl (Exit_called ''find_item.fgrank not found in hashtable'')
     | Some x \<Rightarrow> leader_from h' (leader_step l (worldrank x)) is)"

definition RTWhashFindLeader ::
  "ranktoworlditem hshtbl \<Rightarrow> nat \<Rightarrow> (int \<times> ranktoworlditem hshtbl) outcome" where
  "RTWhashFindLeader h numentries_hsh =
     bind_outcome (leader_from h (-1) (map int [0..<numentries_hsh])) (\<lambda>(l, h').
     bind_outcome (check (l \<ge> 0) ''leaderWorldRank >= 0'') (\<lambda>_. Inr (l, h')))"

subsection \<open>RTW array map\<close>

text \<open>\<open>junk\<close> is what \<^verbatim>\<open>malloc\<close> leaves in the array.\<close>

definition RTWarrayWorldCreate :: "int \<Rightarrow> int list" where
  "RTWarrayWorldCreate mapsize = [-2]"

definition RTWarrayCreate :: "(nat \<Rightarrow> int) \<Rightarrow> nat \<Rightarrow> int list" where
  "RTWarrayCreate junk mapsize = map junk [0..<mapsize] @ [-2]"

definition RTWarrayFind :: "int list \<Rightarrow> nat \<Rightarrow> int outcome" where
  "RTWarrayFind a key =
     (if key < length a
      then bind_outcome (check (a ! key \<ge> 0) ''(*worldrank_ptr)>=0'') (\<lambda>_. Inr (a ! key))
      else Inl (Undefined ''rtw_arraymap[key]''))"

definition RTWarrayInsert :: "int list \<Rightarrow> nat \<Rightarrow> int \<Rightarrow> int list outcome" where
  "RTWarrayInsert a key wr =
     (if key < length a then Inr (a[key := wr]) else Inl (Undefined ''rtw_arraymap[key]''))"

definition RTWarrayBlockInsert :: "int list \<Rightarrow> nat \<Rightarrow> int list \<Rightarrow> int list outcome" where
  "RTWarrayBlockInsert a n blockarray =
     (if n \<le> length a \<and> n \<le> length blockarray then Inr (take n blockarray @ drop n a)
      else Inl (Undefined ''memcpy''))"

definition RTWarrayFindLeader :: "int list \<Rightarrow> nat \<Rightarrow> int outcome" where
  "RTWarrayFindLeader a numentries_map =
     (if numentries_map \<le> length a then
        (let l = foldl leader_step (-1) (take numentries_map a) in
         bind_outcome (check (l \<ge> 0) ''leaderWorldRank >= 0'') (\<lambda>_. Inr l))
      else Inl (Undefined ''rtw_arraymap[i]''))"

subsection \<open>Scheduler queue hash table\<close>

datatype MPI_event_kind_t = INIT | SEND | RECV

datatype Scheduler_action_kind_t = NONE | BLOCK | UNBLOCK

record schedQueue_item =
  sq_worldrank :: int
  mpi_state_on_event :: MPI_event_kind_t
  action_on_event :: Scheduler_action_kind_t
  sched_unit :: addr

definition SchedulerQueueItem_hash :: "schedQueue_item \<Rightarrow> 64 word" where
  "SchedulerQueueItem_hash x = word_of_int (sq_worldrank x)"

definition SchedulerQueueItem_rehash :: "schedQueue_item \<Rightarrow> 64 word" where
  "SchedulerQueueItem_rehash x = word_of_int (sq_worldrank x div 8)"

definition SchedulerQueueItem_cmp :: "schedQueue_item \<Rightarrow> schedQueue_item \<Rightarrow> int" where
  "SchedulerQueueItem_cmp l r =
     (if sq_worldrank l = sq_worldrank r then 0 else if sq_worldrank l > sq_worldrank r then 1 else -1)"

definition SchedulerQueueItem_dupe :: "schedQueue_item \<Rightarrow> schedQueue_item option" where
  "SchedulerQueueItem_dupe = Some"

definition SchedulerHashCreate :: "(nat \<Rightarrow> bool) \<Rightarrow> schedQueue_item hshtbl option" where
  "SchedulerHashCreate ok =
     hshinit ok SchedulerQueueItem_hash SchedulerQueueItem_rehash SchedulerQueueItem_cmp SchedulerQueueItem_dupe"

definition SchedulerHashFind ::
  "schedQueue_item hshtbl \<Rightarrow> int \<Rightarrow> (int \<times> schedQueue_item option \<times> schedQueue_item hshtbl) outcome" where
  "SchedulerHashFind h key =
     bind_outcome
       (find_stored h \<lparr>sq_worldrank = key, mpi_state_on_event = INIT, action_on_event = NONE, sched_unit = 0\<rparr>)
       (\<lambda>(stored, h'). if stored \<noteq> None then Inr (1, stored, h') else Inr (0, None, h'))"

definition SchedulerHashInsert ::
  "(nat \<Rightarrow> bool) \<Rightarrow> schedQueue_item hshtbl \<Rightarrow> int \<Rightarrow> MPI_event_kind_t \<Rightarrow> Scheduler_action_kind_t \<Rightarrow> addr \<Rightarrow>
   schedQueue_item hshtbl outcome" where
  "SchedulerHashInsert ok h key mpi_state action unit =
     bind_outcome
       (returned (hshinsert ok h \<lparr>sq_worldrank = key, mpi_state_on_event = mpi_state,
          action_on_event = action, sched_unit = unit\<rparr>))
       (\<lambda>(stored, h'). case stored of
          None \<Rightarrow> Inl (Exit_called ''Store failure in sched_hshtbl'')
        | Some _ \<Rightarrow> Inr h')"

definition SchedulerHashDelete ::
  "schedQueue_item hshtbl \<Rightarrow> schedQueue_item \<Rightarrow> (schedQueue_item option \<times> schedQueue_item hshtbl) outcome" where
  "SchedulerHashDelete h stored = delete_stored h stored"

definition SchedulerHashRemove ::
  "schedQueue_item hshtbl \<Rightarrow> int \<Rightarrow> (schedQueue_item option \<times> schedQueue_item hshtbl) outcome" where
  "SchedulerHashRemove h key =
     bind_outcome (SchedulerHashFind h key) (\<lambda>(found, stored, h').
     if found \<noteq> 0 then
       (case stored of
          None \<Rightarrow> Inl (Assert_failed ''*stored'')
        | Some x \<Rightarrow>
            bind_outcome (SchedulerHashDelete h' x) (\<lambda>(removed, h'').
            case removed of None \<Rightarrow> Inl (Assert_failed ''0'') | Some y \<Rightarrow> Inr (Some y, h'')))
     else Inr (None, h'))"

subsection \<open>Context id and leader hash table\<close>

record cLitem =
  context_id :: int
  LeaderWorldRank :: int
  coproclet_shared_vars :: addr

definition contextidLeaderhash :: "cLitem \<Rightarrow> 64 word" where
  "contextidLeaderhash x = word_of_int (context_id x + LeaderWorldRank x)"

definition contextidLeaderrehash :: "cLitem \<Rightarrow> 64 word" where
  "contextidLeaderrehash x = word_of_int ((context_id x + LeaderWorldRank x) div 8)"

definition contextidLeadercmp :: "cLitem \<Rightarrow> cLitem \<Rightarrow> int" where
  "contextidLeadercmp l r =
     (if context_id l = context_id r \<and> LeaderWorldRank l = LeaderWorldRank r then 0
      else if context_id l > context_id r then 1 else -1)"

definition contextidLeaderdupe :: "cLitem \<Rightarrow> cLitem option" where
  "contextidLeaderdupe = Some"

definition CL_LookupHashCreate :: "(nat \<Rightarrow> bool) \<Rightarrow> cLitem hshtbl option" where
  "CL_LookupHashCreate ok =
     hshinit ok contextidLeaderhash contextidLeaderrehash contextidLeadercmp contextidLeaderdupe"

definition CL_LookupHashFind :: "cLitem hshtbl \<Rightarrow> int \<Rightarrow> int \<Rightarrow> (cLitem option \<times> cLitem hshtbl) outcome" where
  "CL_LookupHashFind h cid leader =
     find_stored h \<lparr>context_id = cid, LeaderWorldRank = leader, coproclet_shared_vars = 0\<rparr>"

definition CL_LookupHashInsert ::
  "(nat \<Rightarrow> bool) \<Rightarrow> cLitem hshtbl \<Rightarrow> int \<Rightarrow> int \<Rightarrow> addr \<Rightarrow> (cLitem option \<times> cLitem hshtbl) outcome" where
  "CL_LookupHashInsert ok h cid leader co_shared_vars =
     returned (hshinsert ok h
       \<lparr>context_id = cid, LeaderWorldRank = leader, coproclet_shared_vars = co_shared_vars\<rparr>)"

definition CL_DeleteHashEntry :: "cLitem hshtbl \<Rightarrow> cLitem \<Rightarrow> cLitem hshtbl outcome" where
  "CL_DeleteHashEntry h stored =
     bind_outcome (delete_stored h stored) (\<lambda>(removed, h').
     bind_outcome (check (removed \<noteq> None) ''removed != NULL'') (\<lambda>_. Inr h'))"

subsection \<open>Context id lookup hash table\<close>

record cidLookupHashItem =
  cid_context_id :: int
  cid_coproclet_shared_vars :: addr

definition cidLookupHash :: "cidLookupHashItem \<Rightarrow> 64 word" where
  "cidLookupHash x = word_of_int (cid_context_id x)"

definition cidLookupRehash :: "cidLookupHashItem \<Rightarrow> 64 word" where
  "cidLookupRehash x = word_of_int (cid_context_id x div 8)"

definition cidLookupCmp :: "cidLookupHashItem \<Rightarrow> cidLookupHashItem \<Rightarrow> int" where
  "cidLookupCmp l r =
     (if cid_context_id l = cid_context_id r then 0 else if cid_context_id l > cid_context_id r then 1 else -1)"

definition cidLookupDupe :: "cidLookupHashItem \<Rightarrow> cidLookupHashItem option" where
  "cidLookupDupe = Some"

definition CidLookupHashCreate :: "(nat \<Rightarrow> bool) \<Rightarrow> cidLookupHashItem hshtbl option" where
  "CidLookupHashCreate ok = hshinit ok cidLookupHash cidLookupRehash cidLookupCmp cidLookupDupe"

definition CidLookupHashFind ::
  "cidLookupHashItem hshtbl \<Rightarrow> int \<Rightarrow> (cidLookupHashItem option \<times> cidLookupHashItem hshtbl) outcome" where
  "CidLookupHashFind h cid = find_stored h \<lparr>cid_context_id = cid, cid_coproclet_shared_vars = 0\<rparr>"

definition CidLookupHashInsert ::
  "(nat \<Rightarrow> bool) \<Rightarrow> cidLookupHashItem hshtbl \<Rightarrow> int \<Rightarrow> addr \<Rightarrow>
   (cidLookupHashItem option \<times> cidLookupHashItem hshtbl) outcome" where
  "CidLookupHashInsert ok h cid co_shared_vars =
     returned (hshinsert ok h \<lparr>cid_context_id = cid, cid_coproclet_shared_vars = co_shared_vars\<rparr>)"

subsection \<open>Nested-communicator lookup hash table\<close>

record Parent_to_Nested_comm_tables_t =
  internode_comm_root :: int
  internode_comm_external_rank :: int
  intranode_comm_root :: int
  intranode_comm_local_rank :: int
  intra_osproc_fg_rank :: int

record ptnLookupHashItem =
  parent_comm_rank :: int
  parent_to_nested :: Parent_to_Nested_comm_tables_t

definition ptnLookupHash :: "ptnLookupHashItem \<Rightarrow> 64 word" where
  "ptnLookupHash x = word_of_int (parent_comm_rank x)"

definition ptnLookupRehash :: "ptnLookupHashItem \<Rightarrow> 64 word" where
  "ptnLookupRehash x = word_of_int (parent_comm_rank x div 8)"

definition ptnLookupCmp :: "ptnLookupHashItem \<Rightarrow> ptnLookupHashItem \<Rightarrow> int" where
  "ptnLookupCmp l r =
     (if parent_comm_rank l = parent_comm_rank r then 0
      else if parent_comm_rank l > parent_comm_rank r then 1 else -1)"

definition ptnLookupDupe :: "ptnLookupHashItem \<Rightarrow> ptnLookupHashItem option" where
  "ptnLookupDupe = Some"

definition ptnLookupHashCreate :: "(nat \<Rightarrow> bool) \<Rightarrow> ptnLookupHashItem hshtbl option" where
  "ptnLookupHashCreate ok = hshinit ok ptnLookupHash ptnLookupRehash ptnLookupCmp ptnLookupDupe"

definition ptnLookupHashFind ::
  "ptnLookupHashItem hshtbl \<Rightarrow> int \<Rightarrow> (ptnLookupHashItem option \<times> ptnLookupHashItem hshtbl) outcome" where
  "ptnLookupHashFind h parent_rank =
     find_stored h \<lparr>parent_comm_rank = parent_rank,
       parent_to_nested = \<lparr>internode_comm_root = 0, internode_comm_external_rank = 0,
         intranode_comm_root = 0, intranode_comm_local_rank = 0, intra_osproc_fg_rank = 0\<rparr>\<rparr>"

definition ptnLookupHashInsert ::
  "(nat \<Rightarrow> bool) \<Rightarrow> ptnLookupHashItem hshtbl \<Rightarrow> int \<Rightarrow> Parent_to_Nested_comm_tables_t \<Rightarrow>
   (ptnLookupHashItem option \<times> ptnLookupHashItem hshtbl) outcome" where
  "ptnLookupHashInsert ok h parent_rank ptn =
     returned (hshinsert ok h \<lparr>parent_comm_rank = parent_rank,
       parent_to_nested =
         \<lparr>internode_comm_root = internode_comm_root ptn,
          internode_comm_external_rank = internode_comm_external_rank ptn,
          intranode_comm_root = intranode_comm_root ptn,
          intranode_comm_local_rank = intranode_comm_local_rank ptn,
          intra_osproc_fg_rank = intra_osproc_fg_rank ptn\<rparr>\<rparr>)"

definition hshtblFree :: "'a hshtbl option \<Rightarrow> 'a list \<times> 'a hshtbl option" where
  "hshtblFree h = (hshkill h, None)"

subsection \<open>Running a scheduler queue against a map\<close>

datatype sq_op =
    Sq_find int
  | Sq_insert int MPI_event_kind_t Scheduler_action_kind_t addr
  | Sq_remove int

fun sq_key :: "sq_op \<Rightarrow> int" where
  "sq_key (Sq_find k) = k"
| "sq_key (Sq_insert k e a u) = k"
| "sq_key (Sq_remove k) = k"

fun sq_step :: "(nat \<Rightarrow> bool) \<Rightarrow> sq_op \<Rightarrow> schedQueue_item hshtbl \<Rightarrow>
    (schedQueue_item option \<times> schedQueue_item hshtbl) outcome" where
  "sq_step ok (Sq_find k) h = bind_outcome (SchedulerHashFind h k) (\<lambda>(_, r, h'). Inr (r, h'))"
| "sq_step ok (Sq_insert k e a u) h = bind_outcome (SchedulerHashInsert ok h k e a u) (\<lambda>h'. Inr (None, h'))"
| "sq_step ok (Sq_remove k) h = SchedulerHashRemove h k"

fun sq_run :: "(nat \<Rightarrow> bool) \<Rightarrow> sq_op list \<Rightarrow> schedQueue_item hshtbl \<Rightarrow>
    (schedQueue_item option list \<times> schedQueue_item hshtbl) outcome" where
  "sq_run ok [] h = Inr ([], h)"
| "sq_run ok (p # ps) h = bind_outcome (sq_step ok p h) (\<lambda>(r, h').
     bind_outcome (sq_run ok ps h') (\<lambda>(rs, h''). Inr (r # rs, h'')))"

text \<open>The same on a map: an insertion under a key that is present changes nothing.\<close>

fun map_sq_step :: "sq_op \<Rightarrow> (int \<rightharpoonup> schedQueue_item) \<Rightarrow> schedQueue_item option \<times> (int \<rightharpoonup> schedQueue_item)" where
  "map_sq_step (Sq_find k) M = (M k, M)"
| "map_sq_step (Sq_insert k e a u) M =
     (None, case M k of Some _ \<Rightarrow> M
        | None \<Rightarrow> M(k \<mapsto> \<lparr>sq_worldrank = k, mpi_state_on_event = e, action_on_event = a, sched_unit = u\<rparr>))"
| "map_sq_step (Sq_remove k) M = (M k, M(k := None))"

fun map_sq_run :: "sq_op list \<Rightarrow> (int \<rightharpoonup> schedQueue_item) \<Rightarrow> schedQueue_item option list" where
  "map_sq_run [] M = []"
| "map_sq_run (p # ps) M = (let (r, M') = map_sq_step p M in r # map_sq_run ps M')"

subsection \<open>The clients\<close>

interpretation rtw: hash_client ranktoworldhash ranktoworldrehash ranktoworldcmp fgrank
  by unfold_locales (auto simp: ranktoworldhash_def ranktoworldrehash_def ranktoworldcmp_def)

interpretation sq: hash_client SchedulerQueueItem_hash SchedulerQueueItem_rehash SchedulerQueueItem_cmp sq_worldrank
  by unfold_locales
    (auto simp: SchedulerQueueItem_hash_def SchedulerQueueItem_rehash_def SchedulerQueueItem_cmp_def)

interpretation cl: hash_client contextidLeaderhash contextidLeaderrehash contextidLeadercmp
  "\<lambda>x. (context_id x, LeaderWorldRank x)"
  by unfold_locales
    (auto simp: contextidLeaderhash_def contextidLeaderrehash_def contextidLeadercmp_def)

interpretation cid: hash_client cidLookupHash cidLookupRehash cidLookupCmp cid_context_id
  by unfold_locales (auto simp: cidLookupHash_def cidLookupRehash_def cidLookupCmp_def)

interpretation ptn: hash_client ptnLookupHash ptnLookupRehash ptnLookupCmp parent_comm_rank
  by unfold_locales (auto simp: ptnLookupHash_def ptnLookupRehash_def ptnLookupCmp_def)

context hash_client
begin

lemma find_stored_map:
  assumes "hsh_rep hf rf cf key h M"
  shows "\<exists>h'. find_stored h x = Inr (M (key x), h') \<and> hsh_rep hf rf cf key h' M"
  using rep_find [OF assms, of x]
  by (cases "M (key x)") (auto simp: find_stored_def stored_item_def)

lemma delete_stored_map:
  assumes "hsh_rep hf rf cf key h M"
  shows "\<exists>h'. delete_stored h x = Inr (M (key x), h') \<and> hsh_rep hf rf cf key h' (M(key x := None))"
  using rep_delete [OF assms, of x]
  by (cases "M (key x)") (auto simp: delete_stored_def stored_item_def)

lemma rep_map_key: "hsh_rep hf rf cf key h M \<Longrightarrow> M k = Some x \<Longrightarrow> key x = k"
  using hsh_map_Some [of hf rf key h k x] by (auto simp: hsh_rep_def hsh_inv_def)

end

subsection \<open>The scheduler's queue is a map\<close>

abbreviation sq_rep :: "schedQueue_item hshtbl \<Rightarrow> (int \<rightharpoonup> schedQueue_item) \<Rightarrow> bool" where
  "sq_rep \<equiv> hsh_rep SchedulerQueueItem_hash SchedulerQueueItem_rehash SchedulerQueueItem_cmp sq_worldrank"

lemma SchedulerHashFind_map:
  "sq_rep h M \<Longrightarrow> \<exists>h'. SchedulerHashFind h k = Inr (if M k = None then 0 else 1, M k, h') \<and> sq_rep h' M"
  using sq.find_stored_map [of h M
      "\<lparr>sq_worldrank = k, mpi_state_on_event = INIT, action_on_event = NONE, sched_unit = 0\<rparr>"]
  by (auto simp: SchedulerHashFind_def)

lemma SchedulerHashInsert_map:
  assumes "sq_rep h M" "\<forall>k \<in> set table_sizes. ok k" "card (dom M) \<le> HSH_CAPACITY"
  shows "\<exists>h'. SchedulerHashInsert ok h k e a u = Inr h' \<and> sq_rep h' (snd (map_sq_step (Sq_insert k e a u) M))"
  using sq.rep_insert [OF assms,
      of "\<lparr>sq_worldrank = k, mpi_state_on_event = e, action_on_event = a, sched_unit = u\<rparr>"]
  by (auto simp: SchedulerHashInsert_def split: option.splits)

lemma SchedulerHashRemove_map:
  assumes "sq_rep h M"
  shows "\<exists>h'. SchedulerHashRemove h k = Inr (M k, h') \<and> sq_rep h' (M(k := None))"
proof -
  obtain h1 where f: "SchedulerHashFind h k = Inr (if M k = None then 0 else 1, M k, h1)" and r: "sq_rep h1 M"
    using SchedulerHashFind_map [OF assms] by blast
  show ?thesis
  proof (cases "M k")
    case None
    then show ?thesis using f r by (auto simp: SchedulerHashRemove_def fun_upd_idem)
  next
    case (Some x)
    have "sq_worldrank x = k" by (rule sq.rep_map_key [OF r Some])
    then obtain h2 where "delete_stored h1 x = Inr (Some x, h2)" "sq_rep h2 (M(k := None))"
      using sq.delete_stored_map [OF r, of x] Some by auto
    then show ?thesis using f Some by (simp add: SchedulerHashRemove_def SchedulerHashDelete_def)
  qed
qed

lemma map_sq_step_dom: "dom (snd (map_sq_step p M)) \<subseteq> insert (sq_key p) (dom M)"
  by (cases p) (auto split: option.splits)

lemma sq_run_map:
  "sq_rep h M \<Longrightarrow> \<forall>k \<in> set table_sizes. ok k \<Longrightarrow> dom M \<union> sq_key ` set ps \<subseteq> K \<Longrightarrow> finite K \<Longrightarrow>
   card K \<le> HSH_CAPACITY \<Longrightarrow> \<exists>h'. sq_run ok ps h = Inr (map_sq_run ps M, h')"
proof (induction ps arbitrary: h M)
  case Nil
  then show ?case by simp
next
  case (Cons p ps)
  have c: "card (dom M) \<le> HSH_CAPACITY"
    using card_mono [of K "dom M"] Cons.prems(3-5) by auto
  have "\<exists>h1. sq_step ok p h = Inr (fst (map_sq_step p M), h1) \<and> sq_rep h1 (snd (map_sq_step p M))"
  proof (cases p)
    case (Sq_find k)
    then show ?thesis using SchedulerHashFind_map [OF Cons.prems(1), of k] by fastforce
  next
    case (Sq_insert k e a u)
    then show ?thesis using SchedulerHashInsert_map [OF Cons.prems(1,2) c, of k e a u] by force
  next
    case (Sq_remove k)
    then show ?thesis using SchedulerHashRemove_map [OF Cons.prems(1), of k] by fastforce
  qed
  then obtain h1 where 1: "sq_step ok p h = Inr (fst (map_sq_step p M), h1)"
    "sq_rep h1 (snd (map_sq_step p M))" by blast
  have "dom (snd (map_sq_step p M)) \<union> sq_key ` set ps \<subseteq> K"
    using map_sq_step_dom [of p M] Cons.prems(3) by auto
  then obtain h2 where "sq_run ok ps h1 = Inr (map_sq_run ps (snd (map_sq_step p M)), h2)"
    using Cons.IH [OF 1(2) Cons.prems(2)] Cons.prems(4,5) by blast
  then show ?case using 1(1) by (simp add: case_prod_beta)
qed

text \<open>
  C5. Every sequence of lookups, insertions and removals on a new scheduler queue returns what the
  same sequence returns on a map, however long it is, as long as memory for the tables lasts and the
  sequence uses no more keys than the largest table has room for: no probe loops for ever, no
  assertion fails, and neither growing the table nor clearing it of deletion marks loses anything.
\<close>

theorem scheduler_hash_refines_map:
  assumes "SchedulerHashCreate ok = Some h" "\<forall>k \<in> set table_sizes. ok k"
    "card (sq_key ` set ps) \<le> HSH_CAPACITY"
  shows "\<exists>h'. sq_run ok ps h = Inr (map_sq_run ps Map.empty, h')"
proof -
  have "ok INITSZ" using assms(2) by (simp add: table_sizes_def)
  then have "sq_rep h Map.empty"
    using sq.rep_init [of ok] assms(1) by (simp add: SchedulerHashCreate_def SchedulerQueueItem_dupe_def)
  then show ?thesis using sq_run_map [OF _ assms(2), of h Map.empty ps "sq_key ` set ps"] assms(3) by simp
qed

theorem scheduler_hash_refines_map_witness:
  "\<exists>h h'. SchedulerHashCreate (\<lambda>_. True) = Some h \<and>
     sq_run (\<lambda>_. True) [Sq_insert 7 RECV BLOCK 3, Sq_insert 24 SEND BLOCK 5, Sq_insert 7 INIT NONE 9,
         Sq_find 24, Sq_remove 7, Sq_find 7] h =
       Inr ([None, None, None,
         Some \<lparr>sq_worldrank = 24, mpi_state_on_event = SEND, action_on_event = BLOCK, sched_unit = 5\<rparr>,
         Some \<lparr>sq_worldrank = 7, mpi_state_on_event = RECV, action_on_event = BLOCK, sched_unit = 3\<rparr>,
         None], h')"
proof -
  obtain h where "SchedulerHashCreate (\<lambda>_. True) = Some h"
    by (simp add: SchedulerHashCreate_def hshinit_def maketbl_def)
  then show ?thesis
    using scheduler_hash_refines_map [of "\<lambda>_. True" h "[Sq_insert 7 RECV BLOCK 3, Sq_insert 24 SEND BLOCK 5,
         Sq_insert 7 INIT NONE 9, Sq_find 24, Sq_remove 7, Sq_find 7]"]
    by (simp add: HSH_CAPACITY_def card_insert_if)
qed

subsection \<open>The rank maps\<close>

abbreviation rtw_rep :: "ranktoworlditem hshtbl \<Rightarrow> (int \<rightharpoonup> ranktoworlditem) \<Rightarrow> bool" where
  "rtw_rep \<equiv> hsh_rep ranktoworldhash ranktoworldrehash ranktoworldcmp fgrank"

lemma RTWhashCreate_rep:
  assumes "RTWhashCreate ok sz = Some h" "\<forall>k \<in> set table_sizes. ok k"
  shows "rtw_rep h Map.empty"
proof -
  have "ok INITSZ" using assms(2) by (simp add: table_sizes_def)
  then show ?thesis using rtw.rep_init [of ok] assms(1) by (simp add: RTWhashCreate_def ranktoworlddupe_def)
qed

lemma RTWhashFind_map:
  assumes "rtw_rep h M"
  shows "case M k of
      None \<Rightarrow> RTWhashFind h k = Inl (Exit_called ''find_item.fgrank not found in hashtable'')
    | Some x \<Rightarrow> worldrank x \<ge> 0 \<longrightarrow> (\<exists>h'. RTWhashFind h k = Inr (worldrank x, h') \<and> rtw_rep h' M)"
  using rtw.find_stored_map [OF assms, of "\<lparr>fgrank = k, worldrank = 0\<rparr>"]
  by (auto simp: RTWhashFind_def split: option.splits)

lemma RTWhashInsert_map:
  assumes "rtw_rep h M" "\<forall>k \<in> set table_sizes. ok k" "card (dom M) \<le> HSH_CAPACITY" "M k = None"
  shows "\<exists>h'. RTWhashInsert ok h k w = Inr h' \<and> rtw_rep h' (M(k \<mapsto> \<lparr>fgrank = k, worldrank = w\<rparr>))"
  using rtw.rep_insert [OF assms(1-3), of "\<lparr>fgrank = k, worldrank = w\<rparr>"] assms(4)
  by (auto simp: RTWhashInsert_def)

lemma card_dom_upd: "finite (dom M) \<Longrightarrow> card (dom (M(k \<mapsto> v))) \<le> Suc (card (dom M))"
  by (simp add: card_insert_if)

text \<open>The map a block of world ranks spells out, from rank \<open>i\<close> on.\<close>

lemma block_insert_map:
  "rtw_rep h M \<Longrightarrow> \<forall>k \<in> set table_sizes. ok k \<Longrightarrow> card (dom M) + length ws \<le> HSH_CAPACITY \<Longrightarrow> (\<And>k. k \<ge> i \<Longrightarrow> M k = None) \<Longrightarrow>
   \<exists>h'. block_insert_from ok h i ws = Inr h' \<and>
     rtw_rep h' (\<lambda>k. if i \<le> k \<and> k < i + int (length ws) then Some \<lparr>fgrank = k, worldrank = ws ! nat (k - i)\<rparr> else M k)"
proof (induction ws arbitrary: h M n i)
  case Nil
  have "(\<lambda>k. if i \<le> k \<and> k < i + int (length []) then Some \<lparr>fgrank = k, worldrank = [] ! nat (k - i)\<rparr> else M k) = M"
    by (intro ext) auto
  then show ?case using Nil.prems(1) by simp
next
  case (Cons w ws)
  obtain h1 where h1: "RTWhashInsert ok h i w = Inr h1" "rtw_rep h1 (M(i \<mapsto> \<lparr>fgrank = i, worldrank = w\<rparr>))"
    using RTWhashInsert_map [OF Cons.prems(1,2), of i w] Cons.prems(3,4) by auto
  have "(\<lambda>k. if i + 1 \<le> k \<and> k < i + 1 + int (length ws) then Some \<lparr>fgrank = k, worldrank = ws ! nat (k - (i + 1))\<rparr>
         else (M(i \<mapsto> \<lparr>fgrank = i, worldrank = w\<rparr>)) k) =
      (\<lambda>k. if i \<le> k \<and> k < i + int (length (w # ws)) then Some \<lparr>fgrank = k, worldrank = (w # ws) ! nat (k - i)\<rparr>
         else M k)"
  proof
    fix k
    have "nat (k - i) = Suc (nat (k - (i + 1)))" if "i < k" using that by simp
    then show "(if i + 1 \<le> k \<and> k < i + 1 + int (length ws) then Some \<lparr>fgrank = k, worldrank = ws ! nat (k - (i + 1))\<rparr>
         else (M(i \<mapsto> \<lparr>fgrank = i, worldrank = w\<rparr>)) k) =
      (if i \<le> k \<and> k < i + int (length (w # ws)) then Some \<lparr>fgrank = k, worldrank = (w # ws) ! nat (k - i)\<rparr>
         else M k)" by auto
  qed
  moreover have cap: "card (dom (M(i \<mapsto> \<lparr>fgrank = i, worldrank = w\<rparr>))) + length ws \<le> HSH_CAPACITY"
    using card_dom_upd [OF rtw.rep_finite [OF Cons.prems(1)], of i "\<lparr>fgrank = i, worldrank = w\<rparr>"] Cons.prems(3)
    unfolding list.size by linarith
  ultimately show ?case
    using h1 Cons.IH [OF h1(2) Cons.prems(2) cap, of "i + 1"] Cons.prems(4) by simp
qed

lemma RTWhashBlockInsert_map:
  assumes "RTWhashCreate ok sz = Some h" "\<forall>k \<in> set table_sizes. ok k" "n \<le> length ws" "n \<le> HSH_CAPACITY"
  shows "\<exists>h'. RTWhashBlockInsert ok h n ws = Inr h' \<and>
    rtw_rep h' (\<lambda>k. if 0 \<le> k \<and> k < int n then Some \<lparr>fgrank = k, worldrank = ws ! nat k\<rparr> else None)"
proof -
  have "(\<lambda>k. if 0 \<le> k \<and> k < int n then Some \<lparr>fgrank = k, worldrank = take n ws ! nat k\<rparr> else None) =
      (\<lambda>k. if 0 \<le> k \<and> k < int n then Some \<lparr>fgrank = k, worldrank = ws ! nat k\<rparr> else None)"
    by (auto simp: nat_less_iff)
  then show ?thesis
    using block_insert_map [OF RTWhashCreate_rep [OF assms(1,2)] assms(2), of "take n ws" 0] assms(3,4)
    by (simp add: RTWhashBlockInsert_def cong: if_cong)
qed

text \<open>
  C6. Round trip of the rank map: after a communicator's world ranks are block-inserted, looking up
  a local rank gives the world rank at that index, and looking up any other key ends the process
  with the error message.
\<close>

theorem RTWhash_roundtrip:
  assumes "RTWhashCreate ok sz = Some h" "\<forall>k \<in> set table_sizes. ok k" "n \<le> length ws" "n \<le> HSH_CAPACITY"
    "\<forall>i<n. 0 \<le> ws ! i"
  shows "\<exists>h'. RTWhashBlockInsert ok h n ws = Inr h' \<and>
    (\<forall>i<n. \<exists>h''. RTWhashFind h' (int i) = Inr (ws ! i, h'')) \<and>
    (\<forall>k. k < 0 \<or> int n \<le> k \<longrightarrow> RTWhashFind h' k = Inl (Exit_called ''find_item.fgrank not found in hashtable''))"
proof -
  obtain h' where h': "RTWhashBlockInsert ok h n ws = Inr h'"
    and r: "rtw_rep h' (\<lambda>k. if 0 \<le> k \<and> k < int n then Some \<lparr>fgrank = k, worldrank = ws ! nat k\<rparr> else None)"
    using RTWhashBlockInsert_map [OF assms(1-4)] by blast
  have "\<exists>h''. RTWhashFind h' (int i) = Inr (ws ! i, h'')" if "i < n" for i
    using RTWhashFind_map [OF r, of "int i"] that assms(5) by auto
  moreover have "RTWhashFind h' k = Inl (Exit_called ''find_item.fgrank not found in hashtable'')"
    if "k < 0 \<or> int n \<le> k" for k
    using RTWhashFind_map [OF r, of k] that by (simp split: if_splits)
  ultimately show ?thesis using h' by blast
qed

theorem RTWhash_roundtrip_witness:
  "\<exists>h h'. RTWhashCreate (\<lambda>_. True) 3 = Some h \<and> RTWhashBlockInsert (\<lambda>_. True) h 3 [5, 8, 2] = Inr h' \<and>
     (\<exists>h''. RTWhashFind h' 1 = Inr (8, h'')) \<and>
     RTWhashFind h' 3 = Inl (Exit_called ''find_item.fgrank not found in hashtable'')"
proof -
  obtain h where h: "RTWhashCreate (\<lambda>_. True) 3 = Some h"
    by (simp add: RTWhashCreate_def hshinit_def maketbl_def)
  have "\<forall>i<3. (0::int) \<le> [5, 8, 2] ! i" by (simp add: less_Suc_eq numeral_3_eq_3)
  then obtain h' where h': "RTWhashBlockInsert (\<lambda>_. True) h 3 [5, 8, 2] = Inr h'"
    "\<forall>i<3. \<exists>h''. RTWhashFind h' (int i) = Inr ([5, 8, 2] ! i, h'')"
    "\<forall>k. k < 0 \<or> int 3 \<le> k \<longrightarrow> RTWhashFind h' k = Inl (Exit_called ''find_item.fgrank not found in hashtable'')"
    using RTWhash_roundtrip [OF h, of 3 "[5, 8, 2]"] by (auto simp: HSH_CAPACITY_def)
  show ?thesis using h h'(1) h'(2) [rule_format, of 1] h'(3) [rule_format, of 3] by auto
qed

lemma leader_step_fold:
  "0 \<le> l \<Longrightarrow> \<forall>w \<in> set ws. 0 \<le> w \<Longrightarrow> foldl leader_step l ws = Min (insert l (set ws))"
proof (induction ws arbitrary: l)
  case Nil
  then show ?case by simp
next
  case (Cons w ws)
  have "leader_step l w = min l w" using Cons.prems by (auto simp: leader_step_def)
  then have "foldl leader_step l (w # ws) = Min (insert (min l w) (set ws))"
    using Cons by simp
  also have "\<dots> = Min (insert l (insert w (set ws)))"
    by (cases "set ws = {}") (simp_all add: min.assoc)
  finally show ?case by simp
qed

lemma leader_fold:
  "ws \<noteq> [] \<Longrightarrow> \<forall>w \<in> set ws. 0 \<le> w \<Longrightarrow> foldl leader_step (-1) ws = Min (set ws)"
  by (cases ws) (simp_all add: leader_step_fold, simp add: leader_step_def leader_step_fold)

lemma leader_from_map:
  "rtw_rep h M \<Longrightarrow> \<forall>i \<in> set is. M i \<noteq> None \<Longrightarrow>
   \<exists>h'. leader_from h l is = Inr (foldl leader_step l (map (\<lambda>i. worldrank (the (M i))) is), h') \<and> rtw_rep h' M"
proof (induction "is" arbitrary: h l)
  case Nil
  then show ?case by simp
next
  case (Cons i js)
  obtain x where x: "M i = Some x" using Cons.prems(2) by auto
  obtain h1 where h1: "find_stored h \<lparr>fgrank = i, worldrank = 0\<rparr> = Inr (Some x, h1)" "rtw_rep h1 M"
    using rtw.find_stored_map [OF Cons.prems(1), of "\<lparr>fgrank = i, worldrank = 0\<rparr>"] x by auto
  then show ?case using Cons.IH [OF h1(2)] Cons.prems(2) x by simp
qed

text \<open>
  C7. The two forms of the rank map agree on the leader of a communicator, and it is the member
  with the smallest world rank: built from the same block of world ranks, the hash form and the
  array form both return the minimum of the block.
\<close>

theorem RTW_leader_is_minimum:
  assumes "RTWhashCreate ok sz = Some h" "\<forall>k \<in> set table_sizes. ok k" "n \<le> length ws" "n \<le> HSH_CAPACITY"
    "\<forall>i<n. 0 \<le> ws ! i" "0 < n"
  shows "\<exists>h' h'' a. RTWhashBlockInsert ok h n ws = Inr h' \<and>
    RTWhashFindLeader h' n = Inr (Min (set (take n ws)), h'') \<and>
    RTWarrayBlockInsert (RTWarrayCreate junk n) n ws = Inr a \<and>
    RTWarrayFindLeader a n = Inr (Min (set (take n ws)))"
proof -
  let ?M = "\<lambda>k. if 0 \<le> k \<and> k < int n then Some \<lparr>fgrank = k, worldrank = ws ! nat k\<rparr> else None"
  obtain h' where h': "RTWhashBlockInsert ok h n ws = Inr h'" and r: "rtw_rep h' ?M"
    using RTWhashBlockInsert_map [OF assms(1-4)] by blast
  have w: "\<forall>w \<in> set (take n ws). 0 \<le> w" "take n ws \<noteq> []"
    using assms(3,5,6) by (auto simp: in_set_conv_nth)
  note l = leader_fold [OF w(2,1)]
  have min0: "0 \<le> Min (set (take n ws))" using w by (simp add: Min_ge_iff)
  have e: "map (\<lambda>i. worldrank (the (?M i))) (map int [0..<n]) = take n ws"
    using assms(3) by (intro nth_equalityI) simp_all
  have "\<forall>i \<in> set (map int [0..<n]). ?M i \<noteq> None" by auto
  from leader_from_map [OF r this, of "-1"] obtain h''
    where "leader_from h' (-1) (map int [0..<n]) = Inr (Min (set (take n ws)), h'')"
    unfolding e l by blast
  then have "RTWhashFindLeader h' n = Inr (Min (set (take n ws)), h'')"
    using min0 by (simp add: RTWhashFindLeader_def)
  moreover have "RTWarrayBlockInsert (RTWarrayCreate junk n) n ws = Inr (take n ws @ [-2])"
    using assms(3) by (simp add: RTWarrayBlockInsert_def RTWarrayCreate_def)
  moreover have "RTWarrayFindLeader (take n ws @ [-2]) n = Inr (Min (set (take n ws)))"
    using assms(3) l min0 by (simp add: RTWarrayFindLeader_def)
  ultimately show ?thesis using h' by blast
qed

theorem RTW_leader_is_minimum_witness:
  "\<exists>h h' h'' a. RTWhashCreate (\<lambda>_. True) 3 = Some h \<and> RTWhashBlockInsert (\<lambda>_. True) h 3 [5, 8, 2] = Inr h' \<and>
     RTWhashFindLeader h' 3 = Inr (2, h'') \<and>
     RTWarrayBlockInsert (RTWarrayCreate (\<lambda>i. 77) 3) 3 [5, 8, 2] = Inr a \<and> RTWarrayFindLeader a 3 = Inr 2"
proof -
  obtain h where h: "RTWhashCreate (\<lambda>_. True) 3 = Some h"
    by (simp add: RTWhashCreate_def hshinit_def maketbl_def)
  have "\<forall>i<3. (0::int) \<le> [5, 8, 2] ! i" by (simp add: less_Suc_eq numeral_3_eq_3)
  then show ?thesis
    using h RTW_leader_is_minimum [OF h, of 3 "[5, 8, 2]" "\<lambda>i. 77"] by (simp add: HSH_CAPACITY_def)
qed

text \<open>Duplication.\<close>

lemma duplicate_from_map:
  "rtw_rep h M \<Longrightarrow> rtw_rep d D \<Longrightarrow> \<forall>k \<in> set table_sizes. ok k \<Longrightarrow> card (dom D) + length is \<le> HSH_CAPACITY \<Longrightarrow>
   distinct is \<Longrightarrow> \<forall>i \<in> set is. M i \<noteq> None \<and> D i = None \<Longrightarrow>
   \<exists>h' d'. duplicate_from ok h d is = Inr (h', d') \<and> rtw_rep h' M \<and>
     rtw_rep d' (\<lambda>k. if k \<in> set is then M k else D k)"
proof (induction "is" arbitrary: h d D)
  case Nil
  then show ?case by simp
next
  case (Cons i js)
  obtain x where x: "M i = Some x" using Cons.prems(6) by auto
  have fx: "fgrank x = i" by (rule rtw.rep_map_key [OF Cons.prems(1) x])
  obtain h1 where h1: "find_stored h \<lparr>fgrank = i, worldrank = 0\<rparr> = Inr (Some x, h1)" "rtw_rep h1 M"
    using rtw.find_stored_map [OF Cons.prems(1), of "\<lparr>fgrank = i, worldrank = 0\<rparr>"] x by auto
  obtain d1 where d1: "hshinsert ok d x = Some (Some x, d1)" "rtw_rep d1 (D(i \<mapsto> x))"
    using rtw.rep_insert [OF Cons.prems(2,3), of x] Cons.prems(4,6) fx by auto
  have "(\<lambda>k. if k \<in> set js then M k else (D(i \<mapsto> x)) k) = (\<lambda>k. if k \<in> set (i # js) then M k else D k)"
    using x Cons.prems(5) by auto
  moreover have "\<forall>k \<in> set js. M k \<noteq> None \<and> (D(i \<mapsto> x)) k = None" using Cons.prems(5,6) by auto
  moreover have cap: "card (dom (D(i \<mapsto> x))) + length js \<le> HSH_CAPACITY"
    using card_dom_upd [OF rtw.rep_finite [OF Cons.prems(2)], of i x] Cons.prems(4)
    unfolding list.size by linarith
  ultimately show ?case
    using h1(1) d1(1) Cons.IH [OF h1(2) d1(2) Cons.prems(3) cap] Cons.prems(5) by simp
qed

text \<open>
  \<^verbatim>\<open>RTWhashDuplicate\<close> of a table holding the ranks \<open>0, ..., n - 1\<close> succeeds, and the copy answers
  every lookup of one of these ranks as the original does.
\<close>

theorem RTWhashDuplicate_same:
  assumes "RTWhashCreate ok sz = Some h0" "\<forall>k \<in> set table_sizes. ok k" "n \<le> length ws" "n \<le> HSH_CAPACITY"
    "\<forall>i<n. 0 \<le> ws ! i" "RTWhashBlockInsert ok h0 n ws = Inr h"
  shows "\<exists>h' d. RTWhashDuplicate ok h n = Inr (h', Some d) \<and>
    (\<forall>i<n. (\<exists>h''. RTWhashFind h' (int i) = Inr (ws ! i, h'')) \<and> (\<exists>d'. RTWhashFind d (int i) = Inr (ws ! i, d')))"
proof -
  let ?M = "\<lambda>k. if 0 \<le> k \<and> k < int n then Some \<lparr>fgrank = k, worldrank = ws ! nat k\<rparr> else None"
  have r: "rtw_rep h ?M" using RTWhashBlockInsert_map [OF assms(1-4)] assms(6) by auto
  obtain d0 where d0: "RTWhashCreate ok (int n) = Some d0"
    using assms(1) by (simp add: RTWhashCreate_def)
  have d: "distinct (map int [0..<n])" by (simp add: distinct_map)
  have "\<forall>i \<in> set (map int [0..<n]). ?M i \<noteq> None \<and> Map.empty i = None" by auto
  from duplicate_from_map [OF r RTWhashCreate_rep [OF d0 assms(2)] assms(2) _ d this]
  obtain h' d' where hd: "duplicate_from ok h d0 (map int [0..<n]) = Inr (h', d')" "rtw_rep h' ?M"
    "rtw_rep d' (\<lambda>k. if k \<in> set (map int [0..<n]) then ?M k else Map.empty k)"
    using assms(4) by auto
  have "\<exists>h''. RTWhashFind h' (int i) = Inr (ws ! i, h'')" "\<exists>d''. RTWhashFind d' (int i) = Inr (ws ! i, d'')"
    if "i < n" for i
    using RTWhashFind_map [OF hd(2), of "int i"] RTWhashFind_map [OF hd(3), of "int i"] that assms(5) by auto
  then show ?thesis using d0 hd(1) by (auto simp: RTWhashDuplicate_def)
qed

theorem RTWhashDuplicate_same_witness:
  "\<exists>h0 h h' d. RTWhashCreate (\<lambda>_. True) 3 = Some h0 \<and> RTWhashBlockInsert (\<lambda>_. True) h0 3 [5, 8, 2] = Inr h \<and>
     RTWhashDuplicate (\<lambda>_. True) h 3 = Inr (h', Some d) \<and> (\<exists>d'. RTWhashFind d 2 = Inr (2, d'))"
proof -
  obtain h0 where h0: "RTWhashCreate (\<lambda>_. True) 3 = Some h0"
    by (simp add: RTWhashCreate_def hshinit_def maketbl_def)
  have p: "\<forall>i<3. (0::int) \<le> [5, 8, 2] ! i" by (simp add: less_Suc_eq numeral_3_eq_3)
  obtain h where h: "RTWhashBlockInsert (\<lambda>_. True) h0 3 [5, 8, 2] = Inr h"
    using RTWhashBlockInsert_map [OF h0, of 3 "[5, 8, 2]"] by (auto simp: HSH_CAPACITY_def)
  obtain h' d where d: "RTWhashDuplicate (\<lambda>_. True) h 3 = Inr (h', Some d)"
    "\<forall>i<3. \<exists>d'. RTWhashFind d (int i) = Inr ([5, 8, 2] ! i, d')"
    using RTWhashDuplicate_same [OF h0 _ _ _ p h] by (auto simp: HSH_CAPACITY_def)
  show ?thesis using h0 h d(1) d(2) [rule_format, of 2] by auto
qed

subsection \<open>Shared variables of co-located processes\<close>

abbreviation cl_rep :: "cLitem hshtbl \<Rightarrow> (int \<times> int \<rightharpoonup> cLitem) \<Rightarrow> bool" where
  "cl_rep \<equiv> hsh_rep contextidLeaderhash contextidLeaderrehash contextidLeadercmp
     (\<lambda>x. (context_id x, LeaderWorldRank x))"

lemma CL_LookupHashFind_map:
  "cl_rep h M \<Longrightarrow> \<exists>h'. CL_LookupHashFind h c l = Inr (M (c, l), h') \<and> cl_rep h' M"
  using cl.find_stored_map [of h M "\<lparr>context_id = c, LeaderWorldRank = l, coproclet_shared_vars = 0\<rparr>"]
  by (simp add: CL_LookupHashFind_def)

text \<open>
  The life of a communicator's shared variables, by context id and leader: on a table holding
  the map \<open>M\<close>, the first process of the communicator to insert its variables creates the entry, a
  later one is handed the entry that is there and its own variables are dropped; both lookups then
  give that entry; deleting the entry removes it, and deleting it again fails the assertion.
\<close>

theorem CL_hash_lifecycle:
  fixes c l :: int and v :: addr
  assumes "cl_rep h M" "\<forall>k \<in> set table_sizes. ok k" "card (dom M) \<le> HSH_CAPACITY"
  defines "e \<equiv> (case M (c, l) of
      None \<Rightarrow> \<lparr>context_id = c, LeaderWorldRank = l, coproclet_shared_vars = v\<rparr> | Some x \<Rightarrow> x)"
  shows "\<exists>h1 h2 h3. CL_LookupHashInsert ok h c l v = Inr (Some e, h1) \<and>
    CL_LookupHashFind h1 c l = Inr (Some e, h2) \<and> CL_DeleteHashEntry h2 e = Inr h3 \<and>
    cl_rep h3 (M((c, l) := None)) \<and>
    CL_DeleteHashEntry h3 e = Inl (Assert_failed ''removed != NULL'')"
proof -
  let ?x = "\<lparr>context_id = c, LeaderWorldRank = l, coproclet_shared_vars = v\<rparr>"
  have ek: "(context_id e, LeaderWorldRank e) = (c, l)"
    using cl.rep_map_key [OF assms(1), of "(c, l)"] unfolding e_def by (cases "M (c, l)") auto
  obtain h1 where h1: "hshinsert ok h ?x = Some (Some e, h1)"
    "cl_rep h1 (case M (c, l) of None \<Rightarrow> M((c, l) \<mapsto> ?x) | Some y \<Rightarrow> M)"
    using cl.rep_insert [OF assms(1-3), of ?x] unfolding e_def by (auto cong: option.case_cong)
  have m: "(case M (c, l) of None \<Rightarrow> M((c, l) \<mapsto> ?x) | Some y \<Rightarrow> M) = M((c, l) \<mapsto> e)"
    unfolding e_def by (cases "M (c, l)") (simp_all add: fun_upd_idem)
  obtain h2 where h2: "CL_LookupHashFind h1 c l = Inr (Some e, h2)" "cl_rep h2 (M((c, l) \<mapsto> e))"
    using CL_LookupHashFind_map [OF h1(2) [unfolded m], of c l] by auto
  obtain h3 where h3: "delete_stored h2 e = Inr (Some e, h3)" "cl_rep h3 (M((c, l) := None))"
    using cl.delete_stored_map [OF h2(2), of e] ek by auto
  obtain h4 where h4: "delete_stored h3 e = Inr (None, h4)"
    using cl.delete_stored_map [OF h3(2), of e] ek by auto
  show ?thesis using h1(1) h2(1) h3 h4
    by (simp add: CL_LookupHashInsert_def CL_DeleteHashEntry_def check_def)
qed

theorem CL_hash_lifecycle_witness:
  "\<exists>h h1 h2 h3. CL_LookupHashCreate (\<lambda>_. True) = Some h \<and>
     CL_LookupHashInsert (\<lambda>_. True) h 4 0 96 =
       Inr (Some \<lparr>context_id = 4, LeaderWorldRank = 0, coproclet_shared_vars = 96\<rparr>, h1) \<and>
     CL_LookupHashFind h1 4 0 =
       Inr (Some \<lparr>context_id = 4, LeaderWorldRank = 0, coproclet_shared_vars = 96\<rparr>, h2) \<and>
     CL_DeleteHashEntry h2 \<lparr>context_id = 4, LeaderWorldRank = 0, coproclet_shared_vars = 96\<rparr> = Inr h3"
proof -
  obtain h where h: "CL_LookupHashCreate (\<lambda>_. True) = Some h" "cl_rep h Map.empty"
    using cl.rep_init [of "\<lambda>_. True"] by (auto simp: CL_LookupHashCreate_def contextidLeaderdupe_def)
  then show ?thesis
    using CL_hash_lifecycle [OF h(2), of "\<lambda>_. True" 4 0 96] by (auto simp: HSH_CAPACITY_def)
qed

text \<open>The two remaining clients: the first insertion under a key wins and is what lookups return.\<close>

lemma CidLookupHash_map:
  assumes "hsh_rep cidLookupHash cidLookupRehash cidLookupCmp cid_context_id h M"
    "\<forall>k \<in> set table_sizes. ok k" "card (dom M) \<le> HSH_CAPACITY"
  shows "\<exists>h1. CidLookupHashFind h c = Inr (M c, h1)"
    "\<exists>h2. CidLookupHashInsert ok h c v =
       Inr (Some (case M c of None \<Rightarrow> \<lparr>cid_context_id = c, cid_coproclet_shared_vars = v\<rparr> | Some x \<Rightarrow> x), h2)"
  using cid.find_stored_map [OF assms(1), of "\<lparr>cid_context_id = c, cid_coproclet_shared_vars = 0\<rparr>"]
    cid.rep_insert [OF assms, of "\<lparr>cid_context_id = c, cid_coproclet_shared_vars = v\<rparr>"]
  by (auto simp: CidLookupHashFind_def CidLookupHashInsert_def)

lemma ptn_tables_eta:
  "\<lparr>internode_comm_root = internode_comm_root t, internode_comm_external_rank = internode_comm_external_rank t,
     intranode_comm_root = intranode_comm_root t, intranode_comm_local_rank = intranode_comm_local_rank t,
     intra_osproc_fg_rank = intra_osproc_fg_rank t\<rparr> = (t :: Parent_to_Nested_comm_tables_t)"
  by simp

lemma ptnLookupHash_map:
  assumes "hsh_rep ptnLookupHash ptnLookupRehash ptnLookupCmp parent_comm_rank h M"
    "\<forall>k \<in> set table_sizes. ok k" "card (dom M) \<le> HSH_CAPACITY"
  shows "\<exists>h1. ptnLookupHashFind h r = Inr (M r, h1) \<and>
      hsh_rep ptnLookupHash ptnLookupRehash ptnLookupCmp parent_comm_rank h1 M"
    "\<exists>h2. ptnLookupHashInsert ok h r t =
       Inr (Some (case M r of None \<Rightarrow> \<lparr>parent_comm_rank = r, parent_to_nested = t\<rparr> | Some x \<Rightarrow> x), h2) \<and>
      hsh_rep ptnLookupHash ptnLookupRehash ptnLookupCmp parent_comm_rank h2
        (case M r of None \<Rightarrow> M(r \<mapsto> \<lparr>parent_comm_rank = r, parent_to_nested = t\<rparr>) | Some x \<Rightarrow> M)"
  using ptn.find_stored_map [OF assms(1), of "\<lparr>parent_comm_rank = r,
       parent_to_nested = \<lparr>internode_comm_root = 0, internode_comm_external_rank = 0,
         intranode_comm_root = 0, intranode_comm_local_rank = 0, intra_osproc_fg_rank = 0\<rparr>\<rparr>"]
    ptn.rep_insert [OF assms, of "\<lparr>parent_comm_rank = r, parent_to_nested = t\<rparr>"]
  by (auto simp: ptnLookupHashFind_def ptnLookupHashInsert_def ptn_tables_eta cong: option.case_cong)

end
