(* ===== verification/Scheduler.thy ===== *)
theory Scheduler
  imports Hash_Map
begin

section \<open>The schedulers (\<^verbatim>\<open>fgutil/src/sched_global_rr.c\<close>)\<close>

text \<open>
  Round robin, inverse round robin and the scheduler with a block queue, and the choice between
  them in \<^verbatim>\<open>threadlib.c\<close>.  The run list is a pointer list; it stands here as the list of its
  elements, which \<open>Linked_List\<close> shows to be what its operations implement.  An empty list yields
  \<^verbatim>\<open>(void *)-1\<close>, which the code turns into NULL.  The block list is the hash table of
  \<open>Hash_Map\<close> itself; \<open>ok\<close> says which table sizes \<^verbatim>\<open>malloc\<close> grants.
\<close>

subsection \<open>State\<close>

record sched =
  runlist :: "addr list"
  blocklist :: "schedQueue_item hshtbl option"
  progress_thread_running :: bool
  progress_thread :: addr

definition sched_start :: sched where
  "sched_start = \<lparr>runlist = [], blocklist = None, progress_thread_running = False, progress_thread = NULL\<rparr>"

definition PROGRESS_THREAD_RANK :: int where
  "PROGRESS_THREAD_RANK = -200"

subsection \<open>Generic stuff\<close>

definition runlist_remove_from_head :: "sched \<Rightarrow> addr \<times> sched" where
  "runlist_remove_from_head s = (case runlist s of [] \<Rightarrow> (NULL, s) | t # ts \<Rightarrow> (t, s\<lparr>runlist := ts\<rparr>))"

definition runlist_remove_from_tail :: "sched \<Rightarrow> addr \<times> sched" where
  "runlist_remove_from_tail s =
     (if runlist s = [] then (NULL, s) else (last (runlist s), s\<lparr>runlist := butlast (runlist s)\<rparr>))"

definition runlist_size :: "sched \<Rightarrow> nat" where
  "runlist_size s = length (runlist s)"

subsection \<open>Round robin\<close>

definition sched_global_rr_init :: "sched \<Rightarrow> sched" where
  "sched_global_rr_init s = s\<lparr>runlist := []\<rparr>"

definition sched_global_rr_add_thread :: "addr \<Rightarrow> sched \<Rightarrow> sched" where
  "sched_global_rr_add_thread t s = s\<lparr>runlist := runlist s @ [t]\<rparr>"

definition sched_global_rr_next_thread :: "sched \<Rightarrow> addr \<times> sched" where
  "sched_global_rr_next_thread s = runlist_remove_from_head s"

definition sched_global_rr_block_thread :: "addr \<Rightarrow> schedQueue_item \<Rightarrow> sched \<Rightarrow> sched" where
  "sched_global_rr_block_thread t event s = sched_global_rr_add_thread t s"

definition sched_global_rr_unblock_thread :: "schedQueue_item \<Rightarrow> sched \<Rightarrow> sched" where
  "sched_global_rr_unblock_thread event s = s"

subsection \<open>Inverse round robin\<close>

definition sched_global_invrr_init :: "sched \<Rightarrow> sched" where
  "sched_global_invrr_init s = s\<lparr>runlist := []\<rparr>"

definition sched_global_invrr_add_thread :: "addr \<Rightarrow> sched \<Rightarrow> sched" where
  "sched_global_invrr_add_thread t s = s\<lparr>runlist := runlist s @ [t]\<rparr>"

definition sched_global_invrr_next_thread :: "sched \<Rightarrow> addr \<times> sched" where
  "sched_global_invrr_next_thread s = runlist_remove_from_head s"

definition sched_global_invrr_add_init_thread :: "addr \<Rightarrow> sched \<Rightarrow> sched" where
  "sched_global_invrr_add_init_thread t s = s\<lparr>runlist := t # runlist s\<rparr>"

definition sched_global_invrr_next_init_thread :: "sched \<Rightarrow> addr \<times> sched" where
  "sched_global_invrr_next_init_thread s = runlist_remove_from_tail s"

definition sched_global_invrr_block_thread :: "addr \<Rightarrow> schedQueue_item \<Rightarrow> sched \<Rightarrow> sched" where
  "sched_global_invrr_block_thread t event s = sched_global_invrr_add_thread t s"

definition sched_global_invrr_unblock_thread :: "schedQueue_item \<Rightarrow> sched \<Rightarrow> sched" where
  "sched_global_invrr_unblock_thread event s = s"

subsection \<open>Scheduler with a hash block queue\<close>

definition sched_block_queue_init :: "(nat \<Rightarrow> bool) \<Rightarrow> sched \<Rightarrow> sched outcome" where
  "sched_block_queue_init ok s =
     bind_outcome (check (SchedulerHashCreate ok \<noteq> None) ''NULL != blocklist'') (\<lambda>_.
     Inr (s\<lparr>runlist := [], blocklist := SchedulerHashCreate ok\<rparr>))"

definition sched_block_queue_add_thread :: "addr \<Rightarrow> sched \<Rightarrow> sched" where
  "sched_block_queue_add_thread t s = s\<lparr>runlist := runlist s @ [t]\<rparr>"

definition sched_block_queue_next_thread :: "sched \<Rightarrow> addr \<times> sched" where
  "sched_block_queue_next_thread s = runlist_remove_from_head s"

definition the_blocklist :: "sched \<Rightarrow> schedQueue_item hshtbl outcome" where
  "the_blocklist s = (case blocklist s of None \<Rightarrow> Inl (Undefined ''blocklist is NULL'') | Some h \<Rightarrow> Inr h)"

definition sched_block_queue_block_thread ::
  "(nat \<Rightarrow> bool) \<Rightarrow> addr \<Rightarrow> addr \<Rightarrow> schedQueue_item \<Rightarrow> sched \<Rightarrow> sched outcome" where
  "sched_block_queue_block_thread ok current_thread t blk_event s =
     bind_outcome (check (sched_unit blk_event = current_thread) ''blk_event->sched_unit == current_thread'') (\<lambda>_.
     bind_outcome (the_blocklist s) (\<lambda>h.
     bind_outcome (SchedulerHashInsert ok h (sq_worldrank blk_event) (mpi_state_on_event blk_event)
       (action_on_event blk_event) (sched_unit blk_event)) (\<lambda>h'.
     Inr (s\<lparr>blocklist := Some h'\<rparr>))))"

definition sched_block_queue_unblock_thread :: "schedQueue_item \<Rightarrow> sched \<Rightarrow> sched outcome" where
  "sched_block_queue_unblock_thread unblk_event s =
     bind_outcome (the_blocklist s) (\<lambda>h.
     bind_outcome (SchedulerHashRemove h (sq_worldrank unblk_event)) (\<lambda>(stored, h').
     case stored of
       None \<Rightarrow> Inr (s\<lparr>blocklist := Some h'\<rparr>)
     | Some x \<Rightarrow> Inr (sched_block_queue_add_thread (sched_unit x) (s\<lparr>blocklist := Some h'\<rparr>))))"

definition sched_block_queue_start_progress_thread :: "sched \<Rightarrow> sched outcome" where
  "sched_block_queue_start_progress_thread s =
     (if \<not> progress_thread_running s then
        bind_outcome (sched_block_queue_unblock_thread
          \<lparr>sq_worldrank = PROGRESS_THREAD_RANK, mpi_state_on_event = INIT, action_on_event = UNBLOCK,
           sched_unit = NULL\<rparr> s) (\<lambda>s'.
        Inr (s'\<lparr>progress_thread_running := True\<rparr>))
      else Inr s)"

text \<open>
  The part of \<^verbatim>\<open>sched_block_queue_init_progress_thread\<close> after \<^verbatim>\<open>thread_spawn\<close> has returned \<open>t\<close>
  (the spawn is in \<open>Thread_Lib\<close>).
\<close>

definition sched_block_queue_init_progress_thread ::
  "(nat \<Rightarrow> bool) \<Rightarrow> addr \<Rightarrow> sched \<Rightarrow> sched outcome" where
  "sched_block_queue_init_progress_thread ok t s =
     bind_outcome (check (\<not> progress_thread_running s) ''!progress_thread_running'') (\<lambda>_.
     bind_outcome (check (t \<noteq> NULL) ''NULL != progress_thread'') (\<lambda>_.
     bind_outcome (the_blocklist s) (\<lambda>h.
     bind_outcome (SchedulerHashInsert ok h PROGRESS_THREAD_RANK INIT BLOCK t) (\<lambda>h'.
     Inr (s\<lparr>progress_thread := t, blocklist := Some h'\<rparr>)))))"

definition is_progress_thread_running :: "sched \<Rightarrow> bool" where
  "is_progress_thread_running s = progress_thread_running s"

subsection \<open>The choice of a scheduler\<close>

datatype scheduler = Global_rr | Global_invrr | Block_queue

definition to_lower :: "char \<Rightarrow> char" where
  "to_lower c = (let n = of_char c :: nat in if 65 \<le> n \<and> n \<le> 90 then char_of (n + 32) else c)"

definition strcaseeq :: "string \<Rightarrow> string \<Rightarrow> bool" where
  "strcaseeq a b \<longleftrightarrow> map to_lower a = map to_lower b"

definition pick_scheduler :: "string option \<Rightarrow> scheduler outcome" where
  "pick_scheduler env =
     (case env of
        None \<Rightarrow> Inr Global_rr
      | Some sched \<Rightarrow>
          if strcaseeq sched ''rr'' then Inr Global_rr
          else if strcaseeq sched ''invrr'' then Inr Global_invrr
          else if strcaseeq sched ''block'' then Inr Block_queue
          else Inl (Exit_called ''Invalid value for SCHEDULER''))"

fun sched_init :: "(nat \<Rightarrow> bool) \<Rightarrow> scheduler \<Rightarrow> sched \<Rightarrow> sched outcome" where
  "sched_init ok Global_rr s = Inr (sched_global_rr_init s)"
| "sched_init ok Global_invrr s = Inr (sched_global_invrr_init s)"
| "sched_init ok Block_queue s = sched_block_queue_init ok s"

fun sched_add_thread :: "scheduler \<Rightarrow> addr \<Rightarrow> sched \<Rightarrow> sched" where
  "sched_add_thread Global_rr t s = sched_global_rr_add_thread t s"
| "sched_add_thread Global_invrr t s = sched_global_invrr_add_thread t s"
| "sched_add_thread Block_queue t s = sched_block_queue_add_thread t s"

fun sched_next_thread :: "scheduler \<Rightarrow> sched \<Rightarrow> addr \<times> sched" where
  "sched_next_thread Global_rr s = sched_global_rr_next_thread s"
| "sched_next_thread Global_invrr s = sched_global_invrr_next_thread s"
| "sched_next_thread Block_queue s = sched_block_queue_next_thread s"

fun sched_add_init_thread :: "scheduler \<Rightarrow> addr \<Rightarrow> sched \<Rightarrow> sched" where
  "sched_add_init_thread Global_rr t s = sched_global_rr_add_thread t s"
| "sched_add_init_thread Global_invrr t s = sched_global_invrr_add_init_thread t s"
| "sched_add_init_thread Block_queue t s = sched_block_queue_add_thread t s"

fun sched_next_init_thread :: "scheduler \<Rightarrow> sched \<Rightarrow> addr \<times> sched" where
  "sched_next_init_thread Global_rr s = sched_global_rr_next_thread s"
| "sched_next_init_thread Global_invrr s = sched_global_invrr_next_init_thread s"
| "sched_next_init_thread Block_queue s = sched_block_queue_next_thread s"

fun sched_block_thread ::
  "(nat \<Rightarrow> bool) \<Rightarrow> scheduler \<Rightarrow> addr \<Rightarrow> addr \<Rightarrow> schedQueue_item \<Rightarrow> sched \<Rightarrow> sched outcome" where
  "sched_block_thread ok Global_rr cur t ev s = Inr (sched_global_rr_block_thread t ev s)"
| "sched_block_thread ok Global_invrr cur t ev s = Inr (sched_global_invrr_block_thread t ev s)"
| "sched_block_thread ok Block_queue cur t ev s = sched_block_queue_block_thread ok cur t ev s"

fun sched_unblock_thread :: "scheduler \<Rightarrow> schedQueue_item \<Rightarrow> sched \<Rightarrow> sched outcome" where
  "sched_unblock_thread Global_rr ev s = Inr (sched_global_rr_unblock_thread ev s)"
| "sched_unblock_thread Global_invrr ev s = Inr (sched_global_invrr_unblock_thread ev s)"
| "sched_unblock_thread Block_queue ev s = sched_block_queue_unblock_thread ev s"

fun sched_start_progress_thread :: "scheduler \<Rightarrow> sched \<Rightarrow> sched outcome" where
  "sched_start_progress_thread Block_queue s = sched_block_queue_start_progress_thread s"
| "sched_start_progress_thread k s = Inr s"

subsection \<open>Runs\<close>

text \<open>A sequence of additions and choices on a run queue, and what the choices returned.\<close>

datatype rq_op = Rq_add addr | Rq_next

fun rq_run :: "(addr \<Rightarrow> 's \<Rightarrow> 's) \<Rightarrow> ('s \<Rightarrow> addr \<times> 's) \<Rightarrow> rq_op list \<Rightarrow> 's \<Rightarrow> addr list \<times> 's" where
  "rq_run add nxt [] s = ([], s)"
| "rq_run add nxt (Rq_add t # ps) s = rq_run add nxt ps (add t s)"
| "rq_run add nxt (Rq_next # ps) s =
     (let (t, s') = nxt s; (ts, s'') = rq_run add nxt ps s' in (t # ts, s''))"

fun rq_added :: "rq_op list \<Rightarrow> addr list" where
  "rq_added [] = []"
| "rq_added (Rq_add t # ps) = t # rq_added ps"
| "rq_added (Rq_next # ps) = rq_added ps"

text \<open>A sequence of events on the block-queue scheduler, and the same on a queue and a map.\<close>

datatype bq_op =
    Bq_add addr
  | Bq_next
  | Bq_block int MPI_event_kind_t addr
  | Bq_unblock int

fun bq_step :: "(nat \<Rightarrow> bool) \<Rightarrow> bq_op \<Rightarrow> sched \<Rightarrow> (addr \<times> sched) outcome" where
  "bq_step ok (Bq_add t) s = Inr (NULL, sched_block_queue_add_thread t s)"
| "bq_step ok Bq_next s = Inr (sched_block_queue_next_thread s)"
| "bq_step ok (Bq_block r e t) s =
     bind_outcome (sched_block_queue_block_thread ok t t
       \<lparr>sq_worldrank = r, mpi_state_on_event = e, action_on_event = BLOCK, sched_unit = t\<rparr> s) (\<lambda>s'. Inr (NULL, s'))"
| "bq_step ok (Bq_unblock r) s =
     bind_outcome (sched_block_queue_unblock_thread
       \<lparr>sq_worldrank = r, mpi_state_on_event = RECV, action_on_event = UNBLOCK, sched_unit = NULL\<rparr> s) (\<lambda>s'. Inr (NULL, s'))"

fun bq_run :: "(nat \<Rightarrow> bool) \<Rightarrow> bq_op list \<Rightarrow> sched \<Rightarrow> (addr list \<times> sched) outcome" where
  "bq_run ok [] s = Inr ([], s)"
| "bq_run ok (p # ps) s = bind_outcome (bq_step ok p s) (\<lambda>(t, s').
     bind_outcome (bq_run ok ps s') (\<lambda>(ts, s''). Inr (t # ts, s'')))"

fun abs_bq_step :: "bq_op \<Rightarrow> addr list \<Rightarrow> (int \<rightharpoonup> addr) \<Rightarrow> addr \<times> addr list \<times> (int \<rightharpoonup> addr)" where
  "abs_bq_step (Bq_add t) q b = (NULL, q @ [t], b)"
| "abs_bq_step Bq_next q b = (case q of [] \<Rightarrow> (NULL, q, b) | t # ts \<Rightarrow> (t, ts, b))"
| "abs_bq_step (Bq_block r e t) q b = (NULL, q, if b r = None then b(r \<mapsto> t) else b)"
| "abs_bq_step (Bq_unblock r) q b =
     (case b r of None \<Rightarrow> (NULL, q, b) | Some t \<Rightarrow> (NULL, q @ [t], b(r := None)))"

fun abs_bq_run :: "bq_op list \<Rightarrow> addr list \<Rightarrow> (int \<rightharpoonup> addr) \<Rightarrow> addr list \<times> addr list \<times> (int \<rightharpoonup> addr)" where
  "abs_bq_run [] q b = ([], q, b)"
| "abs_bq_run (p # ps) q b =
     (let (t, q', b') = abs_bq_step p q b; (ts, q'', b'') = abs_bq_run ps q' b' in (t # ts, q'', b''))"

fun bq_ranks :: "bq_op list \<Rightarrow> int set" where
  "bq_ranks [] = {}"
| "bq_ranks (Bq_block r e t # ps) = insert r (bq_ranks ps)"
| "bq_ranks (p # ps) = bq_ranks ps"

text \<open>The block list stands for the map from blocked ranks to their events.\<close>

definition blocked :: "sched \<Rightarrow> (int \<rightharpoonup> schedQueue_item) \<Rightarrow> bool" where
  "blocked s M \<longleftrightarrow> (\<exists>h. blocklist s = Some h \<and>
     hsh_rep SchedulerQueueItem_hash SchedulerQueueItem_rehash SchedulerQueueItem_cmp sq_worldrank h M)"

lemmas sched_defs [fg_defs] =
  sched_global_rr_init_def sched_global_rr_add_thread_def sched_global_rr_next_thread_def
  sched_global_rr_block_thread_def sched_global_rr_unblock_thread_def
  sched_global_invrr_init_def sched_global_invrr_add_thread_def sched_global_invrr_next_thread_def
  sched_global_invrr_add_init_thread_def sched_global_invrr_next_init_thread_def
  sched_global_invrr_block_thread_def sched_global_invrr_unblock_thread_def
  sched_block_queue_add_thread_def sched_block_queue_next_thread_def

subsection \<open>The contract of a run queue\<close>

text \<open>
  What the thread library relies on: \<open>add\<close> puts a thread at the end of the queue of ready threads,
  \<open>nxt\<close> takes the thread at its front, and NULL when there is none.
\<close>

locale run_queue =
  fixes add :: "addr \<Rightarrow> 's \<Rightarrow> 's" and nxt :: "'s \<Rightarrow> addr \<times> 's" and ready :: "'s \<Rightarrow> addr list"
  assumes ready_add: "ready (add t s) = ready s @ [t]"
    and next_empty: "ready s = [] \<Longrightarrow> nxt s = (NULL, s)"
    and next_front: "ready s = t # ts \<Longrightarrow> fst (nxt s) = t \<and> ready (snd (nxt s)) = ts"
begin

text \<open>Whatever the sequence, threads leave the queue in the order they entered it, each once.\<close>

lemma fifo:
  "NULL \<notin> set (ready s) \<Longrightarrow> NULL \<notin> set (rq_added ps) \<Longrightarrow> rq_run add nxt ps s = (ts, s') \<Longrightarrow>
   filter (\<lambda>t. t \<noteq> NULL) ts @ ready s' = ready s @ rq_added ps"
proof (induction ps arbitrary: s ts)
  case Nil
  then show ?case by simp
next
  case (Cons p ps)
  show ?case
  proof (cases p)
    case (Rq_add t)
    then show ?thesis using Cons.IH [of "add t s" ts] Cons.prems by (simp add: ready_add)
  next
    case Rq_next
    obtain us where r: "rq_run add nxt ps (snd (nxt s)) = (us, s')" and ts: "ts = fst (nxt s) # us"
      using Cons.prems(3) Rq_next by (auto simp: case_prod_beta Let_def) (metis prod.collapse)
    show ?thesis
    proof (cases "ready s")
      case Nil
      then show ?thesis using Cons.IH [OF _ _ r] Cons.prems ts Rq_next next_empty [OF Nil] by simp
    next
      case (Cons t q)
      then show ?thesis using Cons.IH [OF _ _ r] Cons.prems ts Rq_next next_front [OF Cons] by auto
    qed
  qed
qed

text \<open>The thread at position \<open>k\<close> of the queue is chosen by the choice number \<open>k\<close>.\<close>

lemma fair:
  assumes "NULL \<notin> set (ready s)" "NULL \<notin> set (rq_added ps)" "rq_run add nxt ps s = (ts, s')"
    "k < length (ready s)" "k < length ts"
  shows "ts ! k = ready s ! k"
  using assms
proof (induction ps arbitrary: s ts k)
  case Nil
  then show ?case by simp
next
  case (Cons p ps)
  show ?case
  proof (cases p)
    case (Rq_add t)
    then show ?thesis using Cons.IH [of "add t s" ts k] Cons.prems by (simp add: ready_add nth_append)
  next
    case Rq_next
    obtain us where r: "rq_run add nxt ps (snd (nxt s)) = (us, s')" and ts: "ts = fst (nxt s) # us"
      using Cons.prems(3) Rq_next by (auto simp: case_prod_beta Let_def) (metis prod.collapse)
    obtain t q where q: "ready s = t # q" using Cons.prems(4) by (cases "ready s") auto
    show ?thesis
    proof (cases k)
      case 0
      then show ?thesis using ts q next_front [OF q] by simp
    next
      case (Suc j)
      then show ?thesis using Cons.IH [OF _ _ r, of j] Cons.prems ts q next_front [OF q] Rq_next by simp
    qed
  qed
qed

end

interpretation rr: run_queue sched_global_rr_add_thread sched_global_rr_next_thread runlist
  by unfold_locales (auto simp: fg_defs runlist_remove_from_head_def)

interpretation invrr: run_queue sched_global_invrr_add_thread sched_global_invrr_next_thread runlist
  by unfold_locales (auto simp: fg_defs runlist_remove_from_head_def)

interpretation invrr_init: run_queue sched_global_invrr_add_init_thread sched_global_invrr_next_init_thread
  "\<lambda>s. rev (runlist s)"
  by unfold_locales (auto simp: fg_defs runlist_remove_from_tail_def rev_eq_Cons_iff)

text \<open>The scheduler \<^verbatim>\<open>threadlib.c\<close> has picked, whichever it is.\<close>

interpretation picked: run_queue "sched_add_thread k" "sched_next_thread k" runlist for k
  by (unfold_locales; cases k) (auto simp: fg_defs runlist_remove_from_head_def)

text \<open>
  C10. Scheduling is fair and loses nothing: under each of the three schedulers, whatever sequence
  of additions and choices is made, the threads chosen followed by the threads still on the run
  list are the threads that were there followed by those added, in that order; and a thread at
  position \<open>k\<close> is what the choice number \<open>k\<close> returns.
\<close>

theorem schedulers_fifo:
  assumes "NULL \<notin> set (runlist s)" "NULL \<notin> set (rq_added ps)"
    "rq_run (sched_add_thread k) (sched_next_thread k) ps s = (ts, s')"
  shows "filter (\<lambda>t. t \<noteq> NULL) ts @ runlist s' = runlist s @ rq_added ps \<and>
    (\<forall>i<length (runlist s). i < length ts \<longrightarrow> ts ! i = runlist s ! i)"
  using picked.fifo [OF assms] picked.fair [OF assms] by blast

theorem schedulers_fifo_witness:
  "filter (\<lambda>t. t \<noteq> NULL) [4, 5, 6, 0] @ [] = [4, 5] @ [6] \<and>
   rq_run (sched_add_thread Block_queue) (sched_next_thread Block_queue)
     [Rq_next, Rq_add 6, Rq_next, Rq_next, Rq_next] (sched_start\<lparr>runlist := [4, 5]\<rparr>) =
   ([4, 5, 6, 0], sched_start)"
  using schedulers_fifo [of "sched_start\<lparr>runlist := [4, 5]\<rparr>" "[Rq_next, Rq_add 6, Rq_next, Rq_next, Rq_next]"
      Block_queue "[4, 5, 6, 0]" sched_start]
  by (simp add: fg_defs runlist_remove_from_head_def sched_start_def)

subsection \<open>The block queue\<close>

lemma blocked_init:
  assumes "sched_block_queue_init ok s = Inr s'" "\<forall>k \<in> set table_sizes. ok k"
  shows "blocked s' Map.empty \<and> runlist s' = []"
proof -
  have "ok INITSZ" using assms(2) by (simp add: table_sizes_def)
  then show ?thesis
    using sq.rep_init [of ok] assms(1)
    by (auto simp: blocked_def sched_block_queue_init_def bind_outcome_Inr_iff SchedulerHashCreate_def
        SchedulerQueueItem_dupe_def)
qed

lemma block_thread_blocked:
  assumes "blocked s M" "\<forall>k \<in> set table_sizes. ok k" "card (dom M) \<le> HSH_CAPACITY" "sched_unit ev = cur"
  shows "\<exists>s'. sched_block_queue_block_thread ok cur t ev s = Inr s' \<and>
    blocked s' (if M (sq_worldrank ev) = None then M(sq_worldrank ev \<mapsto> ev) else M) \<and>
    runlist s' = runlist s \<and> progress_thread_running s' = progress_thread_running s"
proof -
  obtain h where h: "blocklist s = Some h" "sq_rep h M" using assms(1) by (auto simp: blocked_def)
  have eta: "\<lparr>sq_worldrank = sq_worldrank ev, mpi_state_on_event = mpi_state_on_event ev,
      action_on_event = action_on_event ev, sched_unit = sched_unit ev\<rparr> = ev" by simp
  show ?thesis
    using SchedulerHashInsert_map [OF h(2) assms(2,3), of "sq_worldrank ev" "mpi_state_on_event ev"
        "action_on_event ev" "sched_unit ev"] h(1) assms(4)
    by (cases "M (sq_worldrank ev)")
      (auto simp: sched_block_queue_block_thread_def the_blocklist_def blocked_def eta)
qed

lemma unblock_thread_blocked:
  assumes "blocked s M"
  shows "\<exists>s'. sched_block_queue_unblock_thread ev s = Inr s' \<and>
    blocked s' (M(sq_worldrank ev := None)) \<and> progress_thread_running s' = progress_thread_running s \<and>
    runlist s' = (case M (sq_worldrank ev) of None \<Rightarrow> runlist s | Some x \<Rightarrow> runlist s @ [sched_unit x])"
proof -
  obtain h where h: "blocklist s = Some h" "sq_rep h M" using assms by (auto simp: blocked_def)
  show ?thesis using SchedulerHashRemove_map [OF h(2), of "sq_worldrank ev"] h(1)
    by (cases "M (sq_worldrank ev)")
      (auto simp: sched_block_queue_unblock_thread_def the_blocklist_def blocked_def fg_defs)
qed

lemma bq_step_refines:
  assumes b: "blocked s M" and ok: "\<forall>k \<in> set table_sizes. ok k" "card (dom M) \<le> HSH_CAPACITY"
  shows "\<exists>s' M'. bq_step ok p s = Inr (fst (abs_bq_step p (runlist s) (map_option sched_unit \<circ> M)), s') \<and>
    blocked s' M' \<and> runlist s' = fst (snd (abs_bq_step p (runlist s) (map_option sched_unit \<circ> M))) \<and>
    map_option sched_unit \<circ> M' = snd (snd (abs_bq_step p (runlist s) (map_option sched_unit \<circ> M))) \<and>
    dom M' \<subseteq> dom M \<union> bq_ranks [p]"
proof (cases p)
  case (Bq_add t)
  have "blocked (s\<lparr>runlist := runlist s @ [t]\<rparr>) M" using b by (simp add: blocked_def)
  then show ?thesis using Bq_add by (auto simp: fg_defs)
next
  case Bq_next
  have "blocked (s\<lparr>runlist := q\<rparr>) M" for q using b by (simp add: blocked_def)
  then show ?thesis using Bq_next b
    by (cases "runlist s") (auto simp: fg_defs runlist_remove_from_head_def)
next
  case (Bq_block r e t)
  let ?ev = "\<lparr>sq_worldrank = r, mpi_state_on_event = e, action_on_event = BLOCK, sched_unit = t\<rparr>"
  let ?M = "if M r = None then M(r \<mapsto> ?ev) else M"
  obtain s' where s': "sched_block_queue_block_thread ok t t ?ev s = Inr s'" "blocked s' ?M" "runlist s' = runlist s"
    using block_thread_blocked [OF b ok, of ?ev t t] by (auto cong: if_cong)
  have "map_option sched_unit \<circ> ?M = (if M r = None then (map_option sched_unit \<circ> M)(r \<mapsto> t) else map_option sched_unit \<circ> M)"
    by auto
  moreover have "dom ?M \<subseteq> insert r (dom M)" by auto
  ultimately show ?thesis using Bq_block s' by (intro exI [of _ s'] exI [of _ ?M]) auto
next
  case (Bq_unblock r)
  let ?ev = "\<lparr>sq_worldrank = r, mpi_state_on_event = RECV, action_on_event = UNBLOCK, sched_unit = NULL\<rparr>"
  obtain s' where s': "sched_block_queue_unblock_thread ?ev s = Inr s'" "blocked s' (M(r := None))"
    "runlist s' = (case M r of None \<Rightarrow> runlist s | Some x \<Rightarrow> runlist s @ [sched_unit x])"
    using unblock_thread_blocked [OF b, of ?ev] by auto
  have "map_option sched_unit \<circ> M(r := None) = (map_option sched_unit \<circ> M)(r := None)" by auto
  then show ?thesis using Bq_unblock s' by (intro exI [of _ s'] exI [of _ "M(r := None)"]) (auto split: option.splits)
qed

lemma bq_run_refines:
  "blocked s M \<Longrightarrow> \<forall>k \<in> set table_sizes. ok k \<Longrightarrow> dom M \<union> bq_ranks ps \<subseteq> K \<Longrightarrow> finite K \<Longrightarrow> card K \<le> HSH_CAPACITY \<Longrightarrow>
   \<exists>s'. bq_run ok ps s = Inr (fst (abs_bq_run ps (runlist s) (map_option sched_unit \<circ> M)), s') \<and>
     runlist s' = fst (snd (abs_bq_run ps (runlist s) (map_option sched_unit \<circ> M)))"
proof (induction ps arbitrary: s M)
  case Nil
  then show ?case by simp
next
  case (Cons p ps)
  have "card (dom M) \<le> HSH_CAPACITY" using card_mono [of K "dom M"] Cons.prems(3-5) by auto
  then obtain s1 M1 where s1:
    "bq_step ok p s = Inr (fst (abs_bq_step p (runlist s) (map_option sched_unit \<circ> M)), s1)"
    "blocked s1 M1" "runlist s1 = fst (snd (abs_bq_step p (runlist s) (map_option sched_unit \<circ> M)))"
    "map_option sched_unit \<circ> M1 = snd (snd (abs_bq_step p (runlist s) (map_option sched_unit \<circ> M)))"
    "dom M1 \<subseteq> dom M \<union> bq_ranks [p]"
    using bq_step_refines [OF Cons.prems(1,2), of p] by blast
  have "bq_ranks (p # ps) = bq_ranks [p] \<union> bq_ranks ps" by (cases p) auto
  then have "dom M1 \<union> bq_ranks ps \<subseteq> K" using s1(5) Cons.prems(3) by blast
  from Cons.IH [OF s1(2) Cons.prems(2) this Cons.prems(4,5)] show ?case
    using s1(1) unfolding s1(3,4) by (auto simp: case_prod_beta Let_def comp_def)
qed

text \<open>
  C11. The block-queue scheduler refines a queue of ready threads and a map from ranks to blocked
  threads: any sequence of additions, choices, blockings and notifications chooses the threads the
  abstract machine chooses and ends with its queue.  In particular a thread blocked under its rank
  goes back to the end of the queue once, at the next notification for that rank, and a
  notification for a rank that is not blocked is dropped.
\<close>

theorem block_queue_refines:
  assumes "sched_block_queue_init ok sched_start = Inr s" "\<forall>k \<in> set table_sizes. ok k"
    "card (bq_ranks ps) \<le> HSH_CAPACITY"
  shows "\<exists>s'. bq_run ok ps s = Inr (fst (abs_bq_run ps [] Map.empty), s') \<and>
    runlist s' = fst (snd (abs_bq_run ps [] Map.empty))"
proof -
  have fin: "finite (bq_ranks ps)" by (induction ps rule: bq_ranks.induct) auto
  have b: "blocked s Map.empty" "runlist s = []" using blocked_init [OF assms(1,2)] by auto
  have "map_option sched_unit \<circ> Map.empty = Map.empty" by auto
  then show ?thesis using bq_run_refines [OF b(1) assms(2) _ fin assms(3)] b(2) by simp
qed

theorem block_queue_refines_witness:
  "\<exists>s s'. sched_block_queue_init (\<lambda>_. True) sched_start = Inr s \<and>
     bq_run (\<lambda>_. True) [Bq_add 4, Bq_next, Bq_block 9 RECV 4, Bq_next, Bq_unblock 9, Bq_unblock 9, Bq_next, Bq_next] s =
       Inr ([0, 4, 0, 0, 0, 0, 4, 0], s') \<and> runlist s' = []"
proof -
  obtain s where s: "sched_block_queue_init (\<lambda>_. True) sched_start = Inr s"
    by (simp add: sched_block_queue_init_def SchedulerHashCreate_def hshinit_def maketbl_def)
  show ?thesis
    using s block_queue_refines [OF s, of "[Bq_add 4, Bq_next, Bq_block 9 RECV 4, Bq_next, Bq_unblock 9,
        Bq_unblock 9, Bq_next, Bq_next]"]
    by (auto simp: HSH_CAPACITY_def)
qed

end
