(* ===== verification/Thread_Lib.thy ===== *)
theory Thread_Lib
  imports Scheduler
begin

section \<open>The coroutine threads (\<^verbatim>\<open>fgutil/src/threadlib.c\<close>)\<close>

text \<open>
  The state every FG-MPI process of one operating-system process shares: the threads, their counts,
  the scheduler and the sleep queue.  The thread and sleep lists are pointer lists and stand here as
  the lists of their elements (\<open>Linked_List\<close> shows that their operations implement lists).

  A coroutine switch \<^verbatim>\<open>CO_CALL\<close> ends a step of the model: an operation that yields is split at it into
  the part before, which leaves the state with \<open>in_scheduler\<close> set, and the part after
  (\<open>yield_leave\<close>, \<open>thread_join_finish\<close>).  \<^verbatim>\<open>reap\<close> is what the scheduler does when a thread has called
  it back.  Clock readings are arguments; \<^verbatim>\<open>unsigned long long\<close> and \<^verbatim>\<open>long long\<close> are integers
  reduced by \<open>ull\<close> and \<open>sll\<close> where the code converts or subtracts.
\<close>

subsection \<open>State\<close>

definition ull :: "int \<Rightarrow> int" where
  "ull x = x mod 2 ^ 64"

definition sll :: "int \<Rightarrow> int" where
  "sll x = (x + 2 ^ 63) mod 2 ^ 64 - 2 ^ 63"

datatype thread_state = RUNNABLE | SUSPENDED | ZOMBIE | GHOST

record fgmpi_thread =
  tid :: nat
  state :: thread_state
  joinable :: bool
  daemon :: bool
  timeout :: bool
  name :: string
  join_thread :: addr
  ret :: addr
  sleep :: int

record thread_attr =
  attr_thread :: addr
  attr_joinable :: bool
  attr_daemon :: bool

record tl =
  kind :: scheduler
  sch :: sched
  thread :: "addr \<Rightarrow> fgmpi_thread"
  next_thread_addr :: addr
  max_tid :: nat
  threadlist :: "addr list"
  num_daemon_threads :: int
  num_suspended_threads :: int
  num_runnable_threads :: int
  num_zombie_threads :: int
  main_thread :: addr
  current_thread :: addr
  current_thread_exited :: bool
  main_exited :: bool
  exit_whole_program :: bool
  in_scheduler :: bool
  sleepq :: "addr list"
  last_check_time :: int
  max_sleep_time :: int
  first_wake_usecs :: int

definition set_thread :: "addr \<Rightarrow> (fgmpi_thread \<Rightarrow> fgmpi_thread) \<Rightarrow> tl \<Rightarrow> tl" where
  "set_thread t f s = s\<lparr>thread := (thread s)(t := f (thread s t))\<rparr>"

definition sanity_check_threadcounts :: "tl \<Rightarrow> bool" where
  "sanity_check_threadcounts s \<longleftrightarrow>
     num_daemon_threads s \<ge> 0 \<and> num_suspended_threads s \<ge> 0 \<and> num_runnable_threads s \<ge> 0 \<and>
     num_zombie_threads s \<ge> 0 \<and>
     num_runnable_threads s + num_suspended_threads s + num_zombie_threads s = int (length (threadlist s))"

definition check_threadcounts :: "tl \<Rightarrow> unit outcome" where
  "check_threadcounts s = check (sanity_check_threadcounts s) ''sanity_check_threadcounts''"

definition fgmpi_sleepq_sanity_check :: "tl \<Rightarrow> unit outcome" where
  "fgmpi_sleepq_sanity_check s =
     check (max_sleep_time s > 0 \<and> length (sleepq s) > 0 \<or> max_sleep_time s = 0 \<and> length (sleepq s) = 0)
       ''fgmpi_sleepq_sanity_check''"

definition valid_thread :: "addr \<Rightarrow> bool" where
  "valid_thread t \<longleftrightarrow> t \<noteq> NULL"

subsection \<open>Resuming threads\<close>

definition add_to_scheduler :: "addr \<Rightarrow> tl \<Rightarrow> tl" where
  "add_to_scheduler t s = s\<lparr>sch := sched_add_thread (kind s) t (sch s)\<rparr>"

definition u_thread_resume :: "addr \<Rightarrow> tl \<Rightarrow> tl outcome" where
  "u_thread_resume t s =
     (if state (thread s t) \<noteq> SUSPENDED then Inr s
      else let s1 = s\<lparr>num_suspended_threads := num_suspended_threads s - 1,
                      num_runnable_threads := num_runnable_threads s + 1\<rparr> in
        bind_outcome (check_threadcounts s1) (\<lambda>_.
        let s2 = set_thread t (\<lambda>x. x\<lparr>state := RUNNABLE\<rparr>) s1 in
        bind_outcome (check (sleep (thread s2 t) = -1) ''t->sleep == -1'') (\<lambda>_.
        Inr (add_to_scheduler t s2))))"

subsection \<open>The sleep queue\<close>

text \<open>The loop of \<^verbatim>\<open>fgmpi_sleepq_check\<close>; the list is the queue.\<close>

fun sleepq_wake :: "int \<Rightarrow> int \<Rightarrow> addr list \<Rightarrow> tl \<Rightarrow> tl outcome" where
  "sleepq_wake now interval [] s = Inr s"
| "sleepq_wake now interval (t # q) s =
     (if \<not> interval > 0 then Inr s
      else if sleep (thread s t) > interval then
        let s1 = set_thread t (\<lambda>x. x\<lparr>sleep := sleep x - interval\<rparr>) s in
        Inr (s1\<lparr>first_wake_usecs := ull (now + sleep (thread s1 t))\<rparr>)
      else
        bind_outcome (u_thread_resume t (set_thread t (\<lambda>x. x\<lparr>sleep := -1, timeout := True\<rparr>) s)) (\<lambda>s1.
        sleepq_wake now (interval - sleep (thread s t)) q (s1\<lparr>sleepq := q\<rparr>)))"

definition fgmpi_sleepq_check :: "bool \<Rightarrow> int \<Rightarrow> tl \<Rightarrow> tl outcome" where
  "fgmpi_sleepq_check sync now s =
     (if \<not> sync \<and> max_sleep_time s = 0 then Inr (s\<lparr>first_wake_usecs := 0\<rparr>)
      else
        bind_outcome (fgmpi_sleepq_sanity_check s) (\<lambda>_.
        let interval = (if now > last_check_time s then sll (now - last_check_time s) else 0);
            s1 = s\<lparr>last_check_time := now,
                   max_sleep_time := (if max_sleep_time s < ull interval then 0
                                      else ull (max_sleep_time s - interval))\<rparr> in
        bind_outcome (sleepq_wake now interval (sleepq s1) s1) (\<lambda>s2.
        let s3 = (if length (sleepq s2) = 0 then s2\<lparr>first_wake_usecs := 0\<rparr> else s2) in
        bind_outcome (fgmpi_sleepq_sanity_check s3) (\<lambda>_. Inr s3))))"

text \<open>
  The backward search of \<^verbatim>\<open>fgmpi_sleepq_add_thread\<close>: \<open>rq\<close> is what is left of the queue, last element
  first, \<open>post\<close> the elements passed.
\<close>

fun sleepq_insert :: "addr \<Rightarrow> int \<Rightarrow> int \<Rightarrow> int \<Rightarrow> addr list \<Rightarrow> addr list \<Rightarrow> tl \<Rightarrow> tl outcome" where
  "sleepq_insert t tmo now tot [] post s = Inl (Assert_failed ''e != NULL'')"
| "sleepq_insert t tmo now tot (tt # rq) post s =
     bind_outcome (check (sleep (thread s tt) \<ge> 0) ''tt->sleep >= 0'') (\<lambda>_.
     let tot' = tot - sleep (thread s tt) in
     bind_outcome (check (tot' \<ge> 0) ''total_time >= 0'') (\<lambda>_.
     if ull tot' \<le> tmo then
       let s1 = set_thread t (\<lambda>x. x\<lparr>sleep := sll (tmo - tot')\<rparr>) (s\<lparr>sleepq := rev rq @ t # tt # post\<rparr>) in
       bind_outcome (check (sleep (thread s1 t) > 0) ''t->sleep > 0'') (\<lambda>_.
       let s2 = (if tot' = 0 then s1\<lparr>first_wake_usecs := ull (now + tmo)\<rparr> else s1);
           s3 = set_thread tt (\<lambda>x. x\<lparr>sleep := sleep x - sleep (thread s2 t)\<rparr>) s2 in
       bind_outcome (check (sleep (thread s3 tt) > 0) ''tt->sleep > 0'') (\<lambda>_. Inr s3))
     else sleepq_insert t tmo now tot' rq (tt # post) s))"

text \<open>
  \<^verbatim>\<open>pl_view_head\<close> of an empty list is \<^verbatim>\<open>(void *)-1\<close>, so the test against NULL holds only if the list
  has NULL for its first element.
\<close>

definition sleepq_view_head_is_NULL :: "tl \<Rightarrow> bool" where
  "sleepq_view_head_is_NULL s \<longleftrightarrow> (case sleepq s of [] \<Rightarrow> False | t # _ \<Rightarrow> t = NULL)"

definition fgmpi_sleepq_add_thread :: "addr \<Rightarrow> int \<Rightarrow> int \<Rightarrow> int \<Rightarrow> tl \<Rightarrow> tl outcome" where
  "fgmpi_sleepq_add_thread t tmo now now' s0 =
     bind_outcome (fgmpi_sleepq_check True now s0) (\<lambda>s.
     bind_outcome (check (sleep (thread s t) = -1) ''t->sleep == -1'') (\<lambda>_.
     bind_outcome (fgmpi_sleepq_sanity_check s) (\<lambda>_.
     if tmo \<ge> max_sleep_time s then
       let s1 = (if sleepq_view_head_is_NULL s then s\<lparr>first_wake_usecs := ull (now' + tmo)\<rparr> else s);
           s2 = set_thread t (\<lambda>x. x\<lparr>sleep := sll (tmo - max_sleep_time s)\<rparr>) (s1\<lparr>sleepq := sleepq s1 @ [t]\<rparr>) in
       bind_outcome (check (sleep (thread s2 t) \<ge> 0) ''t->sleep >= 0'') (\<lambda>_.
       let s3 = s2\<lparr>max_sleep_time := tmo\<rparr> in
       bind_outcome (fgmpi_sleepq_sanity_check s3) (\<lambda>_. Inr s3))
     else
       bind_outcome (sleepq_insert t tmo now' (sll (max_sleep_time s)) (rev (sleepq s)) [] s) (\<lambda>s1.
       bind_outcome (fgmpi_sleepq_sanity_check s1) (\<lambda>_. Inr s1)))))"

text \<open>The search of \<^verbatim>\<open>fgmpi_sleepq_remove_thread\<close>; \<open>pre\<close> are the elements passed.\<close>

fun sleepq_unlink :: "addr \<Rightarrow> addr list \<Rightarrow> addr list \<Rightarrow> tl \<Rightarrow> tl outcome" where
  "sleepq_unlink t pre [] s = Inl (Assert_failed ''t->sleep == -1'')"
| "sleepq_unlink t pre (tt # q) s =
     (if tt = t then
        let s1 = (case q of
              nextt # _ \<Rightarrow> set_thread nextt (\<lambda>x. x\<lparr>sleep := sleep x + sleep (thread s t)\<rparr>) s
            | [] \<Rightarrow> s\<lparr>max_sleep_time := ull (max_sleep_time s - sleep (thread s t))\<rparr>);
            s2 = set_thread t (\<lambda>x. x\<lparr>sleep := -1\<rparr>) (s1\<lparr>sleepq := pre @ q\<rparr>) in
        bind_outcome (check (\<not> timeout (thread s2 t)) ''!t->timeout'') (\<lambda>_. Inr s2)
      else sleepq_unlink t (pre @ [tt]) q s)"

definition fgmpi_sleepq_remove_thread :: "addr \<Rightarrow> tl \<Rightarrow> tl outcome" where
  "fgmpi_sleepq_remove_thread t s =
     bind_outcome (check (sleep (thread s t) \<ge> 0) ''t->sleep >= 0'') (\<lambda>_.
     bind_outcome (fgmpi_sleepq_sanity_check s) (\<lambda>_.
     bind_outcome (sleepq_unlink t [] (sleepq s) s) (\<lambda>s1.
     bind_outcome (check (sleep (thread s1 t) = -1) ''t->sleep == -1'') (\<lambda>_.
     bind_outcome (fgmpi_sleepq_sanity_check s1) (\<lambda>_. Inr s1)))))"

definition fgmpi_sleepq_size :: "tl \<Rightarrow> nat" where
  "fgmpi_sleepq_size s = length (sleepq s)"

definition thread_resume :: "addr \<Rightarrow> tl \<Rightarrow> tl outcome" where
  "thread_resume t s =
     bind_outcome (if sleep (thread s t) \<noteq> -1 then fgmpi_sleepq_remove_thread t s else Inr s) (\<lambda>s1.
     u_thread_resume t s1)"

subsection \<open>Creating and freeing threads\<close>

text \<open>
  \<open>nodes\<close> is the table of start functions and stack sizes (\<^verbatim>\<open>start_node_addrs\<close>), absent by default.
\<close>

fun find_start_node :: "(addr \<times> int) list \<Rightarrow> addr \<Rightarrow> int outcome" where
  "find_start_node [] func = Inl (Exit_called ''Couldn't find stack size for thread entry point'')"
| "find_start_node ((a, sz) # ns) func = (if a = func then Inr sz else find_start_node ns func)"

definition get_stack_size_kb_log2 :: "int \<Rightarrow> (addr \<times> int) list option \<Rightarrow> addr \<Rightarrow> int outcome" where
  "get_stack_size_kb_log2 conf_new_stack_kb_log2 nodes func =
     (case nodes of None \<Rightarrow> Inr conf_new_stack_kb_log2 | Some ns \<Rightarrow> find_start_node ns func)"

definition zero_thread :: fgmpi_thread where
  "zero_thread = \<lparr>tid = 0, state = RUNNABLE, joinable = False, daemon = False, timeout = False, name = '''',
     join_thread = NULL, ret = NULL, sleep = 0\<rparr>"

text \<open>
  What a spawn finds: whether \<^verbatim>\<open>malloc\<close> has memory for the thread, the configured stack size and the
  table of stack sizes, the start function, and whether \<^verbatim>\<open>CO_CREATE\<close> returns a coroutine for the
  stack size it is given.
\<close>

record spawn_env =
  se_malloc :: bool
  conf_new_stack_kb_log2 :: int
  start_nodes :: "(addr \<times> int) list option"
  initial_func :: addr
  co_create :: "int \<Rightarrow> bool"

text \<open>
  A name is given by every caller (the code compares it with \<^verbatim>\<open>strcmp\<close>, undefined for NULL).
\<close>

definition new_thread :: "spawn_env \<Rightarrow> string option \<Rightarrow> thread_attr option \<Rightarrow> tl \<Rightarrow> (addr \<times> tl) outcome" where
  "new_thread env nm attr s =
     bind_outcome (check (se_malloc env) ''t!=NULL'') (\<lambda>_.
     bind_outcome (get_stack_size_kb_log2 (conf_new_stack_kb_log2 env) (start_nodes env) (initial_func env)) (\<lambda>kb_log2.
     bind_outcome (check (co_create env kb_log2) ''0'') (\<lambda>_.
     let t = next_thread_addr s;
         th = zero_thread\<lparr>name := (case nm of Some n \<Rightarrow> n | None \<Rightarrow> ''noname''), joinable := True,
                          tid := max_tid s, sleep := -1\<rparr>;
         s1 = s\<lparr>next_thread_addr := next_thread_addr s + 1, max_tid := max_tid s + 1\<rparr>;
         s2 = (case attr of
             None \<Rightarrow> s1\<lparr>thread := (thread s1)(t := th)\<rparr>
           | Some a \<Rightarrow>
               s1\<lparr>thread := (thread s1)(t := th\<lparr>joinable := attr_joinable a, daemon := attr_daemon a\<rparr>),
                  num_daemon_threads := num_daemon_threads s1 + (if attr_daemon a then 1 else 0)\<rparr>);
         s3 = s2\<lparr>threadlist := threadlist s2 @ [t], num_runnable_threads := num_runnable_threads s2 + 1\<rparr> in
     case nm of
       None \<Rightarrow> Inl (Undefined ''strcmp(NULL)'')
     | Some n \<Rightarrow>
         let s4 = (if n \<noteq> ''FG_PROGRESS_THREAD'' then add_to_scheduler t s3 else s3) in
         bind_outcome (check_threadcounts s4) (\<lambda>_. Inr (t, s4)))))"

definition free_thread :: "addr \<Rightarrow> tl \<Rightarrow> tl outcome" where
  "free_thread t s =
     (let s1 = s\<lparr>threadlist := remove1 t (threadlist s)\<rparr> in
      bind_outcome (check (state (thread s1 t) = ZOMBIE) ''t->state == ZOMBIE'') (\<lambda>_.
      Inr ((set_thread t (\<lambda>x. x\<lparr>state := GHOST\<rparr>) s1)\<lparr>num_zombie_threads := num_zombie_threads s1 - 1\<rparr>)))"

definition thread_spawn_with_attr :: "spawn_env \<Rightarrow> string option \<Rightarrow> thread_attr option \<Rightarrow> tl \<Rightarrow> (addr \<times> tl) outcome" where
  "thread_spawn_with_attr env nm attr s = new_thread env nm attr s"

definition thread_spawn :: "spawn_env \<Rightarrow> string option \<Rightarrow> tl \<Rightarrow> (addr \<times> tl) outcome" where
  "thread_spawn env nm s = new_thread env nm None s"

text \<open>\<^verbatim>\<open>sched_block_queue_init_progress_thread\<close>, with its \<^verbatim>\<open>thread_spawn\<close>.\<close>

definition init_progress_thread :: "(nat \<Rightarrow> bool) \<Rightarrow> spawn_env \<Rightarrow> tl \<Rightarrow> tl outcome" where
  "init_progress_thread ok env s =
     (if kind s = Block_queue then
        bind_outcome (check (\<not> progress_thread_running (sch s)) ''!progress_thread_running'') (\<lambda>_.
        bind_outcome (thread_spawn env (Some ''FG_PROGRESS_THREAD'') s) (\<lambda>(t, s1).
        bind_outcome (sched_block_queue_init_progress_thread ok t (sch s1)) (\<lambda>sc.
        Inr (s1\<lparr>sch := sc\<rparr>))))
      else Inr s)"

subsection \<open>Yielding\<close>

text \<open>What the scheduler does first when a thread has called it.\<close>

definition reap :: "tl \<Rightarrow> tl outcome" where
  "reap s =
     (if current_thread_exited s then
        let s1 = s\<lparr>current_thread_exited := False\<rparr> in
        if current_thread s1 \<noteq> main_thread s1 then free_thread (current_thread s1) s1 else Inr s1
      else Inr s)"

definition call_scheduler :: "tl \<Rightarrow> tl outcome" where
  "call_scheduler s = reap (s\<lparr>in_scheduler := True\<rparr>)"

text \<open>\<^verbatim>\<open>_thread_yield_internal\<close> up to the switch.\<close>

definition yield_enter ::
  "(nat \<Rightarrow> bool) \<Rightarrow> bool \<Rightarrow> schedQueue_item option \<Rightarrow> int \<Rightarrow> int \<Rightarrow> int \<Rightarrow> tl \<Rightarrow> tl outcome" where
  "yield_enter ok suspended incoming_event tmo now now' s =
     (let incoming_action = (case incoming_event of None \<Rightarrow> NONE | Some e \<Rightarrow> action_on_event e) in
      bind_outcome
        (if \<not> suspended \<and> incoming_action \<noteq> BLOCK then Inr (add_to_scheduler (current_thread s) s)
         else case incoming_event of
             Some e \<Rightarrow>
               if action_on_event e = BLOCK then
                 bind_outcome (sched_start_progress_thread (kind s) (sch s)) (\<lambda>sc.
                 bind_outcome (sched_block_thread ok (kind s) (current_thread s) (current_thread s) e sc) (\<lambda>sc'.
                 Inr (s\<lparr>sch := sc'\<rparr>)))
               else if tmo \<noteq> 0 then fgmpi_sleepq_add_thread (current_thread s) tmo now now' s else Inr s
           | None \<Rightarrow> if tmo \<noteq> 0 then fgmpi_sleepq_add_thread (current_thread s) tmo now now' s else Inr s)
        call_scheduler)"

text \<open>\ldots and after it, when the thread runs again.\<close>

definition OK :: int where "OK = 0"
definition TIMEDOUT :: int where "TIMEDOUT = 1"

definition yield_leave :: "bool \<Rightarrow> int \<Rightarrow> tl \<Rightarrow> int \<times> tl" where
  "yield_leave suspended tmo s =
     (if suspended \<and> tmo \<noteq> 0 \<and> timeout (thread s (current_thread s))
      then (TIMEDOUT, set_thread (current_thread s) (\<lambda>x. x\<lparr>timeout := False\<rparr>) s)
      else (OK, s))"

definition thread_yield :: "(nat \<Rightarrow> bool) \<Rightarrow> tl \<Rightarrow> tl outcome" where
  "thread_yield ok s = yield_enter ok False None 0 0 0 s"

definition thread_yield_on_event :: "(nat \<Rightarrow> bool) \<Rightarrow> schedQueue_item \<Rightarrow> tl \<Rightarrow> tl outcome" where
  "thread_yield_on_event ok yld_event s =
     yield_enter ok False (Some (yld_event\<lparr>sched_unit := current_thread s\<rparr>)) 0 0 0 s"

definition thread_notify_on_event :: "schedQueue_item \<Rightarrow> tl \<Rightarrow> tl outcome" where
  "thread_notify_on_event notification s =
     (if action_on_event notification = UNBLOCK then
        bind_outcome (sched_unblock_thread (kind s) notification (sch s)) (\<lambda>sc. Inr (s\<lparr>sch := sc\<rparr>))
      else Inl (Assert_failed ''0''))"

definition thread_suspend_self :: "(nat \<Rightarrow> bool) \<Rightarrow> int \<Rightarrow> int \<Rightarrow> int \<Rightarrow> tl \<Rightarrow> tl outcome" where
  "thread_suspend_self ok tmo now now' s =
     (let s1 = s\<lparr>num_suspended_threads := num_suspended_threads s + 1,
                 num_runnable_threads := num_runnable_threads s - 1\<rparr> in
      bind_outcome (check_threadcounts s1) (\<lambda>_.
      yield_enter ok True None tmo now now' (set_thread (current_thread s1) (\<lambda>x. x\<lparr>state := SUSPENDED\<rparr>) s1)))"

definition thread_usleep :: "(nat \<Rightarrow> bool) \<Rightarrow> int \<Rightarrow> int \<Rightarrow> int \<Rightarrow> tl \<Rightarrow> tl outcome" where
  "thread_usleep ok tmo now now' s = thread_suspend_self ok tmo now now' s"

subsection \<open>Exit and join\<close>

text \<open>
  \<^verbatim>\<open>thread_exit\<close>.  In the main thread the first call goes through \<^verbatim>\<open>exit(0)\<close>, which runs
  \<^verbatim>\<open>exit_func\<close>, which calls \<^verbatim>\<open>thread_exit(NULL)\<close> again unless the whole program is to end.
\<close>

definition thread_exit_body :: "addr \<Rightarrow> tl \<Rightarrow> tl outcome" where
  "thread_exit_body r s =
     (let t = current_thread s;
          s1 = s\<lparr>num_runnable_threads := num_runnable_threads s - 1,
                 num_daemon_threads := num_daemon_threads s - (if daemon (thread s t) then 1 else 0)\<rparr>;
          s2 = (set_thread t (\<lambda>x. x\<lparr>state := ZOMBIE\<rparr>) s1)\<lparr>num_zombie_threads := num_zombie_threads s1 + 1\<rparr> in
      bind_outcome
        (if \<not> joinable (thread s2 t) then Inr (s2\<lparr>current_thread_exited := True\<rparr>)
         else let s3 = set_thread t (\<lambda>x. x\<lparr>ret := r\<rparr>) s2 in
           if join_thread (thread s3 t) \<noteq> NULL then thread_resume (join_thread (thread s3 t)) s3 else Inr s3) (\<lambda>s4.
      bind_outcome (check_threadcounts s4) (\<lambda>_. call_scheduler s4)))"

definition exit_func :: "bool \<Rightarrow> tl \<Rightarrow> tl outcome" where
  "exit_func same_pid s =
     (if \<not> same_pid then Inl (Exit_called ''forked child'')
      else let s1 = s\<lparr>main_exited := True\<rparr> in
        if \<not> exit_whole_program s1 then
          bind_outcome (check_threadcounts s1) (\<lambda>_. thread_exit_body NULL s1)
        else Inl (Exit_called ''exit''))"

definition thread_exit :: "addr \<Rightarrow> tl \<Rightarrow> tl outcome" where
  "thread_exit r s =
     bind_outcome (check_threadcounts s) (\<lambda>_.
     if current_thread s = main_thread s \<and> \<not> main_exited s
     then exit_func True (s\<lparr>main_exited := True\<rparr>)
     else thread_exit_body r s)"

definition thread_join_finish :: "addr \<Rightarrow> tl \<Rightarrow> (addr \<times> tl) outcome" where
  "thread_join_finish t s = bind_outcome (free_thread t s) (\<lambda>s1. Inr (ret (thread s t), s1))"

text \<open>
  \<^verbatim>\<open>thread_join\<close> up to the switch (\<open>Inr (None, s)\<close>: the caller sleeps until the thread has ended), or
  to its end when the thread has ended already.  \<^verbatim>\<open>return_errno\<close> is \<^verbatim>\<open>assert(0)\<close>.
\<close>

definition thread_join :: "(nat \<Rightarrow> bool) \<Rightarrow> addr \<Rightarrow> tl \<Rightarrow> (addr option \<times> tl) outcome" where
  "thread_join ok t s =
     (if t = NULL then Inl (Assert_failed ''EINVAL'')
      else if \<not> joinable (thread s t) then Inl (Assert_failed ''EINVAL'')
      else
        bind_outcome (check (state (thread s t) \<noteq> GHOST) ''t->state != GHOST'') (\<lambda>_.
        if join_thread (thread s t) \<noteq> NULL then Inl (Assert_failed ''EACCES'')
        else
          let s1 = set_thread t (\<lambda>x. x\<lparr>join_thread := current_thread s\<rparr>) s in
          if state (thread s1 t) \<noteq> ZOMBIE then
            bind_outcome (thread_suspend_self ok 0 0 0 s1) (\<lambda>s2. Inr (None, s2))
          else bind_outcome (thread_join_finish t s1) (\<lambda>(r, s2). Inr (Some r, s2))))"

definition thread_set_daemon :: "addr \<Rightarrow> tl \<Rightarrow> tl" where
  "thread_set_daemon t s =
     (if daemon (thread s t) then s
      else (set_thread t (\<lambda>x. x\<lparr>daemon := True\<rparr>) s)\<lparr>num_daemon_threads := num_daemon_threads s + 1\<rparr>)"

definition thread_name :: "addr \<Rightarrow> tl \<Rightarrow> string" where
  "thread_name t s = name (thread s t)"

definition fgmpi_thread_tid :: "addr \<Rightarrow> tl \<Rightarrow> nat" where
  "fgmpi_thread_tid t s = (if t \<noteq> NULL then tid (thread s t) else 0xffffffff)"

definition thread_exit_program :: "tl \<Rightarrow> tl outcome" where
  "thread_exit_program s = Inl (Exit_called ''exit_whole_program'')"

subsection \<open>Attributes\<close>

text \<open>\<open>junk\<close> is what \<^verbatim>\<open>malloc\<close> leaves in the fields that are not set.\<close>

definition thread_attr_of :: "thread_attr \<Rightarrow> addr \<Rightarrow> thread_attr" where
  "thread_attr_of junk t = junk\<lparr>attr_thread := t\<rparr>"

definition thread_attr_init :: "thread_attr option \<Rightarrow> thread_attr outcome" where
  "thread_attr_init attr =
     (case attr of
        None \<Rightarrow> Inl (Assert_failed ''EINVAL'')
      | Some a \<Rightarrow>
          if attr_thread a \<noteq> NULL then Inl (Assert_failed ''EPERM'') else Inr (a\<lparr>attr_joinable := True\<rparr>))"

definition thread_attr_new :: "thread_attr \<Rightarrow> thread_attr outcome" where
  "thread_attr_new junk = thread_attr_init (Some (junk\<lparr>attr_thread := NULL\<rparr>))"

definition THREAD_CREATE_JOINABLE :: int where "THREAD_CREATE_JOINABLE = 1"
definition THREAD_CREATE_DETACHED :: int where "THREAD_CREATE_DETACHED = 0"

definition thread_attr_set_joinable :: "int \<Rightarrow> thread_attr \<Rightarrow> tl \<Rightarrow> thread_attr \<times> tl" where
  "thread_attr_set_joinable val attr s =
     (if attr_thread attr = NULL then (attr\<lparr>attr_joinable := (val = THREAD_CREATE_JOINABLE)\<rparr>, s)
      else (attr, set_thread (attr_thread attr) (\<lambda>x. x\<lparr>joinable := (val = THREAD_CREATE_JOINABLE)\<rparr>) s))"

definition thread_attr_get_joinable :: "thread_attr \<Rightarrow> tl \<Rightarrow> int" where
  "thread_attr_get_joinable attr s =
     (let j = (if attr_thread attr = NULL then attr_joinable attr else joinable (thread s (attr_thread attr))) in
      if j then THREAD_CREATE_JOINABLE else THREAD_CREATE_DETACHED)"

subsection \<open>The scheduling loop and initialisation\<close>

text \<open>
  One round of the loop of \<^verbatim>\<open>do_scheduler\<close>, up to the switch to the thread it picks.  With only
  daemon threads left it switches to the main thread, which then ends the program.
\<close>

definition do_scheduler :: "int \<Rightarrow> tl \<Rightarrow> tl outcome" where
  "do_scheduler now s =
     bind_outcome (check_threadcounts s) (\<lambda>_.
     bind_outcome (fgmpi_sleepq_check False now s) (\<lambda>s1.
     bind_outcome (check_threadcounts s1) (\<lambda>_.
     if num_suspended_threads s1 = 0 \<and> num_runnable_threads s1 = num_daemon_threads s1
     then Inr (s1\<lparr>current_thread := main_thread s1, in_scheduler := False\<rparr>)
     else
       let (t, sc) = sched_next_thread (kind s1) (sch s1);
           s2 = s1\<lparr>sch := sc, current_thread := t\<rparr> in
       if \<not> valid_thread t then Inr s2
       else
         bind_outcome (check (sleep (thread s2 t) = -1) ''current_thread->sleep == -1'') (\<lambda>_.
         bind_outcome (check_threadcounts s2) (\<lambda>_.
         Inr (s2\<lparr>in_scheduler := False\<rparr>))))))"

definition runlist_init :: "tl \<Rightarrow> tl" where
  "runlist_init s =
     (let sc1 = sched_add_init_thread (kind s) (current_thread s) (sch s);
          (t, sc2) = sched_next_init_thread (kind s) sc1 in
      s\<lparr>sch := sc2, current_thread := t\<rparr>)"

text \<open>\<^verbatim>\<open>thread_init\<close>: the main thread gets address 1; the scheduler thread is not in the list.\<close>

definition thread_init :: "(nat \<Rightarrow> bool) \<Rightarrow> string option \<Rightarrow> tl outcome" where
  "thread_init ok env =
     bind_outcome (pick_scheduler env) (\<lambda>k.
     bind_outcome (sched_init ok k sched_start) (\<lambda>sc.
     thread_yield ok
       \<lparr>kind = k, sch = sc,
        thread = (\<lambda>_. zero_thread)(1 := zero_thread\<lparr>name := ''main_thread'', sleep := -1\<rparr>),
        next_thread_addr = 2, max_tid = 1, threadlist = [1],
        num_daemon_threads = 0, num_suspended_threads = 0, num_runnable_threads = 1, num_zombie_threads = 0,
        main_thread = 1, current_thread = 1, current_thread_exited = False, main_exited = False,
        exit_whole_program = False, in_scheduler = False,
        sleepq = [], last_check_time = 0, max_sleep_time = 0, first_wake_usecs = 0\<rparr>))"

subsection \<open>What the helpers change\<close>

lemma set_thread_simps [simp]:
  "thread (set_thread t f s) = (thread s)(t := f (thread s t))"
  "threadlist (set_thread t f s) = threadlist s" "sch (set_thread t f s) = sch s" "kind (set_thread t f s) = kind s"
  "next_thread_addr (set_thread t f s) = next_thread_addr s"
  "num_runnable_threads (set_thread t f s) = num_runnable_threads s"
  "num_suspended_threads (set_thread t f s) = num_suspended_threads s"
  "num_zombie_threads (set_thread t f s) = num_zombie_threads s"
  "num_daemon_threads (set_thread t f s) = num_daemon_threads s"
  "current_thread (set_thread t f s) = current_thread s" "main_thread (set_thread t f s) = main_thread s"
  "in_scheduler (set_thread t f s) = in_scheduler s" "sleepq (set_thread t f s) = sleepq s"
  "max_sleep_time (set_thread t f s) = max_sleep_time s" "last_check_time (set_thread t f s) = last_check_time s"
  "first_wake_usecs (set_thread t f s) = first_wake_usecs s"
  "current_thread_exited (set_thread t f s) = current_thread_exited s"
  by (simp_all add: set_thread_def)

lemma sched_add_eq [simp]: "sched_add_thread k t sc = sc\<lparr>runlist := runlist sc @ [t]\<rparr>"
  by (cases k) (simp_all add: fg_defs)

lemma sched_next_eq: "sched_next_thread k sc = runlist_remove_from_head sc"
  by (cases k) (simp_all add: fg_defs)

lemma add_to_scheduler_simps [simp]:
  "thread (add_to_scheduler t s) = thread s" "threadlist (add_to_scheduler t s) = threadlist s"
  "sch (add_to_scheduler t s) = (sch s)\<lparr>runlist := runlist (sch s) @ [t]\<rparr>" "kind (add_to_scheduler t s) = kind s"
  "next_thread_addr (add_to_scheduler t s) = next_thread_addr s"
  "num_runnable_threads (add_to_scheduler t s) = num_runnable_threads s"
  "num_suspended_threads (add_to_scheduler t s) = num_suspended_threads s"
  "num_zombie_threads (add_to_scheduler t s) = num_zombie_threads s"
  "num_daemon_threads (add_to_scheduler t s) = num_daemon_threads s"
  "current_thread (add_to_scheduler t s) = current_thread s" "main_thread (add_to_scheduler t s) = main_thread s"
  "in_scheduler (add_to_scheduler t s) = in_scheduler s" "sleepq (add_to_scheduler t s) = sleepq s"
  "max_sleep_time (add_to_scheduler t s) = max_sleep_time s"
  "current_thread_exited (add_to_scheduler t s) = current_thread_exited s"
  by (simp_all add: add_to_scheduler_def)

end
