(* ===== verification/Thread_Inv.thy ===== *)
theory Thread_Inv
  imports Thread_Lib
begin

section \<open>Invariants of the thread library\<close>

text \<open>
  The system of threads as a step relation over the operations of \<open>Thread_Lib\<close>, and the invariant of
  its reachable states: the four counts are the numbers of threads in each state, every runnable
  thread is in exactly one place, joins are consistent.  It implies that no assertion fails in the
  steps of this relation; the text at the relation says which calls they are.
\<close>

subsection \<open>Steps of the system\<close>

text \<open>What the block list holds; empty under the schedulers that have none.\<close>

definition bmap :: "tl \<Rightarrow> int \<rightharpoonup> schedQueue_item" where
  "bmap s = (case blocklist (sch s) of None \<Rightarrow> Map.empty | Some h \<Rightarrow> hsh_map sq_worldrank h)"

text \<open>The current thread is waiting for, or has just been woken by, the end of a thread it joins.\<close>

definition joining :: "tl \<Rightarrow> bool" where
  "joining s \<longleftrightarrow> list_ex (\<lambda>t. join_thread (thread s t) = current_thread s) (threadlist s)"

definition may_run :: "tl \<Rightarrow> bool" where
  "may_run s \<longleftrightarrow> \<not> in_scheduler s \<and> state (thread s (current_thread s)) = RUNNABLE"

text \<open>Memory, a stack size and a coroutine for a new thread.\<close>

definition spawn_enough :: "spawn_env \<Rightarrow> bool" where
  "spawn_enough env \<longleftrightarrow> se_malloc env \<and>
     (case get_stack_size_kb_log2 (conf_new_stack_kb_log2 env) (start_nodes env) (initial_func env) of
        Inl _ \<Rightarrow> False | Inr kb_log2 \<Rightarrow> co_create env kb_log2)"

text \<open>
  The operations a thread performs between two switches, and the rounds of the scheduler.  A rule
  gives the outcome of the code, a fault included; its premises are what callers owe the library,
  and misuse that goes against them reaches assertions of the code: only the running thread calls
  the library; it blocks only under a rank that is not blocked already and is not the rank of the
  progress thread; it spawns only with memory, a stack size and a coroutine left and fewer than
  \<open>HSH_CAPACITY\<close> threads, and starts the progress thread only once; it resumes only a live thread that
  is not waiting in \<^verbatim>\<open>thread_join\<close>; it makes a daemon only of a live thread that has not ended and is
  not the main thread; it joins only another live joinable thread that no thread joins, and after
  joining first finishes the join; it ends the thread and not the whole program.  Suspension with a
  time limit (\<^verbatim>\<open>thread_suspend_self\<close> and \<^verbatim>\<open>thread_usleep\<close> with a timeout, which can fail an assertion,
  theory \<open>Sleep_Queue\<close>) and \<^verbatim>\<open>runlist_init\<close> are not steps.
\<close>

inductive tl_step :: "(nat \<Rightarrow> bool) \<Rightarrow> tl \<Rightarrow> tl outcome \<Rightarrow> bool" for ok where
  Yield: "may_run s \<Longrightarrow> \<not> joining s \<Longrightarrow> tl_step ok s (thread_yield ok s)"
| Block: "may_run s \<Longrightarrow> \<not> joining s \<Longrightarrow> action_on_event ev = BLOCK \<Longrightarrow> bmap s (sq_worldrank ev) = None \<Longrightarrow>
    sq_worldrank ev \<noteq> PROGRESS_THREAD_RANK \<Longrightarrow> tl_step ok s (thread_yield_on_event ok ev s)"
| Notify: "may_run s \<Longrightarrow> \<not> joining s \<Longrightarrow> action_on_event ev = UNBLOCK \<Longrightarrow> tl_step ok s (thread_notify_on_event ev s)"
| Spawn: "may_run s \<Longrightarrow> \<not> joining s \<Longrightarrow> n \<noteq> ''FG_PROGRESS_THREAD'' \<Longrightarrow> length (threadlist s) < HSH_CAPACITY \<Longrightarrow>
    spawn_enough env \<Longrightarrow> tl_step ok s (bind_outcome (thread_spawn_with_attr env (Some n) attr s) (\<lambda>(t, s'). Inr s'))"
| Progress: "may_run s \<Longrightarrow> \<not> joining s \<Longrightarrow> length (threadlist s) < HSH_CAPACITY \<Longrightarrow>
    bmap s PROGRESS_THREAD_RANK = None \<Longrightarrow> \<not> progress_thread_running (sch s) \<Longrightarrow>
    spawn_enough env \<Longrightarrow> tl_step ok s (init_progress_thread ok env s)"
| Suspend: "may_run s \<Longrightarrow> \<not> joining s \<Longrightarrow> tl_step ok s (thread_suspend_self ok 0 now now' s)"
| Resume: "may_run s \<Longrightarrow> \<not> joining s \<Longrightarrow> t \<in> set (threadlist s) \<Longrightarrow>
    (\<forall>u \<in> set (threadlist s). join_thread (thread s u) \<noteq> t) \<Longrightarrow> tl_step ok s (thread_resume t s)"
| Daemon: "may_run s \<Longrightarrow> \<not> joining s \<Longrightarrow> t \<in> set (threadlist s) \<Longrightarrow> state (thread s t) \<noteq> ZOMBIE \<Longrightarrow>
    t \<noteq> main_thread s \<Longrightarrow> tl_step ok s (Inr (thread_set_daemon t s))"
| Join: "may_run s \<Longrightarrow> \<not> joining s \<Longrightarrow> t \<in> set (threadlist s) \<Longrightarrow> t \<noteq> current_thread s \<Longrightarrow> joinable (thread s t) \<Longrightarrow>
    join_thread (thread s t) = NULL \<Longrightarrow>
    tl_step ok s (bind_outcome (thread_join ok t s) (\<lambda>(r, s'). Inr s'))"
| Join_finish: "may_run s \<Longrightarrow> t \<in> set (threadlist s) \<Longrightarrow> join_thread (thread s t) = current_thread s \<Longrightarrow>
    tl_step ok s (bind_outcome (thread_join_finish t s) (\<lambda>(r, s'). Inr s'))"
| Exit: "may_run s \<Longrightarrow> \<not> joining s \<Longrightarrow> \<not> exit_whole_program s \<Longrightarrow> tl_step ok s (thread_exit r s)"
| Schedule: "in_scheduler s \<Longrightarrow> tl_step ok s (do_scheduler now s)"

inductive tl_reachable :: "(nat \<Rightarrow> bool) \<Rightarrow> tl \<Rightarrow> bool" for ok where
  Init: "thread_init ok env = Inr s \<Longrightarrow> tl_reachable ok s"
| Step: "tl_reachable ok s \<Longrightarrow> tl_step ok s (Inr s') \<Longrightarrow> tl_reachable ok s'"

inductive_cases tl_stepE: "tl_step ok s r"

subsection \<open>The invariant\<close>

definition cnt :: "(fgmpi_thread \<Rightarrow> bool) \<Rightarrow> (addr \<Rightarrow> fgmpi_thread) \<Rightarrow> addr list \<Rightarrow> int" where
  "cnt P f ts = int (length (filter (\<lambda>t. P (f t)) ts))"

definition counts_ok :: "tl \<Rightarrow> bool" where
  "counts_ok s \<longleftrightarrow>
     distinct (threadlist s) \<and> (\<forall>t \<in> set (threadlist s). NULL < t \<and> t < next_thread_addr s) \<and>
     NULL < next_thread_addr s \<and>
     (\<forall>t \<in> set (threadlist s). state (thread s t) \<noteq> GHOST) \<and>
     num_runnable_threads s = cnt (\<lambda>x. state x = RUNNABLE) (thread s) (threadlist s) \<and>
     num_suspended_threads s = cnt (\<lambda>x. state x = SUSPENDED) (thread s) (threadlist s) \<and>
     num_zombie_threads s = cnt (\<lambda>x. state x = ZOMBIE) (thread s) (threadlist s) \<and>
     num_daemon_threads s = cnt (\<lambda>x. daemon x \<and> state x \<noteq> ZOMBIE) (thread s) (threadlist s)"

definition sched_ok :: "tl \<Rightarrow> bool" where
  "sched_ok s \<longleftrightarrow> (if kind s = Block_queue then blocked (sch s) (bmap s) else blocklist (sch s) = None)"

definition running :: "tl \<Rightarrow> addr set" where
  "running s = (if may_run s then {current_thread s} else {})"

text \<open>
  Every runnable thread is in exactly one place: it is running, or on the run list once, or
  blocked under one rank.  \<open>placed\<close> says it of a set of running threads, a run list, a block map and
  the set of runnable threads.
\<close>

definition units :: "(int \<rightharpoonup> schedQueue_item) \<Rightarrow> addr set" where
  "units M = {sched_unit x |r x. M r = Some x}"

definition unit_inj :: "(int \<rightharpoonup> schedQueue_item) \<Rightarrow> bool" where
  "unit_inj M \<longleftrightarrow> inj_on (\<lambda>r. sched_unit (the (M r))) (dom M)"

definition placed :: "addr set \<Rightarrow> addr list \<Rightarrow> (int \<rightharpoonup> schedQueue_item) \<Rightarrow> addr set \<Rightarrow> bool" where
  "placed X L M R \<longleftrightarrow>
     distinct L \<and> unit_inj M \<and> set L \<inter> units M = {} \<and> X \<inter> (set L \<union> units M) = {} \<and>
     X \<union> set L \<union> units M = R"

definition runnable :: "tl \<Rightarrow> addr set" where
  "runnable s = {t \<in> set (threadlist s). state (thread s t) = RUNNABLE}"

definition places_ok :: "tl \<Rightarrow> bool" where
  "places_ok s \<longleftrightarrow> placed (running s) (runlist (sch s)) (bmap s) (runnable s)"

definition joins_ok :: "tl \<Rightarrow> bool" where
  "joins_ok s \<longleftrightarrow>
     (\<forall>t \<in> set (threadlist s). join_thread (thread s t) \<noteq> NULL \<longrightarrow>
        joinable (thread s t) \<and> join_thread (thread s t) \<in> set (threadlist s) \<and>
        state (thread s (join_thread (thread s t))) = (if state (thread s t) = ZOMBIE then RUNNABLE else SUSPENDED))"

definition joins_inj :: "tl \<Rightarrow> bool" where
  "joins_inj s \<longleftrightarrow>
     (\<forall>t \<in> set (threadlist s). \<forall>u \<in> set (threadlist s). join_thread (thread s t) \<noteq> NULL \<longrightarrow>
        join_thread (thread s t) = join_thread (thread s u) \<longrightarrow> t = u)"

definition quiet :: "tl \<Rightarrow> bool" where
  "quiet s \<longleftrightarrow> sleepq s = [] \<and> max_sleep_time s = 0 \<and> (\<forall>t \<in> set (threadlist s). sleep (thread s t) = -1) \<and>
     \<not> current_thread_exited s \<and> main_thread s \<in> set (threadlist s) \<and>
     \<not> joinable (thread s (main_thread s)) \<and> \<not> daemon (thread s (main_thread s)) \<and>
     (\<not> in_scheduler s \<longrightarrow> current_thread s \<in> set (threadlist s)) \<and>
     length (threadlist s) \<le> HSH_CAPACITY"

definition thread_inv :: "tl \<Rightarrow> bool" where
  "thread_inv s \<longleftrightarrow> counts_ok s \<and> sched_ok s \<and> places_ok s \<and> joins_ok s \<and> quiet s \<and> joins_inj s"

text \<open>\<open>safe r\<close>: the code did not fault and the invariant holds again.\<close>

definition safe :: "tl outcome \<Rightarrow> bool" where
  "safe r \<longleftrightarrow> (\<exists>s'. r = Inr s' \<and> thread_inv s')"

text \<open>The thread \<^verbatim>\<open>new_thread\<close> makes, before it is handed to a scheduler.\<close>

definition spawned :: "string \<Rightarrow> thread_attr option \<Rightarrow> tl \<Rightarrow> tl" where
  "spawned n attr s =
     (let t = next_thread_addr s;
          th = zero_thread\<lparr>name := n, joinable := (case attr of None \<Rightarrow> True | Some a \<Rightarrow> attr_joinable a),
                 daemon := (case attr of None \<Rightarrow> False | Some a \<Rightarrow> attr_daemon a), tid := max_tid s, sleep := -1\<rparr> in
      s\<lparr>next_thread_addr := t + 1, max_tid := max_tid s + 1, thread := (thread s)(t := th),
        num_daemon_threads := num_daemon_threads s + (if daemon th then 1 else 0),
        threadlist := threadlist s @ [t], num_runnable_threads := num_runnable_threads s + 1\<rparr>)"

text \<open>The state after \<^verbatim>\<open>thread_exit\<close> has turned the current thread into a zombie.\<close>

definition ended :: "tl \<Rightarrow> tl" where
  "ended s =
     (let t = current_thread s;
          s1 = s\<lparr>num_runnable_threads := num_runnable_threads s - 1,
                 num_daemon_threads := num_daemon_threads s - (if daemon (thread s t) then 1 else 0)\<rparr> in
      (set_thread t (\<lambda>x. x\<lparr>state := ZOMBIE\<rparr>) s1)\<lparr>num_zombie_threads := num_zombie_threads s1 + 1\<rparr>)"

subsection \<open>Counting\<close>

lemma cnt_Nil [simp]: "cnt P f [] = 0"
  by (simp add: cnt_def)

lemma cnt_Cons [simp]: "cnt P f (t # ts) = (if P (f t) then 1 else 0) + cnt P f ts"
  by (simp add: cnt_def)

lemma cnt_append [simp]: "cnt P f (ts @ us) = cnt P f ts + cnt P f us"
  by (simp add: cnt_def)

lemma cnt_nonneg [simp]: "0 \<le> cnt P f ts"
  by (simp add: cnt_def)

lemma cnt_upd_other [simp]: "t \<notin> set ts \<Longrightarrow> cnt P (f(t := v)) ts = cnt P f ts"
  unfolding cnt_def by (metis (mono_tags, lifting) filter_cong fun_upd_other)

lemma cnt_upd:
  "distinct ts \<Longrightarrow> t \<in> set ts \<Longrightarrow>
   cnt P (f(t := v)) ts = cnt P f ts - (if P (f t) then 1 else 0) + (if P v then 1 else 0)"
proof (induction ts)
  case Nil
  then show ?case by simp
next
  case (Cons u ts)
  then show ?case by (cases "u = t") (simp_all del: fun_upd_apply add: fun_upd_same fun_upd_other)
qed

lemma cnt_remove1: "t \<in> set ts \<Longrightarrow> cnt P f (remove1 t ts) = cnt P f ts - (if P (f t) then 1 else 0)"
  by (induction ts) auto

lemma cnt_pos: "t \<in> set ts \<Longrightarrow> P (f t) \<Longrightarrow> 0 < cnt P f ts"
  by (induction ts) (auto simp: add_pos_nonneg)

lemma cnt_states:
  "\<forall>t \<in> set ts. state (f t) \<noteq> GHOST \<Longrightarrow>
   cnt (\<lambda>x. state x = RUNNABLE) f ts + cnt (\<lambda>x. state x = SUSPENDED) f ts + cnt (\<lambda>x. state x = ZOMBIE) f ts =
   int (length ts)"
proof (induction ts)
  case Nil
  then show ?case by simp
next
  case (Cons u ts)
  then show ?case by (cases "state (f u)") auto
qed

lemma counts_sanity: "counts_ok s \<Longrightarrow> sanity_check_threadcounts s"
  using cnt_states [of "threadlist s" "thread s"]
  by (simp add: counts_ok_def sanity_check_threadcounts_def)

lemma counts_check [simp]: "counts_ok s \<Longrightarrow> check_threadcounts s = Inr ()"
  by (simp add: check_threadcounts_def counts_sanity)

lemma joins_inj_cong:
  assumes "joins_inj s" "set (threadlist s') \<subseteq> set (threadlist s)"
    "\<And>u. u \<in> set (threadlist s') \<Longrightarrow> join_thread (thread s' u) = join_thread (thread s u)"
  shows "joins_inj s'"
  using assms unfolding joins_inj_def by (metis subset_iff)

lemma inv_joins_inj: "thread_inv s \<Longrightarrow> joins_inj s"
  by (simp add: thread_inv_def)

lemma inv_check: "thread_inv s \<Longrightarrow> check_threadcounts s = Inr ()"
  by (simp add: thread_inv_def)

subsection \<open>Moving threads between places\<close>

lemma units_image: "units M = (\<lambda>r. sched_unit (the (M r))) ` dom M"
  by (force simp: units_def image_def)

lemma unit_in_units: "M r = Some x \<Longrightarrow> sched_unit x \<in> units M"
  by (auto simp: units_def)

lemma units_upd:
  assumes "M r = None"
  shows "units (M(r \<mapsto> x)) = insert (sched_unit x) (units M)"
proof -
  have "(\<lambda>k. sched_unit (the ((M(r \<mapsto> x)) k))) ` dom M = (\<lambda>k. sched_unit (the (M k))) ` dom M"
    using assms by (intro image_cong) auto
  then show ?thesis unfolding units_image by simp
qed

lemma unit_inj_upd:
  assumes "unit_inj M" "M r = None" "sched_unit x \<notin> units M"
  shows "unit_inj (M(r \<mapsto> x))"
proof -
  have "inj_on (\<lambda>k. sched_unit (the ((M(r \<mapsto> x)) k))) (dom M)"
    using assms(1,2) unfolding unit_inj_def by (subst inj_on_cong [of _ _ "\<lambda>k. sched_unit (the (M k))"]) auto
  moreover have "(\<lambda>k. sched_unit (the ((M(r \<mapsto> x)) k))) ` dom M = units M"
    unfolding units_image using assms(2) by (intro image_cong) auto
  ultimately show ?thesis
    using assms(2,3) unfolding unit_inj_def dom_fun_upd by (auto simp: domIff)
qed

lemma unit_inj_del: "unit_inj M \<Longrightarrow> unit_inj (M(r := None))"
  unfolding unit_inj_def
  by (subst inj_on_cong [of _ _ "\<lambda>k. sched_unit (the (M k))"]) (auto elim: inj_on_subset)

lemma units_del:
  assumes "unit_inj M" "M r = Some x"
  shows "units (M(r := None)) = units M - {sched_unit x}"
proof -
  have "units (M(r := None)) = (\<lambda>k. sched_unit (the (M k))) ` (dom M - {r})"
    unfolding units_image by (rule image_cong) auto
  also have "\<dots> = (\<lambda>k. sched_unit (the (M k))) ` dom M - (\<lambda>k. sched_unit (the (M k))) ` {r}"
    using assms unfolding unit_inj_def by (intro inj_on_image_set_diff [where C = "dom M"]) auto
  finally show ?thesis using assms(2) by (simp add: units_image)
qed

lemma placed_yield: "placed {c} L M R \<Longrightarrow> placed {} (L @ [c]) M R"
  by (auto simp: placed_def)

lemma placed_pick: "placed {} (t # L) M R \<Longrightarrow> placed {t} L M R"
  by (auto simp: placed_def)

lemma placed_block: "placed {c} L M R \<Longrightarrow> M r = None \<Longrightarrow> sched_unit x = c \<Longrightarrow> placed {} L (M(r \<mapsto> x)) R"
  using units_upd [of M r x] unit_inj_upd [of M r x] by (auto simp: placed_def)

lemma placed_unblock: "placed X L M R \<Longrightarrow> M r = Some x \<Longrightarrow> placed X (L @ [sched_unit x]) (M(r := None)) R"
  using units_del [of M r x] unit_inj_del [of M r] unit_in_units [of M r x] unfolding placed_def by auto

lemma placed_unblock_any:
  "placed X L M R \<Longrightarrow>
   placed X (case M r of None \<Rightarrow> L | Some x \<Rightarrow> L @ [sched_unit x]) (M(r := None)) R"
  by (cases "M r") (simp_all add: fun_upd_idem placed_unblock)

lemma placed_new: "placed X L M R \<Longrightarrow> t \<notin> R \<Longrightarrow> placed X (L @ [t]) M (insert t R)"
  by (auto simp: placed_def)

lemma placed_new_blocked:
  "placed X L M R \<Longrightarrow> t \<notin> R \<Longrightarrow> M r = None \<Longrightarrow> sched_unit x = t \<Longrightarrow> placed X L (M(r \<mapsto> x)) (insert t R)"
  using units_upd [of M r x] unit_inj_upd [of M r x] by (auto simp: placed_def)

lemma placed_drop: "placed {c} L M R \<Longrightarrow> placed {} L M (R - {c})"
  by (auto simp: placed_def)

lemma placed_card:
  assumes "placed X L M R" "R \<subseteq> set ts" "length ts \<le> n"
  shows "card (dom M) \<le> n"
proof -
  have "card (dom M) \<le> card (set ts)"
  proof (rule card_inj_on_le)
    show "inj_on (\<lambda>k. sched_unit (the (M k))) (dom M)" using assms(1) by (simp add: placed_def unit_inj_def)
    show "(\<lambda>k. sched_unit (the (M k))) ` dom M \<subseteq> set ts"
      unfolding units_image [symmetric] using assms(1,2) by (auto simp: placed_def)
  qed simp
  then show ?thesis using card_length [of ts] assms(3) by linarith
qed

subsection \<open>Every step keeps the invariant\<close>

lemma inv_running:
  assumes "thread_inv s" "may_run s"
  shows "current_thread s \<in> set (threadlist s)" "state (thread s (current_thread s)) = RUNNABLE"
    "\<not> in_scheduler s" "running s = {current_thread s}"
    "placed {current_thread s} (runlist (sch s)) (bmap s) (runnable s)" "0 < current_thread s"
  using assms by (auto simp: thread_inv_def quiet_def may_run_def running_def places_ok_def counts_ok_def)

lemma call_scheduler_plain: "\<not> current_thread_exited s \<Longrightarrow> call_scheduler s = Inr (s\<lparr>in_scheduler := True\<rparr>)"
  by (simp add: call_scheduler_def reap_def)

lemma yield_safe:
  assumes inv: "thread_inv s" "may_run s"
  shows "safe (Inr ((add_to_scheduler (current_thread s) s)\<lparr>in_scheduler := True\<rparr>))"
proof -
  let ?s = "(add_to_scheduler (current_thread s) s)\<lparr>in_scheduler := True\<rparr>"
  note f = inv_running [OF inv]
  have "counts_ok ?s" "joins_ok ?s" "quiet ?s" "joins_inj ?s"
    using inv(1) by (simp_all add: thread_inv_def counts_ok_def joins_ok_def quiet_def joins_inj_def)
  moreover have "sched_ok ?s" using inv(1) by (auto simp: thread_inv_def sched_ok_def bmap_def blocked_def)
  moreover have "places_ok ?s"
    using placed_yield [OF f(5)] by (simp add: places_ok_def running_def may_run_def bmap_def runnable_def)
  ultimately show ?thesis by (simp add: safe_def thread_inv_def)
qed

lemma add_to_scheduler_frame [fg_frame]:
  "running (add_to_scheduler t s) = running s" "runnable (add_to_scheduler t s) = runnable s"
  "bmap (add_to_scheduler t s) = bmap s"
  by (simp_all add: running_def may_run_def runnable_def bmap_def)

lemma sch_frame [fg_frame]: "running (s\<lparr>sch := sc\<rparr>) = running s" "runnable (s\<lparr>sch := sc\<rparr>) = runnable s"
  by (simp_all add: running_def may_run_def runnable_def)

lemma bmap_cong: "sch s' = sch s \<Longrightarrow> bmap s' = bmap s"
  by (simp add: bmap_def)

lemma sched_ok_cong: "sch s' = sch s \<Longrightarrow> kind s' = kind s \<Longrightarrow> sched_ok s' = sched_ok s"
  by (simp add: sched_ok_def bmap_def)

lemma not_exited: "thread_inv s \<Longrightarrow> \<not> current_thread_exited s"
  by (simp add: thread_inv_def quiet_def)

lemma thread_yield_safe:
  assumes "thread_inv s" "may_run s"
  shows "safe (thread_yield ok s)"
  using yield_safe [OF assms] not_exited [OF assms(1)]
  by (simp add: thread_yield_def yield_enter_def call_scheduler_plain)

text \<open>Changing only what the scheduler holds.\<close>

lemma sch_safe:
  assumes inv: "thread_inv s" and p: "placed X (runlist sc) (bmap (s\<lparr>sch := sc\<rparr>)) (runnable s)"
    and b: "kind s = Block_queue \<Longrightarrow> blocked sc (bmap (s\<lparr>sch := sc\<rparr>))" "kind s \<noteq> Block_queue \<Longrightarrow> blocklist sc = None"
  shows "X = running s \<Longrightarrow> thread_inv (s\<lparr>sch := sc\<rparr>)"
    "X = {} \<Longrightarrow> thread_inv (s\<lparr>sch := sc, in_scheduler := True\<rparr>)"
proof -
  have *: "counts_ok (s\<lparr>sch := sc\<rparr>)" "joins_ok (s\<lparr>sch := sc\<rparr>)" "quiet (s\<lparr>sch := sc\<rparr>)"
    "counts_ok (s\<lparr>sch := sc, in_scheduler := True\<rparr>)" "joins_ok (s\<lparr>sch := sc, in_scheduler := True\<rparr>)"
    "quiet (s\<lparr>sch := sc, in_scheduler := True\<rparr>)" "joins_inj (s\<lparr>sch := sc\<rparr>)"
    "joins_inj (s\<lparr>sch := sc, in_scheduler := True\<rparr>)"
    using inv by (simp_all add: thread_inv_def counts_ok_def joins_ok_def quiet_def joins_inj_def)
  have bm: "bmap (s\<lparr>sch := sc, in_scheduler := True\<rparr>) = bmap (s\<lparr>sch := sc\<rparr>)" by (simp add: bmap_def)
  have so: "sched_ok (s\<lparr>sch := sc\<rparr>)" "sched_ok (s\<lparr>sch := sc, in_scheduler := True\<rparr>)"
    using b by (auto simp: sched_ok_def bm)
  show "thread_inv (s\<lparr>sch := sc\<rparr>)" if "X = running s"
    using p that * so by (auto simp: thread_inv_def places_ok_def running_def may_run_def runnable_def)
  show "thread_inv (s\<lparr>sch := sc, in_scheduler := True\<rparr>)" if "X = {}"
    using p that * so by (simp add: thread_inv_def places_ok_def running_def may_run_def runnable_def bm)
qed

lemma blocked_bmap: "blocked sc M \<Longrightarrow> bmap (s\<lparr>sch := sc\<rparr>) = M"
  by (auto simp: blocked_def bmap_def hsh_rep_def)

lemma inv_card: "thread_inv s \<Longrightarrow> placed X L M (runnable s) \<Longrightarrow> card (dom M) \<le> HSH_CAPACITY"
  by (rule placed_card [of X L M "runnable s" "threadlist s"])
    (auto simp: thread_inv_def quiet_def runnable_def)

text \<open>The first blocking thread starts the progress thread.\<close>

lemma start_progress_placed:
  assumes b: "blocked sc M" and p: "placed X (runlist sc) M R"
  shows "\<exists>sc' M'. sched_block_queue_start_progress_thread sc = Inr sc' \<and> blocked sc' M' \<and>
    placed X (runlist sc') M' R \<and> (\<forall>r. r \<noteq> PROGRESS_THREAD_RANK \<longrightarrow> M' r = M r)"
proof (cases "progress_thread_running sc")
  case True
  then show ?thesis using b p by (auto simp: sched_block_queue_start_progress_thread_def)
next
  case False
  let ?ev = "\<lparr>sq_worldrank = PROGRESS_THREAD_RANK, mpi_state_on_event = INIT, action_on_event = UNBLOCK, sched_unit = NULL\<rparr>"
  obtain sc' where sc': "sched_block_queue_unblock_thread ?ev sc = Inr sc'"
    "blocked sc' (M(PROGRESS_THREAD_RANK := None))"
    "runlist sc' = (case M PROGRESS_THREAD_RANK of None \<Rightarrow> runlist sc | Some x \<Rightarrow> runlist sc @ [sched_unit x])"
    using unblock_thread_blocked [OF b, of ?ev] by auto
  have "blocked (sc'\<lparr>progress_thread_running := True\<rparr>) (M(PROGRESS_THREAD_RANK := None))"
    using sc'(2) by (simp add: blocked_def)
  moreover have "placed X (runlist sc') (M(PROGRESS_THREAD_RANK := None)) R"
    using placed_unblock_any [OF p, of PROGRESS_THREAD_RANK] sc'(3) by simp
  ultimately show ?thesis
    using False sc'(1)
    by (intro exI [of _ "sc'\<lparr>progress_thread_running := True\<rparr>"] exI [of _ "M(PROGRESS_THREAD_RANK := None)"])
      (simp add: sched_block_queue_start_progress_thread_def)
qed

lemma thread_block_safe:
  assumes inv: "thread_inv s" "may_run s" and ok: "\<forall>k \<in> set table_sizes. ok k"
    and ev: "action_on_event ev = BLOCK" "bmap s (sq_worldrank ev) = None" "sq_worldrank ev \<noteq> PROGRESS_THREAD_RANK"
  shows "safe (thread_yield_on_event ok ev s)"
proof (cases "kind s = Block_queue")
  case False
  then have "sched_start_progress_thread (kind s) (sch s) = Inr (sch s)"
    "sched_block_thread ok (kind s) c c e (sch s) = Inr ((sch s)\<lparr>runlist := runlist (sch s) @ [c]\<rparr>)" for c e
    by (cases "kind s"; simp add: fg_defs)+
  moreover have "add_to_scheduler (current_thread s) s = s\<lparr>sch := (sch s)\<lparr>runlist := runlist (sch s) @ [current_thread s]\<rparr>\<rparr>"
    by (simp add: add_to_scheduler_def)
  ultimately show ?thesis
    using yield_safe [OF inv] not_exited [OF inv(1)] ev(1)
    by (simp add: thread_yield_on_event_def yield_enter_def call_scheduler_plain)
next
  case True
  note f = inv_running [OF inv]
  have b: "blocked (sch s) (bmap s)" using inv(1) True by (simp add: thread_inv_def sched_ok_def)
  let ?ev = "ev\<lparr>sched_unit := current_thread s\<rparr>"
  obtain sc1 M1 where 1: "sched_block_queue_start_progress_thread (sch s) = Inr sc1" "blocked sc1 M1"
    "placed {current_thread s} (runlist sc1) M1 (runnable s)" "M1 (sq_worldrank ev) = None"
    using start_progress_placed [OF b f(5)] ev(2,3) by metis
  obtain sc2 where 2: "sched_block_queue_block_thread ok (current_thread s) (current_thread s) ?ev sc1 = Inr sc2"
    "blocked sc2 (M1(sq_worldrank ev \<mapsto> ?ev))" "runlist sc2 = runlist sc1"
    using block_thread_blocked [OF 1(2) ok inv_card [OF inv(1) 1(3)], of ?ev "current_thread s" "current_thread s"] 1(4)
    by auto
  have "placed {} (runlist sc2) (M1(sq_worldrank ev \<mapsto> ?ev)) (runnable s)"
    unfolding 2(3) by (rule placed_block [OF 1(3,4)]) simp
  then have "thread_inv (s\<lparr>sch := sc2, in_scheduler := True\<rparr>)"
    using sch_safe(2) [OF inv(1), of "{}" sc2] 2(2) blocked_bmap [OF 2(2)] True by simp
  then show ?thesis
    using 1(1) 2(1) True ev(1) not_exited [OF inv(1)]
    by (simp add: thread_yield_on_event_def yield_enter_def call_scheduler_plain safe_def)
qed

lemma thread_notify_safe:
  assumes inv: "thread_inv s" and ev: "action_on_event ev = UNBLOCK"
  shows "safe (thread_notify_on_event ev s)"
proof (cases "kind s = Block_queue")
  case False
  then have "sched_unblock_thread (kind s) ev (sch s) = Inr (sch s)" by (cases "kind s"; simp add: fg_defs)
  then show ?thesis using inv ev by (simp add: thread_notify_on_event_def safe_def)
next
  case True
  have b: "blocked (sch s) (bmap s)" using inv True by (simp add: thread_inv_def sched_ok_def)
  have p: "placed (running s) (runlist (sch s)) (bmap s) (runnable s)" using inv by (simp add: thread_inv_def places_ok_def)
  obtain sc where sc: "sched_block_queue_unblock_thread ev (sch s) = Inr sc"
    "blocked sc ((bmap s)(sq_worldrank ev := None))"
    "runlist sc = (case bmap s (sq_worldrank ev) of None \<Rightarrow> runlist (sch s) | Some x \<Rightarrow> runlist (sch s) @ [sched_unit x])"
    using unblock_thread_blocked [OF b, of ev] by auto
  have "thread_inv (s\<lparr>sch := sc\<rparr>)"
    using sch_safe(1) [OF inv, of "running s" sc] placed_unblock_any [OF p, of "sq_worldrank ev"] sc(2,3)
      blocked_bmap [OF sc(2)] True by simp
  then show ?thesis using sc(1) True ev by (simp add: thread_notify_on_event_def safe_def)
qed

lemma next_fresh:
  assumes "thread_inv s"
  shows "next_thread_addr s \<notin> set (threadlist s)" "next_thread_addr s \<notin> runnable s" "0 < next_thread_addr s"
  using assms by (auto simp: thread_inv_def counts_ok_def runnable_def)

lemma spawned_parts:
  assumes inv: "thread_inv s" and room: "length (threadlist s) < HSH_CAPACITY"
  shows "counts_ok (spawned n attr s)" "joins_ok (spawned n attr s)" "quiet (spawned n attr s)"
    "sched_ok (spawned n attr s)" "sch (spawned n attr s) = sch s" "kind (spawned n attr s) = kind s"
    "runnable (spawned n attr s) = insert (next_thread_addr s) (runnable s)"
    "running (spawned n attr s) = running s" "bmap (spawned n attr s) = bmap s" "joins_inj (spawned n attr s)"
proof -
  note f = next_fresh [OF inv]
  have c: "counts_ok s" "joins_ok s" "quiet s" "sched_ok s" using inv by (simp_all add: thread_inv_def)
  have eq: "thread (spawned n attr s) u = thread s u" if "u \<in> set (threadlist s)" for u
    using that f(1) by (auto simp: spawned_def Let_def)
  show "counts_ok (spawned n attr s)"
    using c(1) f(1,3) unfolding counts_ok_def spawned_def Let_def
    by (auto simp: zero_thread_def simp del: fun_upd_apply) (auto simp: less_SucI)
  have new: "thread (spawned n attr s) (next_thread_addr s) =
      zero_thread\<lparr>name := n, joinable := (case attr of None \<Rightarrow> True | Some a \<Rightarrow> attr_joinable a),
                 daemon := (case attr of None \<Rightarrow> False | Some a \<Rightarrow> attr_daemon a), tid := max_tid s, sleep := -1\<rparr>"
    and tl: "threadlist (spawned n attr s) = threadlist s @ [next_thread_addr s]"
    by (simp_all add: spawned_def Let_def)
  show "joins_ok (spawned n attr s)"
    unfolding joins_ok_def tl using c(2) eq new by (auto simp: joins_ok_def zero_thread_def)
  show "joins_inj (spawned n attr s)"
    unfolding joins_inj_def tl using inv_joins_inj [OF inv] eq new by (auto simp: joins_inj_def zero_thread_def)
  have same: "sleepq (spawned n attr s) = sleepq s" "max_sleep_time (spawned n attr s) = max_sleep_time s"
    "current_thread_exited (spawned n attr s) = current_thread_exited s" "main_thread (spawned n attr s) = main_thread s"
    "in_scheduler (spawned n attr s) = in_scheduler s" "current_thread (spawned n attr s) = current_thread s"
    by (simp_all add: spawned_def Let_def)
  show "quiet (spawned n attr s)"
    using c(3) room eq [of "main_thread s"] eq new unfolding quiet_def tl same by (auto simp: zero_thread_def)
  show sch: "sch (spawned n attr s) = sch s" "kind (spawned n attr s) = kind s" by (simp_all add: spawned_def Let_def)
  then show bm: "bmap (spawned n attr s) = bmap s" by (simp add: bmap_def)
  show "sched_ok (spawned n attr s)" using c(4) sch bm by (simp add: sched_ok_def)
  show "runnable (spawned n attr s) = insert (next_thread_addr s) (runnable s)"
    unfolding runnable_def tl using eq new by (auto simp: zero_thread_def)
  have "thread (spawned n attr s) (current_thread s) = thread s (current_thread s)" if "\<not> in_scheduler s"
    using that c(3) eq by (simp add: quiet_def)
  then show "running (spawned n attr s) = running s"
    unfolding running_def may_run_def same by auto
qed

lemma new_thread_spawned:
  assumes inv: "thread_inv s" and room: "length (threadlist s) < HSH_CAPACITY" and env: "spawn_enough env"
  shows "new_thread env (Some n) attr s = Inr (next_thread_addr s,
     if n \<noteq> ''FG_PROGRESS_THREAD'' then add_to_scheduler (next_thread_addr s) (spawned n attr s) else spawned n attr s)"
proof -
  let ?s = "if n \<noteq> ''FG_PROGRESS_THREAD'' then add_to_scheduler (next_thread_addr s) (spawned n attr s) else spawned n attr s"
  obtain k where "se_malloc env" "co_create env k"
    "get_stack_size_kb_log2 (conf_new_stack_kb_log2 env) (start_nodes env) (initial_func env) = Inr k"
    using env by (auto simp: spawn_enough_def split: sum.splits)
  then have e: "new_thread env (Some n) attr s = bind_outcome (check_threadcounts ?s) (\<lambda>_. Inr (next_thread_addr s, ?s))"
    by (cases attr; cases "n = ''FG_PROGRESS_THREAD''") (simp_all add: new_thread_def spawned_def Let_def zero_thread_def)
  have "check_threadcounts ?s = check_threadcounts (spawned n attr s)"
    by (simp add: check_threadcounts_def sanity_check_threadcounts_def)
  then show ?thesis using e spawned_parts(1) [OF inv room] by simp
qed

lemma thread_spawn_safe:
  assumes inv: "thread_inv s" and room: "length (threadlist s) < HSH_CAPACITY" and n: "n \<noteq> ''FG_PROGRESS_THREAD''"
    and env: "spawn_enough env"
  shows "safe (bind_outcome (thread_spawn_with_attr env (Some n) attr s) (\<lambda>(t, s'). Inr s'))"
proof -
  let ?s = "spawned n attr s" and ?t = "next_thread_addr s"
  note p = spawned_parts [OF inv room, of n attr]
  have "placed (running s) (runlist (sch s) @ [?t]) (bmap s) (insert ?t (runnable s))"
    using inv by (intro placed_new next_fresh(2)) (simp_all add: thread_inv_def places_ok_def)
  then have "places_ok (add_to_scheduler ?t ?s)"
    using p(5,7-9) by (simp add: places_ok_def fg_frame)
  moreover have "sched_ok (add_to_scheduler ?t ?s)" using p(4) by (auto simp: sched_ok_def bmap_def blocked_def)
  moreover have "counts_ok (add_to_scheduler ?t ?s)" "joins_ok (add_to_scheduler ?t ?s)" "quiet (add_to_scheduler ?t ?s)"
    "joins_inj (add_to_scheduler ?t ?s)"
    using p(1-3,10) by (simp_all add: counts_ok_def joins_ok_def quiet_def joins_inj_def)
  ultimately show ?thesis
    using new_thread_spawned [OF inv room env, of n attr] n
    by (simp add: thread_spawn_with_attr_def safe_def thread_inv_def)
qed

lemma progress_safe:
  assumes inv: "thread_inv s" and room: "length (threadlist s) < HSH_CAPACITY" and ok: "\<forall>k \<in> set table_sizes. ok k"
    and no: "bmap s PROGRESS_THREAD_RANK = None" "\<not> progress_thread_running (sch s)"
    and env: "spawn_enough env"
  shows "safe (init_progress_thread ok env s)"
proof (cases "kind s = Block_queue")
  case False
  then show ?thesis using inv by (simp add: init_progress_thread_def safe_def)
next
  case True
  let ?n = "''FG_PROGRESS_THREAD''" and ?t = "next_thread_addr s"
  let ?s = "spawned ?n None s"
  let ?ev = "\<lparr>sq_worldrank = PROGRESS_THREAD_RANK, mpi_state_on_event = INIT, action_on_event = BLOCK, sched_unit = ?t\<rparr>"
  note p = spawned_parts [OF inv room, of ?n None] and f = next_fresh [OF inv]
  have b: "blocked (sch s) (bmap s)" using inv True by (simp add: thread_inv_def sched_ok_def)
  have pl: "placed (running s) (runlist (sch s)) (bmap s) (runnable s)" using inv by (simp add: thread_inv_def places_ok_def)
  obtain h where h: "blocklist (sch s) = Some h" "sq_rep h (bmap s)" using b by (auto simp: blocked_def)
  obtain h' where h': "SchedulerHashInsert ok h PROGRESS_THREAD_RANK INIT BLOCK ?t = Inr h'"
    "sq_rep h' ((bmap s)(PROGRESS_THREAD_RANK \<mapsto> ?ev))"
    using SchedulerHashInsert_map [OF h(2) ok inv_card [OF inv pl], of PROGRESS_THREAD_RANK INIT BLOCK ?t] no(1) by auto
  let ?sc = "(sch s)\<lparr>progress_thread := ?t, blocklist := Some h'\<rparr>"
  have bm: "bmap (?s\<lparr>sch := ?sc\<rparr>) = (bmap s)(PROGRESS_THREAD_RANK \<mapsto> ?ev)"
    using h'(2) by (simp add: bmap_def hsh_rep_def)
  have "blocked ?sc ((bmap s)(PROGRESS_THREAD_RANK \<mapsto> ?ev))" using h'(2) by (auto simp: blocked_def)
  then have "sched_ok (?s\<lparr>sch := ?sc\<rparr>)" using True p(6) by (simp add: sched_ok_def bm)
  moreover have "placed (running s) (runlist (sch s)) ((bmap s)(PROGRESS_THREAD_RANK \<mapsto> ?ev)) (insert ?t (runnable s))"
    using pl f(2) no(1) by (intro placed_new_blocked) simp_all
  then have "places_ok (?s\<lparr>sch := ?sc\<rparr>)"
    using p(7,8) by (simp add: places_ok_def bm fg_frame)
  moreover have "counts_ok (?s\<lparr>sch := ?sc\<rparr>)" "joins_ok (?s\<lparr>sch := ?sc\<rparr>)" "quiet (?s\<lparr>sch := ?sc\<rparr>)"
    "joins_inj (?s\<lparr>sch := ?sc\<rparr>)"
    using p(1-3,10) by (simp_all add: counts_ok_def joins_ok_def quiet_def joins_inj_def)
  moreover have "init_progress_thread ok env s = Inr (?s\<lparr>sch := ?sc\<rparr>)"
    using new_thread_spawned [OF inv room env, of ?n None] True no(2) h(1) h'(1) f(3) p(5)
    by (simp add: init_progress_thread_def thread_spawn_def sched_block_queue_init_progress_thread_def the_blocklist_def)
  ultimately show ?thesis by (simp add: safe_def thread_inv_def)
qed

text \<open>A runnable thread becomes suspended, a suspended thread becomes runnable.\<close>

lemma not_joining: "\<not> joining s \<Longrightarrow> u \<in> set (threadlist s) \<Longrightarrow> join_thread (thread s u) \<noteq> current_thread s"
  by (simp add: joining_def list_ex_iff)

lemma suspend_safe:
  assumes inv: "thread_inv s" "may_run s" "\<not> joining s"
  shows "safe (thread_suspend_self ok 0 now now' s)"
proof -
  let ?c = "current_thread s"
  let ?s1 = "s\<lparr>num_suspended_threads := num_suspended_threads s + 1, num_runnable_threads := num_runnable_threads s - 1\<rparr>"
  let ?s = "(set_thread ?c (\<lambda>x. x\<lparr>state := SUSPENDED\<rparr>) ?s1)\<lparr>in_scheduler := True\<rparr>"
  note f = inv_running [OF inv(1,2)]
  have c: "counts_ok s" "joins_ok s" "quiet s" "sched_ok s" using inv(1) by (simp_all add: thread_inv_def)
  have "0 < cnt (\<lambda>x. state x = RUNNABLE) (thread s) (threadlist s)" using f(1,2) by (rule cnt_pos)
  then have "check_threadcounts ?s1 = Inr ()"
    using counts_sanity [OF c(1)] c(1)
    by (simp add: check_threadcounts_def sanity_check_threadcounts_def counts_ok_def)
  then have e: "thread_suspend_self ok 0 now now' s = Inr ?s"
    using c(3) by (simp add: thread_suspend_self_def yield_enter_def call_scheduler_plain quiet_def)
  have "counts_ok ?s" using c(1) f(1,2) unfolding counts_ok_def by (simp add: cnt_upd del: fun_upd_apply) auto
  moreover have "joins_ok ?s"
    using c(2) not_joining [OF inv(3)] f(2) unfolding joins_ok_def by auto
  moreover have "quiet ?s" using c(3) by (auto simp: quiet_def)
  moreover have "joins_inj ?s" by (rule joins_inj_cong [OF inv_joins_inj [OF inv(1)]]) auto
  moreover have "sched_ok ?s" using c(4) sched_ok_cong [of ?s s] by simp
  moreover have "runnable ?s = runnable s - {?c}" by (auto simp: runnable_def)
  then have "places_ok ?s"
    using placed_drop [OF f(5)] by (simp add: places_ok_def running_def may_run_def bmap_def)
  ultimately show ?thesis by (simp add: e safe_def thread_inv_def)
qed

text \<open>Resuming: \<open>t\<close> is suspended, and the only thread whose join it is waiting for, if any, has ended.\<close>

lemma resume_safe:
  assumes parts: "counts_ok s" "quiet s" "sched_ok s" "places_ok s" "joins_inj s"
    and t: "t \<in> set (threadlist s)" "state (thread s t) = SUSPENDED" and ne: "t \<noteq> current_thread s"
    and j: "\<And>u. u \<in> set (threadlist s) \<Longrightarrow> join_thread (thread s u) \<noteq> NULL \<Longrightarrow>
      joinable (thread s u) \<and> join_thread (thread s u) \<in> set (threadlist s) \<and>
      (if join_thread (thread s u) = t then state (thread s u) = ZOMBIE
       else state (thread s (join_thread (thread s u))) = (if state (thread s u) = ZOMBIE then RUNNABLE else SUSPENDED))"
  shows "\<exists>s'. thread_resume t s = Inr s' \<and> thread_inv s' \<and> current_thread s' = current_thread s \<and>
    thread s' (current_thread s) = thread s (current_thread s)"
proof -
  let ?s1 = "s\<lparr>num_suspended_threads := num_suspended_threads s - 1, num_runnable_threads := num_runnable_threads s + 1\<rparr>"
  let ?s2 = "set_thread t (\<lambda>x. x\<lparr>state := RUNNABLE\<rparr>) ?s1"
  let ?s = "add_to_scheduler t ?s2"
  have "0 < cnt (\<lambda>x. state x = SUSPENDED) (thread s) (threadlist s)" using t by (rule cnt_pos)
  then have "check_threadcounts ?s1 = Inr ()"
    using counts_sanity [OF parts(1)] parts(1)
    by (simp add: check_threadcounts_def sanity_check_threadcounts_def counts_ok_def)
  moreover have sl: "sleep (thread s t) = -1" using parts(2) t(1) by (simp add: quiet_def)
  ultimately have e: "thread_resume t s = Inr ?s"
    using t(2) by (simp add: thread_resume_def u_thread_resume_def Let_def)
  have "counts_ok ?s" using parts(1) t unfolding counts_ok_def by (simp add: cnt_upd del: fun_upd_apply) auto
  moreover have "joins_ok ?s"
    unfolding joins_ok_def
  proof (intro ballI impI)
    fix u assume u: "u \<in> set (threadlist ?s)" "join_thread (thread ?s u) \<noteq> NULL"
    have "join_thread (thread ?s u) = join_thread (thread s u)" "joinable (thread ?s u) = joinable (thread s u)"
      "state (thread ?s u) = ZOMBIE \<longleftrightarrow> state (thread s u) = ZOMBIE" using t(2) by auto
    then show "joinable (thread ?s u) \<and> join_thread (thread ?s u) \<in> set (threadlist ?s) \<and>
        state (thread ?s (join_thread (thread ?s u))) = (if state (thread ?s u) = ZOMBIE then RUNNABLE else SUSPENDED)"
      using j [of u] u by (auto split: if_splits)
  qed
  moreover have "quiet ?s" using parts(2) by (auto simp: quiet_def)
  moreover have "joins_inj ?s" by (rule joins_inj_cong [OF parts(5)]) auto
  moreover have "sched_ok ?s" using parts(3) by (auto simp: sched_ok_def bmap_def blocked_def)
  moreover have "runnable ?s = insert t (runnable s)" "t \<notin> runnable s" using t by (auto simp: runnable_def)
  then have "places_ok ?s"
    using placed_new [of "running s" "runlist (sch s)" "bmap s" "runnable s" t] parts(4) ne
    by (auto simp: places_ok_def running_def may_run_def bmap_def)
  ultimately show ?thesis using ne by (simp add: e thread_inv_def)
qed

lemma thread_resume_safe:
  assumes inv: "thread_inv s" "may_run s"
    and t: "t \<in> set (threadlist s)" "\<forall>u \<in> set (threadlist s). join_thread (thread s u) \<noteq> t"
  shows "safe (thread_resume t s)"
proof (cases "state (thread s t) = SUSPENDED")
  case False
  have "sleep (thread s t) = -1" using inv t(1) by (simp add: thread_inv_def quiet_def)
  then show ?thesis using False inv by (simp add: thread_resume_def u_thread_resume_def safe_def)
next
  case True
  have p: "counts_ok s" "quiet s" "sched_ok s" "places_ok s" "joins_inj s" "joins_ok s"
    using inv by (simp_all add: thread_inv_def)
  have "t \<noteq> current_thread s" using True inv(2) by (auto simp: may_run_def)
  then have "\<exists>s'. thread_resume t s = Inr s' \<and> thread_inv s' \<and> current_thread s' = current_thread s \<and>
    thread s' (current_thread s) = thread s (current_thread s)"
    by (rule resume_safe [OF p(1-5) t(1) True]) (use p(6) t(2) in \<open>auto simp: joins_ok_def\<close>)
  then show ?thesis by (auto simp: safe_def)
qed

lemma daemon_safe:
  assumes inv: "thread_inv s" and t: "t \<in> set (threadlist s)" "state (thread s t) \<noteq> ZOMBIE" "t \<noteq> main_thread s"
  shows "safe (Inr (thread_set_daemon t s))"
proof (cases "daemon (thread s t)")
  case True
  then show ?thesis using inv by (simp add: thread_set_daemon_def safe_def)
next
  case False
  let ?s = "(set_thread t (\<lambda>x. x\<lparr>daemon := True\<rparr>) s)\<lparr>num_daemon_threads := num_daemon_threads s + 1\<rparr>"
  have p: "counts_ok s" "quiet s" "sched_ok s" "places_ok s" "joins_ok s" using inv by (simp_all add: thread_inv_def)
  have st: "state (thread ?s u) = state (thread s u)" "join_thread (thread ?s u) = join_thread (thread s u)"
    "joinable (thread ?s u) = joinable (thread s u)" for u by simp_all
  have "counts_ok ?s" using p(1) t False unfolding counts_ok_def by (simp add: cnt_upd del: fun_upd_apply) auto
  moreover have "joins_ok ?s" using p(5) unfolding joins_ok_def st by simp
  moreover have "quiet ?s" using p(2) t(3) by (auto simp: quiet_def)
  moreover have "joins_inj ?s" by (rule joins_inj_cong [OF inv_joins_inj [OF inv]]) auto
  moreover have "sched_ok ?s" using p(3) sched_ok_cong [of ?s s] by simp
  moreover have "running ?s = running s" unfolding running_def may_run_def st by simp
  then have "places_ok ?s" using p(4) bmap_cong [of ?s s] unfolding places_ok_def runnable_def st by simp
  ultimately show ?thesis using False by (simp add: thread_set_daemon_def safe_def thread_inv_def)
qed

text \<open>Freeing a thread that has ended.\<close>

lemma free_safe:
  assumes parts: "counts_ok s" "sched_ok s" "places_ok s" "joins_inj s"
    and q: "sleepq s = []" "max_sleep_time s = 0" "\<forall>u \<in> set (threadlist s). sleep (thread s u) = -1"
      "\<not> current_thread_exited s" "main_thread s \<in> set (threadlist s)" "\<not> joinable (thread s (main_thread s))"
      "\<not> daemon (thread s (main_thread s))" "\<not> in_scheduler s \<Longrightarrow> current_thread s \<in> set (threadlist s)"
      "length (threadlist s) \<le> HSH_CAPACITY"
    and t: "t \<in> set (threadlist s)" "state (thread s t) = ZOMBIE" "t \<noteq> main_thread s"
      "\<not> in_scheduler s \<Longrightarrow> t \<noteq> current_thread s"
    and j: "\<And>u. u \<in> set (threadlist s) \<Longrightarrow> u \<noteq> t \<Longrightarrow> join_thread (thread s u) \<noteq> NULL \<Longrightarrow>
      joinable (thread s u) \<and> join_thread (thread s u) \<in> set (threadlist s) \<and>
      state (thread s (join_thread (thread s u))) = (if state (thread s u) = ZOMBIE then RUNNABLE else SUSPENDED)"
  shows "safe (free_thread t s)"
proof -
  let ?s = "(set_thread t (\<lambda>x. x\<lparr>state := GHOST\<rparr>) (s\<lparr>threadlist := remove1 t (threadlist s)\<rparr>))
      \<lparr>num_zombie_threads := num_zombie_threads s - 1\<rparr>"
  have e: "free_thread t s = Inr ?s" using t(2) by (simp add: free_thread_def Let_def)
  have d: "distinct (threadlist s)" using parts(1) by (simp add: counts_ok_def)
  have rem: "set (threadlist ?s) = set (threadlist s) - {t}" using d by simp
  have th: "thread ?s u = thread s u" if "u \<noteq> t" for u using that by simp
  have "counts_ok ?s"
    using parts(1) t(1,2) unfolding counts_ok_def
    by (simp add: cnt_remove1 cnt_upd del: fun_upd_apply add: fun_upd_same) auto
  moreover have "joins_ok ?s"
    unfolding joins_ok_def rem
  proof (intro ballI impI)
    fix u assume u: "u \<in> set (threadlist s) - {t}" "join_thread (thread ?s u) \<noteq> NULL"
    then have j': "joinable (thread s u)" "join_thread (thread s u) \<in> set (threadlist s)"
      "state (thread s (join_thread (thread s u))) = (if state (thread s u) = ZOMBIE then RUNNABLE else SUSPENDED)"
      using j [of u] by auto
    have "join_thread (thread s u) \<noteq> t" using j'(3) t(2) by (auto split: if_splits)
    then show "joinable (thread ?s u) \<and> join_thread (thread ?s u) \<in> set (threadlist s) - {t} \<and>
        state (thread ?s (join_thread (thread ?s u))) = (if state (thread ?s u) = ZOMBIE then RUNNABLE else SUSPENDED)"
      using j' u(1) by auto
  qed
  moreover have "quiet ?s" using q t d unfolding quiet_def by (auto simp: length_remove1)
  moreover have "joins_inj ?s" by (rule joins_inj_cong [OF parts(4)]) (use d in auto)
  moreover have "sched_ok ?s" using parts(2) sched_ok_cong [of ?s s] by simp
  moreover have "runnable ?s = runnable s" unfolding runnable_def rem using t(2) by auto
  moreover have "running ?s = running s" unfolding running_def may_run_def using t(4) by auto
  ultimately show ?thesis
    using parts(3) bmap_cong [of ?s s] by (simp add: e safe_def thread_inv_def places_ok_def)
qed

lemma free_joined_safe:
  assumes inv: "thread_inv s" "may_run s" and t: "t \<in> set (threadlist s)" "state (thread s t) = ZOMBIE" "t \<noteq> main_thread s"
  shows "safe (free_thread t s)"
proof (rule free_safe)
  show "t \<in> set (threadlist s)" "state (thread s t) = ZOMBIE" "t \<noteq> main_thread s" by (rule t)+
  show "t \<noteq> current_thread s" using t(2) inv(2) by (auto simp: may_run_def)
qed (use inv(1) in \<open>simp_all add: thread_inv_def quiet_def joins_ok_def\<close>)

lemma join_finish_safe:
  assumes inv: "thread_inv s" "may_run s" and t: "t \<in> set (threadlist s)" "join_thread (thread s t) = current_thread s"
  shows "safe (bind_outcome (thread_join_finish t s) (\<lambda>(r, s'). Inr s'))"
proof -
  note f = inv_running [OF inv]
  have j: "joinable (thread s t)" "state (thread s (current_thread s)) = (if state (thread s t) = ZOMBIE then RUNNABLE else SUSPENDED)"
    using inv(1) t f(6) by (auto simp: thread_inv_def joins_ok_def)
  have "state (thread s t) = ZOMBIE" using j(2) f(2) by (auto split: if_splits)
  moreover have "t \<noteq> main_thread s" using j(1) inv(1) by (auto simp: thread_inv_def quiet_def)
  ultimately have "safe (free_thread t s)" using free_joined_safe [OF inv t(1)] by blast
  then show ?thesis by (auto simp: safe_def thread_join_finish_def)
qed

text \<open>Joining a thread that has ended, or waiting for one that has not.\<close>

lemma thread_join_safe:
  assumes inv: "thread_inv s" "may_run s" "\<not> joining s"
    and t: "t \<in> set (threadlist s)" "t \<noteq> current_thread s" "joinable (thread s t)" "join_thread (thread s t) = NULL"
  shows "safe (bind_outcome (thread_join ok t s) (\<lambda>(r, s'). Inr s'))"
proof -
  let ?c = "current_thread s"
  let ?s1 = "set_thread t (\<lambda>x. x\<lparr>join_thread := ?c\<rparr>) s"
  note f = inv_running [OF inv(1,2)]
  have p: "counts_ok s" "quiet s" "sched_ok s" "places_ok s" "joins_ok s" using inv by (simp_all add: thread_inv_def)
  have t0: "t \<noteq> NULL" "state (thread s t) \<noteq> GHOST" using p(1) t(1) by (auto simp: counts_ok_def)
  have st: "state (thread ?s1 u) = state (thread s u)" "daemon (thread ?s1 u) = daemon (thread s u)"
    "joinable (thread ?s1 u) = joinable (thread s u)" "sleep (thread ?s1 u) = sleep (thread s u)" for u by simp_all
  have c1: "counts_ok ?s1" using p(1) t unfolding counts_ok_def by (simp add: cnt_upd del: fun_upd_apply) auto
  have s1: "sched_ok ?s1" using p(3) sched_ok_cong [of ?s1 s] by simp
  have run: "running ?s1 = running s" "runnable ?s1 = runnable s"
    unfolding running_def may_run_def runnable_def st by simp_all
  have pl1: "places_ok ?s1" using p(4) bmap_cong [of ?s1 s] by (simp add: places_ok_def run)
  have ji1: "joins_inj ?s1"
  proof -
    have no: "\<forall>u \<in> set (threadlist s). join_thread (thread s u) \<noteq> ?c" using not_joining [OF inv(3)] by blast
    show ?thesis using inv_joins_inj [OF inv(1)] no t unfolding joins_inj_def by auto
  qed
  have main: "t \<noteq> main_thread s" using t(3) p(2) by (auto simp: quiet_def)
  show ?thesis
  proof (cases "state (thread s t) = ZOMBIE")
    case True
    have "safe (free_thread t ?s1)"
    proof (rule free_safe [OF c1 s1 pl1 ji1])
      show "t \<in> set (threadlist ?s1)" "state (thread ?s1 t) = ZOMBIE" "t \<noteq> main_thread ?s1" "t \<noteq> current_thread ?s1"
        using t True main by simp_all
    qed (use p(2,5) in \<open>auto simp: quiet_def joins_ok_def\<close>)
    then show ?thesis using t t0 True by (auto simp: safe_def thread_join_def thread_join_finish_def Let_def)
  next
    case False
    let ?s2 = "?s1\<lparr>num_suspended_threads := num_suspended_threads s + 1, num_runnable_threads := num_runnable_threads s - 1\<rparr>"
    let ?s = "(set_thread ?c (\<lambda>x. x\<lparr>state := SUSPENDED\<rparr>) ?s2)\<lparr>in_scheduler := True\<rparr>"
    have cc: "?c \<in> set (threadlist s)" by (rule f(1))
    have "0 < cnt (\<lambda>x. state x = RUNNABLE) (thread ?s1) (threadlist s)" using f(1,2) t(2) by (intro cnt_pos [of ?c]) auto
    then have "check_threadcounts ?s2 = Inr ()"
      using counts_sanity [OF c1] c1
      by (simp add: check_threadcounts_def sanity_check_threadcounts_def counts_ok_def)
    then have e: "thread_join ok t s = Inr (None, ?s)"
      using t t0 False p(2)
      by (simp add: thread_join_def Let_def thread_suspend_self_def yield_enter_def call_scheduler_plain quiet_def)
    have "counts_ok ?s" using c1 f(1,2) t(2) unfolding counts_ok_def
      by (simp add: cnt_upd del: fun_upd_apply add: fun_upd_other) auto
    moreover have "joins_ok ?s"
      unfolding joins_ok_def
    proof (intro ballI impI)
      fix u assume u: "u \<in> set (threadlist ?s)" "join_thread (thread ?s u) \<noteq> NULL"
      show "joinable (thread ?s u) \<and> join_thread (thread ?s u) \<in> set (threadlist ?s) \<and>
          state (thread ?s (join_thread (thread ?s u))) = (if state (thread ?s u) = ZOMBIE then RUNNABLE else SUSPENDED)"
      proof (cases "u = t")
        case True
        then show ?thesis using t(2,3) False cc by auto
      next
        case False
        then have "join_thread (thread s u) \<noteq> NULL" "u \<in> set (threadlist s)" using u by (auto split: if_splits)
        then show ?thesis using p(5) not_joining [OF inv(3), of u] False f(2) t(2) unfolding joins_ok_def by auto
      qed
    qed
    moreover have "quiet ?s" using p(2) by (auto simp: quiet_def)
    moreover have "joins_inj ?s" by (rule joins_inj_cong [OF ji1]) auto
    moreover have "sched_ok ?s" using p(3) sched_ok_cong [of ?s s] by simp
    moreover have "runnable ?s = runnable s - {?c}" by (auto simp: runnable_def)
    then have "places_ok ?s"
      using placed_drop [OF f(5)] bmap_cong [of ?s s] by (simp add: places_ok_def running_def may_run_def)
    ultimately show ?thesis by (simp add: e safe_def thread_inv_def)
  qed
qed

text \<open>A thread that has ended gives control to the scheduler.\<close>

lemma enter_safe:
  assumes "thread_inv s" "\<not> may_run s"
  shows "safe (call_scheduler s)"
proof -
  let ?s = "s\<lparr>in_scheduler := True\<rparr>"
  have r: "running ?s = running s" "runnable ?s = runnable s" using assms(2) by (auto simp: running_def may_run_def runnable_def)
  have "counts_ok ?s" "joins_ok ?s" "quiet ?s" "sched_ok ?s" "joins_inj ?s" "places_ok ?s"
    using assms(1) sched_ok_cong [of ?s s] bmap_cong [of ?s s]
    by (simp_all add: thread_inv_def counts_ok_def joins_ok_def quiet_def joins_inj_def places_ok_def r)
  then show ?thesis using not_exited [OF assms(1)] by (simp add: call_scheduler_plain safe_def thread_inv_def)
qed

lemma ended_simps [simp]:
  "thread (ended s) = (thread s)(current_thread s := (thread s (current_thread s))\<lparr>state := ZOMBIE\<rparr>)"
  "threadlist (ended s) = threadlist s" "sch (ended s) = sch s" "kind (ended s) = kind s"
  "current_thread (ended s) = current_thread s" "main_thread (ended s) = main_thread s"
  "in_scheduler (ended s) = in_scheduler s" "current_thread_exited (ended s) = current_thread_exited s"
  "sleepq (ended s) = sleepq s" "max_sleep_time (ended s) = max_sleep_time s"
  by (simp_all add: ended_def Let_def)

lemma ended_parts:
  assumes inv: "thread_inv s" "may_run s" "\<not> joining s"
  shows "counts_ok (ended s)" "quiet (ended s)" "sched_ok (ended s)" "places_ok (ended s)"
    "\<And>u. u \<in> set (threadlist s) \<Longrightarrow> u \<noteq> current_thread s \<Longrightarrow> join_thread (thread s u) \<noteq> NULL \<Longrightarrow>
      joinable (thread s u) \<and> join_thread (thread s u) \<in> set (threadlist s) \<and> join_thread (thread s u) \<noteq> current_thread s \<and>
      state (thread s (join_thread (thread s u))) = (if state (thread s u) = ZOMBIE then RUNNABLE else SUSPENDED)"
    "joins_inj (ended s)"
proof -
  let ?s = "ended s" and ?c = "current_thread s"
  note f = inv_running [OF inv(1,2)]
  have p: "counts_ok s" "quiet s" "sched_ok s" "places_ok s" "joins_ok s" using inv by (simp_all add: thread_inv_def)
  show "counts_ok ?s" using p(1) f(1,2) unfolding counts_ok_def ended_def Let_def
    by (simp add: cnt_upd del: fun_upd_apply add: fun_upd_same) auto
  show "quiet ?s" using p(2) by (auto simp: quiet_def)
  show "joins_inj ?s" by (rule joins_inj_cong [OF inv_joins_inj [OF inv(1)]]) auto
  show "sched_ok ?s" using p(3) sched_ok_cong [of ?s s] by simp
  have "runnable ?s = runnable s - {?c}" by (auto simp: runnable_def)
  then show "places_ok ?s"
    using placed_drop [OF f(5)] bmap_cong [of ?s s] by (simp add: places_ok_def running_def may_run_def)
  show "joinable (thread s u) \<and> join_thread (thread s u) \<in> set (threadlist s) \<and> join_thread (thread s u) \<noteq> ?c \<and>
      state (thread s (join_thread (thread s u))) = (if state (thread s u) = ZOMBIE then RUNNABLE else SUSPENDED)"
    if "u \<in> set (threadlist s)" "join_thread (thread s u) \<noteq> NULL" for u
    using p(5) that not_joining [OF inv(3) that(1)] unfolding joins_ok_def by blast
qed

lemma exit_detached_safe:
  assumes inv: "thread_inv s" "may_run s" "\<not> joining s" and d: "\<not> joinable (thread s (current_thread s))"
  shows "safe (call_scheduler ((ended s)\<lparr>current_thread_exited := True\<rparr>))"
proof -
  let ?c = "current_thread s" and ?s = "(ended s)\<lparr>in_scheduler := True, current_thread_exited := False\<rparr>"
  note f = inv_running [OF inv(1,2)] and e = ended_parts [OF inv]
  have q: "quiet s" "joins_ok s" using inv(1) by (simp_all add: thread_inv_def)
  have r: "call_scheduler ((ended s)\<lparr>current_thread_exited := True\<rparr>) =
      (if ?c \<noteq> main_thread s then free_thread ?c ?s else Inr ?s)"
    using q(1) by (simp add: call_scheduler_def reap_def Let_def quiet_def)
  have rr: "running ?s = running (ended s)" "runnable ?s = runnable (ended s)"
    by (auto simp: running_def may_run_def runnable_def)
  have parts: "counts_ok ?s" "sched_ok ?s" "places_ok ?s" "joins_inj ?s" "quiet ?s"
  proof -
    show "counts_ok ?s" using e(1) by (simp add: counts_ok_def ended_def Let_def)
    show "sched_ok ?s" using e(3) sched_ok_cong [of ?s "ended s"] by simp
    show "places_ok ?s" using e(4) bmap_cong [of ?s "ended s"] by (simp add: places_ok_def rr)
    show "joins_inj ?s" by (rule joins_inj_cong [OF e(6)]) auto
    show "quiet ?s" using e(2) by (auto simp: quiet_def)
  qed
  show ?thesis
  proof (cases "?c = main_thread s")
    case False
    have "safe (free_thread ?c ?s)"
    proof (rule free_safe [OF parts(1-4)])
      show "?c \<in> set (threadlist ?s)" "state (thread ?s ?c) = ZOMBIE" "?c \<noteq> main_thread ?s" using f(1) False by simp_all
      fix u assume "u \<in> set (threadlist ?s)" "u \<noteq> ?c" "join_thread (thread ?s u) \<noteq> NULL"
      then show "joinable (thread ?s u) \<and> join_thread (thread ?s u) \<in> set (threadlist ?s) \<and>
          state (thread ?s (join_thread (thread ?s u))) = (if state (thread ?s u) = ZOMBIE then RUNNABLE else SUSPENDED)"
        using e(5) [of u] by simp
    qed (use parts(5) in \<open>simp_all add: quiet_def\<close>)
    then show ?thesis using False r by simp
  next
    case True
    have "join_thread (thread s ?c) = NULL" using q(2) d f(1) by (auto simp: joins_ok_def)
    then have "joins_ok ?s"
      unfolding joins_ok_def
    proof (intro ballI impI)
      fix u assume u: "u \<in> set (threadlist ?s)" "join_thread (thread ?s u) \<noteq> NULL"
      then have "u \<noteq> ?c" using \<open>join_thread (thread s ?c) = NULL\<close> by auto
      then show "joinable (thread ?s u) \<and> join_thread (thread ?s u) \<in> set (threadlist ?s) \<and>
          state (thread ?s (join_thread (thread ?s u))) = (if state (thread ?s u) = ZOMBIE then RUNNABLE else SUSPENDED)"
        using e(5) [of u] u by simp
    qed
    then show ?thesis using True r parts by (simp add: safe_def thread_inv_def)
  qed
qed

lemma exit_joinable_safe:
  assumes inv: "thread_inv s" "may_run s" "\<not> joining s" and d: "joinable (thread s (current_thread s))"
  shows "safe (thread_exit_body r s)"
proof -
  let ?c = "current_thread s"
  let ?s = "set_thread ?c (\<lambda>x. x\<lparr>ret := r\<rparr>) (ended s)" and ?j = "join_thread (thread s ?c)"
  note f = inv_running [OF inv(1,2)] and e = ended_parts [OF inv]
  have jo: "joins_ok s" using inv(1) by (simp add: thread_inv_def)
  have st: "state (thread ?s u) = state (thread (ended s) u)" "daemon (thread ?s u) = daemon (thread (ended s) u)"
    "joinable (thread ?s u) = joinable (thread (ended s) u)" "sleep (thread ?s u) = sleep (thread (ended s) u)"
    "join_thread (thread ?s u) = join_thread (thread s u)" for u by simp_all
  have rr: "running ?s = running (ended s)" "runnable ?s = runnable (ended s)"
    unfolding running_def may_run_def runnable_def st by simp_all
  have parts: "counts_ok ?s" "quiet ?s" "sched_ok ?s" "places_ok ?s" "joins_inj ?s"
  proof -
    show "counts_ok ?s" using e(1) f(1) unfolding counts_ok_def by (simp add: cnt_upd ended_def Let_def del: fun_upd_apply add: fun_upd_same) auto
    show "quiet ?s" using e(2) by (auto simp: quiet_def)
    show "sched_ok ?s" using e(3) sched_ok_cong [of ?s "ended s"] by simp
    show "places_ok ?s" using e(4) bmap_cong [of ?s "ended s"] by (simp add: places_ok_def rr)
    show "joins_inj ?s" by (rule joins_inj_cong [OF e(6)]) auto
  qed
  have body: "thread_exit_body r s = bind_outcome (if ?j \<noteq> NULL then thread_resume ?j ?s else Inr ?s) (\<lambda>s4.
      bind_outcome (check_threadcounts s4) (\<lambda>_. call_scheduler s4))"
    using d unfolding thread_exit_body_def ended_def Let_def by simp
  have zombie: "state (thread ?s ?c) = ZOMBIE" by simp
  have "\<exists>s4. (if ?j \<noteq> NULL then thread_resume ?j ?s else Inr ?s) = Inr s4 \<and> thread_inv s4 \<and> \<not> may_run s4"
  proof (cases "?j = NULL")
    case True
    have "joins_ok ?s"
      unfolding joins_ok_def
    proof (intro ballI impI)
      fix u assume u: "u \<in> set (threadlist ?s)" "join_thread (thread ?s u) \<noteq> NULL"
      then have "u \<noteq> ?c" using True by auto
      then show "joinable (thread ?s u) \<and> join_thread (thread ?s u) \<in> set (threadlist ?s) \<and>
          state (thread ?s (join_thread (thread ?s u))) = (if state (thread ?s u) = ZOMBIE then RUNNABLE else SUSPENDED)"
        using e(5) [of u] u by simp
    qed
    then show ?thesis using True parts by (simp add: thread_inv_def may_run_def)
  next
    case False
    have js: "?j \<in> set (threadlist s)" "state (thread s ?j) = SUSPENDED"
      using jo f(1,2) False unfolding joins_ok_def by auto
    then have ne: "?j \<noteq> ?c" using f(2) by auto
    have "\<exists>s'. thread_resume ?j ?s = Inr s' \<and> thread_inv s' \<and> current_thread s' = current_thread ?s \<and>
        thread s' (current_thread ?s) = thread ?s (current_thread ?s)"
    proof (rule resume_safe [OF parts])
      show "?j \<in> set (threadlist ?s)" "state (thread ?s ?j) = SUSPENDED" "?j \<noteq> current_thread ?s" using js ne by simp_all
      fix u assume u: "u \<in> set (threadlist ?s)" "join_thread (thread ?s u) \<noteq> NULL"
      show "joinable (thread ?s u) \<and> join_thread (thread ?s u) \<in> set (threadlist ?s) \<and>
          (if join_thread (thread ?s u) = ?j then state (thread ?s u) = ZOMBIE
           else state (thread ?s (join_thread (thread ?s u))) = (if state (thread ?s u) = ZOMBIE then RUNNABLE else SUSPENDED))"
      proof (cases "u = ?c")
        case True
        then show ?thesis using d js(1) by simp
      next
        case False
        then have "join_thread (thread s u) \<noteq> ?j"
          using inv_joins_inj [OF inv(1)] u f(1) unfolding joins_inj_def by auto
        then show ?thesis using e(5) [of u] u False by simp
      qed
    qed
    then show ?thesis using False zombie by (auto simp: may_run_def)
  qed
  then obtain s4 where s4: "(if ?j \<noteq> NULL then thread_resume ?j ?s else Inr ?s) = Inr s4" "thread_inv s4" "\<not> may_run s4" by blast
  then show ?thesis using enter_safe [OF s4(2,3)] inv_check [OF s4(2)] by (simp add: body)
qed

lemma thread_exit_body_safe:
  assumes inv: "thread_inv s" "may_run s" "\<not> joining s"
  shows "safe (thread_exit_body r s)"
proof (cases "joinable (thread s (current_thread s))")
  case False
  have c: "counts_ok ((ended s)\<lparr>current_thread_exited := True\<rparr>)"
    using ended_parts(1) [OF inv] by (simp add: counts_ok_def ended_def Let_def)
  have "thread_exit_body r s = bind_outcome (check_threadcounts ((ended s)\<lparr>current_thread_exited := True\<rparr>))
      (\<lambda>_. call_scheduler ((ended s)\<lparr>current_thread_exited := True\<rparr>))"
    using False unfolding thread_exit_body_def ended_def Let_def by simp
  then show ?thesis using counts_check [OF c] exit_detached_safe [OF inv False] by simp
qed (rule exit_joinable_safe [OF inv])

lemma main_exited_frame:
  "thread_inv (s\<lparr>main_exited := b\<rparr>) = thread_inv s" "may_run (s\<lparr>main_exited := b\<rparr>) = may_run s"
  "joining (s\<lparr>main_exited := b\<rparr>) = joining s"
proof -
  show m: "may_run (s\<lparr>main_exited := b\<rparr>) = may_run s" by (simp add: may_run_def)
  show "joining (s\<lparr>main_exited := b\<rparr>) = joining s" by (simp add: joining_def)
  have "counts_ok (s\<lparr>main_exited := b\<rparr>) = counts_ok s" "joins_ok (s\<lparr>main_exited := b\<rparr>) = joins_ok s"
    "quiet (s\<lparr>main_exited := b\<rparr>) = quiet s" "joins_inj (s\<lparr>main_exited := b\<rparr>) = joins_inj s"
    by (simp_all add: counts_ok_def joins_ok_def quiet_def joins_inj_def)
  moreover have "sched_ok (s\<lparr>main_exited := b\<rparr>) = sched_ok s" by (rule sched_ok_cong) simp_all
  moreover have "bmap (s\<lparr>main_exited := b\<rparr>) = bmap s" by (rule bmap_cong) simp
  then have "places_ok (s\<lparr>main_exited := b\<rparr>) = places_ok s"
    by (simp add: places_ok_def running_def runnable_def m)
  ultimately show "thread_inv (s\<lparr>main_exited := b\<rparr>) = thread_inv s" by (simp add: thread_inv_def)
qed

lemma thread_exit_safe:
  assumes inv: "thread_inv s" "may_run s" "\<not> joining s" and "\<not> exit_whole_program s"
  shows "safe (thread_exit r s)"
proof -
  have "thread_inv (s\<lparr>main_exited := True\<rparr>)" using inv(1) by (simp add: main_exited_frame)
  then have "check_threadcounts (s\<lparr>main_exited := True\<rparr>) = Inr ()" by (rule inv_check)
  then show ?thesis
    using thread_exit_body_safe [of "s\<lparr>main_exited := True\<rparr>"] thread_exit_body_safe [OF inv]
      inv_check [OF inv(1)] assms
    by (simp add: thread_exit_def exit_func_def main_exited_frame Let_def)
qed

subsection \<open>The scheduling loop\<close>

lemma cnt_mono_less:
  assumes "\<And>u. u \<in> set ts \<Longrightarrow> P (f u) \<Longrightarrow> Q (f u)" "t \<in> set ts" "Q (f t)" "\<not> P (f t)"
  shows "cnt P f ts < cnt Q f ts"
proof -
  have le: "cnt P f us \<le> cnt Q f us" if "\<And>u. u \<in> set us \<Longrightarrow> P (f u) \<Longrightarrow> Q (f u)" for us
    using that by (induction us) auto
  obtain us vs where ts: "ts = us @ t # vs" using assms(2) by (meson split_list)
  have "cnt P f us \<le> cnt Q f us" "cnt P f vs \<le> cnt Q f vs" using assms(1) ts by (auto intro!: le)
  then show ?thesis using assms(3,4) ts by simp
qed

lemma cnt_zero: "cnt P f ts = 0 \<Longrightarrow> u \<in> set ts \<Longrightarrow> \<not> P (f u)"
  using cnt_pos [of u ts P f] by auto

text \<open>When the threads left are daemons, the main thread has ended.\<close>

lemma only_daemons_main_ended:
  assumes "thread_inv s" "num_suspended_threads s = 0" "num_runnable_threads s = num_daemon_threads s"
  shows "state (thread s (main_thread s)) \<noteq> RUNNABLE"
proof
  assume r: "state (thread s (main_thread s)) = RUNNABLE"
  have c: "counts_ok s" "main_thread s \<in> set (threadlist s)" "\<not> daemon (thread s (main_thread s))"
    using assms(1) by (simp_all add: thread_inv_def quiet_def)
  have "cnt (\<lambda>x. daemon x \<and> state x \<noteq> ZOMBIE) (thread s) (threadlist s) < cnt (\<lambda>x. state x = RUNNABLE) (thread s) (threadlist s)"
  proof (rule cnt_mono_less [OF _ c(2)])
    fix u assume u: "u \<in> set (threadlist s)" "daemon (thread s u) \<and> state (thread s u) \<noteq> ZOMBIE"
    have "cnt (\<lambda>x. state x = SUSPENDED) (thread s) (threadlist s) = 0" "state (thread s u) \<noteq> GHOST"
      using c(1) assms(2) u(1) by (auto simp: counts_ok_def)
    then have "state (thread s u) \<noteq> SUSPENDED" "state (thread s u) \<noteq> GHOST" using cnt_zero u(1) by blast+
    then show "state (thread s u) = RUNNABLE" using u(2) by (cases "state (thread s u)") auto
  qed (use r c(3) in simp_all)
  then show False using c(1) assms(3) by (simp add: counts_ok_def)
qed

text \<open>Handing control to a thread: the fields the loop changes, and what they do to the invariant.\<close>

lemma dispatch_inv:
  assumes inv: "thread_inv s" "in_scheduler s"
    and p: "placed (if b \<or> state (thread s t) \<noteq> RUNNABLE then {} else {t}) L (bmap s) (runnable s)"
    and t: "\<not> b \<Longrightarrow> t \<in> set (threadlist s)"
  shows "thread_inv (s\<lparr>first_wake_usecs := w, sch := (sch s)\<lparr>runlist := L\<rparr>, current_thread := t, in_scheduler := b\<rparr>)"
    (is "thread_inv ?s")
proof -
  have c: "counts_ok s" "joins_ok s" "quiet s" "joins_inj s" "sched_ok s" using inv(1) by (simp_all add: thread_inv_def)
  have b: "bmap ?s = bmap s" by (simp add: bmap_def)
  have "counts_ok ?s" using c(1) by (simp add: counts_ok_def)
  moreover have "joins_ok ?s" using c(2) by (simp add: joins_ok_def)
  moreover have "joins_inj ?s" using c(4) by (simp add: joins_inj_def)
  moreover have "quiet ?s" using c(3) t by (simp add: quiet_def)
  moreover have "sched_ok ?s" using c(5) by (auto simp: sched_ok_def b blocked_def)
  moreover have "places_ok ?s" using p by (auto simp: places_ok_def b running_def may_run_def runnable_def)
  ultimately show ?thesis by (simp add: thread_inv_def)
qed

text \<open>A round with nothing in the sleep queue, in its three cases.\<close>

lemma do_scheduler_eq:
  assumes inv: "thread_inv s"
  shows "do_scheduler now s = Inr (
    if num_suspended_threads s = 0 \<and> num_runnable_threads s = num_daemon_threads s
    then s\<lparr>first_wake_usecs := 0, current_thread := main_thread s, in_scheduler := False\<rparr>
    else case runlist (sch s) of
        [] \<Rightarrow> s\<lparr>first_wake_usecs := 0, sch := sch s, current_thread := NULL\<rparr>
      | t # ts \<Rightarrow> s\<lparr>first_wake_usecs := 0, sch := (sch s)\<lparr>runlist := ts\<rparr>, current_thread := t, in_scheduler := False\<rparr>)"
proof -
  have q: "quiet s" "counts_ok s" using inv by (simp_all add: thread_inv_def)
  have c: "check_threadcounts s = Inr ()" "check_threadcounts (s\<lparr>first_wake_usecs := 0\<rparr>) = Inr ()"
    "check_threadcounts (s\<lparr>first_wake_usecs := 0, sch := sc, current_thread := t\<rparr>) = Inr ()" for sc t
    using q(2) by (simp_all add: counts_ok_def counts_check)
  have chk: "fgmpi_sleepq_check False now s = Inr (s\<lparr>first_wake_usecs := 0\<rparr>)"
    using q(1) by (simp add: fgmpi_sleepq_check_def quiet_def)
  have "t \<noteq> NULL \<and> sleep (thread s t) = -1" if "runlist (sch s) = t # L" for t L
    using inv that q by (auto simp: thread_inv_def places_ok_def placed_def runnable_def counts_ok_def quiet_def)
  then show ?thesis
    unfolding do_scheduler_def using c chk
    by (auto simp: sched_next_eq runlist_remove_from_head_def valid_thread_def split: list.splits)
qed

lemma do_scheduler_safe:
  assumes inv: "thread_inv s" "in_scheduler s"
  shows "safe (do_scheduler now s)"
proof -
  have q: "quiet s" using inv(1) by (simp add: thread_inv_def)
  have p: "placed {} (runlist (sch s)) (bmap s) (runnable s)"
    using inv by (simp add: thread_inv_def places_ok_def running_def may_run_def)
  show ?thesis
  proof (cases "num_suspended_threads s = 0 \<and> num_runnable_threads s = num_daemon_threads s")
    case True
    have "placed (if False \<or> state (thread s (main_thread s)) \<noteq> RUNNABLE then {} else {main_thread s}) (runlist (sch s)) (bmap s) (runnable s)"
      using p only_daemons_main_ended [OF inv(1)] True by simp
    then have "thread_inv (s\<lparr>first_wake_usecs := 0, sch := (sch s)\<lparr>runlist := runlist (sch s)\<rparr>, current_thread := main_thread s, in_scheduler := False\<rparr>)"
      by (rule dispatch_inv [OF inv]) (use q in \<open>simp add: quiet_def\<close>)
    then show ?thesis using True by (simp add: do_scheduler_eq [OF inv(1)] safe_def)
  next
    case False
    show ?thesis
    proof (cases "runlist (sch s)")
      case Nil
      have "thread_inv (s\<lparr>first_wake_usecs := 0, sch := (sch s)\<lparr>runlist := []\<rparr>, current_thread := NULL, in_scheduler := True\<rparr>)"
        by (rule dispatch_inv [OF inv]) (use p Nil in simp_all)
      moreover have "s\<lparr>first_wake_usecs := 0, sch := (sch s)\<lparr>runlist := []\<rparr>, current_thread := NULL, in_scheduler := True\<rparr> =
          s\<lparr>first_wake_usecs := 0, sch := sch s, current_thread := NULL\<rparr>"
        using inv(2) Nil by (cases s; cases "sch s") simp
      ultimately have "thread_inv (s\<lparr>first_wake_usecs := 0, sch := sch s, current_thread := NULL\<rparr>)" by (rule back_subst)
      then show ?thesis unfolding do_scheduler_eq [OF inv(1)] safe_def using Nil False by auto
    next
      case (Cons t L)
      have t: "t \<in> set (threadlist s)" "state (thread s t) = RUNNABLE" using p Cons by (auto simp: placed_def runnable_def)
      have "thread_inv (s\<lparr>first_wake_usecs := 0, sch := (sch s)\<lparr>runlist := L\<rparr>, current_thread := t, in_scheduler := False\<rparr>)"
        by (rule dispatch_inv [OF inv]) (use placed_pick [of t L] p Cons t in simp_all)
      then show ?thesis unfolding do_scheduler_eq [OF inv(1)] safe_def using Cons False by auto
    qed
  qed
qed

subsection \<open>Reachable states\<close>

lemma cnt_card: "distinct ts \<Longrightarrow> cnt P f ts = int (card {t \<in> set ts. P (f t)})"
  by (simp add: cnt_def distinct_card [symmetric])

lemma unit_inj_card:
  assumes "unit_inj M"
  shows "card {r. map_option sched_unit (M r) = Some t} = (if t \<in> units M then 1 else 0)"
proof (cases "t \<in> units M")
  case True
  then obtain r x where r: "M r = Some x" "sched_unit x = t" by (auto simp: units_def)
  have "r' = r" if "map_option sched_unit (M r') = Some t" for r'
    by (rule inj_onD [OF assms [unfolded unit_inj_def]]) (use that r in auto)
  then have "{r. map_option sched_unit (M r) = Some t} = {r}" using r by auto
  then show ?thesis using True by simp
next
  case False
  then have e: "{r. map_option sched_unit (M r) = Some t} = {}" by (auto simp: units_def)
  show ?thesis unfolding e using False by simp
qed

lemma count_list_distinct: "distinct xs \<Longrightarrow> count_list xs x = (if x \<in> set xs then 1 else 0)"
  by (induction xs) auto

lemma placed_count:
  assumes "placed (running s) L M (runnable s)"
  shows "(if may_run s \<and> t = current_thread s then 1 else 0) + count_list L t +
      card {r. map_option sched_unit (M r) = Some t} =
    (if t \<in> set (threadlist s) \<and> state (thread s t) = RUNNABLE then 1 else 0)"
proof -
  have "count_list L t = (if t \<in> set L then 1 else 0)"
    using assms count_list_distinct [of L] by (simp add: placed_def)
  moreover have "card {r. map_option sched_unit (M r) = Some t} = (if t \<in> units M then 1 else 0)"
    using assms by (intro unit_inj_card) (simp add: placed_def)
  moreover have "t \<in> runnable s \<longleftrightarrow> t \<in> set (threadlist s) \<and> state (thread s t) = RUNNABLE" by (simp add: runnable_def)
  moreover have "t \<in> running s \<longleftrightarrow> may_run s \<and> t = current_thread s" by (simp add: running_def)
  moreover have "t \<in> runnable s \<longleftrightarrow> t \<in> running s \<or> t \<in> set L \<or> t \<in> units M"
    "\<not> (t \<in> set L \<and> t \<in> units M)" "\<not> (t \<in> running s \<and> (t \<in> set L \<or> t \<in> units M))"
    using assms unfolding placed_def by auto
  ultimately show ?thesis by auto
qed

lemma pick_scheduler_init:
  assumes "thread_init ok env = Inr s" "\<forall>k \<in> set table_sizes. ok k"
  shows "thread_inv s"
proof -
  obtain k where k: "pick_scheduler env = Inr k" using assms(1) by (cases "pick_scheduler env") (auto simp: thread_init_def)
  obtain sc where sc: "sched_init ok k sched_start = Inr sc"
    using assms(1) k by (cases "sched_init ok k sched_start") (auto simp: thread_init_def)
  define s0 where "s0 = \<lparr>kind = k, sch = sc,
        thread = (\<lambda>_. zero_thread)(1 := zero_thread\<lparr>name := ''main_thread'', sleep := -1\<rparr>),
        next_thread_addr = 2, max_tid = 1, threadlist = [1],
        num_daemon_threads = 0, num_suspended_threads = 0, num_runnable_threads = 1, num_zombie_threads = 0,
        main_thread = 1, current_thread = 1, current_thread_exited = False, main_exited = False,
        exit_whole_program = False, in_scheduler = False,
        sleepq = [], last_check_time = 0, max_sleep_time = 0, first_wake_usecs = 0\<rparr>"
  have y: "thread_yield ok s0 = Inr s" using assms(1) k sc by (simp add: thread_init_def s0_def)
  have sc': "runlist sc = [] \<and> (if k = Block_queue then blocked sc Map.empty else blocklist sc = None)"
    using sc blocked_init [OF _ assms(2), of sched_start sc]
    by (cases k) (auto simp: sched_global_rr_init_def sched_global_invrr_init_def sched_start_def)
  have b: "bmap s0 = Map.empty"
  proof (cases "k = Block_queue")
    case True
    then have "bmap (s0\<lparr>sch := sc\<rparr>) = Map.empty" using sc' blocked_bmap [of sc Map.empty s0] by simp
    then show ?thesis by (simp add: s0_def bmap_def)
  qed (use sc' in \<open>simp add: bmap_def s0_def\<close>)
  have r: "running s0 = {1}" "runnable s0 = {1}" by (auto simp: running_def may_run_def runnable_def s0_def zero_thread_def)
  have "counts_ok s0" "joins_ok s0" "joins_inj s0" by (simp_all add: counts_ok_def joins_ok_def joins_inj_def s0_def zero_thread_def)
  moreover have "quiet s0" by (simp add: quiet_def s0_def zero_thread_def HSH_CAPACITY_def)
  moreover have "sched_ok s0" using sc' by (simp add: sched_ok_def b) (simp add: s0_def)
  moreover have "runlist (sch s0) = []" using sc' by (simp add: s0_def)
  then have "places_ok s0" by (simp add: places_ok_def b r placed_def units_def unit_inj_def)
  ultimately have "thread_inv s0" by (simp add: thread_inv_def)
  moreover have "may_run s0" by (simp add: may_run_def s0_def zero_thread_def)
  ultimately show ?thesis using thread_yield_safe [of s0 ok] y by (simp add: safe_def)
qed

lemma step_safe:
  assumes "tl_step ok s r" "thread_inv s" "\<forall>k \<in> set table_sizes. ok k"
  shows "safe r"
  using assms
proof (induction rule: tl_step.induct)
  case (Yield s) then show ?case using thread_yield_safe by blast
next
  case (Block s ev) then show ?case using thread_block_safe by blast
next
  case (Notify s ev) then show ?case using thread_notify_safe by blast
next
  case (Spawn s n env attr) then show ?case using thread_spawn_safe by blast
next
  case (Progress s env) then show ?case using progress_safe by blast
next
  case (Suspend s now now') then show ?case using suspend_safe by blast
next
  case (Resume s t) then show ?case using thread_resume_safe by blast
next
  case (Daemon s t) then show ?case using daemon_safe by blast
next
  case (Join s t) then show ?case using thread_join_safe by blast
next
  case (Join_finish s t) then show ?case using join_finish_safe by blast
next
  case (Exit s r) then show ?case using thread_exit_safe by blast
next
  case (Schedule s now) then show ?case using do_scheduler_safe by blast
qed

lemma reachable_inv: "tl_reachable ok s \<Longrightarrow> \<forall>k \<in> set table_sizes. ok k \<Longrightarrow> thread_inv s"
proof (induction rule: tl_reachable.induct)
  case (Init env s)
  then show ?case using pick_scheduler_init by blast
next
  case (Step s s')
  then show ?case using step_safe [of ok s "Inr s'"] by (auto simp: safe_def)
qed

text \<open>
  C12. Safety of the steps of \<open>tl_step\<close>: in a state reached from \<^verbatim>\<open>thread_init\<close> by such steps, a yield,
  a block or a notification of a thread, a spawn, the start of the progress thread, a suspension
  without a time limit, a resume, setting a thread to be a daemon, a join and its end, the exit of a
  thread and a round of the scheduler return, fail no assertion and leave a state with the
  invariant.  The steps are those of callers that keep to the premises of \<open>tl_step\<close> (blocking under a
  free rank, resuming and joining only live threads, a join finished before anything else, memory
  and coroutines left for a spawn, and so on); misuse against them, \<^verbatim>\<open>runlist_init\<close> and suspension
  with a time limit, whose assertions can fail (C19), are not covered.
\<close>

theorem thread_steps_safe:
  assumes "tl_reachable ok s" "tl_step ok s r" "\<forall>k \<in> set table_sizes. ok k"
  shows "\<exists>s'. r = Inr s' \<and> thread_inv s'"
  using step_safe [OF assms(2) reachable_inv [OF assms(1,3)] assms(3)] by (simp add: safe_def)

lemma thread_init_rr: "thread_init (\<lambda>_. True) None = Inr
  \<lparr>kind = Global_rr, sch = sched_start\<lparr>runlist := [1]\<rparr>,
        thread = (\<lambda>_. zero_thread)(1 := zero_thread\<lparr>name := ''main_thread'', sleep := -1\<rparr>),
        next_thread_addr = 2, max_tid = 1, threadlist = [1],
        num_daemon_threads = 0, num_suspended_threads = 0, num_runnable_threads = 1, num_zombie_threads = 0,
        main_thread = 1, current_thread = 1, current_thread_exited = False, main_exited = False,
        exit_whole_program = False, in_scheduler = True,
        sleepq = [], last_check_time = 0, max_sleep_time = 0, first_wake_usecs = 0\<rparr>"
  by (simp add: thread_init_def pick_scheduler_def sched_global_rr_init_def sched_start_def thread_yield_def
      yield_enter_def call_scheduler_def reap_def add_to_scheduler_def)

theorem thread_steps_safe_witness:
  "\<exists>s s'. thread_init (\<lambda>_. True) None = Inr s \<and> do_scheduler 7 s = Inr s' \<and> thread_inv s'"
proof -
  obtain s where s: "thread_init (\<lambda>_. True) None = Inr s" "in_scheduler s" using thread_init_rr by auto
  have "tl_reachable (\<lambda>_. True) s" using s(1) by (rule tl_reachable.Init)
  moreover have "tl_step (\<lambda>_. True) s (do_scheduler 7 s)" using s(2) by (rule tl_step.Schedule)
  ultimately show ?thesis using thread_steps_safe [of "\<lambda>_. True" s "do_scheduler 7 s"] s(1) by auto
qed

text \<open>
  C13. In every reachable state each runnable thread is in exactly one place, and only runnable
  threads of the thread list are scheduled: the number of its occurrences as the running thread, on
  the run list and under a rank of the block list is one for a runnable thread, and nothing else
  occurs there.
\<close>

theorem runnable_threads_in_one_place:
  assumes "tl_reachable ok s" "\<forall>k \<in> set table_sizes. ok k"
  shows "(if may_run s \<and> t = current_thread s then 1 else 0) + count_list (runlist (sch s)) t +
      card {r. map_option sched_unit (bmap s r) = Some t} =
    (if t \<in> set (threadlist s) \<and> state (thread s t) = RUNNABLE then 1 else 0)"
  by (rule placed_count) (use reachable_inv [OF assms] in \<open>simp_all add: thread_inv_def places_ok_def\<close>)

theorem runnable_threads_in_one_place_witness:
  "\<exists>s. thread_init (\<lambda>_. True) None = Inr s \<and> count_list (runlist (sch s)) 1 = 1 \<and> count_list (runlist (sch s)) 2 = 0"
proof -
  obtain s where s: "thread_init (\<lambda>_. True) None = Inr s" "in_scheduler s" "threadlist s = [1]" "state (thread s 1) = RUNNABLE"
    "bmap s = Map.empty"
    using thread_init_rr by (auto simp: zero_thread_def bmap_def sched_start_def)
  have r: "tl_reachable (\<lambda>_. True) s" using s(1) by (rule tl_reachable.Init)
  show ?thesis
    using runnable_threads_in_one_place [OF r, of 1] runnable_threads_in_one_place [OF r, of 2] s
    by (simp add: may_run_def)
qed

text \<open>
  C14. The counts the library keeps are the numbers of threads in each state, so the check it makes
  of them holds in every reachable state, and no thread is both on the list and freed.
\<close>

theorem thread_counts_exact:
  assumes "tl_reachable ok s" "\<forall>k \<in> set table_sizes. ok k"
  shows "sanity_check_threadcounts s \<and> distinct (threadlist s) \<and>
    num_runnable_threads s = int (card {t \<in> set (threadlist s). state (thread s t) = RUNNABLE}) \<and>
    num_suspended_threads s = int (card {t \<in> set (threadlist s). state (thread s t) = SUSPENDED}) \<and>
    num_zombie_threads s = int (card {t \<in> set (threadlist s). state (thread s t) = ZOMBIE}) \<and>
    num_daemon_threads s = int (card {t \<in> set (threadlist s). daemon (thread s t) \<and> state (thread s t) \<noteq> ZOMBIE})"
proof -
  have c: "counts_ok s" using reachable_inv [OF assms] by (simp add: thread_inv_def)
  then have "distinct (threadlist s)" by (simp add: counts_ok_def)
  then show ?thesis using counts_sanity [OF c] c by (simp add: counts_ok_def cnt_card)
qed

theorem thread_counts_exact_witness:
  "\<exists>s. thread_init (\<lambda>_. True) None = Inr s \<and> sanity_check_threadcounts s \<and> num_zombie_threads s = 0"
proof -
  obtain s where s: "thread_init (\<lambda>_. True) None = Inr s" "num_zombie_threads s = 0" using thread_init_rr by auto
  have r: "tl_reachable (\<lambda>_. True) s" using s(1) by (rule tl_reachable.Init)
  show ?thesis using thread_counts_exact [OF r] s by simp
qed

text \<open>
  C15. A round of the scheduling loop makes progress: with a thread at the head of the run list the
  scheduler hands control to it and takes it off the list, unless only daemon threads are left, when
  it hands control to the main thread, which has ended by then.
\<close>

theorem scheduler_round_dispatches:
  assumes "tl_reachable ok s" "\<forall>k \<in> set table_sizes. ok k" "in_scheduler s" "runlist (sch s) = t # ts"
  shows "\<exists>s'. do_scheduler now s = Inr s' \<and> \<not> in_scheduler s' \<and> thread s' = thread s \<and>
    (if num_suspended_threads s = 0 \<and> num_runnable_threads s = num_daemon_threads s
     then current_thread s' = main_thread s \<and> state (thread s (main_thread s)) = ZOMBIE
     else current_thread s' = t \<and> state (thread s t) = RUNNABLE \<and> runlist (sch s') = ts)"
proof -
  have inv: "thread_inv s" by (rule reachable_inv [OF assms(1,2)])
  have q: "quiet s" "counts_ok s" using inv by (simp_all add: thread_inv_def)
  have t: "state (thread s t) = RUNNABLE"
    using inv assms(4) by (auto simp: thread_inv_def places_ok_def placed_def runnable_def)
  show ?thesis
  proof (cases "num_suspended_threads s = 0 \<and> num_runnable_threads s = num_daemon_threads s")
    case True
    have m: "main_thread s \<in> set (threadlist s)" using q(1) by (simp add: quiet_def)
    have "state (thread s (main_thread s)) \<noteq> SUSPENDED"
      using cnt_zero [OF _ m, of "\<lambda>x. state x = SUSPENDED" "thread s"] q(2) True by (simp add: counts_ok_def)
    moreover have "state (thread s (main_thread s)) \<noteq> RUNNABLE" "state (thread s (main_thread s)) \<noteq> GHOST"
      using only_daemons_main_ended [OF inv] True q(2) m by (auto simp: counts_ok_def)
    ultimately have "state (thread s (main_thread s)) = ZOMBIE" by (cases "state (thread s (main_thread s))") simp_all
    then show ?thesis using True by (simp add: do_scheduler_eq [OF inv])
  next
    case False
    then show ?thesis using t assms(4) by (auto simp: do_scheduler_eq [OF inv])
  qed
qed

theorem scheduler_round_dispatches_witness:
  "\<exists>s s'. thread_init (\<lambda>_. True) None = Inr s \<and> do_scheduler 7 s = Inr s' \<and> current_thread s' = 1 \<and> runlist (sch s') = []"
proof -
  obtain s where s: "thread_init (\<lambda>_. True) None = Inr s" "in_scheduler s" "runlist (sch s) = [1]"
    "num_runnable_threads s = 1" "num_daemon_threads s = 0" using thread_init_rr by auto
  have r: "tl_reachable (\<lambda>_. True) s" using s(1) by (rule tl_reachable.Init)
  show ?thesis using scheduler_round_dispatches [OF r _ s(2,3), of 7] s by auto
qed

end
