(* ===== verification/Sleep_Queue.thy ===== *)
theory Sleep_Queue
  imports Thread_Inv
begin

section \<open>The sleep queue of \<^verbatim>\<open>threadlib.c\<close>\<close>

text \<open>
  The queue stores for each sleeping thread how much longer it sleeps than the one before it.  Its
  abstract view is the list of the threads with the times they have left, in order; adding,
  removing and advancing the clock are the evident operations on it.  Where two threads have the same
  time left the code is not right; the last theorems say how.
\<close>

subsection \<open>Abstract view\<close>

fun due :: "(addr \<Rightarrow> fgmpi_thread) \<Rightarrow> int \<Rightarrow> addr list \<Rightarrow> (addr \<times> int) list" where
  "due f a [] = []"
| "due f a (t # q) = (t, a + sleep (f t)) # due f (a + sleep (f t)) q"

definition wake_times :: "tl \<Rightarrow> (addr \<times> int) list" where
  "wake_times s = due (thread s) 0 (sleepq s)"

definition sleep_sum :: "(addr \<Rightarrow> fgmpi_thread) \<Rightarrow> addr list \<Rightarrow> int" where
  "sleep_sum f q = sum_list (map (\<lambda>t. sleep (f t)) q)"

definition sleepq_ok :: "tl \<Rightarrow> bool" where
  "sleepq_ok s \<longleftrightarrow> distinct (sleepq s) \<and> (\<forall>t \<in> set (sleepq s). 0 \<le> sleep (thread s t)) \<and>
     max_sleep_time s = sleep_sum (thread s) (sleepq s) \<and> (sleepq s \<noteq> [] \<longrightarrow> 0 < sleep (thread s (hd (sleepq s)))) \<and>
     max_sleep_time s < 2 ^ 63"

text \<open>Every sleeping thread is a suspended thread of the thread list.\<close>

definition sleepers_ok :: "tl \<Rightarrow> bool" where
  "sleepers_ok s \<longleftrightarrow> counts_ok s \<and>
     (\<forall>t \<in> set (sleepq s). t \<in> set (threadlist s) \<and> state (thread s t) = SUSPENDED)"

fun add_due :: "addr \<times> int \<Rightarrow> (addr \<times> int) list \<Rightarrow> (addr \<times> int) list" where
  "add_due x [] = [x]"
| "add_due x (y # ys) = (if snd x < snd y then x # y # ys else y # add_due x ys)"

text \<open>No two threads have exactly \<open>i\<close> left.\<close>

definition no_tie :: "int \<Rightarrow> (addr \<times> int) list \<Rightarrow> bool" where
  "no_tie i ds \<longleftrightarrow> length (filter (\<lambda>x. snd x = i) ds) \<le> 1"

definition later :: "int \<Rightarrow> (addr \<times> int) list \<Rightarrow> (addr \<times> int) list" where
  "later i ds = map (\<lambda>(t, d). (t, d - i)) (filter (\<lambda>x. i < snd x) ds)"

definition expired :: "int \<Rightarrow> (addr \<times> int) list \<Rightarrow> addr list" where
  "expired i ds = map fst (filter (\<lambda>x. snd x \<le> i) ds)"

text \<open>What the loop leaves, of the threads in the queue and in general.\<close>

definition woken :: "int \<Rightarrow> addr list \<Rightarrow> tl \<Rightarrow> tl \<Rightarrow> bool" where
  "woken i q s s' \<longleftrightarrow> counts_ok s' \<and> threadlist s' = threadlist s \<and> max_sleep_time s' = max_sleep_time s \<and>
     last_check_time s' = last_check_time s \<and> wake_times s' = later i (due (thread s) 0 q) \<and>
     runlist (sch s') = runlist (sch s) @ expired i (due (thread s) 0 q) \<and>
     (\<forall>t \<in> set (expired i (due (thread s) 0 q)). state (thread s' t) = RUNNABLE \<and> timeout (thread s' t) \<and> sleep (thread s' t) = -1) \<and>
     (\<forall>t. t \<notin> set q \<longrightarrow> thread s' t = thread s t) \<and>
     (\<forall>t \<in> set (sleepq s'). 0 \<le> sleep (thread s' t)) \<and>
     (sleepq s' \<noteq> [] \<longrightarrow> 0 < sleep (thread s' (hd (sleepq s'))))"

text \<open>The main thread and sleeping threads, to evaluate the operations on.\<close>

definition sleeping :: "(addr \<times> int) list \<Rightarrow> tl" where
  "sleeping ds =
     \<lparr>kind = Global_rr, sch = sched_start,
      thread = (\<lambda>t. zero_thread\<lparr>state := (if map_of ds t = None then RUNNABLE else SUSPENDED),
                   sleep := (case map_of ds t of None \<Rightarrow> -1 | Some d \<Rightarrow> d)\<rparr>),
      next_thread_addr = 100, max_tid = 100, threadlist = 1 # map fst ds,
      num_daemon_threads = 0, num_suspended_threads = int (length ds), num_runnable_threads = 1, num_zombie_threads = 0,
      main_thread = 1, current_thread = 1, current_thread_exited = False, main_exited = False,
      exit_whole_program = False, in_scheduler = False,
      sleepq = map fst ds, last_check_time = 1000, max_sleep_time = sum_list (map snd ds), first_wake_usecs = 0\<rparr>"

subsection \<open>Times left\<close>

lemma sleep_sum_simps [simp]:
  "sleep_sum f [] = 0" "sleep_sum f (t # q) = sleep (f t) + sleep_sum f q" "sleep_sum f (p @ q) = sleep_sum f p + sleep_sum f q"
  by (simp_all add: sleep_sum_def)

lemma sleep_sum_rev [simp]: "sleep_sum f (rev q) = sleep_sum f q"
  by (induction q) simp_all

lemma sleep_sum_nonneg: "\<forall>t \<in> set q. 0 \<le> sleep (f t) \<Longrightarrow> 0 \<le> sleep_sum f q"
  by (induction q) auto

lemma due_append: "due f a (p @ q) = due f a p @ due f (a + sleep_sum f p) q"
  by (induction p arbitrary: a) (simp_all add: algebra_simps)

lemma due_cong: "(\<And>t. t \<in> set q \<Longrightarrow> sleep (f t) = sleep (g t)) \<Longrightarrow> due f a q = due g a q"
  by (induction q arbitrary: a) auto

lemma sleep_sum_cong: "(\<And>t. t \<in> set q \<Longrightarrow> sleep (f t) = sleep (g t)) \<Longrightarrow> sleep_sum f q = sleep_sum g q"
  by (induction q) auto

lemma due_fst [simp]: "map fst (due f a q) = q"
  by (induction q arbitrary: a) simp_all

lemma due_shift: "due f (a + b) q = map (\<lambda>(t, d). (t, d + b)) (due f a q)"
proof (induction q arbitrary: a)
  case (Cons t q)
  show ?case using Cons.IH [of "a + sleep (f t)"] by (simp add: algebra_simps)
qed simp

lemma due_bounds:
  "\<forall>t \<in> set q. 0 \<le> sleep (f t) \<Longrightarrow> x \<in> set (due f a q) \<Longrightarrow> a \<le> snd x \<and> snd x \<le> a + sleep_sum f q"
proof (induction q arbitrary: a)
  case (Cons t q)
  then show ?case using sleep_sum_nonneg [of q f] by (fastforce simp: algebra_simps)
qed simp

lemma add_due_end: "\<forall>y \<in> set ys. snd y \<le> snd x \<Longrightarrow> add_due x ys = ys @ [x]"
  by (induction ys) auto

lemma add_due_middle: "\<forall>y \<in> set ys. snd y \<le> snd x \<Longrightarrow> snd x < snd z \<Longrightarrow> add_due x (ys @ z # zs) = ys @ x # z # zs"
  by (induction ys) auto

lemma ull_id: "0 \<le> x \<Longrightarrow> x < 2 ^ 64 \<Longrightarrow> ull x = x"
  by (simp add: ull_def)

lemma sll_id: "- (2 ^ 63) \<le> x \<Longrightarrow> x < 2 ^ 63 \<Longrightarrow> sll x = x"
  by (simp add: sll_def)

subsection \<open>Adding a thread\<close>

lemma sleepq_insert_ok:
  assumes "distinct (t # q @ post)" "\<forall>u \<in> set q. 0 \<le> sleep (thread s u)" "tot = sleep_sum (thread s) q"
    "0 < tmo" "tmo < tot" "tot < 2 ^ 63" "tmo \<notin> snd ` set (due (thread s) 0 q)"
  shows "\<exists>p tt r w. q = p @ tt # r \<and> sleep_sum (thread s) p < tmo \<and> tmo < sleep_sum (thread s) p + sleep (thread s tt) \<and>
    sleepq_insert t tmo now tot (rev q) post s = Inr (s\<lparr>first_wake_usecs := w, sleepq := p @ t # tt # r @ post,
      thread := (thread s)(t := (thread s t)\<lparr>sleep := tmo - sleep_sum (thread s) p\<rparr>,
        tt := (thread s tt)\<lparr>sleep := sleep (thread s tt) - (tmo - sleep_sum (thread s) p)\<rparr>)\<rparr>)"
  using assms
proof (induction q arbitrary: post tot rule: rev_induct)
  case Nil
  then show ?case by simp
next
  case (snoc tt q)
  let ?T = "sleep_sum (thread s) q"
  have nn: "0 \<le> ?T" "0 \<le> sleep (thread s tt)" "tot - sleep (thread s tt) = ?T" "?T < 2 ^ 63"
    using snoc.prems sleep_sum_nonneg [of q "thread s"] by auto
  have ne: "tt \<noteq> t" using snoc.prems(1) by auto
  have neq: "?T \<noteq> tmo"
  proof (cases q rule: rev_cases)
    case Nil
    then show ?thesis using snoc.prems(4) by simp
  next
    case (snoc p u)
    then have "?T \<in> snd ` set (due (thread s) 0 (q @ [tt]))" by (simp add: due_append)
    then show ?thesis using snoc.prems(7) by metis
  qed
  show ?case
  proof (cases "?T \<le> tmo")
    case True
    then have lt: "?T < tmo" using neq by simp
    define w where "w = (if ?T = 0 then ull (now + tmo) else first_wake_usecs s)"
    have e: "sleepq_insert t tmo now tot (rev (q @ [tt])) post s = Inr (s\<lparr>first_wake_usecs := w, sleepq := q @ t # tt # post,
        thread := (thread s)(t := (thread s t)\<lparr>sleep := tmo - ?T\<rparr>,
          tt := (thread s tt)\<lparr>sleep := sleep (thread s tt) - (tmo - ?T)\<rparr>)\<rparr>)"
      using True lt nn ne snoc.prems(5,6)
      by (cases "?T = 0") (simp_all add: ull_id sll_id w_def set_thread_def Let_def)
    show ?thesis
    proof (rule exI [of _ q], rule exI [of _ tt], rule exI [of _ "[]"], rule exI [of _ w], intro conjI)
      show "sleepq_insert t tmo now tot (rev (q @ [tt])) post s = Inr (s\<lparr>first_wake_usecs := w, sleepq := q @ t # tt # [] @ post,
        thread := (thread s)(t := (thread s t)\<lparr>sleep := tmo - ?T\<rparr>,
          tt := (thread s tt)\<lparr>sleep := sleep (thread s tt) - (tmo - ?T)\<rparr>)\<rparr>)" unfolding append_Nil by (rule e)
    qed (use lt snoc.prems(3,5) in simp_all)
  next
    case False
    have "\<exists>p u r w. q = p @ u # r \<and> sleep_sum (thread s) p < tmo \<and> tmo < sleep_sum (thread s) p + sleep (thread s u) \<and>
      sleepq_insert t tmo now ?T (rev q) (tt # post) s = Inr (s\<lparr>first_wake_usecs := w, sleepq := p @ t # u # r @ tt # post,
      thread := (thread s)(t := (thread s t)\<lparr>sleep := tmo - sleep_sum (thread s) p\<rparr>,
        u := (thread s u)\<lparr>sleep := sleep (thread s u) - (tmo - sleep_sum (thread s) p)\<rparr>)\<rparr>)"
      by (rule snoc.IH) (use snoc.prems False nn in \<open>auto simp: due_append\<close>)
    then obtain p u r w where "q = p @ u # r" "sleep_sum (thread s) p < tmo" "tmo < sleep_sum (thread s) p + sleep (thread s u)"
      "sleepq_insert t tmo now ?T (rev q) (tt # post) s = Inr (s\<lparr>first_wake_usecs := w, sleepq := p @ t # u # r @ tt # post,
      thread := (thread s)(t := (thread s t)\<lparr>sleep := tmo - sleep_sum (thread s) p\<rparr>,
        u := (thread s u)\<lparr>sleep := sleep (thread s u) - (tmo - sleep_sum (thread s) p)\<rparr>)\<rparr>)" by blast
    then show ?thesis using False nn
      by - (rule exI [of _ p], rule exI [of _ u], rule exI [of _ "r @ [tt]"], rule exI [of _ w], simp add: ull_id Let_def del: fun_upd_apply)
  qed
qed

lemma sleepq_ok_max: "sleepq_ok s \<Longrightarrow> if sleepq s = [] then max_sleep_time s = 0 else 0 < max_sleep_time s"
  using sleep_sum_nonneg [of "tl (sleepq s)" "thread s"] by (cases "sleepq s") (auto simp: sleepq_ok_def)

lemma sleepq_ok_sanity: "sleepq_ok s \<Longrightarrow> fgmpi_sleepq_sanity_check s = Inr ()"
  using sleepq_ok_max [of s] by (auto simp: fgmpi_sleepq_sanity_check_def split: if_splits)

text \<open>The queue after the thread has been put between \<open>p\<close> and \<open>tt\<close>.\<close>

lemma inserted_view:
  assumes ok: "sleepq_ok s" and q: "sleepq s = p @ tt # r" and t: "t \<notin> set (sleepq s)"
    and b: "sleep_sum (thread s) p < tmo" "tmo < sleep_sum (thread s) p + sleep (thread s tt)"
    and s': "sleepq s' = p @ t # tt # r" "max_sleep_time s' = max_sleep_time s"
      "thread s' = (thread s)(t := (thread s t)\<lparr>sleep := tmo - sleep_sum (thread s) p\<rparr>,
        tt := (thread s tt)\<lparr>sleep := sleep (thread s tt) - (tmo - sleep_sum (thread s) p)\<rparr>)"
  shows "sleepq_ok s' \<and> wake_times s' = add_due (t, tmo) (wake_times s)"
proof -
  have d: "distinct (p @ tt # r)" "t \<noteq> tt" "t \<notin> set p" "t \<notin> set r" "tt \<notin> set p" "tt \<notin> set r"
    using ok q t by (auto simp: sleepq_ok_def)
  have nn: "\<forall>u \<in> set p. 0 \<le> sleep (thread s u)" "\<forall>u \<in> set r. 0 \<le> sleep (thread s u)" using ok q by (auto simp: sleepq_ok_def)
  have same: "sleep (thread s' u) = sleep (thread s u)" if "u \<in> set p \<union> set r" for u using that d by (auto simp: s'(3))
  have tp: "sleep_sum (thread s') p = sleep_sum (thread s) p" "sleep_sum (thread s') r = sleep_sum (thread s) r"
    by (rule sleep_sum_cong; use same in simp)+
  have dp: "due (thread s') a p = due (thread s) a p" "due (thread s') a r = due (thread s) a r" for a
    by (rule due_cong; use same in simp)+
  have "wake_times s' = due (thread s) 0 p @ (t, tmo) # (tt, sleep_sum (thread s) p + sleep (thread s tt)) #
      due (thread s) (sleep_sum (thread s) p + sleep (thread s tt)) r"
    using d(2) by (simp add: wake_times_def s'(1) due_append dp tp) (simp add: s'(3) add.commute)
  moreover have "\<forall>y \<in> set (due (thread s) 0 p). snd y \<le> tmo" using due_bounds [OF nn(1)] b(1) by fastforce
  then have "add_due (t, tmo) (wake_times s) = due (thread s) 0 p @ (t, tmo) # (tt, sleep_sum (thread s) p + sleep (thread s tt)) #
      due (thread s) (sleep_sum (thread s) p + sleep (thread s tt)) r"
    unfolding wake_times_def q due_append due.simps using b(2)
    by (subst add_due_middle) simp_all
  moreover have "0 < sleep (thread s' (hd (sleepq s')))"
    using ok d b same [of "hd p"] by (cases p) (auto simp: s' sleepq_ok_def q)
  then have "sleepq_ok s'"
    using ok d nn b q unfolding sleepq_ok_def s'(1,2) by (simp add: tp) (auto simp: s'(3))
  ultimately show ?thesis by simp
qed

text \<open>
  C16. Adding a sleeping thread: in the clock-synchronised queue \<open>s1\<close> the thread is put where its
  timeout belongs, behind the threads that wake no later, and the time every other thread has left
  does not change.  This needs a timeout that is not the time left of a thread in the middle of the
  queue.
\<close>

theorem sleepq_add_inserts_in_order:
  assumes "fgmpi_sleepq_check True now s = Inr s1" "sleepq_ok s1" "t \<notin> set (sleepq s1)" "sleep (thread s1 t) = -1"
    "0 < tmo" "tmo < 2 ^ 63" "tmo < max_sleep_time s1 \<Longrightarrow> tmo \<notin> snd ` set (wake_times s1)"
  shows "\<exists>s'. fgmpi_sleepq_add_thread t tmo now now' s = Inr s' \<and> sleepq_ok s' \<and>
    wake_times s' = add_due (t, tmo) (wake_times s1) \<and> max_sleep_time s' = max tmo (max_sleep_time s1)"
proof (cases "tmo \<ge> max_sleep_time s1")
  case True
  have ok: "distinct (sleepq s1)" "\<forall>u \<in> set (sleepq s1). 0 \<le> sleep (thread s1 u)"
    "max_sleep_time s1 = sleep_sum (thread s1) (sleepq s1)" using assms(2) by (auto simp: sleepq_ok_def)
  have nn: "0 \<le> max_sleep_time s1" using sleep_sum_nonneg [OF ok(2)] ok(3) by simp
  let ?w = "if sleepq_view_head_is_NULL s1 then ull (now' + tmo) else first_wake_usecs s1"
  let ?s = "s1\<lparr>first_wake_usecs := ?w, sleepq := sleepq s1 @ [t],
      thread := (thread s1)(t := (thread s1 t)\<lparr>sleep := tmo - max_sleep_time s1\<rparr>), max_sleep_time := tmo\<rparr>"
  have same: "sleep (thread ?s u) = sleep (thread s1 u)" if "u \<in> set (sleepq s1)" for u using that assms(3) by auto
  have "sleep_sum (thread ?s) (sleepq s1) = sleep_sum (thread s1) (sleepq s1)" by (rule sleep_sum_cong) (rule same)
  then have tot: "sleep_sum (thread ?s) (sleepq s1) = max_sleep_time s1" using ok(3) by simp
  have du: "due (thread ?s) 0 (sleepq s1) = wake_times s1"
    unfolding wake_times_def by (rule due_cong) (rule same)
  have "sleep_sum (thread ?s) (sleepq ?s) = tmo" using tot by simp
  moreover have "\<forall>u \<in> set (sleepq ?s). 0 \<le> sleep (thread ?s u)" using ok(2) True by auto
  moreover have "distinct (sleepq ?s)" using ok(1) assms(3) by simp
  moreover have "0 < sleep (thread ?s (hd (sleepq ?s)))"
    using assms(2,3,5) ok(3) by (cases "sleepq s1") (auto simp: sleepq_ok_def)
  ultimately have ok': "sleepq_ok ?s" using assms(5,6) unfolding sleepq_ok_def by simp
  have "wake_times ?s = wake_times s1 @ [(t, tmo)]"
    using tot du by (simp add: wake_times_def [of ?s] due_append)
  moreover have "\<forall>y \<in> set (wake_times s1). snd y \<le> tmo"
    using due_bounds [OF ok(2), of _ 0] ok(3) True by (force simp: wake_times_def)
  ultimately have "wake_times ?s = add_due (t, tmo) (wake_times s1)" by (simp add: add_due_end)
  moreover have "fgmpi_sleepq_add_thread t tmo now now' s = Inr ?s"
    using assms(1,4,5,6) True nn sleepq_ok_sanity [OF assms(2)]
    by (simp add: fgmpi_sleepq_add_thread_def Let_def sll_id set_thread_def fgmpi_sleepq_sanity_check_def)
  ultimately show ?thesis using ok' True by auto
next
  case False
  have q: "distinct (t # sleepq s1 @ [])" "\<forall>u \<in> set (sleepq s1). 0 \<le> sleep (thread s1 u)"
    "sll (max_sleep_time s1) = sleep_sum (thread s1) (sleepq s1)" "sll (max_sleep_time s1) < 2 ^ 63"
    "tmo < sll (max_sleep_time s1)" "tmo \<notin> snd ` set (due (thread s1) 0 (sleepq s1))"
    using assms False by (auto simp: sleepq_ok_def sll_id wake_times_def)
  obtain p tt r w where i: "sleepq s1 = p @ tt # r" "sleep_sum (thread s1) p < tmo" "tmo < sleep_sum (thread s1) p + sleep (thread s1 tt)"
    "sleepq_insert t tmo now' (sll (max_sleep_time s1)) (rev (sleepq s1)) [] s1 =
       Inr (s1\<lparr>first_wake_usecs := w, sleepq := p @ t # tt # r @ [],
      thread := (thread s1)(t := (thread s1 t)\<lparr>sleep := tmo - sleep_sum (thread s1) p\<rparr>,
        tt := (thread s1 tt)\<lparr>sleep := sleep (thread s1 tt) - (tmo - sleep_sum (thread s1) p)\<rparr>)\<rparr>)"
    using sleepq_insert_ok [OF q(1,2,3) assms(5) q(5,4,6), of now'] by blast
  let ?s = "s1\<lparr>first_wake_usecs := w, sleepq := p @ t # tt # r,
      thread := (thread s1)(t := (thread s1 t)\<lparr>sleep := tmo - sleep_sum (thread s1) p\<rparr>,
        tt := (thread s1 tt)\<lparr>sleep := sleep (thread s1 tt) - (tmo - sleep_sum (thread s1) p)\<rparr>)\<rparr>"
  have v: "sleepq_ok ?s \<and> wake_times ?s = add_due (t, tmo) (wake_times s1)"
    by (rule inserted_view [OF assms(2) i(1) assms(3) i(2,3)]) simp_all
  have "fgmpi_sleepq_add_thread t tmo now now' s = Inr ?s"
    using assms(1,4) False i(4) v sleepq_ok_sanity [OF assms(2)] sleepq_ok_sanity [of ?s]
    by (simp add: fgmpi_sleepq_add_thread_def)
  then show ?thesis using v False by auto
qed

lemma sleeping_facts:
  "sleepq_ok (sleeping [(2, 3), (3, 4)])" "wake_times (sleeping [(2, 3), (3, 4)]) = [(2, 3), (3, 7)]"
  "counts_ok (sleeping [(2, 3), (3, 4)])" "sleepq (sleeping [(2, 3), (3, 4)]) = [2, 3]"
  "max_sleep_time (sleeping [(2, 3), (3, 4)]) = 7" "last_check_time (sleeping [(2, 3), (3, 4)]) = 1000"
  "runlist (sch (sleeping [(2, 3), (3, 4)])) = []"
  by (simp_all add: sleepq_ok_def sleeping_def sleep_sum_def wake_times_def zero_thread_def sched_start_def counts_ok_def)

lemma sleeping_threads:
  "thread (sleeping ds) t = zero_thread\<lparr>state := (if map_of ds t = None then RUNNABLE else SUSPENDED),
     sleep := (case map_of ds t of None \<Rightarrow> -1 | Some d \<Rightarrow> d)\<rparr>" "threadlist (sleeping ds) = 1 # map fst ds"
  by (simp_all add: sleeping_def)

lemma check_sync_now:
  assumes "sleepq_ok s" "sleepq s \<noteq> []"
  shows "fgmpi_sleepq_check True (last_check_time s) s = Inr s"
proof -
  have m: "0 < max_sleep_time s" "max_sleep_time s < 2 ^ 63" "ull (max_sleep_time s) = max_sleep_time s" "ull 0 = 0"
    using assms sleepq_ok_max [OF assms(1)] by (auto simp: sleepq_ok_def ull_def)
  moreover have "sleepq_wake now 0 q s = Inr s" for now q by (cases q) simp_all
  ultimately show ?thesis using assms(2) sleepq_ok_sanity [OF assms(1)] by (simp add: fgmpi_sleepq_check_def Let_def)
qed

theorem sleepq_add_inserts_in_order_witness:
  "\<exists>s'. fgmpi_sleepq_add_thread 9 5 1000 1000 (sleeping [(2, 3), (3, 4)]) = Inr s' \<and> wake_times s' = [(2, 3), (9, 5), (3, 7)]"
proof -
  let ?s = "sleeping [(2, 3), (3, 4)]"
  have c: "fgmpi_sleepq_check True 1000 ?s = Inr ?s" using check_sync_now [of ?s] by (simp add: sleeping_facts)
  have "sleep (thread ?s 9) = -1" by (simp add: sleeping_threads)
  then have "\<exists>s'. fgmpi_sleepq_add_thread 9 5 1000 1000 ?s = Inr s' \<and> sleepq_ok s' \<and>
      wake_times s' = add_due (9, 5) (wake_times ?s) \<and> max_sleep_time s' = max 5 (max_sleep_time ?s)"
    by (intro sleepq_add_inserts_in_order [OF c]) (simp_all add: sleeping_facts)
  then show ?thesis by (auto simp: sleeping_facts)
qed

subsection \<open>Removing a thread\<close>

lemma sleepq_unlink_ok:
  "t \<notin> set p \<Longrightarrow> sleepq_unlink t pre (p @ t # r) s = sleepq_unlink t (pre @ p) (t # r) s"
  by (induction p arbitrary: pre) auto

text \<open>
  C17. A thread woken early leaves the queue: the queue holds the other threads as before, each with
  the time it had left.
\<close>

theorem sleepq_remove_keeps_times:
  assumes "sleepq_ok s" "t \<in> set (sleepq s)" "\<not> timeout (thread s t)"
  shows "\<exists>s'. fgmpi_sleepq_remove_thread t s = Inr s' \<and> sleepq_ok s' \<and> sleep (thread s' t) = -1 \<and>
    wake_times s' = filter (\<lambda>x. fst x \<noteq> t) (wake_times s)"
proof -
  obtain p r where q: "sleepq s = p @ t # r" using assms(2) by (meson split_list)
  have d: "distinct (p @ t # r)" "t \<notin> set p" "t \<notin> set r" "\<forall>u \<in> set (p @ t # r). 0 \<le> sleep (thread s u)"
    "max_sleep_time s = sleep_sum (thread s) (p @ t # r)" "max_sleep_time s < 2 ^ 63"
    "0 < sleep (thread s (hd (p @ t # r)))"
    using assms(1) q by (auto simp: sleepq_ok_def)
  have nt: "filter (\<lambda>x. fst x \<noteq> t) (due f a u) = due f a u" if "t \<notin> set u" for f a u
    using that by (induction u arbitrary: a) auto
  have c: "fgmpi_sleepq_sanity_check s = Inr ()" by (rule sleepq_ok_sanity [OF assms(1)])
  have nn: "0 \<le> sleep_sum (thread s) p" using d(4) by (intro sleep_sum_nonneg) simp
  show ?thesis
  proof (cases r)
    case Nil
    let ?s = "s\<lparr>max_sleep_time := sleep_sum (thread s) p, sleepq := p, thread := (thread s)(t := (thread s t)\<lparr>sleep := -1\<rparr>)\<rparr>"
    have same: "sleep (thread ?s u) = sleep (thread s u)" if "u \<in> set p" for u using that d(2) by auto
    have sum: "sleep_sum (thread ?s) p = sleep_sum (thread s) p" "due (thread ?s) 0 p = due (thread s) 0 p"
      by (rule sleep_sum_cong [OF same]; assumption) (rule due_cong [OF same]; assumption)
    have "p \<noteq> [] \<Longrightarrow> 0 < sleep (thread ?s (hd p))" using d(7) same [of "hd p"] by (cases p) auto
    then have ok': "sleepq_ok ?s"
      using d Nil nn sum(1) unfolding sleepq_ok_def by auto
    moreover have "fgmpi_sleepq_remove_thread t s = Inr ?s"
      using c d(2-6) Nil q assms(3) nn sleepq_ok_sanity [OF ok']
      by (simp add: fgmpi_sleepq_remove_thread_def sleepq_unlink_ok Let_def set_thread_def ull_id)
    ultimately show ?thesis using sum(2) nt d(2) Nil q by (auto simp: wake_times_def due_append)
  next
    case (Cons u r')
    have du: "u \<noteq> t" "u \<notin> set p" "u \<notin> set r'" "t \<notin> set r'" using d Cons by auto
    let ?s = "s\<lparr>sleepq := p @ u # r', thread := (thread s)(u := (thread s u)\<lparr>sleep := sleep (thread s u) + sleep (thread s t)\<rparr>,
        t := (thread s t)\<lparr>sleep := -1\<rparr>)\<rparr>"
    have same: "sleep (thread ?s v) = sleep (thread s v)" if "v \<in> set p \<union> set r'" for v using that d(2) du by auto
    have sum: "sleep_sum (thread ?s) p = sleep_sum (thread s) p" "sleep_sum (thread ?s) r' = sleep_sum (thread s) r'"
      "due (thread ?s) a p = due (thread s) a p" "due (thread ?s) a r' = due (thread s) a r'" for a
      by (rule sleep_sum_cong due_cong; use same in blast)+
    have us: "sleep (thread ?s u) = sleep (thread s u) + sleep (thread s t)" using du by simp
    have hd: "0 < sleep (thread ?s (hd (p @ u # r')))"
      using d(4,7) same [of "hd p"] Cons us by (cases p) auto
    have nn': "\<forall>v \<in> set (p @ u # r'). 0 \<le> sleep (thread ?s v)" using d(4) Cons same us by auto
    have mx: "max_sleep_time s = sleep_sum (thread ?s) (p @ u # r')"
      using d(5) Cons sum(1,2) us by (simp del: fun_upd_apply)
    have ok': "sleepq_ok ?s"
      unfolding sleepq_ok_def using d(1,6) Cons hd nn' mx by simp
    moreover have "fgmpi_sleepq_remove_thread t s = Inr ?s"
      using c d(2-6) Cons q du assms(3) sleepq_ok_sanity [OF ok']
      by (simp add: fgmpi_sleepq_remove_thread_def sleepq_unlink_ok Let_def set_thread_def fun_upd_twist)
    moreover have "wake_times ?s = filter (\<lambda>x. fst x \<noteq> t) (wake_times s)"
      using sum(1,3,4) us nt [OF d(2)] nt [OF du(4)] du Cons q by (simp add: wake_times_def due_append algebra_simps del: fun_upd_apply)
    ultimately show ?thesis using du by auto
  qed
qed

theorem sleepq_remove_keeps_times_witness:
  "\<exists>s'. fgmpi_sleepq_remove_thread 2 (sleeping [(2, 3), (3, 4)]) = Inr s' \<and> wake_times s' = [(3, 7)]"
  using sleepq_remove_keeps_times [OF sleeping_facts(1), of 2]
  by (auto simp: sleeping_facts sleeping_threads zero_thread_def)

subsection \<open>Waking threads\<close>

text \<open>The state after a thread has been woken: what the loop of \<^verbatim>\<open>fgmpi_sleepq_check\<close> does for one element.\<close>

lemma wake_one:
  assumes "counts_ok s" "t \<in> set (threadlist s)" "state (thread s t) = SUSPENDED"
  shows "\<exists>s'. u_thread_resume t (set_thread t (\<lambda>x. x\<lparr>sleep := -1, timeout := True\<rparr>) s) = Inr s' \<and> counts_ok s' \<and>
    thread s' = (thread s)(t := (thread s t)\<lparr>sleep := -1, timeout := True, state := RUNNABLE\<rparr>) \<and>
    threadlist s' = threadlist s \<and> runlist (sch s') = runlist (sch s) @ [t] \<and> max_sleep_time s' = max_sleep_time s \<and>
    last_check_time s' = last_check_time s"
proof -
  let ?a = "set_thread t (\<lambda>x. x\<lparr>sleep := -1, timeout := True\<rparr>) s"
  let ?b = "?a\<lparr>num_suspended_threads := num_suspended_threads s - 1, num_runnable_threads := num_runnable_threads s + 1\<rparr>"
  let ?s = "add_to_scheduler t (set_thread t (\<lambda>x. x\<lparr>state := RUNNABLE\<rparr>) ?b)"
  have "0 < cnt (\<lambda>x. state x = SUSPENDED) (thread s) (threadlist s)" using assms(2,3) by (rule cnt_pos)
  then have "check_threadcounts ?b = Inr ()"
    using counts_sanity [OF assms(1)] assms(1)
    by (simp add: check_threadcounts_def sanity_check_threadcounts_def counts_ok_def)
  moreover have "last_check_time ?s = last_check_time s" by (simp add: add_to_scheduler_def)
  ultimately have "u_thread_resume t ?a = Inr ?s \<and> last_check_time ?s = last_check_time s" using assms(3) by (simp add: u_thread_resume_def Let_def)
  moreover have th: "thread ?s = (thread s)(t := (thread s t)\<lparr>sleep := -1, timeout := True, state := RUNNABLE\<rparr>)" by simp
  have "counts_ok ?s"
    using assms unfolding counts_ok_def th by (simp add: cnt_upd del: fun_upd_apply) auto
  ultimately show ?thesis using th by auto
qed

lemma due_from: "due f d q = map (\<lambda>(t, e). (t, e + d)) (due f 0 q)"
  using due_shift [of f 0 d q] by simp

lemma later_shift: "later i (map (\<lambda>(t, e). (t, e + d)) ds) = later (i - d) ds"
  by (induction ds) (auto simp: later_def algebra_simps)

lemma expired_shift: "expired i (map (\<lambda>(t, e). (t, e + d)) ds) = expired (i - d) ds"
  by (induction ds) (auto simp: expired_def algebra_simps)

lemma no_tie_shift: "no_tie i (map (\<lambda>(t, e). (t, e + d)) ds) = no_tie (i - d) ds"
proof -
  have "length (filter (\<lambda>x. snd x = i) (map (\<lambda>(t, e). (t, e + d)) ds)) = length (filter (\<lambda>x. snd x = i - d) ds)"
    by (induction ds) auto
  then show ?thesis by (simp add: no_tie_def)
qed

lemma no_tie_Cons: "no_tie i (x # ds) \<Longrightarrow> no_tie i ds"
  by (auto simp: no_tie_def split: if_splits)

lemma all_later:
  assumes "\<forall>t \<in> set q. 0 \<le> sleep (f t)" "i < sleep (f t)"
  shows "later i (due f 0 (t # q)) = (t, sleep (f t) - i) # due f (sleep (f t) - i) q" "expired i (due f 0 (t # q)) = []"
proof -
  have l: "i < snd x" if "x \<in> set (due f (sleep (f t)) q)" for x
    using due_bounds [OF assms(1) that] assms(2) by simp
  have "filter (\<lambda>x. i < snd x) (due f (sleep (f t)) q) = due f (sleep (f t)) q"
    "filter (\<lambda>x. snd x \<le> i) (due f (sleep (f t)) q) = []"
    using l by (simp_all add: filter_empty_conv linorder_not_le)
  then show "later i (due f 0 (t # q)) = (t, sleep (f t) - i) # due f (sleep (f t) - i) q" "expired i (due f 0 (t # q)) = []"
    using assms(2) due_shift [of f "sleep (f t)" "- i" q] by (simp_all add: later_def expired_def)
qed

lemma sleepq_wake_ok:
  assumes "sleepq s = q" "counts_ok s" "\<forall>t \<in> set q. t \<in> set (threadlist s) \<and> state (thread s t) = SUSPENDED"
    "distinct q" "\<forall>t \<in> set q. 0 \<le> sleep (thread s t)" "0 \<le> i"
    "i = 0 \<Longrightarrow> q \<noteq> [] \<Longrightarrow> 0 < sleep (thread s (hd q))" "no_tie i (due (thread s) 0 q)"
  shows "\<exists>s'. sleepq_wake now i q s = Inr s' \<and> woken i q s s'"
  using assms
proof (induction q arbitrary: s i)
  case Nil
  then show ?case by (simp add: woken_def wake_times_def later_def expired_def)
next
  case (Cons t q)
  have nn: "\<forall>u \<in> set q. 0 \<le> sleep (thread s u)" using Cons.prems(5) by simp
  show ?case
  proof (cases "i < sleep (thread s t)")
    case True
    note al = all_later [OF nn True]
    let ?s = "(set_thread t (\<lambda>x. x\<lparr>sleep := sleep x - i\<rparr>) s)\<lparr>first_wake_usecs := ull (now + (sleep (thread s t) - i))\<rparr>"
    define r where "r = (if 0 < i then ?s else s)"
    have f: "sleepq r = t # q" "threadlist r = threadlist s" "max_sleep_time r = max_sleep_time s" "sch r = sch s"
      "last_check_time r = last_check_time s"
      using Cons.prems(1) by (simp_all add: r_def)
    have same: "thread r u = thread s u" if "u \<noteq> t" for u using that by (auto simp: r_def)
    have t: "sleep (thread r t) = sleep (thread s t) - i" using Cons.prems(6) by (auto simp: r_def)
    have "due (thread r) a q = due (thread s) a q" for a
      by (rule due_cong) (metis same Cons.prems(4) distinct.simps(2))
    then have "wake_times r = later i (due (thread s) 0 (t # q))"
      unfolding al(1) by (simp add: wake_times_def t f(1))
    moreover have "counts_ok r"
      using Cons.prems(2,3) unfolding counts_ok_def r_def by (auto simp: cnt_upd simp del: fun_upd_apply) (auto split: if_splits)
    moreover have "sleepq_wake now i (t # q) s = Inr r" using True by (auto simp: Let_def r_def)
    moreover have "\<forall>u \<in> set (sleepq r). 0 \<le> sleep (thread r u)" using True t f(1) nn same by (metis (no_types) diff_ge_0_iff_ge less_imp_le set_ConsD)
    ultimately show ?thesis
      using True t same f unfolding al(2) woken_def by auto
  next
    case False
    then have pos: "0 < i" using Cons.prems(5,6,7) by (cases "i = 0") auto
    obtain s1 where s1: "u_thread_resume t (set_thread t (\<lambda>x. x\<lparr>sleep := -1, timeout := True\<rparr>) s) = Inr s1" "counts_ok s1"
      "thread s1 = (thread s)(t := (thread s t)\<lparr>sleep := -1, timeout := True, state := RUNNABLE\<rparr>)"
      "threadlist s1 = threadlist s" "runlist (sch s1) = runlist (sch s) @ [t]" "max_sleep_time s1 = max_sleep_time s" "last_check_time s1 = last_check_time s"
      using wake_one [OF Cons.prems(2), of t] Cons.prems(3) by auto
    let ?s = "s1\<lparr>sleepq := q\<rparr>" and ?d = "sleep (thread s t)"
    have same: "thread s1 u = thread s u" if "u \<in> set q" for u using that Cons.prems(4) s1(3) by auto
    have du: "due (thread s1) a q = due (thread s) a q" for a by (rule due_cong) (simp add: same)
    have dq: "due (thread s) 0 (t # q) = (t, ?d) # map (\<lambda>(t, e). (t, e + ?d)) (due (thread s) 0 q)"
      using due_from [of "thread s" ?d q] by simp
    have tie: "no_tie (i - ?d) (due (thread s) 0 q)"
      using no_tie_Cons [OF Cons.prems(8) [unfolded dq]] unfolding no_tie_shift .
    have hd: "0 < sleep (thread s (hd q))" if "i - ?d = 0" "q \<noteq> []"
    proof (rule ccontr)
      assume "\<not> 0 < sleep (thread s (hd q))"
      then have "sleep (thread s (hd q)) = 0" using nn that(2) by (cases q) auto
      then show False using Cons.prems(8) that by (cases q) (auto simp: no_tie_def)
    qed
    have "\<exists>s'. sleepq_wake now (i - ?d) q ?s = Inr s' \<and> woken (i - ?d) q ?s s'"
    proof (rule Cons.IH)
      show "counts_ok ?s" using s1(2) by (simp add: counts_ok_def)
      show "no_tie (i - ?d) (due (thread ?s) 0 q)" using tie du by simp
      show "0 < sleep (thread ?s (hd q))" if "i - ?d = 0" "q \<noteq> []" using hd that same [of "hd q"] by simp
    qed (use Cons.prems False same s1(4) in auto)
    then obtain s' where s': "sleepq_wake now (i - ?d) q ?s = Inr s'" "woken (i - ?d) q ?s s'" by blast
    have "thread s' t = thread s1 t" using s'(2) Cons.prems(4) by (simp add: woken_def)
    moreover have "later i (due (thread s) 0 (t # q)) = later (i - ?d) (due (thread s) 0 q)"
      unfolding dq later_shift [symmetric, of _ ?d] using False by (simp add: later_def)
    moreover have "expired i (due (thread s) 0 (t # q)) = t # expired (i - ?d) (due (thread s) 0 q)"
      unfolding dq expired_shift [symmetric, of _ ?d] using False by (simp add: expired_def)
    ultimately have "woken i (t # q) s s'" using s'(2) s1 du by (simp add: woken_def)
    then show ?thesis using s'(1) s1(1) pos False by simp
  qed
qed

lemma due_Nil_iff [simp]: "due f a q = [] \<longleftrightarrow> q = []"
  by (cases q) simp_all

lemma due_last: "q \<noteq> [] \<Longrightarrow> snd (last (due f a q)) = a + sleep_sum f q"
  by (induction q arbitrary: a) auto

lemma last_filter: "xs \<noteq> [] \<Longrightarrow> P (last xs) \<Longrightarrow> filter P xs \<noteq> [] \<and> last (filter P xs) = last xs"
  by (induction xs) (auto simp: filter_empty_conv split: if_splits)

lemma sleep_sum_wake_times: "sleep_sum (thread s) (sleepq s) = (if wake_times s = [] then 0 else snd (last (wake_times s)))"
  using due_last [of "sleepq s" "thread s" 0] by (cases "sleepq s") (auto simp: wake_times_def)

lemma wake_times_sleepq: "sleepq s = map fst (wake_times s)"
  by (simp add: wake_times_def)

lemma later_fst: "map fst (later i ds) = map fst (filter (\<lambda>x. i < snd x) ds)"
  by (induction ds) (auto simp: later_def)

lemma later_sum:
  assumes "sleepq_ok s" "wake_times s' = later i (wake_times s)" "0 \<le> i"
  shows "sleep_sum (thread s') (sleepq s') = (if max_sleep_time s < i then 0 else max_sleep_time s - i)"
proof -
  have mx: "max_sleep_time s = (if wake_times s = [] then 0 else snd (last (wake_times s)))"
    using assms(1) sleep_sum_wake_times [of s] by (simp add: sleepq_ok_def)
  show ?thesis
  proof (cases "i < max_sleep_time s")
    case True
    then have ne: "wake_times s \<noteq> []" using mx assms(3) by auto
    have "filter (\<lambda>x. i < snd x) (wake_times s) \<noteq> [] \<and> last (filter (\<lambda>x. i < snd x) (wake_times s)) = last (wake_times s)"
      using True mx ne by (intro last_filter) auto
    then have "wake_times s' \<noteq> []" "snd (last (wake_times s')) = max_sleep_time s - i"
      using mx ne unfolding assms(2) later_def by (auto simp: last_map split: prod.split)
    then show ?thesis using True by (simp add: sleep_sum_wake_times)
  next
    case False
    have "snd x \<le> max_sleep_time s" if "x \<in> set (wake_times s)" for x
      using due_bounds [of "sleepq s" "thread s" x 0] that assms(1) by (simp add: wake_times_def sleepq_ok_def)
    then have "wake_times s' = []" using False unfolding assms(2) later_def by (fastforce simp: filter_empty_conv)
    then show ?thesis using False by (simp add: sleep_sum_wake_times)
  qed
qed

text \<open>
  C18. Advancing the clock: the check wakes exactly the threads whose time has run out, puts them at
  the end of the run list in the order of their times, marks them as timed out, and takes the elapsed
  time off what the others have left.  This needs that no two threads run out in the same microsecond
  in which the check is made.
\<close>

theorem sleepq_check_wakes_expired:
  assumes "sleepq_ok s" "sleepers_ok s" "last_check_time s \<le> now" "now - last_check_time s < 2 ^ 63"
    "no_tie (now - last_check_time s) (wake_times s)" "sync \<or> sleepq s \<noteq> []"
  shows "\<exists>s'. fgmpi_sleepq_check sync now s = Inr s' \<and> sleepq_ok s' \<and> last_check_time s' = now \<and>
    wake_times s' = later (now - last_check_time s) (wake_times s) \<and>
    runlist (sch s') = runlist (sch s) @ expired (now - last_check_time s) (wake_times s) \<and>
    (\<forall>t \<in> set (expired (now - last_check_time s) (wake_times s)). state (thread s' t) = RUNNABLE \<and> timeout (thread s' t))"
proof -
  let ?i = "now - last_check_time s"
  let ?m = "if max_sleep_time s < ?i then 0 else max_sleep_time s - ?i"
  let ?a = "s\<lparr>last_check_time := now, max_sleep_time := ?m\<rparr>"
  have mx: "0 \<le> max_sleep_time s" "max_sleep_time s < 2 ^ 63" using sleepq_ok_max [OF assms(1)] assms(1)
    by (auto simp: sleepq_ok_def split: if_splits)
  have iv: "(if now > last_check_time s then sll (now - last_check_time s) else 0) = ?i"
    using assms(3,4) by (simp add: sll_id)
  have m: "(if max_sleep_time s < ull ?i then 0 else ull (max_sleep_time s - ?i)) = ?m"
    using assms(3,4) mx by (simp add: ull_id)
  have "\<exists>s'. sleepq_wake now ?i (sleepq s) ?a = Inr s' \<and> woken ?i (sleepq s) ?a s'"
    by (rule sleepq_wake_ok)
      (use assms in \<open>auto simp: sleepq_ok_def sleepers_ok_def counts_ok_def wake_times_def\<close>)
  then obtain s1 where s1: "sleepq_wake now ?i (sleepq s) ?a = Inr s1" "woken ?i (sleepq s) ?a s1" by blast
  let ?s = "if length (sleepq s1) = 0 then s1\<lparr>first_wake_usecs := 0\<rparr> else s1"
  have w: "wake_times s1 = later ?i (wake_times s)" "max_sleep_time s1 = ?m" "last_check_time s1 = now"
    "\<forall>t \<in> set (sleepq s1). 0 \<le> sleep (thread s1 t)" "sleepq s1 \<noteq> [] \<longrightarrow> 0 < sleep (thread s1 (hd (sleepq s1)))"
    using s1(2) by (simp_all add: woken_def wake_times_def [of s])
  have "distinct (sleepq s1)"
    using assms(1) unfolding wake_times_sleepq [of s1] w(1) later_fst
    by (simp add: sleepq_ok_def wake_times_sleepq [of s] distinct_map_filter)
  moreover have "sleep_sum (thread s1) (sleepq s1) = ?m" by (rule later_sum [OF assms(1) w(1)]) (use assms(3) in simp)
  ultimately have ok1: "sleepq_ok s1" using w mx assms(3) unfolding sleepq_ok_def by auto
  have ok': "sleepq_ok ?s" "wake_times ?s = wake_times s1" using ok1 by (auto simp: sleepq_ok_def wake_times_def)
  have nz: "sync \<or> max_sleep_time s \<noteq> 0" using assms(6) sleepq_ok_max [OF assms(1)] by (auto split: if_splits)
  have "fgmpi_sleepq_check sync now s = Inr ?s"
    unfolding fgmpi_sleepq_check_def Let_def iv m sleepq_ok_sanity [OF assms(1)]
    using nz s1(1) sleepq_ok_sanity [OF ok'(1)] by (auto simp: fgmpi_sleepq_sanity_check_def)
  then show ?thesis
    using ok' w s1(2) by (auto simp: woken_def wake_times_def [of s])
qed

theorem sleepq_check_wakes_expired_witness:
  "\<exists>s'. fgmpi_sleepq_check False 1004 (sleeping [(2, 3), (3, 4)]) = Inr s' \<and> wake_times s' = [(3, 3)] \<and> runlist (sch s') = [2]"
proof -
  have "sleepers_ok (sleeping [(2, 3), (3, 4)])" by (simp add: sleepers_ok_def sleeping_facts sleeping_threads)
  then show ?thesis
    using sleepq_check_wakes_expired [OF sleeping_facts(1), of 1004 False]
    by (auto simp: sleeping_facts no_tie_def later_def expired_def)
qed

subsection \<open>Equal times\<close>

text \<open>
  C19. Threads that run out together stop the program.  When the two threads of the queue have the
  same time left and a check is made exactly at that time, the second one stays in the queue with
  nothing left, and the check of the queue fails; and a thread that asks for exactly the time the first
  of two threads has left fails the assertion on its own delay.
\<close>

theorem sleepq_ties_fail:
  assumes "sleepq_ok s" "sleepers_ok s" "sleepq s = [a, b]"
  shows "(sleep (thread s b) = 0 \<and> now = last_check_time s + sleep (thread s a) \<longrightarrow>
      fgmpi_sleepq_check sync now s = Inl (Assert_failed ''fgmpi_sleepq_sanity_check'')) \<and>
    (0 < sleep (thread s b) \<and> now = last_check_time s \<and> sleep (thread s t) = -1 \<longrightarrow>
      fgmpi_sleepq_add_thread t (sleep (thread s a)) now now' s = Inl (Assert_failed ''t->sleep > 0''))"
proof -
  have ok: "0 < sleep (thread s a)" "a \<noteq> b" "0 \<le> sleep (thread s b)" "max_sleep_time s = sleep (thread s a) + sleep (thread s b)"
    "max_sleep_time s < 2 ^ 63"
    using assms by (auto simp: sleepq_ok_def)
  let ?d = "sleep (thread s a)"
  have 1: "fgmpi_sleepq_check sync now s = Inl (Assert_failed ''fgmpi_sleepq_sanity_check'')"
    if z: "sleep (thread s b) = 0" and n: "now = last_check_time s + ?d"
  proof -
    let ?s = "s\<lparr>last_check_time := now, max_sleep_time := 0\<rparr>"
    have "counts_ok ?s" "a \<in> set (threadlist ?s)" "state (thread ?s a) = SUSPENDED"
      using assms(2,3) by (auto simp: sleepers_ok_def counts_ok_def)
    then obtain s1 where s1: "u_thread_resume a (set_thread a (\<lambda>x. x\<lparr>sleep := -1, timeout := True\<rparr>) ?s) = Inr s1"
      "max_sleep_time s1 = 0" using wake_one [of ?s a] by auto
    then have w: "sleepq_wake now ?d [a, b] ?s = Inr (s1\<lparr>sleepq := [b]\<rparr>)" using ok by simp
    have e: "ull 0 = 0" "ull ?d = ?d" "sll ?d = ?d" using ok z by (auto simp: ull_def sll_def)
    show ?thesis using ok z s1(2) w sleepq_ok_sanity [OF assms(1)] assms(3) e
      by (simp add: fgmpi_sleepq_check_def n Let_def fgmpi_sleepq_sanity_check_def check_def)
  qed
  have 2: "fgmpi_sleepq_add_thread t ?d now now' s = Inl (Assert_failed ''t->sleep > 0'')"
    if p: "0 < sleep (thread s b)" and n: "now = last_check_time s" and t: "sleep (thread s t) = -1"
  proof -
    have "ull ?d = ?d" "sll 0 = 0" "sll (?d + sleep (thread s b)) = ?d + sleep (thread s b)"
      using ok by (auto simp: ull_def sll_def)
    then show ?thesis
      using ok p t check_sync_now [OF assms(1)] sleepq_ok_sanity [OF assms(1)] assms(3) n
      by (simp add: fgmpi_sleepq_add_thread_def Let_def check_def)
  qed
  show ?thesis using 1 2 by blast
qed

theorem sleepq_ties_fail_witness:
  "fgmpi_sleepq_add_thread 9 3 1000 1000 (sleeping [(2, 3), (3, 4)]) = Inl (Assert_failed ''t->sleep > 0'') \<and>
   fgmpi_sleepq_check False 1003 (sleeping [(2, 3), (3, 0)]) = Inl (Assert_failed ''fgmpi_sleepq_sanity_check'')"
proof -
  let ?a = "sleeping [(2, 3), (3, 4)]" and ?b = "sleeping [(2, 3), (3, 0)]"
  have a: "sleepers_ok ?a" by (simp add: sleepers_ok_def sleeping_facts sleeping_threads)
  have b: "sleepq_ok ?b" "sleepers_ok ?b" "sleepq ?b = [2, 3]" "last_check_time ?b = 1000"
    by (simp_all add: sleepers_ok_def sleepq_ok_def counts_ok_def sleep_sum_def sleeping_def zero_thread_def)
  show ?thesis
    using sleepq_ties_fail [OF sleeping_facts(1) a sleeping_facts(4), of 1000 False 9 1000]
      sleepq_ties_fail [OF b(1-3), of 1003 False] b(4)
    by (simp add: sleeping_facts sleeping_threads)
qed

text \<open>
  The first thread put to sleep does not set the time of the next wake-up, though the code means it to:
  the head of an empty pointer list is \<^verbatim>\<open>(void *)-1\<close>, not NULL.
\<close>

theorem first_sleeper_sets_no_wake_time:
  assumes "sleepq s = []" "max_sleep_time s = 0" "sleep (thread s t) = -1" "0 < tmo" "tmo < 2 ^ 63"
    "last_check_time s \<le> now" "now - last_check_time s < 2 ^ 63"
  shows "\<exists>s'. fgmpi_sleepq_add_thread t tmo now now' s = Inr s' \<and> wake_times s' = [(t, tmo)] \<and> first_wake_usecs s' = 0"
proof -
  have "ull 0 = 0" "sll 0 = 0" "sll tmo = tmo" "sll (now - last_check_time s) = now - last_check_time s"
    "ull (now - last_check_time s) = now - last_check_time s"
    using assms by (auto simp: ull_def sll_def)
  then show ?thesis using assms
    by (simp add: fgmpi_sleepq_add_thread_def fgmpi_sleepq_check_def fgmpi_sleepq_sanity_check_def Let_def
        sleepq_view_head_is_NULL_def wake_times_def)
qed

theorem first_sleeper_sets_no_wake_time_witness:
  "\<exists>s'. fgmpi_sleepq_add_thread 9 5 1200 1200 (sleeping []) = Inr s' \<and> wake_times s' = [(9, 5)] \<and> first_wake_usecs s' = 0"
proof -
  have "sleepq (sleeping []) = []" "max_sleep_time (sleeping []) = 0" "sleep (thread (sleeping []) 9) = -1"
    "last_check_time (sleeping []) = 1000" by (simp_all add: sleeping_def zero_thread_def)
  then show ?thesis using first_sleeper_sets_no_wake_time [of "sleeping []" 9 5 1200 1200] by simp
qed

end
