(* ===== verification/Recv_Queue.thy ===== *)
theory Recv_Queue
  imports FG_Prelude
begin

unbundle bit_operations_syntax

section \<open>The receive queues (\<^verbatim>\<open>mpid/ch3/src/ch3u_recvq.c\<close>)\<close>

text \<open>
  Message matching: each FG process of the operating-system process has a queue of posted receives
  and a queue of unexpected messages.  Requests live in a store; the queues are chains of the field
  \<^verbatim>\<open>dev.next\<close> between a head and a tail pointer, as in the code.  Modelled is the
  \<^verbatim>\<open>FINEGRAIN_MPI\<close> variant.  \<^verbatim>\<open>int\<close> is 32 bits, a context id 16 bits.  The length and
  buffer-size performance variables are part of the state; match counters and timers are not.
  What is outside this file (the virtual connection of a rank, whether the channel has matched a request
  itself, collocation, memory for zero-copy receives) is an argument.
\<close>

subsection \<open>Matching\<close>

record match_parts =
  m_tag :: "32 word"
  m_rank :: "32 word"
  m_context_id :: "16 word"
  m_dest_rank :: "32 word"

definition MPI_ANY_SOURCE :: "32 word" where "MPI_ANY_SOURCE = -2"
definition MPI_ANY_TAG :: "32 word" where "MPI_ANY_TAG = -1"
definition MPIR_TAG_ERROR_BIT :: "32 word" where "MPIR_TAG_ERROR_BIT = push_bit 30 1"
definition MPIR_TAG_PROC_FAILURE_BIT :: "32 word" where "MPIR_TAG_PROC_FAILURE_BIT = push_bit 29 1"

definition MPIR_TAG_CHECK_ERROR_BIT :: "32 word \<Rightarrow> bool" where
  "MPIR_TAG_CHECK_ERROR_BIT t \<longleftrightarrow> MPIR_TAG_ERROR_BIT AND t = MPIR_TAG_ERROR_BIT"

definition MPIR_TAG_CHECK_PROC_FAILURE_BIT :: "32 word \<Rightarrow> bool" where
  "MPIR_TAG_CHECK_PROC_FAILURE_BIT t \<longleftrightarrow> MPIR_TAG_PROC_FAILURE_BIT AND t = MPIR_TAG_PROC_FAILURE_BIT"

definition MPIR_TAG_SET_ERROR_BIT :: "32 word \<Rightarrow> 32 word" where
  "MPIR_TAG_SET_ERROR_BIT t = t OR MPIR_TAG_ERROR_BIT"

definition MPIR_TAG_SET_PROC_FAILURE_BIT :: "32 word \<Rightarrow> 32 word" where
  "MPIR_TAG_SET_PROC_FAILURE_BIT t = t OR (MPIR_TAG_ERROR_BIT OR MPIR_TAG_PROC_FAILURE_BIT)"

definition MPIR_TAG_CLEAR_ERROR_BITS :: "32 word \<Rightarrow> 32 word" where
  "MPIR_TAG_CLEAR_ERROR_BITS t = t AND NOT (MPIR_TAG_ERROR_BIT XOR MPIR_TAG_PROC_FAILURE_BIT)"

definition MPIR_TAG_MASK_ERROR_BITS :: "32 word \<Rightarrow> 32 word" where
  "MPIR_TAG_MASK_ERROR_BITS t = t AND NOT (MPIR_TAG_ERROR_BIT XOR MPIR_TAG_PROC_FAILURE_BIT)"

definition MPIR_SHRINK_TAG :: "32 word" where "MPIR_SHRINK_TAG = 29"
definition MPIR_AGREE_TAG :: "32 word" where "MPIR_AGREE_TAG = 30"

definition MATCH_WITH_LEFT_MASK :: "match_parts \<Rightarrow> match_parts \<Rightarrow> match_parts \<Rightarrow> bool" where
  "MATCH_WITH_LEFT_MASK match1 match2 msk \<longleftrightarrow>
     m_dest_rank match1 AND m_dest_rank msk = m_dest_rank match2 \<and>
     m_rank match1 AND m_rank msk = m_rank match2 \<and>
     m_tag match1 AND m_tag msk = m_tag match2 \<and>
     m_context_id match1 = m_context_id match2"

definition MATCH_WITH_LEFT_RIGHT_MASK :: "match_parts \<Rightarrow> match_parts \<Rightarrow> match_parts \<Rightarrow> bool" where
  "MATCH_WITH_LEFT_RIGHT_MASK match1 match2 msk \<longleftrightarrow>
     m_dest_rank match1 AND m_dest_rank msk = m_dest_rank match2 AND m_dest_rank msk \<and>
     m_rank match1 AND m_rank msk = m_rank match2 AND m_rank msk \<and>
     m_tag match1 AND m_tag msk = m_tag match2 AND m_tag msk \<and>
     m_context_id match1 = m_context_id match2"

text \<open>
  The pair of match and mask a search of the unexpected queue is made with: \<^verbatim>\<open>MPIDI_CH3U_Recvq_FU\<close>,
  \<^verbatim>\<open>_FDU_matchonly\<close> and \<^verbatim>\<open>_FDU_or_AEP\<close> build it in the same way.
\<close>

definition search_match :: "32 word \<Rightarrow> 32 word \<Rightarrow> 32 word \<Rightarrow> 32 word \<Rightarrow> match_parts \<times> match_parts" where
  "search_match source tag context_id fgrank =
     (let match = \<lparr>m_tag = tag, m_rank = source, m_context_id = ucast context_id, m_dest_rank = fgrank\<rparr>;
          msk = \<lparr>m_tag = MPIR_TAG_CLEAR_ERROR_BITS (NOT 0), m_rank = NOT 0, m_context_id = NOT 0, m_dest_rank = NOT 0\<rparr> in
      if tag \<noteq> MPI_ANY_TAG \<and> source \<noteq> MPI_ANY_SOURCE then (match, msk)
      else
        let (match1, mask1) = (if tag = MPI_ANY_TAG then (match\<lparr>m_tag := 0\<rparr>, msk\<lparr>m_tag := 0\<rparr>) else (match, msk)) in
        if source = MPI_ANY_SOURCE then (match1\<lparr>m_rank := 0\<rparr>, mask1\<lparr>m_rank := 0\<rparr>) else (match1, mask1))"

subsection \<open>Requests and queues\<close>

datatype msg_type = NO_MSG | EAGER_MSG | RNDV_MSG | SELF_MSG

datatype req_error = MPI_SUCCESS | MPIX_ERR_PROC_FAILED | MPIX_ERR_REVOKED

record request =
  r_match :: match_parts
  r_mask :: match_parts
  r_comm :: addr
  user_buf :: addr
  user_buf_handle :: addr
  user_count :: int
  datatype_handle :: int
  sender_req_id :: int
  tmpbuf_sz :: int
  r_msg_type :: msg_type
  self_zerocopy :: bool
  recv_pending_count :: int
  status_SOURCE :: int
  status_TAG :: int
  status_ERROR :: req_error
  status_count :: int
  status_cancelled :: bool
  completed :: bool

datatype qid = Posted nat | Unexpected nat

text \<open>
  \<open>ends\<close>: the arrays of head and tail pointers; \<open>notified\<close>: the ranks \<^verbatim>\<open>FG_Notify_on_event\<close> was
  called for, in order; \<open>handles\<close>: what the user's buffer handles point to.
\<close>

record recvq =
  req :: "addr \<Rightarrow> request"
  r_next :: "addr \<Rightarrow> addr"
  next_req :: addr
  ends :: "qid \<Rightarrow> addr \<times> addr"
  nfg :: "32 word"
  fgstartrank :: "32 word"
  my_fgrank :: "32 word"
  posted_recvq_length :: int
  unexpected_recvq_length :: int
  unexpected_recvq_buffer_size :: int
  comm_ref :: "addr \<Rightarrow> int"
  notified :: "32 word list"
  handles :: "addr \<Rightarrow> addr"

definition set_req :: "addr \<Rightarrow> (request \<Rightarrow> request) \<Rightarrow> recvq \<Rightarrow> recvq" where
  "set_req r f s = s\<lparr>req := (req s)(r := f (req s r))\<rparr>"

definition q_head :: "qid \<Rightarrow> recvq \<Rightarrow> addr" where
  "q_head q s = fst (ends s q)"

definition q_tail :: "qid \<Rightarrow> recvq \<Rightarrow> addr" where
  "q_tail q s = snd (ends s q)"

definition MPIR_Comm_add_ref :: "addr \<Rightarrow> recvq \<Rightarrow> recvq" where
  "MPIR_Comm_add_ref c s = s\<lparr>comm_ref := (comm_ref s)(c := comm_ref s c + 1)\<rparr>"

definition GET_MATCH_QUEUE_INDEX :: "32 word \<Rightarrow> recvq \<Rightarrow> nat outcome" where
  "GET_MATCH_QUEUE_INDEX matchrank s =
     (let index = matchrank - fgstartrank s in
      bind_outcome (check (0 \<le> sint index \<and> sint index < sint (nfg s)) ''(*index >= 0) && (*index < nfg)'') (\<lambda>_.
      Inr (unat index)))"

text \<open>
  \<^verbatim>\<open>MPIDI_Request_create_rreq\<close> over \<^verbatim>\<open>MPID_Request_create\<close>: the fields it sets, and \<open>junk\<close>
  for those it does not.  Requests do not run out here: the macro ignores the statement its callers
  pass for a failure and writes through the null pointer.
\<close>

definition MPID_Request_create :: "request \<Rightarrow> request" where
  "MPID_Request_create junk = junk\<lparr>r_comm := NULL, user_buf := NULL, r_msg_type := NO_MSG, self_zerocopy := False,
     status_SOURCE := -32766, status_TAG := -32766, status_ERROR := MPI_SUCCESS, status_count := 0,
     status_cancelled := False, completed := False\<rparr>"

definition MPIDI_Request_create_rreq :: "request \<Rightarrow> recvq \<Rightarrow> addr \<times> recvq" where
  "MPIDI_Request_create_rreq junk s =
     (let r = next_req s in (r, s\<lparr>next_req := r + 1, req := (req s)(r := MPID_Request_create junk)\<rparr>))"

text \<open>
  Taking a request out of a chain and putting one at its end: the pointer updates the functions below
  share.
\<close>

definition unlink :: "qid \<Rightarrow> addr \<Rightarrow> addr \<Rightarrow> recvq \<Rightarrow> recvq" where
  "unlink q prev cur s =
     (let nx = r_next s cur;
          s1 = (if prev \<noteq> NULL then s\<lparr>r_next := (r_next s)(prev := nx)\<rparr>
                else s\<lparr>ends := (ends s)(q := (nx, q_tail q s))\<rparr>) in
      if nx = NULL then s1\<lparr>ends := (ends s1)(q := (q_head q s1, prev))\<rparr> else s1)"

definition enqueue :: "qid \<Rightarrow> addr \<Rightarrow> recvq \<Rightarrow> recvq" where
  "enqueue q r s =
     (let s1 = s\<lparr>r_next := (r_next s)(r := NULL)\<rparr>;
          s2 = (if q_tail q s1 \<noteq> NULL then s1\<lparr>r_next := (r_next s1)(q_tail q s1 := r)\<rparr>
                else s1\<lparr>ends := (ends s1)(q := (r, q_tail q s1))\<rparr>) in
      s2\<lparr>ends := (ends s2)(q := (q_head q s2, r))\<rparr>)"

text \<open>The search loops; they do not return on a cyclic chain.  The result is the predecessor and the request found.\<close>

partial_function (option) q_find :: "(addr \<Rightarrow> bool) \<Rightarrow> (addr \<Rightarrow> addr) \<Rightarrow> addr \<Rightarrow> addr \<Rightarrow> (addr \<times> addr) option" where
  "q_find P nx prev cur =
     (if cur = NULL then Some (prev, NULL)
      else if P cur then Some (prev, cur)
      else q_find P nx cur (nx cur))"

partial_function (option) q_find_last ::
  "(addr \<Rightarrow> bool) \<Rightarrow> (addr \<Rightarrow> addr) \<Rightarrow> addr \<Rightarrow> addr \<Rightarrow> addr \<times> addr \<Rightarrow> (addr \<times> addr) option" where
  "q_find_last P nx prev cur best =
     (if cur = NULL then Some best
      else q_find_last P nx cur (nx cur) (if P cur then (prev, cur) else best))"

subsection \<open>Operations\<close>

text \<open>The status of a probe: source, tag, count and cancel bit.\<close>

definition MPIDI_CH3U_Recvq_FU ::
  "32 word \<Rightarrow> 32 word \<Rightarrow> 32 word \<Rightarrow> recvq \<Rightarrow> (int \<times> int \<times> int \<times> bool) option outcome" where
  "MPIDI_CH3U_Recvq_FU source tag context_id s =
     bind_outcome (GET_MATCH_QUEUE_INDEX (my_fgrank s) s) (\<lambda>fg.
     let (match, msk) = search_match source tag context_id (my_fgrank s) in
     bind_outcome (returned (q_find (\<lambda>r. MATCH_WITH_LEFT_MASK (r_match (req s r)) match msk) (r_next s) NULL
         (q_head (Unexpected fg) s))) (\<lambda>(prev, rreq).
     Inr (if rreq \<noteq> NULL
          then Some (status_SOURCE (req s rreq), status_TAG (req s rreq), status_count (req s rreq), status_cancelled (req s rreq))
          else None)))"

definition MPIDI_CH3U_Recvq_FDU :: "int \<Rightarrow> match_parts \<Rightarrow> recvq \<Rightarrow> (addr \<times> recvq) outcome" where
  "MPIDI_CH3U_Recvq_FDU sreq_id match s =
     bind_outcome (GET_MATCH_QUEUE_INDEX (m_dest_rank match) s) (\<lambda>fg.
     let msk = \<lparr>m_tag = MPIR_TAG_CLEAR_ERROR_BITS (NOT 0), m_rank = NOT 0, m_context_id = NOT 0, m_dest_rank = NOT 0\<rparr> in
     bind_outcome (returned (q_find_last
         (\<lambda>r. sender_req_id (req s r) = sreq_id \<and> MATCH_WITH_LEFT_MASK (r_match (req s r)) match msk) (r_next s) NULL
         (q_head (Unexpected fg) s) (NULL, NULL))) (\<lambda>(prev, rreq).
     if rreq \<noteq> NULL then
       let s1 = unlink (Unexpected fg) prev rreq s in
       Inr (rreq, s1\<lparr>unexpected_recvq_length := unexpected_recvq_length s1 - 1,
                    unexpected_recvq_buffer_size := unexpected_recvq_buffer_size s1 - tmpbuf_sz (req s1 rreq)\<rparr>)
     else Inr (NULL, s)))"

definition MPIDI_CH3U_Recvq_FDU_matchonly ::
  "32 word \<Rightarrow> 32 word \<Rightarrow> 32 word \<Rightarrow> addr \<Rightarrow> recvq \<Rightarrow> (bool \<times> addr \<times> recvq) outcome" where
  "MPIDI_CH3U_Recvq_FDU_matchonly source tag context_id comm s =
     bind_outcome (GET_MATCH_QUEUE_INDEX (my_fgrank s) s) (\<lambda>fg.
     let (match, msk) = search_match source tag context_id (my_fgrank s) in
     bind_outcome (returned (q_find (\<lambda>r. MATCH_WITH_LEFT_MASK (r_match (req s r)) match msk) (r_next s) NULL
         (q_head (Unexpected fg) s))) (\<lambda>(prev, rreq).
     if rreq \<noteq> NULL then
       let s1 = unlink (Unexpected fg) prev rreq s;
           s2 = s1\<lparr>unexpected_recvq_length := unexpected_recvq_length s1 - 1,
                   unexpected_recvq_buffer_size := unexpected_recvq_buffer_size s1 - tmpbuf_sz (req s1 rreq)\<rparr> in
       Inr (True, rreq, MPIR_Comm_add_ref comm (set_req rreq (\<lambda>x. x\<lparr>r_comm := comm\<rparr>) s2))
     else Inr (False, NULL, s)))"

text \<open>\<open>moribund comm source\<close>: the state of the virtual connection of that rank is \<^verbatim>\<open>MPIDI_VC_STATE_MORIBUND\<close>.\<close>

definition post_request ::
  "request \<Rightarrow> (addr \<Rightarrow> 32 word \<Rightarrow> bool) \<Rightarrow> 32 word \<Rightarrow> 32 word \<Rightarrow> 32 word \<Rightarrow> addr \<Rightarrow> addr \<Rightarrow> int \<Rightarrow> int \<Rightarrow> nat \<Rightarrow>
   recvq \<Rightarrow> addr \<times> recvq" where
  "post_request junk moribund source tag context_id comm buf count dtype fg s =
     (let (rreq, s1) = MPIDI_Request_create_rreq junk s;
          match = \<lparr>m_tag = tag, m_rank = source, m_context_id = ucast context_id, m_dest_rank = my_fgrank s\<rparr>;
          msk = \<lparr>m_tag = (if m_tag match = MPI_ANY_TAG then 0 else NOT 0),
                  m_rank = (if m_rank match = MPI_ANY_SOURCE then 0 else NOT 0),
                  m_context_id = NOT 0, m_dest_rank = NOT 0\<rparr>;
          s2 = MPIR_Comm_add_ref comm (set_req rreq (\<lambda>x. x\<lparr>r_match := match, r_mask := msk, r_comm := comm,
                 user_buf := buf, user_count := count, datatype_handle := dtype\<rparr>) s1) in
      if source \<noteq> MPI_ANY_SOURCE \<and> moribund comm source
      then (rreq, set_req rreq (\<lambda>x. x\<lparr>status_ERROR := MPIX_ERR_PROC_FAILED, completed := True\<rparr>) s2)
      else let s3 = enqueue (Posted fg) rreq s2 in (rreq, s3\<lparr>posted_recvq_length := posted_recvq_length s3 + 1\<rparr>))"

definition MPIDI_CH3U_Recvq_FDU_or_AEP ::
  "request \<Rightarrow> (addr \<Rightarrow> 32 word \<Rightarrow> bool) \<Rightarrow> 32 word \<Rightarrow> 32 word \<Rightarrow> 32 word \<Rightarrow> addr \<Rightarrow> addr \<Rightarrow> int \<Rightarrow> int \<Rightarrow> recvq \<Rightarrow>
   (bool \<times> addr \<times> recvq) outcome" where
  "MPIDI_CH3U_Recvq_FDU_or_AEP junk moribund source tag context_id comm buf count dtype s =
     bind_outcome (GET_MATCH_QUEUE_INDEX (my_fgrank s) s) (\<lambda>fg.
     let (match, msk) = search_match source tag context_id (my_fgrank s) in
     bind_outcome (returned (q_find (\<lambda>r. MATCH_WITH_LEFT_MASK (r_match (req s r)) match msk) (r_next s) NULL
         (q_head (Unexpected fg) s))) (\<lambda>(prev, rreq).
     if rreq \<noteq> NULL then
       let s1 = unlink (Unexpected fg) prev rreq s;
           s2 = s1\<lparr>unexpected_recvq_length := unexpected_recvq_length s1 - 1\<rparr>;
           s3 = (if r_msg_type (req s2 rreq) = EAGER_MSG
                 then s2\<lparr>unexpected_recvq_buffer_size := unexpected_recvq_buffer_size s2 - tmpbuf_sz (req s2 rreq)\<rparr>
                 else s2) in
       Inr (True, rreq, MPIR_Comm_add_ref comm (set_req rreq (\<lambda>x. x\<lparr>r_comm := comm, user_buf := buf,
         user_count := count, datatype_handle := dtype\<rparr>) s3))
     else
       let (r, s1) = post_request junk moribund source tag context_id comm buf count dtype fg s in Inr (False, r, s1)))"

definition MPIDI_CH3U_Recvq_DP :: "(addr \<Rightarrow> bool) \<Rightarrow> addr \<Rightarrow> recvq \<Rightarrow> (bool \<times> recvq) outcome" where
  "MPIDI_CH3U_Recvq_DP dequeue_hook rreq s =
     bind_outcome (GET_MATCH_QUEUE_INDEX (m_dest_rank (r_match (req s rreq))) s) (\<lambda>fg.
     bind_outcome (returned (q_find (\<lambda>r. r = rreq) (r_next s) NULL (q_head (Posted fg) s))) (\<lambda>(prev, cur).
     if cur \<noteq> NULL then
       let s1 = unlink (Posted fg) prev cur s in
       Inr (\<not> dequeue_hook rreq,
            s1\<lparr>posted_recvq_length := posted_recvq_length s1 - 1,
               notified := notified s1 @ [m_dest_rank (r_match (req s1 rreq))]\<rparr>)
     else Inr (False, s)))"

text \<open>The loop over the posted queue of \<^verbatim>\<open>MPIDI_CH3U_Recvq_FDP_or_AEU\<close>; NULL: nothing found.\<close>

partial_function (option) fdp_loop ::
  "(addr \<Rightarrow> bool) \<Rightarrow> match_parts \<Rightarrow> nat \<Rightarrow> addr \<Rightarrow> addr \<Rightarrow> recvq \<Rightarrow> (addr \<times> recvq) option" where
  "fdp_loop dequeue_hook match fg prev rreq s =
     (if rreq = NULL then Some (NULL, s)
      else if MATCH_WITH_LEFT_RIGHT_MASK (r_match (req s rreq)) match (r_mask (req s rreq)) then
        (let s1 = (unlink (Posted fg) prev rreq s)\<lparr>posted_recvq_length := posted_recvq_length s - 1\<rparr> in
         if \<not> dequeue_hook rreq then Some (rreq, s1)
         else fdp_loop dequeue_hook match fg prev (r_next s1 rreq) s1)
      else fdp_loop dequeue_hook match fg rreq (r_next s rreq) s)"

text \<open>The buffer of a zero-copy receive matched by a sender outside this process (\<open>buf\<close>: what \<^verbatim>\<open>MPIU_Malloc\<close> returns).\<close>

definition zerocopy_buffer :: "(32 word \<Rightarrow> addr \<Rightarrow> bool) \<Rightarrow> addr \<Rightarrow> match_parts \<Rightarrow> addr \<Rightarrow> recvq \<Rightarrow> recvq outcome" where
  "zerocopy_buffer same_HWP buf match rreq s =
     (if self_zerocopy (req s rreq) \<and> \<not> same_HWP (m_rank match) (r_comm (req s rreq)) then
        bind_outcome (check (r_msg_type (req s rreq) \<noteq> SELF_MSG) ''msg_type != MPIDI_REQUEST_SELF_MSG'') (\<lambda>_.
        bind_outcome (check (user_buf (req s rreq) = NULL) ''NULL == rreq->dev.user_buf'') (\<lambda>_.
        let s1 = s\<lparr>handles := (handles s)(user_buf_handle (req s rreq) := buf)\<rparr> in
        bind_outcome (check (handles s1 (user_buf_handle (req s1 rreq)) \<noteq> NULL) ''*(rreq->dev.user_buf_handle)'') (\<lambda>_.
        Inr (set_req rreq (\<lambda>x. x\<lparr>user_buf := handles s1 (user_buf_handle x)\<rparr>) s1))))
      else Inr s)"

text \<open>What the posted queue is compared with: the message with its error bits cleared.\<close>

definition arriving :: "match_parts \<Rightarrow> match_parts" where
  "arriving m = (if MPIR_TAG_CHECK_ERROR_BIT (m_tag m) then m\<lparr>m_tag := MPIR_TAG_CLEAR_ERROR_BITS (m_tag m)\<rparr> else m)"

definition restore_error_bits :: "bool \<Rightarrow> bool \<Rightarrow> match_parts \<Rightarrow> match_parts" where
  "restore_error_bits error_bit_masked proc_failure_bit_masked m =
     (let m1 = (if error_bit_masked then m\<lparr>m_tag := MPIR_TAG_SET_ERROR_BIT (m_tag m)\<rparr> else m) in
      if proc_failure_bit_masked then m1\<lparr>m_tag := MPIR_TAG_SET_PROC_FAILURE_BIT (m_tag m1)\<rparr> else m1)"

definition MPIDI_CH3U_Recvq_FDP_or_AEU ::
  "request \<Rightarrow> (addr \<Rightarrow> bool) \<Rightarrow> (32 word \<Rightarrow> addr \<Rightarrow> bool) \<Rightarrow> addr \<Rightarrow> match_parts \<Rightarrow> recvq \<Rightarrow>
   (bool \<times> addr \<times> match_parts \<times> recvq) outcome" where
  "MPIDI_CH3U_Recvq_FDP_or_AEU junk dequeue_hook same_HWP buf match s =
     (let error_bit_masked = MPIR_TAG_CHECK_ERROR_BIT (m_tag match);
          proc_failure_bit_masked = (error_bit_masked \<and> MPIR_TAG_CHECK_PROC_FAILURE_BIT (m_tag match));
          match1 = arriving match;
          restore = restore_error_bits error_bit_masked proc_failure_bit_masked in
      bind_outcome (GET_MATCH_QUEUE_INDEX (m_dest_rank match1) s) (\<lambda>fg.
      bind_outcome (returned (fdp_loop dequeue_hook match1 fg NULL (q_head (Posted fg) s) s)) (\<lambda>(rreq, s1).
      if rreq \<noteq> NULL then
        bind_outcome (zerocopy_buffer same_HWP buf match1 rreq s1) (\<lambda>s2.
        Inr (True, rreq, restore match1, s2\<lparr>notified := notified s2 @ [m_dest_rank match1]\<rparr>))
      else
        let (r, s2) = MPIDI_Request_create_rreq junk s1;
            match2 = restore match1;
            s3 = enqueue (Unexpected fg) r (set_req r (\<lambda>x. x\<lparr>recv_pending_count := 1, r_match := match2\<rparr>) s2) in
        Inr (False, r, restore match2, s3\<lparr>unexpected_recvq_length := unexpected_recvq_length s3 + 1\<rparr>))))"

subsection \<open>Failed processes and revoked communicators\<close>

definition dequeue_and_set_error :: "addr \<Rightarrow> addr \<Rightarrow> qid \<Rightarrow> req_error \<Rightarrow> recvq \<Rightarrow> addr \<times> recvq" where
  "dequeue_and_set_error r prev_req q error s =
     (let nx = r_next s r;
          s1 = (if q_head q s = r
                then s\<lparr>posted_recvq_length := posted_recvq_length s - 1, ends := (ends s)(q := (r_next s r, q_tail q s))\<rparr>
                else s\<lparr>r_next := (r_next s)(prev_req := r_next s r)\<rparr>);
          s2 = (if q_tail q s1 = r then s1\<lparr>ends := (ends s1)(q := (q_head q s1, prev_req))\<rparr> else s1);
          s3 = set_req r (\<lambda>x. x\<lparr>status_ERROR := error\<rparr>) s2;
          s4 = s3\<lparr>notified := notified s3 @ [m_dest_rank (r_match (req s3 r))]\<rparr> in
      (nx, set_req r (\<lambda>x. x\<lparr>completed := True\<rparr>) s4))"

text \<open>A walk over one queue that removes the requests \<open>P\<close> holds of.\<close>

partial_function (option) clean_loop ::
  "(request \<Rightarrow> bool) \<Rightarrow> qid \<Rightarrow> req_error \<Rightarrow> addr \<Rightarrow> addr \<Rightarrow> recvq \<Rightarrow> recvq option" where
  "clean_loop P q error prev rreq s =
     (if rreq = NULL then Some s
      else if P (req s rreq) then
        (let r = dequeue_and_set_error rreq prev q error s in clean_loop P q error prev (fst r) (snd r))
      else clean_loop P q error rreq (r_next s rreq) s)"

fun clean_all :: "(request \<Rightarrow> bool) \<Rightarrow> (nat \<Rightarrow> qid) \<Rightarrow> req_error \<Rightarrow> nat list \<Rightarrow> recvq \<Rightarrow> recvq outcome" where
  "clean_all P queue error [] s = Inr s"
| "clean_all P queue error (i # is) s =
     bind_outcome (returned (clean_loop P (queue i) error NULL (q_head (queue i) s) s)) (clean_all P queue error is)"

record comm_ids =
  recvcontext_id :: "16 word"
  intracomm :: bool
  node_aware :: bool

definition MPID_CONTEXT_INTRA_PT2PT :: "16 word" where "MPID_CONTEXT_INTRA_PT2PT = 0"
definition MPID_CONTEXT_INTRA_COLL :: "16 word" where "MPID_CONTEXT_INTRA_COLL = 1"
definition MPID_CONTEXT_INTER_PT2PT :: "16 word" where "MPID_CONTEXT_INTER_PT2PT = 0"
definition MPID_CONTEXT_INTER_COLL :: "16 word" where "MPID_CONTEXT_INTER_COLL = 1"
definition MPID_CONTEXT_INTRANODE_OFFSET :: "16 word" where "MPID_CONTEXT_INTRANODE_OFFSET = push_bit 1 1"
definition MPID_CONTEXT_INTERNODE_OFFSET :: "16 word" where "MPID_CONTEXT_INTERNODE_OFFSET = push_bit 1 2"

text \<open>The tests of \<^verbatim>\<open>MPIDI_CH3U_Clean_recvq\<close> on one request; \<open>junk\<close> is the rest of the uninitialised match.\<close>

definition cleans :: "match_parts \<Rightarrow> comm_ids \<Rightarrow> request \<Rightarrow> bool" where
  "cleans junk comm x \<longleftrightarrow>
     (let msk = \<lparr>m_tag = MPIR_TAG_CLEAR_ERROR_BITS 0, m_rank = 0, m_context_id = NOT 0, m_dest_rank = 0\<rparr>;
          hit = (\<lambda>cid. MATCH_WITH_LEFT_RIGHT_MASK (r_match x) (junk\<lparr>m_context_id := cid\<rparr>) msk);
          kept = (MPIR_TAG_MASK_ERROR_BITS (m_tag (r_match x)) = MPIR_AGREE_TAG \<or>
                  MPIR_TAG_MASK_ERROR_BITS (m_tag (r_match x)) = MPIR_SHRINK_TAG);
          pt2pt = (if intracomm comm then MPID_CONTEXT_INTRA_PT2PT else MPID_CONTEXT_INTER_PT2PT);
          coll = (if intracomm comm then MPID_CONTEXT_INTRA_COLL else MPID_CONTEXT_INTER_COLL) in
      hit (recvcontext_id comm + MPID_CONTEXT_INTRA_PT2PT) \<or>
      hit (recvcontext_id comm + MPID_CONTEXT_INTRA_COLL) \<and> \<not> kept \<or>
      node_aware comm \<and> \<not> kept \<and>
        (hit (recvcontext_id comm + MPID_CONTEXT_INTRANODE_OFFSET + pt2pt) \<or>
         hit (recvcontext_id comm + MPID_CONTEXT_INTRANODE_OFFSET + coll) \<or>
         hit (recvcontext_id comm + MPID_CONTEXT_INTERNODE_OFFSET + pt2pt) \<or>
         hit (recvcontext_id comm + MPID_CONTEXT_INTERNODE_OFFSET + coll)))"

definition indices :: "recvq \<Rightarrow> nat list" where
  "indices s = [0 ..< nat (sint (nfg s))]"

definition MPIDI_CH3U_Clean_recvq :: "match_parts \<Rightarrow> comm_ids \<Rightarrow> recvq \<Rightarrow> recvq outcome" where
  "MPIDI_CH3U_Clean_recvq junk comm s =
     bind_outcome (clean_all (cleans junk comm) Unexpected MPIX_ERR_REVOKED (indices s) s) (\<lambda>s1.
     clean_all (cleans junk comm) Posted MPIX_ERR_REVOKED (indices s) s1)"

text \<open>\<open>vc_of comm rank\<close> is the virtual connection \<^verbatim>\<open>MPIDI_Comm_get_vc\<close> finds.\<close>

definition req_uses_vc :: "(addr \<Rightarrow> 32 word \<Rightarrow> addr) \<Rightarrow> request \<Rightarrow> addr \<Rightarrow> bool" where
  "req_uses_vc vc_of x vc \<longleftrightarrow> vc = vc_of (r_comm x) (m_rank (r_match x))"

definition MPIDI_CH3U_Complete_posted_with_error ::
  "(addr \<Rightarrow> 32 word \<Rightarrow> addr) \<Rightarrow> addr \<Rightarrow> recvq \<Rightarrow> recvq outcome" where
  "MPIDI_CH3U_Complete_posted_with_error vc_of vc s =
     clean_all (\<lambda>x. m_rank (r_match x) \<noteq> MPI_ANY_SOURCE \<and> req_uses_vc vc_of x vc) Posted MPIX_ERR_PROC_FAILED (indices s) s"

partial_function (option) q_count :: "(addr \<Rightarrow> addr) \<Rightarrow> addr \<Rightarrow> int \<Rightarrow> int option" where
  "q_count nx r count = (if r = NULL then Some count else q_count nx (nx r) (count + 1))"

fun count_all :: "recvq \<Rightarrow> nat list \<Rightarrow> int \<Rightarrow> int outcome" where
  "count_all s [] count = Inr count"
| "count_all s (i # is) count =
     bind_outcome (returned (q_count (r_next s) (q_head (Unexpected i) s) count)) (count_all s is)"

definition MPIDI_CH3U_Recvq_count_unexp :: "recvq \<Rightarrow> int outcome" where
  "MPIDI_CH3U_Recvq_count_unexp s = count_all s (indices s) 0"

subsection \<open>Abstract queues\<close>

text \<open>
  \<open>rq_rep s Q\<close>: the chain of queue \<open>q\<close> is the list \<open>Q q\<close>, and no request is in two queues or
  twice in one.
\<close>

definition chain :: "(addr \<Rightarrow> addr) \<Rightarrow> addr \<times> addr \<Rightarrow> addr list \<Rightarrow> bool" where
  "chain nx e xs \<longleftrightarrow> links nx xs NULL \<and> distinct xs \<and> NULL \<notin> set xs \<and> e = (hd (xs @ [NULL]), last (NULL # xs))"

definition rq_rep :: "recvq \<Rightarrow> (qid \<Rightarrow> addr list) \<Rightarrow> bool" where
  "rq_rep s Q \<longleftrightarrow> (\<forall>q. chain (r_next s) (ends s q) (Q q)) \<and>
     (\<forall>q q'. q \<noteq> q' \<longrightarrow> set (Q q) \<inter> set (Q q') = {}) \<and>
     (\<forall>q. \<forall>a \<in> set (Q q). a < next_req s) \<and> 0 < next_req s"

text \<open>The first element that satisfies \<open>P\<close>, and the list without it.\<close>

fun take_first :: "('a \<Rightarrow> bool) \<Rightarrow> 'a list \<Rightarrow> ('a \<times> 'a list) option" where
  "take_first P [] = None"
| "take_first P (x # xs) =
     (if P x then Some (x, xs) else case take_first P xs of None \<Rightarrow> None | Some (y, ys) \<Rightarrow> Some (y, x # ys))"

text \<open>\ldots and the last one.\<close>

fun take_last :: "('a \<Rightarrow> bool) \<Rightarrow> 'a list \<Rightarrow> ('a \<times> 'a list) option" where
  "take_last P [] = None"
| "take_last P (x # xs) =
     (case take_last P xs of
        None \<Rightarrow> if P x then Some (x, xs) else None
      | Some (y, ys) \<Rightarrow> Some (y, x # ys))"

text \<open>Which messages a receive of \<open>source\<close>, \<open>tag\<close> and context accepts, in the terms of the MPI standard.\<close>

definition accepts :: "32 word \<Rightarrow> 32 word \<Rightarrow> 32 word \<Rightarrow> 32 word \<Rightarrow> match_parts \<Rightarrow> bool" where
  "accepts source tag context_id fgrank m \<longleftrightarrow>
     m_dest_rank m = fgrank \<and> m_context_id m = ucast context_id \<and>
     (source = MPI_ANY_SOURCE \<or> m_rank m = source) \<and>
     (tag = MPI_ANY_TAG \<or> MPIR_TAG_CLEAR_ERROR_BITS (m_tag m) = tag)"

text \<open>A tag carries the process-failure bit only together with the error bit.\<close>

definition tag_ok :: "match_parts \<Rightarrow> bool" where
  "tag_ok m \<longleftrightarrow> (MPIR_TAG_CHECK_PROC_FAILURE_BIT (m_tag m) \<longrightarrow> MPIR_TAG_CHECK_ERROR_BIT (m_tag m))"

definition posted_accepts :: "request \<Rightarrow> match_parts \<Rightarrow> bool" where
  "posted_accepts x m \<longleftrightarrow> MATCH_WITH_LEFT_RIGHT_MASK (r_match x) (arriving m) (r_mask x)"

text \<open>The posted queue after a message: the requests the channel has matched itself are dropped on the way.\<close>

fun fdp_spec :: "('a \<Rightarrow> bool) \<Rightarrow> ('a \<Rightarrow> bool) \<Rightarrow> 'a list \<Rightarrow> 'a option \<times> 'a list" where
  "fdp_spec P hook [] = (None, [])"
| "fdp_spec P hook (x # xs) =
     (if P x then (if hook x then fdp_spec P hook xs else (Some x, xs))
      else (fst (fdp_spec P hook xs), x # snd (fdp_spec P hook xs)))"

text \<open>What every operation keeps: the environment, and the match and mask of the requests there are.\<close>

definition keeps :: "recvq \<Rightarrow> recvq \<Rightarrow> bool" where
  "keeps s s' \<longleftrightarrow> nfg s' = nfg s \<and> fgstartrank s' = fgstartrank s \<and> my_fgrank s' = my_fgrank s \<and> next_req s \<le> next_req s' \<and>
     (\<forall>a < next_req s. r_match (req s' a) = r_match (req s a) \<and> r_mask (req s' a) = r_mask (req s a))"

definition comm_contexts :: "comm_ids \<Rightarrow> 16 word set" where
  "comm_contexts c = {recvcontext_id c + 1} \<union> (if node_aware c then {recvcontext_id c + k |k. k \<in> {2, 3, 4, 5}} else {})"

definition protocol_tag :: "match_parts \<Rightarrow> bool" where
  "protocol_tag m \<longleftrightarrow> MPIR_TAG_CLEAR_ERROR_BITS (m_tag m) \<in> {MPIR_AGREE_TAG, MPIR_SHRINK_TAG}"

text \<open>
  Empty queues, and the steps of a process: receives and probes of the FG process that runs, messages that
  arrive, cancellations, failures, revocations, and a switch to another FG process.
\<close>

definition rq_init :: "32 word \<Rightarrow> 32 word \<Rightarrow> 32 word \<Rightarrow> request \<Rightarrow> recvq" where
  "rq_init n start me junk =
     \<lparr>req = (\<lambda>_. junk), r_next = (\<lambda>_. NULL), next_req = 1, ends = (\<lambda>_. (NULL, NULL)), nfg = n, fgstartrank = start,
      my_fgrank = me, posted_recvq_length = 0, unexpected_recvq_length = 0, unexpected_recvq_buffer_size = 0,
      comm_ref = (\<lambda>_. 1), notified = [], handles = (\<lambda>_. NULL)\<rparr>"

text \<open>Memory of a new request, to evaluate the operations on.\<close>

definition blank_request :: request where
  "blank_request = \<lparr>r_match = \<lparr>m_tag = 0, m_rank = 0, m_context_id = 0, m_dest_rank = 0\<rparr>,
     r_mask = \<lparr>m_tag = 0, m_rank = 0, m_context_id = 0, m_dest_rank = 0\<rparr>, r_comm = NULL, user_buf = NULL, user_buf_handle = NULL,
     user_count = 0, datatype_handle = 0, sender_req_id = 0, tmpbuf_sz = 0, r_msg_type = NO_MSG, self_zerocopy = False,
     recv_pending_count = 0, status_SOURCE = 0, status_TAG = 0, status_ERROR = MPI_SUCCESS, status_count = 0,
     status_cancelled = False, completed = False\<rparr>"

inductive rq_step :: "recvq \<Rightarrow> recvq \<Rightarrow> bool" where
  Receive: "MPIDI_CH3U_Recvq_FDU_or_AEP junk moribund source tag cid comm buf cnt dt s = Inr (b, r, s') \<Longrightarrow> rq_step s s'"
| Improbe: "MPIDI_CH3U_Recvq_FDU_matchonly source tag cid comm s = Inr (b, r, s') \<Longrightarrow> rq_step s s'"
| Message: "tag_ok m \<Longrightarrow> MPIDI_CH3U_Recvq_FDP_or_AEU junk hook hwp buf m s = Inr (b, r, m', s') \<Longrightarrow> rq_step s s'"
| Cancel_recv: "MPIDI_CH3U_Recvq_DP hook r s = Inr (b, s') \<Longrightarrow> rq_step s s'"
| Cancel_send: "MPIDI_CH3U_Recvq_FDU h m s = Inr (r, s') \<Longrightarrow> rq_step s s'"
| Fail: "MPIDI_CH3U_Complete_posted_with_error vc_of vc s = Inr s' \<Longrightarrow> rq_step s s'"
| Revoke: "MPIDI_CH3U_Clean_recvq mjunk c s = Inr s' \<Longrightarrow> rq_step s s'"
| Switch: "rq_step s (s\<lparr>my_fgrank := k\<rparr>)"

inductive rq_reachable :: "recvq \<Rightarrow> bool" where
  Init: "rq_reachable (rq_init n start me junk)"
| Step: "rq_reachable s \<Longrightarrow> rq_step s s' \<Longrightarrow> rq_reachable s'"

text \<open>No message in an unexpected queue is accepted by a receive in the posted queue of the same process.\<close>

definition rq_inv :: "recvq \<Rightarrow> (qid \<Rightarrow> addr list) \<Rightarrow> bool" where
  "rq_inv s Q \<longleftrightarrow> rq_rep s Q \<and> (\<forall>fg. \<forall>u \<in> set (Q (Unexpected fg)). tag_ok (r_match (req s u)) \<and>
     (\<forall>p \<in> set (Q (Posted fg)). \<not> posted_accepts (req s p) (r_match (req s u))))"

subsection \<open>Tags\<close>

lemma bit_error_bits: "bit MPIR_TAG_ERROR_BIT n \<longleftrightarrow> n = 30" "bit MPIR_TAG_PROC_FAILURE_BIT n \<longleftrightarrow> n = 29"
  unfolding MPIR_TAG_ERROR_BIT_def MPIR_TAG_PROC_FAILURE_BIT_def bit_push_bit_iff by (auto simp: bit_1_iff)

lemma tag_check_iff: "MPIR_TAG_CHECK_ERROR_BIT t \<longleftrightarrow> bit t 30" "MPIR_TAG_CHECK_PROC_FAILURE_BIT t \<longleftrightarrow> bit t 29"
  unfolding MPIR_TAG_CHECK_ERROR_BIT_def MPIR_TAG_CHECK_PROC_FAILURE_BIT_def bit_eq_iff [where 'a = "32 word"]
  by (auto simp: bit_and_iff bit_error_bits dest: spec [of _ 30] spec [of _ 29])

lemma tag_clear_bit: "bit (MPIR_TAG_CLEAR_ERROR_BITS t) n \<longleftrightarrow> bit t n \<and> n \<noteq> 30 \<and> n \<noteq> 29"
  using bit_imp_le_length [of t n]
  by (auto simp: MPIR_TAG_CLEAR_ERROR_BITS_def bit_and_iff bit_not_iff bit_xor_iff bit_error_bits)

lemma tag_set_bit:
  "bit (MPIR_TAG_SET_ERROR_BIT t) n \<longleftrightarrow> bit t n \<or> n = 30"
  "bit (MPIR_TAG_SET_PROC_FAILURE_BIT t) n \<longleftrightarrow> bit t n \<or> n = 30 \<or> n = 29"
  by (auto simp: MPIR_TAG_SET_ERROR_BIT_def MPIR_TAG_SET_PROC_FAILURE_BIT_def bit_or_iff bit_error_bits)

lemma tag_restore:
  "bit t 30 \<Longrightarrow> bit t 29 \<Longrightarrow> MPIR_TAG_SET_PROC_FAILURE_BIT (MPIR_TAG_SET_ERROR_BIT (MPIR_TAG_CLEAR_ERROR_BITS t)) = t"
  "bit t 30 \<Longrightarrow> \<not> bit t 29 \<Longrightarrow> MPIR_TAG_SET_ERROR_BIT (MPIR_TAG_CLEAR_ERROR_BITS t) = t"
  "bit t 30 \<Longrightarrow> MPIR_TAG_SET_ERROR_BIT t = t"
  "bit t 30 \<Longrightarrow> bit t 29 \<Longrightarrow> MPIR_TAG_SET_PROC_FAILURE_BIT t = t"
  by (rule bit_word_eqI; auto simp: tag_clear_bit tag_set_bit)+

lemma clear_none: "MPIR_TAG_CLEAR_ERROR_BITS t = t" if "\<not> bit t 30" "\<not> bit t 29"
  by (rule bit_word_eqI) (use that in \<open>auto simp: tag_clear_bit\<close>)

lemma arriving_tag: "tag_ok m \<Longrightarrow> arriving m = m\<lparr>m_tag := MPIR_TAG_CLEAR_ERROR_BITS (m_tag m)\<rparr>"
  by (auto simp: arriving_def tag_ok_def tag_check_iff clear_none)

lemma search_accepts:
  "MATCH_WITH_LEFT_MASK m (fst (search_match source tag context_id fgrank)) (snd (search_match source tag context_id fgrank)) =
   accepts source tag context_id fgrank m"
proof -
  have "m_tag m AND MPIR_TAG_CLEAR_ERROR_BITS (NOT 0) = MPIR_TAG_CLEAR_ERROR_BITS (m_tag m)"
    by (rule bit_word_eqI) (auto simp: tag_clear_bit bit_and_iff)
  then show ?thesis
    by (auto simp: search_match_def MATCH_WITH_LEFT_MASK_def accepts_def Let_def)
qed

lemma fresh_posted_accepts:
  assumes "tag_ok m" "r_match x = \<lparr>m_tag = tag, m_rank = source, m_context_id = ucast context_id, m_dest_rank = fgrank\<rparr>"
    "r_mask x = \<lparr>m_tag = (if tag = MPI_ANY_TAG then 0 else NOT 0), m_rank = (if source = MPI_ANY_SOURCE then 0 else NOT 0),
       m_context_id = NOT 0, m_dest_rank = NOT 0\<rparr>"
  shows "posted_accepts x m = accepts source tag context_id fgrank m"
  using assms by (auto simp: posted_accepts_def arriving_tag MATCH_WITH_LEFT_RIGHT_MASK_def accepts_def)

subsection \<open>Chains\<close>

lemma q_find_none:
  "links nx xs NULL \<Longrightarrow> NULL \<notin> set xs \<Longrightarrow> \<forall>x \<in> set xs. \<not> P x \<Longrightarrow>
   q_find P nx p (hd (xs @ [NULL])) = Some (last (p # xs), NULL)"
proof (induction xs arbitrary: p)
  case Nil
  then show ?case by (simp add: q_find.simps)
next
  case (Cons x xs)
  then show ?case by (subst q_find.simps) (simp add: links_Cons)
qed

lemma q_find_some:
  "links nx (as @ x # bs) NULL \<Longrightarrow> NULL \<notin> set (as @ [x]) \<Longrightarrow> \<forall>a \<in> set as. \<not> P a \<Longrightarrow> P x \<Longrightarrow>
   q_find P nx p (hd (as @ [x])) = Some (last (p # as), x)"
proof (induction as arbitrary: p)
  case Nil
  then show ?case by (simp add: q_find.simps)
next
  case (Cons a as)
  have h: "nx a = hd (as @ [x])" using Cons.prems(1) by (cases as) (auto simp: links_Cons)
  then show ?case using Cons by (subst q_find.simps) (auto simp: links_Cons)
qed

lemma take_first_None: "take_first P xs = None \<longleftrightarrow> (\<forall>x \<in> set xs. \<not> P x)"
  by (induction xs) (auto split: option.splits)

lemma take_first_Some:
  "take_first P xs = Some (y, ys) \<Longrightarrow> \<exists>as bs. xs = as @ y # bs \<and> ys = as @ bs \<and> P y \<and> (\<forall>a \<in> set as. \<not> P a)"
proof (induction xs arbitrary: ys)
  case Nil
  then show ?case by simp
next
  case (Cons x xs)
  show ?case
  proof (cases "P x")
    case True
    then show ?thesis using Cons.prems by (intro exI [of _ "[]"] exI [of _ xs]) auto
  next
    case False
    then obtain zs where z: "take_first P xs = Some (y, zs)" "ys = x # zs"
      using Cons.prems by (auto split: option.splits)
    obtain as bs where "xs = as @ y # bs" "zs = as @ bs" "P y" "\<forall>a \<in> set as. \<not> P a" using Cons.IH [OF z(1)] by blast
    then show ?thesis using False z(2) by (intro exI [of _ "x # as"] exI [of _ bs]) simp
  qed
qed

lemma repD:
  assumes "rq_rep s Q"
  shows "links (r_next s) (Q q) NULL" "distinct (Q q)" "NULL \<notin> set (Q q)" "q_head q s = hd (Q q @ [NULL])"
    "q_tail q s = last (NULL # Q q)" "q \<noteq> q' \<Longrightarrow> set (Q q) \<inter> set (Q q') = {}" "a \<in> set (Q q) \<Longrightarrow> a < next_req s"
    "0 < next_req s"
  using assms by (auto simp: rq_rep_def chain_def q_head_def q_tail_def)

text \<open>Changing one queue.\<close>

lemma rq_rep_upd:
  assumes rep: "rq_rep s Q" and e: "ends s' = (ends s)(q := (hd (xs @ [NULL]), last (NULL # xs)))"
    and x: "links (r_next s') xs NULL" "distinct xs" "NULL \<notin> set xs" "\<And>a. a \<in> set xs \<Longrightarrow> a < next_req s'"
      "\<And>k. k \<noteq> q \<Longrightarrow> set (Q k) \<inter> set xs = {}"
    and o: "\<And>k. k \<noteq> q \<Longrightarrow> links (r_next s') (Q k) NULL" and n: "next_req s \<le> next_req s'"
  shows "rq_rep s' (Q(q := xs))"
  unfolding rq_rep_def
proof (intro conjI allI impI ballI)
  fix k show "chain (r_next s') (ends s' k) ((Q(q := xs)) k)"
    using rep x(1-3) o [of k] by (auto simp: rq_rep_def chain_def e simp del: last.simps)
next
  fix k k' :: qid assume ne: "k \<noteq> k'"
  consider "k = q" | "k' = q" | "k \<noteq> q" "k' \<noteq> q" by blast
  then show "set ((Q(q := xs)) k) \<inter> set ((Q(q := xs)) k') = {}"
  proof cases
    case 1
    then show ?thesis using ne x(5) [of k'] by (simp add: Int_commute)
  next
    case 2
    then show ?thesis using ne x(5) [of k] by simp
  next
    case 3
    then show ?thesis using ne rep by (simp add: rq_rep_def)
  qed
next
  fix k a assume "a \<in> set ((Q(q := xs)) k)"
  then show "a < next_req s'" using rep x(4) n unfolding rq_rep_def by (cases "k = q") (simp, metis fun_upd_other less_le_trans)
next
  show "0 < next_req s'" using rep n by (auto simp: rq_rep_def)
qed

lemma rep_cong:
  "rq_rep s Q \<Longrightarrow> r_next s' = r_next s \<Longrightarrow> ends s' = ends s \<Longrightarrow> next_req s \<le> next_req s' \<Longrightarrow> rq_rep s' Q"
  unfolding rq_rep_def by (metis less_le_trans)

text \<open>What the pointer updates leave alone.\<close>

lemma unlink_frame [simp]:
  "req (unlink q p c s) = req s" "next_req (unlink q p c s) = next_req s" "nfg (unlink q p c s) = nfg s"
  "fgstartrank (unlink q p c s) = fgstartrank s" "my_fgrank (unlink q p c s) = my_fgrank s"
  "notified (unlink q p c s) = notified s" "posted_recvq_length (unlink q p c s) = posted_recvq_length s"
  "unexpected_recvq_length (unlink q p c s) = unexpected_recvq_length s"
  "unexpected_recvq_buffer_size (unlink q p c s) = unexpected_recvq_buffer_size s" "handles (unlink q p c s) = handles s"
  by (simp_all add: unlink_def Let_def)

lemma enqueue_frame [simp]:
  "req (enqueue q r s) = req s" "next_req (enqueue q r s) = next_req s" "nfg (enqueue q r s) = nfg s"
  "fgstartrank (enqueue q r s) = fgstartrank s" "my_fgrank (enqueue q r s) = my_fgrank s"
  "notified (enqueue q r s) = notified s" "posted_recvq_length (enqueue q r s) = posted_recvq_length s"
  "unexpected_recvq_length (enqueue q r s) = unexpected_recvq_length s"
  by (simp_all add: enqueue_def Let_def)

lemma set_req_frame [simp]:
  "r_next (set_req r f s) = r_next s" "ends (set_req r f s) = ends s" "next_req (set_req r f s) = next_req s"
  "req (set_req r f s) = (req s)(r := f (req s r))" "nfg (set_req r f s) = nfg s"
  "fgstartrank (set_req r f s) = fgstartrank s" "my_fgrank (set_req r f s) = my_fgrank s"
  "notified (set_req r f s) = notified s" "handles (set_req r f s) = handles s"
  "posted_recvq_length (set_req r f s) = posted_recvq_length s"
  by (simp_all add: set_req_def)

lemma add_ref_frame [simp]:
  "r_next (MPIR_Comm_add_ref c s) = r_next s" "ends (MPIR_Comm_add_ref c s) = ends s"
  "next_req (MPIR_Comm_add_ref c s) = next_req s" "req (MPIR_Comm_add_ref c s) = req s" "nfg (MPIR_Comm_add_ref c s) = nfg s"
  "fgstartrank (MPIR_Comm_add_ref c s) = fgstartrank s" "my_fgrank (MPIR_Comm_add_ref c s) = my_fgrank s"
  "notified (MPIR_Comm_add_ref c s) = notified s"
  by (simp_all add: MPIR_Comm_add_ref_def)

lemma index_cong: "nfg s' = nfg s \<Longrightarrow> fgstartrank s' = fgstartrank s \<Longrightarrow> GET_MATCH_QUEUE_INDEX r s' = GET_MATCH_QUEUE_INDEX r s"
  by (simp add: GET_MATCH_QUEUE_INDEX_def)

lemma hd_app_last: "xs \<noteq> [] \<Longrightarrow> hd (xs @ ys) = hd xs" "xs \<noteq> [] \<Longrightarrow> last (NULL # xs) = last xs"
  by simp_all

lemma unlink_rep:
  assumes rep: "rq_rep s Q" and q: "Q q = as @ x # bs"
  shows "rq_rep (unlink q (last (NULL # as)) x s) (Q(q := as @ bs))"
proof -
  note d = repD [OF rep]
  have l: "links (r_next s) as x" "r_next s x = hd (bs @ [NULL])" "links (r_next s) bs NULL"
    using d(1) [of q] unfolding q by (auto simp: links_append links_Cons)
  have dist: "distinct (as @ x # bs)" "NULL \<notin> set (as @ x # bs)" using d(2,3) [of q] q by auto
  have nx: "r_next s x = NULL \<longleftrightarrow> bs = []" using dist(2) l(2) by (cases bs) auto
  have en: "ends s k = (hd (Q k @ [NULL]), last (NULL # Q k))" for k using d(4,5) [of k] by (cases "ends s k") (auto simp: q_head_def q_tail_def)
  show ?thesis
  proof (cases as rule: rev_cases)
    case Nil
    have u: "unlink q NULL x s = s\<lparr>ends := (ends s)(q := (hd (bs @ [NULL]), last (NULL # bs)))\<rparr>"
      using nx l(2) en [of q] q Nil by (auto simp: unlink_def Let_def q_head_def q_tail_def)
    have "rq_rep (unlink q NULL x s) (Q(q := bs))"
    proof (rule rq_rep_upd [OF rep])
      fix k assume "k \<noteq> q"
      then show "set (Q k) \<inter> set bs = {}" "links (r_next (unlink q NULL x s)) (Q k) NULL"
        using d(6) [of k q] d(1) [of k] q Nil u by auto
    qed (use u l dist d(7) [of _ q] q Nil in auto)
    then show ?thesis using Nil by simp
  next
    case (snoc cs p)
    have p: "p \<noteq> NULL" "p \<in> set (Q q)" using dist snoc q by auto
    have u: "unlink q p x s = s\<lparr>r_next := (r_next s)(p := hd (bs @ [NULL])), ends := (ends s)(q := (hd (Q q @ [NULL]), last (NULL # as @ bs)))\<rparr>"
      using nx l(2) en [of q] q snoc p(1) by (auto simp: unlink_def Let_def q_head_def q_tail_def fun_upd_idem)
    have links: "links ((r_next s)(p := hd (bs @ [NULL]))) (as @ bs) NULL"
      using l dist snoc links_upd_last [of cs p "r_next s" x "hd (bs @ [NULL])"] by (simp add: links_append links_Cons)
    have other: "links ((r_next s)(p := hd (bs @ [NULL]))) (Q k) NULL" if "k \<noteq> q" for k
      using d(1) [of k] d(6) [OF that] p(2) by (subst links_upd_other) auto
    have hd: "hd (Q q @ [NULL]) = hd (as @ bs @ [NULL])" using q snoc by (cases cs) auto
    have "rq_rep (unlink q p x s) (Q(q := as @ bs))"
    proof (rule rq_rep_upd [OF rep])
      fix k assume k: "k \<noteq> q"
      then show "set (Q k) \<inter> set (as @ bs) = {}" using d(6) [OF k] q by auto
      show "links (r_next (unlink q p x s)) (Q k) NULL" using other [OF k] u by simp
    qed (use u links hd dist d(7) [of _ q] q in auto)
    then show ?thesis using snoc by simp
  qed
qed

lemma enqueue_rep:
  assumes rep: "rq_rep s Q" and r: "\<And>k. r \<notin> set (Q k)" "r \<noteq> NULL" "r < next_req s"
  shows "rq_rep (enqueue q r s) (Q(q := Q q @ [r]))"
proof -
  note d = repD [OF rep]
  have en: "ends s q = (hd (Q q @ [NULL]), last (NULL # Q q))"
    using d(4,5) [of q] by (cases "ends s q") (auto simp: q_head_def q_tail_def)
  have other: "links ((r_next s)(r := NULL)) (Q k) NULL" for k using d(1) [of k] r(1) [of k] by simp
  show ?thesis
  proof (cases "Q q" rule: rev_cases)
    case Nil
    have u: "enqueue q r s = s\<lparr>r_next := (r_next s)(r := NULL), ends := (ends s)(q := (r, r))\<rparr>"
      using en Nil by (simp add: enqueue_def Let_def q_head_def q_tail_def)
    show ?thesis
      by (rule rq_rep_upd [OF rep]) (use u Nil r other in auto)
  next
    case (snoc cs p)
    have p: "p \<noteq> NULL" "p \<noteq> r" "p \<in> set (Q q)" using d(3) [of q] r(1) [of q] snoc by auto
    have u: "enqueue q r s = s\<lparr>r_next := (r_next s)(r := NULL, p := r), ends := (ends s)(q := (hd (Q q @ [NULL]), r))\<rparr>"
      using en snoc p by (simp add: enqueue_def Let_def q_head_def q_tail_def)
    have l: "links ((r_next s)(r := NULL, p := r)) (Q q @ [r]) NULL"
    proof -
      have "links ((r_next s)(r := NULL, p := r)) (cs @ [p]) r"
        using other [of q] d(2) [of q] snoc by (intro links_upd_last [of _ _ _ NULL]) simp_all
      then show ?thesis using p by (simp add: snoc links_append)
    qed
    show ?thesis
    proof (rule rq_rep_upd [OF rep])
      fix k assume k: "k \<noteq> q"
      show "set (Q k) \<inter> set (Q q @ [r]) = {}" using d(6) [OF k] r(1) [of k] by auto
      have "p \<notin> set (Q k)" using d(6) [OF k] p(3) by auto
      then show "links (r_next (enqueue q r s)) (Q k) NULL" using other [of k] u by simp
    next
      show "ends (enqueue q r s) = (ends s)(q := (hd ((Q q @ [r]) @ [NULL]), last (NULL # Q q @ [r])))"
        using u snoc by (cases cs) simp_all
    qed (use u l d(2,3) [of q] d(7) [of _ q] r in auto)
  qed
qed

lemma fresh_not_queued: "rq_rep s Q \<Longrightarrow> next_req s \<notin> set (Q q)"
  using repD(7) by fastforce

lemma find_unexpected:
  assumes rep: "rq_rep s Q"
  shows "q_find P (r_next s) NULL (q_head q s) =
    (case take_first P (Q q) of
       None \<Rightarrow> Some (last (NULL # Q q), NULL)
     | Some (x, ys) \<Rightarrow> Some (last (NULL # takeWhile (\<lambda>a. \<not> P a) (Q q)), x))"
proof (cases "take_first P (Q q)")
  case None
  then have "\<forall>x \<in> set (Q q). \<not> P x" by (simp add: take_first_None)
  then show ?thesis unfolding None repD(4) [OF rep] using q_find_none [OF repD(1,3) [OF rep], of q P NULL] by simp
next
  case (Some z)
  obtain x ys where z: "z = (x, ys)" by (cases z)
  obtain as bs where a: "Q q = as @ x # bs" "P x" "\<forall>a \<in> set as. \<not> P a" using take_first_Some [of P "Q q" x ys] Some z by blast
  have "takeWhile (\<lambda>a. \<not> P a) (Q q) = as" using a by (simp add: takeWhile_append)
  moreover have "q_find P (r_next s) NULL (hd (as @ [x])) = Some (last (NULL # as), x)"
    using repD(1,3) [OF rep, of q] a by (intro q_find_some) auto
  moreover have "q_head q s = hd (as @ [x])" using repD(4) [OF rep, of q] a(1) by (cases as) auto
  ultimately show ?thesis using Some z by simp
qed

text \<open>Taking the first request that satisfies \<open>P\<close> out of a queue.\<close>

lemma unlink_first:
  assumes rep: "rq_rep s Q" and f: "take_first P (Q q) = Some (x, ys)"
  shows "q_find P (r_next s) NULL (q_head q s) = Some (last (NULL # takeWhile (\<lambda>a. \<not> P a) (Q q)), x)" "x \<noteq> NULL"
    "rq_rep (unlink q (last (NULL # takeWhile (\<lambda>a. \<not> P a) (Q q))) x s) (Q(q := ys))"
proof -
  obtain as bs where a: "Q q = as @ x # bs" "ys = as @ bs" "P x" "\<forall>a \<in> set as. \<not> P a" using take_first_Some [OF f] by blast
  have t: "takeWhile (\<lambda>a. \<not> P a) (Q q) = as" using a by (simp add: takeWhile_append)
  show "q_find P (r_next s) NULL (q_head q s) = Some (last (NULL # takeWhile (\<lambda>a. \<not> P a) (Q q)), x)"
    using find_unexpected [OF rep, of P q] f by simp
  show "x \<noteq> NULL" using repD(3) [OF rep, of q] a(1) by auto
  show "rq_rep (unlink q (last (NULL # takeWhile (\<lambda>a. \<not> P a) (Q q))) x s) (Q(q := ys))"
    unfolding t a(2) by (rule unlink_rep [OF rep a(1)])
qed

text \<open>Two processes, of ranks 10 and 11, with empty queues.\<close>

lemma init_rep: "rq_rep (rq_init n start me junk) (\<lambda>_. [])"
  by (simp add: rq_rep_def chain_def rq_init_def)

lemma init_index: "GET_MATCH_QUEUE_INDEX 10 (rq_init 2 10 10 junk) = Inr 0" "GET_MATCH_QUEUE_INDEX 11 (rq_init 2 10 10 junk) = Inr 1"
  "my_fgrank (rq_init 2 10 10 junk) = 10" "next_req (rq_init 2 10 10 junk) = 1"
  by (simp_all add: GET_MATCH_QUEUE_INDEX_def rq_init_def Let_def)

subsection \<open>Receives\<close>

lemma post_request_spec:
  assumes "rq_rep s Q"
  shows "\<exists>s'. post_request junk moribund source tag cid comm buf cnt dt fg s = (next_req s, s') \<and> keeps s s' \<and>
    user_buf (req s' (next_req s)) = buf \<and>
    r_match (req s' (next_req s)) = \<lparr>m_tag = tag, m_rank = source, m_context_id = ucast cid, m_dest_rank = my_fgrank s\<rparr> \<and>
    r_mask (req s' (next_req s)) = \<lparr>m_tag = (if tag = MPI_ANY_TAG then 0 else NOT 0),
       m_rank = (if source = MPI_ANY_SOURCE then 0 else NOT 0), m_context_id = NOT 0, m_dest_rank = NOT 0\<rparr> \<and>
    (if source \<noteq> MPI_ANY_SOURCE \<and> moribund comm source
     then rq_rep s' Q \<and> completed (req s' (next_req s)) \<and> status_ERROR (req s' (next_req s)) = MPIX_ERR_PROC_FAILED
     else rq_rep s' (Q(Posted fg := Q (Posted fg) @ [next_req s])))"
proof -
  let ?match = "\<lparr>m_tag = tag, m_rank = source, m_context_id = ucast cid, m_dest_rank = my_fgrank s\<rparr>"
  let ?mask = "\<lparr>m_tag = (if tag = MPI_ANY_TAG then 0 else NOT 0), m_rank = (if source = MPI_ANY_SOURCE then 0 else NOT 0),
     m_context_id = NOT 0, m_dest_rank = NOT 0\<rparr>"
  define s2 where "s2 = MPIR_Comm_add_ref comm (set_req (next_req s) (\<lambda>x. x\<lparr>r_match := ?match, r_mask := ?mask, r_comm := comm,
      user_buf := buf, user_count := cnt, datatype_handle := dt\<rparr>) (snd (MPIDI_Request_create_rreq junk s)))"
  have f: "r_next s2 = r_next s" "ends s2 = ends s" "next_req s2 = next_req s + 1" "nfg s2 = nfg s"
    "fgstartrank s2 = fgstartrank s" "my_fgrank s2 = my_fgrank s" "a < next_req s \<Longrightarrow> req s2 a = req s a"
    "r_match (req s2 (next_req s)) = ?match" "r_mask (req s2 (next_req s)) = ?mask" "user_buf (req s2 (next_req s)) = buf" for a
    by (simp_all add: s2_def MPIDI_Request_create_rreq_def Let_def)
  have rep: "rq_rep s2 Q" by (rule rep_cong [OF assms f(1,2)]) (simp add: f(3))
  have p: "post_request junk moribund source tag cid comm buf cnt dt fg s = (next_req s,
      if source \<noteq> MPI_ANY_SOURCE \<and> moribund comm source
      then set_req (next_req s) (\<lambda>x. x\<lparr>status_ERROR := MPIX_ERR_PROC_FAILED, completed := True\<rparr>) s2
      else (enqueue (Posted fg) (next_req s) s2)\<lparr>posted_recvq_length := posted_recvq_length (enqueue (Posted fg) (next_req s) s2) + 1\<rparr>)"
    by (simp add: post_request_def s2_def MPIDI_Request_create_rreq_def Let_def)
  show ?thesis
  proof (cases "source \<noteq> MPI_ANY_SOURCE \<and> moribund comm source")
    case True
    have "rq_rep (set_req (next_req s) (\<lambda>x. x\<lparr>status_ERROR := MPIX_ERR_PROC_FAILED, completed := True\<rparr>) s2) Q"
      by (rule rep_cong [OF rep]) simp_all
    then show ?thesis unfolding p using True f by (auto simp: keeps_def)
  next
    case False
    have "rq_rep (enqueue (Posted fg) (next_req s) s2) (Q(Posted fg := Q (Posted fg) @ [next_req s]))"
      by (rule enqueue_rep [OF rep]) (use fresh_not_queued [OF assms] repD(8) [OF assms] f(3) in auto)
    then have "rq_rep ((enqueue (Posted fg) (next_req s) s2)\<lparr>posted_recvq_length := n\<rparr>) (Q(Posted fg := Q (Posted fg) @ [next_req s]))" for n
      by (rule rep_cong) simp_all
    then show ?thesis unfolding p using False f by (auto simp: keeps_def)
  qed
qed

text \<open>The search of the unexpected queue in terms of \<open>accepts\<close>.\<close>

lemma search_unexpected:
  assumes "rq_rep s Q"
  shows "q_find (\<lambda>r. MATCH_WITH_LEFT_MASK (r_match (req s r)) (fst (search_match source tag cid fgr))
      (snd (search_match source tag cid fgr))) (r_next s) NULL (q_head (Unexpected fg) s) =
    (case take_first (\<lambda>r. accepts source tag cid fgr (r_match (req s r))) (Q (Unexpected fg)) of
       None \<Rightarrow> Some (last (NULL # Q (Unexpected fg)), NULL)
     | Some (x, ys) \<Rightarrow> Some (last (NULL # takeWhile (\<lambda>r. \<not> accepts source tag cid fgr (r_match (req s r))) (Q (Unexpected fg))), x))"
  unfolding search_accepts by (rule find_unexpected [OF assms])

lemma recv_found:
  assumes rep: "rq_rep s Q" and i: "GET_MATCH_QUEUE_INDEX (my_fgrank s) s = Inr fg"
    and t: "take_first (\<lambda>r. accepts source tag cid (my_fgrank s) (r_match (req s r))) (Q (Unexpected fg)) = Some (r, us)"
  shows "\<exists>s'. MPIDI_CH3U_Recvq_FDU_or_AEP junk moribund source tag cid comm buf cnt dt s = Inr (True, r, s') \<and> keeps s s' \<and>
    rq_rep s' (Q(Unexpected fg := us)) \<and> user_buf (req s' r) = buf \<and> unexpected_recvq_length s' = unexpected_recvq_length s - 1"
proof -
  note u = unlink_first [OF rep t]
  define p where "p = last (NULL # takeWhile (\<lambda>a. \<not> accepts source tag cid (my_fgrank s) (r_match (req s a))) (Q (Unexpected fg)))"
  define s1 where "s1 = unlink (Unexpected fg) p r s"
  define s3 where "s3 = (let s2 = s1\<lparr>unexpected_recvq_length := unexpected_recvq_length s1 - 1\<rparr> in
      if r_msg_type (req s2 r) = EAGER_MSG
      then s2\<lparr>unexpected_recvq_buffer_size := unexpected_recvq_buffer_size s2 - tmpbuf_sz (req s2 r)\<rparr> else s2)"
  let ?s = "MPIR_Comm_add_ref comm (set_req r (\<lambda>x. x\<lparr>r_comm := comm, user_buf := buf, user_count := cnt, datatype_handle := dt\<rparr>) s3)"
  have rep1: "rq_rep s1 (Q(Unexpected fg := us))" using u(3) by (simp only: s1_def p_def)
  have f: "r_next s3 = r_next s1" "ends s3 = ends s1" "next_req s3 = next_req s" "nfg s3 = nfg s" "req s3 = req s"
    "fgstartrank s3 = fgstartrank s" "my_fgrank s3 = my_fgrank s" "unexpected_recvq_length s3 = unexpected_recvq_length s - 1"
    by (simp_all add: s3_def s1_def Let_def)
  have "q_find (\<lambda>r. MATCH_WITH_LEFT_MASK (r_match (req s r)) (fst (search_match source tag cid (my_fgrank s)))
      (snd (search_match source tag cid (my_fgrank s)))) (r_next s) NULL (q_head (Unexpected fg) s) = Some (p, r)"
    unfolding search_unexpected [OF rep] t p_def by simp
  then have "MPIDI_CH3U_Recvq_FDU_or_AEP junk moribund source tag cid comm buf cnt dt s = Inr (True, r, ?s)"
    using i u(2) by (simp add: MPIDI_CH3U_Recvq_FDU_or_AEP_def case_prod_beta Let_def s3_def s1_def)
  moreover have "rq_rep ?s (Q(Unexpected fg := us))" by (rule rep_cong [OF rep1]) (simp_all add: f s1_def)
  moreover have "keeps s ?s" using f by (auto simp: keeps_def)
  moreover have "unexpected_recvq_length ?s = unexpected_recvq_length s - 1"
    using f(8) by (simp add: MPIR_Comm_add_ref_def set_req_def)
  ultimately show ?thesis by auto
qed

lemma recv_not_found:
  assumes rep: "rq_rep s Q" and i: "GET_MATCH_QUEUE_INDEX (my_fgrank s) s = Inr fg"
    and t: "take_first (\<lambda>r. accepts source tag cid (my_fgrank s) (r_match (req s r))) (Q (Unexpected fg)) = None"
  shows "MPIDI_CH3U_Recvq_FDU_or_AEP junk moribund source tag cid comm buf cnt dt s =
    (let (r, s') = post_request junk moribund source tag cid comm buf cnt dt fg s in Inr (False, r, s'))"
  using search_unexpected [OF rep, of source tag cid "my_fgrank s" fg] t i
  by (simp add: MPIDI_CH3U_Recvq_FDU_or_AEP_def case_prod_beta Let_def)

text \<open>
  C21. A receive takes the first unexpected message it accepts, in the order of arrival, and takes it
  out of the queue; if there is none, a new request is put at the end of the posted queue, or
  completed with an error when the connection to the sender has failed.
\<close>

theorem recv_takes_first_unexpected:
  assumes "rq_rep s Q" "GET_MATCH_QUEUE_INDEX (my_fgrank s) s = Inr fg"
  shows "case take_first (\<lambda>r. accepts source tag cid (my_fgrank s) (r_match (req s r))) (Q (Unexpected fg)) of
      Some (r, us) \<Rightarrow> \<exists>s'. MPIDI_CH3U_Recvq_FDU_or_AEP junk moribund source tag cid comm buf cnt dt s = Inr (True, r, s') \<and>
        rq_rep s' (Q(Unexpected fg := us)) \<and> user_buf (req s' r) = buf \<and>
        unexpected_recvq_length s' = unexpected_recvq_length s - 1
    | None \<Rightarrow> \<exists>s'. MPIDI_CH3U_Recvq_FDU_or_AEP junk moribund source tag cid comm buf cnt dt s = Inr (False, next_req s, s') \<and>
        (if source \<noteq> MPI_ANY_SOURCE \<and> moribund comm source
         then rq_rep s' Q \<and> completed (req s' (next_req s)) \<and> status_ERROR (req s' (next_req s)) = MPIX_ERR_PROC_FAILED
         else rq_rep s' (Q(Posted fg := Q (Posted fg) @ [next_req s])) \<and> user_buf (req s' (next_req s)) = buf)"
proof (cases "take_first (\<lambda>r. accepts source tag cid (my_fgrank s) (r_match (req s r))) (Q (Unexpected fg))")
  case None
  show ?thesis
    unfolding None option.case recv_not_found [OF assms None]
    using post_request_spec [OF assms(1), of junk moribund source tag cid comm buf cnt dt fg] by auto
next
  case (Some z)
  then show ?thesis using recv_found [OF assms, of source tag cid _ _ junk moribund comm buf cnt dt]
    by (cases z) fastforce
qed

theorem recv_takes_first_unexpected_witness:
  "\<exists>s'. MPIDI_CH3U_Recvq_FDU_or_AEP blank_request (\<lambda>_ _. False) 3 7 4 1 5 1 0 (rq_init 2 10 10 blank_request) = Inr (False, 1, s') \<and>
     rq_rep s' ((\<lambda>_. [])(Posted 0 := [1]))"
  using recv_takes_first_unexpected [OF init_rep [of 2 10 10 blank_request], where fg = 0 and source = 3 and tag = 7 and cid = 4 and
      junk = blank_request and moribund = "\<lambda>_ _. False" and comm = 1 and buf = 5 and cnt = 1 and dt = 0]
  by (auto simp: init_index)

subsection \<open>Messages\<close>

lemma unlink_next: "x \<noteq> p \<Longrightarrow> r_next (unlink q p x s) x = r_next s x"
  by (simp add: unlink_def Let_def)

lemma last_not_in: "distinct (as @ x # bs) \<Longrightarrow> NULL \<notin> set (as @ x # bs) \<Longrightarrow> x \<noteq> last (NULL # as)"
  by (cases as rule: rev_cases) auto

lemma fdp_loop_rep:
  assumes "rq_rep s Q" "Q (Posted fg) = as @ cs" "\<And>r. P r = MATCH_WITH_LEFT_RIGHT_MASK (r_match (req s r)) m (r_mask (req s r))"
  shows "\<exists>s'. fdp_loop hook m fg (last (NULL # as)) (hd (cs @ [NULL])) s =
      Some (case fst (fdp_spec P hook cs) of None \<Rightarrow> NULL | Some x \<Rightarrow> x, s') \<and>
    rq_rep s' (Q(Posted fg := as @ snd (fdp_spec P hook cs))) \<and> req s' = req s \<and> keeps s s' \<and>
    next_req s' = next_req s \<and> notified s' = notified s \<and> unexpected_recvq_length s' = unexpected_recvq_length s \<and>
    handles s' = handles s"
  using assms
proof (induction cs arbitrary: as s Q)
  case Nil
  then show ?case by (auto simp: fdp_loop.simps keeps_def fun_upd_idem)
next
  case (Cons x cs)
  note d = repD(1-3) [OF Cons.prems(1), of "Posted fg"]
  have x: "x \<noteq> NULL" "x \<noteq> last (NULL # as)" "r_next s x = hd (cs @ [NULL])"
    using d last_not_in [of as x cs] unfolding Cons.prems(2) by (auto simp: links_append links_Cons)
  show ?case
  proof (cases "P x")
    case False
    have "Q (Posted fg) = (as @ [x]) @ cs" using Cons.prems(2) by simp
    from Cons.IH [OF Cons.prems(1) this Cons.prems(3)] show ?thesis
      using False x Cons.prems(3) [of x] by (subst fdp_loop.simps) (simp del: fun_upd_apply)
  next
    case True
    define s1 where "s1 = (unlink (Posted fg) (last (NULL # as)) x s)\<lparr>posted_recvq_length := posted_recvq_length s - 1\<rparr>"
    have "rq_rep (unlink (Posted fg) (last (NULL # as)) x s) (Q(Posted fg := as @ cs))"
      by (rule unlink_rep) (use Cons.prems in simp_all)
    then have r1: "rq_rep s1 (Q(Posted fg := as @ cs))" by (rule rep_cong) (simp_all add: s1_def)
    have f: "req s1 = req s" "keeps s s1" "next_req s1 = next_req s" "notified s1 = notified s" "r_next s1 x = hd (cs @ [NULL])"
      "unexpected_recvq_length s1 = unexpected_recvq_length s" "handles s1 = handles s"
      using x(3) unlink_next [OF x(2)] by (simp_all add: s1_def keeps_def)
    have l: "fdp_loop hook m fg (last (NULL # as)) (hd ((x # cs) @ [NULL])) s =
        (if hook x then fdp_loop hook m fg (last (NULL # as)) (hd (cs @ [NULL])) s1 else Some (x, s1))"
      using True x(1) Cons.prems(3) [of x] f(5) by (subst fdp_loop.simps) (simp add: s1_def Let_def)
    show ?thesis
    proof (cases "hook x")
      case False
      then show ?thesis unfolding l using True r1 f by (simp del: fun_upd_apply)
    next
      case h: True
      have "\<exists>s'. fdp_loop hook m fg (last (NULL # as)) (hd (cs @ [NULL])) s1 =
          Some (case fst (fdp_spec P hook cs) of None \<Rightarrow> NULL | Some x \<Rightarrow> x, s') \<and>
        rq_rep s' ((Q(Posted fg := as @ cs))(Posted fg := as @ snd (fdp_spec P hook cs))) \<and> req s' = req s1 \<and> keeps s1 s' \<and>
        next_req s' = next_req s1 \<and> notified s' = notified s1 \<and> unexpected_recvq_length s' = unexpected_recvq_length s1 \<and>
        handles s' = handles s1"
        by (rule Cons.IH [OF r1]) (use Cons.prems(3) f(1) in simp_all)
      then show ?thesis unfolding l using h True f by (auto simp: keeps_def simp del: fun_upd_apply)
    qed
  qed
qed

lemma fdp_spec_found: "fst (fdp_spec P hook xs) = Some x \<Longrightarrow> x \<in> set xs \<and> P x \<and> \<not> hook x"
  by (induction xs) (auto split: if_splits)

lemma fdp_spec_rest: "set (snd (fdp_spec P hook xs)) \<subseteq> set xs"
  by (induction xs) auto

lemma fdp_spec_none: "fst (fdp_spec P hook xs) = None \<Longrightarrow> \<forall>x \<in> set (snd (fdp_spec P hook xs)). \<not> P x"
  by (induction xs) (auto split: if_splits)

lemma zerocopy_none:
  "\<not> self_zerocopy (req s r) \<or> hwp (m_rank m) (r_comm (req s r)) \<Longrightarrow> zerocopy_buffer hwp buf m r s = Inr s"
  by (auto simp: zerocopy_buffer_def)

text \<open>Clearing and setting the error bits leaves the message as it was.\<close>

lemma restore_match:
  fixes m defines "e \<equiv> MPIR_TAG_CHECK_ERROR_BIT (m_tag m)" defines "p \<equiv> e \<and> MPIR_TAG_CHECK_PROC_FAILURE_BIT (m_tag m)"
  shows "restore_error_bits e p (arriving m) = m" "restore_error_bits e p m = m"
  by (auto simp: restore_error_bits_def e_def p_def arriving_def tag_check_iff tag_restore Let_def)

lemma arriving_dest [simp]: "m_dest_rank (arriving m) = m_dest_rank m" "m_rank (arriving m) = m_rank m"
  by (simp_all add: arriving_def)

text \<open>A posted receive is taken: what remains is the buffer of a zero-copy receive.\<close>

lemma message_taken:
  assumes rep: "rq_rep s Q" and i: "GET_MATCH_QUEUE_INDEX (m_dest_rank m) s = Inr fg"
    and f: "fdp_spec (\<lambda>r. posted_accepts (req s r) m) hook (Q (Posted fg)) = (Some r, ps)"
  obtains s1 where "rq_rep s1 (Q(Posted fg := ps))" "req s1 = req s" "keeps s s1" "notified s1 = notified s" "handles s1 = handles s"
    "MPIDI_CH3U_Recvq_FDP_or_AEU junk hook hwp buf m s =
       bind_outcome (zerocopy_buffer hwp buf (arriving m) r s1) (\<lambda>s2.
         Inr (True, r, m, s2\<lparr>notified := notified s2 @ [m_dest_rank m]\<rparr>))"
proof -
  obtain s1 where s1: "fdp_loop hook (arriving m) fg NULL (q_head (Posted fg) s) s = Some (r, s1)"
    "rq_rep s1 (Q(Posted fg := ps))" "req s1 = req s" "keeps s s1" "notified s1 = notified s" "handles s1 = handles s"
    using fdp_loop_rep [OF rep, of fg "[]" "Q (Posted fg)" "\<lambda>r. posted_accepts (req s r) m" "arriving m" hook] f repD(4) [OF rep, of "Posted fg"]
    by (auto simp: posted_accepts_def)
  have r: "r \<noteq> NULL" using fdp_spec_found [of "\<lambda>r. posted_accepts (req s r) m" hook "Q (Posted fg)" r] f repD(3) [OF rep, of "Posted fg"] by (metis fst_conv)
  show ?thesis
    by (rule that [OF s1(2-6)]) (use s1(1) i r in \<open>simp add: MPIDI_CH3U_Recvq_FDP_or_AEU_def Let_def restore_match\<close>)
qed

lemma message_found:
  assumes rep: "rq_rep s Q" and i: "GET_MATCH_QUEUE_INDEX (m_dest_rank m) s = Inr fg"
    and f: "fdp_spec (\<lambda>r. posted_accepts (req s r) m) hook (Q (Posted fg)) = (Some r, ps)"
    and z: "\<not> self_zerocopy (req s r) \<or> hwp (m_rank m) (r_comm (req s r))"
  shows "\<exists>s'. MPIDI_CH3U_Recvq_FDP_or_AEU junk hook hwp buf m s = Inr (True, r, m, s') \<and> keeps s s' \<and>
    rq_rep s' (Q(Posted fg := ps)) \<and> notified s' = notified s @ [m_dest_rank m] \<and> req s' = req s \<and> handles s' = handles s"
proof -
  obtain s1 where s1: "rq_rep s1 (Q(Posted fg := ps))" "req s1 = req s" "keeps s s1" "notified s1 = notified s" "handles s1 = handles s"
    "MPIDI_CH3U_Recvq_FDP_or_AEU junk hook hwp buf m s =
       bind_outcome (zerocopy_buffer hwp buf (arriving m) r s1) (\<lambda>s2.
         Inr (True, r, m, s2\<lparr>notified := notified s2 @ [m_dest_rank m]\<rparr>))"
    by (rule message_taken [OF rep i f])
  have "zerocopy_buffer hwp buf (arriving m) r s1 = Inr s1" by (rule zerocopy_none) (use z s1(2) in simp)
  then have "MPIDI_CH3U_Recvq_FDP_or_AEU junk hook hwp buf m s = Inr (True, r, m, s1\<lparr>notified := notified s1 @ [m_dest_rank m]\<rparr>)"
    using s1(6) by simp
  moreover have "rq_rep (s1\<lparr>notified := n\<rparr>) (Q(Posted fg := ps))" for n by (rule rep_cong [OF s1(1)]) simp_all
  ultimately show ?thesis using s1(2-5) by (auto simp: keeps_def)
qed

lemma message_zerocopy:
  assumes rep: "rq_rep s Q" and i: "GET_MATCH_QUEUE_INDEX (m_dest_rank m) s = Inr fg"
    and f: "fdp_spec (\<lambda>r. posted_accepts (req s r) m) hook (Q (Posted fg)) = (Some r, ps)"
    and z: "self_zerocopy (req s r)" "\<not> hwp (m_rank m) (r_comm (req s r))"
  shows "if r_msg_type (req s r) = SELF_MSG then
      MPIDI_CH3U_Recvq_FDP_or_AEU junk hook hwp buf m s = Inl (Assert_failed ''msg_type != MPIDI_REQUEST_SELF_MSG'')
    else if user_buf (req s r) \<noteq> NULL then
      MPIDI_CH3U_Recvq_FDP_or_AEU junk hook hwp buf m s = Inl (Assert_failed ''NULL == rreq->dev.user_buf'')
    else if buf = NULL then
      MPIDI_CH3U_Recvq_FDP_or_AEU junk hook hwp buf m s = Inl (Assert_failed ''*(rreq->dev.user_buf_handle)'')
    else \<exists>s'. MPIDI_CH3U_Recvq_FDP_or_AEU junk hook hwp buf m s = Inr (True, r, m, s') \<and>
      rq_rep s' (Q(Posted fg := ps)) \<and> notified s' = notified s @ [m_dest_rank m] \<and>
      req s' = (req s)(r := (req s r)\<lparr>user_buf := buf\<rparr>) \<and> handles s' = (handles s)(user_buf_handle (req s r) := buf)"
proof -
  obtain s1 where s1: "rq_rep s1 (Q(Posted fg := ps))" "req s1 = req s" "keeps s s1" "notified s1 = notified s" "handles s1 = handles s"
    "MPIDI_CH3U_Recvq_FDP_or_AEU junk hook hwp buf m s =
       bind_outcome (zerocopy_buffer hwp buf (arriving m) r s1) (\<lambda>s2.
         Inr (True, r, m, s2\<lparr>notified := notified s2 @ [m_dest_rank m]\<rparr>))"
    by (rule message_taken [OF rep i f])
  define s2 where "s2 = s1\<lparr>handles := (handles s)(user_buf_handle (req s r) := buf), req := (req s)(r := (req s r)\<lparr>user_buf := buf\<rparr>)\<rparr>"
  have "zerocopy_buffer hwp buf (arriving m) r s1 =
      (if r_msg_type (req s r) = SELF_MSG then Inl (Assert_failed ''msg_type != MPIDI_REQUEST_SELF_MSG'')
       else if user_buf (req s r) \<noteq> NULL then Inl (Assert_failed ''NULL == rreq->dev.user_buf'')
       else if buf = NULL then Inl (Assert_failed ''*(rreq->dev.user_buf_handle)'') else Inr s2)"
    using z s1(2,5) by (simp add: zerocopy_buffer_def check_def set_req_def s2_def Let_def)
  moreover have "rq_rep (s2\<lparr>notified := n\<rparr>) (Q(Posted fg := ps))" for n by (rule rep_cong [OF s1(1)]) (simp_all add: s2_def)
  ultimately show ?thesis using s1(4,6) by (auto simp: s2_def)
qed

lemma message_not_found:
  assumes rep: "rq_rep s Q" and i: "GET_MATCH_QUEUE_INDEX (m_dest_rank m) s = Inr fg"
    and f: "fdp_spec (\<lambda>r. posted_accepts (req s r) m) hook (Q (Posted fg)) = (None, ps)"
  shows "\<exists>s'. MPIDI_CH3U_Recvq_FDP_or_AEU junk hook hwp buf m s = Inr (False, next_req s, m, s') \<and> keeps s s' \<and>
    rq_rep s' (Q(Posted fg := ps, Unexpected fg := Q (Unexpected fg) @ [next_req s])) \<and>
    r_match (req s' (next_req s)) = m \<and> unexpected_recvq_length s' = unexpected_recvq_length s + 1"
proof -
  obtain s1 where s1: "fdp_loop hook (arriving m) fg NULL (q_head (Posted fg) s) s = Some (NULL, s1)"
    "rq_rep s1 (Q(Posted fg := ps))" "req s1 = req s" "keeps s s1" "next_req s1 = next_req s"
    "unexpected_recvq_length s1 = unexpected_recvq_length s"
    using fdp_loop_rep [OF rep, of fg "[]" "Q (Posted fg)" "\<lambda>r. posted_accepts (req s r) m" "arriving m" hook] f repD(4) [OF rep, of "Posted fg"]
    by (auto simp: posted_accepts_def)
  let ?r = "next_req s"
  define s2 where "s2 = set_req ?r (\<lambda>x. x\<lparr>recv_pending_count := 1, r_match := m\<rparr>) (snd (MPIDI_Request_create_rreq junk s1))"
  let ?s = "(enqueue (Unexpected fg) ?r s2)\<lparr>unexpected_recvq_length := unexpected_recvq_length (enqueue (Unexpected fg) ?r s2) + 1\<rparr>"
  have f2: "r_next s2 = r_next s1" "ends s2 = ends s1" "next_req s2 = ?r + 1" "nfg s2 = nfg s1" "fgstartrank s2 = fgstartrank s1"
    "my_fgrank s2 = my_fgrank s1" "a < ?r \<Longrightarrow> req s2 a = req s1 a" "r_match (req s2 ?r) = m"
    "unexpected_recvq_length s2 = unexpected_recvq_length s1" for a
    using s1(5) by (simp_all add: s2_def MPIDI_Request_create_rreq_def Let_def set_req_def)
  have rep2: "rq_rep s2 (Q(Posted fg := ps))" by (rule rep_cong [OF s1(2) f2(1,2)]) (simp add: f2(3) s1(5))
  have "?r \<notin> set ((Q(Posted fg := ps)) k)" for k
    using fresh_not_queued [OF s1(2), of k] s1(5) by simp
  then have "rq_rep (enqueue (Unexpected fg) ?r s2)
      ((Q(Posted fg := ps))(Unexpected fg := (Q(Posted fg := ps)) (Unexpected fg) @ [?r]))"
    by (rule enqueue_rep [OF rep2]) (use repD(8) [OF rep] f2(3) in auto)
  then have e: "rq_rep (enqueue (Unexpected fg) ?r s2) (Q(Posted fg := ps, Unexpected fg := Q (Unexpected fg) @ [?r]))" by simp
  have "rq_rep ?s (Q(Posted fg := ps, Unexpected fg := Q (Unexpected fg) @ [?r]))" by (rule rep_cong [OF e]) simp_all
  moreover have "MPIDI_CH3U_Recvq_FDP_or_AEU junk hook hwp buf m s = Inr (False, ?r, m, ?s)"
    using s1(1,5) i
    by (simp add: MPIDI_CH3U_Recvq_FDP_or_AEU_def Let_def restore_match s2_def MPIDI_Request_create_rreq_def)
  moreover have "keeps s ?s" using s1(3,4) f2(3-7) unfolding keeps_def by simp
  ultimately show ?thesis using f2(8,9) s1(6) by auto
qed

text \<open>
  C22. An arriving message goes to the first posted receive that accepts it and that the channel has
  not matched itself, whose process is notified; the receives the channel has matched are dropped from the
  queue on the way.  If that receive is a zero-copy one (\<^verbatim>\<open>MPIX_Zrecv\<close>) and the sender lives in another
  operating-system process, the buffer that was allocated is stored in the request and through the
  user's handle; an assertion fails instead when the receive is marked as one of a message to
  oneself, has a buffer already, or the allocation fails.  All other requests stay as they are.  If no
  receive is taken the message is put at the end of the unexpected queue.  In all cases the message
  keeps its error bits.
\<close>

theorem message_takes_first_posted:
  assumes "rq_rep s Q" "GET_MATCH_QUEUE_INDEX (m_dest_rank m) s = Inr fg"
  shows "case fdp_spec (\<lambda>r. posted_accepts (req s r) m) hook (Q (Posted fg)) of
      (Some r, ps) \<Rightarrow>
        if self_zerocopy (req s r) \<and> \<not> hwp (m_rank m) (r_comm (req s r)) then
          if r_msg_type (req s r) = SELF_MSG then
            MPIDI_CH3U_Recvq_FDP_or_AEU junk hook hwp buf m s = Inl (Assert_failed ''msg_type != MPIDI_REQUEST_SELF_MSG'')
          else if user_buf (req s r) \<noteq> NULL then
            MPIDI_CH3U_Recvq_FDP_or_AEU junk hook hwp buf m s = Inl (Assert_failed ''NULL == rreq->dev.user_buf'')
          else if buf = NULL then
            MPIDI_CH3U_Recvq_FDP_or_AEU junk hook hwp buf m s = Inl (Assert_failed ''*(rreq->dev.user_buf_handle)'')
          else \<exists>s'. MPIDI_CH3U_Recvq_FDP_or_AEU junk hook hwp buf m s = Inr (True, r, m, s') \<and>
            rq_rep s' (Q(Posted fg := ps)) \<and> notified s' = notified s @ [m_dest_rank m] \<and>
            req s' = (req s)(r := (req s r)\<lparr>user_buf := buf\<rparr>) \<and> handles s' = (handles s)(user_buf_handle (req s r) := buf)
        else \<exists>s'. MPIDI_CH3U_Recvq_FDP_or_AEU junk hook hwp buf m s = Inr (True, r, m, s') \<and>
          rq_rep s' (Q(Posted fg := ps)) \<and> notified s' = notified s @ [m_dest_rank m] \<and> req s' = req s \<and> handles s' = handles s
    | (None, ps) \<Rightarrow> \<exists>s'. MPIDI_CH3U_Recvq_FDP_or_AEU junk hook hwp buf m s = Inr (False, next_req s, m, s') \<and>
        rq_rep s' (Q(Posted fg := ps, Unexpected fg := Q (Unexpected fg) @ [next_req s])) \<and>
        r_match (req s' (next_req s)) = m \<and> unexpected_recvq_length s' = unexpected_recvq_length s + 1"
proof -
  obtain o' ps where f: "fdp_spec (\<lambda>r. posted_accepts (req s r) m) hook (Q (Posted fg)) = (o', ps)" by fastforce
  show ?thesis
  proof (cases o')
    case None
    show ?thesis using message_not_found [OF assms(1,2) f [unfolded None], of junk hwp buf] f None by fastforce
  next
    case (Some r)
    note f = f [unfolded Some]
    show ?thesis
    proof (cases "self_zerocopy (req s r) \<and> \<not> hwp (m_rank m) (r_comm (req s r))")
      case True
      then show ?thesis unfolding f prod.case option.case if_P [OF True]
        by (intro message_zerocopy [OF assms(1,2) f]) simp_all
    next
      case False
      then show ?thesis unfolding f prod.case option.case
        using message_found [OF assms(1,2) f, of hwp junk buf] by (simp only: if_False) blast
    qed
  qed
qed

text \<open>
  A state with one posted receive of process 10: request 1, a zero-copy receive with buffer handle 77
  that takes messages with tag 7 from any process.
\<close>

lemma zerocopy_posted:
  "\<exists>s. rq_rep s ((\<lambda>_. [])(Posted 0 := [1])) \<and> GET_MATCH_QUEUE_INDEX 10 s = Inr 0 \<and> self_zerocopy (req s 1) \<and>
     r_msg_type (req s 1) = NO_MSG \<and> user_buf (req s 1) = NULL \<and> user_buf_handle (req s 1) = 77 \<and>
     posted_accepts (req s 1) \<lparr>m_tag = 7, m_rank = 3, m_context_id = 4, m_dest_rank = 10\<rparr>"
proof -
  let ?m = "\<lparr>m_tag = 7, m_rank = 3, m_context_id = 4, m_dest_rank = 10\<rparr> :: match_parts"
  from post_request_spec [OF init_rep [of 2 10 10 blank_request], where junk = blank_request and
      moribund = "\<lambda>_ _. False" and source = MPI_ANY_SOURCE and tag = 7 and cid = 4 and comm = 1 and buf = NULL and cnt = 1 and dt = 0 and fg = 0]
  obtain s where s: "rq_rep s ((\<lambda>_. [])(Posted 0 := [1]))" "keeps (rq_init 2 10 10 blank_request) s" "user_buf (req s 1) = NULL"
    "r_match (req s 1) = \<lparr>m_tag = 7, m_rank = MPI_ANY_SOURCE, m_context_id = ucast (4 :: 32 word), m_dest_rank = 10\<rparr>"
    "r_mask (req s 1) = \<lparr>m_tag = (if 7 = MPI_ANY_TAG then 0 else NOT 0), m_rank = (if MPI_ANY_SOURCE = MPI_ANY_SOURCE then 0 else NOT 0),
       m_context_id = NOT 0, m_dest_rank = NOT 0\<rparr>"
    by (auto simp: init_index)
  define s' where "s' = set_req 1 (\<lambda>x. x\<lparr>self_zerocopy := True, r_msg_type := NO_MSG, user_buf_handle := 77\<rparr>) s"
  have "rq_rep s' ((\<lambda>_. [])(Posted 0 := [1]))" by (rule rep_cong [OF s(1)]) (simp_all add: s'_def set_req_def)
  moreover have "GET_MATCH_QUEUE_INDEX 10 s' = Inr 0"
    using s(2) init_index(1) [of blank_request] index_cong [of s' "rq_init 2 10 10 blank_request" 10]
    by (simp add: keeps_def s'_def set_req_def)
  moreover have "posted_accepts (req s' 1) ?m = accepts MPI_ANY_SOURCE 7 4 10 ?m"
    by (rule fresh_posted_accepts) (use s(4,5) in \<open>simp_all add: s'_def set_req_def, code_simp\<close>)
  moreover have "accepts MPI_ANY_SOURCE 7 4 10 ?m" by code_simp
  ultimately show ?thesis using s(3) by (intro exI [of _ s']) (simp add: s'_def set_req_def)
qed

theorem message_takes_first_posted_witness:
  "\<exists>s s'. rq_rep s ((\<lambda>_. [])(Posted 0 := [1])) \<and>
     MPIDI_CH3U_Recvq_FDP_or_AEU blank_request (\<lambda>_. False) (\<lambda>_ _. False) 900
       \<lparr>m_tag = 7, m_rank = 3, m_context_id = 4, m_dest_rank = 10\<rparr> s =
     Inr (True, 1, \<lparr>m_tag = 7, m_rank = 3, m_context_id = 4, m_dest_rank = 10\<rparr>, s') \<and>
     rq_rep s' (\<lambda>_. []) \<and> notified s' = notified s @ [10] \<and> user_buf (req s' 1) = 900 \<and> handles s' 77 = 900"
proof -
  obtain s where s: "rq_rep s ((\<lambda>_. [])(Posted 0 := [1]))" "GET_MATCH_QUEUE_INDEX 10 s = Inr 0" "self_zerocopy (req s 1)"
    "r_msg_type (req s 1) = NO_MSG" "user_buf (req s 1) = NULL" "user_buf_handle (req s 1) = 77"
    "posted_accepts (req s 1) \<lparr>m_tag = 7, m_rank = 3, m_context_id = 4, m_dest_rank = 10\<rparr>"
    using zerocopy_posted by blast
  have e: "(\<lambda>_. [])(Posted 0 := [1], Posted 0 := []) = (\<lambda>_. [] :: addr list)" by auto
  show ?thesis
    using message_takes_first_posted [OF s(1), where m = "\<lparr>m_tag = 7, m_rank = 3, m_context_id = 4, m_dest_rank = 10\<rparr>" and
        fg = 0 and hook = "\<lambda>_. False" and junk = blank_request and hwp = "\<lambda>_ _. False" and buf = 900] s e
    by auto
qed

text \<open>A state with one posted receive, request 1, of process 10.\<close>

lemma one_posted:
  "\<exists>s. rq_rep s ((\<lambda>_. [])(Posted 0 := [1])) \<and> r_match (req s 1) = \<lparr>m_tag = 7, m_rank = 3, m_context_id = 4, m_dest_rank = 10\<rparr> \<and>
     indices s = [0, 1] \<and> GET_MATCH_QUEUE_INDEX 10 s = Inr 0"
proof -
  from post_request_spec [OF init_rep [of 2 10 10 blank_request], where junk = blank_request and
      moribund = "\<lambda>_ _. False" and source = 3 and tag = 7 and cid = 4 and comm = 1 and buf = 5 and cnt = 1 and dt = 0 and fg = 0]
  obtain s where s: "rq_rep s ((\<lambda>_. [])(Posted 0 := [1]))" "keeps (rq_init 2 10 10 blank_request) s"
    "r_match (req s 1) = \<lparr>m_tag = 7, m_rank = 3, m_context_id = 4, m_dest_rank = 10\<rparr>"
    by (auto simp: init_index)
  have "nfg s = 2" "GET_MATCH_QUEUE_INDEX 10 s = Inr 0"
    using s(2) init_index(1) [of blank_request] index_cong [of s "rq_init 2 10 10 blank_request" 10]
    by (simp_all add: keeps_def) (simp add: rq_init_def)
  moreover from this have "indices s = [0, 1]" by (simp add: indices_def upt_rec)
  ultimately show ?thesis using s(1,3) by blast
qed

subsection \<open>Either order\<close>

text \<open>
  C23. The order of a receive and a message does not matter: on empty queues, posting the receive and
  then delivering the message matches them exactly when delivering the message and then posting the
  receive does, namely when the receive accepts the message.
\<close>

theorem match_order_irrelevant:
  assumes "rq_rep s Q" "GET_MATCH_QUEUE_INDEX (my_fgrank s) s = Inr fg" "Q (Posted fg) = []" "Q (Unexpected fg) = []"
    "tag_ok m" "m_dest_rank m = my_fgrank s" "source = MPI_ANY_SOURCE \<or> \<not> moribund comm source"
  shows "(\<exists>r s1 r' s2. MPIDI_CH3U_Recvq_FDU_or_AEP junk moribund source tag cid comm buf cnt dt s = Inr (False, r, s1) \<and>
      MPIDI_CH3U_Recvq_FDP_or_AEU junk' (\<lambda>_. False) (\<lambda>_ _. True) zbuf m s1 =
        Inr (accepts source tag cid (my_fgrank s) m, r', m, s2)) \<and>
    (\<exists>r s1 r' s2. MPIDI_CH3U_Recvq_FDP_or_AEU junk' (\<lambda>_. False) (\<lambda>_ _. True) zbuf m s = Inr (False, r, m, s1) \<and>
      MPIDI_CH3U_Recvq_FDU_or_AEP junk moribund source tag cid comm buf cnt dt s1 =
        Inr (accepts source tag cid (my_fgrank s) m, r', s2))"
proof
  let ?r = "next_req s"
  have no: "take_first (\<lambda>r. accepts source tag cid (my_fgrank s) (r_match (req s r))) (Q (Unexpected fg)) = None"
    using assms(4) by simp
  obtain s1 where s1: "post_request junk moribund source tag cid comm buf cnt dt fg s = (?r, s1)" "keeps s s1"
    "r_match (req s1 ?r) = \<lparr>m_tag = tag, m_rank = source, m_context_id = ucast cid, m_dest_rank = my_fgrank s\<rparr>"
    "r_mask (req s1 ?r) = \<lparr>m_tag = (if tag = MPI_ANY_TAG then 0 else NOT 0),
       m_rank = (if source = MPI_ANY_SOURCE then 0 else NOT 0), m_context_id = NOT 0, m_dest_rank = NOT 0\<rparr>"
    "rq_rep s1 (Q(Posted fg := [?r]))"
    using post_request_spec [OF assms(1), of junk moribund source tag cid comm buf cnt dt fg] assms(3,7) by auto
  have a: "posted_accepts (req s1 ?r) m = accepts source tag cid (my_fgrank s) m"
    by (rule fresh_posted_accepts [OF assms(5) s1(3,4)])
  have i: "GET_MATCH_QUEUE_INDEX (m_dest_rank m) s1 = Inr fg"
    using assms(2,6) s1(2) index_cong [of s1 s] by (simp add: keeps_def)
  have "\<exists>r' s2. MPIDI_CH3U_Recvq_FDP_or_AEU junk' (\<lambda>_. False) (\<lambda>_ _. True) zbuf m s1 =
      Inr (accepts source tag cid (my_fgrank s) m, r', m, s2)"
  proof (cases "accepts source tag cid (my_fgrank s) m")
    case True
    then have "fdp_spec (\<lambda>r. posted_accepts (req s1 r) m) (\<lambda>_. False) ((Q(Posted fg := [?r])) (Posted fg)) = (Some ?r, [])"
      using a by simp
    from message_found [OF s1(5) i this, of "\<lambda>_ _. True" junk' zbuf] show ?thesis using True by auto
  next
    case False
    then have "fdp_spec (\<lambda>r. posted_accepts (req s1 r) m) (\<lambda>_. False) ((Q(Posted fg := [?r])) (Posted fg)) = (None, [?r])"
      using a by simp
    from message_not_found [OF s1(5) i this, of junk' "\<lambda>_ _. True" zbuf] show ?thesis using False by auto
  qed
  then show "\<exists>r s1 r' s2. MPIDI_CH3U_Recvq_FDU_or_AEP junk moribund source tag cid comm buf cnt dt s = Inr (False, r, s1) \<and>
      MPIDI_CH3U_Recvq_FDP_or_AEU junk' (\<lambda>_. False) (\<lambda>_ _. True) zbuf m s1 =
        Inr (accepts source tag cid (my_fgrank s) m, r', m, s2)"
    using recv_not_found [OF assms(1,2) no, of junk moribund comm buf cnt dt] s1(1) by auto
next
  let ?r = "next_req s"
  have "fdp_spec (\<lambda>r. posted_accepts (req s r) m) (\<lambda>_. False) (Q (Posted fg)) = (None, [])" using assms(3) by simp
  from message_not_found [OF assms(1) _ this, of junk' "\<lambda>_ _. True" zbuf] assms(2,4,6)
  obtain s1 where s1: "MPIDI_CH3U_Recvq_FDP_or_AEU junk' (\<lambda>_. False) (\<lambda>_ _. True) zbuf m s = Inr (False, ?r, m, s1)"
    "keeps s s1" "rq_rep s1 (Q(Posted fg := [], Unexpected fg := [?r]))" "r_match (req s1 ?r) = m" by auto
  have i: "GET_MATCH_QUEUE_INDEX (my_fgrank s1) s1 = Inr fg" "my_fgrank s1 = my_fgrank s"
    using assms(2) s1(2) index_cong [of s1 s] by (simp_all add: keeps_def)
  have "\<exists>r' s2. MPIDI_CH3U_Recvq_FDU_or_AEP junk moribund source tag cid comm buf cnt dt s1 =
      Inr (accepts source tag cid (my_fgrank s) m, r', s2)"
  proof (cases "accepts source tag cid (my_fgrank s) m")
    case True
    then have "take_first (\<lambda>r. accepts source tag cid (my_fgrank s1) (r_match (req s1 r)))
        ((Q(Posted fg := [], Unexpected fg := [?r])) (Unexpected fg)) = Some (?r, [])" using s1(4) i(2) by simp
    from recv_found [OF s1(3) i(1) this, of junk moribund comm buf cnt dt] show ?thesis using True by auto
  next
    case False
    then have n: "take_first (\<lambda>r. accepts source tag cid (my_fgrank s1) (r_match (req s1 r)))
        ((Q(Posted fg := [], Unexpected fg := [?r])) (Unexpected fg)) = None" using s1(4) i(2) by simp
    show ?thesis using recv_not_found [OF s1(3) i(1) n, of junk moribund comm buf cnt dt] False
      by (auto simp: case_prod_beta Let_def)
  qed
  then show "\<exists>r s1 r' s2. MPIDI_CH3U_Recvq_FDP_or_AEU junk' (\<lambda>_. False) (\<lambda>_ _. True) zbuf m s = Inr (False, r, m, s1) \<and>
      MPIDI_CH3U_Recvq_FDU_or_AEP junk moribund source tag cid comm buf cnt dt s1 =
        Inr (accepts source tag cid (my_fgrank s) m, r', s2)"
    using s1(1) by blast
qed

theorem match_order_irrelevant_witness:
  "\<exists>r s1 r' s2. MPIDI_CH3U_Recvq_FDU_or_AEP blank_request (\<lambda>_ _. False) MPI_ANY_SOURCE 7 4 1 5 1 0 (rq_init 2 10 10 blank_request) =
       Inr (False, r, s1) \<and>
     MPIDI_CH3U_Recvq_FDP_or_AEU blank_request (\<lambda>_. False) (\<lambda>_ _. True) 0
       \<lparr>m_tag = 7, m_rank = 3, m_context_id = 4, m_dest_rank = 10\<rparr> s1 =
     Inr (True, r', \<lparr>m_tag = 7, m_rank = 3, m_context_id = 4, m_dest_rank = 10\<rparr>, s2)"
proof -
  let ?m = "\<lparr>m_tag = 7, m_rank = 3, m_context_id = 4, m_dest_rank = 10\<rparr> :: match_parts"
  have a: "accepts MPI_ANY_SOURCE 7 4 10 ?m" "tag_ok ?m"
    by (simp_all add: accepts_def tag_ok_def MPIR_TAG_CLEAR_ERROR_BITS_def MPIR_TAG_ERROR_BIT_def
        MPIR_TAG_PROC_FAILURE_BIT_def MPIR_TAG_CHECK_PROC_FAILURE_BIT_def)
  then show ?thesis
    using match_order_irrelevant [OF init_rep [of 2 10 10 blank_request], where fg = 0 and m = ?m and source = MPI_ANY_SOURCE and
        moribund = "\<lambda>_ _. False" and comm = 1 and junk = blank_request and tag = 7 and cid = 4 and buf = 5 and cnt = 1 and
        dt = 0 and junk' = blank_request and zbuf = 0]
    by (simp add: init_index)
qed

subsection \<open>Cancelling and failing\<close>

lemma find_last:
  assumes "links nx (as @ cs) NULL" "NULL \<notin> set (as @ cs)"
  shows "case take_last P cs of
      None \<Rightarrow> q_find_last P nx (last (NULL # as)) (hd (cs @ [NULL])) best = Some best
    | Some (x, ys) \<Rightarrow> \<exists>bs ds. cs = bs @ x # ds \<and> ys = bs @ ds \<and>
        q_find_last P nx (last (NULL # as)) (hd (cs @ [NULL])) best = Some (last (NULL # as @ bs), x)"
  using assms
proof (induction cs arbitrary: as best)
  case Nil
  then show ?case by (simp add: q_find_last.simps)
next
  case (Cons x cs)
  have x: "x \<noteq> NULL" "nx x = hd (cs @ [NULL])" using Cons.prems by (auto simp: links_append links_Cons)
  have step: "q_find_last P nx (last (NULL # as)) (hd ((x # cs) @ [NULL])) best =
      q_find_last P nx (last (NULL # as @ [x])) (hd (cs @ [NULL])) (if P x then (last (NULL # as), x) else best)"
    using x by (subst q_find_last.simps) simp
  have "links nx ((as @ [x]) @ cs) NULL" "NULL \<notin> set ((as @ [x]) @ cs)" using Cons.prems by simp_all
  note IH = Cons.IH [OF this, of "if P x then (last (NULL # as), x) else best"]
  show ?case
  proof (cases "take_last P cs")
    case None
    then show ?thesis unfolding step using IH by (cases "P x") (auto intro: exI [of _ "[]"] simp del: last.simps)
  next
    case (Some z)
    obtain y ys where z: "z = (y, ys)" by (cases z)
    obtain bs ds where "cs = bs @ y # ds" "ys = bs @ ds"
      "q_find_last P nx (last (NULL # as @ [x])) (hd (cs @ [NULL])) (if P x then (last (NULL # as), x) else best) =
        Some (last (NULL # (as @ [x]) @ bs), y)" using IH Some z by (auto simp del: last.simps)
    then have r: "x # cs = (x # bs) @ y # ds \<and> x # ys = (x # bs) @ ds \<and>
        q_find_last P nx (last (NULL # as)) (hd ((x # cs) @ [NULL])) best = Some (last (NULL # as @ (x # bs)), y)"
      unfolding step by simp
    have t: "take_last P (x # cs) = Some (y, x # ys)" using Some z by simp
    show ?thesis unfolding t option.case prod.case by (rule exI [of _ "x # bs"], rule exI [of _ ds], rule r)
  qed
qed

text \<open>Removing with an error is the same change of the pointers as removing.\<close>

lemma dequeue_unlink:
  assumes rep: "rq_rep s Q" and q: "Q q = as @ x # bs"
  shows "\<exists>s'. dequeue_and_set_error x (last (NULL # as)) q e s = (hd (bs @ [NULL]), s') \<and> rq_rep s' (Q(q := as @ bs)) \<and>
    keeps s s' \<and> next_req s' = next_req s \<and> (\<forall>a. a \<noteq> x \<longrightarrow> req s' a = req s a) \<and>
    req s' x = (req s x)\<lparr>status_ERROR := e, completed := True\<rparr> \<and>
    notified s' = notified s @ [m_dest_rank (r_match (req s x))] \<and>
    posted_recvq_length s' = posted_recvq_length s - (if as = [] then 1 else 0)"
proof -
  note d = repD(1-5) [OF rep, of q]
  have dist: "distinct (as @ x # bs)" "NULL \<notin> set (as @ x # bs)" using d(2,3) q by auto
  have nx: "r_next s x = hd (bs @ [NULL])" using d(1) unfolding q by (simp add: links_append links_Cons)
  have h: "q_head q s = x \<longleftrightarrow> as = []" using d(4) dist unfolding q by (cases as) auto
  have t: "q_tail q s = x \<longleftrightarrow> bs = []"
    using d(5) dist unfolding q by (cases bs rule: rev_cases) auto
  have nn: "hd (bs @ [NULL]) = NULL \<longleftrightarrow> bs = []" using dist(2) by (cases bs) auto
  have pn: "last (NULL # as) = NULL \<longleftrightarrow> as = []" using dist(2) by (cases as rule: rev_cases) auto
  let ?u = "unlink q (last (NULL # as)) x s" and ?s = "snd (dequeue_and_set_error x (last (NULL # as)) q e s)"
  have f: "r_next ?s = r_next ?u \<and> ends ?s = ends ?u \<and> next_req ?s = next_req s"
    using h t nn pn nx unfolding dequeue_and_set_error_def unlink_def Let_def
    by (cases "as = []"; cases "bs = []") (simp_all add: q_head_def q_tail_def del: last.simps)
  have "rq_rep ?s (Q(q := as @ bs))"
    by (rule rep_cong [OF unlink_rep [OF rep q]]) (use f in simp_all)
  moreover have "keeps s ?s" unfolding keeps_def dequeue_and_set_error_def Let_def by simp
  ultimately show ?thesis using f nx h
    by (intro exI [of _ ?s]) (auto simp: dequeue_and_set_error_def Let_def prod_eq_iff)
qed

text \<open>A walk removes exactly the requests \<open>P\<close> holds of and completes them with the error.\<close>

lemma clean_loop_rep:
  assumes "rq_rep s Q" "Q q = as @ cs"
  shows "\<exists>s'. clean_loop P q e (last (NULL # as)) (hd (cs @ [NULL])) s = Some s' \<and>
    rq_rep s' (Q(q := as @ filter (\<lambda>r. \<not> P (req s r)) cs)) \<and> keeps s s' \<and> next_req s' = next_req s \<and>
    (\<forall>a. req s' a = (if a \<in> set cs \<and> P (req s a) then (req s a)\<lparr>status_ERROR := e, completed := True\<rparr> else req s a)) \<and>
    notified s' = notified s @ map (\<lambda>r. m_dest_rank (r_match (req s r))) (filter (\<lambda>r. P (req s r)) cs)"
  using assms
proof (induction cs arbitrary: as s Q)
  case Nil
  then show ?case by (auto simp: clean_loop.simps keeps_def fun_upd_idem)
next
  case (Cons x cs)
  note d = repD(1-3) [OF Cons.prems(1), of q]
  have x: "x \<noteq> NULL" "r_next s x = hd (cs @ [NULL])" "x \<notin> set cs"
    using d unfolding Cons.prems(2) by (auto simp: links_append links_Cons)
  show ?case
  proof (cases "P (req s x)")
    case False
    have "Q q = (as @ [x]) @ cs" using Cons.prems(2) by simp
    from Cons.IH [OF Cons.prems(1) this] obtain s' where s':
      "clean_loop P q e (last (NULL # as @ [x])) (hd (cs @ [NULL])) s = Some s'"
      "rq_rep s' (Q(q := (as @ [x]) @ filter (\<lambda>r. \<not> P (req s r)) cs))" "keeps s s'" "next_req s' = next_req s"
      "\<forall>a. req s' a = (if a \<in> set cs \<and> P (req s a) then (req s a)\<lparr>status_ERROR := e, completed := True\<rparr> else req s a)"
      "notified s' = notified s @ map (\<lambda>r. m_dest_rank (r_match (req s r))) (filter (\<lambda>r. P (req s r)) cs)"
      by (auto simp del: fun_upd_apply)
    have "clean_loop P q e (last (NULL # as)) (hd ((x # cs) @ [NULL])) s = Some s'"
      using False x s'(1) by (subst clean_loop.simps) simp
    then show ?thesis using s'(2-6) False by (intro exI [of _ s']) (auto simp del: fun_upd_apply)
  next
    case True
    obtain s1 where s1: "dequeue_and_set_error x (last (NULL # as)) q e s = (hd (cs @ [NULL]), s1)"
      "rq_rep s1 (Q(q := as @ cs))" "keeps s s1" "next_req s1 = next_req s" "\<And>a. a \<noteq> x \<Longrightarrow> req s1 a = req s a"
      "req s1 x = (req s x)\<lparr>status_ERROR := e, completed := True\<rparr>"
      "notified s1 = notified s @ [m_dest_rank (r_match (req s x))]"
      using dequeue_unlink [OF Cons.prems, of e] by blast
    have same: "req s1 a = req s a" if "a \<in> set cs" for a using that s1(5) x(3) by metis
    have fl: "filter (\<lambda>r. \<not> P (req s1 r)) cs = filter (\<lambda>r. \<not> P (req s r)) cs"
      "filter (\<lambda>r. P (req s1 r)) cs = filter (\<lambda>r. P (req s r)) cs"
      "map (\<lambda>r. m_dest_rank (r_match (req s1 r))) (filter (\<lambda>r. P (req s r)) cs) = map (\<lambda>r. m_dest_rank (r_match (req s r))) (filter (\<lambda>r. P (req s r)) cs)"
      using same by (auto intro!: filter_cong)
    have "(Q(q := as @ cs)) q = as @ cs" by simp
    from Cons.IH [OF s1(2) this] obtain s' where s':
      "clean_loop P q e (last (NULL # as)) (hd (cs @ [NULL])) s1 = Some s'"
      "rq_rep s' (Q(q := as @ filter (\<lambda>r. \<not> P (req s r)) cs))" "keeps s1 s'" "next_req s' = next_req s1"
      "\<forall>a. req s' a = (if a \<in> set cs \<and> P (req s1 a) then (req s1 a)\<lparr>status_ERROR := e, completed := True\<rparr> else req s1 a)"
      "notified s' = notified s1 @ map (\<lambda>r. m_dest_rank (r_match (req s r))) (filter (\<lambda>r. P (req s r)) cs)"
      unfolding fl fun_upd_upd by (auto simp del: fun_upd_apply)
    have c: "clean_loop P q e (last (NULL # as)) (hd ((x # cs) @ [NULL])) s = Some s'"
      using True x(1) s1(1) s'(1) by (subst clean_loop.simps) (simp add: Let_def)
    have "req s' a = (if a \<in> set (x # cs) \<and> P (req s a) then (req s a)\<lparr>status_ERROR := e, completed := True\<rparr> else req s a)" for a
      using s'(5) s1(5) [of a] s1(6) x(3) True by (cases "a = x") auto
    moreover have "keeps s s'" using s1(3,4) s'(3) by (simp add: keeps_def)
    ultimately show ?thesis using c s'(2,4,6) s1(4,7) True
      by (intro exI [of _ s']) (simp del: fun_upd_apply)
  qed
qed

text \<open>A walk over the queues of all processes.\<close>

lemma clean_all_rep:
  assumes "rq_rep s Q" "distinct is" "inj queue"
  shows "\<exists>s'. clean_all P queue e is s = Inr s' \<and> keeps s s' \<and> next_req s' = next_req s \<and>
    rq_rep s' (\<lambda>q. if q \<in> queue ` set is then filter (\<lambda>r. \<not> P (req s r)) (Q q) else Q q) \<and>
    (\<forall>a. req s' a = (if (\<exists>i \<in> set is. a \<in> set (Q (queue i))) \<and> P (req s a)
      then (req s a)\<lparr>status_ERROR := e, completed := True\<rparr> else req s a))"
  using assms(1,2)
proof (induction "is" arbitrary: s Q)
  case Nil
  then show ?case by (simp add: keeps_def)
next
  case (Cons i "is")
  let ?Q1 = "Q(queue i := filter (\<lambda>r. \<not> P (req s r)) (Q (queue i)))"
  from clean_loop_rep [OF Cons.prems(1), of "queue i" "[]" "Q (queue i)" P e] obtain s1 where s1:
    "clean_loop P (queue i) e NULL (q_head (queue i) s) s = Some s1" "rq_rep s1 ?Q1" "keeps s s1" "next_req s1 = next_req s"
    "\<And>a. req s1 a = (if a \<in> set (Q (queue i)) \<and> P (req s a) then (req s a)\<lparr>status_ERROR := e, completed := True\<rparr> else req s a)"
    by (auto simp: repD(4) [OF Cons.prems(1)] simp del: fun_upd_apply)
  have "distinct is" "i \<notin> set is" using Cons.prems(2) by simp_all
  from Cons.IH [OF s1(2) this(1)] obtain s' where s': "clean_all P queue e is s1 = Inr s'" "keeps s1 s'" "next_req s' = next_req s1"
    "rq_rep s' (\<lambda>q. if q \<in> queue ` set is then filter (\<lambda>r. \<not> P (req s1 r)) (?Q1 q) else ?Q1 q)"
    "\<And>a. req s' a = (if (\<exists>i \<in> set is. a \<in> set (?Q1 (queue i))) \<and> P (req s1 a)
      then (req s1 a)\<lparr>status_ERROR := e, completed := True\<rparr> else req s1 a)" by blast
  have ne: "queue k \<noteq> queue i" if "k \<in> set is" for k using that \<open>i \<notin> set is\<close> injD [OF assms(3)] by blast
  have out: "req s1 a = req s a" if "a \<in> set (Q (queue k))" "k \<in> set is" for a k
    using that s1(5) [of a] repD(6) [OF Cons.prems(1) ne [OF that(2)]] by auto
  have E: "(\<lambda>q. if q \<in> queue ` set is then filter (\<lambda>r. \<not> P (req s1 r)) (?Q1 q) else ?Q1 q) =
      (\<lambda>q. if q \<in> queue ` set (i # is) then filter (\<lambda>r. \<not> P (req s r)) (Q q) else Q q)"
  proof
    fix q show "(if q \<in> queue ` set is then filter (\<lambda>r. \<not> P (req s1 r)) (?Q1 q) else ?Q1 q) =
      (if q \<in> queue ` set (i # is) then filter (\<lambda>r. \<not> P (req s r)) (Q q) else Q q)"
    proof (cases "q \<in> queue ` set is")
      case True
      then obtain k where k: "q = queue k" "k \<in> set is" by blast
      have "filter (\<lambda>r. \<not> P (req s1 r)) (Q q) = filter (\<lambda>r. \<not> P (req s r)) (Q q)"
        using out k by (intro filter_cong) auto
      then show ?thesis using True ne [OF k(2)] k(1) by simp
    qed auto
  qed
  have R: "req s' a = (if (\<exists>k \<in> set (i # is). a \<in> set (Q (queue k))) \<and> P (req s a)
      then (req s a)\<lparr>status_ERROR := e, completed := True\<rparr> else req s a)" for a
  proof (cases "\<exists>k \<in> set is. a \<in> set (Q (queue k))")
    case True
    then obtain k where k: "k \<in> set is" "a \<in> set (Q (queue k))" by blast
    have "a \<in> set (?Q1 (queue k))" using ne [OF k(1)] k(2) by simp
    then have 1: "(\<exists>j \<in> set is. a \<in> set (?Q1 (queue j))) = True" using k(1) by blast
    have 2: "(\<exists>j \<in> set (i # is). a \<in> set (Q (queue j))) = True" using k by auto
    show ?thesis unfolding s'(5) [of a] out [OF k(2,1)] 1 2 ..
  next
    case False
    then have 1: "(\<exists>j \<in> set is. a \<in> set (?Q1 (queue j))) = False" using ne by auto
    have 2: "(\<exists>j \<in> set (i # is). a \<in> set (Q (queue j))) = (a \<in> set (Q (queue i)))" using False by auto
    show ?thesis unfolding s'(5) [of a] s1(5) [of a] 1 2 by simp
  qed
  have "keeps s s'" using s1(3,4) s'(2) by (simp add: keeps_def)
  moreover have "clean_all P queue e (i # is) s = Inr s'" "next_req s' = next_req s" using s1(1,4) s'(1,3) by simp_all
  ultimately show ?case using s'(4) [unfolded E] R by blast
qed

text \<open>
  C24. When the connection to a process fails, exactly the posted receives from it, in the queues of
  all processes here, leave the queues and are completed with the error; receives from any source and
  from others stay, in order.
\<close>

theorem failed_connection_completes_receives:
  assumes "rq_rep s Q"
  shows "\<exists>s'. MPIDI_CH3U_Complete_posted_with_error vc_of vc s = Inr s' \<and>
    (let dead = (\<lambda>r. m_rank (r_match (req s r)) \<noteq> MPI_ANY_SOURCE \<and> vc_of (r_comm (req s r)) (m_rank (r_match (req s r))) = vc) in
     rq_rep s' (\<lambda>q. if q \<in> Posted ` set (indices s) then filter (\<lambda>r. \<not> dead r) (Q q) else Q q) \<and>
     (\<forall>i \<in> set (indices s). \<forall>r \<in> set (Q (Posted i)). if dead r then status_ERROR (req s' r) = MPIX_ERR_PROC_FAILED \<and> completed (req s' r)
        else req s' r = req s r))"
proof -
  have "distinct (indices s)" "inj Posted" by (simp_all add: indices_def inj_def)
  from clean_all_rep [OF assms this, of "\<lambda>x. m_rank (r_match x) \<noteq> MPI_ANY_SOURCE \<and> req_uses_vc vc_of x vc" MPIX_ERR_PROC_FAILED]
  obtain s' where s': "MPIDI_CH3U_Complete_posted_with_error vc_of vc s = Inr s'"
    "rq_rep s' (\<lambda>q. if q \<in> Posted ` set (indices s) then filter (\<lambda>r. \<not> (m_rank (r_match (req s r)) \<noteq> MPI_ANY_SOURCE \<and> req_uses_vc vc_of (req s r) vc)) (Q q) else Q q)"
    "\<And>a. req s' a = (if (\<exists>i \<in> set (indices s). a \<in> set (Q (Posted i))) \<and> (m_rank (r_match (req s a)) \<noteq> MPI_ANY_SOURCE \<and> req_uses_vc vc_of (req s a) vc)
      then (req s a)\<lparr>status_ERROR := MPIX_ERR_PROC_FAILED, completed := True\<rparr> else req s a)"
    unfolding MPIDI_CH3U_Complete_posted_with_error_def by blast
  have v: "req_uses_vc vc_of x vc = (vc_of (r_comm x) (m_rank (r_match x)) = vc)" for x by (auto simp: req_uses_vc_def)
  show ?thesis using s' unfolding v Let_def by (intro exI [of _ s']) auto
qed

theorem failed_connection_completes_receives_witness:
  "\<exists>s s'. rq_rep s ((\<lambda>_. [])(Posted 0 := [1])) \<and> MPIDI_CH3U_Complete_posted_with_error (\<lambda>_ _. 6) 6 s = Inr s' \<and> completed (req s' 1)"
proof -
  obtain s where s: "rq_rep s ((\<lambda>_. [])(Posted 0 := [1]))" "indices s = [0, 1]"
    "r_match (req s 1) = \<lparr>m_tag = 7, m_rank = 3, m_context_id = 4, m_dest_rank = 10\<rparr>" using one_posted by blast
  show ?thesis using failed_connection_completes_receives [OF s(1), where vc_of = "\<lambda>_ _. 6" and vc = 6] s
    by (auto simp: MPI_ANY_SOURCE_def Let_def)
qed

text \<open>
  C25. Revoking a communicator removes from all queues exactly the requests of its contexts, of
  point-to-point and collective communication and of its node subcommunicators; requests of other
  communicators stay in order, as do collective ones of the agreement and shrink protocols.
\<close>

lemma cleans_iff:
  "cleans junk c x \<longleftrightarrow> m_context_id (r_match x) = recvcontext_id c \<or>
     m_context_id (r_match x) \<in> comm_contexts c \<and> \<not> protocol_tag (r_match x)"
proof -
  have m: "MATCH_WITH_LEFT_RIGHT_MASK (r_match x) (junk\<lparr>m_context_id := k\<rparr>)
      \<lparr>m_tag = MPIR_TAG_CLEAR_ERROR_BITS 0, m_rank = 0, m_context_id = NOT 0, m_dest_rank = 0\<rparr> \<longleftrightarrow> m_context_id (r_match x) = k" for k
    by (simp add: MATCH_WITH_LEFT_RIGHT_MASK_def MPIR_TAG_CLEAR_ERROR_BITS_def)
  have t: "MPIR_TAG_MASK_ERROR_BITS t = MPIR_TAG_CLEAR_ERROR_BITS t" for t
    by (simp add: MPIR_TAG_MASK_ERROR_BITS_def MPIR_TAG_CLEAR_ERROR_BITS_def)
  show ?thesis
    unfolding cleans_def Let_def m t comm_contexts_def protocol_tag_def
    by (auto simp: MPID_CONTEXT_INTRA_PT2PT_def MPID_CONTEXT_INTRA_COLL_def MPID_CONTEXT_INTER_PT2PT_def
        MPID_CONTEXT_INTER_COLL_def MPID_CONTEXT_INTRANODE_OFFSET_def MPID_CONTEXT_INTERNODE_OFFSET_def add.assoc)
qed

theorem revoke_cleans_communicator:
  assumes "rq_rep s Q"
  shows "\<exists>s'. MPIDI_CH3U_Clean_recvq junk c s = Inr s' \<and>
    (let gone = (\<lambda>r. m_context_id (r_match (req s r)) = recvcontext_id c \<or>
           m_context_id (r_match (req s r)) \<in> comm_contexts c \<and> \<not> protocol_tag (r_match (req s r))) in
     rq_rep s' (\<lambda>q. if q \<in> (Posted ` set (indices s)) \<union> (Unexpected ` set (indices s)) then filter (\<lambda>r. \<not> gone r) (Q q) else Q q) \<and>
     (\<forall>i \<in> set (indices s). \<forall>r \<in> set (Q (Posted i)) \<union> set (Q (Unexpected i)). gone r \<longrightarrow>
        status_ERROR (req s' r) = MPIX_ERR_REVOKED \<and> completed (req s' r)))"
proof -
  let ?P = "cleans junk c"
  have d: "distinct (indices s)" "inj Posted" "inj Unexpected" by (simp_all add: indices_def inj_def)
  let ?Q1 = "\<lambda>q. if q \<in> Unexpected ` set (indices s) then filter (\<lambda>r. \<not> ?P (req s r)) (Q q) else Q q"
  obtain s1 where s1: "clean_all ?P Unexpected MPIX_ERR_REVOKED (indices s) s = Inr s1" "rq_rep s1 ?Q1"
    "\<And>a. req s1 a = (if (\<exists>i \<in> set (indices s). a \<in> set (Q (Unexpected i))) \<and> ?P (req s a)
      then (req s a)\<lparr>status_ERROR := MPIX_ERR_REVOKED, completed := True\<rparr> else req s a)"
    using clean_all_rep [OF assms d(1,3), of ?P MPIX_ERR_REVOKED] by blast
  let ?Q2 = "\<lambda>q. if q \<in> Posted ` set (indices s) then filter (\<lambda>r. \<not> ?P (req s1 r)) (?Q1 q) else ?Q1 q"
  obtain s2 where s2: "clean_all ?P Posted MPIX_ERR_REVOKED (indices s) s1 = Inr s2" "rq_rep s2 ?Q2"
    "\<And>a. req s2 a = (if (\<exists>i \<in> set (indices s). a \<in> set (?Q1 (Posted i))) \<and> ?P (req s1 a)
      then (req s1 a)\<lparr>status_ERROR := MPIX_ERR_REVOKED, completed := True\<rparr> else req s1 a)"
    using clean_all_rep [OF s1(2) d(1,2), of ?P MPIX_ERR_REVOKED] by blast
  have c: "cleans junk c (x\<lparr>status_ERROR := e, completed := b\<rparr>) = cleans junk c x" for x e b by (simp add: cleans_iff)
  have p: "?P (req s1 a) = ?P (req s a)" for a unfolding s1(3) [of a] by (simp add: c)
  have e: "?Q2 = (\<lambda>q. if q \<in> (Posted ` set (indices s)) \<union> (Unexpected ` set (indices s)) then filter (\<lambda>r. \<not> ?P (req s r)) (Q q) else Q q)"
    unfolding p by (rule ext) auto
  have "status_ERROR (req s2 r) = MPIX_ERR_REVOKED \<and> completed (req s2 r)"
    if i: "i \<in> set (indices s)" and r: "r \<in> set (Q (Posted i)) \<union> set (Q (Unexpected i))" and g: "?P (req s r)" for i r
  proof (cases "r \<in> set (Q (Unexpected i))")
    case True
    then have "status_ERROR (req s1 r) = MPIX_ERR_REVOKED \<and> completed (req s1 r)" using s1(3) [of r] i g by auto
    then show ?thesis using s2(3) [of r] by auto
  next
    case False
    then have "r \<in> set (?Q1 (Posted i))" using r by auto
    then have "\<exists>j \<in> set (indices s). r \<in> set (?Q1 (Posted j))" using i by blast
    then show ?thesis unfolding s2(3) [of r] using g p [of r] by simp
  qed
  moreover have "MPIDI_CH3U_Clean_recvq junk c s = Inr s2" using s1(1) s2(1) by (simp add: MPIDI_CH3U_Clean_recvq_def)
  moreover have "rq_rep s2 (\<lambda>q. if q \<in> (Posted ` set (indices s)) \<union> (Unexpected ` set (indices s)) then filter (\<lambda>r. \<not> ?P (req s r)) (Q q) else Q q)"
    using s2(2) unfolding e .
  ultimately show ?thesis unfolding cleans_iff Let_def by blast
qed

theorem revoke_cleans_communicator_witness:
  "\<exists>s s'. rq_rep s ((\<lambda>_. [])(Posted 0 := [1])) \<and>
     MPIDI_CH3U_Clean_recvq (r_match blank_request) \<lparr>recvcontext_id = 4, intracomm = True, node_aware = False\<rparr> s = Inr s' \<and> completed (req s' 1)"
proof -
  obtain s where s: "rq_rep s ((\<lambda>_. [])(Posted 0 := [1]))" "indices s = [0, 1]"
    "r_match (req s 1) = \<lparr>m_tag = 7, m_rank = 3, m_context_id = 4, m_dest_rank = 10\<rparr>" using one_posted by blast
  show ?thesis
    using revoke_cleans_communicator [OF s(1), where junk = "r_match blank_request" and
        c = "\<lparr>recvcontext_id = 4, intracomm = True, node_aware = False\<rparr>"] s
    by (auto simp: Let_def)
qed

lemma cancel_recv:
  assumes "rq_rep s Q" and i: "GET_MATCH_QUEUE_INDEX (m_dest_rank (r_match (req s r))) s = Inr fg"
  shows "\<exists>s'. MPIDI_CH3U_Recvq_DP hook r s = Inr (r \<in> set (Q (Posted fg)) \<and> \<not> hook r, s') \<and>
    rq_rep s' (Q(Posted fg := remove1 r (Q (Posted fg)))) \<and> keeps s s'"
proof (cases "take_first (\<lambda>x. x = r) (Q (Posted fg))")
  case None
  then have n: "r \<notin> set (Q (Posted fg))" by (auto simp: take_first_None)
  have "MPIDI_CH3U_Recvq_DP hook r s = Inr (False, s)"
    using i find_unexpected [OF assms(1), of "\<lambda>x. x = r" "Posted fg"] None by (simp add: MPIDI_CH3U_Recvq_DP_def)
  then show ?thesis using n assms(1) by (simp add: remove1_idem keeps_def)
next
  case (Some z)
  obtain x ys where z: "take_first (\<lambda>x. x = r) (Q (Posted fg)) = Some (x, ys)" using Some by (cases z) auto
  obtain as bs where a: "Q (Posted fg) = as @ x # bs" "ys = as @ bs" "x = r" "\<forall>a \<in> set as. a \<noteq> r"
    using take_first_Some [OF z] by blast
  define u where "u = unlink (Posted fg) (last (NULL # takeWhile (\<lambda>a. a \<noteq> r) (Q (Posted fg)))) x s"
  note f = unlink_first [OF assms(1) z]
  have "rq_rep (u\<lparr>posted_recvq_length := n, notified := ns\<rparr>) (Q(Posted fg := ys))" for n ns
    by (rule rep_cong [OF f(3) [folded u_def]]) simp_all
  moreover have "ys = remove1 r (Q (Posted fg))" using a remove1_split [of r as bs] by auto
  moreover have "MPIDI_CH3U_Recvq_DP hook r s = Inr (\<not> hook r,
      u\<lparr>posted_recvq_length := posted_recvq_length u - 1, notified := notified u @ [m_dest_rank (r_match (req u r))]\<rparr>)"
    using i f(1,2) by (simp add: MPIDI_CH3U_Recvq_DP_def Let_def u_def del: last.simps)
  moreover have "keeps s (u\<lparr>posted_recvq_length := n, notified := ns\<rparr>)" for n ns by (simp add: keeps_def u_def)
  ultimately show ?thesis using a(1,3) by auto
qed

lemma cancel_send:
  assumes "rq_rep s Q" and i: "GET_MATCH_QUEUE_INDEX (m_dest_rank m) s = Inr fg"
  shows "case take_last (\<lambda>r. sender_req_id (req s r) = h \<and> r_match (req s r) = m\<lparr>m_tag := m_tag (r_match (req s r))\<rparr> \<and>
          MPIR_TAG_CLEAR_ERROR_BITS (m_tag (r_match (req s r))) = m_tag m) (Q (Unexpected fg)) of
        None \<Rightarrow> MPIDI_CH3U_Recvq_FDU h m s = Inr (NULL, s)
      | Some (x, us) \<Rightarrow> \<exists>s'. MPIDI_CH3U_Recvq_FDU h m s = Inr (x, s') \<and> rq_rep s' (Q(Unexpected fg := us)) \<and> keeps s s' \<and>
          set us \<subseteq> set (Q (Unexpected fg))"
proof -
  let ?P = "\<lambda>r. sender_req_id (req s r) = h \<and> r_match (req s r) = m\<lparr>m_tag := m_tag (r_match (req s r))\<rparr> \<and>
          MPIR_TAG_CLEAR_ERROR_BITS (m_tag (r_match (req s r))) = m_tag m"
  let ?msk = "\<lparr>m_tag = MPIR_TAG_CLEAR_ERROR_BITS (NOT 0), m_rank = NOT 0, m_context_id = NOT 0, m_dest_rank = NOT 0\<rparr>"
  have tag: "t AND MPIR_TAG_CLEAR_ERROR_BITS (NOT 0) = MPIR_TAG_CLEAR_ERROR_BITS t" for t
    by (rule bit_word_eqI) (auto simp: tag_clear_bit bit_and_iff)
  have p: "(sender_req_id (req s r) = h \<and> MATCH_WITH_LEFT_MASK (r_match (req s r)) m ?msk) = ?P r" for r
    by (cases "r_match (req s r)"; cases m) (auto simp: MATCH_WITH_LEFT_MASK_def tag [simplified])
  note fl = find_last [of "r_next s" "[]" "Q (Unexpected fg)" ?P "(NULL, NULL)", simplified append_Nil,
      OF repD(1,3) [OF assms(1)]]
  show "case take_last ?P (Q (Unexpected fg)) of
        None \<Rightarrow> MPIDI_CH3U_Recvq_FDU h m s = Inr (NULL, s)
      | Some (x, us) \<Rightarrow> \<exists>s'. MPIDI_CH3U_Recvq_FDU h m s = Inr (x, s') \<and> rq_rep s' (Q(Unexpected fg := us)) \<and> keeps s s' \<and>
          set us \<subseteq> set (Q (Unexpected fg))"
  proof (cases "take_last ?P (Q (Unexpected fg))")
    case None
    then show ?thesis using fl i unfolding MPIDI_CH3U_Recvq_FDU_def Let_def p repD(4) [OF assms(1)] by simp
  next
    case (Some z)
    obtain x us where z: "z = (x, us)" by (cases z)
    obtain bs ds where b: "Q (Unexpected fg) = bs @ x # ds" "us = bs @ ds"
      "q_find_last ?P (r_next s) NULL (hd (Q (Unexpected fg) @ [NULL])) (NULL, NULL) = Some (last (NULL # bs), x)"
      using fl Some z by auto
    define u where "u = unlink (Unexpected fg) (last (NULL # bs)) x s"
    have "rq_rep (u\<lparr>unexpected_recvq_length := n, unexpected_recvq_buffer_size := k\<rparr>) (Q(Unexpected fg := us))" for n k
      by (rule rep_cong [OF unlink_rep [OF assms(1) b(1), folded b(2) u_def]]) simp_all
    moreover have "x \<noteq> NULL" using repD(3) [OF assms(1), of "Unexpected fg"] b(1) by auto
    then have "MPIDI_CH3U_Recvq_FDU h m s = Inr (x, u\<lparr>unexpected_recvq_length := unexpected_recvq_length u - 1,
        unexpected_recvq_buffer_size := unexpected_recvq_buffer_size u - tmpbuf_sz (req u x)\<rparr>)"
      using b(3) i unfolding MPIDI_CH3U_Recvq_FDU_def Let_def p repD(4) [OF assms(1)] by (simp add: u_def del: last.simps)
    moreover have "keeps s (u\<lparr>unexpected_recvq_length := n, unexpected_recvq_buffer_size := k\<rparr>)" for n k
      by (simp add: keeps_def u_def)
    ultimately show ?thesis using Some z b(1,2) by auto
  qed
qed

text \<open>
  C26. Cancelling.  A receive is cancelled exactly when it is in the posted queue of its process and
  the channel has not matched it, and it is then the only request taken out.  Cancelling a send takes
  out the last unexpected message with its handle and match (handles are reused), if there is one.
\<close>

theorem cancel_takes_one_request:
  assumes "rq_rep s Q"
  shows "(GET_MATCH_QUEUE_INDEX (m_dest_rank (r_match (req s r))) s = Inr fg \<longrightarrow>
      (\<exists>s'. MPIDI_CH3U_Recvq_DP hook r s = Inr (r \<in> set (Q (Posted fg)) \<and> \<not> hook r, s') \<and>
        rq_rep s' (Q(Posted fg := remove1 r (Q (Posted fg)))))) \<and>
    (GET_MATCH_QUEUE_INDEX (m_dest_rank m) s = Inr fg \<longrightarrow>
      (case take_last (\<lambda>r. sender_req_id (req s r) = h \<and> r_match (req s r) = m\<lparr>m_tag := m_tag (r_match (req s r))\<rparr> \<and>
          MPIR_TAG_CLEAR_ERROR_BITS (m_tag (r_match (req s r))) = m_tag m) (Q (Unexpected fg)) of
        None \<Rightarrow> MPIDI_CH3U_Recvq_FDU h m s = Inr (NULL, s)
      | Some (x, us) \<Rightarrow> \<exists>s'. MPIDI_CH3U_Recvq_FDU h m s = Inr (x, s') \<and> rq_rep s' (Q(Unexpected fg := us))))"
  using cancel_recv [OF assms, of r fg hook] cancel_send [OF assms, of m fg h]
  by (auto split: option.splits)

theorem cancel_takes_one_request_witness:
  "\<exists>s s'. rq_rep s ((\<lambda>_. [])(Posted 0 := [1])) \<and> MPIDI_CH3U_Recvq_DP (\<lambda>_. False) 1 s = Inr (True, s') \<and>
     rq_rep s' ((\<lambda>_. [])(Posted 0 := []))"
proof -
  obtain s where s: "rq_rep s ((\<lambda>_. [])(Posted 0 := [1]))" "GET_MATCH_QUEUE_INDEX 10 s = Inr 0"
    "r_match (req s 1) = \<lparr>m_tag = 7, m_rank = 3, m_context_id = 4, m_dest_rank = 10\<rparr>" using one_posted by blast
  show ?thesis using cancel_takes_one_request [OF s(1), where r = 1 and fg = 0 and hook = "\<lambda>_. False"] s by auto
qed

subsection \<open>The invariant of the queues\<close>

lemma index_Inr: "GET_MATCH_QUEUE_INDEX r s = Inr fg \<Longrightarrow> fg = unat (r - fgstartrank s)"
  by (auto simp: GET_MATCH_QUEUE_INDEX_def Let_def bind_outcome_Inr_iff)

lemma inv_sub:
  assumes inv: "rq_inv s Q" and rep: "rq_rep s' Q'" and sub: "\<And>q. set (Q' q) \<subseteq> set (Q q)" and k: "keeps s s'"
  shows "rq_inv s' Q'"
proof -
  have rep0: "rq_rep s Q" using inv by (simp add: rq_inv_def)
  have same: "r_match (req s' a) = r_match (req s a)" "r_mask (req s' a) = r_mask (req s a)" if "a \<in> set (Q q)" for a q
    using that k repD(7) [OF rep0] by (auto simp: keeps_def)
  show ?thesis
    unfolding rq_inv_def
  proof (intro conjI allI ballI)
    fix fg u assume u: "u \<in> set (Q' (Unexpected fg))"
    then have u0: "u \<in> set (Q (Unexpected fg))" using sub by blast
    show "tag_ok (r_match (req s' u))" using inv u0 same [OF u0] by (simp add: rq_inv_def)
    fix p assume "p \<in> set (Q' (Posted fg))"
    then have p0: "p \<in> set (Q (Posted fg))" using sub by blast
    show "\<not> posted_accepts (req s' p) (r_match (req s' u))"
      using inv u0 p0 same [OF u0] same [OF p0] by (simp add: rq_inv_def posted_accepts_def)
  qed (rule rep)
qed

lemma inv_sub1:
  "rq_inv s Q \<Longrightarrow> rq_rep s' (Q(q := us)) \<Longrightarrow> keeps s s' \<Longrightarrow> set us \<subseteq> set (Q q) \<Longrightarrow> \<exists>Q'. rq_inv s' Q'"
  by (rule exI [of _ "Q(q := us)"], rule inv_sub) (auto split: if_splits)

lemma inv_init: "rq_inv (rq_init n start me junk) (\<lambda>_. [])"
  by (simp add: rq_inv_def rq_rep_def chain_def rq_init_def)

lemma receive_inv:
  assumes inv: "rq_inv s Q" and r: "MPIDI_CH3U_Recvq_FDU_or_AEP junk moribund source tag cid comm buf cnt dt s = Inr (b, r, s')"
  shows "\<exists>Q'. rq_inv s' Q'"
proof -
  have rep: "rq_rep s Q" using inv by (simp add: rq_inv_def)
  obtain fg where i: "GET_MATCH_QUEUE_INDEX (my_fgrank s) s = Inr fg"
    using r by (auto simp: MPIDI_CH3U_Recvq_FDU_or_AEP_def bind_outcome_Inr_iff)
  show ?thesis
  proof (cases "take_first (\<lambda>r. accepts source tag cid (my_fgrank s) (r_match (req s r))) (Q (Unexpected fg))")
    case (Some z)
    obtain x us where z: "take_first (\<lambda>r. accepts source tag cid (my_fgrank s) (r_match (req s r))) (Q (Unexpected fg)) = Some (x, us)"
      using Some by (cases z) auto
    have sub: "set us \<subseteq> set (Q (Unexpected fg))" using take_first_Some [OF z] by auto
    obtain s1 where s1: "s' = s1" "keeps s s1" "rq_rep s1 (Q(Unexpected fg := us))"
      using recv_found [OF rep i z, of junk moribund comm buf cnt dt] r by auto
    have "rq_inv s1 (Q(Unexpected fg := us))" by (rule inv_sub [OF inv s1(3) _ s1(2)]) (use sub in auto)
    then show ?thesis using s1(1) by auto
  next
    case None
    then have none: "\<forall>u \<in> set (Q (Unexpected fg)). \<not> accepts source tag cid (my_fgrank s) (r_match (req s u))" by (simp add: take_first_None)
    obtain s1 where s1: "post_request junk moribund source tag cid comm buf cnt dt fg s = (next_req s, s1)" "keeps s s1"
      "r_match (req s1 (next_req s)) = \<lparr>m_tag = tag, m_rank = source, m_context_id = ucast cid, m_dest_rank = my_fgrank s\<rparr>"
      "r_mask (req s1 (next_req s)) = \<lparr>m_tag = (if tag = MPI_ANY_TAG then 0 else NOT 0),
         m_rank = (if source = MPI_ANY_SOURCE then 0 else NOT 0), m_context_id = NOT 0, m_dest_rank = NOT 0\<rparr>"
      "if source \<noteq> MPI_ANY_SOURCE \<and> moribund comm source then rq_rep s1 Q
       else rq_rep s1 (Q(Posted fg := Q (Posted fg) @ [next_req s]))"
      using post_request_spec [OF rep, of junk moribund source tag cid comm buf cnt dt fg] by (auto split: if_splits)
    have e: "s' = s1" using recv_not_found [OF rep i None, of junk moribund comm buf cnt dt] r s1(1) by simp
    show ?thesis
    proof (cases "source \<noteq> MPI_ANY_SOURCE \<and> moribund comm source")
      case True
      then show ?thesis using inv_sub [OF inv, of s1 Q] s1(2,5) e by auto
    next
      case False
      let ?Q = "Q(Posted fg := Q (Posted fg) @ [next_req s])"
      have rep1: "rq_rep s1 ?Q" using s1(5) False by simp
      have same: "r_match (req s1 a) = r_match (req s a)" "r_mask (req s1 a) = r_mask (req s a)" if "a \<in> set (Q q)" for a q
        using that s1(2) repD(7) [OF rep] by (auto simp: keeps_def)
      have "rq_inv s1 ?Q"
        unfolding rq_inv_def
      proof (intro conjI allI ballI)
        fix k u assume "u \<in> set (?Q (Unexpected k))"
        then have u: "u \<in> set (Q (Unexpected k))" by simp
        show t: "tag_ok (r_match (req s1 u))" using inv u same [OF u] by (simp add: rq_inv_def)
        fix p assume "p \<in> set (?Q (Posted k))"
        then consider "p \<in> set (Q (Posted k))" | "k = fg" "p = next_req s" by (auto split: if_splits)
        then show "\<not> posted_accepts (req s1 p) (r_match (req s1 u))"
        proof cases
          case 1
          then show ?thesis using inv u same [OF u] same [OF 1] by (simp add: rq_inv_def posted_accepts_def)
        next
          case 2
          then show ?thesis using fresh_posted_accepts [OF t s1(3,4)] none u same [OF u] by simp
        qed
      qed (rule rep1)
      then show ?thesis using e by auto
    qed
  qed
qed

lemma zerocopy_keeps:
  assumes "zerocopy_buffer hwp buf m r s = Inr s'"
  shows "r_next s' = r_next s" "ends s' = ends s" "next_req s' = next_req s" "keeps s s'"
  using assms by (auto simp: zerocopy_buffer_def Let_def bind_outcome_Inr_iff keeps_def split: if_splits)

lemma message_inv:
  assumes inv: "rq_inv s Q" and m: "tag_ok m" and r: "MPIDI_CH3U_Recvq_FDP_or_AEU junk hook hwp buf m s = Inr (b, r, m', s')"
  shows "\<exists>Q'. rq_inv s' Q'"
proof -
  let ?P = "\<lambda>r. posted_accepts (req s r) m"
  have rep: "rq_rep s Q" using inv by (simp add: rq_inv_def)
  obtain fg where i: "GET_MATCH_QUEUE_INDEX (m_dest_rank m) s = Inr fg"
    using r by (auto simp: MPIDI_CH3U_Recvq_FDP_or_AEU_def Let_def bind_outcome_Inr_iff)
  obtain o' ps where f: "fdp_spec ?P hook (Q (Posted fg)) = (o', ps)" by fastforce
  have sub: "set ps \<subseteq> set (Q (Posted fg))" using fdp_spec_rest [of ?P hook "Q (Posted fg)"] f by simp
  show ?thesis
  proof (cases o')
    case (Some x)
    obtain s1 where s1: "fdp_loop hook (arriving m) fg NULL (q_head (Posted fg) s) s = Some (x, s1)"
      "rq_rep s1 (Q(Posted fg := ps))" "req s1 = req s" "keeps s s1" "next_req s1 = next_req s"
      using fdp_loop_rep [OF rep, of fg "[]" "Q (Posted fg)" ?P "arriving m" hook] f Some repD(4) [OF rep, of "Posted fg"]
      by (auto simp: posted_accepts_def)
    have x: "x \<noteq> NULL" using fdp_spec_found [of ?P hook "Q (Posted fg)" x] f Some repD(3) [OF rep, of "Posted fg"] by (metis fst_conv)
    obtain s2 where s2: "zerocopy_buffer hwp buf (arriving m) x s1 = Inr s2" "s' = s2\<lparr>notified := notified s2 @ [m_dest_rank m]\<rparr>"
      using r i s1(1) x by (auto simp: MPIDI_CH3U_Recvq_FDP_or_AEU_def Let_def bind_outcome_Inr_iff)
    note z = zerocopy_keeps [OF s2(1)]
    have rep': "rq_rep s' (Q(Posted fg := ps))" by (rule rep_cong [OF s1(2)]) (simp_all add: s2(2) z)
    have "keeps s s'" using s1(3-5) z(3,4) by (simp add: keeps_def s2(2))
    then have "rq_inv s' (Q(Posted fg := ps))" by (intro inv_sub [OF inv rep']) (use sub in auto)
    then show ?thesis by blast
  next
    case None
    let ?Q = "Q(Posted fg := ps, Unexpected fg := Q (Unexpected fg) @ [next_req s])"
    obtain s1 where s1: "s' = s1" "keeps s s1" "rq_rep s1 ?Q" "r_match (req s1 (next_req s)) = m"
      using message_not_found [OF rep i f [unfolded None], of junk hwp buf] r by auto
    have none: "\<forall>p \<in> set ps. \<not> ?P p" using fdp_spec_none [of ?P hook "Q (Posted fg)"] f None by simp
    have same: "r_match (req s1 a) = r_match (req s a)" "r_mask (req s1 a) = r_mask (req s a)" if "a \<in> set (Q q)" for a q
      using that s1(2) repD(7) [OF rep] by (auto simp: keeps_def)
    have "rq_inv s1 ?Q"
      unfolding rq_inv_def
    proof (intro conjI allI ballI)
      fix k u assume "u \<in> set (?Q (Unexpected k))"
      then consider "u \<in> set (Q (Unexpected k))" | "k = fg" "u = next_req s" by (auto split: if_splits)
      note u = this
      then show "tag_ok (r_match (req s1 u))"
        by cases (use inv same s1(4) m in \<open>auto simp: rq_inv_def\<close>)
      fix p assume "p \<in> set (?Q (Posted k))"
      then have p: "p \<in> set (Q (Posted k))" "k = fg \<Longrightarrow> p \<in> set ps" using sub by (auto split: if_splits)
      from u show "\<not> posted_accepts (req s1 p) (r_match (req s1 u))"
      proof cases
        case 1
        then show ?thesis using inv p(1) same [OF 1] same [OF p(1)] by (simp add: rq_inv_def posted_accepts_def)
      next
        case 2
        then show ?thesis using none p(2) s1(4) same [OF p(1)] by (simp add: posted_accepts_def)
      qed
    qed (rule s1(3))
    then show ?thesis using s1(1) by blast
  qed
qed

lemma improbe_found:
  assumes rep: "rq_rep s Q" and i: "GET_MATCH_QUEUE_INDEX (my_fgrank s) s = Inr fg"
  shows "case take_first (\<lambda>r. accepts source tag cid (my_fgrank s) (r_match (req s r))) (Q (Unexpected fg)) of
      None \<Rightarrow> MPIDI_CH3U_Recvq_FDU_matchonly source tag cid comm s = Inr (False, NULL, s)
    | Some (x, us) \<Rightarrow> \<exists>s'. MPIDI_CH3U_Recvq_FDU_matchonly source tag cid comm s = Inr (True, x, s') \<and>
        rq_rep s' (Q(Unexpected fg := us)) \<and> keeps s s' \<and> set us \<subseteq> set (Q (Unexpected fg))"
proof (cases "take_first (\<lambda>r. accepts source tag cid (my_fgrank s) (r_match (req s r))) (Q (Unexpected fg))")
  case None
  then show ?thesis using search_unexpected [OF rep, of source tag cid "my_fgrank s" fg] i
    by (simp add: MPIDI_CH3U_Recvq_FDU_matchonly_def case_prod_beta Let_def)
next
  case (Some z)
  obtain x us where z: "take_first (\<lambda>r. accepts source tag cid (my_fgrank s) (r_match (req s r))) (Q (Unexpected fg)) = Some (x, us)"
    using Some by (cases z) auto
  define p where "p = last (NULL # takeWhile (\<lambda>a. \<not> accepts source tag cid (my_fgrank s) (r_match (req s a))) (Q (Unexpected fg)))"
  define u where "u = unlink (Unexpected fg) p x s"
  note f = unlink_first [OF rep z]
  let ?s = "MPIR_Comm_add_ref comm (set_req x (\<lambda>y. y\<lparr>r_comm := comm\<rparr>) (u\<lparr>unexpected_recvq_length := unexpected_recvq_length u - 1,
      unexpected_recvq_buffer_size := unexpected_recvq_buffer_size u - tmpbuf_sz (req u x)\<rparr>))"
  have "q_find (\<lambda>r. MATCH_WITH_LEFT_MASK (r_match (req s r)) (fst (search_match source tag cid (my_fgrank s)))
      (snd (search_match source tag cid (my_fgrank s)))) (r_next s) NULL (q_head (Unexpected fg) s) = Some (p, x)"
    unfolding search_unexpected [OF rep] z p_def by simp
  then have "MPIDI_CH3U_Recvq_FDU_matchonly source tag cid comm s = Inr (True, x, ?s)"
    using i f(2) by (simp add: MPIDI_CH3U_Recvq_FDU_matchonly_def case_prod_beta Let_def u_def)
  moreover have "rq_rep ?s (Q(Unexpected fg := us))" by (rule rep_cong [OF f(3) [folded p_def, folded u_def]]) simp_all
  moreover have "keeps s ?s" by (simp add: keeps_def u_def)
  moreover have "set us \<subseteq> set (Q (Unexpected fg))" using take_first_Some [OF z] by auto
  ultimately show ?thesis using z by auto
qed

lemma clean_inv:
  assumes inv: "rq_inv s Q" and c: "clean_all P queue e is s = Inr s'" and d: "distinct is" "inj queue"
  shows "\<exists>Q'. rq_inv s' Q'"
proof -
  have rep: "rq_rep s Q" using inv by (simp add: rq_inv_def)
  let ?Q = "\<lambda>q. if q \<in> queue ` set is then filter (\<lambda>r. \<not> P (req s r)) (Q q) else Q q"
  have "rq_rep s' ?Q" "keeps s s'" using clean_all_rep [OF rep d, of P e] c by auto
  then have "rq_inv s' ?Q" by (intro inv_sub [OF inv]) auto
  then show ?thesis by blast
qed

lemma step_inv:
  assumes "rq_step s s'" "rq_inv s Q"
  shows "\<exists>Q'. rq_inv s' Q'"
  using assms
proof (induction arbitrary: Q rule: rq_step.induct)
  case (Receive junk moribund source tag cid comm buf cnt dt s b r s')
  then show ?case using receive_inv by blast
next
  case (Improbe source tag cid comm s b r s')
  have rep: "rq_rep s Q" using Improbe.prems by (simp add: rq_inv_def)
  obtain fg where i: "GET_MATCH_QUEUE_INDEX (my_fgrank s) s = Inr fg"
    using Improbe.hyps by (auto simp: MPIDI_CH3U_Recvq_FDU_matchonly_def bind_outcome_Inr_iff)
  show ?case using improbe_found [OF rep i, of source tag cid comm] Improbe
    by (auto split: option.splits intro: inv_sub1 [OF Improbe.prems])
next
  case (Message m junk hook hwp buf s b r m' s')
  then show ?case using message_inv by blast
next
  case (Cancel_recv hook r s b s')
  have rep: "rq_rep s Q" using Cancel_recv.prems by (simp add: rq_inv_def)
  obtain fg where i: "GET_MATCH_QUEUE_INDEX (m_dest_rank (r_match (req s r))) s = Inr fg"
    using Cancel_recv.hyps by (auto simp: MPIDI_CH3U_Recvq_DP_def bind_outcome_Inr_iff)
  have "rq_rep s' (Q(Posted fg := remove1 r (Q (Posted fg))))" "keeps s s'"
    using cancel_recv [OF rep i, of hook] Cancel_recv.hyps by auto
  then have "rq_inv s' (Q(Posted fg := remove1 r (Q (Posted fg))))"
    by (intro inv_sub [OF Cancel_recv.prems]) (auto dest: in_set_remove1 set_mp [OF set_remove1_subset] split: if_splits)
  then show ?case by blast
next
  case (Cancel_send h m s r s')
  have rep: "rq_rep s Q" using Cancel_send.prems by (simp add: rq_inv_def)
  obtain fg where i: "GET_MATCH_QUEUE_INDEX (m_dest_rank m) s = Inr fg"
    using Cancel_send.hyps by (auto simp: MPIDI_CH3U_Recvq_FDU_def bind_outcome_Inr_iff)
  show ?case using cancel_send [OF rep i, of h] Cancel_send
    by (auto split: option.splits intro: inv_sub1 [OF Cancel_send.prems])
next
  case (Fail vc_of vc s s')
  then show ?case unfolding MPIDI_CH3U_Complete_posted_with_error_def
    by (intro clean_inv [OF Fail.prems]) (auto simp: indices_def inj_def)
next
  case (Revoke mjunk c s s')
  obtain s1 where s1: "clean_all (cleans mjunk c) Unexpected MPIX_ERR_REVOKED (indices s) s = Inr s1"
    "clean_all (cleans mjunk c) Posted MPIX_ERR_REVOKED (indices s) s1 = Inr s'"
    using Revoke.hyps by (auto simp: MPIDI_CH3U_Clean_recvq_def bind_outcome_Inr_iff)
  have "distinct (indices s)" "inj Posted" "inj Unexpected" by (simp_all add: indices_def inj_def)
  then show ?case using clean_inv [OF Revoke.prems s1(1)] clean_inv [OF _ s1(2)] by blast
next
  case (Switch s k)
  have "rq_rep (s\<lparr>my_fgrank := k\<rparr>) Q" by (rule rep_cong [of s]) (use Switch in \<open>simp_all add: rq_inv_def\<close>)
  then have "rq_inv (s\<lparr>my_fgrank := k\<rparr>) Q" using Switch by (simp add: rq_inv_def)
  then show ?case by blast
qed

lemma reachable_queues: "rq_reachable s \<Longrightarrow> \<exists>Q. rq_inv s Q"
proof (induction rule: rq_reachable.induct)
  case (Init n start me junk)
  then show ?case using inv_init by blast
next
  case (Step s s')
  then show ?case using step_inv by blast
qed

text \<open>
  C27. Nothing that matches is left waiting: after any sequence of receives, probes, messages,
  cancellations, failures and revocations the pointers of all queues form proper, disjoint chains and no
  message in an unexpected queue is accepted by a receive in the posted queue of the same process.
\<close>

theorem queues_never_match:
  assumes "rq_reachable s"
  shows "\<exists>Q. rq_rep s Q \<and>
    (\<forall>fg. \<forall>u \<in> set (Q (Unexpected fg)). \<forall>p \<in> set (Q (Posted fg)). \<not> posted_accepts (req s p) (r_match (req s u)))"
  using reachable_queues [OF assms] unfolding rq_inv_def by blast

theorem queues_never_match_witness:
  "\<exists>Q. rq_rep (rq_init 2 10 10 blank_request) Q"
  using queues_never_match [OF rq_reachable.Init [of 2 10 10 blank_request]] by blast

lemma q_count_chain: "links nx xs NULL \<Longrightarrow> NULL \<notin> set xs \<Longrightarrow> q_count nx (hd (xs @ [NULL])) n = Some (n + int (length xs))"
proof (induction xs arbitrary: n)
  case Nil
  then show ?case by (simp add: q_count.simps)
next
  case (Cons x xs)
  then show ?case by (subst q_count.simps) (simp add: links_Cons)
qed

lemma count_all_sum:
  "rq_rep s Q \<Longrightarrow> count_all s is n = Inr (n + (\<Sum>i \<leftarrow> is. int (length (Q (Unexpected i)))))"
  by (induction "is" arbitrary: n) (simp_all add: repD(4) q_count_chain [OF repD(1,3)])

text \<open>
  \<^verbatim>\<open>MPIDI_CH3U_Recvq_count_unexp\<close> returns, and its result is the number of requests in the
  unexpected queues of all processes.
\<close>

theorem count_unexp_total:
  assumes "rq_rep s Q"
  shows "MPIDI_CH3U_Recvq_count_unexp s = Inr (\<Sum>i \<leftarrow> indices s. int (length (Q (Unexpected i))))"
  using count_all_sum [OF assms, of "indices s" 0] by (simp add: MPIDI_CH3U_Recvq_count_unexp_def)

theorem count_unexp_total_witness:
  "\<exists>s. rq_rep s ((\<lambda>_. [])(Posted 0 := [1])) \<and> MPIDI_CH3U_Recvq_count_unexp s = Inr 0"
proof -
  obtain s where s: "rq_rep s ((\<lambda>_. [])(Posted 0 := [1]))" "indices s = [0, 1]" using one_posted by blast
  show ?thesis using count_unexp_total [OF s(1)] s by auto
qed

text \<open>
  The posted-queue length variable drifts: removing a request with an error counts it off exactly when the
  request is the head of its queue, whether that queue is a posted or an unexpected one.
\<close>

theorem dequeue_with_error_miscounts:
  assumes "rq_rep s Q" "Q q = as @ x # bs"
  shows "posted_recvq_length (snd (dequeue_and_set_error x (last (NULL # as)) q e s)) =
    posted_recvq_length s - (if as = [] then 1 else 0)"
  using dequeue_unlink [OF assms, of e] by auto

theorem dequeue_with_error_miscounts_witness:
  "\<exists>s. rq_rep s ((\<lambda>_. [])(Posted 0 := [1])) \<and>
     posted_recvq_length (snd (dequeue_and_set_error 1 0 (Posted 0) MPIX_ERR_REVOKED s)) = posted_recvq_length s - 1"
proof -
  obtain s where s: "rq_rep s ((\<lambda>_. [])(Posted 0 := [1]))" using one_posted by blast
  show ?thesis using dequeue_with_error_miscounts [OF s, where q = "Posted 0" and as = "[]" and x = 1 and bs = "[]" and e = MPIX_ERR_REVOKED] s by auto
qed

end
