(* ===== verification/Rank_Map.thy ===== *)
theory Rank_Map
  imports Hash_Map
begin

section \<open>From ranks to operating-system processes (\<^verbatim>\<open>fginit.c\<close>, \<^verbatim>\<open>mpid_vc.c\<close>)\<close>

text \<open>
  Many MPI processes (coroutines) share one operating-system process, the HWP.  At start-up
  every HWP publishes the first world rank and the number of the coroutines it hosts in the
  key-value space of the process manager and reads what the others published
  (\<^verbatim>\<open>publish_fg\<close> in \<^verbatim>\<open>src/src/mpid/ch3/src/mpid_vc.c\<close>).  The table
  \<^verbatim>\<open>pid_to_fgps\<close> that results is searched by halving to find the HWP of a world rank,
  and \<^verbatim>\<open>RTWPmapFind\<close> composes that search with the rank-to-world map of a communicator
  (both in \<^verbatim>\<open>src/src/mpi/init/fginit.c\<close>).

  Ranks and sizes are C \<^verbatim>\<open>int\<close>s far from the limits of the type, and are \<open>int\<close> here.  The
  process manager (PMI) is a parameter: the number of HWPs and the contents of its key-value
  space after the barrier.
\<close>

subsection \<open>State\<close>

record FGP_tuple =
  fg_startrank :: int
  numfgps :: int

definition MPI_PROC_NULL :: int where "MPI_PROC_NULL = -1"
definition MPI_ANY_SOURCE_int :: int where "MPI_ANY_SOURCE_int = -2"
definition MPI_UNDEFINED :: int where "MPI_UNDEFINED = -32766"

text \<open>
  What the routines below read: the table of HWPs, the arrays of the rank-to-world maps by
  address, and the address of the map of the world communicator, which is never filled in.
\<close>

record fg_ranks =
  pid_size :: int
  pid_to_fgps :: "FGP_tuple list"
  worldcomm_rtw_map :: addr
  rtw_maps :: "addr \<Rightarrow> int list"

text \<open>The fields of \<^verbatim>\<open>MPID_Comm\<close> the rank lookups read.\<close>

record fg_comm =
  rtw_map :: addr
  local_size :: int
  p_rank :: int

subsection \<open>Finding the process of a world rank\<close>

definition LESS :: int where "LESS = -1"
definition EQUAL :: int where "EQUAL = 0"
definition GREATER :: int where "GREATER = 1"

definition FG_is_within :: "int \<Rightarrow> int \<Rightarrow> int \<Rightarrow> int outcome" where
  "FG_is_within rank start_fgrank n =
     (if rank \<ge> start_fgrank \<and> rank < start_fgrank + n then Inr EQUAL
      else if rank \<ge> start_fgrank + n then Inr GREATER
      else if rank < start_fgrank then Inr LESS
      else Inl (Exit_called ''FG_is_within''))"

text \<open>
  The loop of \<^verbatim>\<open>FGI_worldrank_to_pid\<close>; \<open>None\<close> is its return value 1 (not found).  The sum
  of the bounds is never negative where it is halved, so \<open>div\<close> is C's division.
\<close>

function fgi_loop :: "FGP_tuple list \<Rightarrow> int \<Rightarrow> int \<Rightarrow> int \<Rightarrow> int option outcome" where
  "fgi_loop tbl fgwrank low high =
     (if low \<le> high then
        let mid = (low + high) div 2 in
        if 0 \<le> mid \<and> mid < int (length tbl) then
          let t = tbl ! nat mid in
          bind_outcome (FG_is_within fgwrank (fg_startrank t) (numfgps t)) (\<lambda>c.
          if c = LESS then fgi_loop tbl fgwrank low (mid - 1)
          else if c = GREATER then fgi_loop tbl fgwrank (mid + 1) high
          else bind_outcome (check (mid \<ge> 0) ''(*pid_ptr) >= 0'') (\<lambda>_. Inr (Some mid)))
        else Inl (Undefined ''pid_to_fgps[mid]'')
      else Inr None)"
  by pat_completeness auto
termination
  by (relation "measure (\<lambda>(tbl, w, low, high). nat (high - low + 1))") auto

definition FGI_worldrank_to_pid :: "fg_ranks \<Rightarrow> int \<Rightarrow> int option outcome" where
  "FGI_worldrank_to_pid g fgwrank = fgi_loop (pid_to_fgps g) fgwrank 0 (pid_size g - 1)"

definition FG_worldrank_to_pid :: "fg_ranks \<Rightarrow> int \<Rightarrow> int outcome" where
  "FG_worldrank_to_pid g w =
     bind_outcome (FGI_worldrank_to_pid g w) (\<lambda>r.
     case r of None \<Rightarrow> Inl (Exit_called ''No pid found for worldrank'') | Some pid \<Rightarrow> Inr pid)"

subsection \<open>Rank lookups in a communicator\<close>

text \<open>\<open>want_pid\<close> says that the \<^verbatim>\<open>pid_ptr\<close> argument is not NULL.\<close>

definition RTWPmapFind :: "fg_ranks \<Rightarrow> addr \<Rightarrow> int \<Rightarrow> bool \<Rightarrow> (int \<times> int option) outcome" where
  "RTWPmapFind g map_ptr lrank want_pid =
     (if lrank < 0 then Inl (Exit_called ''negative rank lookup'')
      else bind_outcome
        (if map_ptr = worldcomm_rtw_map g then Inr lrank
         else RTWarrayFind (rtw_maps g map_ptr) (nat lrank)) (\<lambda>w.
      if want_pid then bind_outcome (FG_worldrank_to_pid g w) (\<lambda>pid. Inr (w, Some pid))
      else Inr (w, None)))"

definition FG_set_PROC_NULL :: "bool \<Rightarrow> int \<times> int option" where
  "FG_set_PROC_NULL want_pid = (MPI_PROC_NULL, if want_pid then Some MPI_PROC_NULL else None)"

definition MPIDI_Comm_get_pid_worldrank ::
  "fg_ranks \<Rightarrow> fg_comm \<Rightarrow> int \<Rightarrow> bool \<Rightarrow> (int \<times> int option) outcome" where
  "MPIDI_Comm_get_pid_worldrank g comm localrank want_pid =
     (if localrank = MPI_PROC_NULL then Inr (FG_set_PROC_NULL want_pid)
      else RTWPmapFind g (rtw_map comm) localrank want_pid)"

text \<open>The result is the return value and what is stored at \<^verbatim>\<open>reqrankpid\<close>.\<close>

definition FG_is_within_same_HWP :: "fg_ranks \<Rightarrow> int \<Rightarrow> fg_comm \<Rightarrow> (int \<times> int) outcome" where
  "FG_is_within_same_HWP g reqfgrank comm =
     bind_outcome (check (reqfgrank > MPI_ANY_SOURCE_int \<and> reqfgrank < local_size comm)
       ''(reqfgrank > MPI_ANY_SOURCE) && (reqfgrank < comm->local_size)'') (\<lambda>_.
     bind_outcome (MPIDI_Comm_get_pid_worldrank g comm reqfgrank True) (\<lambda>(w, pid).
     let reqpid = (case pid of None \<Rightarrow> -1 | Some p \<Rightarrow> p) in
     Inr (if p_rank comm = reqpid then 1 else 0, reqpid)))"

subsection \<open>Publishing the table\<close>

text \<open>
  \<^verbatim>\<open>snprintf\<close> with \<^verbatim>\<open>%d\<close> writes decimal digits and keeps what fits before the terminator;
  \<^verbatim>\<open>atoi\<close> skips blanks, reads a sign and the digits that follow.
\<close>

definition digit_char :: "nat \<Rightarrow> char" where
  "digit_char n = char_of (48 + n)"

fun nat_digits :: "nat \<Rightarrow> string" where
  "nat_digits n = (if n < 10 then [digit_char n] else nat_digits (n div 10) @ [digit_char (n mod 10)])"

declare nat_digits.simps [simp del]

definition fmt_d :: "int \<Rightarrow> string" where
  "fmt_d i = (if i < 0 then CHR ''-'' # nat_digits (nat (- i)) else nat_digits (nat i))"

definition snprintf :: "nat \<Rightarrow> string \<Rightarrow> string" where
  "snprintf buflen s = take (buflen - 1) s"

definition is_digit :: "char \<Rightarrow> bool" where
  "is_digit c \<longleftrightarrow> 48 \<le> (of_char c :: nat) \<and> (of_char c :: nat) \<le> 57"

definition is_space :: "char \<Rightarrow> bool" where
  "is_space c \<longleftrightarrow> (of_char c :: nat) = 32 \<or> 9 \<le> (of_char c :: nat) \<and> (of_char c :: nat) \<le> 13"

definition digits_val :: "string \<Rightarrow> int" where
  "digits_val s = foldl (\<lambda>v c. v * 10 + (int (of_char c) - 48)) 0 (takeWhile is_digit s)"

definition atoi :: "string \<Rightarrow> int" where
  "atoi str =
     (case dropWhile is_space str of
        [] \<Rightarrow> 0
      | c # cs \<Rightarrow> if c = CHR ''-'' then - digits_val cs
                 else if c = CHR ''+'' then digits_val cs else digits_val (c # cs))"

definition numfgps_key :: "nat \<Rightarrow> nat \<Rightarrow> string" where
  "numfgps_key sz i = snprintf sz (''numfgps['' @ fmt_d (int i) @ '']'')"

definition fgpstartrank_key :: "nat \<Rightarrow> nat \<Rightarrow> string" where
  "fgpstartrank_key sz i = snprintf sz (''fgpstartrank['' @ fmt_d (int i) @ '']'')"

text \<open>What the process with rank \<open>our_pg_rank\<close> puts into the key-value space before the barrier.\<close>

definition publish_fg_puts :: "nat \<Rightarrow> nat \<Rightarrow> nat \<Rightarrow> FGP_tuple \<Rightarrow> (string \<times> string) list" where
  "publish_fg_puts key_max_sz pg_size our_pg_rank self =
     (if pg_size > 1 then
        [(numfgps_key key_max_sz our_pg_rank, snprintf key_max_sz (fmt_d (numfgps self))),
         (fgpstartrank_key key_max_sz our_pg_rank, snprintf key_max_sz (fmt_d (fg_startrank self)))]
      else [])"

text \<open>
  What it reads after the barrier: \<open>kvs\<close> is the key-value space, and a failed get ends the
  routine with an error code (\<open>None\<close>).
\<close>

fun publish_fg_gets ::
  "nat \<Rightarrow> (string \<rightharpoonup> string) \<Rightarrow> nat \<Rightarrow> FGP_tuple \<Rightarrow> nat list \<Rightarrow> FGP_tuple list option" where
  "publish_fg_gets key_max_sz kvs our_pg_rank self [] = Some []"
| "publish_fg_gets key_max_sz kvs our_pg_rank self (i # is) =
     (let rest = publish_fg_gets key_max_sz kvs our_pg_rank self is in
      if i = our_pg_rank then map_option (\<lambda>ts. self # ts) rest
      else case kvs (numfgps_key key_max_sz i) of
        None \<Rightarrow> None
      | Some numfgps_string \<Rightarrow>
          (case kvs (fgpstartrank_key key_max_sz i) of
             None \<Rightarrow> None
           | Some fg_startrank_string \<Rightarrow>
               map_option (\<lambda>ts. \<lparr>fg_startrank = atoi fg_startrank_string,
                                 numfgps = atoi numfgps_string\<rparr> # ts) rest))"

definition publish_fg ::
  "nat \<Rightarrow> (string \<rightharpoonup> string) \<Rightarrow> nat \<Rightarrow> nat \<Rightarrow> FGP_tuple \<Rightarrow> FGP_tuple list option" where
  "publish_fg key_max_sz kvs pg_size our_pg_rank self =
     publish_fg_gets key_max_sz kvs our_pg_rank self [0..<pg_size]"

subsection \<open>Facts\<close>

text \<open>The block layout the launcher hands out: HWP after HWP, each with at least one process.\<close>

fun contiguous :: "int \<Rightarrow> FGP_tuple list \<Rightarrow> bool" where
  "contiguous s [] = True"
| "contiguous s (t # ts) = (fg_startrank t = s \<and> numfgps t \<ge> 1 \<and> contiguous (s + numfgps t) ts)"

definition total_fgps :: "FGP_tuple list \<Rightarrow> int" where
  "total_fgps tbl = sum_list (map numfgps tbl)"

definition hosts :: "FGP_tuple \<Rightarrow> int \<Rightarrow> bool" where
  "hosts t w \<longleftrightarrow> fg_startrank t \<le> w \<and> w < fg_startrank t + numfgps t"

lemma contiguous_total: "contiguous s tbl \<Longrightarrow> 0 \<le> total_fgps tbl"
  by (induction tbl arbitrary: s) (force simp: total_fgps_def)+

lemma contiguous_bounds:
  "contiguous s tbl \<Longrightarrow> t \<in> set tbl \<Longrightarrow>
     s \<le> fg_startrank t \<and> 1 \<le> numfgps t \<and> fg_startrank t + numfgps t \<le> s + total_fgps tbl"
proof (induction tbl arbitrary: s)
  case Nil
  then show ?case by simp
next
  case (Cons a tbl)
  have "0 \<le> total_fgps tbl" using Cons.prems(1) contiguous_total by auto
  then show ?case
    using Cons.IH [of "s + numfgps a"] Cons.prems by (auto simp: total_fgps_def)
qed

lemma contiguous_order:
  "contiguous s tbl \<Longrightarrow> i < j \<Longrightarrow> j < length tbl \<Longrightarrow>
     fg_startrank (tbl ! i) + numfgps (tbl ! i) \<le> fg_startrank (tbl ! j)"
proof (induction tbl arbitrary: s i j)
  case Nil
  then show ?case by simp
next
  case (Cons a tbl)
  show ?case
  proof (cases i)
    case 0
    then show ?thesis
      using Cons.prems contiguous_bounds [of "s + numfgps a" tbl "tbl ! (j - 1)"]
      by (cases j) simp_all
  next
    case (Suc i')
    then show ?thesis using Cons.IH [of "s + numfgps a" i' "j - 1"] Cons.prems by (cases j) simp_all
  qed
qed

lemma contiguous_hosts:
  "contiguous s tbl \<Longrightarrow> s \<le> w \<Longrightarrow> w < s + total_fgps tbl \<Longrightarrow> \<exists>p<length tbl. hosts (tbl ! p) w"
proof (induction tbl arbitrary: s)
  case Nil
  then show ?case by (simp add: total_fgps_def)
next
  case (Cons a tbl)
  show ?case
  proof (cases "w < s + numfgps a")
    case True
    then show ?thesis using Cons.prems by (intro exI [of _ 0]) (simp add: hosts_def)
  next
    case False
    then obtain p where "p < length tbl" "hosts (tbl ! p) w"
      using Cons.IH [of "s + numfgps a"] Cons.prems by (auto simp: total_fgps_def)
    then show ?thesis by (intro exI [of _ "Suc p"]) simp
  qed
qed

declare fgi_loop.simps [simp del]

lemma FG_is_within_cases:
  "FG_is_within w (fg_startrank t) (numfgps t) =
     Inr (if hosts t w then EQUAL else if w \<ge> fg_startrank t + numfgps t then GREATER else LESS)"
  by (auto simp: FG_is_within_def hosts_def)

lemma order_consts: "LESS \<noteq> GREATER" "EQUAL \<noteq> LESS" "EQUAL \<noteq> GREATER"
  by (simp_all add: LESS_def EQUAL_def GREATER_def)

lemma fgi_loop_step:
  assumes "low \<le> high" "0 \<le> low" "high < int (length tbl)"
  shows "fgi_loop tbl w low high =
    (let mid = (low + high) div 2; t = tbl ! nat mid in
     if hosts t w then Inr (Some mid)
     else if w \<ge> fg_startrank t + numfgps t then fgi_loop tbl w (mid + 1) high
     else fgi_loop tbl w low (mid - 1))"
proof -
  have "0 \<le> (low + high) div 2" "(low + high) div 2 < int (length tbl)" using assms by auto
  then show ?thesis
    using assms(1) order_consts by (subst fgi_loop.simps) (simp add: Let_def FG_is_within_cases)
qed

lemma fgi_loop_finds:
  assumes "contiguous s tbl" "p < length tbl" "hosts (tbl ! p) w"
  shows "0 \<le> low \<Longrightarrow> high < int (length tbl) \<Longrightarrow> low \<le> int p \<Longrightarrow> int p \<le> high \<Longrightarrow>
    fgi_loop tbl w low high = Inr (Some (int p))"
proof (induction "nat (high - low)" arbitrary: low high rule: less_induct)
  case less
  define mid where "mid = (low + high) div 2"
  have mid: "low \<le> mid" "mid \<le> high" using less.prems by (auto simp: mid_def)
  have nmid: "nat mid < length tbl" "int p < mid \<Longrightarrow> p < nat mid" "mid < int p \<Longrightarrow> nat mid < p"
    using less.prems mid by linarith+
  have after: "int p < mid \<Longrightarrow> w < fg_startrank (tbl ! nat mid)"
    using contiguous_order [OF assms(1), of p "nat mid"] assms(3) nmid by (simp add: hosts_def)
  have before: "mid < int p \<Longrightarrow> fg_startrank (tbl ! nat mid) + numfgps (tbl ! nat mid) \<le> w"
    using contiguous_order [OF assms(1), of "nat mid" p] assms(2,3) nmid by (simp add: hosts_def)
  have pos: "1 \<le> numfgps (tbl ! nat mid)"
    using contiguous_bounds [OF assms(1), of "tbl ! nat mid"] less.prems mid by simp
  consider "int p < mid" | "mid < int p" | "mid = int p" by linarith
  then show ?case
  proof cases
    case 1
    then show ?thesis
      using after pos less.prems mid less.hyps [of "mid - 1" low]
      by (subst fgi_loop_step) (auto simp: Let_def mid_def [symmetric] hosts_def)
  next
    case 2
    then show ?thesis
      using before less.prems mid less.hyps [of high "mid + 1"]
      by (subst fgi_loop_step) (auto simp: Let_def mid_def [symmetric] hosts_def)
  next
    case 3
    then show ?thesis
      using assms(3) less.prems mid by (subst fgi_loop_step) (simp_all add: Let_def mid_def [symmetric])
  qed
qed

lemma fgi_loop_misses:
  assumes "\<And>t. t \<in> set tbl \<Longrightarrow> \<not> hosts t w"
  shows "0 \<le> low \<Longrightarrow> high < int (length tbl) \<Longrightarrow> fgi_loop tbl w low high = Inr None"
proof (induction "nat (high - low + 1)" arbitrary: low high rule: less_induct)
  case less
  show ?case
  proof (cases "low \<le> high")
    case True
    define mid where "mid = (low + high) div 2"
    have mid: "low \<le> mid" "mid \<le> high" using True by (auto simp: mid_def)
    have "\<not> hosts (tbl ! nat mid) w" using assms less.prems mid by simp
    then show ?thesis
      using True less.prems mid less.hyps [of "mid - 1" low] less.hyps [of high "mid + 1"]
      by (subst fgi_loop_step) (simp_all add: Let_def mid_def [symmetric])
  next
    case False
    then show ?thesis by (simp add: fgi_loop.simps)
  qed
qed

lemma FG_worldrank_to_pid_hit:
  assumes "contiguous 0 (pid_to_fgps g)" "pid_size g = int (length (pid_to_fgps g))"
    and "p < length (pid_to_fgps g)" "hosts (pid_to_fgps g ! p) w"
  shows "FG_worldrank_to_pid g w = Inr (int p)"
  using fgi_loop_finds [OF assms(1,3,4), of 0 "pid_size g - 1"] assms(2,3)
  by (simp add: FG_worldrank_to_pid_def FGI_worldrank_to_pid_def)

lemma FG_worldrank_to_pid_miss:
  assumes "contiguous 0 (pid_to_fgps g)" "pid_size g = int (length (pid_to_fgps g))"
    and "w < 0 \<or> total_fgps (pid_to_fgps g) \<le> w"
  shows "FG_worldrank_to_pid g w = Inl (Exit_called ''No pid found for worldrank'')"
proof -
  have "\<not> hosts t w" if "t \<in> set (pid_to_fgps g)" for t
    using contiguous_bounds [OF assms(1) that] assms(3) by (auto simp: hosts_def)
  then show ?thesis
    using fgi_loop_misses [of "pid_to_fgps g" w 0 "pid_size g - 1"] assms(2)
    by (simp add: FG_worldrank_to_pid_def FGI_worldrank_to_pid_def)
qed

lemma hosts_unique:
  assumes "contiguous s tbl" "p < length tbl" "q < length tbl" "hosts (tbl ! p) w" "hosts (tbl ! q) w"
  shows "p = q"
proof (rule ccontr)
  assume "p \<noteq> q"
  then consider "p < q" | "q < p" by linarith
  then show False
    using contiguous_order [OF assms(1), of p q] contiguous_order [OF assms(1), of q p] assms(2-)
    by cases (auto simp: hosts_def)
qed

text \<open>
  C30: the search for the operating-system process of a world rank.  With the contiguous table
  that start-up builds, every world rank of the job has exactly one HWP hosting it, the halving
  search returns that HWP, and a rank outside the job ends the process instead of returning a
  wrong one.
\<close>

theorem worldrank_to_pid_correct:
  assumes "contiguous 0 (pid_to_fgps g)" "pid_size g = int (length (pid_to_fgps g))"
  shows "(if 0 \<le> w \<and> w < total_fgps (pid_to_fgps g)
      then \<exists>!p. p < length (pid_to_fgps g) \<and> hosts (pid_to_fgps g ! p) w \<and>
             FG_worldrank_to_pid g w = Inr (int p)
      else FG_worldrank_to_pid g w = Inl (Exit_called ''No pid found for worldrank''))"
proof (cases "0 \<le> w \<and> w < total_fgps (pid_to_fgps g)")
  case True
  then obtain p where p: "p < length (pid_to_fgps g)" "hosts (pid_to_fgps g ! p) w"
    using contiguous_hosts [OF assms(1)] by auto
  have "\<exists>!p. p < length (pid_to_fgps g) \<and> hosts (pid_to_fgps g ! p) w \<and> FG_worldrank_to_pid g w = Inr (int p)"
  proof (intro ex1I [of _ p] conjI p)
    show "FG_worldrank_to_pid g w = Inr (int p)" using FG_worldrank_to_pid_hit [OF assms p] .
  next
    fix q assume "q < length (pid_to_fgps g) \<and> hosts (pid_to_fgps g ! q) w \<and> FG_worldrank_to_pid g w = Inr (int q)"
    then show "q = p" using hosts_unique [OF assms(1) _ p(1) _ p(2)] by blast
  qed
  then show ?thesis using True by simp
next
  case False
  then have "w < 0 \<or> total_fgps (pid_to_fgps g) \<le> w" by linarith
  from FG_worldrank_to_pid_miss [OF assms this] show ?thesis by (simp only: False if_False)
qed

theorem worldrank_to_pid_correct_witness:
  "\<exists>!p. p < length [\<lparr>fg_startrank = 0, numfgps = 2\<rparr>, \<lparr>fg_startrank = 2, numfgps = 3\<rparr>] \<and>
     hosts ([\<lparr>fg_startrank = 0, numfgps = 2\<rparr>, \<lparr>fg_startrank = 2, numfgps = 3\<rparr>] ! p) 4 \<and>
     FG_worldrank_to_pid \<lparr>pid_size = 2,
       pid_to_fgps = [\<lparr>fg_startrank = 0, numfgps = 2\<rparr>, \<lparr>fg_startrank = 2, numfgps = 3\<rparr>],
       worldcomm_rtw_map = 8, rtw_maps = (\<lambda>_. [])\<rparr> 4 = Inr (int p)"
  using worldrank_to_pid_correct [where w = 4 and g = "\<lparr>pid_size = 2,
       pid_to_fgps = [\<lparr>fg_startrank = 0, numfgps = 2\<rparr>, \<lparr>fg_startrank = 2, numfgps = 3\<rparr>],
       worldcomm_rtw_map = 8, rtw_maps = (\<lambda>_. [])\<rparr>"]
  by (simp add: total_fgps_def)

subsection \<open>The published table\<close>

lemma digit_char_of: "n < 10 \<Longrightarrow> of_char (digit_char n) = 48 + n"
  by (simp add: digit_char_def)

lemma is_digit_digit_char: "n < 10 \<Longrightarrow> is_digit (digit_char n)"
  by (simp add: is_digit_def digit_char_of)

lemma nat_digits_digits: "c \<in> set (nat_digits n) \<Longrightarrow> is_digit c"
proof (induction n rule: nat_digits.induct)
  case (1 n)
  then show ?case
    by (cases "n < 10") (auto simp: nat_digits.simps [of n] is_digit_digit_char)
qed

lemma nat_digits_nonempty: "nat_digits n \<noteq> []"
  by (subst nat_digits.simps) simp

lemma nat_digits_value:
  "foldl (\<lambda>v c. v * 10 + (int (of_char c) - 48)) 0 (nat_digits n) = int n"
proof (induction n rule: nat_digits.induct)
  case (1 n)
  have "int (n div 10) * 10 + int (n mod 10) = int n"
    using div_mult_mod_eq [of n 10] by (metis of_nat_add of_nat_mult of_nat_numeral)
  with 1 show ?case
    by (cases "n < 10") (simp_all add: nat_digits.simps [of n] digit_char_of)
qed

lemma digits_val_nat_digits: "digits_val (nat_digits n) = int n"
proof -
  have "takeWhile is_digit (nat_digits n) = nat_digits n"
    using nat_digits_digits by (simp add: takeWhile_eq_all_conv)
  then show ?thesis by (simp only: digits_val_def nat_digits_value)
qed

lemma digit_not_special:
  "is_digit c \<Longrightarrow> \<not> is_space c \<and> c \<noteq> CHR ''-'' \<and> c \<noteq> CHR ''+'' \<and> c \<noteq> CHR '']''"
  by (auto simp: is_digit_def is_space_def)

lemma atoi_fmt_d: "atoi (fmt_d i) = i"
proof (cases "i < 0")
  case True
  have "\<not> is_space CHR ''-''" by (simp add: is_space_def)
  then show ?thesis using True by (simp add: atoi_def fmt_d_def digits_val_nat_digits)
next
  case False
  obtain c cs where c: "nat_digits (nat i) = c # cs" using nat_digits_nonempty by (cases "nat_digits (nat i)") auto
  then have "is_digit c" using nat_digits_digits [of c "nat i"] by simp
  then show ?thesis
    using False c digit_not_special [of c] digits_val_nat_digits [of "nat i"] by (simp add: atoi_def fmt_d_def)
qed

lemma snprintf_fits: "length s < n \<Longrightarrow> snprintf n s = s"
  by (simp add: snprintf_def)

text \<open>Every string \<^verbatim>\<open>publish_fg\<close> formats for HWP \<open>i\<close> with entry \<open>t\<close> fits in its buffer.\<close>

definition fits :: "nat \<Rightarrow> nat \<Rightarrow> FGP_tuple \<Rightarrow> bool" where
  "fits sz i t \<longleftrightarrow> length (fmt_d (numfgps t)) < sz \<and> length (fmt_d (fg_startrank t)) < sz \<and>
     length (''fgpstartrank['' @ fmt_d (int i) @ '']'') < sz"

lemma publish_fg_gets_map:
  assumes "\<And>i. i \<in> set is \<Longrightarrow> i \<noteq> r \<Longrightarrow>
      kvs (numfgps_key sz i) = Some (fmt_d (numfgps (tbl ! i))) \<and>
      kvs (fgpstartrank_key sz i) = Some (fmt_d (fg_startrank (tbl ! i)))"
  shows "publish_fg_gets sz kvs r (tbl ! r) is = Some (map (\<lambda>i. tbl ! i) is)"
  using assms by (induction "is") (auto simp: atoi_fmt_d Let_def)

text \<open>No two keys collide: the index can be read back from the key, and the two kinds of key differ.\<close>

lemma fmt_d_inj: "fmt_d i = fmt_d j \<Longrightarrow> i = j"
  by (metis atoi_fmt_d)

lemma fits_keys:
  "fits sz i t \<Longrightarrow> numfgps_key sz i = ''numfgps['' @ fmt_d (int i) @ '']'' \<and>
     fgpstartrank_key sz i = ''fgpstartrank['' @ fmt_d (int i) @ '']''"
  by (simp add: fits_def numfgps_key_def fgpstartrank_key_def snprintf_fits)

lemma keys_apart:
  assumes "fits sz i t" "fits sz j u"
  shows "numfgps_key sz i = numfgps_key sz j \<longleftrightarrow> i = j" "fgpstartrank_key sz i = fgpstartrank_key sz j \<longleftrightarrow> i = j"
    "numfgps_key sz i \<noteq> fgpstartrank_key sz j"
  using fits_keys [OF assms(1)] fits_keys [OF assms(2)] fmt_d_inj [of "int i" "int j"] by auto

text \<open>
  What all processes of a job put before the barrier, and what the process manager promises for the
  gets after it: under a key that was put it holds one of the values put under that key.
\<close>

definition all_puts :: "nat \<Rightarrow> FGP_tuple list \<Rightarrow> (string \<times> string) list" where
  "all_puts sz tbl = concat (map (\<lambda>i. publish_fg_puts sz (length tbl) i (tbl ! i)) [0..<length tbl])"

definition kvs_returns :: "(string \<times> string) list \<Rightarrow> (string \<rightharpoonup> string) \<Rightarrow> bool" where
  "kvs_returns puts kvs \<longleftrightarrow> (\<forall>(k, v)\<in>set puts. \<exists>v'. kvs k = Some v' \<and> (k, v') \<in> set puts)"

lemma kvs_returnsE:
  assumes "kvs_returns puts kvs" "(k, v) \<in> set puts" "\<And>v'. (k, v') \<in> set puts \<Longrightarrow> v' = v"
  shows "kvs k = Some v"
  using assms unfolding kvs_returns_def by fastforce

lemma map_of_returns: "kvs_returns puts (map_of puts)"
proof -
  have "\<exists>v'. map_of puts k = Some v' \<and> (k, v') \<in> set puts" if "(k, v) \<in> set puts" for k v
    using that weak_map_of_SomeI [OF that] by (auto dest: map_of_SomeD)
  then show ?thesis unfolding kvs_returns_def by blast
qed

lemma all_puts_mem:
  assumes "\<And>i. i < length tbl \<Longrightarrow> fits sz i (tbl ! i)" "1 < length tbl"
  shows "set (all_puts sz tbl) =
    (\<Union>i<length tbl. {(numfgps_key sz i, fmt_d (numfgps (tbl ! i))), (fgpstartrank_key sz i, fmt_d (fg_startrank (tbl ! i)))})"
proof -
  have "set (publish_fg_puts sz (length tbl) i (tbl ! i)) =
      {(numfgps_key sz i, fmt_d (numfgps (tbl ! i))), (fgpstartrank_key sz i, fmt_d (fg_startrank (tbl ! i)))}"
    if "i < length tbl" for i
    using assms(1) [OF that] assms(2) by (simp add: publish_fg_puts_def fits_def snprintf_fits)
  then show ?thesis by (auto simp: all_puts_def)
qed

text \<open>
  C31: publishing the layout.  Let every HWP \<open>i\<close> of a job put its entry into the key-value space,
  and let the space hold after the barrier, under each key that was put, some value that was put
  under it.  When the strings fit in their buffers, every HWP reads the same table,
  entry by entry the one the HWPs hold themselves: no two of the keys are the same, and the decimal
  strings survive the round trip.
\<close>

theorem publish_fg_roundtrip:
  assumes "r < length tbl" "\<And>i. i < length tbl \<Longrightarrow> fits sz i (tbl ! i)" "kvs_returns (all_puts sz tbl) kvs"
  shows "publish_fg sz kvs (length tbl) r (tbl ! r) = Some tbl"
proof -
  have "kvs (numfgps_key sz i) = Some (fmt_d (numfgps (tbl ! i))) \<and>
      kvs (fgpstartrank_key sz i) = Some (fmt_d (fg_startrank (tbl ! i)))"
    if "i \<in> set [0..<length tbl]" "i \<noteq> r" for i
  proof -
    have i: "i < length tbl" and len: "1 < length tbl" using that assms(1) by auto
    note mem = all_puts_mem [OF assms(2) len]
    note apart = keys_apart [OF assms(2) [OF i] assms(2)] keys_apart(3) [OF assms(2) assms(2) [OF i]]
    show ?thesis
    proof
      show "kvs (numfgps_key sz i) = Some (fmt_d (numfgps (tbl ! i)))"
        by (rule kvs_returnsE [OF assms(3)]) (use mem i apart in auto)
      show "kvs (fgpstartrank_key sz i) = Some (fmt_d (fg_startrank (tbl ! i)))"
        by (rule kvs_returnsE [OF assms(3)]) (use mem i apart in \<open>auto dest: sym\<close>)
    qed
  qed
  then have "publish_fg_gets sz kvs r (tbl ! r) [0..<length tbl] = Some (map (\<lambda>i. tbl ! i) [0..<length tbl])"
    by (rule publish_fg_gets_map)
  then show ?thesis by (simp add: publish_fg_def map_nth)
qed

definition two_hwps :: "FGP_tuple list" where
  "two_hwps = [\<lparr>fg_startrank = 0, numfgps = 12\<rparr>, \<lparr>fg_startrank = 12, numfgps = 3\<rparr>]"

theorem publish_fg_roundtrip_witness:
  "all_puts 64 two_hwps = [(''numfgps[0]'', ''12''), (''fgpstartrank[0]'', ''0''), (''numfgps[1]'', ''3''), (''fgpstartrank[1]'', ''12'')] \<and>
   publish_fg 64 (map_of (all_puts 64 two_hwps)) 2 1 (two_hwps ! 1) = Some two_hwps"
proof -
  have puts: "all_puts 64 two_hwps =
      [(''numfgps[0]'', ''12''), (''fgpstartrank[0]'', ''0''), (''numfgps[1]'', ''3''), (''fgpstartrank[1]'', ''12'')]"
    by code_simp
  have len: "length two_hwps = 2" by (simp add: two_hwps_def)
  have fits: "fits 64 0 (two_hwps ! 0)" "fits 64 1 (two_hwps ! 1)"
    by (simp_all add: fits_def two_hwps_def fmt_d_def nat_digits.simps)
  have "publish_fg 64 (map_of (all_puts 64 two_hwps)) (length two_hwps) 1 (two_hwps ! 1) = Some two_hwps"
  proof (rule publish_fg_roundtrip)
    show "1 < length two_hwps" by (simp add: len)
  next
    fix i assume "i < length two_hwps"
    then show "fits 64 i (two_hwps ! i)" using fits by (auto simp: len less_2_cases_iff)
  next
    show "kvs_returns (all_puts 64 two_hwps) (map_of (all_puts 64 two_hwps))"
      by (rule map_of_returns)
  qed
  then show ?thesis using puts by (simp add: len)
qed

end
