(* ===== verification/Comm_Split.thy ===== *)
theory Comm_Split
  imports Rank_Map "HOL-Library.Multiset"
begin

section \<open>Ordering the processes of a split (\<^verbatim>\<open>comm_split.c\<close>)\<close>

text \<open>
  The local work of \<^verbatim>\<open>MPIR_Comm_split_impl\<close> on an intracommunicator: from the table of colors
  and keys that the all-gather delivers, a process threads a linked list through the entries of
  its own color (overwriting their color fields), copies the list into a table of keys, sorts it
  stably by key with \<^verbatim>\<open>qsort\<close> or by insertion, and finds its own new rank and the smallest world
  rank of the members, the leader.
\<close>

subsection \<open>The tables\<close>

record splittype =
  sp_color :: int
  sp_key :: int

record sorttype =
  so_color :: int
  so_key :: int
  so_orig_idx :: int

text \<open>\<^verbatim>\<open>last_ptr\<close> points at the local variable \<^verbatim>\<open>first_entry\<close> or into the color field of an entry.\<close>

datatype last_pointer = First_entry | Color_of nat

record scan =
  sc_table :: "splittype list"
  first_entry :: int
  last_ptr :: last_pointer
  new_size :: nat
  leader_wid :: int

definition store_last :: "int \<Rightarrow> scan \<Rightarrow> scan" where
  "store_last i s =
     (case last_ptr s of
        First_entry \<Rightarrow> s\<lparr>first_entry := i\<rparr>
      | Color_of j \<Rightarrow> s\<lparr>sc_table := (sc_table s)[j := (sc_table s ! j)\<lparr>sp_color := i\<rparr>]\<rparr>)"

text \<open>
  Step 2 of the routine: \<open>lookup\<close> is the rank-to-world lookup of the input communicator.
\<close>

fun split_scan :: "(int \<Rightarrow> int outcome) \<Rightarrow> int \<Rightarrow> nat list \<Rightarrow> scan \<Rightarrow> scan outcome" where
  "split_scan lookup color [] s = Inr s"
| "split_scan lookup color (i # is) s =
     (if sp_color (sc_table s ! i) = color then
        let s1 = (store_last (int i) (s\<lparr>new_size := new_size s + 1\<rparr>))\<lparr>last_ptr := Color_of i\<rparr> in
        bind_outcome (lookup (int i)) (\<lambda>worldrank.
        split_scan lookup color is
          (if leader_wid s1 = -1 \<or> leader_wid s1 > worldrank then s1\<lparr>leader_wid := worldrank\<rparr> else s1))
      else split_scan lookup color is s)"

definition scan_start :: "splittype list \<Rightarrow> scan" where
  "scan_start table = \<lparr>sc_table = table, first_entry = 0, last_ptr = First_entry, new_size = 0, leader_wid = -1\<rparr>"

text \<open>Step 4: the list of the color, copied out (\<^verbatim>\<open>orig_idx\<close> is not set yet).\<close>

fun split_keys :: "splittype list \<Rightarrow> nat \<Rightarrow> int \<Rightarrow> sorttype list outcome" where
  "split_keys table 0 first = Inr []"
| "split_keys table (Suc n) first =
     (if 0 \<le> first \<and> nat first < length table then
        bind_outcome (split_keys table n (sp_color (table ! nat first))) (\<lambda>ks.
        Inr (\<lparr>so_color = first, so_key = sp_key (table ! nat first), so_orig_idx = 0\<rparr> # ks))
      else Inl (Undefined ''table[first_entry]''))"

subsection \<open>Sorting\<close>

definition sorttype_compare :: "sorttype \<Rightarrow> sorttype \<Rightarrow> int" where
  "sorttype_compare s1 s2 =
     (if so_key s1 > so_key s2 then 1
      else if so_key s1 < so_key s2 then -1
      else if so_orig_idx s1 > so_orig_idx s2 then 1
      else if so_orig_idx s1 < so_orig_idx s2 then -1 else 0)"

text \<open>
  The C library's \<^verbatim>\<open>qsort\<close>: the elements in the order of the comparison function.  The C standard
  leaves the order of elements that compare equal open; here they come out in reverse, so that a
  stable result can only come from the comparison function.  \<open>qsort_unique\<close> below shows that for
  \<open>sorttype_compare\<close> on a table with distinct indices any other order-respecting result is the same.
\<close>

fun qsort_insert :: "('a \<Rightarrow> 'a \<Rightarrow> int) \<Rightarrow> 'a \<Rightarrow> 'a list \<Rightarrow> 'a list" where
  "qsort_insert compar x [] = [x]"
| "qsort_insert compar x (y # ys) = (if compar x y < 0 then x # y # ys else y # qsort_insert compar x ys)"

definition qsort :: "('a \<Rightarrow> 'a \<Rightarrow> int) \<Rightarrow> 'a list \<Rightarrow> 'a list" where
  "qsort compar xs = foldr (qsort_insert compar) xs []"

text \<open>
  The insertion sort: \<open>shift_in keytable tmp (j + 1)\<close> is the inner loop at index \<^verbatim>\<open>j\<close> with the
  assignment that follows it.
\<close>

fun shift_in :: "sorttype list \<Rightarrow> sorttype \<Rightarrow> nat \<Rightarrow> sorttype list" where
  "shift_in keytable tmp 0 = keytable[0 := tmp]"
| "shift_in keytable tmp (Suc j) =
     (if so_key (keytable ! j) > so_key tmp
      then shift_in (keytable[Suc j := keytable ! j]) tmp j
      else keytable[Suc j := tmp])"

definition MPIU_Sort_inttable :: "bool \<Rightarrow> sorttype list \<Rightarrow> sorttype list" where
  "MPIU_Sort_inttable use_qsort keytable =
     (if use_qsort then
        qsort sorttype_compare
          (map (\<lambda>i. (keytable ! i)\<lparr>so_orig_idx := int i\<rparr>) [0..<length keytable])
      else fold (\<lambda>i kt. shift_in kt (kt ! i) i) [1..<length keytable] keytable)"

text \<open>The loop that finds the rank of the calling process in the sorted table.\<close>

definition find_new_rank :: "sorttype list \<Rightarrow> int \<Rightarrow> int \<Rightarrow> int" where
  "find_new_rank keytable rank old =
     foldl (\<lambda>r i. if so_color (keytable ! i) = rank then int i else r) old [0..<length keytable]"

subsection \<open>The specification\<close>

text \<open>The members of a color, in rank order, and in the order of the new communicator.\<close>

definition members :: "splittype list \<Rightarrow> int \<Rightarrow> nat list" where
  "members table c = filter (\<lambda>i. sp_color (table ! i) = c) [0..<length table]"

definition split_order :: "splittype list \<Rightarrow> int \<Rightarrow> nat list" where
  "split_order table c = sort_key (\<lambda>i. sp_key (table ! i)) (members table c)"

subsection \<open>Both sorts are the stable sort by key\<close>

lemma shift_in_insert:
  "sorted (map so_key xs) \<Longrightarrow>
   shift_in (xs @ z # ys) tmp (length xs) =
     filter (\<lambda>x. so_key x \<le> so_key tmp) xs @ tmp # filter (\<lambda>x. so_key x > so_key tmp) xs @ ys"
proof (induction xs arbitrary: z ys rule: rev_induct)
  case Nil
  then show ?case by simp
next
  case (snoc x xs)
  have s: "sorted (map so_key xs)" and le: "\<forall>y\<in>set xs. so_key y \<le> so_key x"
    using snoc.prems by (auto simp: sorted_append)
  show ?case
  proof (cases "so_key x > so_key tmp")
    case True
    have "shift_in ((xs @ [x]) @ z # ys) tmp (length (xs @ [x])) = shift_in (xs @ x # x # ys) tmp (length xs)"
      using True by (simp add: nth_append list_update_append)
    then show ?thesis using True snoc.IH [OF s, of x "x # ys"] by simp
  next
    case False
    then have all: "filter (\<lambda>x. so_key x \<le> so_key tmp) xs = xs" "filter (\<lambda>x. so_key x > so_key tmp) xs = []"
      using le by (auto simp: filter_id_conv filter_empty_conv)
    show ?thesis using False all by (simp add: nth_append list_update_append not_less)
  qed
qed

lemma filter_key_le:
  "filter (\<lambda>x. c = so_key x) (filter (\<lambda>x. so_key x \<le> t) xs) = (if c \<le> t then filter (\<lambda>x. c = so_key x) xs else [])"
  "filter (\<lambda>x. c = so_key x) (filter (\<lambda>x. t < so_key x) xs) = (if c \<le> t then [] else filter (\<lambda>x. c = so_key x) xs)"
  by (induction xs) auto

lemma insertion_step:
  "sort_key so_key (us @ [tmp]) =
    filter (\<lambda>x. so_key x \<le> so_key tmp) (sort_key so_key us) @ tmp #
    filter (\<lambda>x. so_key x > so_key tmp) (sort_key so_key us)"
  (is "_ = ?r")
proof (rule properties_for_sort_key)
  show "mset ?r = mset (us @ [tmp])"
    using multiset_partition [of "mset us" "\<lambda>x. so_key x \<le> so_key tmp"] by (simp add: not_le)
next
  fix k
  have "filter (\<lambda>x. so_key k = so_key x) (sort_key so_key us) = filter (\<lambda>x. so_key k = so_key x) us"
    using sort_key_stable [of so_key "so_key k" us] by (simp add: eq_commute)
  then show "filter (\<lambda>x. so_key k = so_key x) ?r = filter (\<lambda>x. so_key k = so_key x) (us @ [tmp])"
    by (simp only: filter_append filter.simps filter_key_le) simp
next
  have "sorted (map so_key (sort_key so_key us))" by simp
  then show "sorted (map so_key ?r)"
    by (auto simp: sorted_append sorted_map_same intro: sorted_filter)
qed

lemma insertion_sort:
  "n \<le> length kt \<Longrightarrow>
   fold (\<lambda>i kt. shift_in kt (kt ! i) i) [1..<n] kt = sort_key so_key (take n kt) @ drop n kt"
proof (induction n)
  case 0
  then show ?case by simp
next
  case (Suc n)
  show ?case
  proof (cases "n = 0")
    case True
    then show ?thesis using Suc.prems by (cases kt) auto
  next
    case False
    let ?xs = "sort_key so_key (take n kt)"
    have d: "drop n kt = kt ! n # drop (Suc n) kt" and t: "take (Suc n) kt = take n kt @ [kt ! n]"
      using Suc.prems by (simp_all add: Cons_nth_drop_Suc take_Suc_conv_app_nth)
    have l: "length ?xs = n" using Suc.prems by simp
    have "fold (\<lambda>i kt. shift_in kt (kt ! i) i) [1..<Suc n] kt =
        shift_in (?xs @ kt ! n # drop (Suc n) kt) (kt ! n) (length ?xs)"
      using Suc False d l by (simp add: nth_append)
    also have "\<dots> = sort_key so_key (take n kt @ [kt ! n]) @ drop (Suc n) kt"
      unfolding insertion_step by (subst shift_in_insert) simp_all
    finally show ?thesis using t by simp
  qed
qed

lemma qsort_insert_insort:
  "(\<And>y. y \<in> set ys \<Longrightarrow> compar x y < 0 \<longleftrightarrow> (f x :: int) \<le> f y) \<Longrightarrow> qsort_insert compar x ys = insort_key f x ys"
  by (induction ys) auto

lemma qsort_sort_key:
  assumes "\<And>i j. i < j \<Longrightarrow> j < length xs \<Longrightarrow> compar (xs ! i) (xs ! j) < 0 \<longleftrightarrow> (f (xs ! i) :: int) \<le> f (xs ! j)"
  shows "qsort compar xs = sort_key f xs"
  using assms
proof (induction xs)
  case Nil
  then show ?case by (simp add: qsort_def)
next
  case (Cons x xs)
  have IH: "qsort compar xs = sort_key f xs"
  proof (rule Cons.IH)
    fix i j assume "i < j" "j < length xs"
    then show "compar (xs ! i) (xs ! j) < 0 \<longleftrightarrow> f (xs ! i) \<le> f (xs ! j)"
      using Cons.prems [of "Suc i" "Suc j"] by simp
  qed
  have "compar x y < 0 \<longleftrightarrow> f x \<le> f y" if "y \<in> set (sort_key f xs)" for y
  proof -
    have "y \<in> set xs" using that by simp
    then obtain j where "j < length xs" "xs ! j = y" unfolding in_set_conv_nth by blast
    then show ?thesis using Cons.prems [of 0 "Suc j"] by simp
  qed
  then have "qsort_insert compar x (sort_key f xs) = insort_key f x (sort_key f xs)"
    by (rule qsort_insert_insort)
  then show ?case using IH by (simp add: qsort_def)
qed

lemma sort_key_map_of:
  "sort_key f (map g xs) = map g (sort_key (\<lambda>x. f (g x)) xs)"
proof -
  have "insort_key f (g x) (map g ys) = map g (insort_key (\<lambda>x. f (g x)) x ys)" for x ys
    by (induction ys) auto
  then show ?thesis by (induction xs) auto
qed

text \<open>
  The result of \<^verbatim>\<open>qsort\<close> on a table whose indices differ does not depend on the algorithm: it is the
  only permutation of the table that respects the comparison function.
\<close>

lemma sorttype_compare_le:
  "sorttype_compare a b \<le> 0 \<longleftrightarrow> so_key a < so_key b \<or> so_key a = so_key b \<and> so_orig_idx a \<le> so_orig_idx b"
  by (simp add: sorttype_compare_def)

lemma qsort_unique:
  assumes "distinct (map so_orig_idx xs)" "mset ys = mset xs" "sorted_wrt (\<lambda>a b. sorttype_compare a b \<le> 0) ys"
    "mset zs = mset xs" "sorted_wrt (\<lambda>a b. sorttype_compare a b \<le> 0) zs"
  shows "zs = ys"
proof -
  have "inj_on so_orig_idx (set xs)" using assms(1) by (simp add: distinct_map)
  moreover have "set ys = set xs" by (rule mset_eq_setD [OF assms(2)])
  ultimately have inj: "inj_on so_orig_idx (set ys)" by simp
  have "mset zs = mset ys" using assms(2,4) by simp
  with assms(3,5) inj show ?thesis
  proof (induction ys arbitrary: zs)
    case Nil
    then show ?case by simp
  next
    case (Cons y ys)
    obtain z zs' where zs: "zs = z # zs'" using Cons.prems(4) by (cases zs) auto
    have mem: "z \<in> set (y # ys)" "y \<in> set zs" using mset_eq_setD [OF Cons.prems(4)] zs by auto
    have "z = y"
    proof (rule ccontr)
      assume "z \<noteq> y"
      then have "sorttype_compare y z \<le> 0" "sorttype_compare z y \<le> 0"
        using mem zs Cons.prems(1,2) by auto
      then have "so_orig_idx z = so_orig_idx y" by (auto simp: sorttype_compare_le)
      then show False using Cons.prems(3) mem(1) \<open>z \<noteq> y\<close> by (meson inj_onD list.set_intros(1))
    qed
    then show ?case using Cons.IH [of zs'] Cons.prems zs by (auto simp: inj_on_def)
  qed
qed

lemma sort_inttable_colors:
  "map so_color (MPIU_Sort_inttable q kt) = map so_color (sort_key so_key kt)"
proof (cases q)
  case True
  let ?g = "\<lambda>i. (kt ! i)\<lparr>so_orig_idx := int i\<rparr>"
  have "qsort sorttype_compare (map ?g [0..<length kt]) = sort_key so_key (map ?g [0..<length kt])"
    by (rule qsort_sort_key) (auto simp: sorttype_compare_def)
  also have "map so_color \<dots> = map (\<lambda>i. so_color (kt ! i)) (sort_key (\<lambda>i. so_key (kt ! i)) [0..<length kt])"
    by (simp add: sort_key_map_of comp_def)
  also have "\<dots> = map so_color (sort_key so_key (map (\<lambda>i. kt ! i) [0..<length kt]))"
    by (simp only: sort_key_map_of map_map comp_def)
  finally show ?thesis using True by (simp add: MPIU_Sort_inttable_def map_nth)
next
  case False
  then show ?thesis by (simp add: MPIU_Sort_inttable_def insertion_sort del: One_nat_def)
qed

lemma sort_inttable_length [simp]: "length (MPIU_Sort_inttable q kt) = length kt"
proof -
  have "length (map so_color (MPIU_Sort_inttable q kt)) = length kt"
    by (simp only: sort_inttable_colors length_map length_sort)
  then show ?thesis by simp
qed

subsection \<open>The list threaded through the table\<close>

definition members_to :: "splittype list \<Rightarrow> int \<Rightarrow> nat \<Rightarrow> nat list" where
  "members_to table c k = filter (\<lambda>i. sp_color (table ! i) = c) [0..<k]"

definition scan_inv :: "splittype list \<Rightarrow> int \<Rightarrow> (nat \<Rightarrow> int) \<Rightarrow> nat \<Rightarrow> scan \<Rightarrow> bool" where
  "scan_inv table c W k s \<longleftrightarrow>
     (let ms = members_to table c k in
      length (sc_table s) = length table \<and>
      (\<forall>i<length table. sp_key (sc_table s ! i) = sp_key (table ! i)) \<and>
      (\<forall>i<length table. i \<notin> set (butlast ms) \<longrightarrow> sc_table s ! i = table ! i) \<and>
      links (\<lambda>i. sp_color (sc_table s ! nat i)) (map int ms) c \<and>
      (if ms = [] then last_ptr s = First_entry
       else last_ptr s = Color_of (last ms) \<and> first_entry s = int (hd ms)) \<and>
      new_size s = length ms \<and> leader_wid s = foldl leader_step (-1) (map W ms))"

lemma members_to_Suc:
  "members_to table c (Suc k) = members_to table c k @ (if sp_color (table ! k) = c then [k] else [])"
  by (simp add: members_to_def)

lemma members_to_bound: "i \<in> set (members_to table c k) \<Longrightarrow> i < k \<and> sp_color (table ! i) = c"
  by (simp add: members_to_def)

lemma members_to_distinct: "distinct (members_to table c k)"
  by (simp add: members_to_def)

lemma members_to_all: "members_to table c (length table) = members table c"
  by (simp add: members_to_def members_def)

definition link_entry :: "(nat \<Rightarrow> int) \<Rightarrow> nat \<Rightarrow> scan \<Rightarrow> scan" where
  "link_entry W i s =
     (let s1 = (store_last (int i) (s\<lparr>new_size := new_size s + 1\<rparr>))\<lparr>last_ptr := Color_of i\<rparr> in
      s1\<lparr>leader_wid := leader_step (leader_wid s1) (W i)\<rparr>)"

lemma scan_inv_skip:
  "scan_inv table c W k s \<Longrightarrow> sp_color (table ! k) \<noteq> c \<Longrightarrow> scan_inv table c W (Suc k) s"
  by (simp add: scan_inv_def members_to_Suc)

lemma scan_inv_link_first:
  assumes "scan_inv table c W k s" "sp_color (table ! k) = c" "k < length table" "members_to table c k = []"
  shows "scan_inv table c W (Suc k) (link_entry W k s)"
  using assms by (simp add: scan_inv_def members_to_Suc link_entry_def store_last_def Let_def)

lemma scan_inv_link_next:
  assumes "scan_inv table c W k s" "sp_color (table ! k) = c" "k < length table" "members_to table c k \<noteq> []"
  shows "scan_inv table c W (Suc k) (link_entry W k s)"
proof -
  let ?ms = "members_to table c k"
  obtain us u where ms: "?ms = us @ [u]" using assms(4) by (cases ?ms rule: rev_cases) auto
  have u: "u < k" and us: "\<forall>i\<in>set us. i < k" using members_to_bound [of _ table c k] by (auto simp: ms)
  have dist: "u \<notin> set us" using members_to_distinct [of table c k] by (simp add: ms)
  define T where "T = (sc_table s)[u := (sc_table s ! u)\<lparr>sp_color := int k\<rparr>]"
  have T: "sc_table (link_entry W k s) = T" "first_entry (link_entry W k s) = first_entry s"
    "last_ptr (link_entry W k s) = Color_of k" "new_size (link_entry W k s) = new_size s + 1"
    "leader_wid (link_entry W k s) = leader_step (leader_wid s) (W k)"
    using assms(1) by (simp_all add: link_entry_def store_last_def scan_inv_def Let_def ms T_def)
  have len: "length (sc_table s) = length table" using assms(1) by (simp add: scan_inv_def Let_def)
  have nx: "sp_color (T ! nat i) = (if i = int u then int k else sp_color (sc_table s ! nat i))" if "0 \<le> i" for i
    using that u assms(3) len by (auto simp: T_def nth_list_update)
  have "links (\<lambda>i. sp_color (sc_table s ! nat i)) (map int us @ [int u]) c"
    using assms(1) by (simp add: scan_inv_def Let_def ms)
  then have "links (\<lambda>i. sp_color (sc_table s ! nat i)) (map int us) (int u)"
    by (simp add: links_snoc)
  moreover have "sp_color (T ! nat i) = sp_color (sc_table s ! nat i)" if "i \<in> set (map int us)" for i
    using that nx [of i] dist by auto
  ultimately have "links (\<lambda>i. sp_color (T ! nat i)) (map int us) (int u)"
    using links_cong [of "map int us" "\<lambda>i. sp_color (T ! nat i)" "\<lambda>i. sp_color (sc_table s ! nat i)" "int u"] by blast
  moreover have "sp_color (T ! u) = int k" using nx [of "int u"] by simp
  moreover have "sp_color (T ! k) = c"
    using nx [of "int k"] u us assms by (auto simp: scan_inv_def Let_def ms)
  ultimately have L: "links (\<lambda>i. sp_color (T ! nat i)) (map int ?ms @ [int k]) c"
    by (simp add: ms links_append)
  show ?thesis
    unfolding scan_inv_def Let_def
  proof (intro conjI)
    show "links (\<lambda>i. sp_color (sc_table (link_entry W k s) ! nat i)) (map int (members_to table c (Suc k))) c"
      using L assms(2) by (simp add: T members_to_Suc)
    show "\<forall>i<length table. i \<notin> set (butlast (members_to table c (Suc k))) \<longrightarrow>
        sc_table (link_entry W k s) ! i = table ! i"
      using assms(1,2) by (auto simp: T members_to_Suc ms T_def scan_inv_def Let_def butlast_append)
    show "\<forall>i<length table. sp_key (sc_table (link_entry W k s) ! i) = sp_key (table ! i)"
      using assms(1,3) u len by (simp add: T T_def scan_inv_def Let_def nth_list_update)
  qed (use assms(1,2) in \<open>simp_all add: T members_to_Suc ms T_def scan_inv_def Let_def hd_append\<close>)
qed

lemma split_scan_inv:
  assumes "\<And>i. i < length table \<Longrightarrow> lookup (int i) = Inr (W i)"
  shows "scan_inv table c W k s \<Longrightarrow> k \<le> length table \<Longrightarrow>
    \<exists>r. split_scan lookup c [k..<length table] s = Inr r \<and> scan_inv table c W (length table) r"
proof (induction "length table - k" arbitrary: k s)
  case 0
  then show ?case by simp
next
  case (Suc d)
  have k: "k < length table" using Suc.hyps(2) by simp
  have d: "d = length table - Suc k" using Suc.hyps(2) by simp
  have up: "[k..<length table] = k # [Suc k..<length table]" using k by (simp add: upt_conv_Cons)
  have nb: "k \<notin> set (butlast (members_to table c k))"
    using members_to_bound [of k table c k] by (meson in_set_butlastD less_irrefl)
  have tab: "sc_table s ! k = table ! k"
    using Suc.prems(1) k nb by (simp add: scan_inv_def Let_def)
  show ?case
  proof (cases "sp_color (table ! k) = c")
    case True
    have "split_scan lookup c [k..<length table] s = split_scan lookup c [Suc k..<length table] (link_entry W k s)"
      using True tab assms [OF k] by (simp add: up link_entry_def Let_def leader_step_def)
    moreover have "scan_inv table c W (Suc k) (link_entry W k s)"
      using scan_inv_link_first [OF Suc.prems(1) True k] scan_inv_link_next [OF Suc.prems(1) True k] by blast
    ultimately show ?thesis using Suc.hyps(1) [OF d] k by simp
  next
    case False
    have "split_scan lookup c [k..<length table] s = split_scan lookup c [Suc k..<length table] s"
      using False tab by (simp add: up)
    then show ?thesis using Suc.hyps(1) [OF d scan_inv_skip [OF Suc.prems(1) False]] k by simp
  qed
qed

lemma split_keys_links:
  assumes "\<forall>i\<in>set ms. i < length T"
  shows "links (\<lambda>i. sp_color (T ! nat i)) (map int ms) e \<Longrightarrow> ms \<noteq> [] \<Longrightarrow>
    split_keys T (length ms) (int (hd ms)) =
      Inr (map (\<lambda>i. \<lparr>so_color = int i, so_key = sp_key (T ! i), so_orig_idx = 0\<rparr>) ms)"
  using assms
proof (induction ms)
  case Nil
  then show ?case by simp
next
  case (Cons m ms)
  show ?case
  proof (cases ms)
    case Nil
    then show ?thesis using Cons.prems by simp
  next
    case (Cons m' ms')
    have "links (\<lambda>i. sp_color (T ! nat i)) (map int ms) e" "sp_color (T ! m) = int m'"
      using Cons.prems(1) Cons by simp_all
    then show ?thesis using Cons.IH Cons.prems Cons by simp
  qed
qed

lemma split_local_order:
  assumes "\<And>i. i < length table \<Longrightarrow> lookup (int i) = Inr (W i)"
  shows "\<exists>r. split_scan lookup c [0..<length table] (scan_start table) = Inr r \<and>
    new_size r = length (members table c) \<and> leader_wid r = foldl leader_step (-1) (map W (members table c)) \<and>
    (members table c \<noteq> [] \<longrightarrow> split_keys (sc_table r) (new_size r) (first_entry r) =
       Inr (map (\<lambda>i. \<lparr>so_color = int i, so_key = sp_key (table ! i), so_orig_idx = 0\<rparr>) (members table c)))"
proof -
  have "scan_inv table c W 0 (scan_start table)"
    by (simp add: scan_inv_def scan_start_def members_to_def)
  then obtain r where r: "split_scan lookup c [0..<length table] (scan_start table) = Inr r"
      "scan_inv table c W (length table) r"
    using split_scan_inv [where lookup = lookup, OF assms] by blast
  let ?ms = "members table c"
  have ms: "\<forall>i\<in>set ?ms. i < length (sc_table r)"
    using r(2) by (simp add: scan_inv_def Let_def members_def)
  have len: "length (sc_table r) = length table" using r(2) by (simp add: scan_inv_def Let_def)
  have "split_keys (sc_table r) (new_size r) (first_entry r) =
       Inr (map (\<lambda>i. \<lparr>so_color = int i, so_key = sp_key (table ! i), so_orig_idx = 0\<rparr>) ?ms)" if "?ms \<noteq> []"
    using split_keys_links [OF ms, of c] r(2) that len ms by (simp add: scan_inv_def Let_def members_to_all)
  then show ?thesis using r by (simp add: scan_inv_def Let_def members_to_all)
qed

subsection \<open>The new rank\<close>

lemma find_new_rank_index:
  assumes "distinct (map so_color kt)" "j < length kt" "so_color (kt ! j) = rank"
  shows "find_new_rank kt rank old = int j"
proof -
  let ?f = "\<lambda>r i. if so_color (kt ! i) = rank then int i else r"
  have other: "so_color (kt ! i) \<noteq> rank" if "i < length kt" "i \<noteq> j" for i
    using assms that by (metis length_map nth_eq_iff_index_eq nth_map)
  have skip: "foldl ?f r is = r" if "\<forall>i\<in>set is. i < length kt \<and> i \<noteq> j" for r "is"
    using that other by (induction "is" arbitrary: r) auto
  have "[0..<length kt] = [0..<j] @ j # [Suc j..<length kt]"
    using assms(2) by (metis less_imp_add_positive upt_add_eq_append upt_conv_Cons le0 less_imp_le_nat)
  then show ?thesis using assms(3) skip by (simp add: find_new_rank_def)
qed

lemma members_mem: "i \<in> set (members table c) \<longleftrightarrow> i < length table \<and> sp_color (table ! i) = c"
  by (auto simp: members_def)

lemma split_order_mem: "set (split_order table c) = set (members table c)"
  by (simp add: split_order_def)

lemma split_order_distinct: "distinct (split_order table c)"
  by (simp add: split_order_def members_def)

lemma split_order_length: "length (split_order table c) = length (members table c)"
  by (simp add: split_order_def)

lemma split_keytable:
  "map so_color (MPIU_Sort_inttable q (map (\<lambda>i. \<lparr>so_color = int i, so_key = sp_key (table ! i), so_orig_idx = 0\<rparr>) (members table c)))
   = map int (split_order table c)"
  unfolding sort_inttable_colors by (simp add: sort_key_map_of split_order_def comp_def)

text \<open>
  The local work put together, as far as the rank in the new communicator goes: the scan of the
  table for the color, the key table, its sort and the search for the own rank.
\<close>

definition split_newrank :: "(int \<Rightarrow> int outcome) \<Rightarrow> bool \<Rightarrow> splittype list \<Rightarrow> int \<Rightarrow> int \<Rightarrow> int \<Rightarrow> int outcome" where
  "split_newrank lookup use_qsort table color rank old =
     bind_outcome (split_scan lookup color [0..<length table] (scan_start table)) (\<lambda>r.
     bind_outcome (split_keys (sc_table r) (new_size r) (first_entry r)) (\<lambda>keys.
     Inr (find_new_rank (MPIU_Sort_inttable use_qsort keys) rank old)))"

lemma split_newrank_order:
  assumes "\<And>i. i < length table \<Longrightarrow> lookup (int i) = Inr (W i)"
    and j: "j < length (split_order table color)" "int (split_order table color ! j) = rank"
  shows "split_newrank lookup q table color rank old = Inr (int j)"
proof -
  obtain r where r: "split_scan lookup color [0..<length table] (scan_start table) = Inr r"
      "members table color \<noteq> [] \<longrightarrow> split_keys (sc_table r) (new_size r) (first_entry r) =
         Inr (map (\<lambda>i. \<lparr>so_color = int i, so_key = sp_key (table ! i), so_orig_idx = 0\<rparr>) (members table color))"
    using split_local_order [of table lookup W color, OF assms(1)] by blast
  have ne: "members table color \<noteq> []" using j(1) split_order_length [of table color] by auto
  define kt where "kt = MPIU_Sort_inttable q (map (\<lambda>i. \<lparr>so_color = int i, so_key = sp_key (table ! i), so_orig_idx = 0\<rparr>) (members table color))"
  have kt: "map so_color kt = map int (split_order table color)" unfolding kt_def by (rule split_keytable)
  have jl: "j < length kt" using j(1) split_order_length [of table color] by (simp add: kt_def)
  have "so_color (kt ! j) = map so_color kt ! j" by (rule nth_map [OF jl, symmetric])
  then have "so_color (kt ! j) = rank" unfolding kt using j by simp
  moreover have "distinct (map so_color kt)" using kt split_order_distinct by (simp add: distinct_map)
  ultimately have "find_new_rank kt rank old = int j" using jl by (intro find_new_rank_index)
  then show ?thesis using r ne by (simp add: split_newrank_def kt_def)
qed

end
