(* ===== verification/Comm_Share.thy ===== *)
theory Comm_Share
  imports Comm_Split
begin

section \<open>Shared state of co-located processes (\<^verbatim>\<open>comm_split.c\<close>, \<^verbatim>\<open>commutil.c\<close>, \<^verbatim>\<open>comm_free.c\<close>)\<close>

text \<open>
  The coroutines of one operating-system process that belong to the same communicator share its
  rank-to-world map and barrier variables.  The first of them to reach the end of
  \<^verbatim>\<open>MPIR_Comm_split_impl\<close> or \<^verbatim>\<open>MPIR_Comm_copy_share\<close> builds the shared variables and enters them
  in \<^verbatim>\<open>contextLeader_hshtbl\<close> under the context id and the leader; the others find them there and
  raise two reference counts: one within the communicator, and one across the communicators that
  share the map (\<^verbatim>\<open>MPI_Comm_dup\<close> hands the map of its argument on).  \<^verbatim>\<open>MPIR_Comm_free_impl\<close> lowers
  both and frees the map and the variables with the last reference.

  The counters, shared variables, barrier variables and maps are blocks of an explicit store, so
  that an access to a freed block is an \<open>Undefined\<close> fault.  Intracommunicators only; the result of
  the all-gather and of the context-id allocation are arguments of the routines.

  The split is modelled up to its call of \<^verbatim>\<open>MPIR_Comm_commit\<close> (\<^verbatim>\<open>comm_split.c\<close>, line 449), the copy
  up to its call of \<^verbatim>\<open>MPIR_Comm_share_commit\<close> or \<^verbatim>\<open>MPIR_Comm_commit\<close> (\<^verbatim>\<open>commutil.c\<close>, lines 1139 to
  1146), the free up to its call of \<^verbatim>\<open>MPIR_Comm_release\<close> (\<^verbatim>\<open>comm_free.c\<close>, line 71).  These calls
  create and release the communicators nested in the new one, which have shared blocks and maps of
  their own; they are not modelled, apart from the computation of the nested maps in theory
  \<open>Comm_Nested\<close>.
\<close>

subsection \<open>State\<close>

record coproclet_barrier_vars =
  coproclet_signal :: int
  leader_signal :: int
  coproclet_counter :: int

record coproclet_shared =
  ref_withinComm_countptr :: addr
  ref_acrossComm_countptr :: addr
  cs_rtw_map :: addr
  ptn_hash :: addr
  nested_local_size :: int
  nested_external_size :: int
  nested_fg_local_size :: int
  co_barrier_vars :: addr

record comm =
  cm_context_id :: int
  leader_worldrank :: int
  co_shared_vars :: addr
  cm_rank :: int
  cm_local_size :: int
  cm_p_rank :: int
  num_osprocs :: int

text \<open>One operating-system process; an empty array in \<open>rtw_maps\<close> is a block that is not allocated.\<close>

record hwp = fg_ranks +
  counters :: "addr \<rightharpoonup> int"
  shareds :: "addr \<rightharpoonup> coproclet_shared"
  barriers :: "addr \<rightharpoonup> coproclet_barrier_vars"
  contextLeader_hshtbl :: "cLitem hshtbl"
  brk :: addr

definition get_shared :: "addr \<Rightarrow> hwp \<Rightarrow> coproclet_shared outcome" where
  "get_shared a s = (case shareds s a of None \<Rightarrow> Inl (Undefined ''co_shared_vars'') | Some x \<Rightarrow> Inr x)"

definition get_counter :: "addr \<Rightarrow> hwp \<Rightarrow> int outcome" where
  "get_counter a s = (case counters s a of None \<Rightarrow> Inl (Undefined ''countptr'') | Some n \<Rightarrow> Inr n)"

subsection \<open>Reference counts\<close>

definition bump_counter :: "addr \<Rightarrow> int \<Rightarrow> hwp \<Rightarrow> (int \<times> hwp) outcome" where
  "bump_counter a d s =
     bind_outcome (get_counter a s) (\<lambda>n. Inr (n + d, s\<lparr>counters := (counters s)(a \<mapsto> n + d)\<rparr>))"

definition MPIR_Comm_add_coshared_withinComm_ref :: "addr \<Rightarrow> hwp \<Rightarrow> hwp outcome" where
  "MPIR_Comm_add_coshared_withinComm_ref a s =
     bind_outcome (get_shared a s) (\<lambda>x.
     bind_outcome (bump_counter (ref_withinComm_countptr x) 1 s) (\<lambda>(n, s'). Inr s'))"

definition MPIR_Comm_add_coshared_acrossComm_ref :: "addr \<Rightarrow> hwp \<Rightarrow> hwp outcome" where
  "MPIR_Comm_add_coshared_acrossComm_ref a s =
     bind_outcome (get_shared a s) (\<lambda>x.
     bind_outcome (bump_counter (ref_acrossComm_countptr x) 1 s) (\<lambda>(n, s'). Inr s'))"

definition MPIR_Comm_add_coshared_all_ref :: "addr \<Rightarrow> hwp \<Rightarrow> hwp outcome" where
  "MPIR_Comm_add_coshared_all_ref a s =
     bind_outcome (MPIR_Comm_add_coshared_withinComm_ref a s) (MPIR_Comm_add_coshared_acrossComm_ref a)"

definition MPIR_Comm_release_coshared_all_ref :: "addr \<Rightarrow> hwp \<Rightarrow> (int \<times> int \<times> hwp) outcome" where
  "MPIR_Comm_release_coshared_all_ref a s =
     bind_outcome (get_shared a s) (\<lambda>x.
     bind_outcome (bump_counter (ref_withinComm_countptr x) (- 1) s) (\<lambda>(w, s1).
     bind_outcome (bump_counter (ref_acrossComm_countptr x) (- 1) s1) (\<lambda>(ac, s2). Inr (w, ac, s2))))"

definition alloc_counter :: "hwp \<Rightarrow> addr \<times> hwp" where
  "alloc_counter s = (brk s, s\<lparr>counters := (counters s)(brk s \<mapsto> 1), brk := brk s + 1\<rparr>)"

definition MPIR_Comm_init_coshared_withinComm_ref :: "addr \<Rightarrow> hwp \<Rightarrow> hwp outcome" where
  "MPIR_Comm_init_coshared_withinComm_ref a s =
     bind_outcome (get_shared a s) (\<lambda>x.
     let (c, s1) = alloc_counter s in
     Inr (s1\<lparr>shareds := (shareds s1)(a \<mapsto> x\<lparr>ref_withinComm_countptr := c\<rparr>)\<rparr>))"

definition MPIR_Comm_init_coshared_acrossComm_ref :: "addr \<Rightarrow> hwp \<Rightarrow> hwp outcome" where
  "MPIR_Comm_init_coshared_acrossComm_ref a s =
     bind_outcome (get_shared a s) (\<lambda>x.
     let (c, s1) = alloc_counter s in
     Inr (s1\<lparr>shareds := (shareds s1)(a \<mapsto> x\<lparr>ref_acrossComm_countptr := c\<rparr>)\<rparr>))"

definition MPIR_Comm_init_coshared_all_ref :: "addr \<Rightarrow> hwp \<Rightarrow> hwp outcome" where
  "MPIR_Comm_init_coshared_all_ref a s =
     bind_outcome (MPIR_Comm_init_coshared_withinComm_ref a s) (MPIR_Comm_init_coshared_acrossComm_ref a)"

subsection \<open>Building the shared variables\<close>

text \<open>
  Which of the four checked allocations of the split and of the copy succeed: the structure, the
  rank-to-world array (\<^verbatim>\<open>RTWarrayCreate\<close> ends the program without memory), the block of ranks to be
  inserted in it, and the barrier variables.  The reference counters are allocated without a check
  of their own; that they are allocated is assumed.
\<close>

record memory =
  mem_shared :: bool
  mem_map :: bool
  mem_block :: bool
  mem_barrier :: bool

definition memory_left :: memory where
  "memory_left = \<lparr>mem_shared = True, mem_map = True, mem_block = True, mem_barrier = True\<rparr>"

lemma memory_left_simps [simp]:
  "mem_shared memory_left" "mem_map memory_left" "mem_block memory_left" "mem_barrier memory_left"
  by (simp_all add: memory_left_def)

text \<open>\<^verbatim>\<open>MPIU_Calloc\<close> of the structure.\<close>

definition calloc_shared :: "bool \<Rightarrow> hwp \<Rightarrow> (addr \<times> hwp) option" where
  "calloc_shared calloc_ok s =
     (if calloc_ok then
        Some (brk s, s\<lparr>shareds := (shareds s)(brk s \<mapsto>
           \<lparr>ref_withinComm_countptr = NULL, ref_acrossComm_countptr = NULL, cs_rtw_map = NULL, ptn_hash = NULL,
            nested_local_size = 0, nested_external_size = 0, nested_fg_local_size = 0, co_barrier_vars = NULL\<rparr>),
          brk := brk s + 1\<rparr>)
      else None)"

definition set_shared :: "addr \<Rightarrow> (coproclet_shared \<Rightarrow> coproclet_shared) \<Rightarrow> hwp \<Rightarrow> hwp outcome" where
  "set_shared a f s = bind_outcome (get_shared a s) (\<lambda>x. Inr (s\<lparr>shareds := (shareds s)(a \<mapsto> f x)\<rparr>))"

text \<open>The map of the new ranks: \<open>keys\<close> are the ranks in the communicator whose map is \<open>from\<close>.\<close>

fun world_ranks :: "hwp \<Rightarrow> addr \<Rightarrow> int list \<Rightarrow> int list outcome" where
  "world_ranks s from [] = Inr []"
| "world_ranks s from (k # ks) =
     bind_outcome (RTWPmapFind (fg_ranks.truncate s) from k False) (\<lambda>(w, _).
     bind_outcome (world_ranks s from ks) (\<lambda>ws. Inr (w # ws)))"

definition create_rtwmap :: "(nat \<Rightarrow> int) \<Rightarrow> addr \<Rightarrow> nat \<Rightarrow> hwp \<Rightarrow> hwp outcome" where
  "create_rtwmap junk a n s =
     (let m = brk s in
      set_shared a (\<lambda>x. x\<lparr>cs_rtw_map := m\<rparr>) (s\<lparr>rtw_maps := (rtw_maps s)(m := RTWarrayCreate junk n), brk := m + 1\<rparr>))"

definition build_rtwmap :: "(nat \<Rightarrow> int) \<Rightarrow> addr \<Rightarrow> addr \<Rightarrow> int list \<Rightarrow> hwp \<Rightarrow> hwp outcome" where
  "build_rtwmap junk a from keys s =
     bind_outcome (create_rtwmap junk a (length keys) s) (\<lambda>s2.
     bind_outcome (world_ranks s2 from keys) (\<lambda>rtw_blockinsert.
     bind_outcome (RTWarrayBlockInsert (rtw_maps s2 (brk s)) (length keys) rtw_blockinsert) (\<lambda>arr.
     Inr (s2\<lparr>rtw_maps := (rtw_maps s2)(brk s := arr)\<rparr>))))"

definition init_barrier_vars :: "addr \<Rightarrow> hwp \<Rightarrow> hwp outcome" where
  "init_barrier_vars a s =
     (let b = brk s;
          s1 = s\<lparr>barriers := (barriers s)(b \<mapsto> \<lparr>coproclet_signal = 0, leader_signal = 0, coproclet_counter = 0\<rparr>),
                 brk := b + 1\<rparr> in
      set_shared a (\<lambda>x. x\<lparr>co_barrier_vars := b\<rparr>) s1)"

subsection \<open>Split, copy and free\<close>

text \<open>An MPI error code is \<open>Inl\<close> with the name of its message.\<close>

type_synonym 'a mpi_result = "string + 'a"

definition find_entry :: "int \<Rightarrow> int \<Rightarrow> hwp \<Rightarrow> (cLitem option \<times> hwp) outcome" where
  "find_entry cid leader s =
     bind_outcome (CL_LookupHashFind (contextLeader_hshtbl s) cid leader) (\<lambda>(stored, h).
     Inr (stored, s\<lparr>contextLeader_hshtbl := h\<rparr>))"

definition insert_entry :: "(nat \<Rightarrow> bool) \<Rightarrow> int \<Rightarrow> int \<Rightarrow> addr \<Rightarrow> hwp \<Rightarrow> (cLitem option \<times> hwp) outcome" where
  "insert_entry ok cid leader a s =
     bind_outcome (CL_LookupHashInsert ok (contextLeader_hshtbl s) cid leader a) (\<lambda>(stored, h).
     Inr (stored, s\<lparr>contextLeader_hshtbl := h\<rparr>))"

definition MPIR_Comm_set_sizevars :: "comm \<Rightarrow> int \<Rightarrow> comm \<Rightarrow> comm" where
  "MPIR_Comm_set_sizevars comm_ptr new_totprocs newcomm =
     newcomm\<lparr>cm_p_rank := cm_p_rank comm_ptr, num_osprocs := num_osprocs comm_ptr, cm_local_size := new_totprocs\<rparr>"

text \<open>
  The end of \<^verbatim>\<open>MPIR_Comm_split_impl\<close>: join the shared variables of the new communicator or
  create them.  \<open>order\<close> holds the ranks of the members in the communicator whose map is \<open>from\<close>.
\<close>

definition split_share ::
  "(nat \<Rightarrow> bool) \<Rightarrow> memory \<Rightarrow> (nat \<Rightarrow> int) \<Rightarrow> addr \<Rightarrow> int list \<Rightarrow> comm \<Rightarrow> hwp \<Rightarrow> (comm mpi_result \<times> hwp) outcome" where
  "split_share ok mem junk from order newcomm s =
     bind_outcome (find_entry (cm_context_id newcomm) (leader_worldrank newcomm) s) (\<lambda>(stored, s1).
     case stored of
       Some x \<Rightarrow>
         bind_outcome (MPIR_Comm_add_coshared_all_ref (coproclet_shared_vars x) s1) (\<lambda>s2.
         Inr (Inr (newcomm\<lparr>co_shared_vars := coproclet_shared_vars x\<rparr>), s2))
     | None \<Rightarrow>
         (case calloc_shared (mem_shared mem) s1 of
            None \<Rightarrow> Inr (Inl ''**nomem'', s1)
          | Some (a, s2) \<Rightarrow>
              if \<not> mem_map mem then Inl (Exit_called ''RTWarrayCreate'')
              else if \<not> mem_block mem then
                bind_outcome (create_rtwmap junk a (length order) s2) (\<lambda>s3. Inr (Inl ''**nomem'', s3))
              else
              bind_outcome (build_rtwmap junk a from order s2) (\<lambda>s3.
              bind_outcome (MPIR_Comm_init_coshared_all_ref a s3) (\<lambda>s4.
              if \<not> mem_barrier mem then Inr (Inl ''**nomem'', s4)
              else
              bind_outcome (init_barrier_vars a s4) (\<lambda>s5.
              bind_outcome (insert_entry ok (cm_context_id newcomm) (leader_worldrank newcomm) a s5) (\<lambda>(stored', s6).
              case stored' of
                None \<Rightarrow> Inr (Inl ''**hshinsertfail'', s6)
              | Some _ \<Rightarrow> Inr (Inr (newcomm\<lparr>co_shared_vars := a\<rparr>), s6)))))))"

text \<open>
  \<^verbatim>\<open>MPIR_Comm_split_impl\<close> after the all-gather (\<open>table\<close>) and the context-id allocation
  (\<open>new_context_id\<close>), up to the call of \<^verbatim>\<open>MPIR_Comm_commit\<close>.  The temporary tables and the object
  of the new communicator are taken as allocated.
\<close>

definition MPIR_Comm_split_impl ::
  "bool \<Rightarrow> (nat \<Rightarrow> bool) \<Rightarrow> memory \<Rightarrow> (nat \<Rightarrow> int) \<Rightarrow> splittype list \<Rightarrow> int \<Rightarrow> comm \<Rightarrow> int \<Rightarrow> hwp \<Rightarrow>
   (comm option mpi_result \<times> hwp) outcome" where
  "MPIR_Comm_split_impl use_qsort ok mem junk table new_context_id comm_ptr color s =
     bind_outcome (get_shared (co_shared_vars comm_ptr) s) (\<lambda>parent.
     bind_outcome
       (if color \<noteq> MPI_UNDEFINED then
          split_scan (\<lambda>k. bind_outcome (RTWPmapFind (fg_ranks.truncate s) (cs_rtw_map parent) k False) (\<lambda>(w, _). Inr w))
            color [0..<length table] (scan_start table)
        else Inr (scan_start table)) (\<lambda>r.
     bind_outcome (check (new_context_id \<noteq> 0) ''new_context_id != 0'') (\<lambda>_.
     if color \<noteq> MPI_UNDEFINED \<and> new_size r > 0 then
       bind_outcome (split_keys (sc_table r) (new_size r) (first_entry r)) (\<lambda>keys.
       let keytable = MPIU_Sort_inttable use_qsort keys;
           newcomm = MPIR_Comm_set_sizevars comm_ptr (int (new_size r))
             \<lparr>cm_context_id = new_context_id, leader_worldrank = leader_wid r, co_shared_vars = NULL,
              cm_rank = find_new_rank keytable (cm_rank comm_ptr) (junk 0),
              cm_local_size = int (new_size r), cm_p_rank = -1, num_osprocs = -1\<rparr> in
       bind_outcome
         (split_share ok mem junk (cs_rtw_map parent) (map so_color keytable) newcomm s) (\<lambda>(res, s').
       case res of Inl e \<Rightarrow> Inr (Inl e, s') | Inr c \<Rightarrow> Inr (Inr (Some c), s')))
     else Inr (Inr None, s))))"

text \<open>The routines behind \<^verbatim>\<open>MPI_Comm_dup\<close> and the topology constructors.\<close>

definition RTWmapFindLeader :: "addr \<Rightarrow> nat \<Rightarrow> hwp \<Rightarrow> int outcome" where
  "RTWmapFindLeader m n s =
     (if m = worldcomm_rtw_map s then Inr 0 else RTWarrayFindLeader (rtw_maps s m) n)"

definition MPIR_Comm_copy_share ::
  "(nat \<Rightarrow> bool) \<Rightarrow> memory \<Rightarrow> (nat \<Rightarrow> int) \<Rightarrow> comm \<Rightarrow> comm \<Rightarrow> hwp \<Rightarrow> (comm mpi_result \<times> hwp) outcome" where
  "MPIR_Comm_copy_share ok mem junk comm_ptr newcomm s =
     bind_outcome (check (leader_worldrank newcomm \<ge> 0) ''leader_worldrank >= 0'') (\<lambda>_.
     bind_outcome (find_entry (cm_context_id newcomm) (leader_worldrank newcomm) s) (\<lambda>(stored, s1).
     case stored of
       Some x \<Rightarrow>
         bind_outcome (MPIR_Comm_add_coshared_all_ref (coproclet_shared_vars x) s1) (\<lambda>s2.
         Inr (Inr (newcomm\<lparr>co_shared_vars := coproclet_shared_vars x\<rparr>), s2))
     | None \<Rightarrow>
         (case calloc_shared (mem_shared mem) s1 of
            None \<Rightarrow> Inr (Inl ''**nomem'', s1)
          | Some (a, s2) \<Rightarrow>
              bind_outcome (get_shared (co_shared_vars comm_ptr) s2) (\<lambda>parent.
              if cm_local_size newcomm \<noteq> cm_local_size comm_ptr \<and> \<not> mem_map mem then Inl (Exit_called ''RTWarrayCreate'')
              else if cm_local_size newcomm \<noteq> cm_local_size comm_ptr \<and> \<not> mem_block mem then
                bind_outcome (create_rtwmap junk a (nat (cm_local_size newcomm)) s2) (\<lambda>s3. Inr (Inl ''**nomem'', s3))
              else
              bind_outcome
                (if cm_local_size newcomm = cm_local_size comm_ptr
                 then set_shared a (\<lambda>x. x\<lparr>cs_rtw_map := cs_rtw_map parent\<rparr>) s2
                 else build_rtwmap junk a (cs_rtw_map parent) (map int [0..<nat (cm_local_size newcomm)]) s2) (\<lambda>s3.
              if \<not> mem_barrier mem then Inr (Inl ''**nomem'', s3)
              else
              bind_outcome (init_barrier_vars a s3) (\<lambda>s4.
              bind_outcome
                (set_shared a (\<lambda>x. x\<lparr>ptn_hash := ptn_hash parent, nested_local_size := nested_local_size parent,
                   nested_external_size := nested_external_size parent,
                   nested_fg_local_size := nested_fg_local_size parent\<rparr>) s4) (\<lambda>s5.
              bind_outcome
                (if cm_local_size newcomm = cm_local_size comm_ptr then
                   bind_outcome (find_entry (cm_context_id comm_ptr) (leader_worldrank comm_ptr) s5) (\<lambda>(st, s6).
                   case st of
                     None \<Rightarrow> Inl (Assert_failed ''stored != NULL'')
                   | Some y \<Rightarrow>
                       bind_outcome (get_shared (coproclet_shared_vars y) s6) (\<lambda>p.
                       bind_outcome (set_shared a (\<lambda>x. x\<lparr>ref_acrossComm_countptr := ref_acrossComm_countptr p\<rparr>) s6) (\<lambda>s7.
                       bind_outcome (MPIR_Comm_add_coshared_acrossComm_ref a s7)
                         (MPIR_Comm_init_coshared_withinComm_ref a))))
                 else MPIR_Comm_init_coshared_all_ref a s5) (\<lambda>s8.
              bind_outcome (insert_entry ok (cm_context_id newcomm) (leader_worldrank newcomm) a s8) (\<lambda>(stored', s9).
              case stored' of
                None \<Rightarrow> Inr (Inl ''**hshinsertfail'', s9)
              | Some _ \<Rightarrow> Inr (Inr (newcomm\<lparr>co_shared_vars := a\<rparr>), s9)))))))))) "

text \<open>
  \<^verbatim>\<open>MPIR_Comm_copy\<close> on an intracommunicator, after the context-id allocation and up to the commit.
  A process outside the copy also returns the new context id to the mask (\<^verbatim>\<open>MPIR_Free_contextid\<close>,
  theory \<open>Context_Id\<close>), which is not part of this state.
\<close>

definition MPIR_Comm_copy ::
  "(nat \<Rightarrow> bool) \<Rightarrow> memory \<Rightarrow> (nat \<Rightarrow> int) \<Rightarrow> int \<Rightarrow> comm \<Rightarrow> int \<Rightarrow> hwp \<Rightarrow>
   (comm option mpi_result \<times> hwp) outcome" where
  "MPIR_Comm_copy ok mem junk new_context_id comm_ptr size_arg s =
     bind_outcome (check (new_context_id \<noteq> 0) ''new_context_id != 0'') (\<lambda>_.
     if cm_rank comm_ptr \<ge> size_arg then Inr (Inr None, s)
     else
       bind_outcome (get_shared (co_shared_vars comm_ptr) s) (\<lambda>parent.
       bind_outcome
         (if size_arg = cm_local_size comm_ptr then Inr (leader_worldrank comm_ptr)
          else RTWmapFindLeader (cs_rtw_map parent) (nat size_arg) s) (\<lambda>leader.
       bind_outcome (check (leader \<ge> 0) ''leader_worldrank >= 0'') (\<lambda>_.
       bind_outcome
         (MPIR_Comm_copy_share ok mem junk comm_ptr
            (MPIR_Comm_set_sizevars comm_ptr size_arg
              \<lparr>cm_context_id = new_context_id, leader_worldrank = leader, co_shared_vars = NULL,
               cm_rank = cm_rank comm_ptr, cm_local_size = size_arg, cm_p_rank = -1, num_osprocs = -1\<rparr>) s)
         (\<lambda>(res, s'). case res of Inl e \<Rightarrow> Inr (Inl e, s') | Inr c \<Rightarrow> Inr (Inr (Some c), s'))))))"

text \<open>Freeing blocks; a second free of a block is undefined.\<close>

definition free_counter :: "addr \<Rightarrow> hwp \<Rightarrow> hwp outcome" where
  "free_counter a s = bind_outcome (get_counter a s) (\<lambda>_. Inr (s\<lparr>counters := (counters s)(a := None)\<rparr>))"

definition RTWmapKill :: "addr \<Rightarrow> hwp \<Rightarrow> hwp outcome" where
  "RTWmapKill a s =
     bind_outcome (get_shared a s) (\<lambda>x.
     if cs_rtw_map x \<noteq> NULL \<and> rtw_maps s (cs_rtw_map x) = [] then Inl (Undefined ''free(rtw_map)'')
     else Inr (s\<lparr>rtw_maps := (rtw_maps s)(cs_rtw_map x := []),
                shareds := (shareds s)(a \<mapsto> x\<lparr>cs_rtw_map := NULL\<rparr>)\<rparr>))"

definition free_shared :: "addr \<Rightarrow> hwp \<Rightarrow> hwp outcome" where
  "free_shared a s =
     bind_outcome (get_shared a s) (\<lambda>x.
     bind_outcome (free_counter (ref_withinComm_countptr x) s) (\<lambda>s1.
     bind_outcome
       (if co_barrier_vars x \<noteq> NULL then
          (if barriers s1 (co_barrier_vars x) = None then Inl (Undefined ''free(co_barrier_vars)'')
           else Inr (s1\<lparr>barriers := (barriers s1)(co_barrier_vars x := None)\<rparr>))
        else Inr s1) (\<lambda>s2.
     Inr (s2\<lparr>shareds := (shareds s2)(a := None)\<rparr>))))"

text \<open>
  \<^verbatim>\<open>MPIR_Comm_free_impl\<close> up to the call of \<^verbatim>\<open>MPIR_Comm_release\<close>, which frees the communicator
  object and releases the nested communicators.
\<close>

definition MPIR_Comm_free_impl :: "comm \<Rightarrow> hwp \<Rightarrow> hwp outcome" where
  "MPIR_Comm_free_impl comm_ptr s =
     bind_outcome (check (co_shared_vars comm_ptr \<noteq> NULL) ''co_shared_vars != NULL'') (\<lambda>_.
     bind_outcome (MPIR_Comm_release_coshared_all_ref (co_shared_vars comm_ptr) s) (\<lambda>(w, ac, s1).
     bind_outcome (get_shared (co_shared_vars comm_ptr) s1) (\<lambda>x.
     bind_outcome
       (if cs_rtw_map x = worldcomm_rtw_map s1 then check (ac \<ge> 1) ''coshared_inuse_acrossComm >= 1'' else Inr ()) (\<lambda>_.
     bind_outcome (check (w \<ge> 0 \<and> ac \<ge> 0) ''inuse >= 0'') (\<lambda>_.
     bind_outcome
       (if ac = 0 then
          bind_outcome (check (w = 0) ''!coshared_inuse_withinComm'') (\<lambda>_.
          bind_outcome (free_counter (ref_acrossComm_countptr x) s1) (RTWmapKill (co_shared_vars comm_ptr)))
        else Inr s1) (\<lambda>s2.
     if w = 0 then
       bind_outcome (free_shared (co_shared_vars comm_ptr) s2) (\<lambda>s3.
       bind_outcome (find_entry (cm_context_id comm_ptr) (leader_worldrank comm_ptr) s3) (\<lambda>(stored, s4).
       case stored of
         None \<Rightarrow> Inl (Assert_failed ''stored != NULL'')
       | Some y \<Rightarrow>
           bind_outcome (CL_DeleteHashEntry (contextLeader_hshtbl s4) y) (\<lambda>h.
           bind_outcome (find_entry (cm_context_id comm_ptr) (leader_worldrank comm_ptr)
             (s4\<lparr>contextLeader_hshtbl := h\<rparr>)) (\<lambda>(stored', s5).
           bind_outcome (check (stored' = None) ''stored == NULL'') (\<lambda>_. Inr s5)))))
     else Inr s2))))))"

subsection \<open>Start-up\<close>

text \<open>
  The part of \<^verbatim>\<open>MPID_Init\<close> that sets up the shared variables of the predefined communicators:
  \<^verbatim>\<open>MPI_COMM_WORLD\<close>, \<^verbatim>\<open>MPI_COMM_SELF\<close> and the internal copy of the world all use one block.
\<close>

definition predefined_ids :: "int list" where
  "predefined_ids = [0, 16, 32]"

fun insert_predefined :: "(nat \<Rightarrow> bool) \<Rightarrow> addr \<Rightarrow> int list \<Rightarrow> hwp \<Rightarrow> hwp outcome" where
  "insert_predefined ok a [] s = Inr s"
| "insert_predefined ok a (cid # cids) s =
     bind_outcome (insert_entry ok cid 0 a s) (\<lambda>(stored, s1).
     bind_outcome (check (stored \<noteq> None) ''cLstored'') (\<lambda>_. insert_predefined ok a cids s1))"

definition MPID_Init_share :: "(nat \<Rightarrow> bool) \<Rightarrow> FGP_tuple list \<Rightarrow> int \<Rightarrow> hwp outcome" where
  "MPID_Init_share ok pids totprocs =
     (case CL_LookupHashCreate ok of
        None \<Rightarrow> Inl (Assert_failed ''contextLeader_hshtbl != NULL'')
      | Some h \<Rightarrow>
          (case calloc_shared True
             \<lparr>pid_size = int (length pids), pid_to_fgps = pids, worldcomm_rtw_map = NULL, rtw_maps = (\<lambda>_. []),
              counters = Map.empty, shareds = Map.empty, barriers = Map.empty, contextLeader_hshtbl = h, brk = 1\<rparr> of
             None \<Rightarrow> Inl (Undefined ''world_co_shared_vars'')
           | Some (a, s1) \<Rightarrow>
               bind_outcome (MPIR_Comm_init_coshared_all_ref a s1) (\<lambda>s2.
               let m = brk s2;
                   s3 = s2\<lparr>rtw_maps := (rtw_maps s2)(m := RTWarrayWorldCreate totprocs), worldcomm_rtw_map := m,
                          brk := m + 1\<rparr> in
               bind_outcome (set_shared a (\<lambda>x. x\<lparr>cs_rtw_map := m, ptn_hash := NULL\<rparr>) s3) (\<lambda>s4.
               bind_outcome (init_barrier_vars a s4) (insert_predefined ok a predefined_ids)))))"

subsection \<open>What the routines do to the store\<close>

lemma get_shared_Inr [simp]: "shareds s a = Some x \<Longrightarrow> get_shared a s = Inr x"
  by (simp add: get_shared_def)

lemma get_counter_Inr [simp]: "counters s a = Some n \<Longrightarrow> get_counter a s = Inr n"
  by (simp add: get_counter_def)

lemma bump_counter_Inr:
  "counters s a = Some n \<Longrightarrow> bump_counter a d s = Inr (n + d, s\<lparr>counters := (counters s)(a \<mapsto> n + d)\<rparr>)"
  by (simp add: bump_counter_def)

lemma set_shared_Inr:
  "shareds s a = Some x \<Longrightarrow> set_shared a f s = Inr (s\<lparr>shareds := (shareds s)(a \<mapsto> f x)\<rparr>)"
  by (simp add: set_shared_def)

lemma add_all_ref_Inr:
  assumes "shareds s a = Some x" "counters s (ref_withinComm_countptr x) = Some n"
    "counters s (ref_acrossComm_countptr x) = Some m" "ref_withinComm_countptr x \<noteq> ref_acrossComm_countptr x"
  shows "MPIR_Comm_add_coshared_all_ref a s =
    Inr (s\<lparr>counters := (counters s)(ref_withinComm_countptr x \<mapsto> n + 1, ref_acrossComm_countptr x \<mapsto> m + 1)\<rparr>)"
  using assms by (simp add: MPIR_Comm_add_coshared_all_ref_def MPIR_Comm_add_coshared_withinComm_ref_def
      MPIR_Comm_add_coshared_acrossComm_ref_def bump_counter_Inr)

lemma release_all_ref_Inr:
  assumes "shareds s a = Some x" "counters s (ref_withinComm_countptr x) = Some n"
    "counters s (ref_acrossComm_countptr x) = Some m" "ref_withinComm_countptr x \<noteq> ref_acrossComm_countptr x"
  shows "MPIR_Comm_release_coshared_all_ref a s =
    Inr (n - 1, m - 1,
      s\<lparr>counters := (counters s)(ref_withinComm_countptr x \<mapsto> n - 1, ref_acrossComm_countptr x \<mapsto> m - 1)\<rparr>)"
  using assms by (simp add: MPIR_Comm_release_coshared_all_ref_def bump_counter_Inr)

lemma init_all_ref_Inr:
  assumes "shareds s a = Some x"
  shows "MPIR_Comm_init_coshared_all_ref a s =
    Inr (s\<lparr>counters := (counters s)(brk s \<mapsto> 1, brk s + 1 \<mapsto> 1),
      shareds := (shareds s)(a \<mapsto> x\<lparr>ref_withinComm_countptr := brk s, ref_acrossComm_countptr := brk s + 1\<rparr>),
      brk := brk s + 2\<rparr>)"
  using assms by (simp add: MPIR_Comm_init_coshared_all_ref_def MPIR_Comm_init_coshared_withinComm_ref_def
      MPIR_Comm_init_coshared_acrossComm_ref_def alloc_counter_def)

lemma init_barrier_vars_Inr:
  assumes "shareds s a = Some x"
  shows "init_barrier_vars a s =
    Inr (s\<lparr>barriers := (barriers s)(brk s \<mapsto> \<lparr>coproclet_signal = 0, leader_signal = 0, coproclet_counter = 0\<rparr>),
      shareds := (shareds s)(a \<mapsto> x\<lparr>co_barrier_vars := brk s\<rparr>), brk := brk s + 1\<rparr>)"
  using assms by (simp add: init_barrier_vars_def set_shared_Inr Let_def)

lemma find_entry_Inr:
  assumes "cl_rep (contextLeader_hshtbl s) M"
  shows "\<exists>h. find_entry c l s = Inr (M (c, l), s\<lparr>contextLeader_hshtbl := h\<rparr>) \<and> cl_rep h M"
  using CL_LookupHashFind_map [OF assms, of c l] by (auto simp: find_entry_def)

lemma insert_entry_Inr:
  assumes "cl_rep (contextLeader_hshtbl s) M" "\<forall>k \<in> set table_sizes. ok k" "card (dom M) \<le> HSH_CAPACITY" "M (c, l) = None"
  shows "\<exists>h. insert_entry ok c l a s =
      Inr (Some \<lparr>context_id = c, LeaderWorldRank = l, coproclet_shared_vars = a\<rparr>, s\<lparr>contextLeader_hshtbl := h\<rparr>) \<and>
    cl_rep h (M((c, l) \<mapsto> \<lparr>context_id = c, LeaderWorldRank = l, coproclet_shared_vars = a\<rparr>))"
  using cl.rep_insert [OF assms(1-3), of "\<lparr>context_id = c, LeaderWorldRank = l, coproclet_shared_vars = a\<rparr>"] assms(4)
  by (auto simp: insert_entry_def CL_LookupHashInsert_def)

lemma world_ranks_Inr:
  assumes "\<And>k. k \<in> set keys \<Longrightarrow> RTWPmapFind (fg_ranks.truncate s) from k False = Inr (f k, None)"
  shows "world_ranks s from keys = Inr (map f keys)"
  using assms by (induction keys) auto

text \<open>The world ranks of a communicator, from its map and its size.\<close>

definition map_ranks :: "hwp \<Rightarrow> addr \<Rightarrow> int \<Rightarrow> int list" where
  "map_ranks s m n = (if m = worldcomm_rtw_map s then map int [0..<nat n] else take (nat n) (rtw_maps s m))"

definition map_ok :: "hwp \<Rightarrow> addr \<Rightarrow> int \<Rightarrow> bool" where
  "map_ok s m n \<longleftrightarrow> 0 < n \<and> (m = worldcomm_rtw_map s \<or>
     length (rtw_maps s m) = nat n + 1 \<and> (\<forall>w\<in>set (take (nat n) (rtw_maps s m)). 0 \<le> w))"

lemma map_ranks_length: "map_ok s m n \<Longrightarrow> length (map_ranks s m n) = nat n"
  by (auto simp: map_ok_def map_ranks_def)

lemma map_ranks_nonneg: "map_ok s m n \<Longrightarrow> w \<in> set (map_ranks s m n) \<Longrightarrow> 0 \<le> w"
  by (auto simp: map_ok_def map_ranks_def split: if_splits)

lemma RTWPmapFind_map:
  assumes "map_ok s m n" "0 \<le> k" "k < n"
  shows "RTWPmapFind (fg_ranks.truncate s) m k False = Inr (map_ranks s m n ! nat k, None)"
proof (cases "m = worldcomm_rtw_map s")
  case True
  then show ?thesis using assms by (simp add: RTWPmapFind_def fg_ranks.truncate_def map_ranks_def)
next
  case False
  have "nat k < length (take (nat n) (rtw_maps s m))" using False assms by (auto simp: map_ok_def)
  then have "0 \<le> rtw_maps s m ! nat k"
    using False assms by (metis map_ok_def nth_mem nth_take length_take min_less_iff_conj)
  then show ?thesis using False assms
    by (simp add: RTWPmapFind_def fg_ranks.truncate_def map_ranks_def RTWarrayFind_def map_ok_def)
qed

lemma build_rtwmap_Inr:
  assumes "shareds s a = Some x" "map_ok s from n" "\<forall>k\<in>set keys. 0 \<le> k \<and> k < n" "from \<noteq> brk s"
    "worldcomm_rtw_map s \<noteq> brk s"
  shows "build_rtwmap junk a from keys s =
    Inr (s\<lparr>rtw_maps := (rtw_maps s)(brk s := map (\<lambda>k. map_ranks s from n ! nat k) keys @ [-2]),
      shareds := (shareds s)(a \<mapsto> x\<lparr>cs_rtw_map := brk s\<rparr>), brk := brk s + 1\<rparr>)"
proof -
  define s2 where "s2 = s\<lparr>rtw_maps := (rtw_maps s)(brk s := RTWarrayCreate junk (length keys)), brk := brk s + 1,
      shareds := (shareds s)(a \<mapsto> x\<lparr>cs_rtw_map := brk s\<rparr>)\<rparr>"
  have m: "map_ok s2 from n" "map_ranks s2 from n = map_ranks s from n"
    using assms by (simp_all add: s2_def map_ok_def map_ranks_def)
  have "world_ranks s2 from keys = Inr (map (\<lambda>k. map_ranks s from n ! nat k) keys)"
    using RTWPmapFind_map [OF m(1)] assms(3) m(2) by (intro world_ranks_Inr) auto
  then show ?thesis using assms(1)
    by (simp add: build_rtwmap_def create_rtwmap_def Let_def set_shared_Inr s2_def RTWarrayBlockInsert_def RTWarrayCreate_def)
qed

end
