(* ===== verification/Comm_Refs.thy ===== *)
theory Comm_Refs
  imports Comm_Share
begin

section \<open>Reference counts of the shared state\<close>

text \<open>
  The invariant of the shared variables of one operating-system process, against the list of the
  communicator handles its coroutines hold, and that creating, duplicating and freeing
  communicators keep it.
\<close>

abbreviation world_shared :: addr where
  "world_shared \<equiv> 1"

definition predefined_keys :: "(int \<times> int) set" where
  "predefined_keys = (\<lambda>i. (i, 0)) ` set predefined_ids"

definition comm_key :: "comm \<Rightarrow> int \<times> int" where
  "comm_key c = (cm_context_id c, leader_worldrank c)"

type_synonym shared_store = "addr \<rightharpoonup> coproclet_shared"

definition within_count :: "comm list \<Rightarrow> addr \<Rightarrow> int" where
  "within_count cs a = int (length (filter (\<lambda>c. co_shared_vars c = a) cs)) + (if a = world_shared then 1 else 0)"

definition across_of :: "shared_store \<Rightarrow> addr \<Rightarrow> addr" where
  "across_of sh a = ref_acrossComm_countptr (the (sh a))"

definition across_count :: "shared_store \<Rightarrow> comm list \<Rightarrow> addr \<Rightarrow> int" where
  "across_count sh cs p =
     int (length (filter (\<lambda>c. across_of sh (co_shared_vars c) = p) cs)) + (if across_of sh world_shared = p then 1 else 0)"

definition handles_ok :: "shared_store \<Rightarrow> (int \<times> int \<rightharpoonup> cLitem) \<Rightarrow> comm list \<Rightarrow> bool" where
  "handles_ok sh M cs \<longleftrightarrow> (\<forall>c\<in>set cs. co_shared_vars c \<noteq> world_shared \<and> sh (co_shared_vars c) \<noteq> None \<and>
     comm_key c \<notin> predefined_keys \<and> map_option coproclet_shared_vars (M (comm_key c)) = Some (co_shared_vars c))"

definition entries_ok :: "(int \<times> int \<rightharpoonup> cLitem) \<Rightarrow> comm list \<Rightarrow> bool" where
  "entries_ok M cs \<longleftrightarrow> dom M = predefined_keys \<union> comm_key ` set cs \<and>
     (\<forall>k\<in>predefined_keys. map_option coproclet_shared_vars (M k) = Some world_shared)"

definition keys_ok :: "comm list \<Rightarrow> bool" where
  "keys_ok cs \<longleftrightarrow> (\<forall>c\<in>set cs. \<forall>d\<in>set cs. co_shared_vars c = co_shared_vars d \<longrightarrow> comm_key c = comm_key d)"

definition live_ok :: "shared_store \<Rightarrow> comm list \<Rightarrow> bool" where
  "live_ok sh cs \<longleftrightarrow> dom sh = insert world_shared (co_shared_vars ` set cs)"

definition refs_ok :: "(addr \<rightharpoonup> int) \<Rightarrow> shared_store \<Rightarrow> comm list \<Rightarrow> bool" where
  "refs_ok ct sh cs \<longleftrightarrow> (\<forall>a x. sh a = Some x \<longrightarrow>
     ct (ref_withinComm_countptr x) = Some (within_count cs a) \<and>
     ct (ref_acrossComm_countptr x) = Some (across_count sh cs (ref_acrossComm_countptr x)))"

definition blocks_ok :: "(addr \<Rightarrow> int list) \<Rightarrow> (addr \<rightharpoonup> coproclet_barrier_vars) \<Rightarrow> shared_store \<Rightarrow> bool" where
  "blocks_ok maps bar sh \<longleftrightarrow> (\<forall>a x. sh a = Some x \<longrightarrow>
     maps (cs_rtw_map x) \<noteq> [] \<and> cs_rtw_map x \<noteq> NULL \<and> bar (co_barrier_vars x) \<noteq> None \<and> co_barrier_vars x \<noteq> NULL)"

definition apart :: "shared_store \<Rightarrow> bool" where
  "apart sh \<longleftrightarrow> (\<forall>a b x y. sh a = Some x \<longrightarrow> sh b = Some y \<longrightarrow>
     ref_withinComm_countptr x \<noteq> ref_acrossComm_countptr y \<and>
     (a \<noteq> b \<longrightarrow> ref_withinComm_countptr x \<noteq> ref_withinComm_countptr y \<and> co_barrier_vars x \<noteq> co_barrier_vars y) \<and>
     (ref_acrossComm_countptr x = ref_acrossComm_countptr y \<longleftrightarrow> cs_rtw_map x = cs_rtw_map y))"

definition no_garbage ::
  "(addr \<rightharpoonup> int) \<Rightarrow> (addr \<Rightarrow> int list) \<Rightarrow> (addr \<rightharpoonup> coproclet_barrier_vars) \<Rightarrow> shared_store \<Rightarrow> bool" where
  "no_garbage ct maps bar sh \<longleftrightarrow>
     (\<forall>p. ct p \<noteq> None \<longrightarrow> (\<exists>a x. sh a = Some x \<and> (p = ref_withinComm_countptr x \<or> p = ref_acrossComm_countptr x))) \<and>
     (\<forall>p. maps p \<noteq> [] \<longrightarrow> (\<exists>a x. sh a = Some x \<and> p = cs_rtw_map x)) \<and>
     (\<forall>p. bar p \<noteq> None \<longrightarrow> (\<exists>a x. sh a = Some x \<and> p = co_barrier_vars x))"

definition fresh_above :: "hwp \<Rightarrow> bool" where
  "fresh_above s \<longleftrightarrow> 1 < brk s \<and> (\<forall>p. p = NULL \<or> brk s \<le> p \<longrightarrow>
     counters s p = None \<and> shareds s p = None \<and> barriers s p = None \<and> rtw_maps s p = [])"

definition sizes_ok :: "hwp \<Rightarrow> comm list \<Rightarrow> bool" where
  "sizes_ok s cs \<longleftrightarrow> map_option cs_rtw_map (shareds s world_shared) = Some (worldcomm_rtw_map s) \<and>
     (\<forall>c\<in>set cs. map_ok s (cs_rtw_map (the (shareds s (co_shared_vars c)))) (cm_local_size c))"

definition share_inv :: "hwp \<Rightarrow> (int \<times> int \<rightharpoonup> cLitem) \<Rightarrow> comm list \<Rightarrow> bool" where
  "share_inv s M cs \<longleftrightarrow> cl_rep (contextLeader_hshtbl s) M \<and> handles_ok (shareds s) M cs \<and> entries_ok M cs \<and>
     keys_ok cs \<and> live_ok (shareds s) cs \<and> refs_ok (counters s) (shareds s) cs \<and>
     blocks_ok (rtw_maps s) (barriers s) (shareds s) \<and> apart (shareds s) \<and>
     no_garbage (counters s) (rtw_maps s) (barriers s) (shareds s) \<and> fresh_above s \<and> sizes_ok s cs"

lemmas share_parts = handles_ok_def entries_ok_def keys_ok_def live_ok_def refs_ok_def blocks_ok_def apart_def
  no_garbage_def fresh_above_def sizes_ok_def

lemma share_inv_hash:
  "share_inv s M cs \<Longrightarrow> cl_rep h M \<Longrightarrow> share_inv (s\<lparr>contextLeader_hshtbl := h\<rparr>) M cs"
  by (simp add: share_inv_def sizes_ok_def fresh_above_def map_ok_def)

lemma within_count_Cons:
  "within_count (c # cs) a = within_count cs a + (if co_shared_vars c = a then 1 else 0)"
  by (simp add: within_count_def)

lemma across_count_Cons:
  "across_count sh (c # cs) p = across_count sh cs p + (if across_of sh (co_shared_vars c) = p then 1 else 0)"
  by (simp add: across_count_def)

lemma fresh_above_counters:
  assumes "fresh_above s" "counters s p \<noteq> None" "counters s q \<noteq> None"
  shows "fresh_above (s\<lparr>counters := (counters s)(p \<mapsto> n, q \<mapsto> m)\<rparr>)"
proof -
  have "counters s r = None \<Longrightarrow> r \<noteq> p \<and> r \<noteq> q" for r using assms by auto
  then show ?thesis using assms(1) by (simp add: fresh_above_def)
qed

subsection \<open>Joining a communicator\<close>

lemma inv_join:
  assumes inv: "share_inv s M cs" and x: "shareds s a = Some x" and a: "a \<noteq> world_shared" "co_shared_vars c = a"
    and k: "comm_key c \<notin> predefined_keys" "map_option coproclet_shared_vars (M (comm_key c)) = Some a"
    and sz: "map_ok s (cs_rtw_map x) (cm_local_size c)"
  shows "share_inv (s\<lparr>counters := (counters s)
      (ref_withinComm_countptr x \<mapsto> within_count cs a + 1,
       ref_acrossComm_countptr x \<mapsto> across_count (shareds s) cs (ref_acrossComm_countptr x) + 1)\<rparr>) M (c # cs)"
    (is "share_inv ?s M ?cs")
proof -
  note parts = inv [unfolded share_inv_def]
  have ap: "apart (shareds s)" using parts by simp
  have "refs_ok (counters ?s) (shareds ?s) ?cs"
    unfolding refs_ok_def
  proof (intro allI impI conjI)
    fix b y assume y: "shareds ?s b = Some y"
    have r: "counters s (ref_withinComm_countptr y) = Some (within_count cs b)"
      "counters s (ref_acrossComm_countptr y) = Some (across_count (shareds s) cs (ref_acrossComm_countptr y))"
      using parts y by (simp_all add: refs_ok_def)
    have d: "ref_withinComm_countptr y \<noteq> ref_acrossComm_countptr x" "ref_withinComm_countptr x \<noteq> ref_acrossComm_countptr y"
      "ref_withinComm_countptr y = ref_withinComm_countptr x \<longleftrightarrow> a = b"
      using ap x y unfolding apart_def by auto
    show "counters ?s (ref_withinComm_countptr y) = Some (within_count ?cs b)"
      using r d a by (auto simp: within_count_Cons)
    show "counters ?s (ref_acrossComm_countptr y) = Some (across_count (shareds ?s) ?cs (ref_acrossComm_countptr y))"
      using r d a x by (auto simp: across_count_Cons across_of_def)
  qed
  moreover have "handles_ok (shareds ?s) M ?cs" using parts x a k by (simp add: handles_ok_def)
  moreover have "entries_ok M ?cs" using parts k by (auto simp: entries_ok_def)
  moreover have "keys_ok ?cs"
  proof -
    have "comm_key d = comm_key c" if "d \<in> set cs" "co_shared_vars d = a" for d
    proof -
      have "comm_key c \<in> dom M" using k(2) by auto
      then obtain e where e: "e \<in> set cs" "comm_key e = comm_key c" using parts k(1) by (auto simp: entries_ok_def)
      then have "co_shared_vars e = a" using parts k(2) unfolding handles_ok_def by (metis option.inject)
      then show ?thesis using parts that e unfolding keys_ok_def by metis
    qed
    moreover have "keys_ok cs" using parts by blast
    ultimately show ?thesis using a(2) unfolding keys_ok_def by (metis set_ConsD)
  qed
  moreover have "live_ok (shareds ?s) ?cs" using parts x a by (auto simp: live_ok_def)
  moreover have "no_garbage (counters ?s) (rtw_maps ?s) (barriers ?s) (shareds ?s)"
    using parts x by (auto simp: no_garbage_def)
  moreover have "fresh_above ?s"
  proof -
    have w: "counters s (ref_withinComm_countptr x) = Some (within_count cs a)"
      and ac: "counters s (ref_acrossComm_countptr x) = Some (across_count (shareds s) cs (ref_acrossComm_countptr x))"
      using parts x by (simp_all add: refs_ok_def)
    have fa: "fresh_above s" using parts by blast
    show ?thesis using fresh_above_counters [OF fa] w ac by blast
  qed
  moreover have "sizes_ok ?s ?cs" using parts sz a x by (simp add: sizes_ok_def map_ok_def)
  ultimately show ?thesis using parts by (simp add: share_inv_def)
qed

subsection \<open>Creating a communicator\<close>

lemma inv_new:
  assumes inv: "share_inv s M cs"
    and s': "shareds s' = (shareds s)(a \<mapsto> x)"
      "counters s' = (counters s)(ref_withinComm_countptr x \<mapsto> 1,
         ref_acrossComm_countptr x \<mapsto> across_count (shareds s) cs (ref_acrossComm_countptr x) + 1)"
      "barriers s' = (barriers s)(co_barrier_vars x \<mapsto> v)" "worldcomm_rtw_map s' = worldcomm_rtw_map s"
      "cl_rep (contextLeader_hshtbl s') (M(comm_key c \<mapsto> i))"
    and fresh: "brk s \<le> a" "brk s \<le> ref_withinComm_countptr x" "brk s \<le> co_barrier_vars x"
      "ref_withinComm_countptr x \<noteq> ref_acrossComm_countptr x"
      "a < brk s'" "ref_withinComm_countptr x < brk s'" "co_barrier_vars x < brk s'" "brk s \<le> brk s'"
      "0 < ref_acrossComm_countptr x" "ref_acrossComm_countptr x < brk s'" "cs_rtw_map x < brk s'"
    and link: "\<And>p y. shareds s p = Some y \<Longrightarrow> (ref_acrossComm_countptr y = ref_acrossComm_countptr x \<longleftrightarrow> cs_rtw_map y = cs_rtw_map x) \<and>
        ref_withinComm_countptr y \<noteq> ref_acrossComm_countptr x"
    and maps: "rtw_maps s' (cs_rtw_map x) \<noteq> []" "cs_rtw_map x \<noteq> NULL" "\<And>p. p < brk s \<Longrightarrow> rtw_maps s' p = rtw_maps s p"
      "\<And>p. rtw_maps s' p \<noteq> [] \<Longrightarrow> rtw_maps s p \<noteq> [] \<or> p = cs_rtw_map x"
    and k: "comm_key c \<notin> predefined_keys" "M (comm_key c) = None" "coproclet_shared_vars i = a" "co_shared_vars c = a"
    and sz: "map_ok s' (cs_rtw_map x) (cm_local_size c)"
  shows "share_inv s' (M(comm_key c \<mapsto> i)) (c # cs)"
proof -
  note parts = inv [unfolded share_inv_def]
  have fa: "fresh_above s" and bl: "blocks_ok (rtw_maps s) (barriers s) (shareds s)" using parts by blast+
  have br: "1 < brk s" using parts by (simp add: fresh_above_def)
  have none: "shareds s a = None" using parts fresh by (simp add: fresh_above_def)
  have old: "p < brk s" if "counters s p \<noteq> None \<or> shareds s p \<noteq> None \<or> barriers s p \<noteq> None \<or> rtw_maps s p \<noteq> []" for p
    using parts that unfolding fresh_above_def by (meson not_le)
  have hne: "co_shared_vars d \<noteq> a \<and> comm_key d \<noteq> comm_key c" if "d \<in> set cs" for d
    using parts that none k unfolding handles_ok_def by force
  have wn: "world_shared \<noteq> a" using br fresh(1) by simp
  have acr: "across_count (shareds s') cs p = across_count (shareds s) cs p" for p
    unfolding across_count_def across_of_def s' using hne wn by (simp cong: filter_cong)
  have yold: "ref_withinComm_countptr y < brk s" "ref_acrossComm_countptr y < brk s" "co_barrier_vars y < brk s" "cs_rtw_map y < brk s"
    if "shareds s p = Some y" for p y
    using parts that old unfolding refs_ok_def blocks_ok_def by (metis option.distinct(1))+
  have "refs_ok (counters s') (shareds s') (c # cs)"
    unfolding refs_ok_def
  proof (intro allI impI conjI)
    fix b y assume y: "shareds s' b = Some y"
    show "counters s' (ref_withinComm_countptr y) = Some (within_count (c # cs) b)"
    proof (cases "b = a")
      case True
      have "within_count cs a = 0" using hne wn by (simp add: within_count_def filter_empty_conv)
      then show ?thesis using True y s' k fresh(4) by (simp add: within_count_Cons)
    next
      case False
      then show ?thesis
        using y s' k parts yold [of b y] fresh link [of b y] by (simp add: within_count_Cons refs_ok_def)
    qed
    show "counters s' (ref_acrossComm_countptr y) = Some (across_count (shareds s') (c # cs) (ref_acrossComm_countptr y))"
    proof (cases "b = a")
      case True
      then show ?thesis using y s' k acr fresh(4) by (simp add: across_count_Cons across_of_def)
    next
      case False
      then show ?thesis
        using y s' k parts yold [of b y] fresh acr by (auto simp: across_count_Cons across_of_def refs_ok_def)
    qed
  qed
  moreover have "handles_ok (shareds s') (M(comm_key c \<mapsto> i)) (c # cs)"
    using parts k s' hne wn by (auto simp: handles_ok_def)
  moreover have "entries_ok (M(comm_key c \<mapsto> i)) (c # cs)"
    using parts k by (auto simp: entries_ok_def)
  moreover have "keys_ok (c # cs)"
  proof -
    have "keys_ok cs" using parts by blast
    then show ?thesis using hne k(4) unfolding keys_ok_def by (metis set_ConsD)
  qed
  moreover have "live_ok (shareds s') (c # cs)" using parts s' k by (auto simp: live_ok_def)
  moreover have "blocks_ok (rtw_maps s') (barriers s') (shareds s')"
    unfolding blocks_ok_def
  proof (intro allI impI)
    fix b y assume y: "shareds s' b = Some y"
    show "rtw_maps s' (cs_rtw_map y) \<noteq> [] \<and> cs_rtw_map y \<noteq> NULL \<and> barriers s' (co_barrier_vars y) \<noteq> None \<and> co_barrier_vars y \<noteq> NULL"
    proof (cases "b = a")
      case True
      then show ?thesis using y s' maps(1,2) fresh(3) br by simp
    next
      case False
      then have "shareds s b = Some y" using y s' by simp
      then show ?thesis using bl yold [of b y] maps(3) s' unfolding blocks_ok_def by simp
    qed
  qed
  moreover have "apart (shareds s')"
    unfolding apart_def
  proof (intro allI impI)
    fix p q y z assume y: "shareds s' p = Some y" and z: "shareds s' q = Some z"
    show "ref_withinComm_countptr y \<noteq> ref_acrossComm_countptr z \<and>
      (p \<noteq> q \<longrightarrow> ref_withinComm_countptr y \<noteq> ref_withinComm_countptr z \<and> co_barrier_vars y \<noteq> co_barrier_vars z) \<and>
      (ref_acrossComm_countptr y = ref_acrossComm_countptr z \<longleftrightarrow> cs_rtw_map y = cs_rtw_map z)"
    proof (cases "p = a")
      case True
      then have "y = x" using y s' by simp
      show ?thesis
      proof (cases "q = a")
        case True
        then show ?thesis using z s' \<open>p = a\<close> \<open>y = x\<close> fresh(4) by simp
      next
        case False
        then have z': "shareds s q = Some z" using z s' by simp
        have "ref_withinComm_countptr x \<noteq> ref_acrossComm_countptr z" "ref_withinComm_countptr x \<noteq> ref_withinComm_countptr z"
          "co_barrier_vars x \<noteq> co_barrier_vars z"
          using yold [OF z'] fresh(2,3) by linarith+
        then show ?thesis using link [OF z'] \<open>y = x\<close> by metis
      qed
    next
      case pa: False
      then have y': "shareds s p = Some y" using y s' by simp
      show ?thesis
      proof (cases "q = a")
        case True
        then have "z = x" using z s' by simp
        moreover have "ref_withinComm_countptr y \<noteq> ref_withinComm_countptr x" "co_barrier_vars y \<noteq> co_barrier_vars x"
          using yold [OF y'] fresh(2,3) by linarith+
        ultimately show ?thesis using link [OF y'] by metis
      next
        case False
        have "apart (shareds s)" using parts by blast
        moreover have "shareds s q = Some z" using False z s' by simp
        ultimately show ?thesis using y' unfolding apart_def by blast
      qed
    qed
  qed
  moreover have "no_garbage (counters s') (rtw_maps s') (barriers s') (shareds s')"
  proof -
    have keep: "\<exists>p y. shareds s' p = Some y \<and> P y" if "\<exists>p y. shareds s p = Some y \<and> P y" for P
      using that none s' by (metis fun_upd_apply option.distinct(1))
    have self: "\<exists>p y. shareds s' p = Some y \<and> P y" if "P x" for P
      using that s' by auto
    have g: "counters s p \<noteq> None \<Longrightarrow> \<exists>b y. shareds s b = Some y \<and> (p = ref_withinComm_countptr y \<or> p = ref_acrossComm_countptr y)"
      "rtw_maps s p \<noteq> [] \<Longrightarrow> \<exists>b y. shareds s b = Some y \<and> p = cs_rtw_map y"
      "barriers s p \<noteq> None \<Longrightarrow> \<exists>b y. shareds s b = Some y \<and> p = co_barrier_vars y" for p
      using parts unfolding no_garbage_def by simp_all
    show ?thesis
      unfolding no_garbage_def
    proof (intro conjI allI impI)
      fix p assume "counters s' p \<noteq> None"
      then have "counters s p \<noteq> None \<or> p = ref_withinComm_countptr x \<or> p = ref_acrossComm_countptr x"
        using s' by (auto split: if_splits)
      then show "\<exists>b y. shareds s' b = Some y \<and> (p = ref_withinComm_countptr y \<or> p = ref_acrossComm_countptr y)"
        using keep [OF g(1)] self [of "\<lambda>y. p = ref_withinComm_countptr y \<or> p = ref_acrossComm_countptr y"] by blast
    next
      fix p assume "rtw_maps s' p \<noteq> []"
      then have "rtw_maps s p \<noteq> [] \<or> p = cs_rtw_map x" using maps(4) by simp
      then show "\<exists>b y. shareds s' b = Some y \<and> p = cs_rtw_map y"
        using keep [OF g(2)] self [of "\<lambda>y. p = cs_rtw_map y"] by blast
    next
      fix p assume "barriers s' p \<noteq> None"
      then have "barriers s p \<noteq> None \<or> p = co_barrier_vars x" using s' by (auto split: if_splits)
      then show "\<exists>b y. shareds s' b = Some y \<and> p = co_barrier_vars y"
        using keep [OF g(3)] self [of "\<lambda>y. p = co_barrier_vars y"] by blast
    qed
  qed
  moreover have "fresh_above s'"
    unfolding fresh_above_def
  proof (intro conjI allI impI)
    show "1 < brk s'" using br fresh by simp
    fix p assume p: "p = NULL \<or> brk s' \<le> p"
    then have nold: "counters s p = None \<and> shareds s p = None \<and> barriers s p = None \<and> rtw_maps s p = []"
      using parts fresh(8) unfolding fresh_above_def by auto
    have ne: "p \<noteq> a" "p \<noteq> ref_withinComm_countptr x" "p \<noteq> ref_acrossComm_countptr x" "p \<noteq> co_barrier_vars x" "p \<noteq> cs_rtw_map x"
      using p fresh br maps(2) by auto
    show "counters s' p = None" "shareds s' p = None" "barriers s' p = None" using nold ne s' by simp_all
    show "rtw_maps s' p = []" using nold ne maps(4) by blast
  qed
  moreover have "sizes_ok s' (c # cs)"
  proof -
    have "map_ok s' (cs_rtw_map (the (shareds s' (co_shared_vars d)))) (cm_local_size d)" if "d \<in> set cs" for d
    proof -
      obtain y where y: "shareds s (co_shared_vars d) = Some y" using parts \<open>d \<in> set cs\<close> by (auto simp: handles_ok_def)
      then have "map_ok s (cs_rtw_map y) (cm_local_size d)" using parts that by (auto simp: sizes_ok_def)
      then show ?thesis using y yold [OF y] maps(3) s' hne [OF that] by (simp add: map_ok_def)
    qed
    then show ?thesis using sz s' k parts wn by (simp add: sizes_ok_def)
  qed
  ultimately show ?thesis using s' by (simp add: share_inv_def)
qed

subsection \<open>Freeing a communicator\<close>

lemma length_filter_remove1:
  "c \<in> set cs \<Longrightarrow> int (length (filter P (remove1 c cs))) = int (length (filter P cs)) - (if P c then 1 else 0)"
  by (induction cs) auto

lemma within_count_remove1:
  "c \<in> set cs \<Longrightarrow> within_count (remove1 c cs) a = within_count cs a - (if co_shared_vars c = a then 1 else 0)"
  by (simp add: within_count_def length_filter_remove1)

lemma across_count_remove1:
  "c \<in> set cs \<Longrightarrow> across_count sh (remove1 c cs) p = across_count sh cs p - (if across_of sh (co_shared_vars c) = p then 1 else 0)"
  by (simp add: across_count_def length_filter_remove1)

lemma within_count_pos: "c \<in> set cs \<Longrightarrow> 1 \<le> within_count cs (co_shared_vars c)"
  using length_filter_remove1 [of c cs "\<lambda>d. co_shared_vars d = co_shared_vars c"]
  by (simp add: within_count_def)

lemma within_le_across:
  assumes "a \<noteq> world_shared"
  shows "within_count cs a \<le> across_count sh cs (across_of sh a)"
  using assms by (induction cs) (auto simp: within_count_Cons across_count_Cons, simp_all add: within_count_def across_count_def)

lemma across_world:
  "c \<in> set cs \<Longrightarrow> across_of sh (co_shared_vars c) = across_of sh world_shared \<Longrightarrow>
   2 \<le> across_count sh cs (across_of sh world_shared)"
  using length_filter_remove1 [of c cs "\<lambda>d. across_of sh (co_shared_vars d) = across_of sh world_shared"]
  by (simp add: across_count_def)

lemma set_remove1_insert: "c \<in> set cs \<Longrightarrow> set cs = insert c (set (remove1 c cs))"
  by (induction cs) auto

lemma image_remove1:
  assumes "d \<in> set (remove1 c cs)" "f d = f c"
  shows "f ` set (remove1 c cs) = f ` set cs"
proof
  show "f ` set (remove1 c cs) \<subseteq> f ` set cs" using set_remove1_subset by (rule image_mono)
  show "f ` set cs \<subseteq> f ` set (remove1 c cs)"
  proof
    fix y assume "y \<in> f ` set cs"
    then obtain e where "e \<in> set cs" "y = f e" by blast
    then show "y \<in> f ` set (remove1 c cs)" using assms by (cases "e = c") (auto intro: rev_image_eqI)
  qed
qed

text \<open>Another reference keeps the shared variables.\<close>

lemma inv_release:
  assumes inv: "share_inv s M cs" and c: "c \<in> set cs" and x: "shareds s (co_shared_vars c) = Some x"
    and n: "1 < within_count cs (co_shared_vars c)"
  shows "share_inv (s\<lparr>counters := (counters s)
      (ref_withinComm_countptr x \<mapsto> within_count cs (co_shared_vars c) - 1,
       ref_acrossComm_countptr x \<mapsto> across_count (shareds s) cs (ref_acrossComm_countptr x) - 1)\<rparr>) M (remove1 c cs)"
    (is "share_inv ?s M ?cs")
proof -
  note parts = inv [unfolded share_inv_def]
  let ?a = "co_shared_vars c"
  have ap: "apart (shareds s)" and ref: "refs_ok (counters s) (shareds s) cs" and fa: "fresh_above s"
    and ho: "handles_ok (shareds s) M cs" and ko: "keys_ok cs" and li: "live_ok (shareds s) cs" and en: "entries_ok M cs"
    using parts by blast+
  have sub: "set ?cs \<subseteq> set cs" by (rule set_remove1_subset)
  have aw: "?a \<noteq> world_shared" using ho c by (simp add: handles_ok_def)
  have "0 < within_count ?cs ?a" using n c by (simp add: within_count_remove1)
  then obtain d where d: "d \<in> set ?cs" "co_shared_vars d = ?a"
    using aw by (auto simp: within_count_def filter_empty_conv)
  then have dk: "comm_key d = comm_key c" using ko c sub unfolding keys_ok_def by blast
  have img: "co_shared_vars ` set ?cs = co_shared_vars ` set cs" "comm_key ` set ?cs = comm_key ` set cs"
    using image_remove1 [OF d(1)] d(2) dk by blast+
  have "refs_ok (counters ?s) (shareds ?s) ?cs"
    unfolding refs_ok_def
  proof (intro allI impI conjI)
    fix b y assume y: "shareds ?s b = Some y"
    have r: "counters s (ref_withinComm_countptr y) = Some (within_count cs b)"
      "counters s (ref_acrossComm_countptr y) = Some (across_count (shareds s) cs (ref_acrossComm_countptr y))"
      using ref y by (simp_all add: refs_ok_def)
    have dd: "ref_withinComm_countptr y \<noteq> ref_acrossComm_countptr x" "ref_withinComm_countptr x \<noteq> ref_acrossComm_countptr y"
      "ref_withinComm_countptr y = ref_withinComm_countptr x \<longleftrightarrow> ?a = b"
      using ap x y unfolding apart_def by auto
    show "counters ?s (ref_withinComm_countptr y) = Some (within_count ?cs b)"
      using r dd c by (auto simp: within_count_remove1)
    show "counters ?s (ref_acrossComm_countptr y) = Some (across_count (shareds ?s) ?cs (ref_acrossComm_countptr y))"
      using r dd c x by (auto simp: across_count_remove1 across_of_def)
  qed
  moreover have "handles_ok (shareds ?s) M ?cs" using ho sub by (auto simp: handles_ok_def)
  moreover have "entries_ok M ?cs" using en img by (simp add: entries_ok_def)
  moreover have "keys_ok ?cs" using ko sub unfolding keys_ok_def by blast
  moreover have "live_ok (shareds ?s) ?cs" using li img by (simp add: live_ok_def)
  moreover have "no_garbage (counters ?s) (rtw_maps ?s) (barriers ?s) (shareds ?s)"
    using parts x by (auto simp: no_garbage_def)
  moreover have "fresh_above ?s"
  proof -
    have "counters s (ref_withinComm_countptr x) \<noteq> None" "counters s (ref_acrossComm_countptr x) \<noteq> None"
      using ref x by (auto simp: refs_ok_def)
    then show ?thesis using fresh_above_counters [OF fa] by blast
  qed
  moreover have "sizes_ok ?s ?cs" using parts sub by (auto simp: sizes_ok_def map_ok_def)
  ultimately show ?thesis using parts by (simp add: share_inv_def)
qed

text \<open>The last reference within the communicator frees the shared variables, the last one across frees the map.\<close>

lemma inv_free:
  assumes inv: "share_inv s M cs" and c: "c \<in> set cs" and x: "shareds s (co_shared_vars c) = Some x"
    and n: "within_count cs (co_shared_vars c) = 1"
    and s': "shareds s' = (shareds s)(co_shared_vars c := None)" "barriers s' = (barriers s)(co_barrier_vars x := None)"
      "counters s' = (counters s)(ref_withinComm_countptr x := None,
         ref_acrossComm_countptr x := (if across_count (shareds s) cs (ref_acrossComm_countptr x) = 1 then None
           else Some (across_count (shareds s) cs (ref_acrossComm_countptr x) - 1)))"
      "rtw_maps s' = (if across_count (shareds s) cs (ref_acrossComm_countptr x) = 1
         then (rtw_maps s)(cs_rtw_map x := []) else rtw_maps s)"
      "worldcomm_rtw_map s' = worldcomm_rtw_map s" "brk s' = brk s"
      "cl_rep (contextLeader_hshtbl s') (M(comm_key c := None))"
  shows "share_inv s' (M(comm_key c := None)) (remove1 c cs)" (is "share_inv s' ?M ?cs")
proof -
  note parts = inv [unfolded share_inv_def]
  let ?a = "co_shared_vars c" and ?ac = "ref_acrossComm_countptr x"
  have ap: "apart (shareds s)" and ref: "refs_ok (counters s) (shareds s) cs" and fa: "fresh_above s"
    and ho: "handles_ok (shareds s) M cs" and ko: "keys_ok cs" and li: "live_ok (shareds s) cs" and en: "entries_ok M cs"
    and bl: "blocks_ok (rtw_maps s) (barriers s) (shareds s)" and sz: "sizes_ok s cs"
    and ng: "no_garbage (counters s) (rtw_maps s) (barriers s) (shareds s)"
    using parts by blast+
  have sub: "set ?cs \<subseteq> set cs" by (rule set_remove1_subset)
  have aw: "?a \<noteq> world_shared" using ho c by (simp add: handles_ok_def)
  have "within_count ?cs ?a = 0" using n c by (simp add: within_count_remove1)
  then have ne: "co_shared_vars d \<noteq> ?a" if "d \<in> set ?cs" for d
    using aw that by (auto simp: within_count_def filter_empty_conv)
  have kne: "comm_key d \<noteq> comm_key c" if "d \<in> set ?cs" for d
    using ho c ne [OF that] sub that unfolding handles_ok_def by (metis option.inject subsetD)
  have all: "set cs = insert c (set ?cs)" using c by (rule set_remove1_insert)
  have acr: "across_count (shareds s') ?cs p = across_count (shareds s) ?cs p" for p
    unfolding across_count_def across_of_def s' using ne aw by (simp cong: filter_cong)
  have rem: "across_count (shareds s) ?cs p = across_count (shareds s) cs p - (if ?ac = p then 1 else 0)" for p
    using c x by (simp add: across_count_remove1 across_of_def)
  have keep: "across_count (shareds s) cs ?ac \<noteq> 1" if "shareds s b = Some y" "b \<noteq> ?a" "ref_acrossComm_countptr y = ?ac" for b y
  proof -
    have "b = world_shared \<or> b \<in> co_shared_vars ` set ?cs"
      using li that all unfolding live_ok_def by (metis domI image_insert insertE)
    then have "1 \<le> across_count (shareds s) ?cs ?ac"
    proof
      assume "b = world_shared"
      then show ?thesis using that by (simp add: across_count_def across_of_def)
    next
      assume "b \<in> co_shared_vars ` set ?cs"
      then obtain d where "d \<in> set ?cs" "co_shared_vars d = b" by blast
      then have "d \<in> set (filter (\<lambda>e. across_of (shareds s) (co_shared_vars e) = ?ac) ?cs)"
        using that by (simp add: across_of_def)
      from length_pos_if_in_set [OF this] show ?thesis by (simp add: across_count_def Suc_le_eq del: set_filter)
    qed
    then show ?thesis using rem [of ?ac] by simp
  qed
  have "refs_ok (counters s') (shareds s') ?cs"
    unfolding refs_ok_def
  proof (intro allI impI conjI)
    fix b y assume "shareds s' b = Some y"
    then have y: "shareds s b = Some y" "b \<noteq> ?a" using s' by (auto split: if_splits)
    have r: "counters s (ref_withinComm_countptr y) = Some (within_count cs b)"
      "counters s (ref_acrossComm_countptr y) = Some (across_count (shareds s) cs (ref_acrossComm_countptr y))"
      using ref y by (simp_all add: refs_ok_def)
    have dd: "ref_withinComm_countptr y \<noteq> ?ac" "ref_withinComm_countptr x \<noteq> ref_acrossComm_countptr y"
      "ref_withinComm_countptr y \<noteq> ref_withinComm_countptr x"
      using ap x y unfolding apart_def by metis+
    show "counters s' (ref_withinComm_countptr y) = Some (within_count ?cs b)"
      using r dd y c s' by (simp add: within_count_remove1)
    have "counters s' (ref_acrossComm_countptr y) = Some (across_count (shareds s) ?cs (ref_acrossComm_countptr y))"
      using r(2) dd keep [OF y] by (auto simp: s'(3) rem)
    then show "counters s' (ref_acrossComm_countptr y) = Some (across_count (shareds s') ?cs (ref_acrossComm_countptr y))"
      by (simp add: acr)
  qed
  moreover have "handles_ok (shareds s') ?M ?cs" using ho sub ne kne s' by (auto simp: handles_ok_def)
  moreover have "entries_ok ?M ?cs"
  proof -
    have "comm_key c \<notin> predefined_keys" using ho c by (simp add: handles_ok_def)
    moreover have "dom M = predefined_keys \<union> insert (comm_key c) (comm_key ` set ?cs)" using en all by (auto simp: entries_ok_def)
    ultimately show ?thesis using en kne unfolding entries_ok_def by auto
  qed
  moreover have "keys_ok ?cs" using ko sub unfolding keys_ok_def by blast
  moreover have "live_ok (shareds s') ?cs"
  proof -
    have "dom (shareds s) = insert world_shared (insert ?a (co_shared_vars ` set ?cs))" using li all by (auto simp: live_ok_def)
    then show ?thesis using ne aw s' by (auto simp: live_ok_def)
  qed
  moreover have "apart (shareds s')" using ap unfolding apart_def s' by (metis fun_upd_other fun_upd_same option.distinct(1))
  moreover have "blocks_ok (rtw_maps s') (barriers s') (shareds s')"
    unfolding blocks_ok_def
  proof (intro allI impI)
    fix b y assume "shareds s' b = Some y"
    then have y: "shareds s b = Some y" "b \<noteq> ?a" using s' by (auto split: if_splits)
    have "co_barrier_vars y \<noteq> co_barrier_vars x" "ref_acrossComm_countptr y = ?ac \<longleftrightarrow> cs_rtw_map y = cs_rtw_map x"
      using ap x y unfolding apart_def by metis+
    then show "rtw_maps s' (cs_rtw_map y) \<noteq> [] \<and> cs_rtw_map y \<noteq> NULL \<and> barriers s' (co_barrier_vars y) \<noteq> None \<and> co_barrier_vars y \<noteq> NULL"
      using bl y keep [OF y] s' unfolding blocks_ok_def by auto
  qed
  moreover have "no_garbage (counters s') (rtw_maps s') (barriers s') (shareds s')"
  proof -
    have still: "shareds s' b = Some y" if "shareds s b = Some y" "b \<noteq> ?a" for b y using that s' by simp
    have other: "\<exists>b y. shareds s' b = Some y \<and> ref_acrossComm_countptr y = ?ac \<and> cs_rtw_map y = cs_rtw_map x"
      if "across_count (shareds s) cs ?ac \<noteq> 1"
    proof -
      have "1 \<le> across_count (shareds s) cs ?ac"
        using within_le_across [OF aw, of cs "shareds s"] n x by (simp add: across_of_def)
      then have "0 < across_count (shareds s) ?cs ?ac" using that by (simp add: rem)
      then have "across_of (shareds s) world_shared = ?ac \<or> (\<exists>d\<in>set ?cs. across_of (shareds s) (co_shared_vars d) = ?ac)"
        by (auto simp: across_count_def filter_empty_conv split: if_splits)
      then obtain b where b: "across_of (shareds s) b = ?ac" "b \<noteq> ?a" "shareds s b \<noteq> None"
      proof
        assume "across_of (shareds s) world_shared = ?ac"
        moreover have "shareds s world_shared \<noteq> None" using li unfolding live_ok_def by blast
        ultimately show ?thesis using that aw by metis
      next
        assume "\<exists>d\<in>set ?cs. across_of (shareds s) (co_shared_vars d) = ?ac"
        then obtain d where d: "d \<in> set ?cs" "across_of (shareds s) (co_shared_vars d) = ?ac" by blast
        have "shareds s (co_shared_vars d) \<noteq> None" using ho sub d(1) unfolding handles_ok_def by blast
        then show ?thesis using that d ne [OF d(1)] by blast
      qed
      then obtain y where y: "shareds s b = Some y" "ref_acrossComm_countptr y = ?ac" by (auto simp: across_of_def)
      then have "cs_rtw_map y = cs_rtw_map x" using ap x unfolding apart_def by metis
      then show ?thesis using still [OF y(1) b(2)] y(2) by blast
    qed
    show ?thesis
      unfolding no_garbage_def
    proof (intro conjI allI impI)
      fix p assume p: "counters s' p \<noteq> None"
      show "\<exists>b y. shareds s' b = Some y \<and> (p = ref_withinComm_countptr y \<or> p = ref_acrossComm_countptr y)"
      proof (cases "p = ?ac")
        case True
        then have "across_count (shareds s) cs ?ac \<noteq> 1" using p s'(3) by auto
        then show ?thesis using other True by metis
      next
        case False
        then have q: "counters s p \<noteq> None" "p \<noteq> ref_withinComm_countptr x" using p s'(3) by (auto split: if_splits)
        then obtain b y where y: "shareds s b = Some y" "p = ref_withinComm_countptr y \<or> p = ref_acrossComm_countptr y"
          using ng unfolding no_garbage_def by blast
        then have "b \<noteq> ?a" using x q(2) False by auto
        then show ?thesis using still y by blast
      qed
    next
      fix p assume p: "rtw_maps s' p \<noteq> []"
      then have q: "rtw_maps s p \<noteq> []" using s'(4) by (auto split: if_splits)
      show "\<exists>b y. shareds s' b = Some y \<and> p = cs_rtw_map y"
      proof (cases "p = cs_rtw_map x")
        case True
        then have "across_count (shareds s) cs ?ac \<noteq> 1" using p s'(4) by auto
        then show ?thesis using other True by metis
      next
        case False
        obtain b y where y: "shareds s b = Some y" "p = cs_rtw_map y" using ng q unfolding no_garbage_def by blast
        then have "b \<noteq> ?a" using x False by auto
        then show ?thesis using still y by blast
      qed
    next
      fix p assume "barriers s' p \<noteq> None"
      then have q: "barriers s p \<noteq> None" "p \<noteq> co_barrier_vars x" using s'(2) by (auto split: if_splits)
      obtain b y where y: "shareds s b = Some y" "p = co_barrier_vars y" using ng q(1) unfolding no_garbage_def by blast
      then have "b \<noteq> ?a" using x q(2) by auto
      then show "\<exists>b y. shareds s' b = Some y \<and> p = co_barrier_vars y" using still y by blast
    qed
  qed
  moreover have "fresh_above s'"
  proof -
    have "counters s ?ac \<noteq> None" using ref x by (simp add: refs_ok_def)
    then have "p \<noteq> ?ac" if "counters s p = None" for p using that by blast
    then show ?thesis using fa by (simp add: fresh_above_def s'(1-4,6))
  qed
  moreover have "sizes_ok s' ?cs"
  proof -
    have mk: "rtw_maps s' (cs_rtw_map y) = rtw_maps s (cs_rtw_map y)" if "shareds s b = Some y" "b \<noteq> ?a" for b y
    proof -
      have "ref_acrossComm_countptr y = ?ac \<longleftrightarrow> cs_rtw_map y = cs_rtw_map x" using ap x that unfolding apart_def by metis
      then show ?thesis using keep [OF that] s'(4) by auto
    qed
    have "map_ok s' (cs_rtw_map (the (shareds s' (co_shared_vars d)))) (cm_local_size d)" if d: "d \<in> set ?cs" for d
    proof -
      obtain y where y: "shareds s (co_shared_vars d) = Some y" using ho sub d unfolding handles_ok_def by blast
      have "map_ok s (cs_rtw_map y) (cm_local_size d)" using sz sub d y unfolding sizes_ok_def by (metis option.sel subsetD)
      then show ?thesis using mk [OF y ne [OF d]] y ne [OF d] s' by (simp add: map_ok_def)
    qed
    then show ?thesis using sz aw s' by (simp add: sizes_ok_def)
  qed
  ultimately show ?thesis using s' by (simp add: share_inv_def)
qed

lemma entries_capacity:
  assumes "entries_ok M cs" "length cs + 3 \<le> HSH_CAPACITY"
  shows "card (dom M) \<le> HSH_CAPACITY"
proof -
  have "card (dom M) \<le> card predefined_keys + card (comm_key ` set cs)"
    using assms(1) card_Un_le unfolding entries_ok_def by metis
  moreover have "card predefined_keys \<le> 3"
    using card_image_le [of "set predefined_ids" "\<lambda>i. (i, 0::int)"] by (simp add: predefined_keys_def predefined_ids_def)
  moreover have "card (comm_key ` set cs) \<le> length cs"
    using card_image_le [of "set cs" comm_key] card_length [of cs] by simp
  ultimately show ?thesis using assms(2) by linarith
qed

lemma comm_free_step:
  assumes inv: "share_inv s M cs" and c: "c \<in> set cs"
  shows "\<exists>s' M'. MPIR_Comm_free_impl c s = Inr s' \<and> share_inv s' M' (remove1 c cs) \<and>
    worldcomm_rtw_map s' = worldcomm_rtw_map s \<and> (\<forall>b. b \<noteq> co_shared_vars c \<longrightarrow> shareds s' b = shareds s b) \<and>
    (shareds s' (co_shared_vars c) \<noteq> None \<longrightarrow> shareds s' (co_shared_vars c) = shareds s (co_shared_vars c)) \<and>
    (\<forall>m. rtw_maps s' m \<noteq> [] \<longrightarrow> rtw_maps s' m = rtw_maps s m)"
proof -
  note parts = inv [unfolded share_inv_def]
  have ap: "apart (shareds s)" and ref: "refs_ok (counters s) (shareds s) cs" and fa: "fresh_above s"
    and ho: "handles_ok (shareds s) M cs" and bl: "blocks_ok (rtw_maps s) (barriers s) (shareds s)" and sz: "sizes_ok s cs"
    using parts by blast+
  let ?a = "co_shared_vars c"
  obtain x where x: "shareds s ?a = Some x" using ho c by (auto simp: handles_ok_def)
  have aw: "?a \<noteq> world_shared" using ho c by (simp add: handles_ok_def)
  have a0: "?a \<noteq> NULL" using fa x by (metis fresh_above_def option.distinct(1))
  let ?w = "ref_withinComm_countptr x" and ?ac = "ref_acrossComm_countptr x"
  let ?n = "within_count cs ?a" and ?m = "across_count (shareds s) cs ?ac"
  have ct: "counters s ?w = Some ?n" "counters s ?ac = Some ?m" using ref x by (simp_all add: refs_ok_def)
  have wac: "?w \<noteq> ?ac" using ap x unfolding apart_def by metis
  have nm: "1 \<le> ?n" "?n \<le> ?m"
    using within_count_pos [OF c] within_le_across [OF aw, of cs "shareds s"] x by (simp_all add: across_of_def)
  have world: "cs_rtw_map x = worldcomm_rtw_map s \<longrightarrow> 1 \<le> ?m - 1"
  proof
    assume "cs_rtw_map x = worldcomm_rtw_map s"
    then obtain y where "shareds s world_shared = Some y" "cs_rtw_map y = cs_rtw_map x" using sz by (auto simp: sizes_ok_def)
    then have "across_of (shareds s) world_shared = ?ac" using ap x unfolding apart_def by (metis across_of_def option.sel)
    then show "1 \<le> ?m - 1" using across_world [OF c, of "shareds s"] x by (simp add: across_of_def)
  qed
  define s1 where "s1 = s\<lparr>counters := (counters s)(?w \<mapsto> ?n - 1, ?ac \<mapsto> ?m - 1)\<rparr>"
  have rel: "MPIR_Comm_release_coshared_all_ref ?a s = Inr (?n - 1, ?m - 1, s1)"
    unfolding s1_def using x ct wac by (rule release_all_ref_Inr)
  have x1: "get_shared ?a s1 = Inr x" using x by (simp add: s1_def)
  have w1: "worldcomm_rtw_map s1 = worldcomm_rtw_map s" by (simp add: s1_def)
  show ?thesis
  proof (cases "?n = 1")
    case False
    then have "MPIR_Comm_free_impl c s = Inr s1"
      using nm world a0 rel x1 w1 by (simp add: MPIR_Comm_free_impl_def)
    moreover have "share_inv s1 M (remove1 c cs)" using inv_release [OF inv c x] False nm unfolding s1_def by auto
    ultimately show ?thesis by (intro exI [of _ s1] exI [of _ M]) (simp add: s1_def)
  next
    case True
    define s2 where "s2 = (if ?m = 1 then s1\<lparr>counters := (counters s1)(?ac := None),
        rtw_maps := (rtw_maps s1)(cs_rtw_map x := []), shareds := (shareds s1)(?a \<mapsto> x\<lparr>cs_rtw_map := NULL\<rparr>)\<rparr> else s1)"
    have mp: "rtw_maps s (cs_rtw_map x) \<noteq> []" and ba: "barriers s (co_barrier_vars x) \<noteq> None" "co_barrier_vars x \<noteq> NULL"
      using bl x unfolding blocks_ok_def by blast+
    have kill: "bind_outcome (if ?m - 1 = 0 then bind_outcome (check (?n - 1 = 0) ''!coshared_inuse_withinComm'') (\<lambda>_.
          bind_outcome (free_counter ?ac s1) (RTWmapKill ?a)) else Inr s1) f = f s2" for f :: "hwp \<Rightarrow> hwp outcome"
      using True x mp by (auto simp: s2_def s1_def free_counter_def RTWmapKill_def)
    define s3 where "s3 = s2\<lparr>counters := (counters s2)(?w := None), barriers := (barriers s2)(co_barrier_vars x := None),
        shareds := (shareds s2)(?a := None)\<rparr>"
    have fr: "free_shared ?a s2 = Inr s3"
      using True x ba wac by (auto simp: free_shared_def free_counter_def s3_def s2_def s1_def)
    have h3: "cl_rep (contextLeader_hshtbl s3) M" using parts by (simp add: s3_def s2_def s1_def)
    obtain e where e: "M (comm_key c) = Some e" using ho c by (auto simp: handles_ok_def)
    obtain h4 where h4: "find_entry (cm_context_id c) (leader_worldrank c) s3 = Inr (Some e, s3\<lparr>contextLeader_hshtbl := h4\<rparr>)"
        "cl_rep h4 M"
      using find_entry_Inr [OF h3, of "cm_context_id c" "leader_worldrank c"] e by (auto simp: comm_key_def)
    have ek: "(context_id e, LeaderWorldRank e) = comm_key c" using cl.rep_map_key [OF h4(2) e] by simp
    obtain h5 where h5: "delete_stored h4 e = Inr (Some e, h5)" "cl_rep h5 (M(comm_key c := None))"
      using cl.delete_stored_map [OF h4(2), of e] ek e by auto
    then have del: "CL_DeleteHashEntry h4 e = Inr h5" by (simp add: CL_DeleteHashEntry_def)
    obtain h6 where h6: "find_entry (cm_context_id c) (leader_worldrank c) (s3\<lparr>contextLeader_hshtbl := h5\<rparr>) =
        Inr (None, s3\<lparr>contextLeader_hshtbl := h6\<rparr>)" "cl_rep h6 (M(comm_key c := None))"
      using find_entry_Inr [of "s3\<lparr>contextLeader_hshtbl := h5\<rparr>" "M(comm_key c := None)" "cm_context_id c" "leader_worldrank c"] h5(2)
      by (auto simp: comm_key_def)
    have res: "MPIR_Comm_free_impl c s = Inr (s3\<lparr>contextLeader_hshtbl := h6\<rparr>)"
      unfolding MPIR_Comm_free_impl_def rel bind_outcome_simps prod.case x1 kill
      using True nm world a0 w1 fr h4(1) del h6(1) by simp
    have "share_inv (s3\<lparr>contextLeader_hshtbl := h6\<rparr>) (M(comm_key c := None)) (remove1 c cs)"
      by (rule inv_free [OF inv c x True])
        (use h6(2) wac in \<open>auto simp: s3_def s2_def s1_def fun_upd_twist\<close>)
    then show ?thesis using res
      by (intro exI [of _ "s3\<lparr>contextLeader_hshtbl := h6\<rparr>"] exI [of _ "M(comm_key c := None)"])
        (simp add: s3_def s2_def s1_def)
  qed
qed

end
