(* ===== verification/Comm_Life.thy ===== *)
theory Comm_Life
  imports Comm_Refs
begin

section \<open>The life of communicators in one process\<close>

text \<open>
  Every split, duplication and release that the coroutines of one operating-system process make,
  in any order, keeps the invariant of the shared variables, and the rank-to-world map that a
  coroutine sees through a communicator it holds never changes.
\<close>

definition handle_map :: "hwp \<Rightarrow> comm \<Rightarrow> addr" where
  "handle_map s c = cs_rtw_map (the (shareds s (co_shared_vars c)))"

definition handle_ranks :: "hwp \<Rightarrow> comm \<Rightarrow> int list" where
  "handle_ranks s c = map_ranks s (handle_map s c) (cm_local_size c)"

text \<open>The communicators a routine may be given: one held, or a predefined one over all processes.\<close>

definition parent_ok :: "comm list \<Rightarrow> comm \<Rightarrow> bool" where
  "parent_ok cs p \<longleftrightarrow> p \<in> set cs \<or>
     co_shared_vars p = world_shared \<and> comm_key p \<in> predefined_keys \<and> 0 < cm_local_size p"

lemma parent_shared:
  assumes "share_inv s M cs" "parent_ok cs p"
  obtains x e where "shareds s (co_shared_vars p) = Some x" "map_ok s (cs_rtw_map x) (cm_local_size p)"
    "M (comm_key p) = Some e" "coproclet_shared_vars e = co_shared_vars p"
proof -
  have ho: "handles_ok (shareds s) M cs" and en: "entries_ok M cs" and sz: "sizes_ok s cs" and li: "live_ok (shareds s) cs"
    using assms(1) unfolding share_inv_def by blast+
  show thesis
  proof (cases "p \<in> set cs")
    case True
    then obtain x e where "shareds s (co_shared_vars p) = Some x" "M (comm_key p) = Some e"
        "coproclet_shared_vars e = co_shared_vars p"
      using ho unfolding handles_ok_def by (metis map_option_eq_Some not_None_eq)
    moreover from this have "map_ok s (cs_rtw_map x) (cm_local_size p)"
      using sz True unfolding sizes_ok_def by (metis option.sel)
    ultimately show thesis using that by blast
  next
    case False
    then have p: "co_shared_vars p = world_shared" "comm_key p \<in> predefined_keys" "0 < cm_local_size p"
      using assms(2) by (auto simp: parent_ok_def)
    obtain x where x: "shareds s (co_shared_vars p) = Some x" "cs_rtw_map x = worldcomm_rtw_map s"
      using sz p(1) unfolding sizes_ok_def by auto
    obtain e where "M (comm_key p) = Some e" "coproclet_shared_vars e = co_shared_vars p"
      using en p(1,2) unfolding entries_ok_def by auto
    then show thesis using that x p(3) by (simp add: map_ok_def)
  qed
qed

lemma parent_handle:
  assumes "share_inv s M cs" "parent_ok cs p"
  shows "map_ok s (handle_map s p) (cm_local_size p)"
  using assms by (metis parent_shared handle_map_def option.sel)

lemma handle_ranks_length:
  "share_inv s M cs \<Longrightarrow> parent_ok cs p \<Longrightarrow> length (handle_ranks s p) = nat (cm_local_size p)"
  using map_ranks_length parent_handle by (simp add: handle_ranks_def)

lemma handle_ranks_nonneg:
  "share_inv s M cs \<Longrightarrow> parent_ok cs p \<Longrightarrow> w \<in> set (handle_ranks s p) \<Longrightarrow> 0 \<le> w"
  using map_ranks_nonneg parent_handle by (metis handle_ranks_def)

text \<open>Maps of live handles are kept by a step that only changes blocks no live handle uses.\<close>

lemma handle_ranks_same:
  "shareds s' = shareds s \<Longrightarrow> rtw_maps s' = rtw_maps s \<Longrightarrow> worldcomm_rtw_map s' = worldcomm_rtw_map s \<Longrightarrow>
   handle_ranks s' d = handle_ranks s d"
  by (simp add: handle_ranks_def handle_map_def map_ranks_def)

lemma live_block:
  assumes "share_inv s M cs" "parent_ok cs p"
  shows "co_shared_vars p < brk s" "handle_map s p < brk s" "handle_map s p \<noteq> NULL"
proof -
  obtain x e where x: "shareds s (co_shared_vars p) = Some x" using parent_shared [OF assms] by metis
  have fa: "fresh_above s" and bl: "blocks_ok (rtw_maps s) (barriers s) (shareds s)"
    using assms(1) unfolding share_inv_def by blast+
  have "rtw_maps s (cs_rtw_map x) \<noteq> []" "cs_rtw_map x \<noteq> NULL" using bl x unfolding blocks_ok_def by blast+
  then show "co_shared_vars p < brk s" "handle_map s p < brk s" "handle_map s p \<noteq> NULL"
    using fa x unfolding fresh_above_def handle_map_def by (metis not_le option.distinct(1) option.sel)+
qed

lemma world_map_below:
  assumes "share_inv s M cs"
  shows "worldcomm_rtw_map s < brk s"
proof -
  have sz: "sizes_ok s cs" using assms unfolding share_inv_def by blast
  obtain y where "shareds s world_shared = Some y" "cs_rtw_map y = worldcomm_rtw_map s"
    using sz unfolding sizes_ok_def by auto
  then show ?thesis
    using live_block(2) [OF assms, of "\<lparr>cm_context_id = 0, leader_worldrank = 0, co_shared_vars = world_shared,
        cm_rank = 0, cm_local_size = 1, cm_p_rank = 0, num_osprocs = 0\<rparr>"]
    by (simp add: parent_ok_def handle_map_def comm_key_def predefined_keys_def predefined_ids_def)
qed

subsection \<open>Joining and creating\<close>

lemma join_step:
  assumes inv: "share_inv s M cs" and key: "comm_key c \<notin> predefined_keys" and e: "M (comm_key c) = Some e"
    and coh: "\<And>d. d \<in> set cs \<Longrightarrow> comm_key d = comm_key c \<Longrightarrow> handle_ranks s d = ws"
    and size: "0 < cm_local_size c" "cm_local_size c = int (length ws)"
  shows "\<exists>s'. MPIR_Comm_add_coshared_all_ref (coproclet_shared_vars e) s = Inr s' \<and>
    share_inv s' M (c\<lparr>co_shared_vars := coproclet_shared_vars e\<rparr> # cs) \<and>
    handle_ranks s' (c\<lparr>co_shared_vars := coproclet_shared_vars e\<rparr>) = ws \<and>
    (\<forall>d. handle_ranks s' d = handle_ranks s d)"
proof -
  have ho: "handles_ok (shareds s) M cs" and en: "entries_ok M cs" and ref: "refs_ok (counters s) (shareds s) cs"
    and ap: "apart (shareds s)"
    using inv unfolding share_inv_def by blast+
  let ?a = "coproclet_shared_vars e"
  let ?c = "c\<lparr>co_shared_vars := ?a\<rparr>"
  have "comm_key c \<in> dom M" using e by blast
  then obtain d where d: "d \<in> set cs" "comm_key d = comm_key c" using en key unfolding entries_ok_def by auto
  have da: "co_shared_vars d = ?a" "?a \<noteq> world_shared" using ho d e unfolding handles_ok_def by force+
  have pd: "parent_ok cs d" using d(1) by (simp add: parent_ok_def)
  obtain x where x: "shareds s ?a = Some x" "map_ok s (cs_rtw_map x) (cm_local_size d)"
    using parent_shared [OF inv pd] da(1) by metis
  have "nat (cm_local_size d) = length ws" using handle_ranks_length [OF inv pd] coh [OF d] by simp
  moreover have "0 < cm_local_size d" using x(2) by (simp add: map_ok_def)
  ultimately have sz: "cm_local_size d = cm_local_size c" using size(2) by linarith
  have ct: "counters s (ref_withinComm_countptr x) = Some (within_count cs ?a)"
    "counters s (ref_acrossComm_countptr x) = Some (across_count (shareds s) cs (ref_acrossComm_countptr x))"
    using ref x(1) unfolding refs_ok_def by blast+
  have ne: "ref_withinComm_countptr x \<noteq> ref_acrossComm_countptr x" using ap x(1) unfolding apart_def by metis
  let ?s = "s\<lparr>counters := (counters s)(ref_withinComm_countptr x \<mapsto> within_count cs ?a + 1,
      ref_acrossComm_countptr x \<mapsto> across_count (shareds s) cs (ref_acrossComm_countptr x) + 1)\<rparr>"
  have "share_inv ?s M (?c # cs)"
    by (rule inv_join [OF inv x(1)]) (use da(2) key e x(2) sz in \<open>simp_all add: comm_key_def\<close>)
  moreover have same: "handle_ranks ?s b = handle_ranks s b" for b by (rule handle_ranks_same) simp_all
  moreover have "handle_ranks s ?c = handle_ranks s d" using da(1) sz by (simp add: handle_ranks_def handle_map_def)
  ultimately show ?thesis using add_all_ref_Inr [OF x(1) ct ne] coh [OF d] by auto
qed

abbreviation zero_barrier :: coproclet_barrier_vars where
  "zero_barrier \<equiv> \<lparr>coproclet_signal = 0, leader_signal = 0, coproclet_counter = 0\<rparr>"

abbreviation zero_shared :: coproclet_shared where
  "zero_shared \<equiv> \<lparr>ref_withinComm_countptr = NULL, ref_acrossComm_countptr = NULL, cs_rtw_map = NULL, ptn_hash = NULL,
     nested_local_size = 0, nested_external_size = 0, nested_fg_local_size = 0, co_barrier_vars = NULL\<rparr>"

text \<open>
  A new block of shared variables, with counters of its own.  The argument \<open>x\<close> fixes the order in
  which the routine takes its blocks from the store.
\<close>

lemma own_map_step:
  assumes inv: "share_inv s M cs" and key: "comm_key c \<notin> predefined_keys" "M (comm_key c) = None"
    and s': "shareds s' = (shareds s)(co_shared_vars c \<mapsto> x)"
      "counters s' = (counters s)(ref_withinComm_countptr x \<mapsto> 1, ref_acrossComm_countptr x \<mapsto> 1)"
      "barriers s' = (barriers s)(co_barrier_vars x \<mapsto> zero_barrier)"
      "rtw_maps s' = (rtw_maps s)(cs_rtw_map x := ws @ [-2])" "worldcomm_rtw_map s' = worldcomm_rtw_map s"
      "cl_rep (contextLeader_hshtbl s') (M(comm_key c \<mapsto> i))" "coproclet_shared_vars i = co_shared_vars c"
    and block: "brk s' = brk s + 5" "{co_shared_vars c, ref_withinComm_countptr x, ref_acrossComm_countptr x, cs_rtw_map x, co_barrier_vars x}
        \<subseteq> {brk s..<brk s + 5}" "ref_withinComm_countptr x \<noteq> ref_acrossComm_countptr x"
    and size: "0 < cm_local_size c" "cm_local_size c = int (length ws)" "\<forall>w\<in>set ws. 0 \<le> w"
  shows "share_inv s' (M(comm_key c \<mapsto> i)) (c # cs) \<and> handle_ranks s' c = ws \<and>
    (\<forall>d. parent_ok cs d \<longrightarrow> handle_ranks s' d = handle_ranks s d)"
proof -
  have fa: "fresh_above s" and ref: "refs_ok (counters s) (shareds s) cs" and li: "live_ok (shareds s) cs"
    and bl: "blocks_ok (rtw_maps s) (barriers s) (shareds s)" and sz: "sizes_ok s cs"
    using inv unfolding share_inv_def by blast+
  have blk: "brk s \<le> co_shared_vars c" "brk s \<le> ref_withinComm_countptr x" "brk s \<le> ref_acrossComm_countptr x"
    "brk s \<le> cs_rtw_map x" "brk s \<le> co_barrier_vars x" "co_shared_vars c < brk s'" "ref_withinComm_countptr x < brk s'"
    "ref_acrossComm_countptr x < brk s'" "cs_rtw_map x < brk s'" "co_barrier_vars x < brk s'"
    using block(1,2) by auto
  have used: "ref_withinComm_countptr y < brk s" "ref_acrossComm_countptr y < brk s" "cs_rtw_map y < brk s" "p < brk s"
    if "shareds s p = Some y" for p y
    using fa ref bl that unfolding fresh_above_def refs_ok_def blocks_ok_def by (metis not_le option.distinct(1))+
  have b0: "1 < brk s" using fa by (simp add: fresh_above_def)
  obtain y where y: "shareds s world_shared = Some y" "cs_rtw_map y = worldcomm_rtw_map s"
    using sz unfolding sizes_ok_def by auto
  have wm: "worldcomm_rtw_map s < brk s" using used(3) [OF y(1)] y(2) by simp
  have "across_of (shareds s) (co_shared_vars d) < brk s" if "d \<in> set cs" for d
  proof -
    have "co_shared_vars d \<in> dom (shareds s)" using li that unfolding live_ok_def by blast
    then show ?thesis using used(2) by (auto simp: across_of_def)
  qed
  moreover have "across_of (shareds s) world_shared < brk s" using used(2) [OF y(1)] y(1) by (simp add: across_of_def)
  ultimately have ac0: "across_count (shareds s) cs (ref_acrossComm_countptr x) = 0"
    using blk(3) by (fastforce simp: across_count_def filter_empty_conv)
  have mo: "map_ok s' (cs_rtw_map x) (cm_local_size c)"
    using size by (simp add: map_ok_def s'(4,5))
  have "share_inv s' (M(comm_key c \<mapsto> i)) (c # cs)"
  proof (rule inv_new [OF inv s'(1) _ s'(3) s'(5,6)])
    show "counters s' = (counters s)(ref_withinComm_countptr x \<mapsto> 1,
        ref_acrossComm_countptr x \<mapsto> across_count (shareds s) cs (ref_acrossComm_countptr x) + 1)"
      using s'(2) ac0 by simp
    show "(ref_acrossComm_countptr y = ref_acrossComm_countptr x \<longleftrightarrow> cs_rtw_map y = cs_rtw_map x) \<and>
        ref_withinComm_countptr y \<noteq> ref_acrossComm_countptr x" if "shareds s p = Some y" for p y
      using used [OF that] blk by auto
  qed (use blk b0 block key mo in \<open>auto simp: s' split: if_splits\<close>)
  moreover have "cs_rtw_map x \<noteq> worldcomm_rtw_map s" using wm blk(4) by simp
  then have "handle_ranks s' c = ws"
    using size by (simp add: handle_ranks_def handle_map_def map_ranks_def s'(1,4,5))
  moreover have "handle_ranks s' d = handle_ranks s d" if "parent_ok cs d" for d
    using live_block [OF inv that] blk(1,4) by (simp add: handle_ranks_def handle_map_def map_ranks_def s'(1,4,5))
  ultimately show ?thesis by blast
qed

lemma split_share_step:
  assumes inv: "share_inv s M cs" and ok: "\<forall>k \<in> set table_sizes. ok k" and cap: "length cs + 3 \<le> HSH_CAPACITY"
    and p: "parent_ok cs p" and keys: "\<forall>k\<in>set order. 0 \<le> k \<and> k < cm_local_size p" "order \<noteq> []"
    and key: "comm_key c \<notin> predefined_keys" and size: "cm_local_size c = int (length order)"
    and ws: "ws = map (\<lambda>k. handle_ranks s p ! nat k) order"
    and coh: "\<And>d. d \<in> set cs \<Longrightarrow> comm_key d = comm_key c \<Longrightarrow> handle_ranks s d = ws"
  shows "\<exists>a s' M'. split_share ok memory_left junk (handle_map s p) order c s = Inr (Inr (c\<lparr>co_shared_vars := a\<rparr>), s') \<and>
    share_inv s' M' (c\<lparr>co_shared_vars := a\<rparr> # cs) \<and> handle_ranks s' (c\<lparr>co_shared_vars := a\<rparr>) = ws \<and>
    (\<forall>d. parent_ok cs d \<longrightarrow> handle_ranks s' d = handle_ranks s d)"
proof -
  have len: "0 < cm_local_size c" "cm_local_size c = int (length ws)" using keys(2) size ws by auto
  have pos: "\<forall>w\<in>set ws. 0 \<le> w"
  proof
    fix w assume "w \<in> set ws"
    then obtain k where k: "k \<in> set order" "w = handle_ranks s p ! nat k" using ws by auto
    then have "nat k < length (handle_ranks s p)" using handle_ranks_length [OF inv p] keys(1) by auto
    then show "0 \<le> w" using k(2) handle_ranks_nonneg [OF inv p] nth_mem by metis
  qed
  have cl: "cl_rep (contextLeader_hshtbl s) M" and en: "entries_ok M cs" and sz: "sizes_ok s cs"
    using inv unfolding share_inv_def by blast+
  obtain h where h: "find_entry (cm_context_id c) (leader_worldrank c) s = Inr (M (comm_key c), s\<lparr>contextLeader_hshtbl := h\<rparr>)"
      "cl_rep h M"
    using find_entry_Inr [OF cl, of "cm_context_id c" "leader_worldrank c"] by (auto simp: comm_key_def)
  let ?s1 = "s\<lparr>contextLeader_hshtbl := h\<rparr>"
  have inv1: "share_inv ?s1 M cs" using inv h(2) by (rule share_inv_hash)
  have hr1: "handle_ranks ?s1 d = handle_ranks s d" for d by (rule handle_ranks_same) simp_all
  show ?thesis
  proof (cases "M (comm_key c)")
    case (Some e)
    obtain s' where "MPIR_Comm_add_coshared_all_ref (coproclet_shared_vars e) ?s1 = Inr s'"
      "share_inv s' M (c\<lparr>co_shared_vars := coproclet_shared_vars e\<rparr> # cs)"
      "handle_ranks s' (c\<lparr>co_shared_vars := coproclet_shared_vars e\<rparr>) = ws" "\<forall>d. handle_ranks s' d = handle_ranks s d"
      using join_step [OF inv1 key Some, of ws] coh len hr1 by auto
    then show ?thesis using h(1) Some by (auto simp: split_share_def)
  next
    case None
    let ?b = "brk s"
    have mo: "map_ok s (handle_map s p) (cm_local_size p)" using inv p by (rule parent_handle)
    have lb: "handle_map s p < ?b" using live_block [OF inv p] by simp
    have wb: "worldcomm_rtw_map s < ?b" using inv by (rule world_map_below)
    define z where "z = zero_shared"
    define s2 where "s2 = ?s1\<lparr>shareds := (shareds s)(?b \<mapsto> z), brk := ?b + 1\<rparr>"
    define s3 where "s3 = s2\<lparr>rtw_maps := (rtw_maps s)(?b + 1 := ws @ [-2]),
        shareds := (shareds s)(?b \<mapsto> z\<lparr>cs_rtw_map := ?b + 1\<rparr>), brk := ?b + 2\<rparr>"
    have mr: "map_ranks s2 (handle_map s p) (cm_local_size p) = handle_ranks s p"
      by (simp add: s2_def map_ranks_def handle_ranks_def)
    have c3: "build_rtwmap junk ?b (handle_map s p) order s2 = Inr s3"
      using build_rtwmap_Inr [of s2 ?b z "handle_map s p" "cm_local_size p" order junk] mo keys(1) lb wb mr
      by (simp add: s2_def s3_def map_ok_def ws)
    define x where "x = z\<lparr>cs_rtw_map := ?b + 1, ref_withinComm_countptr := ?b + 2, ref_acrossComm_countptr := ?b + 3,
        co_barrier_vars := ?b + 4\<rparr>"
    define s5 where "s5 = s3\<lparr>counters := (counters s)(?b + 2 \<mapsto> 1, ?b + 3 \<mapsto> 1), barriers := (barriers s)(?b + 4 \<mapsto> zero_barrier),
        shareds := (shareds s)(?b \<mapsto> x), brk := ?b + 5\<rparr>"
    have c5: "bind_outcome (MPIR_Comm_init_coshared_all_ref ?b s3) (\<lambda>s4. bind_outcome (init_barrier_vars ?b s4) f) = f s5"
      for f :: "hwp \<Rightarrow> (comm mpi_result \<times> hwp) outcome"
      by (simp add: init_all_ref_Inr init_barrier_vars_Inr s3_def s2_def s5_def x_def eval_nat_numeral)
    have "cl_rep (contextLeader_hshtbl s5) M" using h(2) by (simp add: s5_def s3_def s2_def)
    moreover have "card (dom M) \<le> HSH_CAPACITY" using en cap by (rule entries_capacity)
    ultimately obtain h6 where h6: "insert_entry ok (cm_context_id c) (leader_worldrank c) ?b s5 =
        Inr (Some \<lparr>context_id = cm_context_id c, LeaderWorldRank = leader_worldrank c, coproclet_shared_vars = ?b\<rparr>,
          s5\<lparr>contextLeader_hshtbl := h6\<rparr>)"
        "cl_rep h6 (M(comm_key c \<mapsto> \<lparr>context_id = cm_context_id c, LeaderWorldRank = leader_worldrank c, coproclet_shared_vars = ?b\<rparr>))"
      using insert_entry_Inr [of s5 M ok "cm_context_id c" "leader_worldrank c" ?b] ok None by (auto simp: comm_key_def)
    let ?c = "c\<lparr>co_shared_vars := ?b\<rparr>"
    have ck: "comm_key ?c = comm_key c" by (simp add: comm_key_def)
    have new: "share_inv (s5\<lparr>contextLeader_hshtbl := h6\<rparr>)
          (M(comm_key ?c \<mapsto> \<lparr>context_id = cm_context_id c, LeaderWorldRank = leader_worldrank c, coproclet_shared_vars = ?b\<rparr>)) (?c # cs) \<and>
        handle_ranks (s5\<lparr>contextLeader_hshtbl := h6\<rparr>) ?c = ws \<and>
        (\<forall>d. parent_ok cs d \<longrightarrow> handle_ranks (s5\<lparr>contextLeader_hshtbl := h6\<rparr>) d = handle_ranks s d)"
      by (rule own_map_step [OF inv, where x = x])
        (use key None h6(2) len pos in \<open>simp_all add: ck s5_def s3_def s2_def x_def\<close>)
    have "split_share ok memory_left junk (handle_map s p) order c s = Inr (Inr ?c, s5\<lparr>contextLeader_hshtbl := h6\<rparr>)"
      using h(1) None c3 c5 h6(1) by (simp add: split_share_def calloc_shared_def s2_def z_def)
    then show ?thesis using new by blast
  qed
qed

subsection \<open>Duplicating\<close>

text \<open>A copy of the same size shares the map and the counter across communicators of its parent.\<close>

lemma shared_map_step:
  assumes inv: "share_inv s M cs" and p: "parent_ok cs p" and px: "shareds s (co_shared_vars p) = Some px"
    and key: "comm_key c \<notin> predefined_keys" "M (comm_key c) = None"
    and s': "shareds s' = (shareds s)(co_shared_vars c \<mapsto> x)"
      "counters s' = (counters s)(ref_withinComm_countptr x \<mapsto> 1,
         ref_acrossComm_countptr px \<mapsto> across_count (shareds s) cs (ref_acrossComm_countptr px) + 1)"
      "barriers s' = (barriers s)(co_barrier_vars x \<mapsto> zero_barrier)"
      "rtw_maps s' = rtw_maps s" "worldcomm_rtw_map s' = worldcomm_rtw_map s"
      "cl_rep (contextLeader_hshtbl s') (M(comm_key c \<mapsto> i))" "coproclet_shared_vars i = co_shared_vars c"
    and x: "cs_rtw_map x = cs_rtw_map px" "ref_acrossComm_countptr x = ref_acrossComm_countptr px"
    and block: "brk s' = brk s + 3" "{co_shared_vars c, ref_withinComm_countptr x, co_barrier_vars x} \<subseteq> {brk s..<brk s + 3}"
    and size: "cm_local_size c = cm_local_size p"
  shows "share_inv s' (M(comm_key c \<mapsto> i)) (c # cs) \<and> handle_ranks s' c = handle_ranks s p \<and>
    (\<forall>d. parent_ok cs d \<longrightarrow> handle_ranks s' d = handle_ranks s d)"
proof -
  have fa: "fresh_above s" and ref: "refs_ok (counters s) (shareds s) cs"
    and bl: "blocks_ok (rtw_maps s) (barriers s) (shareds s)" and ap: "apart (shareds s)"
    using inv unfolding share_inv_def by blast+
  have blk: "brk s \<le> co_shared_vars c" "brk s \<le> ref_withinComm_countptr x" "brk s \<le> co_barrier_vars x"
    "co_shared_vars c < brk s'" "ref_withinComm_countptr x < brk s'" "co_barrier_vars x < brk s'"
    using block by auto
  have pc: "counters s (ref_acrossComm_countptr px) \<noteq> None" using ref px unfolding refs_ok_def by force
  have pac: "0 < ref_acrossComm_countptr px" "ref_acrossComm_countptr px < brk s"
    using fa pc unfolding fresh_above_def by (metis gr0I, metis not_le)
  have pm: "rtw_maps s (cs_rtw_map px) \<noteq> []" "cs_rtw_map px \<noteq> NULL" using bl px unfolding blocks_ok_def by blast+
  have pmb: "cs_rtw_map px < brk s" using live_block(2) [OF inv p] px by (simp add: handle_map_def)
  have mo: "map_ok s (cs_rtw_map px) (cm_local_size p)" using parent_handle [OF inv p] px by (simp add: handle_map_def)
  have "share_inv s' (M(comm_key c \<mapsto> i)) (c # cs)"
  proof (rule inv_new [OF inv s'(1) _ s'(3) s'(5,6)])
    show "counters s' = (counters s)(ref_withinComm_countptr x \<mapsto> 1,
        ref_acrossComm_countptr x \<mapsto> across_count (shareds s) cs (ref_acrossComm_countptr x) + 1)"
      using s'(2) x by simp
    show "(ref_acrossComm_countptr y = ref_acrossComm_countptr x \<longleftrightarrow> cs_rtw_map y = cs_rtw_map x) \<and>
        ref_withinComm_countptr y \<noteq> ref_acrossComm_countptr x" if "shareds s q = Some y" for q y
      using ap px that unfolding x apart_def by metis
    show "map_ok s' (cs_rtw_map x) (cm_local_size c)" using mo size by (simp add: map_ok_def s'(4,5) x)
  qed (use blk block key pac pm pmb in \<open>auto simp: s' x\<close>)
  moreover have "handle_ranks s' c = handle_ranks s p"
    using px by (simp add: handle_ranks_def handle_map_def map_ranks_def s'(1,4,5) x size)
  moreover have "handle_ranks s' d = handle_ranks s d" if "parent_ok cs d" for d
    using live_block [OF inv that] blk(1) by (simp add: handle_ranks_def handle_map_def map_ranks_def s'(1,4,5))
  ultimately show ?thesis by blast
qed

lemma copy_create_smaller:
  assumes inv: "share_inv s M cs" and ok: "\<forall>k \<in> set table_sizes. ok k" and cap: "length cs + 3 \<le> HSH_CAPACITY"
    and p: "parent_ok cs p" and key: "comm_key c \<notin> predefined_keys" "M (comm_key c) = None" and l: "0 \<le> leader_worldrank c"
    and size: "0 < cm_local_size c" "cm_local_size c < cm_local_size p"
  shows "\<exists>a s' M'. MPIR_Comm_copy_share ok memory_left junk p c s = Inr (Inr (c\<lparr>co_shared_vars := a\<rparr>), s') \<and>
    share_inv s' M' (c\<lparr>co_shared_vars := a\<rparr> # cs) \<and>
    handle_ranks s' (c\<lparr>co_shared_vars := a\<rparr>) = take (nat (cm_local_size c)) (handle_ranks s p) \<and>
    (\<forall>d. parent_ok cs d \<longrightarrow> handle_ranks s' d = handle_ranks s d)"
proof -
  let ?b = "brk s" and ?n = "nat (cm_local_size c)"
  let ?ws = "take ?n (handle_ranks s p)" and ?keys = "map int [0..<nat (cm_local_size c)]"
  have cl: "cl_rep (contextLeader_hshtbl s) M" and en: "entries_ok M cs" using inv unfolding share_inv_def by blast+
  have lp: "length (handle_ranks s p) = nat (cm_local_size p)" using inv p by (rule handle_ranks_length)
  obtain h where h: "find_entry (cm_context_id c) (leader_worldrank c) s = Inr (None, s\<lparr>contextLeader_hshtbl := h\<rparr>)" "cl_rep h M"
    using find_entry_Inr [OF cl, of "cm_context_id c" "leader_worldrank c"] key(2) by (auto simp: comm_key_def)
  obtain px where px: "shareds s (co_shared_vars p) = Some px" using parent_shared [OF inv p] by metis
  have pb: "co_shared_vars p \<noteq> ?b" "cs_rtw_map px < ?b" "map_ok s (cs_rtw_map px) (cm_local_size p)"
    using live_block [OF inv p] parent_handle [OF inv p] px by (auto simp: handle_map_def)
  have wb: "worldcomm_rtw_map s < ?b" using inv by (rule world_map_below)
  define z where "z = zero_shared"
  define s2 where "s2 = s\<lparr>contextLeader_hshtbl := h, shareds := (shareds s)(?b \<mapsto> z), brk := ?b + 1\<rparr>"
  define s3 where "s3 = s2\<lparr>rtw_maps := (rtw_maps s)(?b + 1 := ?ws @ [-2]),
      shareds := (shareds s)(?b \<mapsto> z\<lparr>cs_rtw_map := ?b + 1\<rparr>), brk := ?b + 2\<rparr>"
  have "map_ranks s2 (cs_rtw_map px) (cm_local_size p) = handle_ranks s p"
    using px by (simp add: s2_def map_ranks_def handle_ranks_def handle_map_def)
  moreover have "map (\<lambda>k. handle_ranks s p ! nat k) ?keys = ?ws"
    using lp size by (intro nth_equalityI) auto
  moreover have "\<forall>k\<in>set ?keys. 0 \<le> k \<and> k < cm_local_size p" using size by auto
  ultimately have c3: "build_rtwmap junk ?b (cs_rtw_map px) ?keys s2 = Inr s3"
    using build_rtwmap_Inr [of s2 ?b z "cs_rtw_map px" "cm_local_size p" ?keys junk] pb wb size
    by (simp add: s2_def s3_def map_ok_def)
  define x where "x = z\<lparr>cs_rtw_map := ?b + 1, co_barrier_vars := ?b + 2, ptn_hash := ptn_hash px,
      nested_local_size := nested_local_size px, nested_external_size := nested_external_size px,
      nested_fg_local_size := nested_fg_local_size px, ref_withinComm_countptr := ?b + 3, ref_acrossComm_countptr := ?b + 4\<rparr>"
  define s5 where "s5 = s3\<lparr>barriers := (barriers s)(?b + 2 \<mapsto> zero_barrier), counters := (counters s)(?b + 3 \<mapsto> 1, ?b + 4 \<mapsto> 1),
      shareds := (shareds s)(?b \<mapsto> x), brk := ?b + 5\<rparr>"
  have c5: "bind_outcome (init_barrier_vars ?b s3) (\<lambda>s4. bind_outcome (set_shared ?b (\<lambda>x. x\<lparr>ptn_hash := ptn_hash px,
        nested_local_size := nested_local_size px, nested_external_size := nested_external_size px,
        nested_fg_local_size := nested_fg_local_size px\<rparr>) s4)
      (\<lambda>s5. bind_outcome (MPIR_Comm_init_coshared_all_ref ?b s5) f)) = f s5"
    for f :: "hwp \<Rightarrow> (comm mpi_result \<times> hwp) outcome"
    by (simp add: init_all_ref_Inr init_barrier_vars_Inr set_shared_Inr s3_def s2_def s5_def x_def eval_nat_numeral)
  have "cl_rep (contextLeader_hshtbl s5) M" using h(2) by (simp add: s5_def s3_def s2_def)
  moreover have "card (dom M) \<le> HSH_CAPACITY" using en cap by (rule entries_capacity)
  ultimately obtain h6 where h6: "insert_entry ok (cm_context_id c) (leader_worldrank c) ?b s5 =
      Inr (Some \<lparr>context_id = cm_context_id c, LeaderWorldRank = leader_worldrank c, coproclet_shared_vars = ?b\<rparr>,
        s5\<lparr>contextLeader_hshtbl := h6\<rparr>)"
      "cl_rep h6 (M(comm_key c \<mapsto> \<lparr>context_id = cm_context_id c, LeaderWorldRank = leader_worldrank c, coproclet_shared_vars = ?b\<rparr>))"
    using insert_entry_Inr [of s5 M ok "cm_context_id c" "leader_worldrank c" ?b] ok key(2) by (auto simp: comm_key_def)
  let ?c = "c\<lparr>co_shared_vars := ?b\<rparr>" and ?s = "s5\<lparr>contextLeader_hshtbl := h6\<rparr>"
  have ck: "comm_key ?c = comm_key c" by (simp add: comm_key_def)
  have pos: "\<forall>w\<in>set ?ws. 0 \<le> w" using handle_ranks_nonneg [OF inv p] by (meson in_set_takeD)
  have len: "cm_local_size c = int (length ?ws)" using lp size by simp
  have new: "share_inv ?s (M(comm_key ?c \<mapsto> \<lparr>context_id = cm_context_id c, LeaderWorldRank = leader_worldrank c,
        coproclet_shared_vars = ?b\<rparr>)) (?c # cs) \<and> handle_ranks ?s ?c = ?ws \<and>
      (\<forall>d. parent_ok cs d \<longrightarrow> handle_ranks ?s d = handle_ranks s d)"
    by (rule own_map_step [OF inv, where x = x])
      (use key h6(2) len pos size in \<open>simp_all add: ck s5_def s3_def s2_def x_def\<close>)
  have "MPIR_Comm_copy_share ok memory_left junk p c s = Inr (Inr ?c, ?s)"
    using h(1) c3 c5 h6(1) size l px pb(1) by (simp add: MPIR_Comm_copy_share_def calloc_shared_def s2_def z_def)
  then show ?thesis using new by blast
qed

lemma copy_create_same:
  assumes inv: "share_inv s M cs" and ok: "\<forall>k \<in> set table_sizes. ok k" and cap: "length cs + 3 \<le> HSH_CAPACITY"
    and p: "parent_ok cs p" and key: "comm_key c \<notin> predefined_keys" "M (comm_key c) = None" and l: "0 \<le> leader_worldrank c"
    and size: "cm_local_size c = cm_local_size p"
  shows "\<exists>a s' M'. MPIR_Comm_copy_share ok memory_left junk p c s = Inr (Inr (c\<lparr>co_shared_vars := a\<rparr>), s') \<and>
    share_inv s' M' (c\<lparr>co_shared_vars := a\<rparr> # cs) \<and> handle_ranks s' (c\<lparr>co_shared_vars := a\<rparr>) = handle_ranks s p \<and>
    (\<forall>d. parent_ok cs d \<longrightarrow> handle_ranks s' d = handle_ranks s d)"
proof -
  let ?b = "brk s"
  have cl: "cl_rep (contextLeader_hshtbl s) M" and en: "entries_ok M cs" and ref: "refs_ok (counters s) (shareds s) cs"
    and fa: "fresh_above s"
    using inv unfolding share_inv_def by blast+
  obtain h where h: "find_entry (cm_context_id c) (leader_worldrank c) s = Inr (None, s\<lparr>contextLeader_hshtbl := h\<rparr>)" "cl_rep h M"
    using find_entry_Inr [OF cl, of "cm_context_id c" "leader_worldrank c"] key(2) by (auto simp: comm_key_def)
  obtain px e where px: "shareds s (co_shared_vars p) = Some px" and e: "M (comm_key p) = Some e" "coproclet_shared_vars e = co_shared_vars p"
    using parent_shared [OF inv p] by metis
  have pb: "co_shared_vars p \<noteq> ?b" using live_block [OF inv p] by simp
  define pc where "pc = ref_acrossComm_countptr px"
  define m where "m = across_count (shareds s) cs pc"
  have pc: "counters s pc = Some m" using ref px unfolding refs_ok_def pc_def m_def by blast
  have pcb: "pc < ?b" using fa pc unfolding fresh_above_def by (metis not_le option.distinct(1))
  define z where "z = zero_shared"
  define s5 where "s5 = s\<lparr>contextLeader_hshtbl := h, barriers := (barriers s)(?b + 1 \<mapsto> zero_barrier), brk := ?b + 2,
      shareds := (shareds s)(?b \<mapsto> z\<lparr>cs_rtw_map := cs_rtw_map px, co_barrier_vars := ?b + 1, ptn_hash := ptn_hash px,
        nested_local_size := nested_local_size px, nested_external_size := nested_external_size px,
        nested_fg_local_size := nested_fg_local_size px\<rparr>)\<rparr>"
  have c5: "bind_outcome (set_shared ?b (\<lambda>x. x\<lparr>cs_rtw_map := cs_rtw_map px\<rparr>)
        (s\<lparr>contextLeader_hshtbl := h, shareds := (shareds s)(?b \<mapsto> z), brk := Suc ?b\<rparr>)) (\<lambda>s3.
      bind_outcome (init_barrier_vars ?b s3) (\<lambda>s4. bind_outcome (set_shared ?b (\<lambda>x. x\<lparr>ptn_hash := ptn_hash px,
        nested_local_size := nested_local_size px, nested_external_size := nested_external_size px,
        nested_fg_local_size := nested_fg_local_size px\<rparr>) s4) f)) = f s5"
    for f :: "hwp \<Rightarrow> (comm mpi_result \<times> hwp) outcome"
    by (simp add: init_barrier_vars_Inr set_shared_Inr s5_def eval_nat_numeral)
  have "cl_rep (contextLeader_hshtbl s5) M" using h(2) by (simp add: s5_def)
  then obtain h6 where h6: "find_entry (cm_context_id p) (leader_worldrank p) s5 = Inr (Some e, s5\<lparr>contextLeader_hshtbl := h6\<rparr>)"
      "cl_rep h6 M"
    using find_entry_Inr [of s5 M "cm_context_id p" "leader_worldrank p"] e(1) by (auto simp: comm_key_def)
  define x where "x = z\<lparr>cs_rtw_map := cs_rtw_map px, co_barrier_vars := ?b + 1, ptn_hash := ptn_hash px,
      nested_local_size := nested_local_size px, nested_external_size := nested_external_size px,
      nested_fg_local_size := nested_fg_local_size px, ref_acrossComm_countptr := pc, ref_withinComm_countptr := ?b + 2\<rparr>"
  define s8 where "s8 = s5\<lparr>contextLeader_hshtbl := h6, counters := (counters s)(?b + 2 \<mapsto> 1, pc \<mapsto> m + 1),
      shareds := (shareds s)(?b \<mapsto> x), brk := ?b + 3\<rparr>"
  have c8: "bind_outcome (set_shared ?b (\<lambda>x. x\<lparr>ref_acrossComm_countptr := pc\<rparr>) (s5\<lparr>contextLeader_hshtbl := h6\<rparr>)) (\<lambda>s7.
      bind_outcome (MPIR_Comm_add_coshared_acrossComm_ref ?b s7) (MPIR_Comm_init_coshared_withinComm_ref ?b)) = Inr s8"
    using pc pcb by (simp add: set_shared_Inr s5_def s8_def x_def MPIR_Comm_add_coshared_acrossComm_ref_def bump_counter_Inr
        MPIR_Comm_init_coshared_withinComm_ref_def alloc_counter_def eval_nat_numeral fun_upd_twist)
  have "cl_rep (contextLeader_hshtbl s8) M" using h6(2) by (simp add: s8_def)
  moreover have "card (dom M) \<le> HSH_CAPACITY" using en cap by (rule entries_capacity)
  ultimately obtain h9 where h9: "insert_entry ok (cm_context_id c) (leader_worldrank c) ?b s8 =
      Inr (Some \<lparr>context_id = cm_context_id c, LeaderWorldRank = leader_worldrank c, coproclet_shared_vars = ?b\<rparr>,
        s8\<lparr>contextLeader_hshtbl := h9\<rparr>)"
      "cl_rep h9 (M(comm_key c \<mapsto> \<lparr>context_id = cm_context_id c, LeaderWorldRank = leader_worldrank c, coproclet_shared_vars = ?b\<rparr>))"
    using insert_entry_Inr [of s8 M ok "cm_context_id c" "leader_worldrank c" ?b] ok key(2) by (auto simp: comm_key_def)
  let ?c = "c\<lparr>co_shared_vars := ?b\<rparr>" and ?s = "s8\<lparr>contextLeader_hshtbl := h9\<rparr>"
  have ck: "comm_key ?c = comm_key c" by (simp add: comm_key_def)
  have new: "share_inv ?s (M(comm_key ?c \<mapsto> \<lparr>context_id = cm_context_id c, LeaderWorldRank = leader_worldrank c,
        coproclet_shared_vars = ?b\<rparr>)) (?c # cs) \<and> handle_ranks ?s ?c = handle_ranks s p \<and>
      (\<forall>d. parent_ok cs d \<longrightarrow> handle_ranks ?s d = handle_ranks s d)"
    by (rule shared_map_step [OF inv p px, where x = x])
      (use key h9(2) size in \<open>simp_all add: ck s8_def s5_def x_def pc_def m_def\<close>)
  have gp: "get_shared (co_shared_vars p) (s5\<lparr>contextLeader_hshtbl := h6\<rparr>) = Inr px" using px pb by (simp add: s5_def)
  have gp2: "get_shared (co_shared_vars p) (s\<lparr>contextLeader_hshtbl := h, shareds := (shareds s)(?b \<mapsto> z), brk := Suc ?b\<rparr>) = Inr px"
    using px pb by simp
  have "MPIR_Comm_copy_share ok memory_left junk p c s = Inr (Inr ?c, ?s)"
    using h(1) h6(1) h9(1) size l e(2) c8 gp gp2
    by (simp add: MPIR_Comm_copy_share_def calloc_shared_def flip: z_def) (simp add: c5 pc_def)
  then show ?thesis using new by blast
qed

lemma copy_share_step:
  assumes inv: "share_inv s M cs" and ok: "\<forall>k \<in> set table_sizes. ok k" and cap: "length cs + 3 \<le> HSH_CAPACITY"
    and p: "parent_ok cs p" and key: "comm_key c \<notin> predefined_keys" and l: "0 \<le> leader_worldrank c"
    and size: "0 < cm_local_size c" "cm_local_size c \<le> cm_local_size p"
    and ws: "ws = take (nat (cm_local_size c)) (handle_ranks s p)"
    and coh: "\<And>d. d \<in> set cs \<Longrightarrow> comm_key d = comm_key c \<Longrightarrow> handle_ranks s d = ws"
  shows "\<exists>a s' M'. MPIR_Comm_copy_share ok memory_left junk p c s = Inr (Inr (c\<lparr>co_shared_vars := a\<rparr>), s') \<and>
    share_inv s' M' (c\<lparr>co_shared_vars := a\<rparr> # cs) \<and> handle_ranks s' (c\<lparr>co_shared_vars := a\<rparr>) = ws \<and>
    (\<forall>d. parent_ok cs d \<longrightarrow> handle_ranks s' d = handle_ranks s d)"
proof (cases "M (comm_key c)")
  case (Some e)
  have lp: "length (handle_ranks s p) = nat (cm_local_size p)" using inv p by (rule handle_ranks_length)
  then have len: "cm_local_size c = int (length ws)" using ws size by simp
  have cl: "cl_rep (contextLeader_hshtbl s) M" using inv unfolding share_inv_def by blast
  obtain h where h: "find_entry (cm_context_id c) (leader_worldrank c) s = Inr (Some e, s\<lparr>contextLeader_hshtbl := h\<rparr>)" "cl_rep h M"
    using find_entry_Inr [OF cl, of "cm_context_id c" "leader_worldrank c"] Some by (auto simp: comm_key_def)
  have inv1: "share_inv (s\<lparr>contextLeader_hshtbl := h\<rparr>) M cs" using inv h(2) by (rule share_inv_hash)
  have hr1: "handle_ranks (s\<lparr>contextLeader_hshtbl := h\<rparr>) d = handle_ranks s d" for d by (rule handle_ranks_same) simp_all
  obtain s' where "MPIR_Comm_add_coshared_all_ref (coproclet_shared_vars e) (s\<lparr>contextLeader_hshtbl := h\<rparr>) = Inr s'"
      "share_inv s' M (c\<lparr>co_shared_vars := coproclet_shared_vars e\<rparr> # cs)"
      "handle_ranks s' (c\<lparr>co_shared_vars := coproclet_shared_vars e\<rparr>) = ws" "\<forall>d. handle_ranks s' d = handle_ranks s d"
    using join_step [OF inv1 key Some, of ws] coh len size(1) hr1 by auto
  then show ?thesis using h(1) l by (auto simp: MPIR_Comm_copy_share_def)
next
  case None
  have lp: "length (handle_ranks s p) = nat (cm_local_size p)" using inv p by (rule handle_ranks_length)
  show ?thesis
  proof (cases "cm_local_size c = cm_local_size p")
    case True
    then show ?thesis using copy_create_same [OF inv ok cap p key None l True] ws lp by simp
  next
    case False
    then show ?thesis using copy_create_smaller [OF inv ok cap p key None l size(1)] ws size(2) by simp
  qed
qed

subsection \<open>Releasing\<close>

lemma comm_free_ranks:
  assumes inv: "share_inv s M cs" and c: "c \<in> set cs"
  shows "\<exists>s' M'. MPIR_Comm_free_impl c s = Inr s' \<and> share_inv s' M' (remove1 c cs) \<and>
    (\<forall>d\<in>set (remove1 c cs). handle_ranks s' d = handle_ranks s d)"
proof -
  obtain s' M' where s': "MPIR_Comm_free_impl c s = Inr s'" "share_inv s' M' (remove1 c cs)"
      "worldcomm_rtw_map s' = worldcomm_rtw_map s"
      "\<And>b y. b \<noteq> co_shared_vars c \<Longrightarrow> shareds s' b = shareds s b"
      "shareds s' (co_shared_vars c) \<noteq> None \<Longrightarrow> shareds s' (co_shared_vars c) = shareds s (co_shared_vars c)"
      "\<And>m. rtw_maps s' m \<noteq> [] \<Longrightarrow> rtw_maps s' m = rtw_maps s m"
    using comm_free_step [OF inv c] by metis
  have "handle_ranks s' d = handle_ranks s d" if "d \<in> set (remove1 c cs)" for d
  proof -
    have p: "parent_ok (remove1 c cs) d" using that by (simp add: parent_ok_def)
    obtain y where y: "shareds s' (co_shared_vars d) = Some y" using parent_shared [OF s'(2) p] by metis
    have "blocks_ok (rtw_maps s') (barriers s') (shareds s')" using s'(2) unfolding share_inv_def by blast
    then have "rtw_maps s' (cs_rtw_map y) \<noteq> []" using y unfolding blocks_ok_def by blast
    moreover have "shareds s (co_shared_vars d) = Some y" using y s'(4,5) by (metis option.distinct(1))
    ultimately show ?thesis using y s'(3,6) by (simp add: handle_ranks_def handle_map_def map_ranks_def)
  qed
  then show ?thesis using s'(1,2) by blast
qed

end
