(* ===== verification/Comm_Run.thy ===== *)
theory Comm_Run
  imports Comm_Life
begin

section \<open>Splitting, duplicating and freeing communicators\<close>

text \<open>
  What \<^verbatim>\<open>MPIR_Comm_split_impl\<close>, \<^verbatim>\<open>MPIR_Comm_copy\<close> and \<^verbatim>\<open>MPIR_Comm_free_impl\<close> give on states that the
  coroutines of one process reach from \<^verbatim>\<open>MPID_Init\<close> by these routines: the ranks of the new
  communicator, its leader, the map all its co-located members see, and that no block is freed
  early.  The routines are modelled up to their calls of \<^verbatim>\<open>MPIR_Comm_commit\<close>,
  \<^verbatim>\<open>MPIR_Comm_share_commit\<close> and \<^verbatim>\<open>MPIR_Comm_release\<close>, so the states hold the blocks of the
  communicators themselves and not those of the communicators nested in them (theory
  \<open>Comm_Nested\<close> has the maps of the nested ones).  The properties hold under two conditions on the
  calls, \<open>unique_id\<close> and \<open>holder\<close> below, which the code does not enforce; property
  \<open>split_stale_entry\<close> shows what happens when the first one fails.
\<close>

subsection \<open>Start-up\<close>

definition world_entry :: "int \<Rightarrow> cLitem" where
  "world_entry cid = \<lparr>context_id = cid, LeaderWorldRank = 0, coproclet_shared_vars = world_shared\<rparr>"

definition world_table :: "int \<times> int \<rightharpoonup> cLitem" where
  "world_table = [(0, 0) \<mapsto> world_entry 0, (16, 0) \<mapsto> world_entry 16, (32, 0) \<mapsto> world_entry 32]"

lemma insert_predefined_Inr:
  assumes "cl_rep (contextLeader_hshtbl s) Map.empty" "\<forall>k \<in> set table_sizes. ok k"
  shows "\<exists>h. insert_predefined ok world_shared predefined_ids s = Inr (s\<lparr>contextLeader_hshtbl := h\<rparr>) \<and> cl_rep h world_table"
proof -
  have cap: "card (dom (M :: int \<times> int \<rightharpoonup> cLitem)) \<le> HSH_CAPACITY" if "dom M \<subseteq> {(0, 0), (16, 0)}" for M
  proof -
    have "card (dom M) \<le> card {(0 :: int, 0 :: int), (16, 0)}" using that by (intro card_mono) auto
    then show ?thesis by (simp add: HSH_CAPACITY_def)
  qed
  obtain h1 where h1: "insert_entry ok 0 0 world_shared s = Inr (Some (world_entry 0), s\<lparr>contextLeader_hshtbl := h1\<rparr>)"
      "cl_rep h1 [(0, 0) \<mapsto> world_entry 0]"
    using insert_entry_Inr [OF assms, of 0 0 world_shared] cap [of Map.empty] by (auto simp: world_entry_def)
  obtain h2 where h2: "insert_entry ok 16 0 world_shared (s\<lparr>contextLeader_hshtbl := h1\<rparr>) =
        Inr (Some (world_entry 16), s\<lparr>contextLeader_hshtbl := h2\<rparr>)"
      "cl_rep h2 [(0, 0) \<mapsto> world_entry 0, (16, 0) \<mapsto> world_entry 16]"
    using insert_entry_Inr [of "s\<lparr>contextLeader_hshtbl := h1\<rparr>" "[(0, 0) \<mapsto> world_entry 0]" ok 16 0 world_shared] h1(2) assms(2)
      cap [of "[(0, 0) \<mapsto> world_entry 0]"] by (auto simp: world_entry_def)
  obtain h3 where h3: "insert_entry ok 32 0 world_shared (s\<lparr>contextLeader_hshtbl := h2\<rparr>) =
        Inr (Some (world_entry 32), s\<lparr>contextLeader_hshtbl := h3\<rparr>)" "cl_rep h3 world_table"
    using insert_entry_Inr [of "s\<lparr>contextLeader_hshtbl := h2\<rparr>" "[(0, 0) \<mapsto> world_entry 0, (16, 0) \<mapsto> world_entry 16]"
        ok 32 0 world_shared] h2(2) assms(2) cap [of "[(0, 0) \<mapsto> world_entry 0, (16, 0) \<mapsto> world_entry 16]"]
    by (auto simp: world_entry_def world_table_def)
  have "insert_predefined ok world_shared predefined_ids s = Inr (s\<lparr>contextLeader_hshtbl := h3\<rparr>)"
    using h1(1) h2(1) h3(1) by (simp add: predefined_ids_def check_def)
  then show ?thesis using h3(2) by blast
qed

lemma init_inv:
  assumes ok: "\<forall>k \<in> set table_sizes. ok k"
  shows "\<exists>s. MPID_Init_share ok pids totprocs = Inr s \<and> share_inv s world_table []"
proof -
  have "ok INITSZ" using ok by (simp add: table_sizes_def)
  then obtain h where h: "CL_LookupHashCreate ok = Some h" "cl_rep h Map.empty"
    using cl.rep_init [of ok] by (auto simp: CL_LookupHashCreate_def contextidLeaderdupe_def)
  define x where "x = zero_shared\<lparr>ref_withinComm_countptr := 2, ref_acrossComm_countptr := 3, cs_rtw_map := 4, co_barrier_vars := 5\<rparr>"
  define s where "s = \<lparr>pid_size = int (length pids), pid_to_fgps = pids, worldcomm_rtw_map = 4,
      rtw_maps = (\<lambda>_. [])(4 := RTWarrayWorldCreate totprocs), counters = [2 \<mapsto> 1, 3 \<mapsto> 1], shareds = [1 \<mapsto> x],
      barriers = [5 \<mapsto> zero_barrier], contextLeader_hshtbl = h, brk = 6\<rparr>"
  have "cl_rep (contextLeader_hshtbl s) Map.empty" using h(2) by (simp add: s_def)
  from insert_predefined_Inr [OF this ok] obtain h' where
    h': "insert_predefined ok world_shared predefined_ids s = Inr (s\<lparr>contextLeader_hshtbl := h'\<rparr>)" "cl_rep h' world_table"
    by blast
  have "MPID_Init_share ok pids totprocs = insert_predefined ok world_shared predefined_ids s"
    using h(1) by (simp add: MPID_Init_share_def calloc_shared_def init_all_ref_Inr set_shared_Inr init_barrier_vars_Inr
        Let_def s_def x_def eval_nat_numeral)
  moreover have "share_inv (s\<lparr>contextLeader_hshtbl := h'\<rparr>) world_table []"
    unfolding share_inv_def
  proof (intro conjI)
    show "entries_ok world_table []"
      by (auto simp: entries_ok_def world_table_def world_entry_def predefined_keys_def predefined_ids_def)
    show "apart (shareds (s\<lparr>contextLeader_hshtbl := h'\<rparr>))" by (simp add: apart_def s_def x_def)
    show "fresh_above (s\<lparr>contextLeader_hshtbl := h'\<rparr>)" by (simp add: fresh_above_def s_def)
    show "refs_ok (counters (s\<lparr>contextLeader_hshtbl := h'\<rparr>)) (shareds (s\<lparr>contextLeader_hshtbl := h'\<rparr>)) []"
      by (simp add: refs_ok_def s_def x_def within_count_def across_count_def across_of_def)
  qed (use h'(2) in \<open>simp_all add: handles_ok_def keys_ok_def live_ok_def blocks_ok_def no_garbage_def sizes_ok_def s_def x_def
        RTWarrayWorldCreate_def\<close>)
  ultimately show ?thesis using h'(1) by simp
qed

subsection \<open>The communicators held\<close>

text \<open>
  The handles the coroutines hold, each with the world ranks of its processes.  Besides these, a
  routine may be given a predefined communicator over all processes (\<^verbatim>\<open>MPI_COMM_WORLD\<close> or the
  internal copy of it).  \<^verbatim>\<open>MPI_COMM_SELF\<close> as the parent is left out: \<^verbatim>\<open>MPID_Init\<close> gives it the
  shared block and the map of the world (\<^verbatim>\<open>mpid_init.c\<close>, line 244), in which rank 0 is the process
  of world rank 0 and not the caller, so its map is wrong for every other process.
\<close>

type_synonym holds = "(comm \<times> int list) list"

definition holder :: "int \<Rightarrow> holds \<Rightarrow> comm \<Rightarrow> int list \<Rightarrow> bool" where
  "holder totprocs hs p ws \<longleftrightarrow> (p, ws) \<in> set hs \<or>
     cm_context_id p \<in> {0, 32} \<and> leader_worldrank p = 0 \<and> co_shared_vars p = world_shared \<and>
     cm_local_size p = totprocs \<and> 0 < totprocs \<and> ws = map int [0..<nat totprocs]"

text \<open>
  A condition on the new context id: no communicator held in the process, and none of the
  predefined ones, has this id and the same leader, unless it is the same communicator made by a
  co-located process.  The context-id allocation (\<^verbatim>\<open>contextid.c\<close>) does not guarantee this: each
  process returns an id to its own mask when it frees its handle, also while a co-located process
  still holds the communicator.
\<close>

definition unique_id :: "holds \<Rightarrow> int \<Rightarrow> int list \<Rightarrow> bool" where
  "unique_id hs cid ws \<longleftrightarrow> cid \<noteq> 0 \<and> (cid, Min (set ws)) \<notin> predefined_keys \<and>
     (\<forall>(d, vs)\<in>set hs. comm_key d = (cid, Min (set ws)) \<longrightarrow> vs = ws)"

definition split_ranks :: "splittype list \<Rightarrow> int \<Rightarrow> int list \<Rightarrow> int list" where
  "split_ranks table color ws = map (\<lambda>i. ws ! i) (split_order table color)"

text \<open>
  The states reached by splits, copies and releases, in any order, by the coroutines of the process.
  A split or copy is done on a parent that meets \<open>holder\<close>, with an id that meets \<open>unique_id\<close>, with
  memory left and with at most \<open>HSH_CAPACITY\<close> entries for these communicators in the table; a
  handle is released once, by its holder.
\<close>

inductive share_reach :: "(nat \<Rightarrow> bool) \<Rightarrow> FGP_tuple list \<Rightarrow> int \<Rightarrow> hwp \<Rightarrow> holds \<Rightarrow> bool"
  for ok :: "nat \<Rightarrow> bool" and pids :: "FGP_tuple list" and totprocs :: int where
  reach_init: "MPID_Init_share ok pids totprocs = Inr s \<Longrightarrow> share_reach ok pids totprocs s []"
| reach_split: "share_reach ok pids totprocs s hs \<Longrightarrow> holder totprocs hs p ws \<Longrightarrow> length hs + 3 \<le> HSH_CAPACITY \<Longrightarrow>
    length table = length ws \<Longrightarrow> color \<noteq> MPI_UNDEFINED \<Longrightarrow> 0 \<le> cm_rank p \<Longrightarrow> cm_rank p < int (length ws) \<Longrightarrow>
    sp_color (table ! nat (cm_rank p)) = color \<Longrightarrow> unique_id hs cid (split_ranks table color ws) \<Longrightarrow>
    MPIR_Comm_split_impl use_qsort ok memory_left junk table cid p color s = Inr (Inr (Some c), s') \<Longrightarrow>
    share_reach ok pids totprocs s' ((c, split_ranks table color ws) # hs)"
| reach_copy: "share_reach ok pids totprocs s hs \<Longrightarrow> holder totprocs hs p ws \<Longrightarrow> length hs + 3 \<le> HSH_CAPACITY \<Longrightarrow>
    0 \<le> cm_rank p \<Longrightarrow> cm_rank p < n \<Longrightarrow> n \<le> cm_local_size p \<Longrightarrow> unique_id hs cid (take (nat n) ws) \<Longrightarrow>
    MPIR_Comm_copy ok memory_left junk cid p n s = Inr (Inr (Some c), s') \<Longrightarrow>
    share_reach ok pids totprocs s' ((c, take (nat n) ws) # hs)"
| reach_free: "share_reach ok pids totprocs s hs \<Longrightarrow> (c, ws) \<in> set hs \<Longrightarrow> MPIR_Comm_free_impl c s = Inr s' \<Longrightarrow>
    share_reach ok pids totprocs s' (remove1 (c, ws) hs)"

definition life_inv :: "hwp \<Rightarrow> holds \<Rightarrow> bool" where
  "life_inv s hs \<longleftrightarrow> (\<exists>M. share_inv s M (map fst hs)) \<and>
     (\<forall>(c, ws)\<in>set hs. handle_ranks s c = ws \<and> leader_worldrank c = Min (set ws))"

lemma life_invD:
  "life_inv s hs \<Longrightarrow> (c, ws) \<in> set hs \<Longrightarrow> handle_ranks s c = ws \<and> leader_worldrank c = Min (set ws)"
  unfolding life_inv_def by (drule conjunct2, drule (1) bspec) simp

lemma holder_facts:
  assumes "life_inv s hs" "holder totprocs hs p ws"
  shows "parent_ok (map fst hs) p" "handle_ranks s p = ws" "leader_worldrank p = Min (set ws)"
    "length ws = nat (cm_local_size p)" "0 < cm_local_size p" "\<forall>w\<in>set ws. 0 \<le> w"
proof -
  obtain M where inv: "share_inv s M (map fst hs)" using assms(1) by (auto simp: life_inv_def)
  have "parent_ok (map fst hs) p \<and> handle_ranks s p = ws \<and> leader_worldrank p = Min (set ws)"
  proof (cases "(p, ws) \<in> set hs")
    case True
    then show ?thesis using assms(1) by (auto simp: life_inv_def parent_ok_def intro: rev_image_eqI)
  next
    case False
    then have p: "cm_context_id p \<in> {0, 32}" "leader_worldrank p = 0" "co_shared_vars p = world_shared"
      "cm_local_size p = totprocs" "0 < totprocs" "ws = map int [0..<nat totprocs]"
      using assms(2) by (auto simp: holder_def)
    have pk: "parent_ok (map fst hs) p"
      using p by (auto simp: parent_ok_def comm_key_def predefined_keys_def predefined_ids_def)
    have "sizes_ok s (map fst hs)" using inv unfolding share_inv_def by blast
    then have "handle_map s p = worldcomm_rtw_map s" using p(3) by (auto simp: sizes_ok_def handle_map_def)
    then have "handle_ranks s p = ws" using p by (simp add: handle_ranks_def map_ranks_def)
    moreover have "Min (set ws) = 0" using p(5,6) by (intro Min_eqI) auto
    ultimately show ?thesis using pk p(2) by simp
  qed
  then show 1: "parent_ok (map fst hs) p" "handle_ranks s p = ws" "leader_worldrank p = Min (set ws)" by auto
  show "length ws = nat (cm_local_size p)" using handle_ranks_length [OF inv 1(1)] 1(2) by simp
  show "0 < cm_local_size p" using parent_handle [OF inv 1(1)] by (simp add: map_ok_def)
  show "\<forall>w\<in>set ws. 0 \<le> w" using handle_ranks_nonneg [OF inv 1(1)] 1(2) by blast
qed

lemma life_inv_Cons:
  assumes "life_inv s hs" "share_inv s' M' (c # map fst hs)" "handle_ranks s' c = ws" "leader_worldrank c = Min (set ws)"
    "\<And>d. parent_ok (map fst hs) d \<Longrightarrow> handle_ranks s' d = handle_ranks s d"
  shows "life_inv s' ((c, ws) # hs)"
proof -
  have "handle_ranks s' d = vs \<and> leader_worldrank d = Min (set vs)" if "(d, vs) \<in> set hs" for d vs
  proof -
    have "parent_ok (map fst hs) d" using that by (force simp: parent_ok_def)
    then show ?thesis using assms(5) life_invD [OF assms(1) that] by simp
  qed
  then have "\<forall>(d, vs)\<in>set ((c, ws) # hs). handle_ranks s' d = vs \<and> leader_worldrank d = Min (set vs)"
    using assms(3,4) by auto
  moreover have "\<exists>M. share_inv s' M (map fst ((c, ws) # hs))" using assms(2) by auto
  ultimately show ?thesis unfolding life_inv_def by blast
qed

lemma map_fst_remove1:
  "(\<And>vs. (c, vs) \<in> set hs \<Longrightarrow> vs = ws) \<Longrightarrow> map fst (remove1 (c, ws) hs) = remove1 c (map fst hs)"
proof (induction hs)
  case Nil
  then show ?case by simp
next
  case (Cons h hs)
  obtain d vs where h: "h = (d, vs)" by (cases h)
  have IH: "map fst (remove1 (c, ws) hs) = remove1 c (map fst hs)" using Cons.prems by (intro Cons.IH) simp
  show ?case
  proof (cases "d = c")
    case True
    then have "vs = ws" using Cons.prems h by simp
    then show ?thesis using True h by simp
  next
    case False
    then show ?thesis using IH h by simp
  qed
qed

lemma free_life:
  assumes "life_inv s hs" "(c, ws) \<in> set hs"
  shows "\<exists>s'. MPIR_Comm_free_impl c s = Inr s' \<and> life_inv s' (remove1 (c, ws) hs)"
proof -
  obtain M where inv: "share_inv s M (map fst hs)" using assms(1) by (auto simp: life_inv_def)
  have eq: "map fst (remove1 (c, ws) hs) = remove1 c (map fst hs)"
    using life_invD [OF assms(1)] assms(2) by (intro map_fst_remove1) metis
  have c: "c \<in> set (map fst hs)" using assms(2) by force
  obtain s' M' where s': "MPIR_Comm_free_impl c s = Inr s'" "share_inv s' M' (remove1 c (map fst hs))"
      "\<forall>d\<in>set (remove1 c (map fst hs)). handle_ranks s' d = handle_ranks s d"
    using comm_free_ranks [OF inv c] by blast
  have "handle_ranks s' d = vs \<and> leader_worldrank d = Min (set vs)" if "(d, vs) \<in> set (remove1 (c, ws) hs)" for d vs
  proof -
    have "(d, vs) \<in> set hs" using that by (meson notin_set_remove1)
    moreover have "d \<in> set (remove1 c (map fst hs))" using that eq by (metis fst_conv image_eqI list.set_map)
    ultimately show ?thesis using assms(1) s'(3) by (auto simp: life_inv_def)
  qed
  then show ?thesis using s'(1,2) eq by (auto simp: life_inv_def)
qed

subsection \<open>Splitting\<close>

definition split_comm :: "splittype list \<Rightarrow> int \<Rightarrow> comm \<Rightarrow> int \<Rightarrow> int list \<Rightarrow> nat \<Rightarrow> comm" where
  "split_comm table cid p color ws j =
     \<lparr>cm_context_id = cid, leader_worldrank = Min (set (split_ranks table color ws)), co_shared_vars = NULL,
      cm_rank = int j, cm_local_size = int (length (split_order table color)), cm_p_rank = cm_p_rank p,
      num_osprocs = num_osprocs p\<rparr>"

lemma split_impl_eq:
  assumes "life_inv s hs" "holder totprocs hs p ws" "length table = length ws" "color \<noteq> MPI_UNDEFINED" "cid \<noteq> 0"
    and j: "j < length (split_order table color)" "int (split_order table color ! j) = cm_rank p"
  shows "MPIR_Comm_split_impl q ok co junk table cid p color s =
    bind_outcome (split_share ok co junk (handle_map s p) (map int (split_order table color)) (split_comm table cid p color ws j) s)
      (\<lambda>(res, s'). case res of Inl e \<Rightarrow> Inr (Inl e, s') | Inr c \<Rightarrow> Inr (Inr (Some c), s'))"
proof -
  note hf = holder_facts [OF assms(1,2)]
  obtain M where inv: "share_inv s M (map fst hs)" using assms(1) by (auto simp: life_inv_def)
  obtain px where px: "shareds s (co_shared_vars p) = Some px" using parent_shared [OF inv hf(1)] by metis
  have hm: "handle_map s p = cs_rtw_map px" using px by (simp add: handle_map_def)
  let ?look = "\<lambda>k. bind_outcome (RTWPmapFind (fg_ranks.truncate s) (cs_rtw_map px) k False) (\<lambda>(w, _). Inr w)"
  have look: "?look (int i) = Inr (ws ! i)" if "i < length table" for i
  proof -
    have "int i < cm_local_size p" using that assms(3) hf(4,5) by linarith
    then show ?thesis
      using RTWPmapFind_map [OF parent_handle [OF inv hf(1)], of "int i"] hf(2) hm by (simp add: handle_ranks_def)
  qed
  obtain r where r: "split_scan ?look color [0..<length table] (scan_start table) = Inr r"
      "new_size r = length (members table color)" "leader_wid r = foldl leader_step (-1) (map ((!) ws) (members table color))"
      "members table color \<noteq> [] \<longrightarrow> split_keys (sc_table r) (new_size r) (first_entry r) =
         Inr (map (\<lambda>i. \<lparr>so_color = int i, so_key = sp_key (table ! i), so_orig_idx = 0\<rparr>) (members table color))"
    using split_local_order [of table ?look "(!) ws" color, OF look] by blast
  have ne: "members table color \<noteq> []" using j(1) split_order_length [of table color] by auto
  have "\<forall>w\<in>set (map ((!) ws) (members table color)). 0 \<le> w"
    using hf(6) assms(3) by (auto simp: members_mem)
  then have "leader_wid r = Min (set (map ((!) ws) (members table color)))" using r(3) ne leader_fold by simp
  also have "set (map ((!) ws) (members table color)) = set (split_ranks table color ws)"
    by (simp add: split_ranks_def split_order_mem)
  finally have ld: "leader_wid r = Min (set (split_ranks table color ws))" .
  let ?kt = "MPIU_Sort_inttable q (map (\<lambda>i. \<lparr>so_color = int i, so_key = sp_key (table ! i), so_orig_idx = 0\<rparr>) (members table color))"
  have kt: "map so_color ?kt = map int (split_order table color)" by (rule split_keytable)
  have "distinct (map so_color ?kt)" using kt split_order_distinct by (simp add: distinct_map)
  moreover have jl: "j < length ?kt" using j(1) split_order_length [of table color] by simp
  moreover have "so_color (?kt ! j) = map so_color ?kt ! j" by (rule nth_map [OF jl, symmetric])
  then have "so_color (?kt ! j) = cm_rank p" unfolding kt using j by simp
  ultimately have rank: "find_new_rank ?kt (cm_rank p) (junk 0) = int j" by (rule find_new_rank_index)
  have "0 < new_size r" using r(2) ne by simp
  then show ?thesis
    using px hm assms(4,5) r(1,2,4) ne ld rank kt split_order_length [of table color]
    by (simp add: MPIR_Comm_split_impl_def Let_def split_comm_def MPIR_Comm_set_sizevars_def)
qed

lemma split_life:
  assumes life: "life_inv s hs" and p: "holder totprocs hs p ws" and ok: "\<forall>k \<in> set table_sizes. ok k"
    and cap: "length hs + 3 \<le> HSH_CAPACITY" and len: "length table = length ws" and col: "color \<noteq> MPI_UNDEFINED"
    and r: "0 \<le> cm_rank p" "cm_rank p < int (length ws)" "sp_color (table ! nat (cm_rank p)) = color"
    and u: "unique_id hs cid (split_ranks table color ws)"
  shows "\<exists>c s' j. MPIR_Comm_split_impl q ok memory_left junk table cid p color s = Inr (Inr (Some c), s') \<and>
    j < length (split_order table color) \<and> int (split_order table color ! j) = cm_rank p \<and>
    c = (split_comm table cid p color ws j)\<lparr>co_shared_vars := co_shared_vars c\<rparr> \<and>
    life_inv s' ((c, split_ranks table color ws) # hs)"
proof -
  note hf = holder_facts [OF life p]
  obtain M where inv: "share_inv s M (map fst hs)" using life by (auto simp: life_inv_def)
  have "nat (cm_rank p) \<in> set (split_order table color)" using r len by (simp add: split_order_mem members_mem nat_less_iff)
  then obtain j where j: "j < length (split_order table color)" "int (split_order table color ! j) = cm_rank p"
    using r(1) by (metis in_set_conv_nth int_nat_eq)
  let ?c = "split_comm table cid p color ws j" and ?ord = "map int (split_order table color)"
  have "\<forall>k\<in>set ?ord. 0 \<le> k \<and> k < cm_local_size p"
    using len hf(4) by (auto simp: split_order_mem members_mem)
  moreover have "?ord \<noteq> []" using j(1) by auto
  moreover have "comm_key ?c \<notin> predefined_keys" using u by (simp add: unique_id_def comm_key_def split_comm_def)
  moreover have "cm_local_size ?c = int (length ?ord)" by (simp add: split_comm_def)
  moreover have "split_ranks table color ws = map (\<lambda>k. handle_ranks s p ! nat k) ?ord"
    using hf(2) by (simp add: split_ranks_def)
  moreover have "handle_ranks s d = split_ranks table color ws" if d: "d \<in> set (map fst hs)" "comm_key d = comm_key ?c" for d
  proof -
    obtain vs where "(d, vs) \<in> set hs" using d(1) by auto
    then show ?thesis using life_invD [OF life] u d(2) by (fastforce simp: unique_id_def comm_key_def split_comm_def)
  qed
  ultimately obtain a s' M' where s': "split_share ok memory_left junk (handle_map s p) ?ord ?c s = Inr (Inr (?c\<lparr>co_shared_vars := a\<rparr>), s')"
      "share_inv s' M' (?c\<lparr>co_shared_vars := a\<rparr> # map fst hs)"
      "handle_ranks s' (?c\<lparr>co_shared_vars := a\<rparr>) = split_ranks table color ws"
      "\<forall>d. parent_ok (map fst hs) d \<longrightarrow> handle_ranks s' d = handle_ranks s d"
    using split_share_step [OF inv ok _ hf(1), of ?ord ?c "split_ranks table color ws" junk] cap by auto
  have "cid \<noteq> 0" using u by (simp add: unique_id_def)
  then have "MPIR_Comm_split_impl q ok memory_left junk table cid p color s = Inr (Inr (Some (?c\<lparr>co_shared_vars := a\<rparr>)), s')"
    using split_impl_eq [OF life p len col _ j] s'(1) by simp
  moreover have "life_inv s' ((?c\<lparr>co_shared_vars := a\<rparr>, split_ranks table color ws) # hs)"
    using life s'(2,3) _ s'(4) [rule_format] by (rule life_inv_Cons) (simp add: split_comm_def)
  ultimately show ?thesis using j
    by (intro exI [of _ "?c\<lparr>co_shared_vars := a\<rparr>"] exI [of _ s'] exI [of _ j]) simp
qed

subsection \<open>Duplicating\<close>

definition copy_comm :: "int \<Rightarrow> comm \<Rightarrow> int \<Rightarrow> int list \<Rightarrow> comm" where
  "copy_comm cid p n ws =
     \<lparr>cm_context_id = cid, leader_worldrank = Min (set (take (nat n) ws)), co_shared_vars = NULL, cm_rank = cm_rank p,
      cm_local_size = n, cm_p_rank = cm_p_rank p, num_osprocs = num_osprocs p\<rparr>"

lemma map_leader:
  assumes "map_ok s m sz" "0 < n" "n \<le> sz"
  shows "RTWmapFindLeader m (nat n) s = Inr (Min (set (take (nat n) (map_ranks s m sz))))"
proof (cases "m = worldcomm_rtw_map s")
  case True
  have "Min (set (map int [0..<nat n])) = 0" using assms(2) by (intro Min_eqI) auto
  moreover have "take (nat n) (map_ranks s m sz) = map int [0..<nat n]"
    using True assms by (simp add: map_ranks_def take_map)
  ultimately show ?thesis using True by (simp add: RTWmapFindLeader_def)
next
  case False
  let ?ws = "take (nat n) (rtw_maps s m)"
  have len: "length (rtw_maps s m) = nat sz + 1" and pos: "\<forall>w\<in>set (take (nat sz) (rtw_maps s m)). 0 \<le> w"
    using False assms(1) by (auto simp: map_ok_def)
  have tk: "take (nat n) (map_ranks s m sz) = ?ws" using False assms(3) by (simp add: map_ranks_def min_def nat_mono)
  have "set ?ws \<subseteq> set (take (nat sz) (rtw_maps s m))" using assms(3) by (simp add: set_take_subset_set_take nat_mono)
  then have wpos: "\<forall>w\<in>set ?ws. 0 \<le> w" using pos by blast
  have ne: "?ws \<noteq> []" using assms(2) len by auto
  have fold: "foldl leader_step (-1) ?ws = Min (set ?ws)" using ne wpos by (rule leader_fold)
  have "0 \<le> Min (set ?ws)" using wpos ne by simp
  moreover have "nat n \<le> length (rtw_maps s m)" using len assms by linarith
  ultimately show ?thesis
    using False tk fold by (simp add: RTWmapFindLeader_def RTWarrayFindLeader_def check_def)
qed

lemma copy_life:
  assumes life: "life_inv s hs" and p: "holder totprocs hs p ws" and ok: "\<forall>k \<in> set table_sizes. ok k"
    and cap: "length hs + 3 \<le> HSH_CAPACITY" and r: "0 \<le> cm_rank p" "cm_rank p < n" "n \<le> cm_local_size p"
    and u: "unique_id hs cid (take (nat n) ws)"
  shows "\<exists>c s'. MPIR_Comm_copy ok memory_left junk cid p n s = Inr (Inr (Some c), s') \<and>
    c = (copy_comm cid p n ws)\<lparr>co_shared_vars := co_shared_vars c\<rparr> \<and> life_inv s' ((c, take (nat n) ws) # hs)"
proof -
  note hf = holder_facts [OF life p]
  obtain M where inv: "share_inv s M (map fst hs)" using life by (auto simp: life_inv_def)
  obtain px where px: "shareds s (co_shared_vars p) = Some px" using parent_shared [OF inv hf(1)] by metis
  have hm: "handle_map s p = cs_rtw_map px" using px by (simp add: handle_map_def)
  let ?c = "copy_comm cid p n ws" and ?ws = "take (nat n) ws"
  have n: "0 < n" using r by linarith
  have ne: "?ws \<noteq> []" using n hf(4,5) r(3) by auto
  have "\<forall>w\<in>set ?ws. 0 \<le> w" using hf(6) by (meson in_set_takeD)
  then have l0: "0 \<le> Min (set ?ws)" using ne by simp
  have ld: "(if n = cm_local_size p then Inr (leader_worldrank p) else RTWmapFindLeader (cs_rtw_map px) (nat n) s) = Inr (Min (set ?ws))"
    using map_leader [OF parent_handle [OF inv hf(1)] n r(3)] hf(2,3,4) hm by (auto simp: handle_ranks_def)
  have coh: "handle_ranks s d = ?ws" if d: "d \<in> set (map fst hs)" "comm_key d = comm_key ?c" for d
  proof -
    obtain vs where "(d, vs) \<in> set hs" using d(1) by auto
    then show ?thesis using life_invD [OF life] u d(2) by (fastforce simp: unique_id_def comm_key_def copy_comm_def)
  qed
  have key: "comm_key ?c \<notin> predefined_keys" using u by (simp add: unique_id_def comm_key_def copy_comm_def)
  have cap': "length (map fst hs) + 3 \<le> HSH_CAPACITY" and l1: "0 \<le> leader_worldrank ?c" and n1: "0 < cm_local_size ?c"
    and r1: "cm_local_size ?c \<le> cm_local_size p" and ws1: "?ws = take (nat (cm_local_size ?c)) (handle_ranks s p)"
    using cap l0 n r(3) hf(2) by (simp_all add: copy_comm_def)
  obtain a s' M' where s': "MPIR_Comm_copy_share ok memory_left junk p ?c s = Inr (Inr (?c\<lparr>co_shared_vars := a\<rparr>), s')"
      "share_inv s' M' (?c\<lparr>co_shared_vars := a\<rparr> # map fst hs)" "handle_ranks s' (?c\<lparr>co_shared_vars := a\<rparr>) = ?ws"
      "\<forall>d. parent_ok (map fst hs) d \<longrightarrow> handle_ranks s' d = handle_ranks s d"
    using copy_share_step [OF inv ok cap' hf(1) key l1 n1 r1 ws1 coh, of junk] by blast
  have "cid \<noteq> 0" using u by (simp add: unique_id_def)
  then have "MPIR_Comm_copy ok memory_left junk cid p n s = Inr (Inr (Some (?c\<lparr>co_shared_vars := a\<rparr>)), s')"
    using px ld l0 r(2) s'(1) by (simp add: MPIR_Comm_copy_def MPIR_Comm_set_sizevars_def copy_comm_def check_def)
  moreover have "life_inv s' ((?c\<lparr>co_shared_vars := a\<rparr>, ?ws) # hs)"
    using life s'(2,3) _ s'(4) [rule_format] by (rule life_inv_Cons) (simp add: copy_comm_def)
  ultimately show ?thesis by (intro exI [of _ "?c\<lparr>co_shared_vars := a\<rparr>"] exI [of _ s']) simp
qed

subsection \<open>Reachable states\<close>

lemma reach_life:
  assumes "share_reach ok pids totprocs s hs" and ok: "\<forall>k \<in> set table_sizes. ok k"
  shows "life_inv s hs"
  using assms(1)
proof (induction rule: share_reach.induct)
  case (reach_init s)
  then show ?case using init_inv [OF ok, of pids totprocs] by (auto simp: life_inv_def)
next
  case (reach_split s hs p ws table color cid use_qsort junk c s')
  then show ?case using split_life [OF reach_split.IH reach_split.hyps(2) ok reach_split.hyps(3-9), of use_qsort junk] by auto
next
  case (reach_copy s hs p ws n cid junk c s')
  then show ?case using copy_life [OF reach_copy.IH reach_copy.hyps(2) ok reach_copy.hyps(3-7), of junk] by auto
next
  case (reach_free s hs c ws s')
  then show ?case using free_life [OF reach_free.IH reach_free.hyps(2)] by auto
qed

lemma count_fst: "length (filter (\<lambda>c. P (f c)) (map fst hs)) = length (filter (\<lambda>(c, _). P (f c)) hs)"
  by (induction hs) auto

lemma held_shared:
  assumes "life_inv s hs" "(c, ws) \<in> set hs"
  obtains x where "shareds s (co_shared_vars c) = Some x"
    "counters s (ref_withinComm_countptr x) = Some (int (length (filter (\<lambda>(d, _). co_shared_vars d = co_shared_vars c) hs)))"
    "counters s (ref_acrossComm_countptr x) = Some (int (length (filter (\<lambda>(d, _). handle_map s d = handle_map s c) hs)) +
       (if handle_map s c = worldcomm_rtw_map s then 1 else 0))"
proof -
  obtain M where inv: "share_inv s M (map fst hs)" using assms(1) by (auto simp: life_inv_def)
  have ho: "handles_ok (shareds s) M (map fst hs)" and ref: "refs_ok (counters s) (shareds s) (map fst hs)"
    and ap: "apart (shareds s)" and sz: "sizes_ok s (map fst hs)"
    using inv unfolding share_inv_def by blast+
  have c: "c \<in> set (map fst hs)" using assms(2) by force
  then obtain x where x: "shareds s (co_shared_vars c) = Some x" and nw: "co_shared_vars c \<noteq> world_shared"
    using ho unfolding handles_ok_def by blast
  obtain y where y: "shareds s world_shared = Some y" "cs_rtw_map y = worldcomm_rtw_map s" using sz by (auto simp: sizes_ok_def)
  have ac: "across_of (shareds s) (co_shared_vars d) = ref_acrossComm_countptr x \<longleftrightarrow> handle_map s d = handle_map s c"
    if "shareds s (co_shared_vars d) \<noteq> None" for d
    using that x ap unfolding apart_def across_of_def handle_map_def by (metis option.collapse option.sel)
  have "across_of (shareds s) (co_shared_vars d) = ref_acrossComm_countptr x \<longleftrightarrow> handle_map s d = handle_map s c"
    if "d \<in> set (map fst hs)" for d using ho that ac unfolding handles_ok_def by blast
  then have fl: "filter (\<lambda>d. across_of (shareds s) (co_shared_vars d) = ref_acrossComm_countptr x) (map fst hs) =
      filter (\<lambda>d. handle_map s d = handle_map s c) (map fst hs)" by (rule filter_cong [OF refl])
  have "across_of (shareds s) world_shared = ref_acrossComm_countptr x \<longleftrightarrow> handle_map s c = worldcomm_rtw_map s"
    using x y ap unfolding apart_def across_of_def handle_map_def by (metis option.sel)
  then have "across_count (shareds s) (map fst hs) (ref_acrossComm_countptr x) =
      int (length (filter (\<lambda>(d, _). handle_map s d = handle_map s c) hs)) + (if handle_map s c = worldcomm_rtw_map s then 1 else 0)"
    unfolding across_count_def fl count_fst [where P = "\<lambda>m. m = handle_map s c"] by simp
  moreover have "within_count (map fst hs) (co_shared_vars c) =
      int (length (filter (\<lambda>(d, _). co_shared_vars d = co_shared_vars c) hs))"
    using nw count_fst [where P = "\<lambda>a. a = co_shared_vars c" and f = co_shared_vars] by (simp add: within_count_def)
  ultimately show thesis using that [OF x] ref x unfolding refs_ok_def by metis
qed

lemma same_key_shared:
  assumes "life_inv s hs" "(c, ws) \<in> set hs" "(d, vs) \<in> set hs" "comm_key d = comm_key c"
  shows "co_shared_vars d = co_shared_vars c"
proof -
  obtain M where inv: "share_inv s M (map fst hs)" using assms(1) by (auto simp: life_inv_def)
  have ho: "handles_ok (shareds s) M (map fst hs)" using inv unfolding share_inv_def by blast
  have "c \<in> set (map fst hs)" "d \<in> set (map fst hs)" using assms(2,3) by force+
  then show ?thesis using ho assms(4) unfolding handles_ok_def by (metis option.inject)
qed

text \<open>
  C32. \<^verbatim>\<open>MPIR_Comm_split_impl\<close>, up to its call of \<^verbatim>\<open>MPIR_Comm_commit\<close>, in a state of \<open>share_reach\<close>,
  on a parent other than \<^verbatim>\<open>MPI_COMM_SELF\<close> (\<open>holder\<close>), with a new context id that no other
  communicator with the same leader in the process has (\<open>unique_id\<close>, a condition the code does not
  enforce), with memory and table entries left: the call succeeds, the processes of the caller's
  color are ranked in the new communicator by key and, for equal keys, by their old rank; the caller
  gets the rank of its own entry, the size is the number of these processes, the leader is the
  smallest of their world ranks, and the map the caller sees gives every new rank the world rank of
  its process, whether the caller built the map or found the one that a co-located process had
  built; the new state is again in \<open>share_reach\<close>.  A caller with the undefined color gets no
  communicator.
\<close>

theorem comm_split_correct:
  assumes "share_reach ok pids totprocs s hs" "\<forall>k \<in> set table_sizes. ok k" "holder totprocs hs p ws"
    "length hs + 3 \<le> HSH_CAPACITY" "length table = length ws" "color \<noteq> MPI_UNDEFINED"
    "0 \<le> cm_rank p" "cm_rank p < int (length ws)" "sp_color (table ! nat (cm_rank p)) = color"
    "unique_id hs cid (split_ranks table color ws)"
  shows "(\<exists>c s'. MPIR_Comm_split_impl use_qsort ok memory_left junk table cid p color s = Inr (Inr (Some c), s') \<and>
      0 \<le> cm_rank c \<and> cm_rank c < cm_local_size c \<and> int (split_order table color ! nat (cm_rank c)) = cm_rank p \<and>
      cm_local_size c = int (length (split_order table color)) \<and> cm_context_id c = cid \<and>
      leader_worldrank c = Min (set (split_ranks table color ws)) \<and> handle_ranks s' c = split_ranks table color ws \<and>
      share_reach ok pids totprocs s' ((c, split_ranks table color ws) # hs)) \<and>
    MPIR_Comm_split_impl use_qsort ok memory_left junk table cid p MPI_UNDEFINED s = Inr (Inr None, s)" (is "?A \<and> ?B")
proof -
  have life: "life_inv s hs" using assms(1,2) by (rule reach_life)
  obtain c s' j where c: "MPIR_Comm_split_impl use_qsort ok memory_left junk table cid p color s = Inr (Inr (Some c), s')"
      "j < length (split_order table color)" "int (split_order table color ! j) = cm_rank p"
      "c = (split_comm table cid p color ws j)\<lparr>co_shared_vars := co_shared_vars c\<rparr>"
      "life_inv s' ((c, split_ranks table color ws) # hs)"
    using split_life [OF life assms(3,2) assms(4-10), of use_qsort junk] by blast
  have f: "cm_rank c = int j" "cm_local_size c = int (length (split_order table color))" "cm_context_id c = cid"
    "leader_worldrank c = Min (set (split_ranks table color ws))"
    using arg_cong [OF c(4), of cm_rank] arg_cong [OF c(4), of cm_local_size] arg_cong [OF c(4), of cm_context_id]
      arg_cong [OF c(4), of leader_worldrank] by (simp_all add: split_comm_def)
  have "share_reach ok pids totprocs s' ((c, split_ranks table color ws) # hs)"
    by (rule reach_split [OF assms(1,3,4) assms(5-10) c(1)])
  moreover have "handle_ranks s' c = split_ranks table color ws" using life_invD [OF c(5)] by auto
  ultimately have ?A
    using c(1-3) f by (intro exI [of _ c] exI [of _ s']) simp
  obtain M where inv: "share_inv s M (map fst hs)" using life by (auto simp: life_inv_def)
  obtain px where "shareds s (co_shared_vars p) = Some px"
    using parent_shared [OF inv holder_facts(1) [OF life assms(3)]] by metis
  then have ?B using assms(10) by (simp add: MPIR_Comm_split_impl_def unique_id_def check_def)
  then show ?thesis using \<open>?A\<close> by blast
qed

text \<open>A world of four processes, seen by the process of world rank 2.\<close>

definition sample_world :: comm where
  "sample_world = \<lparr>cm_context_id = 0, leader_worldrank = 0, co_shared_vars = world_shared, cm_rank = 2, cm_local_size = 4,
     cm_p_rank = 0, num_osprocs = 1\<rparr>"

definition sample_table :: "splittype list" where
  "sample_table = [\<lparr>sp_color = 1, sp_key = 5\<rparr>, \<lparr>sp_color = 0, sp_key = 0\<rparr>, \<lparr>sp_color = 1, sp_key = 5\<rparr>, \<lparr>sp_color = 1, sp_key = 2\<rparr>]"

lemma sample_order: "split_order sample_table 1 = [3, 0, 2]"
  by (simp add: split_order_def members_def sample_table_def)

lemma sample_init:
  obtains s where "MPID_Init_share (\<lambda>_. True) pids 4 = Inr s" "share_reach (\<lambda>_. True) pids 4 s []"
  using init_inv [of "\<lambda>_. True" pids 4] by (auto intro: reach_init)

lemma sample_holder: "holder 4 hs sample_world [0, 1, 2, 3]"
  by (simp add: holder_def sample_world_def upt_rec)

lemma sample_ranks: "split_ranks sample_table 1 [0, 1, 2, 3] = [3, 0, 2]"
  by (simp add: split_ranks_def sample_order)

theorem comm_split_correct_witness:
  "\<exists>s c s'. MPID_Init_share (\<lambda>_. True) [] 4 = Inr s \<and>
     MPIR_Comm_split_impl False (\<lambda>_. True) memory_left (\<lambda>_. 0) sample_table 48 sample_world 1 s = Inr (Inr (Some c), s') \<and>
     cm_rank c = 2 \<and> cm_local_size c = 3 \<and> leader_worldrank c = 0 \<and> handle_ranks s' c = [3, 0, 2]"
proof -
  obtain s where s: "MPID_Init_share (\<lambda>_. True) [] 4 = Inr s" "share_reach (\<lambda>_. True) [] 4 s []" by (rule sample_init)
  have "unique_id [] 48 (split_ranks sample_table 1 [0, 1, 2, 3])"
    by (auto simp: unique_id_def sample_ranks predefined_keys_def predefined_ids_def)
  then obtain c s' where c: "MPIR_Comm_split_impl False (\<lambda>_. True) memory_left (\<lambda>_. 0) sample_table 48 sample_world 1 s = Inr (Inr (Some c), s')"
      "0 \<le> cm_rank c" "cm_rank c < cm_local_size c" "int (split_order sample_table 1 ! nat (cm_rank c)) = cm_rank sample_world"
      "cm_local_size c = int (length (split_order sample_table 1))"
      "leader_worldrank c = Min (set (split_ranks sample_table 1 [0, 1, 2, 3]))"
      "handle_ranks s' c = split_ranks sample_table 1 [0, 1, 2, 3]"
    using comm_split_correct [OF s(2) _ sample_holder, of sample_table 1 48 False "\<lambda>_. 0"]
    by (auto simp: sample_table_def sample_world_def MPI_UNDEFINED_def HSH_CAPACITY_def)
  have "nat (cm_rank c) < 3" "[3, 0, 2] ! nat (cm_rank c) = (2 :: nat)"
    using c(2-5) by (simp_all add: sample_order sample_world_def)
  then have "cm_rank c = 2" using c(2) by (auto simp: numeral_3_eq_3 less_Suc_eq)
  then show ?thesis using s(1) c(1,5-7) by (auto simp: sample_ranks sample_order)
qed

text \<open>
  C33. \<^verbatim>\<open>MPIR_Comm_copy\<close>, the routine behind \<^verbatim>\<open>MPI_Comm_dup\<close> and the topology constructors, up to
  its calls of \<^verbatim>\<open>MPIR_Comm_share_commit\<close> and \<^verbatim>\<open>MPIR_Comm_commit\<close>, in a state of \<open>share_reach\<close>, under
  the conditions of the split: an original other than \<^verbatim>\<open>MPI_COMM_SELF\<close> (\<open>holder\<close>), a new context id
  that no other communicator with the same leader in the process has (\<open>unique_id\<close>, a condition the
  code does not enforce), memory and table entries left.  The caller keeps its rank, the copy has
  the size asked for, its leader is the smallest world rank among its processes and its map gives
  the first ranks of the original, also when the map of the original is shared and when a
  co-located process made the copy first; the new state is again in \<open>share_reach\<close>.  A process whose
  rank does not fit in the copy gets none.
\<close>

theorem comm_copy_correct:
  assumes "share_reach ok pids totprocs s hs" "\<forall>k \<in> set table_sizes. ok k" "holder totprocs hs p ws"
    "length hs + 3 \<le> HSH_CAPACITY" "0 \<le> cm_rank p" "cm_rank p < n" "n \<le> cm_local_size p" "unique_id hs cid (take (nat n) ws)"
  shows "(\<exists>c s'. MPIR_Comm_copy ok memory_left junk cid p n s = Inr (Inr (Some c), s') \<and>
      cm_rank c = cm_rank p \<and> cm_local_size c = n \<and> cm_context_id c = cid \<and>
      leader_worldrank c = Min (set (take (nat n) ws)) \<and> handle_ranks s' c = take (nat n) ws \<and>
      share_reach ok pids totprocs s' ((c, take (nat n) ws) # hs)) \<and>
    (\<forall>m. m \<le> cm_rank p \<longrightarrow> MPIR_Comm_copy ok memory_left junk cid p m s = Inr (Inr None, s))" (is "?A \<and> ?B")
proof -
  have life: "life_inv s hs" using assms(1,2) by (rule reach_life)
  obtain c s' where c: "MPIR_Comm_copy ok memory_left junk cid p n s = Inr (Inr (Some c), s')"
      "c = (copy_comm cid p n ws)\<lparr>co_shared_vars := co_shared_vars c\<rparr>" "life_inv s' ((c, take (nat n) ws) # hs)"
    using copy_life [OF life assms(3,2) assms(4-8), of junk] by blast
  have f: "cm_rank c = cm_rank p" "cm_local_size c = n" "cm_context_id c = cid" "leader_worldrank c = Min (set (take (nat n) ws))"
    using arg_cong [OF c(2), of cm_rank] arg_cong [OF c(2), of cm_local_size] arg_cong [OF c(2), of cm_context_id]
      arg_cong [OF c(2), of leader_worldrank] by (simp_all add: copy_comm_def)
  have "share_reach ok pids totprocs s' ((c, take (nat n) ws) # hs)" by (rule reach_copy [OF assms(1,3-8) c(1)])
  moreover have "handle_ranks s' c = take (nat n) ws" using life_invD [OF c(3)] by auto
  ultimately have ?A
    using c(1) f by (intro exI [of _ c] exI [of _ s']) simp
  moreover have ?B using assms(8) by (simp add: MPIR_Comm_copy_def unique_id_def check_def)
  ultimately show ?thesis by blast
qed

lemma sample_fresh: "unique_id [] 48 [0, 1, 2]"
  by (auto simp: unique_id_def predefined_keys_def predefined_ids_def)

theorem comm_copy_correct_witness:
  "\<exists>s c s'. MPID_Init_share (\<lambda>_. True) [] 4 = Inr s \<and>
     MPIR_Comm_copy (\<lambda>_. True) memory_left (\<lambda>_. 0) 48 sample_world 3 s = Inr (Inr (Some c), s') \<and> cm_rank c = 2 \<and>
     handle_ranks s' c = [0, 1, 2] \<and> MPIR_Comm_copy (\<lambda>_. True) memory_left (\<lambda>_. 0) 48 sample_world 2 s = Inr (Inr None, s)"
proof -
  obtain s where s: "MPID_Init_share (\<lambda>_. True) [] 4 = Inr s" "share_reach (\<lambda>_. True) [] 4 s []" by (rule sample_init)
  have u: "unique_id [] 48 (take (nat 3) [0, 1, 2, 3])" using sample_fresh by simp
  obtain c s' where "MPIR_Comm_copy (\<lambda>_. True) memory_left (\<lambda>_. 0) 48 sample_world 3 s = Inr (Inr (Some c), s')"
      "cm_rank c = cm_rank sample_world" "handle_ranks s' c = take (nat 3) [0, 1, 2, 3]"
    using comm_copy_correct [OF s(2) _ sample_holder _ _ _ _ u, of "\<lambda>_. 0"] by (auto simp: sample_world_def HSH_CAPACITY_def)
  moreover have "MPIR_Comm_copy (\<lambda>_. True) memory_left (\<lambda>_. 0) 48 sample_world 2 s = Inr (Inr None, s)"
    using comm_copy_correct [OF s(2) _ sample_holder _ _ _ _ u, of "\<lambda>_. 0"] by (simp add: sample_world_def HSH_CAPACITY_def)
  ultimately show ?thesis using s(1) by (auto simp: sample_world_def)
qed

text \<open>
  C34. Safety of the shared state, in the states of \<open>share_reach\<close>: those that the co-located
  coroutines reach by splits, copies and releases in any order, each split and copy on a parent
  other than \<^verbatim>\<open>MPI_COMM_SELF\<close> and with a context id that no other communicator with the same leader
  in the process has at that moment (\<open>unique_id\<close>, a condition the code does not enforce; C36 is
  the case where it fails), nested communicators apart.  In such a state, as long as a coroutine
  holds a communicator, its shared block is
  allocated, the map it sees is the one it was given at creation, the count within the communicator
  is the number of coroutines holding that block, the count across communicators is the number of
  handles that use the same map (one more for the map of the world), all holders of one context id
  and leader use one block, and releasing the handle neither fails an assertion nor touches freed
  memory.
\<close>

theorem share_reach_safe:
  assumes "share_reach ok pids totprocs s hs" "\<forall>k \<in> set table_sizes. ok k" "(c, ws) \<in> set hs"
  shows "handle_ranks s c = ws \<and> leader_worldrank c = Min (set ws) \<and>
    (\<forall>(d, vs)\<in>set hs. comm_key d = comm_key c \<longrightarrow> co_shared_vars d = co_shared_vars c) \<and>
    (\<exists>x. shareds s (co_shared_vars c) = Some x \<and>
       counters s (ref_withinComm_countptr x) = Some (int (length (filter (\<lambda>(d, _). co_shared_vars d = co_shared_vars c) hs))) \<and>
       counters s (ref_acrossComm_countptr x) = Some (int (length (filter (\<lambda>(d, _). handle_map s d = handle_map s c) hs)) +
         (if handle_map s c = worldcomm_rtw_map s then 1 else 0))) \<and>
    (\<exists>s'. MPIR_Comm_free_impl c s = Inr s')"
proof -
  have life: "life_inv s hs" using assms(1,2) by (rule reach_life)
  show ?thesis
  proof (intro conjI)
    show "\<forall>(d, vs)\<in>set hs. comm_key d = comm_key c \<longrightarrow> co_shared_vars d = co_shared_vars c"
      using same_key_shared [OF life assms(3)] by blast
    show "\<exists>s'. MPIR_Comm_free_impl c s = Inr s'" using free_life [OF life assms(3)] by blast
  qed (use life_invD [OF life assms(3)] in blast, use life_invD [OF life assms(3)] in blast,
       use held_shared [OF life assms(3)] in metis)
qed

lemma sample_split:
  obtains c s' where "share_reach (\<lambda>_. True) [] 4 s' [(c, [3, 0, 2])]" "comm_key c = (48, 0)"
proof -
  obtain s where s: "share_reach (\<lambda>_. True) [] 4 s []" by (rule sample_init)
  have u: "unique_id [] 48 (split_ranks sample_table 1 [0, 1, 2, 3])"
    by (auto simp: unique_id_def sample_ranks predefined_keys_def predefined_ids_def)
  have g: "length ([] :: holds) + 3 \<le> HSH_CAPACITY" "length sample_table = length [0 :: int, 1, 2, 3]" "1 \<noteq> MPI_UNDEFINED"
    "0 \<le> cm_rank sample_world" "cm_rank sample_world < int (length [0 :: int, 1, 2, 3])"
    "sp_color (sample_table ! nat (cm_rank sample_world)) = 1"
    by (simp_all add: sample_table_def sample_world_def MPI_UNDEFINED_def HSH_CAPACITY_def)
  have ok: "\<forall>k \<in> set table_sizes. (\<lambda>_. True) k" by simp
  obtain c s' j where c: "MPIR_Comm_split_impl False (\<lambda>_. True) memory_left (\<lambda>_. 0) sample_table 48 sample_world 1 s = Inr (Inr (Some c), s')"
      "c = (split_comm sample_table 48 sample_world 1 [0, 1, 2, 3] j)\<lparr>co_shared_vars := co_shared_vars c\<rparr>"
    using split_life [OF reach_life [OF s ok] sample_holder ok g u] by blast
  have "share_reach (\<lambda>_. True) [] 4 s' [(c, [3, 0, 2])]"
    using reach_split [OF s sample_holder g u c(1)] by (simp add: sample_ranks)
  moreover have "comm_key c = (48, 0)"
    using arg_cong [OF c(2), of comm_key] by (simp add: comm_key_def split_comm_def sample_ranks)
  ultimately show thesis using that by blast
qed

theorem share_reach_safe_witness:
  "\<exists>s c. share_reach (\<lambda>_. True) [] 4 s [(c, [3, 0, 2])] \<and> handle_ranks s c = [3, 0, 2] \<and> leader_worldrank c = 0 \<and>
     (\<exists>s'. MPIR_Comm_free_impl c s = Inr s')"
proof -
  obtain c s where s: "share_reach (\<lambda>_. True) [] 4 s [(c, [3, 0, 2])]" by (rule sample_split)
  have "(c, [3, 0, 2]) \<in> set [(c, [3, 0, 2])]" by simp
  from share_reach_safe [OF s _ this] show ?thesis using s by (intro exI [of _ s] exI [of _ c]) simp
qed

text \<open>
  C36. What happens without the guard of the other properties.  Context ids are returned by each
  process on its own, so an id can be in use again while a co-located process still holds the old
  communicator.  If the new communicator then has the same leader, the split finds the entry of
  the old one: the caller is given the old shared block, and when the sizes agree its ranks
  resolve to the processes of the old communicator.
\<close>

theorem split_stale_entry:
  assumes "share_reach ok pids totprocs s hs" "\<forall>k \<in> set table_sizes. ok k" "holder totprocs hs p ws"
    "length table = length ws" "color \<noteq> MPI_UNDEFINED" "0 \<le> cm_rank p" "cm_rank p < int (length ws)"
    "sp_color (table ! nat (cm_rank p)) = color" "cid \<noteq> 0"
    and old: "(d, vs) \<in> set hs" "comm_key d = (cid, Min (set (split_ranks table color ws)))"
  shows "\<exists>c s'. MPIR_Comm_split_impl use_qsort ok memory_left junk table cid p color s = Inr (Inr (Some c), s') \<and>
    co_shared_vars c = co_shared_vars d \<and> handle_map s' c = handle_map s d \<and>
    (length (split_order table color) = length vs \<longrightarrow> handle_ranks s' c = vs)"
proof -
  have life: "life_inv s hs" using assms(1,2) by (rule reach_life)
  obtain M where inv: "share_inv s M (map fst hs)" using life by (auto simp: life_inv_def)
  have cl: "cl_rep (contextLeader_hshtbl s) M" and ho: "handles_ok (shareds s) M (map fst hs)" and ap: "apart (shareds s)"
    using inv unfolding share_inv_def by blast+
  have "nat (cm_rank p) \<in> set (split_order table color)"
    using assms(4,6-8) by (simp add: split_order_mem members_mem nat_less_iff)
  then obtain j where j: "j < length (split_order table color)" "int (split_order table color ! j) = cm_rank p"
    using assms(6) by (metis in_set_conv_nth int_nat_eq)
  let ?c = "split_comm table cid p color ws j" and ?a = "co_shared_vars d"
  have ck: "comm_key ?c = comm_key d" using old(2) by (simp add: comm_key_def split_comm_def)
  have "d \<in> set (map fst hs)" using old(1) by force
  then obtain e where e: "M (comm_key d) = Some e" "coproclet_shared_vars e = ?a" using ho unfolding handles_ok_def by blast
  obtain h where h: "find_entry (cm_context_id ?c) (leader_worldrank ?c) s = Inr (Some e, s\<lparr>contextLeader_hshtbl := h\<rparr>)"
    using find_entry_Inr [OF cl, of "cm_context_id ?c" "leader_worldrank ?c"] ck e(1) by (auto simp: comm_key_def)
  obtain x n m where x: "shareds s ?a = Some x" "counters s (ref_withinComm_countptr x) = Some n"
      "counters s (ref_acrossComm_countptr x) = Some m"
    using held_shared [OF life old(1)] by metis
  have ne: "ref_withinComm_countptr x \<noteq> ref_acrossComm_countptr x" using ap x(1) unfolding apart_def by metis
  let ?s = "s\<lparr>contextLeader_hshtbl := h, counters := (counters s)(ref_withinComm_countptr x \<mapsto> n + 1, ref_acrossComm_countptr x \<mapsto> m + 1)\<rparr>"
  have "MPIR_Comm_add_coshared_all_ref ?a (s\<lparr>contextLeader_hshtbl := h\<rparr>) = Inr ?s"
    using add_all_ref_Inr [of "s\<lparr>contextLeader_hshtbl := h\<rparr>" ?a x n m] x ne by simp
  then have "split_share ok memory_left junk (handle_map s p) (map int (split_order table color)) ?c s =
      Inr (Inr (?c\<lparr>co_shared_vars := ?a\<rparr>), ?s)"
    using h e(2) by (simp add: split_share_def)
  then have "MPIR_Comm_split_impl use_qsort ok memory_left junk table cid p color s = Inr (Inr (Some (?c\<lparr>co_shared_vars := ?a\<rparr>)), ?s)"
    using split_impl_eq [OF life assms(3-5,9) j, of use_qsort ok memory_left junk] by simp
  moreover have hm: "handle_map ?s (?c\<lparr>co_shared_vars := ?a\<rparr>) = handle_map s d" by (simp add: handle_map_def)
  moreover have "handle_ranks ?s (?c\<lparr>co_shared_vars := ?a\<rparr>) = vs" if "length (split_order table color) = length vs"
  proof -
    have pd: "parent_ok (map fst hs) d" using \<open>d \<in> set (map fst hs)\<close> by (simp add: parent_ok_def)
    have "handle_ranks s d = vs" using life_invD [OF life old(1)] by simp
    moreover have "cm_local_size d = int (length vs)"
      using handle_ranks_length [OF inv pd] parent_handle [OF inv pd] \<open>handle_ranks s d = vs\<close> by (simp add: map_ok_def)
    moreover have "cm_local_size (?c\<lparr>co_shared_vars := ?a\<rparr>) = int (length vs)" using that by (simp add: split_comm_def)
    moreover have "map_ranks ?s k l = map_ranks s k l" for k l by (simp add: map_ranks_def)
    ultimately show ?thesis using hm unfolding handle_ranks_def by metis
  qed
  ultimately show ?thesis by (intro exI [of _ "?c\<lparr>co_shared_vars := ?a\<rparr>"] exI [of _ ?s]) simp
qed

text \<open>
  Processes 0, 2 and 3 had a communicator with id 48; process 2 still holds it when 0, 1 and 3,
  for all of which the id is free, split off a new one: process 0 gets the ranks of the old.
\<close>

definition second_table :: "splittype list" where
  "second_table = [\<lparr>sp_color = 1, sp_key = 0\<rparr>, \<lparr>sp_color = 1, sp_key = 0\<rparr>, \<lparr>sp_color = 0, sp_key = 0\<rparr>, \<lparr>sp_color = 1, sp_key = 0\<rparr>]"

lemma second_order: "split_order second_table 1 = [0, 1, 3]"
  by (simp add: split_order_def members_def second_table_def)

theorem split_stale_entry_witness:
  "\<exists>s d c s'. share_reach (\<lambda>_. True) [] 4 s [(d, [3, 0, 2])] \<and> comm_key d = (48, 0) \<and>
     split_ranks second_table 1 [0, 1, 2, 3] = [0, 1, 3] \<and>
     MPIR_Comm_split_impl False (\<lambda>_. True) memory_left (\<lambda>_. 0) second_table 48 (sample_world\<lparr>cm_rank := 0\<rparr>) 1 s = Inr (Inr (Some c), s') \<and>
     handle_ranks s' c = [3, 0, 2]"
proof -
  obtain d s where d: "share_reach (\<lambda>_. True) [] 4 s [(d, [3, 0, 2])]" "comm_key d = (48, 0)" by (rule sample_split)
  have sr: "split_ranks second_table 1 [0, 1, 2, 3] = [0, 1, 3]" by (simp add: split_ranks_def second_order)
  have hd: "holder 4 [(d, [3, 0, 2])] (sample_world\<lparr>cm_rank := 0\<rparr>) [0, 1, 2, 3]"
    by (simp add: holder_def sample_world_def upt_rec)
  have g: "length second_table = length [0 :: int, 1, 2, 3]" "1 \<noteq> MPI_UNDEFINED" "0 \<le> cm_rank (sample_world\<lparr>cm_rank := 0\<rparr>)"
    "cm_rank (sample_world\<lparr>cm_rank := 0\<rparr>) < int (length [0 :: int, 1, 2, 3])"
    "sp_color (second_table ! nat (cm_rank (sample_world\<lparr>cm_rank := 0\<rparr>))) = 1" "48 \<noteq> (0 :: int)"
    "(d, [3, 0, 2]) \<in> set [(d, [3, 0, 2])]"
    by (simp_all add: second_table_def MPI_UNDEFINED_def)
  have k: "comm_key d = (48, Min (set (split_ranks second_table 1 [0, 1, 2, 3])))" using d(2) by (simp add: sr)
  show ?thesis
    using split_stale_entry [OF d(1) _ hd g k, of False "\<lambda>_. 0"] d sr by (auto simp: second_order)
qed

end
