(* ===== verification/Context_Id.thy ===== *)
theory Context_Id
  imports FG_Prelude
begin

section \<open>Context ids (\<^verbatim>\<open>contextid.c\<close>)\<close>

text \<open>
  The context id of a communicator separates its messages from those of the others.  Every MPI
  process (every coroutine) keeps a bit vector of the ids that are free for it.  The processes that
  create a communicator agree on an id by combining their vectors with a bitwise and over the
  communicator they come from and taking the first bit that is left; each clears it in its own
  vector, and sets it again when it frees the communicator.
\<close>

unbundle bit_operations_syntax

subsection \<open>Fields of an id\<close>

type_synonym MPIU_Context_id_t = "16 word"

definition MPIU_INVALID_CONTEXT_ID :: MPIU_Context_id_t where "MPIU_INVALID_CONTEXT_ID = 0xFFFF"

definition MPIR_CONTEXT_INT_BITS :: nat where "MPIR_CONTEXT_INT_BITS = 32"
definition MPIR_CONTEXT_ID_BITS :: nat where "MPIR_CONTEXT_ID_BITS = 16"

definition MPID_CONTEXT_SUFFIX_WIDTH :: nat where "MPID_CONTEXT_SUFFIX_WIDTH = 1"
definition MPID_CONTEXT_SUFFIX_SHIFT :: nat where "MPID_CONTEXT_SUFFIX_SHIFT = 0"
definition MPID_CONTEXT_SUBCOMM_WIDTH :: nat where "MPID_CONTEXT_SUBCOMM_WIDTH = 2"
definition MPID_CONTEXT_SUBCOMM_SHIFT :: nat where
  "MPID_CONTEXT_SUBCOMM_SHIFT = MPID_CONTEXT_SUFFIX_WIDTH + MPID_CONTEXT_SUFFIX_SHIFT"
definition MPID_CONTEXT_IS_LOCALCOMM_WIDTH :: nat where "MPID_CONTEXT_IS_LOCALCOMM_WIDTH = 1"
definition MPID_CONTEXT_IS_LOCALCOMM_SHIFT :: nat where
  "MPID_CONTEXT_IS_LOCALCOMM_SHIFT = MPID_CONTEXT_SUBCOMM_SHIFT + MPID_CONTEXT_SUBCOMM_WIDTH"
definition MPID_CONTEXT_PREFIX_SHIFT :: nat where
  "MPID_CONTEXT_PREFIX_SHIFT = MPID_CONTEXT_IS_LOCALCOMM_SHIFT + MPID_CONTEXT_IS_LOCALCOMM_WIDTH"
definition MPID_CONTEXT_DYNAMIC_PROC_WIDTH :: nat where "MPID_CONTEXT_DYNAMIC_PROC_WIDTH = 1"
definition MPID_CONTEXT_PREFIX_WIDTH :: nat where
  "MPID_CONTEXT_PREFIX_WIDTH = MPIR_CONTEXT_ID_BITS - (MPID_CONTEXT_PREFIX_SHIFT + MPID_CONTEXT_DYNAMIC_PROC_WIDTH)"
definition MPID_CONTEXT_DYNAMIC_PROC_SHIFT :: nat where
  "MPID_CONTEXT_DYNAMIC_PROC_SHIFT = MPIR_CONTEXT_ID_BITS - MPID_CONTEXT_DYNAMIC_PROC_WIDTH"
definition MPIR_MAX_CONTEXT_MASK :: nat where
  "MPIR_MAX_CONTEXT_MASK =
     2 ^ (MPIR_CONTEXT_ID_BITS - (MPID_CONTEXT_PREFIX_SHIFT + MPID_CONTEXT_DYNAMIC_PROC_WIDTH)) div MPIR_CONTEXT_INT_BITS"

lemmas context_consts = MPIR_CONTEXT_INT_BITS_def MPIR_CONTEXT_ID_BITS_def MPID_CONTEXT_SUFFIX_WIDTH_def
  MPID_CONTEXT_SUFFIX_SHIFT_def MPID_CONTEXT_SUBCOMM_WIDTH_def MPID_CONTEXT_SUBCOMM_SHIFT_def
  MPID_CONTEXT_IS_LOCALCOMM_WIDTH_def MPID_CONTEXT_IS_LOCALCOMM_SHIFT_def MPID_CONTEXT_PREFIX_SHIFT_def
  MPID_CONTEXT_DYNAMIC_PROC_WIDTH_def MPID_CONTEXT_PREFIX_WIDTH_def MPID_CONTEXT_DYNAMIC_PROC_SHIFT_def
  MPIR_MAX_CONTEXT_MASK_def

lemma context_numbers [simp]: "MPIR_CONTEXT_INT_BITS = 32" "MPIR_MAX_CONTEXT_MASK = 64" "MPID_CONTEXT_PREFIX_SHIFT = 4"
  "MPID_CONTEXT_PREFIX_WIDTH = 11" "MPID_CONTEXT_DYNAMIC_PROC_SHIFT = 15" "MPID_CONTEXT_SUBCOMM_SHIFT = 1"
  "MPID_CONTEXT_IS_LOCALCOMM_SHIFT = 3"
  by (simp_all add: context_consts)

text \<open>\<^verbatim>\<open>MPID_CONTEXT_READ_FIELD\<close>; the mask of a field is \<open>((1 << width) - 1) << shift\<close>.\<close>

definition MPID_CONTEXT_READ_FIELD :: "nat \<Rightarrow> nat \<Rightarrow> MPIU_Context_id_t \<Rightarrow> nat" where
  "MPID_CONTEXT_READ_FIELD wdt shft cid = unat (drop_bit shft (cid AND push_bit shft (push_bit wdt 1 - 1)))"

definition read_prefix :: "MPIU_Context_id_t \<Rightarrow> nat" where
  "read_prefix = MPID_CONTEXT_READ_FIELD MPID_CONTEXT_PREFIX_WIDTH MPID_CONTEXT_PREFIX_SHIFT"
definition read_dynamic_proc :: "MPIU_Context_id_t \<Rightarrow> nat" where
  "read_dynamic_proc = MPID_CONTEXT_READ_FIELD MPID_CONTEXT_DYNAMIC_PROC_WIDTH MPID_CONTEXT_DYNAMIC_PROC_SHIFT"
definition read_is_localcomm :: "MPIU_Context_id_t \<Rightarrow> nat" where
  "read_is_localcomm = MPID_CONTEXT_READ_FIELD MPID_CONTEXT_IS_LOCALCOMM_WIDTH MPID_CONTEXT_IS_LOCALCOMM_SHIFT"
definition read_subcomm :: "MPIU_Context_id_t \<Rightarrow> nat" where
  "read_subcomm = MPID_CONTEXT_READ_FIELD MPID_CONTEXT_SUBCOMM_WIDTH MPID_CONTEXT_SUBCOMM_SHIFT"

subsection \<open>The bit vector\<close>

type_synonym cmask = "32 word list"

definition initial_mask :: cmask where
  "initial_mask = 0xFFFFFFF8 # replicate (MPIR_MAX_CONTEXT_MASK - 1) 0xFFFFFFFF"

text \<open>The position of the highest bit of a word, by halving.\<close>

definition bit_step :: "32 word \<Rightarrow> nat \<Rightarrow> 32 word \<times> nat \<Rightarrow> 32 word \<times> nat" where
  "bit_step m d vj = (case vj of (val, j) \<Rightarrow> let nval = val AND m in if nval \<noteq> 0 then (nval, j + d) else (val, j))"

definition highest_bit :: "32 word \<Rightarrow> nat" where
  "highest_bit w =
     (let (val, j) = bit_step 0xCCCCCCCC 2 (bit_step 0xF0F0F0F0 4 (bit_step 0xFF00FF00 8 (bit_step 0xFFFF0000 16 (w, 0)))) in
      if val AND 0xAAAAAAAA \<noteq> 0 then j + 1 else j)"

fun locate_from :: "nat \<Rightarrow> cmask \<Rightarrow> int" where
  "locate_from i [] = 0"
| "locate_from i (w # ws) =
     (if w \<noteq> 0 then push_bit MPID_CONTEXT_PREFIX_SHIFT (int (MPIR_CONTEXT_INT_BITS * i + highest_bit w))
      else locate_from (Suc i) ws)"

definition locate_context_bit :: "cmask \<Rightarrow> int" where
  "locate_context_bit local_mask = locate_from 0 (take MPIR_MAX_CONTEXT_MASK local_mask)"

definition allocate_context_bit :: "cmask \<Rightarrow> MPIU_Context_id_t \<Rightarrow> (MPIU_Context_id_t \<times> cmask) outcome" where
  "allocate_context_bit msk cid =
     (let raw_prefix = read_prefix cid; idx = raw_prefix div MPIR_CONTEXT_INT_BITS; bitpos = raw_prefix mod MPIR_CONTEXT_INT_BITS in
      if idx < length msk then
        bind_outcome (check (msk ! idx AND push_bit bitpos 1 \<noteq> 0) ''mask[idx] & (1 << bitpos)'') (\<lambda>_.
        Inr (cid, msk[idx := msk ! idx AND NOT (push_bit bitpos 1)]))
      else Inl (Undefined ''mask[idx]''))"

definition find_and_allocate_context_id :: "cmask \<Rightarrow> cmask \<Rightarrow> (MPIU_Context_id_t \<times> cmask) outcome" where
  "find_and_allocate_context_id context_mask local_mask =
     (let context_id = word_of_int (locate_context_bit local_mask) in
      if context_id \<noteq> 0 then allocate_context_bit context_mask context_id else Inr (context_id, context_mask))"

definition context_mask_stats :: "cmask \<Rightarrow> int \<times> int" where
  "context_mask_stats context_mask =
     (foldl (\<lambda>n i. foldl (\<lambda>n j. n + uint (drop_bit j (context_mask ! i AND push_bit j 1))) n [0..<32]) 0 [0..<MPIR_MAX_CONTEXT_MASK],
      int MPIR_MAX_CONTEXT_MASK * 32)"

definition MPIR_Free_contextid :: "cmask \<Rightarrow> MPIU_Context_id_t \<Rightarrow> cmask outcome" where
  "MPIR_Free_contextid context_mask cid =
     (let raw_prefix = read_prefix cid; idx = raw_prefix div MPIR_CONTEXT_INT_BITS; bitpos = raw_prefix mod MPIR_CONTEXT_INT_BITS in
      if idx \<ge> MPIR_MAX_CONTEXT_MASK then Inl (Exit_called ''In MPIR_Free_contextid, idx is out of range'')
      else if read_dynamic_proc cid \<noteq> 0 then Inr context_mask
      else if read_is_localcomm cid \<noteq> 0 then Inr context_mask
      else if read_subcomm cid \<noteq> 0 then Inr context_mask
      else if context_mask ! idx AND push_bit bitpos 1 \<noteq> 0 then
        Inl (Exit_called ''In MPIR_Free_contextid, the context id is not in use'')
      else Inr (context_mask[idx := context_mask ! idx OR push_bit bitpos 1]))"

subsection \<open>The set of free ids\<close>

text \<open>The prefixes whose bit is set.\<close>

definition free_ids :: "cmask \<Rightarrow> nat set" where
  "free_ids msk = {k. k < 2048 \<and> bit (msk ! (k div 32)) (k mod 32)}"

lemma word_bit_less: "bit (w :: 32 word) n \<Longrightarrow> n < 32"
  using bit_imp_le_length [of w n] by simp

lemma mask_bits:
  "bit (0xFFFF0000 :: 32 word) n \<longleftrightarrow> n < 32 \<and> odd (n div 16)"
  "bit (0xFF00FF00 :: 32 word) n \<longleftrightarrow> n < 32 \<and> odd (n div 8)"
  "bit (0xF0F0F0F0 :: 32 word) n \<longleftrightarrow> n < 32 \<and> odd (n div 4)"
  "bit (0xCCCCCCCC :: 32 word) n \<longleftrightarrow> n < 32 \<and> odd (n div 2)"
  "bit (0xAAAAAAAA :: 32 word) n \<longleftrightarrow> n < 32 \<and> odd n"
proof -
  have "\<forall>n<32. (bit (0xFFFF0000 :: 32 word) n = odd (n div 16)) \<and> (bit (0xFF00FF00 :: 32 word) n = odd (n div 8)) \<and>
     (bit (0xF0F0F0F0 :: 32 word) n = odd (n div 4)) \<and> (bit (0xCCCCCCCC :: 32 word) n = odd (n div 2)) \<and>
     (bit (0xAAAAAAAA :: 32 word) n = odd n)"
    by code_simp
  then show "bit (0xFFFF0000 :: 32 word) n \<longleftrightarrow> n < 32 \<and> odd (n div 16)"
  "bit (0xFF00FF00 :: 32 word) n \<longleftrightarrow> n < 32 \<and> odd (n div 8)"
  "bit (0xF0F0F0F0 :: 32 word) n \<longleftrightarrow> n < 32 \<and> odd (n div 4)"
  "bit (0xCCCCCCCC :: 32 word) n \<longleftrightarrow> n < 32 \<and> odd (n div 2)"
  "bit (0xAAAAAAAA :: 32 word) n \<longleftrightarrow> n < 32 \<and> odd n"
    using word_bit_less by blast+
qed


text \<open>
  One step of the halving: the bits of \<open>val\<close> all lie in block \<open>q\<close> of size \<open>2 d\<close>; afterwards they lie in
  the half of it that holds the highest bit.
\<close>

definition in_block :: "32 word \<Rightarrow> nat \<Rightarrow> nat \<Rightarrow> nat \<Rightarrow> bool" where
  "in_block val d q h \<longleftrightarrow> bit val h \<and> (\<forall>n. bit val n \<longrightarrow> n \<le> h \<and> n div d = q)"

lemma bit_step_block:
  assumes "in_block val (2 * d) q h" "\<And>n. bit m n \<longleftrightarrow> n < 32 \<and> odd (n div d)" "0 < d"
  shows "\<exists>val' q'. bit_step m d (val, 2 * d * q) = (val', d * q') \<and> in_block val' d q' h"
proof -
  have half: "n div d = 2 * q \<or> n div d = 2 * q + 1" if "bit val n" for n
  proof -
    have "n div d div 2 = q" using assms(1) that by (simp add: in_block_def div_mult2_eq [symmetric] mult.commute)
    then show ?thesis by linarith
  qed
  have nb: "bit (val AND m) n \<longleftrightarrow> bit val n \<and> odd (n div d)" for n
    using assms(2) word_bit_less [of val n] by (auto simp: bit_and_iff)
  have h: "bit val h" "\<And>n. bit val n \<Longrightarrow> n \<le> h" using assms(1) by (auto simp: in_block_def)
  show ?thesis
  proof (cases "val AND m = 0")
    case True
    then have "even (n div d)" if "bit val n" for n using nb [of n] that by simp
    then have "n div d = 2 * q" if "bit val n" for n using half [OF that] that by fastforce
    then have "in_block val d (2 * q) h" using h by (simp add: in_block_def)
    then show ?thesis using True by (intro exI [of _ val] exI [of _ "2 * q"]) (simp add: bit_step_def)
  next
    case False
    then obtain k where k: "bit (val AND m) k" by (auto simp: bit_eq_iff)
    then have "k div d = 2 * q + 1" "bit val k" using nb [of k] half [of k] by auto
    then have "2 * q + 1 \<le> h div d" using h(2) [of k] div_le_mono [of k h d] by simp
    then have hd: "h div d = 2 * q + 1" using half [OF h(1)] by auto
    have "in_block (val AND m) d (2 * q + 1) h"
      using nb half h hd unfolding in_block_def by (metis even_mult_iff even_plus_one_iff even_numeral odd_one)
    then show ?thesis using False
      by (intro exI [of _ "val AND m"] exI [of _ "2 * q + 1"]) (simp add: bit_step_def algebra_simps)
  qed
qed

lemma highest_bit_spec:
  assumes "w \<noteq> 0"
  shows "bit w (highest_bit w)" "bit w n \<Longrightarrow> n \<le> highest_bit w" "highest_bit w < 32"
proof -
  have fin: "finite {n. bit w n}" by (rule finite_subset [of _ "{..<32}"]) (auto dest: word_bit_less)
  obtain k where "bit w k" using assms by (auto simp: bit_eq_iff)
  then have ne: "{n. bit w n} \<noteq> {}" by blast
  define h where "h = Max {n. bit w n}"
  have h: "bit w h" "\<And>n. bit w n \<Longrightarrow> n \<le> h" using Max_in [OF fin ne] Max_ge [OF fin] by (auto simp: h_def)
  have b0: "in_block w (2 * 16) 0 h" using h word_bit_less by (auto simp: in_block_def)
  obtain v1 q1 where s1: "bit_step 0xFFFF0000 16 (w, 0) = (v1, 16 * q1)" "in_block v1 16 q1 h"
    using bit_step_block [OF b0 mask_bits(1)] by auto
  obtain v2 q2 where s2: "bit_step 0xFF00FF00 8 (v1, 16 * q1) = (v2, 8 * q2)" "in_block v2 8 q2 h"
    using bit_step_block [where val = v1 and q = q1 and h = h, OF _ mask_bits(2)] s1(2) by auto
  obtain v3 q3 where s3: "bit_step 0xF0F0F0F0 4 (v2, 8 * q2) = (v3, 4 * q3)" "in_block v3 4 q3 h"
    using bit_step_block [where val = v2 and q = q2 and h = h, OF _ mask_bits(3)] s2(2) by auto
  obtain v4 q4 where s4: "bit_step 0xCCCCCCCC 2 (v3, 4 * q3) = (v4, 2 * q4)" "in_block v4 2 q4 h"
    using bit_step_block [where val = v3 and q = q3 and h = h, OF _ mask_bits(4)] s3(2) by auto
  obtain v5 q5 where s5: "bit_step 0xAAAAAAAA 1 (v4, 2 * q4) = (v5, q5)" "in_block v5 1 q5 h"
    using bit_step_block [where val = v4 and d = 1 and q = q4 and h = h and m = "0xAAAAAAAA"] s4(2) mask_bits(5) by auto
  have "highest_bit w = q5" using s1(1) s2(1) s3(1) s4(1) s5(1) by (auto simp: highest_bit_def bit_step_def Let_def split: if_splits)
  moreover have "h = q5" using s5(2) by (auto simp: in_block_def)
  ultimately have "highest_bit w = h" by simp
  then show "bit w (highest_bit w)" "bit w n \<Longrightarrow> n \<le> highest_bit w" "highest_bit w < 32" using h word_bit_less by auto
qed

lemma read_field:
  assumes "shft + wdt \<le> 16"
  shows "MPID_CONTEXT_READ_FIELD wdt shft cid = unat cid div 2 ^ shft mod 2 ^ wdt"
proof -
  have "drop_bit shft (cid AND push_bit shft (push_bit wdt 1 - 1)) = take_bit wdt (drop_bit shft cid)"
    using assms by (intro bit_eqI) (auto simp: bit_simps mask_eq_exp_minus_1 [symmetric] push_bit_of_1)
  moreover have "unat cid < 2 ^ LENGTH(16)" by (rule unsigned_less)
  then have "take_bit 16 (unat cid) = unat cid" by (simp add: take_bit_nat_eq_self_iff)
  ultimately have "MPID_CONTEXT_READ_FIELD wdt shft cid = take_bit wdt (drop_bit shft (unat cid))"
    unfolding MPID_CONTEXT_READ_FIELD_def by (simp add: unsigned_take_bit_eq unsigned_drop_bit_eq del: drop_bit_eq_div take_bit_eq_mod)
  then show ?thesis by (simp add: take_bit_eq_mod drop_bit_eq_div)
qed


lemma id_of_prefix:
  assumes "k < 2048"
  shows "unat (word_of_int (push_bit 4 (int k)) :: MPIU_Context_id_t) = 16 * k"
    "read_prefix (word_of_int (push_bit 4 (int k))) = k" "read_dynamic_proc (word_of_int (push_bit 4 (int k))) = 0"
    "read_is_localcomm (word_of_int (push_bit 4 (int k))) = 0" "read_subcomm (word_of_int (push_bit 4 (int k))) = 0"
    "(word_of_int (push_bit 4 (int k)) :: MPIU_Context_id_t) = 0 \<longleftrightarrow> k = 0"
proof -
  show u: "unat (word_of_int (push_bit 4 (int k)) :: MPIU_Context_id_t) = 16 * k"
  proof -
    have "(word_of_int (push_bit 4 (int k)) :: MPIU_Context_id_t) = word_of_nat (16 * k)" by (simp add: push_bit_eq_mult)
    moreover have "unat (word_of_nat (16 * k) :: MPIU_Context_id_t) = take_bit 16 (16 * k)" by (simp only: unsigned_of_nat len_num1) simp
    ultimately show ?thesis using assms by (simp add: take_bit_nat_eq_self_iff)
  qed
  show "read_prefix (word_of_int (push_bit 4 (int k))) = k" "read_dynamic_proc (word_of_int (push_bit 4 (int k))) = 0"
    "read_is_localcomm (word_of_int (push_bit 4 (int k))) = 0" "read_subcomm (word_of_int (push_bit 4 (int k))) = 0"
    unfolding read_prefix_def read_dynamic_proc_def read_is_localcomm_def read_subcomm_def
    using assms by (simp_all add: read_field u MPID_CONTEXT_DYNAMIC_PROC_WIDTH_def MPID_CONTEXT_IS_LOCALCOMM_WIDTH_def
        MPID_CONTEXT_SUBCOMM_WIDTH_def)
  have "(word_of_int (push_bit 4 (int k)) :: MPIU_Context_id_t) = 0 \<longleftrightarrow> unat (word_of_int (push_bit 4 (int k)) :: MPIU_Context_id_t) = 0"
    by (rule unat_eq_0 [symmetric])
  then show "(word_of_int (push_bit 4 (int k)) :: MPIU_Context_id_t) = 0 \<longleftrightarrow> k = 0" using u by simp
qed

text \<open>
  The prefix that the search picks: the highest bit of the first word that has one.
\<close>

definition picked :: "cmask \<Rightarrow> nat \<Rightarrow> bool" where
  "picked msk k \<longleftrightarrow> k \<in> free_ids msk \<and> (\<forall>j\<in>free_ids msk. k div 32 \<le> j div 32 \<and> (j div 32 = k div 32 \<longrightarrow> j \<le> k))"

lemma locate_from_spec:
  "(\<forall>w\<in>set ws. w = 0) \<Longrightarrow> locate_from i ws = 0"
  "k < length ws \<Longrightarrow> ws ! k \<noteq> 0 \<Longrightarrow> (\<forall>j<k. ws ! j = 0) \<Longrightarrow>
     locate_from i ws = push_bit 4 (int (32 * (i + k) + highest_bit (ws ! k)))"
proof (induction ws arbitrary: i k)
  case (Cons w ws)
  { case 1 then show ?case using Cons.IH(1) by simp
  next
    case 2
    show ?case
    proof (cases k)
      case 0
      then show ?thesis using 2 by simp
    next
      case (Suc k')
      have "w = 0" using 2(3) Suc by force
      moreover have "\<forall>j<k'. ws ! j = 0" using 2(3) Suc by fastforce
      ultimately show ?thesis using Cons.IH(2) [of k' "Suc i"] 2(1,2) Suc by simp
    qed }
qed simp_all

lemma locate_context_bit_spec:
  assumes "64 \<le> length msk"
  shows "free_ids msk = {} \<Longrightarrow> locate_context_bit msk = 0"
    "free_ids msk \<noteq> {} \<Longrightarrow> \<exists>k. picked msk k \<and> locate_context_bit msk = push_bit 4 (int k)"
proof -
  have nth: "take 64 msk ! i = msk ! i" if "i < 64" for i using that by simp
  have len: "length (take 64 msk) = 64" using assms by simp
  have mem: "32 * i + n \<in> free_ids msk \<longleftrightarrow> bit (msk ! i) n" if "i < 64" "n < 32" for i n
    using that by (simp add: free_ids_def)
  show "locate_context_bit msk = 0" if "free_ids msk = {}"
  proof -
    have "msk ! i = 0" if "i < 64" for i
      using mem [OF that] \<open>free_ids msk = {}\<close> word_bit_less [of "msk ! i"] by (intro bit_eqI) auto
    then have "\<forall>w\<in>set (take 64 msk). w = 0" using len nth by (metis in_set_conv_nth)
    then show ?thesis by (simp add: locate_context_bit_def locate_from_spec(1))
  qed
  show "\<exists>k. picked msk k \<and> locate_context_bit msk = push_bit 4 (int k)" if ne: "free_ids msk \<noteq> {}"
  proof -
    obtain k where k: "k < 2048" "bit (msk ! (k div 32)) (k mod 32)" using ne by (auto simp: free_ids_def)
    define P where "P i \<longleftrightarrow> i < 64 \<and> msk ! i \<noteq> 0" for i
    have "P (k div 32)" using k by (auto simp: P_def)
    define i where "i = (LEAST i. P i)"
    have i: "i < 64" "msk ! i \<noteq> 0" using LeastI [of P, OF \<open>P (k div 32)\<close>] by (auto simp: i_def P_def)
    have first: "msk ! j = 0" if "j < i" for j using not_less_Least [of j P] that i(1) by (auto simp: i_def P_def)
    let ?h = "highest_bit (msk ! i)"
    note hb = highest_bit_spec [OF i(2)]
    have "locate_context_bit msk = push_bit 4 (int (32 * i + ?h))"
      using locate_from_spec(2) [of i "take 64 msk" 0] i first nth len by (simp add: locate_context_bit_def)
    moreover have "picked msk (32 * i + ?h)"
      unfolding picked_def
    proof (rule conjI)
      show "32 * i + ?h \<in> free_ids msk" using mem [OF i(1) hb(3)] hb(1) by simp
      show "\<forall>j\<in>free_ids msk. (32 * i + ?h) div 32 \<le> j div 32 \<and> (j div 32 = (32 * i + ?h) div 32 \<longrightarrow> j \<le> 32 * i + ?h)"
      proof
        fix j assume "j \<in> free_ids msk"
        then have j: "bit (msk ! (j div 32)) (j mod 32)" by (simp add: free_ids_def)
        have d: "(32 * i + ?h) div 32 = i" using hb(3) by simp
        have "i \<le> j div 32" using j first [of "j div 32"] by (metis bit_0_eq bot_apply bot_bool_def not_le)
        moreover have "j \<le> 32 * i + ?h" if "j div 32 = i" using hb(2) j that by (metis add_left_mono mult_div_mod_eq)
        ultimately show "(32 * i + ?h) div 32 \<le> j div 32 \<and> (j div 32 = (32 * i + ?h) div 32 \<longrightarrow> j \<le> 32 * i + ?h)"
          using d by simp
      qed
    qed
    ultimately show ?thesis by blast
  qed
qed


subsection \<open>Taking and returning an id\<close>

lemma mask_nth_bit:
  assumes "length msk = 64" "k < 2048"
  shows "k div 32 < length msk" "msk ! (k div 32) AND push_bit (k mod 32) 1 \<noteq> 0 \<longleftrightarrow> k \<in> free_ids msk"
proof -
  show "k div 32 < length msk" using assms by simp
  have "msk ! (k div 32) AND push_bit (k mod 32) 1 \<noteq> 0 \<longleftrightarrow> bit (msk ! (k div 32)) (k mod 32)"
    by (simp add: and_exp_eq_0_iff_not_bit)
  then show "msk ! (k div 32) AND push_bit (k mod 32) 1 \<noteq> 0 \<longleftrightarrow> k \<in> free_ids msk" using assms by (simp add: free_ids_def)
qed

lemma div_mod_eq: "j div n = k div n \<Longrightarrow> j mod n = k mod n \<Longrightarrow> j = (k :: nat)"
  by (metis div_mult_mod_eq)

lemma free_ids_update:
  assumes "length msk = 64" "k < 2048"
  shows "free_ids (msk[k div 32 := msk ! (k div 32) AND NOT (push_bit (k mod 32) 1)]) = free_ids msk - {k}"
    "free_ids (msk[k div 32 := msk ! (k div 32) OR push_bit (k mod 32) 1]) = insert k (free_ids msk)"
proof -
  have b: "bit (NOT (2 ^ (k mod 32)) :: 32 word) (j mod 32) \<longleftrightarrow> j mod 32 \<noteq> k mod 32"
    "bit (2 ^ (k mod 32) :: 32 word) (j mod 32) \<longleftrightarrow> j mod 32 = k mod 32" for j
    by (auto simp: bit_simps)
  show "free_ids (msk[k div 32 := msk ! (k div 32) AND NOT (push_bit (k mod 32) 1)]) = free_ids msk - {k}"
    using assms div_mod_eq [of _ 32 k] by (auto simp: free_ids_def nth_list_update bit_and_iff b)
  show "free_ids (msk[k div 32 := msk ! (k div 32) OR push_bit (k mod 32) 1]) = insert k (free_ids msk)"
    using assms div_mod_eq [of _ 32 k] by (auto simp: free_ids_def nth_list_update bit_or_iff b)
qed

abbreviation id_of :: "nat \<Rightarrow> MPIU_Context_id_t" where
  "id_of k \<equiv> word_of_int (push_bit 4 (int k))"

lemma allocate_bit:
  assumes "length msk = 64" "k \<in> free_ids msk"
  shows "allocate_context_bit msk (id_of k) =
    Inr (id_of k, msk[k div 32 := msk ! (k div 32) AND NOT (push_bit (k mod 32) 1)])"
proof -
  have k: "k < 2048" using assms(2) by (simp add: free_ids_def)
  show ?thesis using mask_nth_bit [OF assms(1) k] assms(2) id_of_prefix [OF k] by (simp add: allocate_context_bit_def Let_def)
qed

lemma free_contextid:
  assumes "length msk = 64" "k < 2048"
  shows "MPIR_Free_contextid msk (id_of k) =
    (if k \<in> free_ids msk then Inl (Exit_called ''In MPIR_Free_contextid, the context id is not in use'')
     else Inr (msk[k div 32 := msk ! (k div 32) OR push_bit (k mod 32) 1]))"
  using mask_nth_bit [OF assms] id_of_prefix [OF assms(2)] assms(2) by (simp add: MPIR_Free_contextid_def Let_def)

lemma clear_set_bit:
  fixes w :: "32 word"
  assumes "bit w n"
  shows "(w AND NOT (push_bit n 1)) OR push_bit n 1 = w"
  using assms by (intro bit_eqI) (auto simp: bit_simps)

lemma find_and_allocate_spec:
  assumes "length msk = 64" "64 \<le> length l" "free_ids l \<subseteq> free_ids msk" "0 \<notin> free_ids msk"
  shows "free_ids l = {} \<Longrightarrow> find_and_allocate_context_id msk l = Inr (0, msk)"
    "picked l k \<Longrightarrow> \<exists>msk'. find_and_allocate_context_id msk l = Inr (id_of k, msk') \<and> length msk' = 64 \<and>
       free_ids msk' = free_ids msk - {k} \<and> id_of k \<noteq> 0"
proof -
  show "find_and_allocate_context_id msk l = Inr (0, msk)" if "free_ids l = {}"
    using locate_context_bit_spec(1) [OF assms(2) that] by (simp add: find_and_allocate_context_id_def)
  assume k: "picked l k"
  then have kl: "k \<in> free_ids l" and km: "k \<in> free_ids msk" "k < 2048" "k \<noteq> 0"
    using assms(3,4) by (auto simp: picked_def free_ids_def)
  obtain k' where k': "picked l k'" "locate_context_bit l = push_bit 4 (int k')"
    using locate_context_bit_spec(2) [OF assms(2)] kl by blast
  have "k' = k" using k k'(1) by (auto simp: picked_def intro!: le_antisym)
  then show "\<exists>msk'. find_and_allocate_context_id msk l = Inr (id_of k, msk') \<and> length msk' = 64 \<and>
       free_ids msk' = free_ids msk - {k} \<and> id_of k \<noteq> 0"
    using k'(2) allocate_bit [OF assms(1) km(1)] id_of_prefix(6) [OF km(2)] km(3) assms(1) free_ids_update(1) [OF assms(1) km(2)]
    by (simp add: find_and_allocate_context_id_def)
qed


text \<open>
  C37. The id found in a bit vector: nothing when no bit is set, otherwise the prefix of the highest
  set bit of the first word that has one, shifted into place.  The id is below \<open>2 ^ 15\<close>, so it fits the
  16-bit type without its dynamic-process bit, its prefix field gives the bit back, and the
  local-communicator and sub-communicator fields are zero.
\<close>

theorem context_id_bounds:
  assumes "length msk = MPIR_MAX_CONTEXT_MASK"
  shows "(if free_ids msk = {} then locate_context_bit msk = 0
    else \<exists>k\<in>free_ids msk. (\<forall>j\<in>free_ids msk. k div 32 \<le> j div 32 \<and> (j div 32 = k div 32 \<longrightarrow> j \<le> k)) \<and>
      locate_context_bit msk = 16 * int k \<and> locate_context_bit msk < 2 ^ 15 \<and>
      read_prefix (word_of_int (locate_context_bit msk)) = k \<and> read_dynamic_proc (word_of_int (locate_context_bit msk)) = 0 \<and>
      read_is_localcomm (word_of_int (locate_context_bit msk)) = 0 \<and> read_subcomm (word_of_int (locate_context_bit msk)) = 0)"
proof (cases "free_ids msk = {}")
  case True
  then show ?thesis using locate_context_bit_spec(1) [of msk] assms by simp
next
  case False
  then obtain k where k: "picked msk k" "locate_context_bit msk = push_bit 4 (int k)"
    using locate_context_bit_spec(2) [of msk] assms by auto
  then have k2: "k < 2048" by (simp add: picked_def free_ids_def)
  then have "push_bit 4 (int k) = 16 * int k" "push_bit 4 (int k) < 2 ^ 15" by (simp_all add: push_bit_eq_mult)
  then show ?thesis using False k id_of_prefix(2-5) [OF k2] unfolding picked_def by auto
qed

lemma initial_free: "free_ids initial_mask = {3..<2048}"
proof -
  have w0: "bit (0xFFFFFFF8 :: 32 word) n \<longleftrightarrow> 3 \<le> n \<and> n < 32" for n
  proof -
    have "\<forall>n<32. bit (0xFFFFFFF8 :: 32 word) n = (3 \<le> n)" by code_simp
    then show ?thesis using word_bit_less by blast
  qed
  have w1: "bit (0xFFFFFFFF :: 32 word) n \<longleftrightarrow> n < 32" for n
  proof -
    have "\<forall>n<32. bit (0xFFFFFFFF :: 32 word) n" by code_simp
    then show ?thesis using word_bit_less by blast
  qed
  have "bit (initial_mask ! (k div 32)) (k mod 32) \<longleftrightarrow> 3 \<le> k" if "k < 2048" for k
  proof (cases "k div 32")
    case 0
    then have "k mod 32 = k" by (metis div_eq_0_iff mod_less zero_neq_numeral)
    moreover have "k < 32" using 0 by (simp add: div_eq_0_iff)
    moreover have "initial_mask ! 0 = 0xFFFFFFF8" by (simp add: initial_mask_def)
    ultimately show ?thesis using 0 w0 [of k] by metis
  next
    case (Suc i)
    then have "32 \<le> k" by (metis div_less leI nat.distinct(1))
    moreover have "i < 63" using Suc that by linarith
    moreover from this have "initial_mask ! Suc i = 0xFFFFFFFF" by (simp add: initial_mask_def)
    ultimately have "bit (initial_mask ! (k div 32)) (k mod 32)" using Suc w1 [of "k mod 32"] by simp
    then show ?thesis using \<open>32 \<le> k\<close> by simp
  qed
  then show ?thesis by (auto simp: free_ids_def)
qed

lemma initial_length: "length initial_mask = MPIR_MAX_CONTEXT_MASK"
  by (simp add: initial_mask_def)

theorem context_id_bounds_witness:
  "length initial_mask = MPIR_MAX_CONTEXT_MASK \<and> locate_context_bit initial_mask = 496"
proof -
  have "free_ids initial_mask \<noteq> {}" by (simp add: initial_free)
  then obtain k where k: "k \<in> free_ids initial_mask" "\<forall>j\<in>free_ids initial_mask. k div 32 \<le> j div 32 \<and> (j div 32 = k div 32 \<longrightarrow> j \<le> k)"
      "locate_context_bit initial_mask = 16 * int k"
    using context_id_bounds [OF initial_length] by auto
  have "31 \<in> free_ids initial_mask" by (simp add: initial_free)
  then have "k div 32 = 0" "31 \<le> k" using k(2) by force+
  then have "k = 31" by (simp add: div_eq_0_iff)
  then show ?thesis using k(3) initial_length by simp
qed

text \<open>
  C38. Taking an id and giving it back: an id that is free in a vector is taken by clearing its
  bit and no other, taking it twice fails the assertion, giving it back restores the vector, and
  giving back an id that is not in use aborts.
\<close>

theorem context_id_roundtrip:
  assumes "length msk = MPIR_MAX_CONTEXT_MASK" "k \<in> free_ids msk"
  shows "\<exists>msk'. allocate_context_bit msk (id_of k) = Inr (id_of k, msk') \<and> free_ids msk' = free_ids msk - {k} \<and>
    allocate_context_bit msk' (id_of k) = Inl (Assert_failed ''mask[idx] & (1 << bitpos)'') \<and>
    MPIR_Free_contextid msk' (id_of k) = Inr msk \<and>
    MPIR_Free_contextid msk (id_of k) = Inl (Exit_called ''In MPIR_Free_contextid, the context id is not in use'')"
proof -
  have len: "length msk = 64" and k: "k < 2048" and b: "bit (msk ! (k div 32)) (k mod 32)"
    using assms by (simp_all add: free_ids_def)
  let ?m = "msk[k div 32 := msk ! (k div 32) AND NOT (push_bit (k mod 32) 1)]"
  have f: "free_ids ?m = free_ids msk - {k}" by (rule free_ids_update(1) [OF len k])
  have l: "length ?m = 64" using len by simp
  have "allocate_context_bit ?m (id_of k) = Inl (Assert_failed ''mask[idx] & (1 << bitpos)'')"
    using mask_nth_bit [OF l k] id_of_prefix [OF k] f by (simp add: allocate_context_bit_def Let_def check_def)
  moreover have "MPIR_Free_contextid ?m (id_of k) = Inr msk"
    using free_contextid [OF l k] f len k clear_set_bit [OF b] by simp
  moreover have "MPIR_Free_contextid msk (id_of k) = Inl (Exit_called ''In MPIR_Free_contextid, the context id is not in use'')"
    using free_contextid [OF len k] assms(2) by simp
  ultimately show ?thesis using allocate_bit [OF len assms(2)] f by (intro exI [of _ ?m]) blast
qed

theorem context_id_roundtrip_witness:
  "\<exists>msk'. allocate_context_bit initial_mask 48 = Inr (48, msk') \<and> 3 \<notin> free_ids msk' \<and> MPIR_Free_contextid msk' 48 = Inr initial_mask"
proof -
  have "3 \<in> free_ids initial_mask" by (simp add: initial_free)
  from context_id_roundtrip [OF initial_length this] show ?thesis by (auto simp: push_bit_eq_mult)
qed

end
