(* ===== verification/Context_Gcn.thy ===== *)
theory Context_Gcn
  imports Context_Id
begin

section \<open>Agreeing on a context id (\<^verbatim>\<open>MPIR_Get_contextid_sparse_group\<close>)\<close>

text \<open>
  The loop that the processes of a communicator run together to agree on a new id.  In the first
  round every process offers the words of its vector set aside for the eager protocol; when that
  gives no common bit, it queues its call and in later rounds offers the rest of its vector if its
  call is the first in its queue.  A process that does not take part in the new communicator offers
  everything.  When all offered their vectors and no bit is common, the call fails for all.

  The model runs the bodies of the loop of all processes of the communicator in step: the
  all-reduce in the middle of the body gives each of them the bitwise and of what all contributed.
\<close>

subsection \<open>State\<close>

record gcn_entry =
  ge_addr :: addr
  ge_context_id :: MPIU_Context_id_t
  ge_tag :: nat

text \<open>What a process keeps between calls; \<open>next_gcn\<close> is the list of calls waiting for the vector.\<close>

record ctx_proc =
  context_mask :: cmask
  initialize_context_mask :: bool
  eager_nelem :: int
  eager_in_use :: bool
  mask_in_use :: bool
  next_gcn :: "gcn_entry list"

text \<open>\<^verbatim>\<open>struct gcn_state\<close> of one call, with its arguments and its result.\<close>

record gcn_state =
  st_entry :: gcn_entry
  ignore_id :: bool
  own_mask :: bool
  own_eager_mask :: bool
  first_iter :: bool
  local_mask :: cmask
  st_context_id :: MPIU_Context_id_t

definition ALL_OWN_MASK_FLAG :: nat where "ALL_OWN_MASK_FLAG = MPIR_MAX_CONTEXT_MASK"

subsection \<open>The list of waiting calls\<close>

fun add_after :: "gcn_entry \<Rightarrow> gcn_entry list \<Rightarrow> gcn_entry list" where
  "add_after new [] = [new]"
| "add_after new (t # ts) =
     (if ge_context_id new > ge_context_id t \<or> ge_context_id new = ge_context_id t \<and> ge_tag new \<ge> ge_tag t
      then t # add_after new ts else new # t # ts)"

definition add_gcn_to_list :: "gcn_entry \<Rightarrow> gcn_entry list \<Rightarrow> gcn_entry list" where
  "add_gcn_to_list new gs =
     (case gs of
        [] \<Rightarrow> [new]
      | g # rest \<Rightarrow>
          if ge_context_id g > ge_context_id new \<or> ge_context_id g = ge_context_id new \<and> ge_tag g > ge_tag new
          then new # g # rest else g # add_after new rest)"

fun remove_gcn :: "addr \<Rightarrow> gcn_entry list \<Rightarrow> gcn_entry list outcome" where
  "remove_gcn a [] = Inl (Undefined ''tmp->next'')"
| "remove_gcn a (g # gs) =
     (if ge_addr g = a then Inr gs else bind_outcome (remove_gcn a gs) (\<lambda>r. Inr (g # r)))"

subsection \<open>The body of the loop\<close>

definition gcn_start :: "gcn_entry \<Rightarrow> bool \<Rightarrow> gcn_state" where
  "gcn_start e ign = \<lparr>st_entry = e, ignore_id = ign, own_mask = False, own_eager_mask = False, first_iter = True,
     local_mask = [], st_context_id = 0\<rparr>"

definition context_id_init :: "ctx_proc \<Rightarrow> ctx_proc" where
  "context_id_init p = p\<lparr>context_mask := initial_mask, initialize_context_mask := False\<rparr>"

text \<open>Up to the all-reduce; \<open>eager_size\<close> is \<^verbatim>\<open>MPIR_CVAR_CTXID_EAGER_SIZE\<close>.\<close>

definition gcn_setup :: "int \<Rightarrow> ctx_proc \<Rightarrow> ctx_proc outcome" where
  "gcn_setup eager_size p =
     (let p1 = (if initialize_context_mask p then context_id_init p else p) in
      if eager_nelem p1 < 0 then
        bind_outcome (check (eager_size \<ge> 0 \<and> eager_size < int MPIR_MAX_CONTEXT_MASK - 1) ''MPIR_CVAR_CTXID_EAGER_SIZE'') (\<lambda>_.
        Inr (p1\<lparr>eager_nelem := eager_size\<rparr>))
      else Inr p1)"

definition gcn_offer :: "gcn_state \<times> ctx_proc \<Rightarrow> (gcn_state \<times> ctx_proc) outcome" where
  "gcn_offer sp =
     (case sp of (st, p) \<Rightarrow>
      let zeros = replicate MPIR_MAX_CONTEXT_MASK 0; e = nat (eager_nelem p) in
      if ignore_id st then
        Inr (st\<lparr>local_mask := replicate MPIR_MAX_CONTEXT_MASK (- 1), own_mask := False\<rparr>, p)
      else if first_iter st then
        (if \<not> eager_in_use p \<and> eager_nelem p > 0 then
           Inr (st\<lparr>local_mask := take e (context_mask p) @ drop e zeros, own_eager_mask := True\<rparr>, p\<lparr>eager_in_use := True\<rparr>)
         else Inr (st\<lparr>local_mask := zeros, own_eager_mask := False\<rparr>, p))
      else
        (case next_gcn p of
           [] \<Rightarrow> Inl (Assert_failed ''next_gcn != NULL'')
         | g # _ \<Rightarrow>
             if mask_in_use p \<or> ge_addr g \<noteq> ge_addr (st_entry st) then
               Inr (st\<lparr>local_mask := zeros, own_mask := False\<rparr>, p)
             else
               Inr (st\<lparr>local_mask := take e zeros @ drop e (context_mask p), own_mask := True\<rparr>, p\<lparr>mask_in_use := True\<rparr>)))"

definition gcn_reserve :: "int \<Rightarrow> gcn_state \<times> ctx_proc \<Rightarrow> (gcn_state \<times> ctx_proc) outcome" where
  "gcn_reserve eager_size sp =
     bind_outcome (gcn_setup eager_size (snd sp)) (\<lambda>p.
     bind_outcome (gcn_offer (fst sp, p)) (\<lambda>(st, p').
     Inr (st\<lparr>local_mask := local_mask st @ [if own_mask st \<or> ignore_id st then 1 else 0]\<rparr>, p')))"

text \<open>The all-reduce with \<^verbatim>\<open>MPI_BAND\<close> over the \<open>MPIR_MAX_CONTEXT_MASK + 1\<close> words.\<close>

definition allreduce_band :: "cmask list \<Rightarrow> cmask" where
  "allreduce_band ms = map (\<lambda>i. foldr (AND) (map (\<lambda>m. m ! i) ms) (- 1)) [0..<MPIR_MAX_CONTEXT_MASK + 1]"

text \<open>After it, with the combined vector.\<close>

definition gcn_allocate :: "cmask \<Rightarrow> gcn_state \<times> ctx_proc \<Rightarrow> (gcn_state \<times> ctx_proc) outcome" where
  "gcn_allocate combined sp =
     (case sp of (st0, p) \<Rightarrow>
      let st = st0\<lparr>local_mask := combined\<rparr> in
      if ignore_id st then Inr (st\<lparr>st_context_id := word_of_int (locate_context_bit combined)\<rparr>, p)
      else if own_eager_mask st then
        bind_outcome (find_and_allocate_context_id (context_mask p) combined) (\<lambda>(cid, m).
        Inr (st\<lparr>st_context_id := cid, own_eager_mask := False\<rparr>, p\<lparr>context_mask := m, eager_in_use := False\<rparr>))
      else if own_mask st then
        bind_outcome (find_and_allocate_context_id (context_mask p) combined) (\<lambda>(cid, m).
        let p1 = p\<lparr>context_mask := m, mask_in_use := False\<rparr>; st1 = st\<lparr>st_context_id := cid\<rparr> in
        if cid > 0 then
          bind_outcome (remove_gcn (ge_addr (st_entry st)) (next_gcn p)) (\<lambda>gs. Inr (st1, p1\<lparr>next_gcn := gs\<rparr>))
        else Inr (st1, p1))
      else Inr (st, p))"

definition gcn_exhausted :: "cmask \<Rightarrow> gcn_state \<Rightarrow> bool" where
  "gcn_exhausted combined st \<longleftrightarrow> st_context_id st = 0 \<and> combined ! ALL_OWN_MASK_FLAG = 1"

definition gcn_fail :: "gcn_state \<times> ctx_proc \<Rightarrow> ctx_proc outcome" where
  "gcn_fail sp =
     (case sp of (st, p) \<Rightarrow>
      let p1 = (if own_mask st then p\<lparr>mask_in_use := False\<rparr> else p) in
      if \<not> first_iter st \<and> \<not> ignore_id st then
        bind_outcome (remove_gcn (ge_addr (st_entry st)) (next_gcn p1)) (\<lambda>gs. Inr (p1\<lparr>next_gcn := gs\<rparr>))
      else Inr p1)"

definition gcn_minfree :: "gcn_state \<times> ctx_proc \<Rightarrow> int" where
  "gcn_minfree sp = (if ignore_id (fst sp) then 2147483647 else fst (context_mask_stats (context_mask (snd sp))))"

definition gcn_next :: "gcn_state \<times> ctx_proc \<Rightarrow> gcn_state \<times> ctx_proc" where
  "gcn_next sp =
     (case sp of (st, p) \<Rightarrow>
      if first_iter st then
        (st\<lparr>first_iter := False\<rparr>,
         if \<not> ignore_id st \<and> st_context_id st = 0 then p\<lparr>next_gcn := add_gcn_to_list (st_entry st) (next_gcn p)\<rparr> else p)
      else (st, p))"

fun map_outcome :: "('a \<Rightarrow> 'b outcome) \<Rightarrow> 'a list \<Rightarrow> 'b list outcome" where
  "map_outcome f [] = Inr []"
| "map_outcome f (x # xs) = bind_outcome (f x) (\<lambda>y. bind_outcome (map_outcome f xs) (\<lambda>ys. Inr (y # ys)))"

text \<open>
  The whole loop, with a bound on the rounds.  Processes that disagree on whether to go on would
  wait for each other for ever; the model has no value for that but a fault.
\<close>

fun gcn_collective ::
  "nat \<Rightarrow> int \<Rightarrow> (gcn_state \<times> ctx_proc) list \<Rightarrow> ((string + MPIU_Context_id_t) \<times> ctx_proc) list outcome" where
  "gcn_collective 0 eager_size sps = Inl No_return"
| "gcn_collective (Suc n) eager_size sps =
     bind_outcome (map_outcome (gcn_reserve eager_size) sps) (\<lambda>qs.
     let combined = allreduce_band (map (\<lambda>sp. local_mask (fst sp)) qs) in
     bind_outcome (map_outcome (gcn_allocate combined) qs) (\<lambda>rs.
     if list_all (\<lambda>sp. gcn_exhausted combined (fst sp)) rs then
       let minfree = Min (set (map gcn_minfree rs)) in
       bind_outcome (map_outcome gcn_fail rs) (\<lambda>us.
       Inr (map (\<lambda>p. (Inl (if minfree > 0 then ''**toomanycommfrag'' else ''**toomanycomm''), p)) us))
     else if list_ex (\<lambda>sp. gcn_exhausted combined (fst sp)) rs then Inl (Undefined ''MPIR_Allreduce_impl'')
     else
       let ss = map gcn_next rs in
       if list_all (\<lambda>sp. st_context_id (fst sp) \<noteq> 0) ss then
         Inr (map (\<lambda>(st, p). (Inr (if ignore_id st then MPIU_INVALID_CONTEXT_ID else st_context_id st), p)) ss)
       else if list_all (\<lambda>sp. st_context_id (fst sp) = 0) ss then gcn_collective n eager_size ss
       else Inl (Undefined ''MPIR_Allreduce_impl'')))"

subsection \<open>The waiting calls stay ordered\<close>

definition gcn_le :: "gcn_entry \<Rightarrow> gcn_entry \<Rightarrow> bool" where
  "gcn_le g h \<longleftrightarrow> ge_context_id g < ge_context_id h \<or> ge_context_id g = ge_context_id h \<and> ge_tag g \<le> ge_tag h"

lemma add_after_sorted:
  "sorted_wrt gcn_le gs \<Longrightarrow> sorted_wrt gcn_le (add_after new gs) \<and> set (add_after new gs) = insert new (set gs)"
  by (induction gs) (auto simp: gcn_le_def not_less)

lemma add_gcn_sorted:
  "sorted_wrt gcn_le gs \<Longrightarrow> sorted_wrt gcn_le (add_gcn_to_list new gs) \<and> set (add_gcn_to_list new gs) = insert new (set gs)"
  using add_after_sorted [of "tl gs" new]
  by (cases gs) (auto simp: add_gcn_to_list_def gcn_le_def)

subsection \<open>Combining the vectors\<close>

lemma map_outcome_Inr: "(\<And>x. x \<in> set xs \<Longrightarrow> f x = Inr (g x)) \<Longrightarrow> map_outcome f xs = Inr (map g xs)"
  by (induction xs) auto

lemma map_outcome_map:
  "(\<And>x. x \<in> set ps \<Longrightarrow> f (g x) = Inr (h x)) \<Longrightarrow> map_outcome f (map g ps) = Inr (map h ps)"
  by (induction ps) auto

lemma bit_foldr_and: "bit (foldr (AND) ws (- 1 :: 32 word)) n \<longleftrightarrow> n < 32 \<and> (\<forall>w\<in>set ws. bit w n)"
  by (induction ws) (auto simp: bit_simps)

lemma allreduce_band_free:
  "free_ids (allreduce_band ms) = {k. k < 2048 \<and> (\<forall>m\<in>set ms. bit (m ! (k div 32)) (k mod 32))}"
proof -
  have "allreduce_band ms ! (k div 32) = foldr (AND) (map (\<lambda>m. m ! (k div 32)) ms) (- 1)" if "k < 2048" for k
  proof -
    have "k div 32 < 65" using that by linarith
    then show ?thesis by (simp add: allreduce_band_def del: upt_Suc)
  qed
  then show ?thesis by (auto simp: free_ids_def bit_foldr_and)
qed

lemma allreduce_band_flag:
  "(\<forall>m\<in>set ms. m ! 64 = 1) \<Longrightarrow> ms \<noteq> [] \<Longrightarrow> allreduce_band ms ! 64 = 1"
  "m \<in> set ms \<Longrightarrow> m ! 64 = 0 \<Longrightarrow> allreduce_band ms ! 64 = 0"
proof -
  have f: "allreduce_band ms ! 64 = foldr (AND) (map (\<lambda>m. m ! 64) ms) (- 1)" by (simp add: allreduce_band_def del: upt_Suc)
  show "allreduce_band ms ! 64 = 1" if "\<forall>m\<in>set ms. m ! 64 = 1" "ms \<noteq> []"
    unfolding f using that by (intro bit_eqI) (auto simp: bit_foldr_and bit_1_iff neq_Nil_conv)
  show "allreduce_band ms ! 64 = 0" if "m \<in> set ms" "m ! 64 = 0"
    unfolding f using that by (intro bit_eqI) (auto simp: bit_foldr_and intro!: bexI [of _ m])
qed

lemma allreduce_band_length: "length (allreduce_band ms) = 65"
  by (simp add: allreduce_band_def del: upt_Suc)


subsection \<open>One process, round by round\<close>

definition mask_of :: "ctx_proc \<Rightarrow> cmask" where
  "mask_of p = (if initialize_context_mask p then initial_mask else context_mask p)"

text \<open>A process with no call under way; id 0 belongs to \<^verbatim>\<open>MPI_COMM_WORLD\<close>.\<close>

definition quiet :: "int \<Rightarrow> ctx_proc \<Rightarrow> bool" where
  "quiet eager_size p \<longleftrightarrow> length (mask_of p) = MPIR_MAX_CONTEXT_MASK \<and> 0 \<notin> free_ids (mask_of p) \<and>
     (eager_nelem p < 0 \<or> eager_nelem p = eager_size) \<and> \<not> eager_in_use p \<and> \<not> mask_in_use p \<and> next_gcn p = []"

abbreviation clear_id :: "nat \<Rightarrow> cmask \<Rightarrow> cmask" where
  "clear_id k m \<equiv> m[k div 32 := m ! (k div 32) AND NOT (push_bit (k mod 32) 1)]"

definition settled :: "int \<Rightarrow> cmask \<Rightarrow> gcn_entry list \<Rightarrow> ctx_proc" where
  "settled eager_size m gs = \<lparr>context_mask = m, initialize_context_mask = False, eager_nelem = eager_size,
     eager_in_use = False, mask_in_use = False, next_gcn = gs\<rparr>"

definition offer1 :: "int \<Rightarrow> bool \<Rightarrow> cmask \<Rightarrow> cmask" where
  "offer1 sz ign m = (if ign then replicate 64 (- 1) @ [1] else take (nat sz) m @ replicate (64 - nat sz) 0 @ [0])"

definition offer2 :: "int \<Rightarrow> bool \<Rightarrow> cmask \<Rightarrow> cmask" where
  "offer2 sz ign m = (if ign then replicate 64 (- 1) else replicate (nat sz) 0 @ drop (nat sz) m) @ [1]"

lemma offer_bits:
  assumes "length m = 64" "0 \<le> sz" "sz < 63" "k < 2048"
  shows "bit (offer1 sz ign m ! (k div 32)) (k mod 32) \<longleftrightarrow> ign \<or> k \<in> free_ids m \<and> k div 32 < nat sz"
    "bit (offer2 sz ign m ! (k div 32)) (k mod 32) \<longleftrightarrow> ign \<or> k \<in> free_ids m \<and> \<not> k div 32 < nat sz"
  using assms by (auto simp: offer1_def offer2_def nth_append free_ids_def)

lemma reserve1:
  assumes "quiet sz p" "0 \<le> sz" "sz < 63"
  shows "gcn_reserve sz (gcn_start e ign, p) =
    Inr ((gcn_start e ign)\<lparr>local_mask := offer1 sz ign (mask_of p), own_eager_mask := \<not> ign \<and> 0 < sz\<rparr>,
         (settled sz (mask_of p) [])\<lparr>eager_in_use := \<not> ign \<and> 0 < sz\<rparr>)"
  using assms by (cases p) (auto simp: gcn_reserve_def gcn_setup_def gcn_offer_def quiet_def mask_of_def context_id_init_def
      settled_def offer1_def gcn_start_def Let_def)

definition state2 :: "gcn_entry \<Rightarrow> bool \<Rightarrow> cmask \<Rightarrow> gcn_state" where
  "state2 e ign l = \<lparr>st_entry = e, ignore_id = ign, own_mask = False, own_eager_mask = False, first_iter = False,
     local_mask = l, st_context_id = 0\<rparr>"

lemma reserve2:
  assumes "length m = 64" "0 \<le> sz" "sz < 63"
  shows "gcn_reserve sz (state2 e ign l, settled sz m (if ign then [] else [e])) =
    Inr ((state2 e ign l)\<lparr>local_mask := offer2 sz ign m, own_mask := \<not> ign\<rparr>,
         (settled sz m (if ign then [] else [e]))\<lparr>mask_in_use := \<not> ign\<rparr>)"
  using assms by (auto simp: gcn_reserve_def gcn_setup_def gcn_offer_def settled_def offer2_def state2_def Let_def min_def)

lemma locate_picked:
  assumes "64 \<le> length l" "picked l k" "k \<noteq> 0"
  shows "word_of_int (locate_context_bit l) = id_of k" "id_of k \<noteq> 0"
proof -
  have k: "k < 2048" using assms(2) by (simp add: picked_def free_ids_def)
  have "free_ids l \<noteq> {}" using assms(2) by (auto simp: picked_def)
  then obtain k' where k': "picked l k'" "locate_context_bit l = push_bit 4 (int k')"
    using locate_context_bit_spec(2) [OF assms(1)] by blast
  have "k' = k" using assms(2) k'(1) by (auto simp: picked_def intro!: le_antisym)
  then show "word_of_int (locate_context_bit l) = id_of k" using k'(2) by simp
  show "id_of k \<noteq> 0" using id_of_prefix(6) [OF k] assms(3) by simp
qed

lemma find_picked:
  assumes "length m = 64" "64 \<le> length l" "picked l k" "k \<in> free_ids m" "k \<noteq> 0"
  shows "find_and_allocate_context_id m l = Inr (id_of k, clear_id k m)"
  using locate_picked [OF assms(2,3,5)] allocate_bit [OF assms(1,4)] by (simp add: find_and_allocate_context_id_def Let_def)

lemma find_none:
  assumes "64 \<le> length l" "free_ids l = {}"
  shows "find_and_allocate_context_id m l = Inr (0, m)" "word_of_int (locate_context_bit l) = (0 :: MPIU_Context_id_t)"
  using locate_context_bit_spec(1) [OF assms] by (simp_all add: find_and_allocate_context_id_def)


abbreviation after1 :: "int \<Rightarrow> gcn_entry \<Rightarrow> bool \<Rightarrow> cmask \<Rightarrow> gcn_state \<times> ctx_proc" where
  "after1 sz e ign m \<equiv> ((gcn_start e ign)\<lparr>local_mask := offer1 sz ign m, own_eager_mask := \<not> ign \<and> 0 < sz\<rparr>,
     (settled sz m [])\<lparr>eager_in_use := \<not> ign \<and> 0 < sz\<rparr>)"

abbreviation after2 :: "int \<Rightarrow> gcn_entry \<Rightarrow> bool \<Rightarrow> cmask \<Rightarrow> cmask \<Rightarrow> gcn_state \<times> ctx_proc" where
  "after2 sz e ign l m \<equiv> ((state2 e ign l)\<lparr>local_mask := offer2 sz ign m, own_mask := \<not> ign\<rparr>,
     (settled sz m (if ign then [] else [e]))\<lparr>mask_in_use := \<not> ign\<rparr>)"

lemma allocate1_none:
  assumes "64 \<le> length l" "free_ids l = {}"
  shows "gcn_allocate l (after1 sz e ign m) = Inr ((gcn_start e ign)\<lparr>local_mask := l\<rparr>, settled sz m [])"
  using find_none [OF assms] by (auto simp: gcn_allocate_def settled_def gcn_start_def Let_def)

lemma allocate1_some:
  assumes "length m = 64" "64 \<le> length l" "picked l k" "k \<noteq> 0" "\<not> ign \<Longrightarrow> k \<in> free_ids m \<and> 0 < sz"
  shows "gcn_allocate l (after1 sz e ign m) =
    Inr ((gcn_start e ign)\<lparr>local_mask := l, st_context_id := id_of k\<rparr>, settled sz (if ign then m else clear_id k m) [])"
  using locate_picked [OF assms(2-4)] find_picked [OF assms(1-3)] assms(4,5)
  by (cases ign) (auto simp: gcn_allocate_def settled_def gcn_start_def Let_def)

lemma allocate2_none:
  assumes "64 \<le> length l'" "free_ids l' = {}"
  shows "gcn_allocate l' (after2 sz e ign l m) =
    Inr ((state2 e ign l)\<lparr>local_mask := l', own_mask := \<not> ign\<rparr>, settled sz m (if ign then [] else [e]))"
  using find_none [OF assms] by (auto simp: gcn_allocate_def settled_def state2_def Let_def)

lemma allocate2_some:
  assumes "length m = 64" "64 \<le> length l'" "picked l' k" "k \<noteq> 0" "\<not> ign \<Longrightarrow> k \<in> free_ids m"
  shows "gcn_allocate l' (after2 sz e ign l m) =
    Inr ((state2 e ign l)\<lparr>local_mask := l', own_mask := \<not> ign, st_context_id := id_of k\<rparr>,
         settled sz (if ign then m else clear_id k m) [])"
  using locate_picked [OF assms(2-4)] find_picked [OF assms(1-3)] assms(4,5)
  by (cases ign) (auto simp: gcn_allocate_def settled_def state2_def Let_def word_gt_0)

lemma next1:
  "gcn_next ((gcn_start e ign)\<lparr>local_mask := l\<rparr>, settled sz m []) = (state2 e ign l, settled sz m (if ign then [] else [e]))"
  by (auto simp: gcn_next_def gcn_start_def state2_def settled_def add_gcn_to_list_def)

lemma fail2:
  "gcn_fail ((state2 e ign l)\<lparr>local_mask := l', own_mask := \<not> ign\<rparr>, settled sz m (if ign then [] else [e])) = Inr (settled sz m [])"
  by (auto simp: gcn_fail_def state2_def settled_def Let_def)

subsection \<open>Counting the free ids\<close>

lemma foldl_add_sum: "foldl (\<lambda>n j. n + f j) (a :: int) xs = a + sum_list (map f xs)"
  by (induction xs arbitrary: a) auto

lemma one_bit: "uint (drop_bit j (w AND push_bit j 1 :: 32 word)) = of_bool (bit w j)"
proof (cases "bit w j")
  case True
  then have "w AND push_bit j 1 = push_bit j 1" by (intro bit_eqI) (auto simp: bit_simps push_bit_of_1)
  moreover have "drop_bit j (push_bit j 1 :: 32 word) = 1"
    using word_bit_less [OF True] by (intro bit_eqI) (auto simp: bit_simps)
  ultimately show ?thesis using True by (simp only: uint_1 of_bool_eq)
next
  case False
  then have "w AND push_bit j 1 = 0" by (intro bit_eqI) (auto simp: bit_simps push_bit_of_1)
  then show ?thesis using False by simp
qed

lemma context_mask_stats_card: "fst (context_mask_stats m) = int (card (free_ids m))"
proof -
  let ?B = "\<lambda>i. {j. j < 32 \<and> bit (m ! i) j}"
  have row: "sum_list (map (\<lambda>j. of_bool (bit (m ! i) j) :: int) [0..<32]) = int (card (?B i))" for i
  proof -
    have "sum_list (map (\<lambda>j. of_bool (bit (m ! i) j) :: int) [0..<32]) = (\<Sum>j\<in>{..<32}. of_bool (bit (m ! i) j))"
      by (simp only: interv_sum_list_conv_sum_set_nat set_upt atLeast0LessThan)
    also have "\<dots> = int (card ({..<32} \<inter> {j. bit (m ! i) j}))" by (simp add: sum_of_bool_eq)
    also have "{..<32} \<inter> {j. bit (m ! i) j} = ?B i" by auto
    finally show ?thesis .
  qed
  have "fst (context_mask_stats m) = sum_list (map (\<lambda>i. int (card (?B i))) [0..<64])"
    unfolding context_mask_stats_def one_bit foldl_add_sum row by simp
  also have "\<dots> = int (\<Sum>i<64. card (?B i))"
    by (simp only: interv_sum_list_conv_sum_set_nat set_upt atLeast0LessThan of_nat_sum)
  also have "(\<Sum>i<64. card (?B i)) = card (SIGMA i:{..<64}. ?B i)"
    by (rule card_SigmaI [symmetric]) auto
  also have "\<dots> = card ((\<lambda>(i, j). 32 * i + j) ` (SIGMA i:{..<64}. ?B i))"
  proof (rule card_image [symmetric])
    show "inj_on (\<lambda>(i, j). 32 * i + j) (SIGMA i:{..<64}. ?B i)"
      by (rule inj_on_inverseI [of _ "\<lambda>k. (k div 32, k mod 32)"]) auto
  qed
  also have "(\<lambda>(i, j). 32 * i + j) ` (SIGMA i:{..<64}. ?B i) = free_ids m"
  proof -
    have "k \<in> (\<lambda>(i, j). 32 * i + j) ` (SIGMA i:{..<64}. ?B i)" if "k \<in> free_ids m" for k
      using that by (intro image_eqI [of _ _ "(k div 32, k mod 32)"]) (auto simp: free_ids_def)
    then show ?thesis by (auto simp: free_ids_def)
  qed
  finally show ?thesis by simp
qed


subsection \<open>The collective call\<close>

text \<open>The processes of the communicator: the call of each, whether it ignores the id, and its state.\<close>

type_synonym callers = "(gcn_entry \<times> bool \<times> ctx_proc) list"

definition gcn_calls :: "callers \<Rightarrow> (gcn_state \<times> ctx_proc) list" where
  "gcn_calls ps = map (\<lambda>(e, ign, p). (gcn_start e ign, p)) ps"

text \<open>The prefixes that are free for every process that takes part.\<close>

definition common_ids :: "callers \<Rightarrow> nat set" where
  "common_ids ps = {k. k < 2048 \<and> (\<forall>(e, ign, p)\<in>set ps. \<not> ign \<longrightarrow> k \<in> free_ids (mask_of p))}"

definition gcn_ready :: "int \<Rightarrow> callers \<Rightarrow> bool" where
  "gcn_ready eager_size ps \<longleftrightarrow> 0 \<le> eager_size \<and> eager_size < int MPIR_MAX_CONTEXT_MASK - 1 \<and>
     (\<forall>(e, ign, p)\<in>set ps. quiet eager_size p) \<and> (\<exists>(e, ign, p)\<in>set ps. \<not> ign)"

lemma gcn_readyD:
  assumes "gcn_ready sz ps"
  shows "0 \<le> sz" "sz < 63" "\<And>e ign p. (e, ign, p) \<in> set ps \<Longrightarrow> quiet sz p" "\<exists>e p. (e, False, p) \<in> set ps"
proof -
  show "0 \<le> sz" "sz < 63" using assms by (simp_all add: gcn_ready_def)
  show "quiet sz p" if "(e, ign, p) \<in> set ps" for e ign p using assms that by (auto simp: gcn_ready_def)
  obtain x where "x \<in> set ps" "\<not> fst (snd x)" using assms by (auto simp: gcn_ready_def)
  then show "\<exists>e p. (e, False, p) \<in> set ps" by (metis prod.collapse)
qed

lemma quiet_mask: "quiet sz p \<Longrightarrow> length (mask_of p) = 64 \<and> 0 \<notin> free_ids (mask_of p)"
  by (simp add: quiet_def)

lemma common_nonzero: "gcn_ready sz ps \<Longrightarrow> 0 \<notin> common_ids ps"
  using gcn_readyD(3,4) quiet_mask by (fastforce simp: common_ids_def)

lemma round_free:
  assumes "gcn_ready sz ps"
  shows "free_ids (allreduce_band (map (\<lambda>(e, ign, p). offer1 sz ign (mask_of p)) ps)) = {k \<in> common_ids ps. k div 32 < nat sz}"
    "free_ids (allreduce_band (map (\<lambda>(e, ign, p). offer2 sz ign (mask_of p)) ps)) = {k \<in> common_ids ps. \<not> k div 32 < nat sz}"
proof -
  note r = gcn_readyD [OF assms]
  obtain e0 p0 where z: "(e0, False, p0) \<in> set ps" using r(4) by blast
  have b: "bit (offer1 sz ign (mask_of p) ! (k div 32)) (k mod 32) \<longleftrightarrow> ign \<or> k \<in> free_ids (mask_of p) \<and> k div 32 < nat sz"
    "bit (offer2 sz ign (mask_of p) ! (k div 32)) (k mod 32) \<longleftrightarrow> ign \<or> k \<in> free_ids (mask_of p) \<and> \<not> k div 32 < nat sz"
    if "(e, ign, p) \<in> set ps" "k < 2048" for e ign p k
    using offer_bits [OF _ r(1,2) that(2)] quiet_mask [OF r(3) [OF that(1)]] by blast+
  have "(\<forall>m\<in>set (map (\<lambda>(e, ign, p). offer1 sz ign (mask_of p)) ps). bit (m ! (k div 32)) (k mod 32)) \<longleftrightarrow>
      (\<forall>(e, ign, p)\<in>set ps. \<not> ign \<longrightarrow> k \<in> free_ids (mask_of p)) \<and> k div 32 < nat sz"
    "(\<forall>m\<in>set (map (\<lambda>(e, ign, p). offer2 sz ign (mask_of p)) ps). bit (m ! (k div 32)) (k mod 32)) \<longleftrightarrow>
      (\<forall>(e, ign, p)\<in>set ps. \<not> ign \<longrightarrow> k \<in> free_ids (mask_of p)) \<and> \<not> k div 32 < nat sz" if "k < 2048" for k
    using b [OF _ that] z by (force)+
  then show "free_ids (allreduce_band (map (\<lambda>(e, ign, p). offer1 sz ign (mask_of p)) ps)) = {k \<in> common_ids ps. k div 32 < nat sz}"
    "free_ids (allreduce_band (map (\<lambda>(e, ign, p). offer2 sz ign (mask_of p)) ps)) = {k \<in> common_ids ps. \<not> k div 32 < nat sz}"
    unfolding allreduce_band_free common_ids_def by blast+
qed

lemma round_flag:
  assumes "gcn_ready sz ps"
  shows "allreduce_band (map (\<lambda>(e, ign, p). offer1 sz ign (mask_of p)) ps) ! 64 = 0"
    "allreduce_band (map (\<lambda>(e, ign, p). offer2 sz ign (mask_of p)) ps) ! 64 = 1"
proof -
  note r = gcn_readyD [OF assms]
  obtain e0 p0 where z: "(e0, False, p0) \<in> set ps" using r(4) by blast
  have len: "length (mask_of p) = 64" if "(e, ign, p) \<in> set ps" for e ign p using quiet_mask [OF r(3) [OF that]] by simp
  have n: "nat sz < 63" using r(1,2) by linarith
  have "offer1 sz False (mask_of p0) ! 64 = 0" using len [OF z] n by (simp add: offer1_def nth_append)
  moreover have "offer1 sz False (mask_of p0) \<in> set (map (\<lambda>(e, ign, p). offer1 sz ign (mask_of p)) ps)" using z by force
  ultimately show "allreduce_band (map (\<lambda>(e, ign, p). offer1 sz ign (mask_of p)) ps) ! 64 = 0" by (rule allreduce_band_flag(2) [rotated])
  have "m ! 64 = 1" if "m \<in> set (map (\<lambda>(e, ign, p). offer2 sz ign (mask_of p)) ps)" for m
    using that len n by (auto simp: offer2_def nth_append)
  then show "allreduce_band (map (\<lambda>(e, ign, p). offer2 sz ign (mask_of p)) ps) ! 64 = 1"
    using z by (intro allreduce_band_flag(1)) auto
qed

lemma pick_exists: "64 \<le> length l \<Longrightarrow> free_ids l \<noteq> {} \<Longrightarrow> \<exists>k. picked l k"
  using locate_context_bit_spec(2) by blast


abbreviation combined1 :: "int \<Rightarrow> callers \<Rightarrow> cmask" where
  "combined1 sz ps \<equiv> allreduce_band (map (\<lambda>(e, ign, p). offer1 sz ign (mask_of p)) ps)"

abbreviation combined2 :: "int \<Rightarrow> callers \<Rightarrow> cmask" where
  "combined2 sz ps \<equiv> allreduce_band (map (\<lambda>(e, ign, p). offer2 sz ign (mask_of p)) ps)"

definition gcn_success :: "int \<Rightarrow> nat \<Rightarrow> callers \<Rightarrow> ((string + MPIU_Context_id_t) \<times> ctx_proc) list" where
  "gcn_success sz k ps = map (\<lambda>(e, ign, p). if ign then (Inr MPIU_INVALID_CONTEXT_ID, settled sz (mask_of p) [])
     else (Inr (id_of k), settled sz (clear_id k (mask_of p)) [])) ps"

lemma round1_some:
  assumes "gcn_ready sz ps" "picked (combined1 sz ps) k"
  shows "gcn_collective (Suc n) sz (gcn_calls ps) = Inr (gcn_success sz k ps)"
proof -
  note r = gcn_readyD [OF assms(1)]
  let ?l = "combined1 sz ps"
  have l: "64 \<le> length ?l" by (simp add: allreduce_band_length)
  have k: "k \<in> common_ids ps" "k div 32 < nat sz" using assms(2) round_free(1) [OF assms(1)] by (auto simp: picked_def)
  then have k0: "k \<noteq> 0" using common_nonzero [OF assms(1)] by metis
  have res: "map_outcome (gcn_reserve sz) (gcn_calls ps) = Inr (map (\<lambda>(e, ign, p). after1 sz e ign (mask_of p)) ps)"
    unfolding gcn_calls_def by (rule map_outcome_map) (auto simp: reserve1 [OF r(3) r(1,2)])
  have all: "gcn_allocate ?l (after1 sz e ign (mask_of p)) = Inr ((gcn_start e ign)\<lparr>local_mask := ?l, st_context_id := id_of k\<rparr>,
      settled sz (if ign then mask_of p else clear_id k (mask_of p)) [])" if "(e, ign, p) \<in> set ps" for e ign p
  proof (rule allocate1_some [OF _ l assms(2) k0])
    show "length (mask_of p) = 64" using quiet_mask [OF r(3) [OF that]] by simp
    show "\<not> ign \<Longrightarrow> k \<in> free_ids (mask_of p) \<and> 0 < sz" using k that by (auto simp: common_ids_def)
  qed
  have loc: "map (\<lambda>sp. local_mask (fst sp)) (map (\<lambda>(e, ign, p). after1 sz e ign (mask_of p)) ps) =
      map (\<lambda>(e, ign, p). offer1 sz ign (mask_of p)) ps" by (auto simp: case_prod_beta gcn_start_def)
  let ?rs = "map (\<lambda>(e, ign, p). ((gcn_start e ign)\<lparr>local_mask := ?l, st_context_id := id_of k\<rparr>,
      settled sz (if ign then mask_of p else clear_id k (mask_of p)) [])) ps"
  have rs: "map_outcome (gcn_allocate ?l) (map (\<lambda>(e, ign, p). after1 sz e ign (mask_of p)) ps) = Inr ?rs"
    by (rule map_outcome_map) (auto simp: all)
  have idk: "id_of k \<noteq> 0" using locate_picked(2) [OF l assms(2) k0] .
  have ex: "\<not> list_ex (\<lambda>sp. gcn_exhausted ?l (fst sp)) ?rs" "\<not> list_all (\<lambda>sp. gcn_exhausted ?l (fst sp)) ?rs"
  proof -
    have "\<not> gcn_exhausted ?l (fst sp)" if "sp \<in> set ?rs" for sp using that idk by (auto simp: gcn_exhausted_def)
    moreover have "?rs \<noteq> []" using r(4) by auto
    ultimately show "\<not> list_ex (\<lambda>sp. gcn_exhausted ?l (fst sp)) ?rs" "\<not> list_all (\<lambda>sp. gcn_exhausted ?l (fst sp)) ?rs"
      unfolding list_ex_iff list_all_iff by (blast, meson last_in_set)
  qed
  have nx: "map gcn_next ?rs = map (\<lambda>(e, ign, p). ((gcn_start e ign)\<lparr>local_mask := ?l, st_context_id := id_of k, first_iter := False\<rparr>,
      settled sz (if ign then mask_of p else clear_id k (mask_of p)) [])) ps"
    using idk by (auto simp: gcn_next_def gcn_start_def)
  show ?thesis
    unfolding gcn_collective.simps res bind_outcome_simps Let_def loc rs nx
    using ex idk by (auto simp: list_all_iff gcn_success_def gcn_start_def)
qed


text \<open>With no common id among the eager words every process queues its call and goes on.\<close>

definition waiting :: "int \<Rightarrow> cmask \<Rightarrow> callers \<Rightarrow> (gcn_state \<times> ctx_proc) list" where
  "waiting sz l ps = map (\<lambda>(e, ign, p). (state2 e ign l, settled sz (mask_of p) (if ign then [] else [e]))) ps"

lemma round1_none:
  assumes "gcn_ready sz ps" "free_ids (combined1 sz ps) = {}"
  shows "gcn_collective (Suc n) sz (gcn_calls ps) = gcn_collective n sz (waiting sz (combined1 sz ps) ps)"
proof -
  note r = gcn_readyD [OF assms(1)]
  let ?l = "combined1 sz ps"
  have l: "64 \<le> length ?l" by (simp add: allreduce_band_length)
  have res: "map_outcome (gcn_reserve sz) (gcn_calls ps) = Inr (map (\<lambda>(e, ign, p). after1 sz e ign (mask_of p)) ps)"
    unfolding gcn_calls_def by (rule map_outcome_map) (auto simp: reserve1 [OF r(3) r(1,2)])
  have loc: "map (\<lambda>sp. local_mask (fst sp)) (map (\<lambda>(e, ign, p). after1 sz e ign (mask_of p)) ps) =
      map (\<lambda>(e, ign, p). offer1 sz ign (mask_of p)) ps" by (auto simp: case_prod_beta gcn_start_def)
  let ?rs = "map (\<lambda>(e, ign, p). ((gcn_start e ign)\<lparr>local_mask := ?l\<rparr>, settled sz (mask_of p) [])) ps"
  have rs: "map_outcome (gcn_allocate ?l) (map (\<lambda>(e, ign, p). after1 sz e ign (mask_of p)) ps) = Inr ?rs"
    by (rule map_outcome_map) (auto simp: allocate1_none [OF l assms(2)])
  have ne: "?rs \<noteq> []" using r(4) by auto
  have ex: "\<not> list_ex (\<lambda>sp. gcn_exhausted ?l (fst sp)) ?rs" "\<not> list_all (\<lambda>sp. gcn_exhausted ?l (fst sp)) ?rs"
  proof -
    have "\<not> gcn_exhausted ?l (fst sp)" if "sp \<in> set ?rs" for sp
      using round_flag(1) [OF assms(1)] by (simp add: gcn_exhausted_def ALL_OWN_MASK_FLAG_def)
    then show "\<not> list_ex (\<lambda>sp. gcn_exhausted ?l (fst sp)) ?rs" "\<not> list_all (\<lambda>sp. gcn_exhausted ?l (fst sp)) ?rs"
      using ne unfolding list_ex_iff list_all_iff by (blast, meson last_in_set)
  qed
  have nx: "map gcn_next ?rs = waiting sz ?l ps" by (auto simp: waiting_def next1)
  have zero: "st_context_id (fst sp) = 0" if "sp \<in> set (waiting sz ?l ps)" for sp using that by (auto simp: waiting_def state2_def)
  have "waiting sz ?l ps \<noteq> []" using ne by (simp add: waiting_def)
  then have "\<not> list_all (\<lambda>sp. st_context_id (fst sp) \<noteq> 0) (waiting sz ?l ps)" using zero unfolding list_all_iff by (meson last_in_set)
  moreover have "list_all (\<lambda>sp. st_context_id (fst sp) = 0) (waiting sz ?l ps)" using zero unfolding list_all_iff by blast
  ultimately show ?thesis
    unfolding gcn_collective.simps res bind_outcome_simps Let_def loc rs nx using ex by simp
qed

lemma waiting_reserve:
  assumes "gcn_ready sz ps"
  shows "map_outcome (gcn_reserve sz) (waiting sz l ps) = Inr (map (\<lambda>(e, ign, p). after2 sz e ign l (mask_of p)) ps)"
    "map (\<lambda>sp. local_mask (fst sp)) (map (\<lambda>(e, ign, p). after2 sz e ign l (mask_of p)) ps) =
       map (\<lambda>(e, ign, p). offer2 sz ign (mask_of p)) ps"
proof -
  note r = gcn_readyD [OF assms]
  have len: "length (mask_of p) = 64" if "(e, ign, p) \<in> set ps" for e ign p using quiet_mask [OF r(3) [OF that]] by simp
  have "gcn_reserve sz (case x of (e, ign, p) \<Rightarrow> (state2 e ign l, settled sz (mask_of p) (if ign then [] else [e]))) =
      Inr (case x of (e, ign, p) \<Rightarrow> after2 sz e ign l (mask_of p))" if "x \<in> set ps" for x
  proof -
    obtain e ign p where x: "x = (e, ign, p)" by (cases x)
    show ?thesis using reserve2 [OF len r(1,2), of e ign p e ign l] that unfolding x by simp
  qed
  then show "map_outcome (gcn_reserve sz) (waiting sz l ps) = Inr (map (\<lambda>(e, ign, p). after2 sz e ign l (mask_of p)) ps)"
    unfolding waiting_def by (rule map_outcome_map)
  show "map (\<lambda>sp. local_mask (fst sp)) (map (\<lambda>(e, ign, p). after2 sz e ign l (mask_of p)) ps) =
       map (\<lambda>(e, ign, p). offer2 sz ign (mask_of p)) ps" by (auto simp: case_prod_beta state2_def)
qed


lemma round2_some:
  assumes "gcn_ready sz ps" "picked (combined2 sz ps) k"
  shows "gcn_collective (Suc n) sz (waiting sz l0 ps) = Inr (gcn_success sz k ps)"
proof -
  note r = gcn_readyD [OF assms(1)]
  let ?l = "combined2 sz ps"
  have l: "64 \<le> length ?l" by (simp add: allreduce_band_length)
  have k: "k \<in> common_ids ps" using assms(2) round_free(2) [OF assms(1)] by (auto simp: picked_def)
  then have k0: "k \<noteq> 0" using common_nonzero [OF assms(1)] by metis
  have all: "gcn_allocate ?l (after2 sz e ign l0 (mask_of p)) =
      Inr ((state2 e ign l0)\<lparr>local_mask := ?l, own_mask := \<not> ign, st_context_id := id_of k\<rparr>,
        settled sz (if ign then mask_of p else clear_id k (mask_of p)) [])" if "(e, ign, p) \<in> set ps" for e ign p
  proof (rule allocate2_some [OF _ l assms(2) k0])
    show "length (mask_of p) = 64" using quiet_mask [OF r(3) [OF that]] by simp
    show "\<not> ign \<Longrightarrow> k \<in> free_ids (mask_of p)" using k that by (auto simp: common_ids_def)
  qed
  let ?rs = "map (\<lambda>(e, ign, p). ((state2 e ign l0)\<lparr>local_mask := ?l, own_mask := \<not> ign, st_context_id := id_of k\<rparr>,
      settled sz (if ign then mask_of p else clear_id k (mask_of p)) [])) ps"
  have "gcn_allocate ?l (case x of (e, ign, p) \<Rightarrow> after2 sz e ign l0 (mask_of p)) = Inr (case x of (e, ign, p) \<Rightarrow>
      ((state2 e ign l0)\<lparr>local_mask := ?l, own_mask := \<not> ign, st_context_id := id_of k\<rparr>,
        settled sz (if ign then mask_of p else clear_id k (mask_of p)) []))" if "x \<in> set ps" for x
  proof -
    obtain e ign p where x: "x = (e, ign, p)" by (cases x)
    show ?thesis using all [of e ign p] that unfolding x by simp
  qed
  then have rs: "map_outcome (gcn_allocate ?l) (map (\<lambda>(e, ign, p). after2 sz e ign l0 (mask_of p)) ps) = Inr ?rs"
    by (rule map_outcome_map)
  have idk: "id_of k \<noteq> 0" using locate_picked(2) [OF l assms(2) k0] .
  have ex: "\<not> list_ex (\<lambda>sp. gcn_exhausted ?l (fst sp)) ?rs" "\<not> list_all (\<lambda>sp. gcn_exhausted ?l (fst sp)) ?rs"
  proof -
    have "\<not> gcn_exhausted ?l (fst sp)" if "sp \<in> set ?rs" for sp using that idk by (auto simp: gcn_exhausted_def)
    moreover have "?rs \<noteq> []" using r(4) by auto
    ultimately show "\<not> list_ex (\<lambda>sp. gcn_exhausted ?l (fst sp)) ?rs" "\<not> list_all (\<lambda>sp. gcn_exhausted ?l (fst sp)) ?rs"
      unfolding list_ex_iff list_all_iff by (blast, meson last_in_set)
  qed
  have nx: "map gcn_next ?rs = ?rs" by (auto simp: gcn_next_def state2_def)
  show ?thesis
    unfolding gcn_collective.simps waiting_reserve [OF assms(1)] bind_outcome_simps Let_def rs nx
    using ex idk by (auto simp: list_all_iff gcn_success_def state2_def)
qed

definition gcn_failure :: "int \<Rightarrow> callers \<Rightarrow> ((string + MPIU_Context_id_t) \<times> ctx_proc) list" where
  "gcn_failure sz ps = map (\<lambda>(e, ign, p).
     (Inl (if \<exists>(e, ign, p)\<in>set ps. \<not> ign \<and> free_ids (mask_of p) = {} then ''**toomanycomm'' else ''**toomanycommfrag''),
      settled sz (mask_of p) [])) ps"

lemma free_ids_finite: "finite (free_ids m)"
  by (rule finite_subset [of _ "{..<2048}"]) (auto simp: free_ids_def)

lemma round2_none:
  assumes "gcn_ready sz ps" "free_ids (combined2 sz ps) = {}"
  shows "gcn_collective (Suc n) sz (waiting sz l0 ps) = Inr (gcn_failure sz ps)"
proof -
  note r = gcn_readyD [OF assms(1)]
  let ?l = "combined2 sz ps"
  have l: "64 \<le> length ?l" by (simp add: allreduce_band_length)
  let ?f = "\<lambda>(e, ign, p). ((state2 e ign l0)\<lparr>local_mask := ?l, own_mask := \<not> ign\<rparr>, settled sz (mask_of p) (if ign then [] else [e]))"
  let ?rs = "map ?f ps"
  have "gcn_allocate ?l (case x of (e, ign, p) \<Rightarrow> after2 sz e ign l0 (mask_of p)) = Inr (?f x)" for x
    using allocate2_none [OF l assms(2)] by (cases x) auto
  then have rs: "map_outcome (gcn_allocate ?l) (map (\<lambda>(e, ign, p). after2 sz e ign l0 (mask_of p)) ps) = Inr ?rs"
    by (intro map_outcome_map)
  have ex: "list_all (\<lambda>sp. gcn_exhausted ?l (fst sp)) ?rs"
    using round_flag(2) [OF assms(1)] by (auto simp: list_all_iff gcn_exhausted_def ALL_OWN_MASK_FLAG_def state2_def)
  have us: "map_outcome gcn_fail ?rs = Inr (map (\<lambda>(e, ign, p). settled sz (mask_of p) []) ps)"
    by (rule map_outcome_map) (auto simp: fail2 split: prod.splits)
  have mf: "gcn_minfree (?f (e, ign, p)) = (if ign then 2147483647 else int (card (free_ids (mask_of p))))" for e ign p
    by (simp add: gcn_minfree_def state2_def settled_def context_mask_stats_card)
  have "ps \<noteq> []" using r(4) by auto
  then have "Min (set (map gcn_minfree ?rs)) > 0 \<longleftrightarrow> (\<forall>x\<in>set ps. gcn_minfree (?f x) > 0)"
    by (subst Min_gr_iff) auto
  also have "\<dots> \<longleftrightarrow> \<not> (\<exists>(e, ign, p)\<in>set ps. \<not> ign \<and> free_ids (mask_of p) = {})"
  proof -
    have "gcn_minfree (?f x) > 0 \<longleftrightarrow> \<not> (case x of (e, ign, p) \<Rightarrow> \<not> ign \<and> free_ids (mask_of p) = {})" for x
    proof -
      obtain e ign p where x: "x = (e, ign, p)" by (cases x)
      show ?thesis unfolding x mf by (simp add: card_gt_0_iff free_ids_finite)
    qed
    then show ?thesis by blast
  qed
  finally have msg: "Min (set (map gcn_minfree ?rs)) > 0 \<longleftrightarrow> \<not> (\<exists>(e, ign, p)\<in>set ps. \<not> ign \<and> free_ids (mask_of p) = {})" .
  show ?thesis
    unfolding gcn_collective.simps waiting_reserve [OF assms(1)] bind_outcome_simps Let_def rs us msg gcn_failure_def
    using ex by (auto simp: case_prod_beta comp_def)
qed

text \<open>
  C39. The processes of a communicator agree on a context id, whatever ids each of them has in use:
  after at most two rounds the call returns for all.  If some id is free for every process that
  takes part, all of these get the same such id and clear it, and nothing else, in their vectors,
  while the others get the invalid id and keep theirs.  If no id is free for all of them, every
  process reports that there are too many communicators (or, when each of them still has a free
  id, that the ids are fragmented) and no vector has changed.  In both cases no call is left
  waiting and the vectors are available again.
\<close>

theorem contextid_agreement:
  assumes "gcn_ready sz ps" "2 \<le> n"
  shows "if common_ids ps = {} then gcn_collective n sz (gcn_calls ps) = Inr (gcn_failure sz ps)
    else \<exists>k\<in>common_ids ps. gcn_collective n sz (gcn_calls ps) = Inr (gcn_success sz k ps)"
proof -
  obtain n' where n: "n = Suc (Suc n')" using assms(2) by (metis Suc_le_D numeral_2_eq_2 Suc_le_mono)
  have l: "64 \<le> length (combined1 sz ps)" "64 \<le> length (combined2 sz ps)" by (simp_all add: allreduce_band_length)
  note f = round_free [OF assms(1)]
  consider (first) "free_ids (combined1 sz ps) \<noteq> {}" | (second) "free_ids (combined1 sz ps) = {}" "free_ids (combined2 sz ps) \<noteq> {}"
    | (none) "free_ids (combined1 sz ps) = {}" "free_ids (combined2 sz ps) = {}" by blast
  then show ?thesis
  proof cases
    case first
    then obtain k where k: "picked (combined1 sz ps) k" using pick_exists [OF l(1)] by blast
    then have "k \<in> common_ids ps" using f(1) by (auto simp: picked_def)
    then show ?thesis using round1_some [OF assms(1) k] n by auto
  next
    case second
    then obtain k where k: "picked (combined2 sz ps) k" using pick_exists [OF l(2)] by blast
    then have "k \<in> common_ids ps" using f(2) by (auto simp: picked_def)
    then show ?thesis using round1_none [OF assms(1) second(1)] round2_some [OF assms(1) k] n by auto
  next
    case none
    then have "common_ids ps = {}" using f by blast
    then show ?thesis using round1_none [OF assms(1) none(1)] round2_none [OF assms(1) none(2)] n by simp
  qed
qed


text \<open>
  Two processes, the first of which has given an id to a communicator already, and a third process
  that does not take part.
\<close>

definition fresh_proc :: ctx_proc where
  "fresh_proc = \<lparr>context_mask = [], initialize_context_mask = True, eager_nelem = - 1, eager_in_use = False,
     mask_in_use = False, next_gcn = []\<rparr>"

definition sample_callers :: callers where
  "sample_callers =
     (let e = \<lparr>ge_addr = 1, ge_context_id = 0, ge_tag = 7\<rparr>;
          used = \<lparr>context_mask = clear_id 31 initial_mask, initialize_context_mask = False, eager_nelem = 2,
            eager_in_use = False, mask_in_use = False, next_gcn = []\<rparr> in
      [(e, False, used), (e, False, fresh_proc), (e, True, fresh_proc)])"

lemma sample_used_free: "free_ids (clear_id 31 initial_mask) = {3..<2048} - {31}"
  using free_ids_update(1) [of initial_mask 31] initial_length initial_free by simp

lemma sample_ready: "gcn_ready 2 sample_callers"
  using initial_length initial_free sample_used_free
  by (simp add: gcn_ready_def sample_callers_def quiet_def mask_of_def fresh_proc_def Let_def)

theorem contextid_agreement_witness:
  "\<exists>k. 3 \<le> k \<and> k < 2048 \<and> k \<noteq> 31 \<and> gcn_collective 2 2 (gcn_calls sample_callers) = Inr (gcn_success 2 k sample_callers)"
proof -
  have c: "common_ids sample_callers = {3..<2048} - {31}"
    using initial_free sample_used_free by (auto simp: common_ids_def sample_callers_def mask_of_def fresh_proc_def Let_def)
  then have "3 \<in> common_ids sample_callers" by simp
  then obtain k where "k \<in> common_ids sample_callers"
      "gcn_collective 2 2 (gcn_calls sample_callers) = Inr (gcn_success 2 k sample_callers)"
    using contextid_agreement [OF sample_ready order_refl] by (metis empty_iff)
  then show ?thesis using c by auto
qed

end
