(* ===== verification/Coll_Base.thy ===== *)
theory Coll_Base
  imports FG_Prelude
begin

section \<open>Message-passing collectives as steps of their processes\<close>

text \<open>
  A collective call on a communicator of \<open>n\<close> processes, as the barrier and the short broadcast
  of \<^verbatim>\<open>src/src/mpi/coll\<close> make it: every process is outside the call, about to send, or waiting
  for a message; all messages of a collective carry one tag, so between two processes they are
  matched in the order they were sent and a channel is the number of messages in flight.  The
  processes call the collective again and again, each at its own pace; \<open>begun\<close> and \<open>ended\<close>
  count the calls a process has entered and left.

  The locale \<open>collective\<close> is the contract that callers rely on: a step of one process touches no
  other process, nobody leaves a call before those it waits for have entered theirs, and a call
  everybody has entered does not get stuck.
\<close>

datatype coll_pc = Idle | Send nat | Recv nat

record coll =
  pc :: "nat \<Rightarrow> coll_pc"
  chan :: "nat \<Rightarrow> nat \<Rightarrow> nat"
  begun :: "nat \<Rightarrow> nat"
  ended :: "nat \<Rightarrow> nat"

definition coll_init :: coll where
  "coll_init = \<lparr>pc = (\<lambda>_. Idle), chan = (\<lambda>_ _. 0), begun = (\<lambda>_. 0), ended = (\<lambda>_. 0)\<rparr>"

definition goto_pc :: "nat \<Rightarrow> coll_pc \<Rightarrow> coll \<Rightarrow> coll" where
  "goto_pc i p s = s\<lparr>pc := (pc s)(i := p)\<rparr>"

definition begin_call :: "nat \<Rightarrow> coll \<Rightarrow> coll" where
  "begin_call i s = s\<lparr>begun := (begun s)(i := Suc (begun s i))\<rparr>"

definition end_call :: "nat \<Rightarrow> coll \<Rightarrow> coll" where
  "end_call i s = s\<lparr>pc := (pc s)(i := Idle), ended := (ended s)(i := Suc (ended s i))\<rparr>"

definition put_msg :: "nat \<Rightarrow> nat \<Rightarrow> coll \<Rightarrow> coll" where
  "put_msg src dst s = s\<lparr>chan := (chan s)(src := (chan s src)(dst := Suc (chan s src dst)))\<rparr>"

definition take_msg :: "nat \<Rightarrow> nat \<Rightarrow> coll \<Rightarrow> coll" where
  "take_msg src dst s = s\<lparr>chan := (chan s)(src := (chan s src)(dst := chan s src dst - 1))\<rparr>"

lemmas coll_defs = goto_pc_def begin_call_def end_call_def put_msg_def take_msg_def

text \<open>Every state the processes can reach, whatever the order they run in.\<close>

inductive coll_reach ::
  "nat \<Rightarrow> (nat \<Rightarrow> coll \<Rightarrow> coll) \<Rightarrow> (nat \<Rightarrow> coll \<Rightarrow> coll option) \<Rightarrow> coll \<Rightarrow> bool"
  for n enter step where
  init: "coll_reach n enter step coll_init"
| call: "coll_reach n enter step s \<Longrightarrow> i < n \<Longrightarrow> pc s i = Idle \<Longrightarrow> coll_reach n enter step (enter i s)"
| step: "coll_reach n enter step s \<Longrightarrow> i < n \<Longrightarrow> step i s = Some s' \<Longrightarrow> coll_reach n enter step s'"

text \<open>What a step of process \<open>i\<close> may change: its own program counter and counts.\<close>

definition only_proc :: "nat \<Rightarrow> coll \<Rightarrow> coll \<Rightarrow> bool" where
  "only_proc i s s' \<longleftrightarrow> (\<forall>j. j \<noteq> i \<longrightarrow> pc s' j = pc s j \<and> begun s' j = begun s j \<and> ended s' j = ended s j)"

text \<open>The calls process \<open>i\<close> has entered are those it has left and the one it is in.\<close>

definition counted :: "coll \<Rightarrow> nat \<Rightarrow> bool" where
  "counted s i \<longleftrightarrow> begun s i = ended s i + of_bool (pc s i \<noteq> Idle)"

locale collective =
  fixes n :: nat
    and enter :: "nat \<Rightarrow> coll \<Rightarrow> coll"
    and step :: "nat \<Rightarrow> coll \<Rightarrow> coll option"
    and waits :: "nat \<Rightarrow> nat \<Rightarrow> bool"
  assumes enter_frame: "only_proc i s (enter i s)"
    and enter_begun: "begun (enter i s) i = Suc (begun s i)"
    and step_frame: "step i s = Some s' \<Longrightarrow> only_proc i s s'"
    and step_begun: "step i s = Some s' \<Longrightarrow> begun s' i = begun s i"
    and step_busy: "pc s i = Idle \<Longrightarrow> step i s = None"
    and counts: "coll_reach n enter step s \<Longrightarrow> i < n \<Longrightarrow> counted s i"
    and safe: "coll_reach n enter step s \<Longrightarrow> i < n \<Longrightarrow> j < n \<Longrightarrow> waits i j \<Longrightarrow> ended s i \<le> begun s j"
    and progress: "coll_reach n enter step s \<Longrightarrow> i < n \<Longrightarrow> pc s i \<noteq> Idle \<Longrightarrow>
      (\<And>j. j < n \<Longrightarrow> begun s i \<le> begun s j) \<Longrightarrow> \<exists>j<n. step j s \<noteq> None"
begin

lemma enter_other:
  assumes "j \<noteq> i"
  shows "pc (enter i s) j = pc s j" "begun (enter i s) j = begun s j" "ended (enter i s) j = ended s j"
  using enter_frame [of i s] assms by (simp_all add: only_proc_def)

lemma step_other:
  assumes "step i s = Some s'" "j \<noteq> i"
  shows "pc s' j = pc s j" "begun s' j = begun s j" "ended s' j = ended s j"
  using step_frame [OF assms(1)] assms(2) by (simp_all add: only_proc_def)

lemma ended_begun: "coll_reach n enter step s \<Longrightarrow> i < n \<Longrightarrow> ended s i = begun s i - of_bool (pc s i \<noteq> Idle)"
  using counts [of s i] by (simp add: counted_def)

text \<open>A process whose last call is over has not overtaken anyone it waits for.\<close>

lemma idle_safe:
  assumes "coll_reach n enter step s" "i < n" "j < n" "waits i j" "pc s i = Idle"
  shows "begun s i \<le> begun s j"
  using safe [OF assms(1-4)] counts [OF assms(1,2)] assms(5) by (simp add: counted_def)

lemma busy_safe:
  assumes "coll_reach n enter step s" "i < n" "j < n" "waits i j"
  shows "begun s i \<le> Suc (begun s j)"
  using safe [OF assms(1-4)] counts [OF assms(1,2)] by (simp add: counted_def of_bool_def split: if_splits)

end

end
