(* ===== verification/Coll_Barrier.thy ===== *)
theory Coll_Barrier
  imports Coll_Base
begin

section \<open>The dissemination barrier (\<^verbatim>\<open>barrier.c\<close>, \<^verbatim>\<open>MPIR_Barrier_intra\<close>)\<close>

text \<open>
  In the round of \<^verbatim>\<open>mask\<close> a process sends an empty message to the process \<^verbatim>\<open>mask\<close> ranks above
  and waits for the one from the process \<^verbatim>\<open>mask\<close> ranks below; \<^verbatim>\<open>mask\<close> doubles until it reaches
  the size of the communicator.  \<^verbatim>\<open>MPIC_Sendrecv\<close> posts the receive, sends, and waits for both:
  an empty message is sent eagerly, so only the receive blocks.  This is the routine on a
  communicator that is not node-aware; the branch for a node-aware one, which calls
  \<^verbatim>\<open>barrier_smp_intra\<close>, is the subject of theory \<open>Smp_Barrier\<close>.
\<close>

definition barrier_round :: "nat \<Rightarrow> nat \<Rightarrow> nat \<Rightarrow> coll \<Rightarrow> coll" where
  "barrier_round n i m s = (if m < n then goto_pc i (Send m) s else end_call i s)"

definition MPIR_Barrier_intra :: "nat \<Rightarrow> nat \<Rightarrow> coll \<Rightarrow> coll" where
  "MPIR_Barrier_intra n i s =
     (if n = 1 then end_call i (begin_call i s) else barrier_round n i 1 (begin_call i s))"

definition barrier_step :: "nat \<Rightarrow> nat \<Rightarrow> coll \<Rightarrow> coll option" where
  "barrier_step n i s =
     (case pc s i of
        Idle \<Rightarrow> None
      | Send m \<Rightarrow> Some (goto_pc i (Recv m) (put_msg i ((i + m) mod n) s))
      | Recv m \<Rightarrow>
          let src = (i + n - m) mod n in
          if chan s src i = 0 then None
          else Some (barrier_round n i (2 * m) (take_msg src i s)))"

abbreviation barrier_reach :: "nat \<Rightarrow> coll \<Rightarrow> bool" where
  "barrier_reach n \<equiv> coll_reach n (MPIR_Barrier_intra n) (barrier_step n)"

subsection \<open>Counting rounds\<close>

text \<open>
  How often a process has sent, and has received, in round \<open>k\<close>: once in every call it has left,
  and once in the call it is in when its mask is past that round.
\<close>

fun sent_now :: "coll_pc \<Rightarrow> nat \<Rightarrow> bool" where
  "sent_now Idle k = False"
| "sent_now (Send m) k = (2 ^ k < m)"
| "sent_now (Recv m) k = (2 ^ k \<le> m)"

fun rcvd_now :: "coll_pc \<Rightarrow> nat \<Rightarrow> bool" where
  "rcvd_now Idle k = False"
| "rcvd_now (Send m) k = (2 ^ k < m)"
| "rcvd_now (Recv m) k = (2 ^ k < m)"

definition sent :: "coll \<Rightarrow> nat \<Rightarrow> nat \<Rightarrow> nat" where
  "sent s i k = ended s i + of_bool (sent_now (pc s i) k)"

definition rcvd :: "coll \<Rightarrow> nat \<Rightarrow> nat \<Rightarrow> nat" where
  "rcvd s i k = ended s i + of_bool (rcvd_now (pc s i) k)"

text \<open>Masks are powers of two below the size.\<close>

fun pc_ok :: "nat \<Rightarrow> coll_pc \<Rightarrow> bool" where
  "pc_ok n Idle = True"
| "pc_ok n (Send m) = (m < n \<and> (\<exists>k. m = 2 ^ k))"
| "pc_ok n (Recv m) = (m < n \<and> (\<exists>k. m = 2 ^ k))"

definition barrier_inv :: "nat \<Rightarrow> coll \<Rightarrow> bool" where
  "barrier_inv n s \<longleftrightarrow>
     (\<forall>i<n. counted s i \<and> pc_ok n (pc s i)) \<and>
     (\<forall>i<n. \<forall>k. 2 ^ k < n \<longrightarrow>
        chan s i ((i + 2 ^ k) mod n) + rcvd s ((i + 2 ^ k) mod n) k = sent s i k)"

lemma mod_shift_le:
  fixes i a b p :: nat
  assumes "(i + a) mod p = (i + b) mod p" "a \<le> b" "b < p"
  shows "a = b"
proof -
  have "p dvd (i + b) - (i + a)" using assms(1,2) by (metis add_le_cancel_left mod_eq_dvd_iff_nat)
  then have "p dvd b - a" by simp
  then show ?thesis using assms(2,3) by (metis diff_diff_cancel diff_le_self dvd_imp_le le_neq_implies_less
        less_le_trans not_less zero_less_diff)
qed

lemma mod_shift_inj:
  fixes i a b p :: nat
  assumes "(i + a) mod p = (i + b) mod p" "a < p" "b < p"
  shows "a = b"
  using mod_shift_le [of i a p b] mod_shift_le [of i b p a] assms by (metis nat_le_linear)

lemma back_and_forth:
  fixes i m p :: nat
  assumes "i < p" "m < p"
  shows "((i + p - m) mod p + m) mod p = i" "((i + m) mod p + p - m) mod p = i"
proof -
  have "((i + p - m) mod p + m) mod p = (i + p - m + m) mod p" by (simp add: mod_add_left_eq)
  then show "((i + p - m) mod p + m) mod p = i" using assms by simp
  have "((i + m) mod p + p - m) mod p = ((i + m) mod p + (p - m)) mod p" using assms by simp
  also have "\<dots> = (i + m + (p - m)) mod p" by (simp only: mod_add_left_eq)
  finally show "((i + m) mod p + p - m) mod p = i" using assms by simp
qed

lemma pow2_less_iff: "(2::nat) ^ k < 2 * 2 ^ j \<longleftrightarrow> k \<le> j"
proof -
  have "(2::nat) ^ k < 2 ^ Suc j \<longleftrightarrow> k < Suc j" by (rule power_strict_increasing_iff) simp
  then show ?thesis by (simp add: less_Suc_eq_le)
qed

lemma pow2_next: "j < k \<Longrightarrow> (2::nat) * 2 ^ j \<le> 2 ^ k"
  using power_increasing [of "Suc j" k "2::nat"] by simp

lemma pow2_double: "2 * 2 ^ k \<le> m \<Longrightarrow> 2 ^ k < (m::nat)"
  by (rule less_le_trans [of _ "2 * 2 ^ k"]) simp_all

lemma barrier_inv_init: "barrier_inv n coll_init"
  by (simp add: barrier_inv_def coll_init_def counted_def sent_def rcvd_def)

text \<open>
  The counts a process' own step changes: the new counter \<open>p\<close> and count \<open>e\<close> of process \<open>i\<close> and
  the new channels keep the invariant when they balance on the channels out of and into \<open>i\<close>.
\<close>

lemma barrier_inv_upd:
  assumes inv: "barrier_inv n s" and i: "i < n"
    and frame: "only_proc i s s'" and own: "counted s' i" "pc_ok n (pc s' i)"
    and out: "\<And>k. 2 ^ k < n \<Longrightarrow> chan s' i ((i + 2 ^ k) mod n) + sent s i k = chan s i ((i + 2 ^ k) mod n) + sent s' i k"
    and inn: "\<And>j k. j < n \<Longrightarrow> j \<noteq> i \<Longrightarrow> 2 ^ k < n \<Longrightarrow> (j + 2 ^ k) mod n = i \<Longrightarrow> chan s' j i + rcvd s' i k = chan s j i + rcvd s i k"
    and rest: "\<And>j l. j \<noteq> i \<Longrightarrow> l \<noteq> i \<Longrightarrow> chan s' j l = chan s j l"
  shows "barrier_inv n s'"
proof -
  have other: "pc s' j = pc s j" "begun s' j = begun s j" "ended s' j = ended s j" if "j \<noteq> i" for j
    using frame that by (simp_all add: only_proc_def)
  have o2: "sent s' j k = sent s j k" "rcvd s' j k = rcvd s j k" if "j \<noteq> i" for j k
    using other [OF that] by (simp_all add: sent_def rcvd_def)
  have A: "counted s' j \<and> pc_ok n (pc s' j)" if "j < n" for j
    using inv own other [of j] that by (cases "j = i") (simp_all add: barrier_inv_def counted_def)
  have B: "chan s' j ((j + 2 ^ k) mod n) + rcvd s' ((j + 2 ^ k) mod n) k = sent s' j k"
    if j: "j < n" and k: "2 ^ k < n" for j k
  proof -
    have old: "chan s j ((j + 2 ^ k) mod n) + rcvd s ((j + 2 ^ k) mod n) k = sent s j k"
      using inv j k by (simp add: barrier_inv_def)
    have noself: "(i + 2 ^ k) mod n \<noteq> i"
      using mod_shift_inj [of i "2 ^ k" n 0] i k by auto
    consider "j = i" | "j \<noteq> i" "(j + 2 ^ k) mod n = i" | "j \<noteq> i" "(j + 2 ^ k) mod n \<noteq> i" by blast
    then show ?thesis
    proof cases
      case 1
      then show ?thesis using old out [OF k] o2(2) [OF noself] by simp
    next
      case 2
      then show ?thesis using old inn [OF j 2(1) k 2(2)] o2(1) [OF 2(1)] by simp
    next
      case 3
      then show ?thesis using old rest [OF 3] o2 by simp
    qed
  qed
  show ?thesis using A B by (simp add: barrier_inv_def)
qed

subsection \<open>The steps keep the counts\<close>

lemma round_frame: "only_proc i s (barrier_round n i m s)"
  by (simp add: barrier_round_def only_proc_def coll_defs)

lemma Barrier_intra_frame: "only_proc i s (MPIR_Barrier_intra n i s)"
  by (simp add: MPIR_Barrier_intra_def barrier_round_def only_proc_def coll_defs)

lemma Barrier_intra_begun: "begun (MPIR_Barrier_intra n i s) i = Suc (begun s i)"
  by (simp add: MPIR_Barrier_intra_def barrier_round_def coll_defs)

lemma barrier_step_cases:
  assumes "barrier_step n i s = Some s'"
  obtains (send) m where "pc s i = Send m" "s' = goto_pc i (Recv m) (put_msg i ((i + m) mod n) s)"
  | (recv) m where "pc s i = Recv m" "chan s ((i + n - m) mod n) i > 0"
      "s' = barrier_round n i (2 * m) (take_msg ((i + n - m) mod n) i s)"
  using assms by (auto simp: barrier_step_def Let_def split: coll_pc.splits if_splits)

lemma barrier_step_frame: "barrier_step n i s = Some s' \<Longrightarrow> only_proc i s s'"
  by (erule barrier_step_cases) (simp_all add: barrier_round_def only_proc_def coll_defs)

lemma barrier_step_begun: "barrier_step n i s = Some s' \<Longrightarrow> begun s' i = begun s i"
  by (erule barrier_step_cases) (simp_all add: barrier_round_def coll_defs)

lemma barrier_inv_enter:
  assumes inv: "barrier_inv n s" and i: "i < n" and idle: "pc s i = Idle"
  shows "barrier_inv n (MPIR_Barrier_intra n i s)"
proof -
  have cnt: "begun s i = ended s i" using inv i idle by (simp add: barrier_inv_def counted_def)
  show ?thesis
  proof (cases "n = 1")
    case True
    then have "\<not> (2::nat) ^ k < n" for k using one_le_power [of "2::nat" k] by linarith
    then show ?thesis using True i cnt inv
      by (simp add: barrier_inv_def MPIR_Barrier_intra_def counted_def coll_defs)
  next
    case False
    then have s': "MPIR_Barrier_intra n i s = goto_pc i (Send 1) (begin_call i s)"
      using i by (simp add: MPIR_Barrier_intra_def barrier_round_def)
    have "pc_ok n (Send 1)" using i False by (simp add: exI [of _ 0])
    then show ?thesis unfolding s' using inv i idle cnt
      by (intro barrier_inv_upd [OF inv i])
        (simp_all add: only_proc_def counted_def sent_def rcvd_def coll_defs)
  qed
qed

lemma barrier_inv_mask:
  assumes "barrier_inv n s" "i < n" "pc s i = Send m \<or> pc s i = Recv m"
  obtains j where "m = 2 ^ j" "m < n"
proof -
  have "pc_ok n (pc s i)" using assms(1,2) by (simp add: barrier_inv_def)
  then show ?thesis using assms(3) that by auto
qed

lemma barrier_inv_send:
  assumes inv: "barrier_inv n s" and i: "i < n" and p: "pc s i = Send m"
  shows "barrier_inv n (goto_pc i (Recv m) (put_msg i ((i + m) mod n) s))"
proof -
  obtain j where m: "m = 2 ^ j" "m < n" using barrier_inv_mask [OF inv i] p by blast
  have same: "(i + 2 ^ k) mod n = (i + m) mod n \<longleftrightarrow> k = j" if "2 ^ k < n" for k
    using mod_shift_inj [of i "2 ^ k" n m] m that by auto
  have ne: "(i + m) mod n \<noteq> i" using mod_shift_inj [of i m n 0] i m by auto
  have cnt: "counted s i" using inv i by (simp add: barrier_inv_def)
  show ?thesis
  proof (rule barrier_inv_upd [OF inv i])
    show "chan (goto_pc i (Recv m) (put_msg i ((i + m) mod n) s)) i ((i + 2 ^ k) mod n) + sent s i k =
      chan s i ((i + 2 ^ k) mod n) + sent (goto_pc i (Recv m) (put_msg i ((i + m) mod n) s)) i k"
      if "2 ^ k < n" for k
      using same [OF that] p by (auto simp: sent_def coll_defs m(1))
  qed (use cnt p m ne in \<open>auto simp: only_proc_def counted_def rcvd_def coll_defs\<close>)
qed

lemma barrier_inv_recv:
  assumes inv: "barrier_inv n s" and i: "i < n" and p: "pc s i = Recv m"
    and msg: "chan s ((i + n - m) mod n) i > 0"
  shows "barrier_inv n (barrier_round n i (2 * m) (take_msg ((i + n - m) mod n) i s))" (is "barrier_inv n ?s'")
proof -
  obtain j where m: "m = 2 ^ j" "m < n" using barrier_inv_mask [OF inv i] p by blast
  let ?src = "(i + n - m) mod n"
  have src: "?src \<noteq> i" "(?src + m) mod n = i"
    using back_and_forth(1) [OF i m(2)] mod_shift_inj [of i m n 0] i m by auto
  have unique: "l = ?src \<longleftrightarrow> k = j" if "l < n" "2 ^ k < n" "(l + 2 ^ k) mod n = i" for l k
  proof
    assume "l = ?src"
    then show "k = j" using mod_shift_inj [of l "2 ^ k" n m] that src(2) m by auto
  next
    assume "k = j"
    then show "l = ?src" using back_and_forth(2) [OF that(1,2)] that(3) m by simp
  qed
  have cnt: "counted s i" using inv i by (simp add: barrier_inv_def)
  have frame: "only_proc i s ?s'" by (simp add: barrier_round_def only_proc_def coll_defs)
  have own: "counted ?s' i" "pc_ok n (pc ?s' i)"
    using cnt p m by (auto simp: barrier_round_def counted_def coll_defs intro: exI [of _ "Suc j"])
  have snt: "sent ?s' i k = sent s i k" if "2 ^ k < n" for k
    using p that pow2_next [of j k] by (auto simp: sent_def barrier_round_def coll_defs m(1) pow2_less_iff not_le)
  have rcv: "rcvd ?s' i k = rcvd s i k + of_bool (k = j)" if "2 ^ k < n" for k
    using p that pow2_next [of j k] by (auto simp: rcvd_def barrier_round_def coll_defs m(1) pow2_less_iff not_le)
  have ch: "chan ?s' a b = chan s a b - of_bool (a = ?src \<and> b = i)" for a b
    by (simp add: barrier_round_def coll_defs)
  show ?thesis
  proof (rule barrier_inv_upd [OF inv i frame own])
    show "chan ?s' l i + rcvd ?s' i k = chan s l i + rcvd s i k"
      if "l < n" "l \<noteq> i" "2 ^ k < n" "(l + 2 ^ k) mod n = i" for l k
      using unique [OF that(1,3,4)] rcv [OF that(3)] msg by (auto simp: ch)
  qed (use src(1) in \<open>auto simp: ch snt\<close>)
qed

lemma barrier_inv_step:
  assumes "barrier_inv n s" "i < n" "barrier_step n i s = Some s'"
  shows "barrier_inv n s'"
  using assms(3) barrier_inv_send [OF assms(1,2)] barrier_inv_recv [OF assms(1,2)]
  by (cases rule: barrier_step_cases) auto

lemma barrier_reach_inv: "barrier_reach n s \<Longrightarrow> barrier_inv n s"
  by (induction rule: coll_reach.induct) (auto intro: barrier_inv_init barrier_inv_enter barrier_inv_step)

subsection \<open>Nobody leaves early, and the barrier does not get stuck\<close>

lemma rcvd_le_sent:
  assumes "barrier_inv n s" "i < n" "2 ^ k < n"
  shows "rcvd s i k \<le> sent s ((i + n - 2 ^ k) mod n) k"
proof -
  let ?j = "(i + n - 2 ^ k) mod n"
  have "?j < n" using assms(2) by simp
  then have "chan s ?j ((?j + 2 ^ k) mod n) + rcvd s ((?j + 2 ^ k) mod n) k = sent s ?j k"
    using assms by (simp add: barrier_inv_def)
  then show ?thesis using back_and_forth(1) [OF assms(2,3)] by simp
qed

lemma sent_le_begun:
  assumes "barrier_inv n s" "i < n"
  shows "sent s i k \<le> begun s i"
  using assms by (cases "pc s i") (auto simp: barrier_inv_def counted_def sent_def)

lemma sent_Suc_le_rcvd: "sent s i (Suc k) \<le> rcvd s i k"
proof (cases "pc s i")
  case (Recv m)
  then show ?thesis by (auto simp: sent_def rcvd_def of_bool_def dest: pow2_double)
next
  case (Send m)
  then show ?thesis using less_imp_le [THEN pow2_double, of k m] by (auto simp: sent_def rcvd_def of_bool_def)
qed (simp add: sent_def rcvd_def)

lemma rcvd_le_sent_own: "rcvd s i k \<le> sent s i k"
  by (cases "pc s i") (auto simp: sent_def rcvd_def of_bool_def)

text \<open>After round \<open>k\<close> a process has heard, directly or not, of the \<open>2 ^ (k + 1)\<close> processes below it.\<close>

lemma heard_of:
  assumes "barrier_inv n s"
  shows "i < n \<Longrightarrow> 2 ^ k < n \<Longrightarrow> e \<le> rcvd s i k \<Longrightarrow> d < 2 ^ Suc k \<Longrightarrow> d < n \<Longrightarrow> e \<le> begun s ((i + n - d) mod n)"
proof (induction k arbitrary: i d)
  case 0
  have j: "(i + n - 1) mod n < n" using 0(1) by simp
  have "e \<le> begun s ((i + n - 1) mod n)"
    using rcvd_le_sent [OF assms 0(1,2)] sent_le_begun [OF assms j, of 0] 0(3) by simp
  moreover have "e \<le> begun s i"
    using rcvd_le_sent_own [of s i 0] sent_le_begun [OF assms 0(1), of 0] 0(3) by simp
  ultimately show ?case using 0(1,4) by (cases d) auto
next
  case (Suc k)
  let ?j = "(i + n - 2 ^ Suc k) mod n"
  have k: "2 ^ k < n" using Suc.prems(2) by (rule le_less_trans [rotated]) simp
  have j: "?j < n" using Suc.prems(1) by simp
  show ?case
  proof (cases "d < 2 ^ Suc k")
    case True
    have "e \<le> rcvd s i k"
      using Suc.prems(3) rcvd_le_sent_own [of s i "Suc k"] sent_Suc_le_rcvd [of s i k] by linarith
    then show ?thesis using Suc.IH [OF Suc.prems(1) k _ True Suc.prems(5)] by simp
  next
    case False
    let ?d = "d - 2 ^ Suc k"
    have "e \<le> rcvd s ?j k"
      using Suc.prems(3) rcvd_le_sent [OF assms Suc.prems(1,2)] sent_Suc_le_rcvd [of s ?j k] by linarith
    moreover have "?d < 2 ^ Suc k" "?d < n" using Suc.prems(4,5) False by auto
    ultimately have "e \<le> begun s ((?j + n - ?d) mod n)" by (rule Suc.IH [OF j k])
    moreover have "(?j + n - ?d) mod n = (i + n - d) mod n"
    proof -
      have "(?j + n - ?d) mod n = (?j + (n - ?d)) mod n" using Suc.prems(5) by simp
      also have "\<dots> = (i + n - 2 ^ Suc k + (n - ?d)) mod n" by (simp only: mod_add_left_eq)
      also have "i + n - 2 ^ Suc k + (n - ?d) = (i + n - d) + n"
        using Suc.prems(2,5) False by (simp add: algebra_simps)
      finally show ?thesis by simp
    qed
    ultimately show ?thesis by simp
  qed
qed

text \<open>There is a last round, and it reaches everybody.\<close>

lemma last_round:
  assumes "(1::nat) < n"
  obtains k where "2 ^ k < n" "n \<le> 2 ^ Suc k"
proof -
  have ex: "\<exists>k. n \<le> 2 ^ k" by (metis less_exp less_imp_le)
  define K where "K = (LEAST k. n \<le> 2 ^ k)"
  have K: "n \<le> 2 ^ K" unfolding K_def by (rule LeastI_ex [OF ex])
  then obtain k where k: "K = Suc k" using assms by (cases K) auto
  have "\<not> n \<le> 2 ^ k" using not_less_Least [of k "\<lambda>k. n \<le> 2 ^ k"] k unfolding K_def by simp
  then show ?thesis using that [of k] K k by simp
qed

lemma reach_back: "(i::nat) < n \<Longrightarrow> j < n \<Longrightarrow> \<exists>d<n. (i + n - d) mod n = j"
proof -
  assume a: "i < n" "j < n"
  show ?thesis
  proof (cases "j \<le> i")
    case True
    then show ?thesis using a by (intro exI [of _ "i - j"]) (auto simp: mod_if)
  next
    case False
    then show ?thesis using a by (intro exI [of _ "i + n - j"]) (auto simp: mod_if)
  qed
qed

lemma barrier_inv_safe:
  assumes inv: "barrier_inv n s" and ij: "i < n" "j < n"
  shows "ended s i \<le> begun s j"
proof (cases "1 < n")
  case True
  then obtain k where k: "2 ^ k < n" "n \<le> 2 ^ Suc k" by (rule last_round)
  obtain d where d: "d < n" "(i + n - d) mod n = j" using reach_back [OF ij] by blast
  have "ended s i \<le> rcvd s i k" by (simp add: rcvd_def)
  then show ?thesis using heard_of [OF inv ij(1) k(1) _ _ d(1)] d k(2) by simp
next
  case False
  then have "i = j" using ij by simp
  then show ?thesis using inv ij by (simp add: barrier_inv_def counted_def)
qed

lemma stuck_recv:
  assumes "barrier_step n i s = None" "pc s i \<noteq> Idle"
  obtains m where "pc s i = Recv m" "chan s ((i + n - m) mod n) i = 0"
  using assms that by (auto simp: barrier_step_def Let_def split: coll_pc.splits if_splits)

text \<open>
  Of the processes that are stuck in a call everybody has entered take one with the least mask:
  the process it waits for is stuck with a smaller mask.
\<close>

lemma barrier_inv_progress:
  assumes inv: "barrier_inv n s" and i: "i < n" and busy: "pc s i \<noteq> Idle"
    and all: "\<And>j. j < n \<Longrightarrow> begun s i \<le> begun s j"
  shows "\<exists>j<n. barrier_step n j s \<noteq> None"
proof (rule ccontr)
  assume "\<not> ?thesis"
  then have stuck: "barrier_step n j s = None" if "j < n" for j using that by auto
  define late where "late j \<longleftrightarrow> j < n \<and> ended s j < begun s i" for j
  have cnt: "counted s j" if "j < n" for j using inv that by (simp add: barrier_inv_def)
  have late_recv: "pc s j \<noteq> Idle \<and> Suc (ended s j) = begun s i" if "late j" for j
    using that cnt [of j] all [of j] unfolding late_def counted_def by (auto simp: of_bool_def split: if_splits)
  have "late i" using cnt [OF i] i busy by (simp add: late_def counted_def)
  then obtain j where j: "late j"
    and least: "\<And>l. late l \<Longrightarrow> (case pc s j of Recv m \<Rightarrow> m | _ \<Rightarrow> 0) \<le> (case pc s l of Recv m \<Rightarrow> m | _ \<Rightarrow> 0)"
    using ex_has_least_nat [of late i "\<lambda>j. case pc s j of Recv m \<Rightarrow> m | _ \<Rightarrow> 0"] by auto
  have jn: "j < n" using j by (simp add: late_def)
  obtain m where m: "pc s j = Recv m" "chan s ((j + n - m) mod n) j = 0"
    using stuck_recv [OF stuck [OF jn]] late_recv [OF j] by blast
  obtain k where k: "m = 2 ^ k" "m < n" using barrier_inv_mask [OF inv jn] m(1) by blast
  let ?l = "(j + n - m) mod n"
  have ln: "?l < n" using jn by simp
  have "chan s ?l ((?l + 2 ^ k) mod n) + rcvd s ((?l + 2 ^ k) mod n) k = sent s ?l k"
    using inv ln k by (simp add: barrier_inv_def)
  then have bal: "rcvd s j k = sent s ?l k" using back_and_forth(1) [OF jn k(2)] m(2) k(1) by simp
  then have "late ?l" using ln j m(1) k(1) by (simp add: late_def sent_def rcvd_def)
  moreover from this obtain m' where m': "pc s ?l = Recv m'"
    using stuck_recv [OF stuck [OF ln]] late_recv by blast
  ultimately have "m \<le> m'" using least [of ?l] m(1) by simp
  then have "sent s ?l k = begun s i" using m' k(1) late_recv [OF \<open>late ?l\<close>] by (simp add: sent_def)
  then show False using bal late_recv [OF j] m(1) k(1) by (simp add: rcvd_def)
qed

text \<open>The rounds a process still has before it, each a send and a receive.\<close>

fun barrier_work :: "nat \<Rightarrow> coll_pc \<Rightarrow> nat" where
  "barrier_work n Idle = 0"
| "barrier_work n (Send m) = 2 * (n - m) + 2"
| "barrier_work n (Recv m) = 2 * (n - m) + 1"

lemma barrier_step_work:
  assumes inv: "barrier_inv n s" and i: "i < n" and st: "barrier_step n i s = Some s'"
  shows "(\<Sum>k<n. barrier_work n (pc s' k)) < (\<Sum>k<n. barrier_work n (pc s k))"
proof (rule sum_strict_mono_ex1)
  have own: "barrier_work n (pc s' i) < barrier_work n (pc s i)"
    using st
  proof (cases rule: barrier_step_cases)
    case (send m)
    then show ?thesis by (simp add: coll_defs)
  next
    case (recv m)
    then obtain j where "m = 2 ^ j" "m < n" using barrier_inv_mask [OF inv i] by blast
    then have "0 < m" "m < n" by simp_all
    then show ?thesis using recv by (auto simp: barrier_round_def coll_defs)
  qed
  then show "\<exists>k\<in>{..<n}. barrier_work n (pc s' k) < barrier_work n (pc s k)" using i by auto
  show "\<forall>k\<in>{..<n}. barrier_work n (pc s' k) \<le> barrier_work n (pc s k)"
  proof
    fix k
    show "barrier_work n (pc s' k) \<le> barrier_work n (pc s k)"
      using own barrier_step_frame [OF st] by (cases "k = i") (simp_all add: only_proc_def)
  qed
qed simp

interpretation dissemination: collective n "MPIR_Barrier_intra n" "barrier_step n" "\<lambda>_ _. True" for n
proof unfold_locales
  show "only_proc i s (MPIR_Barrier_intra n i s)" for i s by (rule Barrier_intra_frame)
  show "begun (MPIR_Barrier_intra n i s) i = Suc (begun s i)" for i s by (rule Barrier_intra_begun)
  show "barrier_step n i s = Some s' \<Longrightarrow> only_proc i s s'" for i s s' by (rule barrier_step_frame)
  show "barrier_step n i s = Some s' \<Longrightarrow> begun s' i = begun s i" for i s s' by (rule barrier_step_begun)
  show "pc s i = Idle \<Longrightarrow> barrier_step n i s = None" for i s by (simp add: barrier_step_def)
  show "barrier_reach n s \<Longrightarrow> i < n \<Longrightarrow> counted s i" for i s
    using barrier_reach_inv by (auto simp: barrier_inv_def)
  show "barrier_reach n s \<Longrightarrow> i < n \<Longrightarrow> j < n \<Longrightarrow> ended s i \<le> begun s j" for i j s
    using barrier_reach_inv barrier_inv_safe by blast
  show "barrier_reach n s \<Longrightarrow> i < n \<Longrightarrow> pc s i \<noteq> Idle \<Longrightarrow> (\<And>j. j < n \<Longrightarrow> begun s i \<le> begun s j) \<Longrightarrow>
      \<exists>j<n. barrier_step n j s \<noteq> None" for i s
    using barrier_reach_inv barrier_inv_progress by blast
qed

text \<open>
  C28. In every interleaving of any number of successive calls no process leaves its \<open>e\<close>-th
  barrier before every process has entered its \<open>e\<close>-th; when all have entered the call a process
  is in, some process can take a step, and every step leaves less to do, so the call ends for all.
\<close>

theorem dissemination_barrier:
  assumes "barrier_reach n s" "i < n" "j < n"
  shows "ended s i \<le> begun s j \<and>
    (pc s i \<noteq> Idle \<and> (\<forall>l<n. begun s i \<le> begun s l) \<longrightarrow> (\<exists>l<n. barrier_step n l s \<noteq> None)) \<and>
    (\<forall>s'. barrier_step n i s = Some s' \<longrightarrow>
       (\<Sum>k<n. barrier_work n (pc s' k)) < (\<Sum>k<n. barrier_work n (pc s k)))"
proof (intro conjI allI impI)
  show "ended s i \<le> begun s j" by (rule dissemination.safe [OF assms TrueI])
  show "\<exists>l<n. barrier_step n l s \<noteq> None" if "pc s i \<noteq> Idle \<and> (\<forall>l<n. begun s i \<le> begun s l)"
    using dissemination.progress [OF assms(1,2)] that by blast
  show "(\<Sum>k<n. barrier_work n (pc s' k)) < (\<Sum>k<n. barrier_work n (pc s k))"
    if "barrier_step n i s = Some s'" for s'
    using barrier_step_work [OF barrier_reach_inv [OF assms(1)] assms(2) that] .
qed

text \<open>Two of three processes in their first round, the third still outside.\<close>

definition three_procs :: coll where
  "three_procs = goto_pc 0 (Recv 1) (put_msg 0 1 (MPIR_Barrier_intra 3 1 (MPIR_Barrier_intra 3 0 coll_init)))"

lemma three_procs_reach: "barrier_reach 3 three_procs"
proof -
  let ?a = "MPIR_Barrier_intra 3 0 coll_init"
  let ?b = "MPIR_Barrier_intra 3 1 ?a"
  have p: "pc coll_init 0 = Idle" "pc ?a 1 = Idle"
    by (simp_all add: coll_init_def MPIR_Barrier_intra_def barrier_round_def coll_defs)
  have "barrier_reach 3 ?a" by (rule coll_reach.call [OF coll_reach.init _ p(1)]) simp
  then have b: "barrier_reach 3 ?b" by (rule coll_reach.call [OF _ _ p(2)]) simp
  have "barrier_step 3 0 ?b = Some three_procs"
    by (simp add: barrier_step_def three_procs_def coll_init_def MPIR_Barrier_intra_def barrier_round_def coll_defs)
  then show ?thesis using coll_reach.step [OF b, of 0] by simp
qed

theorem dissemination_barrier_witness:
  "barrier_reach 3 three_procs \<and> pc three_procs 0 = Recv 1 \<and> pc three_procs 1 = Send 1 \<and>
   ended three_procs 1 \<le> begun three_procs 2"
  using dissemination_barrier [OF three_procs_reach, of 1 2] three_procs_reach
  by (simp add: three_procs_def coll_init_def MPIR_Barrier_intra_def barrier_round_def coll_defs)

end
