(* ===== verification/Coll_Bcast.thy ===== *)
theory Coll_Bcast
  imports Coll_Base
begin

section \<open>The binomial broadcast (\<^verbatim>\<open>bcast.c\<close>, \<^verbatim>\<open>MPIR_Bcast_binomial\<close>)\<close>

text \<open>
  Ranks are taken relative to the root.  A process receives from the process whose relative rank
  has the least set bit of its own cleared, and then sends to the processes whose relative rank
  has one lower bit set, the highest bit first.  The root has no bit set and starts with the
  first power of two that is not below the size.  Messages this short are sent eagerly, so only
  the receive blocks; packing and error codes are left out.
\<close>

unbundle bit_operations_syntax

definition rel_rank :: "nat \<Rightarrow> nat \<Rightarrow> nat \<Rightarrow> nat" where
  "rel_rank n root rank = (if rank \<ge> root then rank - root else rank + n - root)"

text \<open>The first loop: the mask at which it stops.\<close>

function bcast_mask :: "nat \<Rightarrow> nat \<Rightarrow> nat \<Rightarrow> nat" where
  "bcast_mask n rel m =
     (if m < n \<and> 0 < m then if rel AND m \<noteq> 0 then m else bcast_mask n rel (2 * m) else m)"
  by pat_completeness auto
termination
  by (relation "measure (\<lambda>(n, rel, m). n - m)") auto

text \<open>The second loop up to the next send.\<close>

function bcast_forward :: "nat \<Rightarrow> nat \<Rightarrow> nat \<Rightarrow> nat \<Rightarrow> coll \<Rightarrow> coll" where
  "bcast_forward n root i m s =
     (if 0 < m then
        if rel_rank n root i + m < n then goto_pc i (Send m) s else bcast_forward n root i (m div 2) s
      else end_call i s)"
  by pat_completeness auto
termination
  by (relation "measure (\<lambda>(n, root, i, m, s). m)") auto

declare bcast_mask.simps [simp del] bcast_forward.simps [simp del]

definition MPIR_Bcast_binomial :: "nat \<Rightarrow> nat \<Rightarrow> nat \<Rightarrow> nat \<Rightarrow> coll \<Rightarrow> coll" where
  "MPIR_Bcast_binomial nbytes n root i s =
     (let s1 = begin_call i s in
      if n = 1 \<or> nbytes = 0 then end_call i s1
      else let m = bcast_mask n (rel_rank n root i) 1 in
        if m < n then goto_pc i (Recv m) s1 else bcast_forward n root i (m div 2) s1)"

definition bcast_src :: "nat \<Rightarrow> nat \<Rightarrow> nat \<Rightarrow> nat" where
  "bcast_src n i m = (if i < m then i + n - m else i - m)"

definition bcast_dst :: "nat \<Rightarrow> nat \<Rightarrow> nat \<Rightarrow> nat" where
  "bcast_dst n i m = (if i + m \<ge> n then i + m - n else i + m)"

definition bcast_step :: "nat \<Rightarrow> nat \<Rightarrow> nat \<Rightarrow> coll \<Rightarrow> coll option" where
  "bcast_step n root i s =
     (case pc s i of
        Idle \<Rightarrow> None
      | Send m \<Rightarrow> Some (bcast_forward n root i (m div 2) (put_msg i (bcast_dst n i m) s))
      | Recv m \<Rightarrow>
          let src = bcast_src n i m in
          if chan s src i = 0 then None
          else Some (bcast_forward n root i (m div 2) (take_msg src i s)))"

abbreviation bcast_reach :: "nat \<Rightarrow> nat \<Rightarrow> nat \<Rightarrow> coll \<Rightarrow> bool" where
  "bcast_reach nbytes n root \<equiv> coll_reach n (MPIR_Bcast_binomial nbytes n root) (bcast_step n root)"

subsection \<open>The tree\<close>

lemma rel_rank_less: "i < n \<Longrightarrow> root < n \<Longrightarrow> rel_rank n root i < n"
  by (auto simp: rel_rank_def)

lemma rel_rank_inj: "i < n \<Longrightarrow> j < n \<Longrightarrow> root < n \<Longrightarrow> rel_rank n root i = rel_rank n root j \<Longrightarrow> i = j"
  by (auto simp: rel_rank_def split: if_splits)

lemma rel_rank_root: "i < n \<Longrightarrow> root < n \<Longrightarrow> rel_rank n root i = 0 \<longleftrightarrow> i = root"
  by (auto simp: rel_rank_def split: if_splits)

lemma rel_rank_src:
  assumes "i < n" "root < n" "m \<le> rel_rank n root i"
  shows "bcast_src n i m < n" "rel_rank n root (bcast_src n i m) = rel_rank n root i - m"
    "bcast_dst n (bcast_src n i m) m = i"
  using assms by (auto simp: rel_rank_def bcast_src_def bcast_dst_def split: if_splits)

lemma rel_rank_dst:
  assumes "i < n" "root < n" "rel_rank n root i + m < n"
  shows "bcast_dst n i m < n" "rel_rank n root (bcast_dst n i m) = rel_rank n root i + m"
    "bcast_src n (bcast_dst n i m) m = i"
  using assms by (auto simp: rel_rank_def bcast_src_def bcast_dst_def split: if_splits)

text \<open>The mask of relative rank \<open>r\<close>: a power of two that divides \<open>r\<close>, the largest one when it is below \<open>n\<close>.\<close>

definition low_of :: "nat \<Rightarrow> nat \<Rightarrow> nat \<Rightarrow> bool" where
  "low_of n r k \<longleftrightarrow> 2 ^ k dvd r \<and> (2 ^ k < n \<longrightarrow> odd (r div 2 ^ k))"

lemma and_pow2: "(r::nat) AND 2 ^ k \<noteq> 0 \<longleftrightarrow> odd (r div 2 ^ k)"
  by (simp add: and_exp_eq_0_iff_not_bit bit_iff_odd)

lemma pow2_dvd_Suc: "2 ^ k dvd r \<Longrightarrow> even (r div 2 ^ k) \<Longrightarrow> 2 ^ Suc k dvd (r::nat)"
  by (metis dvd_div_iff_mult power_Suc power_not_zero zero_neq_numeral)

lemma bcast_mask_low:
  assumes "2 ^ j dvd r"
  shows "\<exists>k\<ge>j. bcast_mask n r (2 ^ j) = 2 ^ k \<and> low_of n r k"
  using assms
proof (induction "n - 2 ^ j" arbitrary: j rule: less_induct)
  case less
  show ?case
  proof (cases "2 ^ j < n \<and> even (r div 2 ^ j)")
    case True
    then have "2 ^ Suc j dvd r" using pow2_dvd_Suc less.prems by blast
    moreover have "n - 2 ^ Suc j < n - 2 ^ j" using True by (simp add: diff_less_mono2)
    ultimately obtain k where "k \<ge> Suc j" "bcast_mask n r (2 ^ Suc j) = 2 ^ k" "low_of n r k"
      using less.hyps by blast
    then show ?thesis using True and_pow2 [of r j]
      by (intro exI [of _ k]) (simp add: bcast_mask.simps [of n r "2 ^ j"])
  next
    case False
    then show ?thesis using less.prems and_pow2 [of r j]
      by (intro exI [of _ j]) (auto simp: bcast_mask.simps [of n r "2 ^ j"] low_of_def)
  qed
qed

lemma low_unique:
  assumes "low_of n r a" "low_of n r b" "2 ^ a < n"
  shows "b = a"
proof -
  have "\<not> a < b"
  proof
    assume "a < b"
    then have "2 ^ Suc a dvd r"
      using assms(2) power_le_dvd [of 2 b r "Suc a"] unfolding low_of_def by simp
    then have "even (r div 2 ^ a)" by (metis dvd_div_iff_mult assms(1) low_of_def mult.commute power_Suc
          power_not_zero zero_neq_numeral)
    then show False using assms(1,3) by (simp add: low_of_def)
  qed
  moreover have "\<not> b < a"
  proof
    assume ba: "b < a"
    have "(2::nat) ^ b < 2 ^ a" using ba by simp
    then have "2 ^ b < n" using assms(3) by (rule less_trans)
    then have "odd (r div 2 ^ b)" using assms(2,3) by (simp add: low_of_def)
    moreover have "2 ^ Suc b dvd r"
      using assms(1) ba power_le_dvd [of 2 a r "Suc b"] unfolding low_of_def by simp
    ultimately show False by (metis dvd_div_iff_mult assms(2) low_of_def mult.commute power_Suc
          power_not_zero zero_neq_numeral)
  qed
  ultimately show ?thesis by simp
qed

text \<open>Process \<open>i\<close> sends to the process \<open>2 ^ k\<close> above it.\<close>

definition tree_edge :: "nat \<Rightarrow> nat \<Rightarrow> nat \<Rightarrow> nat \<Rightarrow> bool" where
  "tree_edge n root i k \<longleftrightarrow>
     2 ^ k < bcast_mask n (rel_rank n root i) 1 \<and> rel_rank n root i + 2 ^ k < n"

lemma mask_ex:
  obtains l where "bcast_mask n r 1 = 2 ^ l" "low_of n r l"
  using bcast_mask_low [of 0 r n] by auto

lemma mask_eq:
  assumes "low_of n r k" "2 ^ k < n"
  shows "bcast_mask n r 1 = 2 ^ k"
proof -
  obtain l where l: "bcast_mask n r 1 = 2 ^ l" "low_of n r l" by (rule mask_ex)
  then show ?thesis using low_unique [OF assms(1) l(2) assms(2)] by simp
qed

lemma edge_child:
  assumes "i < n" "root < n" "tree_edge n root i k"
  shows "bcast_dst n i (2 ^ k) < n" "bcast_dst n i (2 ^ k) \<noteq> i" "bcast_dst n i (2 ^ k) \<noteq> root"
    "bcast_mask n (rel_rank n root (bcast_dst n i (2 ^ k))) 1 = 2 ^ k"
    "bcast_src n (bcast_dst n i (2 ^ k)) (2 ^ k) = i"
proof -
  let ?r = "rel_rank n root i" and ?c = "bcast_dst n i (2 ^ k)"
  have lt: "?r + 2 ^ k < n" using assms(3) by (simp add: tree_edge_def)
  note d = rel_rank_dst [OF assms(1,2) lt]
  show "?c < n" "bcast_src n ?c (2 ^ k) = i" by (rule d)+
  show "?c \<noteq> i" using d(2) by auto
  show "?c \<noteq> root" using d(2) rel_rank_root [OF d(1) assms(2)] by auto
  obtain l where l: "bcast_mask n ?r 1 = 2 ^ l" "low_of n ?r l" by (rule mask_ex)
  then have "k < l" using assms(3) by (simp add: tree_edge_def)
  then have "2 ^ Suc k dvd ?r"
    using l(2) power_le_dvd [of 2 l ?r "Suc k"] by (simp add: low_of_def)
  then obtain q where "?r = 2 ^ Suc k * q" by (rule dvdE)
  then have "?r + 2 ^ k = (2 * q + 1) * 2 ^ k" by (simp add: algebra_simps)
  then have "low_of n (?r + 2 ^ k) k" unfolding low_of_def by simp
  moreover have "2 ^ k < n" using lt by simp
  ultimately show "bcast_mask n (rel_rank n root ?c) 1 = 2 ^ k" unfolding d(2) by (rule mask_eq)
qed

lemma edge_parent:
  assumes "j < n" "root < n" "bcast_mask n (rel_rank n root j) 1 = 2 ^ k" "2 ^ k < n"
  shows "bcast_src n j (2 ^ k) < n" "tree_edge n root (bcast_src n j (2 ^ k)) k"
    "bcast_dst n (bcast_src n j (2 ^ k)) (2 ^ k) = j"
    "rel_rank n root (bcast_src n j (2 ^ k)) < rel_rank n root j"
proof -
  let ?r = "rel_rank n root j" and ?p = "bcast_src n j (2 ^ k)"
  obtain l where "bcast_mask n ?r 1 = 2 ^ l" "low_of n ?r l" by (rule mask_ex)
  then have low: "low_of n ?r k" using assms(3) by simp
  then have odd: "odd (?r div 2 ^ k)" and dvd: "2 ^ k dvd ?r" using assms(4) by (simp_all add: low_of_def)
  then have pos: "0 < ?r" by (cases "?r = 0") auto
  then have le: "2 ^ k \<le> ?r" using dvd by (simp add: dvd_imp_le)
  note d = rel_rank_src [OF assms(1,2) le]
  show "?p < n" "bcast_dst n ?p (2 ^ k) = j" by (rule d)+
  show "rel_rank n root ?p < ?r" using d(2) pos by simp
  obtain q where q: "?r = (2 * q + 1) * 2 ^ k"
    using odd dvd by (metis dvd_div_mult_self oddE)
  then have p: "rel_rank n root ?p = q * 2 ^ Suc k" unfolding d(2) by (simp add: algebra_simps)
  obtain l where l: "bcast_mask n (rel_rank n root ?p) 1 = 2 ^ l" "low_of n (rel_rank n root ?p) l"
    by (rule mask_ex)
  have "k < l"
  proof (rule ccontr)
    assume "\<not> k < l"
    then have lk: "l \<le> k" by simp
    then have "(2::nat) ^ l \<le> 2 ^ k" by simp
    then have "2 ^ l < n" using assms(4) by (rule le_less_trans)
    then have "odd (rel_rank n root ?p div 2 ^ l)" using l(2) assms(4) by (simp add: low_of_def)
    moreover have "rel_rank n root ?p = (q * 2 ^ (k - l) * 2) * 2 ^ l"
      unfolding p using lk by (simp add: power_add [symmetric] mult.assoc)
    then have "even (rel_rank n root ?p div 2 ^ l)" by simp
    ultimately show False by simp
  qed
  then show "tree_edge n root ?p k"
    using l(1) d(2) le rel_rank_less [OF assms(1,2)] by (simp add: tree_edge_def)
qed

subsection \<open>Messages balance\<close>

fun bsent_now :: "coll_pc \<Rightarrow> nat \<Rightarrow> bool" where
  "bsent_now (Send m) k = (m < 2 ^ k)"
| "bsent_now _ k = False"

fun brcvd_now :: "coll_pc \<Rightarrow> bool" where
  "brcvd_now (Send m) = True"
| "brcvd_now _ = False"

definition bsent :: "coll \<Rightarrow> nat \<Rightarrow> nat \<Rightarrow> nat" where
  "bsent s i k = ended s i + of_bool (bsent_now (pc s i) k)"

definition brcvd :: "coll \<Rightarrow> nat \<Rightarrow> nat" where
  "brcvd s i = ended s i + of_bool (brcvd_now (pc s i))"

fun bpc_ok :: "nat \<Rightarrow> nat \<Rightarrow> nat \<Rightarrow> coll_pc \<Rightarrow> bool" where
  "bpc_ok n root i Idle = True"
| "bpc_ok n root i (Send m) = (\<exists>k. m = 2 ^ k \<and> tree_edge n root i k)"
| "bpc_ok n root i (Recv m) = (m = bcast_mask n (rel_rank n root i) 1 \<and> m < n)"

definition bcast_inv :: "nat \<Rightarrow> nat \<Rightarrow> coll \<Rightarrow> bool" where
  "bcast_inv n root s \<longleftrightarrow>
     (\<forall>i<n. counted s i \<and> bpc_ok n root i (pc s i)) \<and>
     (\<forall>i<n. \<forall>k. tree_edge n root i k \<longrightarrow>
        chan s i (bcast_dst n i (2 ^ k)) + brcvd s (bcast_dst n i (2 ^ k)) = bsent s i k)"

lemma bcast_inv_upd:
  assumes inv: "bcast_inv n root s" and i: "i < n" and root: "root < n"
    and frame: "only_proc i s s'" and own: "counted s' i" "bpc_ok n root i (pc s' i)"
    and out: "\<And>k. tree_edge n root i k \<Longrightarrow>
      chan s' i (bcast_dst n i (2 ^ k)) + bsent s i k = chan s i (bcast_dst n i (2 ^ k)) + bsent s' i k"
    and inn: "\<And>j k. j < n \<Longrightarrow> j \<noteq> i \<Longrightarrow> i \<noteq> root \<Longrightarrow> tree_edge n root j k \<Longrightarrow> bcast_dst n j (2 ^ k) = i \<Longrightarrow>
      chan s' j i + brcvd s' i = chan s j i + brcvd s i"
    and rest: "\<And>j l. j \<noteq> i \<Longrightarrow> l \<noteq> i \<Longrightarrow> chan s' j l = chan s j l"
  shows "bcast_inv n root s'"
proof -
  have other: "pc s' j = pc s j" "begun s' j = begun s j" "ended s' j = ended s j" if "j \<noteq> i" for j
    using frame that by (simp_all add: only_proc_def)
  have o2: "bsent s' j k = bsent s j k" "brcvd s' j = brcvd s j" if "j \<noteq> i" for j k
    using other [OF that] by (simp_all add: bsent_def brcvd_def)
  have A: "counted s' j \<and> bpc_ok n root j (pc s' j)" if "j < n" for j
    using inv own other [of j] that by (cases "j = i") (simp_all add: bcast_inv_def counted_def)
  have B: "chan s' j (bcast_dst n j (2 ^ k)) + brcvd s' (bcast_dst n j (2 ^ k)) = bsent s' j k"
    if j: "j < n" and k: "tree_edge n root j k" for j k
  proof -
    have old: "chan s j (bcast_dst n j (2 ^ k)) + brcvd s (bcast_dst n j (2 ^ k)) = bsent s j k"
      using inv j k by (simp add: bcast_inv_def)
    note c = edge_child [OF j root k]
    consider "j = i" | "j \<noteq> i" "bcast_dst n j (2 ^ k) = i" | "j \<noteq> i" "bcast_dst n j (2 ^ k) \<noteq> i" by blast
    then show ?thesis
    proof cases
      case 1
      then show ?thesis using old out [of k] k o2(2) [of "bcast_dst n j (2 ^ k)"] c(2) by simp
    next
      case 2
      then show ?thesis using old inn [OF j 2(1) _ k 2(2)] c(3) o2(1) [OF 2(1)] by simp
    next
      case 3
      then show ?thesis using old rest [OF 3] o2 by simp
    qed
  qed
  show ?thesis using A B by (simp add: bcast_inv_def)
qed

text \<open>Where the second loop stops: at the highest of the remaining children, or at the end.\<close>

lemma forward_cases:
  assumes "2 ^ k \<le> bcast_mask n (rel_rank n root i) 1"
  obtains (send) k' where "bcast_forward n root i (2 ^ k div 2) s = goto_pc i (Send (2 ^ k')) s"
      "k' < k" "tree_edge n root i k'" "\<And>l. l < k \<Longrightarrow> tree_edge n root i l \<Longrightarrow> l \<le> k'"
  | (stop) "bcast_forward n root i (2 ^ k div 2) s = end_call i s" "\<And>l. l < k \<Longrightarrow> \<not> tree_edge n root i l"
  using assms
proof (induction k arbitrary: thesis)
  case 0
  show ?case by (rule 0(2)) (simp_all add: bcast_forward.simps)
next
  case (Suc k)
  have lt: "2 ^ k < bcast_mask n (rel_rank n root i) 1"
    using Suc.prems(3) by (rule less_le_trans [rotated]) simp
  show ?case
  proof (cases "rel_rank n root i + 2 ^ k < n")
    case True
    show ?thesis
    proof (rule Suc.prems(1))
      show "bcast_forward n root i (2 ^ Suc k div 2) s = goto_pc i (Send (2 ^ k)) s"
        using True by (simp add: bcast_forward.simps)
    qed (use True lt in \<open>simp_all add: tree_edge_def\<close>)
  next
    case False
    have eq: "bcast_forward n root i (2 ^ Suc k div 2) s = bcast_forward n root i (2 ^ k div 2) s"
      using False by (simp add: bcast_forward.simps [of n root i "2 ^ k"])
    have no: "\<not> tree_edge n root i k" using False by (simp add: tree_edge_def)
    show ?thesis
    proof (rule Suc.IH)
      show "2 ^ k \<le> bcast_mask n (rel_rank n root i) 1" using lt by simp
    next
      fix k' assume a: "bcast_forward n root i (2 ^ k div 2) s = goto_pc i (Send (2 ^ k')) s" "k' < k"
        "tree_edge n root i k'" "\<And>l. l < k \<Longrightarrow> tree_edge n root i l \<Longrightarrow> l \<le> k'"
      show thesis by (rule Suc.prems(1) [of k']) (use a no eq in \<open>auto simp: less_Suc_eq\<close>)
    next
      assume a: "bcast_forward n root i (2 ^ k div 2) s = end_call i s" "\<And>l. l < k \<Longrightarrow> \<not> tree_edge n root i l"
      show thesis by (rule Suc.prems(2)) (use a no eq in \<open>auto simp: less_Suc_eq\<close>)
    qed
  qed
qed

lemma forward_frame: "only_proc i s (bcast_forward n root i m s)"
proof (induction n root i m s rule: bcast_forward.induct)
  case (1 n root i m s)
  then show ?case
    by (subst bcast_forward.simps) (auto simp: only_proc_def coll_defs)
qed

lemma forward_begun: "begun (bcast_forward n root i m s) = begun s"
proof (induction n root i m s rule: bcast_forward.induct)
  case (1 n root i m s)
  then show ?case by (subst bcast_forward.simps) (auto simp: coll_defs)
qed

lemma only_proc_trans: "only_proc i s s' \<Longrightarrow> only_proc i s' s'' \<Longrightarrow> only_proc i s s''"
  by (simp add: only_proc_def)

lemma only_proc_msg: "only_proc i s (begin_call i s)" "only_proc i s (put_msg a b s)" "only_proc i s (take_msg a b s)"
  by (simp_all add: only_proc_def coll_defs)

lemma Bcast_frame: "only_proc i s (MPIR_Bcast_binomial nbytes n root i s)"
proof -
  have "only_proc i s (bcast_forward n root i m (begin_call i s))" for m
    by (rule only_proc_trans [OF only_proc_msg(1) forward_frame])
  then show ?thesis by (simp add: MPIR_Bcast_binomial_def Let_def) (simp add: only_proc_def coll_defs)
qed

lemma Bcast_begun: "begun (MPIR_Bcast_binomial nbytes n root i s) i = Suc (begun s i)"
  by (simp add: MPIR_Bcast_binomial_def Let_def forward_begun) (simp add: coll_defs)

lemma bcast_step_cases:
  assumes "bcast_step n root i s = Some s'"
  obtains (send) m where "pc s i = Send m" "s' = bcast_forward n root i (m div 2) (put_msg i (bcast_dst n i m) s)"
  | (recv) m where "pc s i = Recv m" "chan s (bcast_src n i m) i > 0"
      "s' = bcast_forward n root i (m div 2) (take_msg (bcast_src n i m) i s)"
  using assms by (auto simp: bcast_step_def Let_def split: coll_pc.splits if_splits)

lemma bcast_step_frame: "bcast_step n root i s = Some s' \<Longrightarrow> only_proc i s s'"
  by (erule bcast_step_cases) (auto intro: only_proc_trans [OF only_proc_msg(2) forward_frame]
      only_proc_trans [OF only_proc_msg(3) forward_frame])

lemma bcast_step_begun: "bcast_step n root i s = Some s' \<Longrightarrow> begun s' i = begun s i"
  by (erule bcast_step_cases) (simp_all add: forward_begun put_msg_def take_msg_def)

lemma bcast_inv_init: "bcast_inv n root coll_init"
  by (simp add: bcast_inv_def coll_init_def counted_def bsent_def brcvd_def)

lemma no_edge_single: "\<not> tree_edge 1 root i k"
  by (simp add: tree_edge_def)

text \<open>The counts after the second loop has gone on from \<open>2 ^ k\<close>: received, and sent to the children at \<open>2 ^ k\<close> and above.\<close>

lemma forward_effect:
  fixes n root i k s
  assumes "2 ^ k \<le> bcast_mask n (rel_rank n root i) 1"
  defines "s' \<equiv> bcast_forward n root i (2 ^ k div 2) s"
  shows "bpc_ok n root i (pc s' i)" "chan s' = chan s" "brcvd s' i = Suc (ended s i)"
    "ended s' i + of_bool (pc s' i \<noteq> Idle) = Suc (ended s i)"
    "\<And>l. tree_edge n root i l \<Longrightarrow> bsent s' i l = ended s i + of_bool (k \<le> l)"
  unfolding s'_def using assms(1)
  by (cases rule: forward_cases [where s = s]; force simp: coll_defs bsent_def brcvd_def not_less of_bool_def)+

lemma mask_root:
  assumes "i < n" "root < n" "n \<noteq> 1"
  shows "n \<le> bcast_mask n (rel_rank n root i) 1 \<longleftrightarrow> i = root"
proof -
  obtain l where l: "bcast_mask n (rel_rank n root i) 1 = 2 ^ l" "low_of n (rel_rank n root i) l" by (rule mask_ex)
  have "n \<le> 2 ^ l" if "rel_rank n root i = 0"
    using l(2) that by (auto simp: low_of_def not_le [symmetric])
  moreover have "rel_rank n root i = 0" if "n \<le> 2 ^ l"
    using that l(2) rel_rank_less [OF assms(1,2)] by (metis dvd_imp_le leD le_less_trans low_of_def neq0_conv)
  ultimately show ?thesis using l(1) rel_rank_root [OF assms(1,2)] by auto
qed

lemma bcast_inv_enter:
  assumes inv: "bcast_inv n root s" and i: "i < n" and root: "root < n" and idle: "pc s i = Idle"
    and nbytes: "0 < nbytes"
  shows "bcast_inv n root (MPIR_Bcast_binomial nbytes n root i s)" (is "bcast_inv n root ?s'")
proof -
  have cnt: "begun s i = ended s i" using inv i idle by (simp add: bcast_inv_def counted_def)
  obtain l where l: "bcast_mask n (rel_rank n root i) 1 = 2 ^ l" by (rule mask_ex)
  have edges: "tree_edge n root i k \<Longrightarrow> k < l" for k using l by (simp add: tree_edge_def)
  have "counted ?s' i \<and> bpc_ok n root i (pc ?s' i) \<and> chan ?s' = chan s \<and>
      (\<forall>k. tree_edge n root i k \<longrightarrow> bsent ?s' i k = bsent s i k) \<and> (i \<noteq> root \<longrightarrow> brcvd ?s' i = brcvd s i)"
  proof (cases "n = 1")
    case True
    then show ?thesis using cnt no_edge_single i root
      by (simp add: MPIR_Bcast_binomial_def counted_def coll_defs)
  next
    case n: False
    show ?thesis
    proof (cases "i = root")
      case True
      then have s': "?s' = bcast_forward n root i (2 ^ l div 2) (begin_call i s)"
        using n nbytes l mask_root [OF i root n] by (simp add: MPIR_Bcast_binomial_def Let_def)
      have le: "2 ^ l \<le> bcast_mask n (rel_rank n root i) 1" using l by simp
      note e = forward_effect [OF le, where s = "begin_call i s", folded s']
      have "begun ?s' i = Suc (begun s i)" by (rule Bcast_begun)
      then have "counted ?s' i" using e(4) cnt by (simp add: counted_def begin_call_def)
      moreover have "bsent ?s' i k = bsent s i k" if "tree_edge n root i k" for k
        using e(5) [OF that] edges [OF that] idle by (simp add: bsent_def begin_call_def)
      ultimately show ?thesis using e(1,2) True by (simp add: begin_call_def)
    next
      case False
      then have "2 ^ l < n" using mask_root [OF i root n] l by (simp add: not_le [symmetric])
      moreover from this have "?s' = goto_pc i (Recv (2 ^ l)) (begin_call i s)"
        using n nbytes l by (simp add: MPIR_Bcast_binomial_def Let_def)
      ultimately show ?thesis using cnt idle l by (simp add: counted_def bsent_def brcvd_def coll_defs)
    qed
  qed
  then show ?thesis by (intro bcast_inv_upd [OF inv i root Bcast_frame]) simp_all
qed

lemma bcast_inv_send:
  assumes inv: "bcast_inv n root s" and i: "i < n" and root: "root < n" and p: "pc s i = Send m"
  shows "bcast_inv n root (bcast_forward n root i (m div 2) (put_msg i (bcast_dst n i m) s))" (is "bcast_inv n root ?s'")
proof -
  have pc: "bpc_ok n root i (pc s i)" and cnt: "counted s i" using inv i by (simp_all add: bcast_inv_def)
  then obtain k where k: "m = 2 ^ k" "tree_edge n root i k" using p by auto
  then have le: "2 ^ k \<le> bcast_mask n (rel_rank n root i) 1" by (simp add: tree_edge_def)
  note e = forward_effect [OF le, where s = "put_msg i (bcast_dst n i m) s", folded k(1)]
  have frame: "only_proc i s ?s'" by (rule only_proc_trans [OF only_proc_msg(2) forward_frame])
  have same: "bcast_dst n i (2 ^ l) = bcast_dst n i m \<longleftrightarrow> l = k" if "tree_edge n root i l" for l
  proof
    assume "bcast_dst n i (2 ^ l) = bcast_dst n i m"
    then have "(2::nat) ^ l = 2 ^ k"
      using edge_child(4) [OF i root that] edge_child(4) [OF i root k(2)] unfolding k(1) by metis
    then show "l = k" by simp
  qed (simp add: k(1))
  have ch: "chan ?s' a b = chan s a b + of_bool (a = i \<and> b = bcast_dst n i m)" for a b
    unfolding e(2) by (simp add: put_msg_def)
  have snt: "bsent s i l = ended s i + of_bool (k < l)" for l using p by (simp add: bsent_def k(1))
  have ended: "ended (put_msg i (bcast_dst n i m) s) i = ended s i" by (simp add: put_msg_def)
  note child = edge_child(2) [OF i root k(2), folded k(1)]
  show ?thesis
  proof (rule bcast_inv_upd [OF inv i root frame _ e(1)])
    show "counted ?s' i" using e(4) cnt p by (simp add: counted_def forward_begun put_msg_def)
    show "chan ?s' i (bcast_dst n i (2 ^ l)) + bsent s i l = chan s i (bcast_dst n i (2 ^ l)) + bsent ?s' i l"
      if "tree_edge n root i l" for l
      using same [OF that] unfolding ch snt e(5) [OF that] ended by (simp add: of_bool_def)
    show "chan ?s' j i + brcvd ?s' i = chan s j i + brcvd s i" for j
      using e(3) p child ended by (simp add: ch brcvd_def)
    show "chan ?s' j l = chan s j l" if "j \<noteq> i" for j l using that by (simp add: ch)
  qed
qed

lemma bcast_inv_recv:
  assumes inv: "bcast_inv n root s" and i: "i < n" and root: "root < n" and p: "pc s i = Recv m"
    and msg: "chan s (bcast_src n i m) i > 0"
  shows "bcast_inv n root (bcast_forward n root i (m div 2) (take_msg (bcast_src n i m) i s))" (is "bcast_inv n root ?s'")
proof -
  have pc: "bpc_ok n root i (pc s i)" and cnt: "counted s i" using inv i by (simp_all add: bcast_inv_def)
  obtain k where "bcast_mask n (rel_rank n root i) 1 = 2 ^ k" by (rule mask_ex)
  then have k: "m = 2 ^ k" "bcast_mask n (rel_rank n root i) 1 = 2 ^ k" "2 ^ k < n" using pc p by auto
  have le: "2 ^ k \<le> bcast_mask n (rel_rank n root i) 1" using k(2) by simp
  note e = forward_effect [OF le, where s = "take_msg (bcast_src n i m) i s", folded k(1)]
  have frame: "only_proc i s ?s'" by (rule only_proc_trans [OF only_proc_msg(3) forward_frame])
  have edges: "l < k" if "tree_edge n root i l" for l using that k(2) by (simp add: tree_edge_def)
  have src: "bcast_src n i m \<noteq> i"
    using edge_parent(4) [OF i root k(2,3)] k(1) by auto
  have ch: "chan ?s' a b = chan s a b - of_bool (a = bcast_src n i m \<and> b = i)" for a b
    unfolding e(2) by (simp add: take_msg_def)
  have ended: "ended (take_msg (bcast_src n i m) i s) i = ended s i" by (simp add: take_msg_def)
  have snt: "bsent s i l = ended s i" for l using p by (simp add: bsent_def)
  have par: "j = bcast_src n i m" if "j < n" "tree_edge n root j l" "bcast_dst n j (2 ^ l) = i" for j l
    using edge_child(4,5) [OF that(1) root that(2)] that(3) k by simp
  show ?thesis
  proof (rule bcast_inv_upd [OF inv i root frame _ e(1)])
    show "counted ?s' i" using e(4) cnt p by (simp add: counted_def forward_begun take_msg_def)
    show "chan ?s' i (bcast_dst n i (2 ^ l)) + bsent s i l = chan s i (bcast_dst n i (2 ^ l)) + bsent ?s' i l"
      if "tree_edge n root i l" for l
      using edges [OF that] src unfolding ch snt e(5) [OF that] ended by simp
    show "chan ?s' j i + brcvd ?s' i = chan s j i + brcvd s i"
      if "j < n" "tree_edge n root j l" "bcast_dst n j (2 ^ l) = i" for j l
      using e(3) p msg par [OF that] ended by (simp add: ch brcvd_def)
    show "chan ?s' j l = chan s j l" if "l \<noteq> i" for j l using that by (simp add: ch)
  qed
qed

lemma bcast_reach_inv:
  assumes "root < n" "0 < nbytes"
  shows "bcast_reach nbytes n root s \<Longrightarrow> bcast_inv n root s"
proof (induction rule: coll_reach.induct)
  case init
  then show ?case by (rule bcast_inv_init)
next
  case (call s i)
  then show ?case using bcast_inv_enter assms by blast
next
  case (step s i s')
  from step(3) show ?case
    using bcast_inv_send [OF step(4,2) assms(1)] bcast_inv_recv [OF step(4,2) assms(1)]
    by (cases rule: bcast_step_cases) auto
qed

subsection \<open>Nobody overtakes the root, and the broadcast does not get stuck\<close>

lemma bsent_le_brcvd: "bsent s i k \<le> brcvd s i"
  by (cases "pc s i") (simp_all add: bsent_def brcvd_def of_bool_def)

lemma brcvd_le_begun: "counted s i \<Longrightarrow> brcvd s i \<le> begun s i"
  by (cases "pc s i") (simp_all add: counted_def brcvd_def)

lemma brcvd_le_parent:
  assumes inv: "bcast_inv n root s" and j: "j < n" and root: "root < n"
    and k: "bcast_mask n (rel_rank n root j) 1 = 2 ^ k" "2 ^ k < n"
  shows "chan s (bcast_src n j (2 ^ k)) j + brcvd s j = bsent s (bcast_src n j (2 ^ k)) k"
proof -
  note e = edge_parent [OF j root k]
  show ?thesis using inv e(1,2) e(3) unfolding bcast_inv_def by metis
qed

lemma mask_cases:
  assumes "j < n" "root < n" "j \<noteq> root"
  obtains k where "bcast_mask n (rel_rank n root j) 1 = 2 ^ k" "2 ^ k < n"
proof -
  have n: "n \<noteq> 1" using assms by auto
  obtain k where k: "bcast_mask n (rel_rank n root j) 1 = 2 ^ k" by (rule mask_ex)
  have "\<not> n \<le> 2 ^ k" using mask_root [OF assms(1,2) n] assms(3) k by simp
  then show ?thesis using that k by simp
qed

lemma brcvd_le_root:
  assumes inv: "bcast_inv n root s" and root: "root < n"
  shows "j < n \<Longrightarrow> brcvd s j \<le> begun s root"
proof (induction "rel_rank n root j" arbitrary: j rule: less_induct)
  case less
  show ?case
  proof (cases "j = root")
    case True
    then show ?thesis using inv root brcvd_le_begun by (simp add: bcast_inv_def)
  next
    case False
    then obtain k where k: "bcast_mask n (rel_rank n root j) 1 = 2 ^ k" "2 ^ k < n"
      using mask_cases [OF less.prems root] by blast
    note e = edge_parent [OF less.prems root k]
    have "brcvd s j \<le> brcvd s (bcast_src n j (2 ^ k))"
      using brcvd_le_parent [OF inv less.prems root k] bsent_le_brcvd [of s "bcast_src n j (2 ^ k)" k] by linarith
    then show ?thesis using less.hyps [OF e(4,1)] by linarith
  qed
qed

lemma bstuck_recv:
  assumes "bcast_step n root i s = None" "pc s i \<noteq> Idle"
  obtains m where "pc s i = Recv m" "chan s (bcast_src n i m) i = 0"
  using assms that by (auto simp: bcast_step_def Let_def split: coll_pc.splits if_splits)

lemma bcast_inv_progress:
  assumes inv: "bcast_inv n root s" and root: "root < n" and i: "i < n" and busy: "pc s i \<noteq> Idle"
    and all: "\<And>j. j < n \<Longrightarrow> begun s i \<le> begun s j"
  shows "\<exists>j<n. bcast_step n root j s \<noteq> None"
proof (rule ccontr)
  assume "\<not> ?thesis"
  then have stuck: "bcast_step n root j s = None" if "j < n" for j using that by auto
  define late where "late j \<longleftrightarrow> j < n \<and> ended s j < begun s i" for j
  have cnt: "counted s j" if "j < n" for j using inv that by (simp add: bcast_inv_def)
  have "late i" using cnt [OF i] i busy by (simp add: late_def counted_def)
  then obtain j where j: "late j" and least: "\<And>l. late l \<Longrightarrow> rel_rank n root j \<le> rel_rank n root l"
    using ex_has_least_nat [of late i "rel_rank n root"] by auto
  have jn: "j < n" using j by (simp add: late_def)
  have "pc s j \<noteq> Idle" using j cnt [OF jn] all [OF jn] by (auto simp: late_def counted_def)
  then obtain m where m: "pc s j = Recv m" "chan s (bcast_src n j m) j = 0"
    using bstuck_recv [OF stuck [OF jn]] by blast
  have "bpc_ok n root j (Recv m)" using inv jn m(1) by (metis bcast_inv_def)
  moreover obtain k where "bcast_mask n (rel_rank n root j) 1 = 2 ^ k" by (rule mask_ex)
  ultimately have k: "bcast_mask n (rel_rank n root j) 1 = 2 ^ k" "2 ^ k < n" "m = 2 ^ k" by auto
  note e = edge_parent [OF jn root k(1,2)]
  have "brcvd s j = bsent s (bcast_src n j (2 ^ k)) k"
    using brcvd_le_parent [OF inv jn root k(1,2)] m(2) k(3) by simp
  then have "ended s (bcast_src n j (2 ^ k)) \<le> ended s j" using m(1) by (simp add: bsent_def brcvd_def)
  then have "late (bcast_src n j (2 ^ k))" using j e(1) by (simp add: late_def)
  then show False using least e(4) leD by blast
qed

interpretation binomial: collective n "MPIR_Bcast_binomial (Suc b) n 0" "bcast_step n 0" "\<lambda>_ j. j = 0" for b n
proof unfold_locales
  have r: "bcast_inv n 0 s" if "bcast_reach (Suc b) n 0 s" "i < n" for s i
    using bcast_reach_inv [OF _ zero_less_Suc that(1)] that(2) by simp
  show "only_proc i s (MPIR_Bcast_binomial (Suc b) n 0 i s)" for i s by (rule Bcast_frame)
  show "begun (MPIR_Bcast_binomial (Suc b) n 0 i s) i = Suc (begun s i)" for i s by (rule Bcast_begun)
  show "bcast_step n 0 i s = Some s' \<Longrightarrow> only_proc i s s'" for i s s' by (rule bcast_step_frame)
  show "bcast_step n 0 i s = Some s' \<Longrightarrow> begun s' i = begun s i" for i s s' by (rule bcast_step_begun)
  show "pc s i = Idle \<Longrightarrow> bcast_step n 0 i s = None" for i s by (simp add: bcast_step_def)
  show "bcast_reach (Suc b) n 0 s \<Longrightarrow> i < n \<Longrightarrow> counted s i" for i s
    using r by (simp add: bcast_inv_def)
  show "ended s i \<le> begun s j" if "bcast_reach (Suc b) n 0 s" "i < n" "j < n" "j = 0" for i j s
    using brcvd_le_root [OF r [OF that(1,2)], of i] that by (simp add: brcvd_def)
  show "\<exists>j<n. bcast_step n 0 j s \<noteq> None"
    if "bcast_reach (Suc b) n 0 s" "i < n" "pc s i \<noteq> Idle" "\<And>j. j < n \<Longrightarrow> begun s i \<le> begun s j" for i s
    using bcast_inv_progress [OF r [OF that(1,2)] _ that(2-4)] that(2) by simp
qed

end
