(* ===== verification/Smp_Barrier.thy ===== *)
theory Smp_Barrier
  imports Comm_Share Coll_Barrier Coll_Bcast
begin

section \<open>The hierarchical barrier (\<^verbatim>\<open>barrier.c\<close>, \<^verbatim>\<open>barrier_smp_intra\<close>)\<close>

text \<open>
  A node-aware communicator has three levels: the processes that live in one operating-system
  process (\<^verbatim>\<open>osproc_colocated_comm\<close>), the first of each of these on a node (\<^verbatim>\<open>node_comm\<close>) and
  the first of each node (\<^verbatim>\<open>node_roots_comm\<close>).  Co-located processes do not send messages to
  each other: they count themselves in the shared \<^verbatim>\<open>coproclet_barrier_vars\<close> and poll, yielding to
  the scheduler, until their leader has gone through the barriers of the upper levels and flips
  \<^verbatim>\<open>coproclet_signal\<close>.  The upper levels are the dissemination barrier on \<^verbatim>\<open>node_comm\<close> and
  \<^verbatim>\<open>node_roots_comm\<close> and a broadcast of one byte on \<^verbatim>\<open>node_comm\<close>.

  The coroutines of a process switch only where they yield, so a step of the model is the code
  between two yields.  A layout gives, node by node, the number of processes of the communicator
  in each operating-system process; a process is named by its node, its operating-system process
  on the node and its rank in the latter.  Return codes are left out: the code records them and
  goes on.
\<close>

type_synonym layout = "nat list list"

datatype smp_pc = Outside | Member int | Leader | In_node | In_roots | In_bcast

record smp =
  bvars :: "nat \<Rightarrow> nat \<Rightarrow> coproclet_barrier_vars"
  spc :: "nat \<Rightarrow> nat \<Rightarrow> nat \<Rightarrow> smp_pc"
  node_bar :: "nat \<Rightarrow> coll"
  roots_bar :: coll
  node_bc :: "nat \<Rightarrow> coll"
  entered :: "nat \<Rightarrow> nat \<Rightarrow> nat \<Rightarrow> nat"
  left :: "nat \<Rightarrow> nat \<Rightarrow> nat \<Rightarrow> nat"

subsection \<open>The communicators of a process\<close>

definition has_colocated :: "layout \<Rightarrow> nat \<Rightarrow> nat \<Rightarrow> bool" where
  "has_colocated L n i \<longleftrightarrow> L ! n ! i > 1"

definition has_node_comm :: "layout \<Rightarrow> nat \<Rightarrow> bool" where
  "has_node_comm L n \<longleftrightarrow> length (L ! n) > 1"

definition has_node_roots :: "layout \<Rightarrow> nat \<Rightarrow> bool" where
  "has_node_roots L i \<longleftrightarrow> length L > 1 \<and> i = 0"

definition upd3 :: "(nat \<Rightarrow> nat \<Rightarrow> nat \<Rightarrow> 'a) \<Rightarrow> nat \<Rightarrow> nat \<Rightarrow> nat \<Rightarrow> 'a \<Rightarrow> nat \<Rightarrow> nat \<Rightarrow> nat \<Rightarrow> 'a" where
  "upd3 f n i r v = f(n := (f n)(i := (f n i)(r := v)))"

definition set_spc :: "nat \<Rightarrow> nat \<Rightarrow> nat \<Rightarrow> smp_pc \<Rightarrow> smp \<Rightarrow> smp" where
  "set_spc n i r p s = s\<lparr>spc := upd3 (spc s) n i r p\<rparr>"

definition set_bvars :: "nat \<Rightarrow> nat \<Rightarrow> coproclet_barrier_vars \<Rightarrow> smp \<Rightarrow> smp" where
  "set_bvars n i v s = s\<lparr>bvars := (bvars s)(n := (bvars s n)(i := v))\<rparr>"

definition smp_leave :: "nat \<Rightarrow> nat \<Rightarrow> nat \<Rightarrow> smp \<Rightarrow> smp" where
  "smp_leave n i r s = (set_spc n i r Outside s)\<lparr>left := upd3 (left s) n i r (Suc (left s n i r))\<rparr>"

subsection \<open>The phases of a leader\<close>

definition release_members :: "layout \<Rightarrow> nat \<Rightarrow> nat \<Rightarrow> smp \<Rightarrow> smp" where
  "release_members L n i s =
     smp_leave n i 0
       (if has_colocated L n i then
          let v = bvars s n i in
          set_bvars n i (v\<lparr>leader_signal := 0, coproclet_counter := 0,
                           coproclet_signal := 1 - coproclet_signal v\<rparr>) s
        else s)"

definition bcast_phase :: "layout \<Rightarrow> nat \<Rightarrow> nat \<Rightarrow> smp \<Rightarrow> smp" where
  "bcast_phase L n i s =
     (if has_node_comm L n then
        let c = MPIR_Bcast_binomial (Suc 0) (length (L ! n)) 0 i (node_bc s n);
            s1 = s\<lparr>node_bc := (node_bc s)(n := c)\<rparr>
        in if pc c i = Idle then release_members L n i s1 else set_spc n i 0 In_bcast s1
      else release_members L n i s)"

definition roots_phase :: "layout \<Rightarrow> nat \<Rightarrow> nat \<Rightarrow> smp \<Rightarrow> smp" where
  "roots_phase L n i s =
     (if has_node_roots L i then
        let c = MPIR_Barrier_intra (length L) n (roots_bar s); s1 = s\<lparr>roots_bar := c\<rparr>
        in if pc c n = Idle then bcast_phase L n i s1 else set_spc n i 0 In_roots s1
      else bcast_phase L n i s)"

definition node_phase :: "layout \<Rightarrow> nat \<Rightarrow> nat \<Rightarrow> smp \<Rightarrow> smp" where
  "node_phase L n i s =
     (if has_node_comm L n then
        let c = MPIR_Barrier_intra (length (L ! n)) i (node_bar s n);
            s1 = s\<lparr>node_bar := (node_bar s)(n := c)\<rparr>
        in if pc c i = Idle then roots_phase L n i s1 else set_spc n i 0 In_node s1
      else roots_phase L n i s)"

subsection \<open>Entering, and the steps inside\<close>

definition barrier_smp_intra :: "layout \<Rightarrow> nat \<Rightarrow> nat \<Rightarrow> nat \<Rightarrow> smp \<Rightarrow> smp" where
  "barrier_smp_intra L n i r s0 =
     (let s = s0\<lparr>entered := upd3 (entered s0) n i r (Suc (entered s0 n i r))\<rparr>; v = bvars s n i in
      if has_colocated L n i then
        if r \<noteq> 0 then
          let v1 = v\<lparr>coproclet_counter := coproclet_counter v + 1\<rparr>;
              v2 = (if coproclet_counter v1 = int (L ! n ! i) - 1 then v1\<lparr>leader_signal := 1\<rparr> else v1)
          in set_spc n i r (Member (coproclet_signal v)) (set_bvars n i v2 s)
        else if leader_signal v = 0 then set_spc n i 0 Leader s
        else node_phase L n i s
      else node_phase L n i s)"

text \<open>\<open>None\<close>: the process yields, or waits for a message, and nothing has changed.\<close>

definition smp_step :: "layout \<Rightarrow> nat \<Rightarrow> nat \<Rightarrow> nat \<Rightarrow> smp \<Rightarrow> smp option" where
  "smp_step L n i r s =
     (case spc s n i r of
        Outside \<Rightarrow> None
      | Member sense \<Rightarrow>
          if coproclet_signal (bvars s n i) = sense then None else Some (smp_leave n i r s)
      | Leader \<Rightarrow> if leader_signal (bvars s n i) = 0 then None else Some (node_phase L n i s)
      | In_node \<Rightarrow>
          (case barrier_step (length (L ! n)) i (node_bar s n) of
             None \<Rightarrow> None
           | Some c \<Rightarrow>
               let s1 = s\<lparr>node_bar := (node_bar s)(n := c)\<rparr>
               in Some (if pc c i = Idle then roots_phase L n i s1 else s1))
      | In_roots \<Rightarrow>
          (case barrier_step (length L) n (roots_bar s) of
             None \<Rightarrow> None
           | Some c \<Rightarrow>
               let s1 = s\<lparr>roots_bar := c\<rparr>
               in Some (if pc c n = Idle then bcast_phase L n i s1 else s1))
      | In_bcast \<Rightarrow>
          (case bcast_step (length (L ! n)) 0 i (node_bc s n) of
             None \<Rightarrow> None
           | Some c \<Rightarrow>
               let s1 = s\<lparr>node_bc := (node_bc s)(n := c)\<rparr>
               in Some (if pc c i = Idle then release_members L n i s1 else s1)))"

definition is_proc :: "layout \<Rightarrow> nat \<Rightarrow> nat \<Rightarrow> nat \<Rightarrow> bool" where
  "is_proc L n i r \<longleftrightarrow> n < length L \<and> i < length (L ! n) \<and> r < L ! n ! i"

definition zero_bvars :: coproclet_barrier_vars where
  "zero_bvars = \<lparr>coproclet_signal = 0, leader_signal = 0, coproclet_counter = 0\<rparr>"

definition smp_init :: smp where
  "smp_init = \<lparr>bvars = (\<lambda>_ _. zero_bvars), spc = (\<lambda>_ _ _. Outside), node_bar = (\<lambda>_. coll_init),
     roots_bar = coll_init, node_bc = (\<lambda>_. coll_init), entered = (\<lambda>_ _ _. 0), left = (\<lambda>_ _ _. 0)\<rparr>"

inductive smp_reach :: "layout \<Rightarrow> smp \<Rightarrow> bool" for L where
  init: "smp_reach L smp_init"
| call: "smp_reach L s \<Longrightarrow> is_proc L n i r \<Longrightarrow> spc s n i r = Outside \<Longrightarrow> smp_reach L (barrier_smp_intra L n i r s)"
| step: "smp_reach L s \<Longrightarrow> is_proc L n i r \<Longrightarrow> smp_step L n i r s = Some s' \<Longrightarrow> smp_reach L s'"

subsection \<open>The state of a leader and its members\<close>

fun phase :: "smp_pc \<Rightarrow> nat" where
  "phase Outside = 0"
| "phase (Member k) = 0"
| "phase Leader = 1"
| "phase In_node = 2"
| "phase In_roots = 3"
| "phase In_bcast = 4"

text \<open>
  \<open>E\<close> calls are over for the leader.  A member is outside with them all behind it, is in the
  next call, or has not yet seen that its last call is over.
\<close>

definition member_ok :: "nat \<Rightarrow> smp_pc \<Rightarrow> nat \<Rightarrow> nat \<Rightarrow> bool" where
  "member_ok E p en le \<longleftrightarrow>
     (p = Outside \<and> en = E \<and> le = E) \<or>
     (p = Member (int (E mod 2)) \<and> en = Suc E \<and> le = E) \<or>
     (p = Member (1 - int (E mod 2)) \<and> en = E \<and> Suc le = E)"

definition hwp_ok ::
  "nat \<Rightarrow> coproclet_barrier_vars \<Rightarrow> nat \<Rightarrow> (nat \<Rightarrow> smp_pc) \<Rightarrow> (nat \<Rightarrow> nat) \<Rightarrow> (nat \<Rightarrow> nat) \<Rightarrow> bool" where
  "hwp_ok c v ph sp en le \<longleftrightarrow>
     en 0 = le 0 + of_bool (0 < ph) \<and>
     (1 < c \<longrightarrow>
        coproclet_signal v = int (le 0 mod 2) \<and>
        coproclet_counter v = int (card {r \<in> {1..<c}. en r = Suc (le 0)}) \<and>
        leader_signal v = of_bool (\<forall>r\<in>{1..<c}. en r = Suc (le 0)) \<and>
        (2 \<le> ph \<longrightarrow> (\<forall>r\<in>{1..<c}. en r = Suc (le 0))) \<and>
        (\<forall>r\<in>{1..<c}. member_ok (le 0) (sp r) (en r) (le r)))"

text \<open>
  The counts of a leader in the collective of phase \<open>k\<close> when it is in phase \<open>ph\<close>, or, with
  \<open>bz\<close> false, between \<open>ph\<close> and the next.
\<close>

definition sub_ok :: "bool \<Rightarrow> coll \<Rightarrow> nat \<Rightarrow> nat \<Rightarrow> nat \<Rightarrow> bool \<Rightarrow> nat \<Rightarrow> bool" where
  "sub_ok present c j E ph bz k \<longleftrightarrow>
     (if present then begun c j = E + of_bool (k \<le> ph) \<and> (pc c j \<noteq> Idle \<longleftrightarrow> ph = k \<and> bz)
      else \<not> (ph = k \<and> bz))"

definition leader_ok :: "layout \<Rightarrow> smp \<Rightarrow> nat \<Rightarrow> nat \<Rightarrow> nat \<Rightarrow> bool \<Rightarrow> bool" where
  "leader_ok L s n i ph bz \<longleftrightarrow>
     hwp_ok (L ! n ! i) (bvars s n i) ph (spc s n i) (entered s n i) (left s n i) \<and>
     sub_ok (has_node_comm L n) (node_bar s n) i (left s n i 0) ph bz 2 \<and>
     sub_ok (has_node_roots L i) (roots_bar s) n (left s n i 0) ph bz 3 \<and>
     sub_ok (has_node_comm L n) (node_bc s n) i (left s n i 0) ph bz 4"

definition leader_norm :: "layout \<Rightarrow> smp \<Rightarrow> nat \<Rightarrow> nat \<Rightarrow> bool" where
  "leader_norm L s n i \<longleftrightarrow>
     leader_ok L s n i (phase (spc s n i 0)) True \<and>
     (\<forall>k. spc s n i 0 \<noteq> Member k) \<and> (spc s n i 0 = Leader \<longrightarrow> has_colocated L n i)"

definition subs_reach :: "layout \<Rightarrow> smp \<Rightarrow> bool" where
  "subs_reach L s \<longleftrightarrow>
     (\<forall>n<length L. barrier_reach (length (L ! n)) (node_bar s n) \<and>
                   bcast_reach (Suc 0) (length (L ! n)) 0 (node_bc s n)) \<and>
     barrier_reach (length L) (roots_bar s)"

definition others_ok :: "layout \<Rightarrow> nat \<Rightarrow> nat \<Rightarrow> smp \<Rightarrow> bool" where
  "others_ok L n i s \<longleftrightarrow>
     subs_reach L s \<and>
     (\<forall>n'<length L. \<forall>i'<length (L ! n'). (n', i') \<noteq> (n, i) \<longrightarrow> leader_norm L s n' i')"

definition smp_inv :: "layout \<Rightarrow> smp \<Rightarrow> bool" where
  "smp_inv L s \<longleftrightarrow> subs_reach L s \<and> (\<forall>n<length L. \<forall>i<length (L ! n). leader_norm L s n i)"

lemma smp_inv_split:
  assumes "n < length L" "i < length (L ! n)"
  shows "smp_inv L s \<longleftrightarrow> others_ok L n i s \<and> leader_norm L s n i"
  using assms unfolding smp_inv_def others_ok_def by auto

subsection \<open>What a step of one process leaves alone\<close>

lemma upd3_simps [simp]:
  "upd3 f n i r v n i r = v"
  "(n', i') \<noteq> (n, i) \<Longrightarrow> upd3 f n i r v n' i' = f n' i'"
  "r' \<noteq> r \<Longrightarrow> upd3 f n i r v n i r' = f n i r'"
  "upd3 f n i r v n i = (f n i)(r := v)"
  by (auto simp: upd3_def)

definition smp_frame :: "nat \<Rightarrow> nat \<Rightarrow> smp \<Rightarrow> smp \<Rightarrow> bool" where
  "smp_frame n i s s' \<longleftrightarrow>
     (\<forall>n' i'. (n', i') \<noteq> (n, i) \<longrightarrow>
        bvars s' n' i' = bvars s n' i' \<and> spc s' n' i' = spc s n' i' \<and>
        entered s' n' i' = entered s n' i' \<and> left s' n' i' = left s n' i') \<and>
     (\<forall>n'. n' \<noteq> n \<longrightarrow> node_bar s' n' = node_bar s n' \<and> node_bc s' n' = node_bc s n') \<and>
     only_proc i (node_bar s n) (node_bar s' n) \<and> only_proc i (node_bc s n) (node_bc s' n) \<and>
     only_proc n (roots_bar s) (roots_bar s') \<and> (i \<noteq> 0 \<longrightarrow> roots_bar s' = roots_bar s)"

lemma only_proc_refl [simp]: "only_proc i s s"
  by (simp add: only_proc_def)

lemma frame_leader_norm:
  assumes fr: "smp_frame n i s s'" and ne: "(n', i') \<noteq> (n, i)"
  shows "leader_norm L s' n' i' = leader_norm L s n' i'"
proof -
  have v: "bvars s' n' i' = bvars s n' i'" "spc s' n' i' = spc s n' i'"
    "entered s' n' i' = entered s n' i'" "left s' n' i' = left s n' i'"
    using fr ne unfolding smp_frame_def by blast+
  have nb: "begun (node_bar s' n') i' = begun (node_bar s n') i'" "pc (node_bar s' n') i' = pc (node_bar s n') i'"
    "begun (node_bc s' n') i' = begun (node_bc s n') i'" "pc (node_bc s' n') i' = pc (node_bc s n') i'"
    using fr ne unfolding smp_frame_def only_proc_def by (cases "n' = n"; simp)+
  have rb: "begun (roots_bar s') n' = begun (roots_bar s) n' \<and> pc (roots_bar s') n' = pc (roots_bar s) n'"
    if "has_node_roots L i'"
    using fr ne that unfolding smp_frame_def only_proc_def has_node_roots_def by (cases "n' = n") auto
  show ?thesis unfolding leader_norm_def leader_ok_def v sub_ok_def nb using rb by auto
qed

lemma others_ok_frame:
  assumes "others_ok L n i s" "smp_frame n i s s'" "subs_reach L s'"
  shows "others_ok L n i s'"
  using assms(1,3) frame_leader_norm [OF assms(2)] unfolding others_ok_def by blast

text \<open>Changes to the co-located part only.\<close>

definition hwp_only :: "nat \<Rightarrow> nat \<Rightarrow> smp \<Rightarrow> smp \<Rightarrow> bool" where
  "hwp_only n i s s' \<longleftrightarrow>
     (\<forall>n' i'. (n', i') \<noteq> (n, i) \<longrightarrow>
        bvars s' n' i' = bvars s n' i' \<and> spc s' n' i' = spc s n' i' \<and>
        entered s' n' i' = entered s n' i' \<and> left s' n' i' = left s n' i') \<and>
     node_bar s' = node_bar s \<and> node_bc s' = node_bc s \<and> roots_bar s' = roots_bar s"

lemma hwp_only_others:
  assumes "others_ok L n i s" "hwp_only n i s s'"
  shows "others_ok L n i s'"
proof (rule others_ok_frame [OF assms(1)])
  show "smp_frame n i s s'" using assms(2) by (simp add: hwp_only_def smp_frame_def)
  show "subs_reach L s'" using assms by (simp add: hwp_only_def others_ok_def subs_reach_def)
qed

lemma hwp_only_simps [simp]:
  "hwp_only n i s (set_spc n i r p s)" "hwp_only n i s (set_bvars n i v s)" "hwp_only n i s (smp_leave n i r s)"
  "hwp_only n i s (s\<lparr>entered := upd3 (entered s) n i r e\<rparr>)"
  by (simp_all add: hwp_only_def set_spc_def set_bvars_def smp_leave_def)

lemma hwp_only_trans: "hwp_only n i s s' \<Longrightarrow> hwp_only n i s' s'' \<Longrightarrow> hwp_only n i s s''"
  by (simp add: hwp_only_def)

lemma hwp_only_release: "hwp_only n i s (release_members L n i s)"
  unfolding release_members_def Let_def
  by (cases "has_colocated L n i") (auto intro: hwp_only_trans [OF hwp_only_simps(2) hwp_only_simps(3)])

subsection \<open>The phases keep the invariant\<close>

lemma hwp_ok_release:
  assumes "hwp_ok c v 4 sp en le" and sp: "\<And>r. r \<noteq> 0 \<Longrightarrow> sp' r = sp r"
  shows "hwp_ok c (if 1 < c then v\<lparr>leader_signal := 0, coproclet_counter := 0, coproclet_signal := 1 - coproclet_signal v\<rparr> else v)
    0 sp' en (le(0 := Suc (le 0)))"
proof -
  have en0: "en 0 = Suc (le 0)" using assms(1) by (simp add: hwp_ok_def)
  show ?thesis
  proof (cases "1 < c")
    case True
    have "\<forall>r\<in>{1..<c}. en r = Suc (le 0)" using assms(1) True by (simp add: hwp_ok_def)
    moreover have "\<forall>r\<in>{1..<c}. member_ok (le 0) (sp r) (en r) (le r)"
      using assms(1) True unfolding hwp_ok_def by blast
    ultimately have all: "en r = Suc (le 0)" "member_ok (le 0) (sp r) (en r) (le r)" if "r \<in> {1..<c}" for r
      using that by blast+
    have sig: "coproclet_signal v = int (le 0 mod 2)" using assms(1) True by (simp add: hwp_ok_def)
    have flip: "1 - int (e mod 2) = int (Suc e mod 2)" for e by (simp add: mod_Suc)
    have flip': "1 - int (Suc e mod 2) = int (e mod 2)" for e by (simp add: mod_Suc)
    have mem: "member_ok (Suc (le 0)) (sp' r) (en r) (le r)" if "r \<in> {1..<c}" for r
    proof -
      have "sp r = Member (int (le 0 mod 2))" "le r = le 0" using all [OF that] by (auto simp: member_ok_def)
      then show ?thesis using all(1) [OF that] sp [of r] that flip' [of "le 0"]
        by (simp add: member_ok_def)
    qed
    have none: "{r \<in> {1..<c}. en r = Suc (Suc (le 0))} = {}" using all(1) by auto
    have not: "\<not> (\<forall>r\<in>{1..<c}. en r = Suc (Suc (le 0)))" using all(1) [of 1] True by (auto intro!: bexI [of _ 1])
    show ?thesis using True en0 sig flip [of "le 0"] mem none not by (simp add: hwp_ok_def)
  next
    case False
    then show ?thesis using en0 by (simp add: hwp_ok_def)
  qed
qed

lemma sub_ok_release: "sub_ok p c j E 4 False k \<Longrightarrow> k \<in> {2, 3, 4} \<Longrightarrow> sub_ok p c j (Suc E) 0 True k"
  by (auto simp: sub_ok_def)

lemma release_ok:
  assumes ni: "n < length L" "i < length (L ! n)"
    and oth: "others_ok L n i s" and own: "leader_ok L s n i 4 False"
  shows "smp_inv L (release_members L n i s)" (is "smp_inv L ?s'")
proof -
  have o: "others_ok L n i ?s'" by (rule hwp_only_others [OF oth hwp_only_release])
  have f: "spc ?s' n i = (spc s n i)(0 := Outside)" "left ?s' n i = (left s n i)(0 := Suc (left s n i 0))"
    "entered ?s' n i = entered s n i" "node_bar ?s' = node_bar s" "node_bc ?s' = node_bc s" "roots_bar ?s' = roots_bar s"
    "bvars ?s' n i = (if 1 < L ! n ! i then (bvars s n i)\<lparr>leader_signal := 0, coproclet_counter := 0,
       coproclet_signal := 1 - coproclet_signal (bvars s n i)\<rparr> else bvars s n i)"
    by (simp_all add: release_members_def has_colocated_def Let_def set_spc_def set_bvars_def smp_leave_def)
  have "hwp_ok (L ! n ! i) (bvars ?s' n i) 0 (spc ?s' n i) (entered ?s' n i) (left ?s' n i)"
    unfolding f by (rule hwp_ok_release [of _ _ "spc s n i"]) (use own in \<open>simp_all add: leader_ok_def\<close>)
  then have "leader_norm L ?s' n i"
    using own unfolding leader_norm_def leader_ok_def by (auto simp: f intro!: sub_ok_release)
  then show ?thesis using o smp_inv_split [OF ni] by blast
qed

lemma hwp_ok_cong: "(\<And>r. r \<noteq> 0 \<Longrightarrow> sp' r = sp r) \<Longrightarrow> hwp_ok c v ph sp' en le = hwp_ok c v ph sp en le"
  by (auto simp: hwp_ok_def)

lemma hwp_ok_phase: "hwp_ok c v ph sp en le \<Longrightarrow> 2 \<le> ph \<Longrightarrow> 2 \<le> ph' \<Longrightarrow> hwp_ok c v ph' sp en le"
  unfolding hwp_ok_def by auto

lemma settle_ok:
  assumes ni: "n < length L" "i < length (L ! n)"
    and oth: "others_ok L n i s" and own: "leader_ok L s n i (phase p) True" and p: "p \<in> {In_node, In_roots, In_bcast}"
  shows "smp_inv L (set_spc n i 0 p s)"
proof -
  have o: "others_ok L n i (set_spc n i 0 p s)" by (rule hwp_only_others [OF oth]) simp
  have "hwp_ok c v ph ((spc s n i)(0 := p)) en le = hwp_ok c v ph (spc s n i) en le" for c v ph en le
    by (rule hwp_ok_cong) simp
  then have "leader_norm L (set_spc n i 0 p s) n i"
    using own p by (auto simp: leader_norm_def leader_ok_def set_spc_def)
  then show ?thesis using o smp_inv_split [OF ni] by blast
qed

text \<open>Replacing one of the collectives by its next state for process \<open>i\<close> (or \<open>n\<close>).\<close>

lemma others_node_bc:
  assumes "others_ok L n i s" "only_proc i (node_bc s n) c" "n < length L \<Longrightarrow> bcast_reach (Suc 0) (length (L ! n)) 0 c"
  shows "others_ok L n i (s\<lparr>node_bc := (node_bc s)(n := c)\<rparr>)"
  by (rule others_ok_frame [OF assms(1)]) (use assms in \<open>simp_all add: smp_frame_def others_ok_def subs_reach_def\<close>)

lemma others_node_bar:
  assumes "others_ok L n i s" "only_proc i (node_bar s n) c" "n < length L \<Longrightarrow> barrier_reach (length (L ! n)) c"
  shows "others_ok L n i (s\<lparr>node_bar := (node_bar s)(n := c)\<rparr>)"
  by (rule others_ok_frame [OF assms(1)]) (use assms in \<open>simp_all add: smp_frame_def others_ok_def subs_reach_def\<close>)

lemma others_roots_bar:
  assumes "others_ok L n i s" "only_proc n (roots_bar s) c" "barrier_reach (length L) c" "i = 0"
  shows "others_ok L n i (s\<lparr>roots_bar := c\<rparr>)"
  by (rule others_ok_frame [OF assms(1)]) (use assms in \<open>simp_all add: smp_frame_def others_ok_def subs_reach_def\<close>)

lemma others_reach:
  assumes "others_ok L n i s"
  shows "n < length L \<Longrightarrow> barrier_reach (length (L ! n)) (node_bar s n)"
    "n < length L \<Longrightarrow> bcast_reach (Suc 0) (length (L ! n)) 0 (node_bc s n)"
    "barrier_reach (length L) (roots_bar s)"
  using assms by (simp_all add: others_ok_def subs_reach_def)

lemma bcast_phase_ok:
  assumes ni: "n < length L" "i < length (L ! n)"
    and oth: "others_ok L n i s" and own: "leader_ok L s n i 3 False"
  shows "smp_inv L (bcast_phase L n i s)"
proof (cases "has_node_comm L n")
  case True
  let ?c = "MPIR_Bcast_binomial (Suc 0) (length (L ! n)) 0 i (node_bc s n)"
  let ?s1 = "s\<lparr>node_bc := (node_bc s)(n := ?c)\<rparr>"
  have idle: "pc (node_bc s n) i = Idle" using own True by (simp add: leader_ok_def sub_ok_def)
  have o: "others_ok L n i ?s1"
    by (rule others_node_bc [OF oth Bcast_frame]) (rule coll_reach.call [OF others_reach(2) [OF oth ni(1)] ni(2) idle])
  have "hwp_ok (L ! n ! i) (bvars s n i) 4 (spc s n i) (entered s n i) (left s n i)"
    by (rule hwp_ok_phase [of _ _ 3]) (use own in \<open>simp_all add: leader_ok_def\<close>)
  then have l: "leader_ok L ?s1 n i 4 (pc ?c i \<noteq> Idle)"
    using own True by (auto simp: leader_ok_def sub_ok_def Bcast_begun)
  show ?thesis
    using True l release_ok [OF ni o] settle_ok [OF ni o, of In_bcast] by (cases "pc ?c i = Idle") (simp_all add: bcast_phase_def Let_def)
next
  case False
  have "hwp_ok (L ! n ! i) (bvars s n i) 4 (spc s n i) (entered s n i) (left s n i)"
    by (rule hwp_ok_phase [of _ _ 3]) (use own in \<open>simp_all add: leader_ok_def\<close>)
  then have "leader_ok L s n i 4 False" using own False by (auto simp: leader_ok_def sub_ok_def)
  then show ?thesis using False release_ok [OF ni oth] by (simp add: bcast_phase_def)
qed

lemma roots_phase_ok:
  assumes ni: "n < length L" "i < length (L ! n)"
    and oth: "others_ok L n i s" and own: "leader_ok L s n i 2 False"
  shows "smp_inv L (roots_phase L n i s)"
proof (cases "has_node_roots L i")
  case True
  let ?c = "MPIR_Barrier_intra (length L) n (roots_bar s)"
  let ?s1 = "s\<lparr>roots_bar := ?c\<rparr>"
  have idle: "pc (roots_bar s) n = Idle" using own True by (simp add: leader_ok_def sub_ok_def)
  have i0: "i = 0" using True by (simp add: has_node_roots_def)
  have o: "others_ok L n i ?s1"
    by (rule others_roots_bar [OF oth Barrier_intra_frame coll_reach.call [OF others_reach(3) [OF oth] ni(1) idle] i0])
  have "hwp_ok (L ! n ! i) (bvars s n i) 3 (spc s n i) (entered s n i) (left s n i)"
    by (rule hwp_ok_phase [of _ _ 2]) (use own in \<open>simp_all add: leader_ok_def\<close>)
  then have l: "leader_ok L ?s1 n i 3 (pc ?c n \<noteq> Idle)"
    using own True by (auto simp: leader_ok_def sub_ok_def Barrier_intra_begun)
  show ?thesis
    using True l bcast_phase_ok [OF ni o] settle_ok [OF ni o, of In_roots] by (cases "pc ?c n = Idle") (simp_all add: roots_phase_def Let_def)
next
  case False
  have "hwp_ok (L ! n ! i) (bvars s n i) 3 (spc s n i) (entered s n i) (left s n i)"
    by (rule hwp_ok_phase [of _ _ 2]) (use own in \<open>simp_all add: leader_ok_def\<close>)
  then have "leader_ok L s n i 3 False" using own False by (auto simp: leader_ok_def sub_ok_def)
  then show ?thesis using False bcast_phase_ok [OF ni oth] by (simp add: roots_phase_def)
qed

lemma node_phase_ok:
  assumes ni: "n < length L" "i < length (L ! n)"
    and oth: "others_ok L n i s" and own: "leader_ok L s n i 1 False"
    and sig: "has_colocated L n i \<Longrightarrow> leader_signal (bvars s n i) \<noteq> 0"
  shows "smp_inv L (node_phase L n i s)"
proof -
  have h: "hwp_ok (L ! n ! i) (bvars s n i) 2 (spc s n i) (entered s n i) (left s n i)"
    using own sig by (auto simp: leader_ok_def hwp_ok_def has_colocated_def of_bool_def split: if_splits)
  show ?thesis
  proof (cases "has_node_comm L n")
    case True
    let ?c = "MPIR_Barrier_intra (length (L ! n)) i (node_bar s n)"
    let ?s1 = "s\<lparr>node_bar := (node_bar s)(n := ?c)\<rparr>"
    have idle: "pc (node_bar s n) i = Idle" using own True by (simp add: leader_ok_def sub_ok_def)
    have o: "others_ok L n i ?s1"
      by (rule others_node_bar [OF oth Barrier_intra_frame]) (rule coll_reach.call [OF others_reach(1) [OF oth ni(1)] ni(2) idle])
    have l: "leader_ok L ?s1 n i 2 (pc ?c i \<noteq> Idle)"
      using own h True by (auto simp: leader_ok_def sub_ok_def Barrier_intra_begun)
    show ?thesis
      using True l roots_phase_ok [OF ni o] settle_ok [OF ni o, of In_node] by (cases "pc ?c i = Idle") (simp_all add: node_phase_def Let_def)
  next
    case False
    then have "leader_ok L s n i 2 False" using own h by (auto simp: leader_ok_def sub_ok_def)
    then show ?thesis using False roots_phase_ok [OF ni oth] by (simp add: node_phase_def)
  qed
qed

subsection \<open>Entering and leaving\<close>

lemma card_all_iff: "card {r \<in> {1..<c}. P r} = c - 1 \<longleftrightarrow> (\<forall>r\<in>{1..<c}. P r)"
proof
  assume "card {r \<in> {1..<c}. P r} = c - 1"
  then have "{r \<in> {1..<c}. P r} = {1..<c}" by (intro card_subset_eq) auto
  then show "\<forall>r\<in>{1..<c}. P r" by blast
next
  assume "\<forall>r\<in>{1..<c}. P r"
  then have "{r \<in> {1..<c}. P r} = {1..<c}" by blast
  then show "card {r \<in> {1..<c}. P r} = c - 1" by simp
qed

lemma hwp_ok_member:
  assumes "hwp_ok c v ph sp en le" "1 < c" "r \<in> {1..<c}"
  shows "member_ok (le 0) (sp r) (en r) (le r)" "coproclet_signal v = int (le 0 mod 2)"
    "coproclet_counter v = int (card {r \<in> {1..<c}. en r = Suc (le 0)})"
    "leader_signal v = of_bool (\<forall>r\<in>{1..<c}. en r = Suc (le 0))"
    "2 \<le> ph \<Longrightarrow> en r = Suc (le 0)"
  using assms unfolding hwp_ok_def by blast+

lemma hwp_ok_enter:
  assumes ok: "hwp_ok c v ph sp en le" and c: "1 < c" and r: "r \<in> {1..<c}" and out: "sp r = Outside"
  defines "v1 \<equiv> v\<lparr>coproclet_counter := coproclet_counter v + 1\<rparr>"
  shows "hwp_ok c (if coproclet_counter v1 = int c - 1 then v1\<lparr>leader_signal := 1\<rparr> else v1) ph
    (sp(r := Member (coproclet_signal v))) (en(r := Suc (en r))) le"
proof -
  note m = hwp_ok_member [OF ok c r]
  have er: "en r = le 0" "le r = le 0" using m(1) out by (auto simp: member_ok_def)
  have r0: "r \<noteq> 0" using r by simp
  let ?S = "\<lambda>en. {r \<in> {1..<c}. en r = Suc (le 0)}"
  have S: "?S (en(r := Suc (en r))) = insert r (?S en)" using r er by auto
  have "r \<notin> ?S en" using er by simp
  then have card: "card (?S (en(r := Suc (en r)))) = Suc (card (?S en))" unfolding S by simp
  have "\<not> (\<forall>q\<in>{1..<c}. en q = Suc (le 0))" using er(1) r by (metis n_not_Suc_n)
  then have none: "leader_signal v = 0" using m(4) by simp
  have cnt: "coproclet_counter v1 = int (card (?S (en(r := Suc (en r)))))" using m(3) card by (simp add: v1_def)
  have full: "coproclet_counter v1 = int c - 1 \<longleftrightarrow> (\<forall>q\<in>{1..<c}. (en(r := Suc (en r))) q = Suc (le 0))"
  proof -
    have "int k = int c - 1 \<longleftrightarrow> k = c - 1" for k using c by linarith
    then show ?thesis unfolding cnt card_all_iff [symmetric] by blast
  qed
  have mem: "member_ok (le 0) ((sp(r := Member (coproclet_signal v))) q) ((en(r := Suc (en r))) q) (le q)"
    if "q \<in> {1..<c}" for q
    using hwp_ok_member(1) [OF ok c that] er m(2) by (cases "q = r") (simp_all add: member_ok_def)
  have ph: "\<not> 2 \<le> ph" using m(5) er by auto
  have "en 0 = le 0 + of_bool (0 < ph)" using ok by (simp add: hwp_ok_def)
  moreover have "coproclet_signal (if coproclet_counter v1 = int c - 1 then v1\<lparr>leader_signal := 1\<rparr> else v1) = int (le 0 mod 2)"
    using m(2) by (simp add: v1_def)
  moreover have "coproclet_counter (if coproclet_counter v1 = int c - 1 then v1\<lparr>leader_signal := 1\<rparr> else v1) = coproclet_counter v1"
    by simp
  moreover have "leader_signal (if coproclet_counter v1 = int c - 1 then v1\<lparr>leader_signal := 1\<rparr> else v1)
      = of_bool (\<forall>q\<in>{1..<c}. (en(r := Suc (en r))) q = Suc (le 0))"
    using none full by (simp add: v1_def)
  ultimately show ?thesis unfolding hwp_ok_def using r0 cnt mem ph by simp
qed

lemma hwp_ok_leave:
  assumes ok: "hwp_ok c v ph sp en le" and c: "1 < c" and r: "r \<in> {1..<c}"
    and sp: "sp r = Member sense" "coproclet_signal v \<noteq> sense"
  shows "hwp_ok c v ph (sp(r := Outside)) en (le(r := Suc (le r)))"
proof -
  note m = hwp_ok_member [OF ok c r]
  have "en r = le 0" "Suc (le r) = le 0" using m(1,2) sp by (auto simp: member_ok_def)
  moreover have "r \<noteq> 0" using r by simp
  ultimately show ?thesis using ok unfolding hwp_ok_def by (auto simp: member_ok_def)
qed

lemma hwp_ok_leader:
  assumes "hwp_ok c v 0 sp en le"
  shows "hwp_ok c v 1 sp (en(0 := Suc (en 0))) le"
proof -
  have "{r \<in> {1..<c}. (en(0 := x)) r = k} = {r \<in> {1..<c}. en r = k}" for x k by auto
  moreover have "(\<forall>r\<in>{1..<c}. (en(0 := x)) r = k) \<longleftrightarrow> (\<forall>r\<in>{1..<c}. en r = k)" for x k by auto
  ultimately show ?thesis using assms unfolding hwp_ok_def by simp
qed

lemma leader_ok_hwp:
  assumes "leader_ok L s n i ph bz" "node_bar s' = node_bar s" "node_bc s' = node_bc s" "roots_bar s' = roots_bar s"
    "left s' n i 0 = left s n i 0"
    "hwp_ok (L ! n ! i) (bvars s' n i) ph (spc s' n i) (entered s' n i) (left s' n i)"
  shows "leader_ok L s' n i ph bz"
  using assms by (simp add: leader_ok_def)

lemma smp_inv_member:
  assumes inv: "smp_inv L s" and ni: "n < length L" "i < length (L ! n)"
    and ho: "hwp_only n i s s'" and same: "spc s' n i 0 = spc s n i 0" "left s' n i 0 = left s n i 0"
    and h: "hwp_ok (L ! n ! i) (bvars s' n i) (phase (spc s n i 0)) (spc s' n i) (entered s' n i) (left s' n i)"
  shows "smp_inv L s'"
proof -
  have l: "others_ok L n i s" "leader_norm L s n i" using inv smp_inv_split [OF ni] by blast+
  have "leader_ok L s' n i (phase (spc s n i 0)) True"
    by (rule leader_ok_hwp) (use l(2) ho same h in \<open>simp_all add: leader_norm_def hwp_only_def\<close>)
  then have "leader_norm L s' n i" using l(2) same by (simp add: leader_norm_def)
  then show ?thesis using hwp_only_others [OF l(1) ho] smp_inv_split [OF ni] by blast
qed

lemma smp_inv_call:
  assumes inv: "smp_inv L s" and x: "is_proc L n i r" and out: "spc s n i r = Outside"
  shows "smp_inv L (barrier_smp_intra L n i r s)"
proof -
  have ni: "n < length L" "i < length (L ! n)" and r: "r < L ! n ! i" using x by (simp_all add: is_proc_def)
  have l: "others_ok L n i s" "leader_norm L s n i" using inv smp_inv_split [OF ni] by blast+
  let ?s1 = "s\<lparr>entered := upd3 (entered s) n i r (Suc (entered s n i r))\<rparr>"
  show ?thesis
  proof (cases "r = 0")
    case False
    then have c: "1 < L ! n ! i" "r \<in> {1..<L ! n ! i}" using r by auto
    have h: "hwp_ok (L ! n ! i) (bvars s n i) (phase (spc s n i 0)) (spc s n i) (entered s n i) (left s n i)"
      using l(2) by (simp add: leader_norm_def leader_ok_def)
    show ?thesis
    proof (rule smp_inv_member [OF inv ni])
      show "hwp_only n i s (barrier_smp_intra L n i r s)"
        using False c by (simp add: barrier_smp_intra_def has_colocated_def Let_def hwp_only_def set_spc_def set_bvars_def)
    qed (use False c hwp_ok_enter [OF h c out] in
        \<open>simp_all add: barrier_smp_intra_def has_colocated_def Let_def set_spc_def set_bvars_def split: if_splits\<close>)
  next
    case True
    have "hwp_ok (L ! n ! i) (bvars s n i) 1 (spc s n i) ((entered s n i)(0 := Suc (entered s n i 0))) (left s n i)"
      by (rule hwp_ok_leader) (use l(2) out True in \<open>simp add: leader_norm_def leader_ok_def\<close>)
    then have "leader_ok L ?s1 n i 1 bz" for bz
      using l(2) out True by (auto simp: leader_norm_def leader_ok_def sub_ok_def)
    moreover have o: "others_ok L n i ?s1" by (rule hwp_only_others [OF l(1)]) simp
    ultimately have np: "smp_inv L (node_phase L n i ?s1)" if "has_colocated L n i \<Longrightarrow> leader_signal (bvars s n i) \<noteq> 0"
      using node_phase_ok [OF ni o] that by simp
    have ld: "smp_inv L (set_spc n i 0 Leader ?s1)" if "has_colocated L n i"
    proof -
      have "others_ok L n i (set_spc n i 0 Leader ?s1)" by (rule hwp_only_others [OF o]) simp
      moreover have "hwp_ok c v ph ((spc s n i)(0 := Leader)) en le = hwp_ok c v ph (spc s n i) en le" for c v ph en le
        by (rule hwp_ok_cong) simp
      then have "leader_norm L (set_spc n i 0 Leader ?s1) n i"
        using \<open>\<And>bz. leader_ok L ?s1 n i 1 bz\<close> that by (simp add: leader_norm_def leader_ok_def set_spc_def)
      ultimately show ?thesis using smp_inv_split [OF ni] by blast
    qed
    show ?thesis using True np ld by (auto simp: barrier_smp_intra_def Let_def)
  qed
qed

lemma smp_inv_step:
  assumes inv: "smp_inv L s" and x: "is_proc L n i r" and st: "smp_step L n i r s = Some s'"
  shows "smp_inv L s'"
proof -
  have ni: "n < length L" "i < length (L ! n)" and r: "r < L ! n ! i" using x by (simp_all add: is_proc_def)
  have oth: "others_ok L n i s" and norm: "leader_norm L s n i" using inv smp_inv_split [OF ni] by blast+
  have own: "leader_ok L s n i (phase (spc s n i 0)) True" using norm by (simp add: leader_norm_def)
  have h: "hwp_ok (L ! n ! i) (bvars s n i) (phase (spc s n i 0)) (spc s n i) (entered s n i) (left s n i)"
    using own by (simp add: leader_ok_def)
  have r0: "r = 0" if "spc s n i r \<noteq> Outside" "\<And>k. spc s n i r \<noteq> Member k"
  proof (rule ccontr)
    assume "r \<noteq> 0"
    then have "member_ok (left s n i 0) (spc s n i r) (entered s n i r) (left s n i r)"
      using hwp_ok_member(1) [OF h] r by simp
    then show False using that by (auto simp: member_ok_def)
  qed
  show ?thesis
  proof (cases "spc s n i r")
    case Outside
    then show ?thesis using st by (simp add: smp_step_def)
  next
    case (Member sense)
    then have ne: "r \<noteq> 0" using norm by (metis leader_norm_def)
    then have c: "1 < L ! n ! i" "r \<in> {1..<L ! n ! i}" using r by auto
    have s': "coproclet_signal (bvars s n i) \<noteq> sense" "s' = smp_leave n i r s"
      using st Member by (auto simp: smp_step_def split: if_splits)
    show ?thesis unfolding s'(2)
      by (rule smp_inv_member [OF inv ni hwp_only_simps(3)]) (use ne hwp_ok_leave [OF h c Member s'(1)] in
          \<open>simp_all add: smp_leave_def set_spc_def\<close>)
  next
    case Leader
    then have [simp]: "r = 0" using r0 by simp
    have s': "leader_signal (bvars s n i) \<noteq> 0" "s' = node_phase L n i s"
      using st Leader by (auto simp: smp_step_def split: if_splits)
    have "leader_ok L s n i 1 False" using own Leader by (auto simp: leader_ok_def sub_ok_def)
    then show ?thesis unfolding s'(2) using node_phase_ok [OF ni oth] s'(1) by blast
  next
    case In_node
    then have [simp]: "r = 0" using r0 by simp
    obtain c where c: "barrier_step (length (L ! n)) i (node_bar s n) = Some c"
      "s' = (if pc c i = Idle then roots_phase L n i (s\<lparr>node_bar := (node_bar s)(n := c)\<rparr>) else s\<lparr>node_bar := (node_bar s)(n := c)\<rparr>)"
      using st In_node by (auto simp: smp_step_def Let_def split: option.splits)
    have o: "others_ok L n i (s\<lparr>node_bar := (node_bar s)(n := c)\<rparr>)"
      by (rule others_node_bar [OF oth barrier_step_frame [OF c(1)]])
        (rule coll_reach.step [OF others_reach(1) [OF oth ni(1)] ni(2) c(1)])
    have "leader_ok L (s\<lparr>node_bar := (node_bar s)(n := c)\<rparr>) n i 2 (pc c i \<noteq> Idle)"
      using own In_node barrier_step_begun [OF c(1)] by (auto simp: leader_ok_def sub_ok_def split: if_splits)
    then show ?thesis unfolding c(2) using roots_phase_ok [OF ni o] In_node o smp_inv_split [OF ni]
      by (cases "pc c i = Idle") (simp_all add: leader_norm_def)
  next
    case In_roots
    then have [simp]: "r = 0" using r0 by simp
    have i0: "has_node_roots L i" "i = 0" using own In_roots
      by (auto simp: leader_ok_def sub_ok_def has_node_roots_def split: if_splits)
    obtain c where c: "barrier_step (length L) n (roots_bar s) = Some c"
      "s' = (if pc c n = Idle then bcast_phase L n i (s\<lparr>roots_bar := c\<rparr>) else s\<lparr>roots_bar := c\<rparr>)"
      using st In_roots by (auto simp: smp_step_def Let_def split: option.splits)
    have o: "others_ok L n i (s\<lparr>roots_bar := c\<rparr>)"
      by (rule others_roots_bar [OF oth barrier_step_frame [OF c(1)]
            coll_reach.step [OF others_reach(3) [OF oth] ni(1) c(1)] i0(2)])
    have "leader_ok L (s\<lparr>roots_bar := c\<rparr>) n i 3 (pc c n \<noteq> Idle)"
      using own In_roots i0 barrier_step_begun [OF c(1)] by (auto simp: leader_ok_def sub_ok_def split: if_splits)
    then show ?thesis unfolding c(2) using bcast_phase_ok [OF ni o] In_roots o smp_inv_split [OF ni]
      by (cases "pc c n = Idle") (simp_all add: leader_norm_def)
  next
    case In_bcast
    then have [simp]: "r = 0" using r0 by simp
    obtain c where c: "bcast_step (length (L ! n)) 0 i (node_bc s n) = Some c"
      "s' = (if pc c i = Idle then release_members L n i (s\<lparr>node_bc := (node_bc s)(n := c)\<rparr>) else s\<lparr>node_bc := (node_bc s)(n := c)\<rparr>)"
      using st In_bcast by (auto simp: smp_step_def Let_def split: option.splits)
    have o: "others_ok L n i (s\<lparr>node_bc := (node_bc s)(n := c)\<rparr>)"
      by (rule others_node_bc [OF oth bcast_step_frame [OF c(1)]])
        (rule coll_reach.step [OF others_reach(2) [OF oth ni(1)] ni(2) c(1)])
    have "leader_ok L (s\<lparr>node_bc := (node_bc s)(n := c)\<rparr>) n i 4 (pc c i \<noteq> Idle)"
      using own In_bcast bcast_step_begun [OF c(1)] by (auto simp: leader_ok_def sub_ok_def split: if_splits)
    then show ?thesis unfolding c(2) using release_ok [OF ni o] In_bcast o smp_inv_split [OF ni]
      by (cases "pc c i = Idle") (simp_all add: leader_norm_def)
  qed
qed

lemma smp_inv_init: "smp_inv L smp_init"
proof -
  have "subs_reach L smp_init" by (simp add: subs_reach_def smp_init_def coll_reach.init)
  moreover have "leader_norm L smp_init n i" for n i
    by (auto simp: leader_norm_def leader_ok_def hwp_ok_def sub_ok_def member_ok_def smp_init_def
        coll_init_def zero_bvars_def)
  ultimately show ?thesis by (simp add: smp_inv_def)
qed

lemma smp_reach_inv: "smp_reach L s \<Longrightarrow> smp_inv L s"
  by (induction rule: smp_reach.induct) (auto intro: smp_inv_init smp_inv_call smp_inv_step)

subsection \<open>Nobody leaves early\<close>

text \<open>How often a leader has begun phase \<open>k\<close>.\<close>

definition phase_calls :: "smp \<Rightarrow> nat \<Rightarrow> nat \<Rightarrow> nat \<Rightarrow> nat" where
  "phase_calls s k n i = left s n i 0 + of_bool (k \<le> phase (spc s n i 0))"

lemma phase_le: "phase p \<le> 4"
  by (cases p) simp_all

lemma phase_calls_mono: "j \<le> k \<Longrightarrow> phase_calls s k n i \<le> phase_calls s j n i"
  by (simp add: phase_calls_def of_bool_def)

lemma leader_normD:
  assumes "smp_inv L s" "n < length L" "i < length (L ! n)"
  shows "leader_norm L s n i" "leader_ok L s n i (phase (spc s n i 0)) True"
  using assms by (simp_all add: smp_inv_def leader_norm_def)

lemma sub_calls:
  assumes "sub_ok True c j E ph True k" "counted c j"
  shows "begun c j = E + of_bool (k \<le> ph)" "ended c j = E + of_bool (Suc k \<le> ph)"
  using assms by (auto simp: sub_ok_def counted_def of_bool_def split: if_splits)

lemma last_phase: "left s n i 0 = left s n i 0 + of_bool (Suc 4 \<le> phase (spc s n i 0))"
  using phase_le [of "spc s n i 0"] by simp

lemma smp_reaches:
  assumes "smp_inv L s"
  shows "n < length L \<Longrightarrow> barrier_reach (length (L ! n)) (node_bar s n)"
    "n < length L \<Longrightarrow> bcast_reach (Suc 0) (length (L ! n)) 0 (node_bc s n)"
    "barrier_reach (length L) (roots_bar s)"
  using assms by (simp_all add: smp_inv_def subs_reach_def)

lemma node_calls:
  assumes "smp_inv L s" "n < length L" "i < length (L ! n)" "has_node_comm L n"
  shows "begun (node_bar s n) i = phase_calls s 2 n i" "ended (node_bar s n) i = phase_calls s 3 n i"
    "begun (node_bc s n) i = phase_calls s 4 n i" "ended (node_bc s n) i = left s n i 0"
    "pc (node_bar s n) i \<noteq> Idle \<longleftrightarrow> spc s n i 0 = In_node" "pc (node_bc s n) i \<noteq> Idle \<longleftrightarrow> spc s n i 0 = In_bcast"
proof -
  note l = leader_normD [OF assms(1-3)]
  have nb: "sub_ok True (node_bar s n) i (left s n i 0) (phase (spc s n i 0)) True 2"
    and bc: "sub_ok True (node_bc s n) i (left s n i 0) (phase (spc s n i 0)) True 4"
    using l(2) assms(4) by (simp_all add: leader_ok_def)
  have c: "counted (node_bar s n) i" "counted (node_bc s n) i"
    using dissemination.counts [OF smp_reaches(1) [OF assms(1,2)] assms(3)]
      binomial.counts [OF smp_reaches(2) [OF assms(1,2)] assms(3)] by simp_all
  show "begun (node_bar s n) i = phase_calls s 2 n i" "ended (node_bar s n) i = phase_calls s 3 n i"
    using sub_calls [OF nb c(1)] by (simp_all add: phase_calls_def)
  show "begun (node_bc s n) i = phase_calls s 4 n i" "ended (node_bc s n) i = left s n i 0"
    using sub_calls [OF bc c(2)] phase_le [of "spc s n i 0"] by (simp_all add: phase_calls_def)
  show "pc (node_bar s n) i \<noteq> Idle \<longleftrightarrow> spc s n i 0 = In_node" "pc (node_bc s n) i \<noteq> Idle \<longleftrightarrow> spc s n i 0 = In_bcast"
    using nb bc by (cases "spc s n i 0"; simp add: sub_ok_def)+
qed

lemma roots_calls:
  assumes "smp_inv L s" "n < length L" "0 < length (L ! n)" "1 < length L"
  shows "begun (roots_bar s) n = phase_calls s 3 n 0" "ended (roots_bar s) n = phase_calls s 4 n 0"
    "pc (roots_bar s) n \<noteq> Idle \<longleftrightarrow> spc s n 0 0 = In_roots"
proof -
  have rb: "sub_ok True (roots_bar s) n (left s n 0 0) (phase (spc s n 0 0)) True 3"
    using leader_normD(2) [OF assms(1-3)] assms(4) by (simp add: leader_ok_def has_node_roots_def)
  have c: "counted (roots_bar s) n"
    using dissemination.counts [OF smp_reaches(3) [OF assms(1)] assms(2)] by simp
  show "begun (roots_bar s) n = phase_calls s 3 n 0" "ended (roots_bar s) n = phase_calls s 4 n 0"
    using sub_calls [OF rb c] by (simp_all add: phase_calls_def)
  show "pc (roots_bar s) n \<noteq> Idle \<longleftrightarrow> spc s n 0 0 = In_roots"
    using rb by (cases "spc s n 0 0"; simp add: sub_ok_def)
qed

lemma left_le_root:
  assumes inv: "smp_inv L s" and ni: "n < length L" "i < length (L ! n)"
  shows "left s n i 0 \<le> phase_calls s 4 n 0"
proof (cases "has_node_comm L n")
  case True
  have z: "0 < length (L ! n)" using le_less_trans [OF le0 ni(2)] .
  have "ended (node_bc s n) i \<le> begun (node_bc s n) 0"
    by (rule binomial.safe [OF smp_reaches(2) [OF inv ni(1)] ni(2) z]) simp
  then show ?thesis using node_calls(4) [OF inv ni True] node_calls(3) [OF inv ni(1) z True] by simp
next
  case False
  then have "i = 0" using ni(2) by (simp add: has_node_comm_def)
  then show ?thesis by (simp add: phase_calls_def)
qed

lemma root_le_root:
  assumes inv: "smp_inv L s" and n: "n < length L" "n' < length L" and z: "0 < length (L ! n)" "0 < length (L ! n')"
  shows "phase_calls s 4 n 0 \<le> phase_calls s 3 n' 0"
proof (cases "1 < length L")
  case True
  then show ?thesis
    using dissemination.safe [OF smp_reaches(3) [OF inv] n TrueI] roots_calls [OF inv n(1) z(1) True]
      roots_calls [OF inv n(2) z(2) True] by simp
next
  case False
  then have "n = n'" using n by simp
  then show ?thesis using phase_calls_mono [of 3 4] by simp
qed

lemma root_le_leader:
  assumes inv: "smp_inv L s" and ni: "n < length L" "i < length (L ! n)"
  shows "phase_calls s 3 n 0 \<le> phase_calls s 2 n i"
proof (cases "has_node_comm L n")
  case True
  have z: "0 < length (L ! n)" using le_less_trans [OF le0 ni(2)] .
  show ?thesis
    using dissemination.safe [OF smp_reaches(1) [OF inv ni(1)] z ni(2) TrueI]
      node_calls(2) [OF inv ni(1) z True] node_calls(1) [OF inv ni True] by simp
next
  case False
  then have "i = 0" using ni(2) by (simp add: has_node_comm_def)
  then show ?thesis using phase_calls_mono [of 2 3] by simp
qed

lemma proc_counts:
  assumes inv: "smp_inv L s" and x: "is_proc L n i r"
  shows "left s n i r \<le> left s n i 0" "phase_calls s 2 n i \<le> entered s n i r"
proof -
  have ni: "n < length L" "i < length (L ! n)" and r: "r < L ! n ! i" using x by (simp_all add: is_proc_def)
  have h: "hwp_ok (L ! n ! i) (bvars s n i) (phase (spc s n i 0)) (spc s n i) (entered s n i) (left s n i)"
    using leader_normD(2) [OF inv ni] by (simp add: leader_ok_def)
  have "left s n i r \<le> left s n i 0 \<and> phase_calls s 2 n i \<le> entered s n i r"
  proof (cases "r = 0")
    case True
    then show ?thesis using h by (simp add: hwp_ok_def phase_calls_def of_bool_def)
  next
    case False
    then have "1 < L ! n ! i" "r \<in> {1..<L ! n ! i}" using r by auto
    note m = hwp_ok_member [OF h this]
    show ?thesis using m(1,5) by (auto simp: member_ok_def phase_calls_def of_bool_def)
  qed
  then show "left s n i r \<le> left s n i 0" "phase_calls s 2 n i \<le> entered s n i r" by simp_all
qed

lemma smp_inv_safe:
  assumes inv: "smp_inv L s" and x: "is_proc L n i r" and y: "is_proc L n' i' r'"
  shows "left s n i r \<le> entered s n' i' r'"
proof -
  have ni: "n < length L" "i < length (L ! n)" "n' < length L" "i' < length (L ! n')"
    using x y by (simp_all add: is_proc_def)
  have "left s n i r \<le> left s n i 0" by (rule proc_counts(1) [OF inv x])
  also have "\<dots> \<le> phase_calls s 4 n 0" by (rule left_le_root [OF inv ni(1,2)])
  also have "\<dots> \<le> phase_calls s 3 n' 0" by (rule root_le_root [OF inv ni(1,3) le_less_trans [OF le0 ni(2)] le_less_trans [OF le0 ni(4)]])
  also have "\<dots> \<le> phase_calls s 2 n' i'" by (rule root_le_leader [OF inv ni(3,4)])
  also have "\<dots> \<le> entered s n' i' r'" by (rule proc_counts(2) [OF inv y])
  finally show ?thesis .
qed

subsection \<open>The barrier does not get stuck\<close>

lemma step_In_node:
  assumes inv: "smp_inv L s" and ni: "n < length L" "i < length (L ! n)" and p: "spc s n i 0 = In_node"
    and all: "\<And>j. j < length (L ! n) \<Longrightarrow> phase_calls s 2 n i \<le> phase_calls s 2 n j"
  shows "\<exists>j<length (L ! n). smp_step L n j 0 s \<noteq> None"
proof -
  have nc: "has_node_comm L n"
    using leader_normD(2) [OF inv ni] p by (auto simp: leader_ok_def sub_ok_def split: if_splits)
  obtain j where j: "j < length (L ! n)" "barrier_step (length (L ! n)) j (node_bar s n) \<noteq> None"
    using dissemination.progress [OF smp_reaches(1) [OF inv ni(1)] ni(2)] node_calls(1,5) [OF inv ni(1) _ nc] ni(2) p all
    by metis
  then have "spc s n j 0 = In_node"
    using dissemination.step_busy node_calls(5) [OF inv ni(1) j(1) nc] by metis
  then have "smp_step L n j 0 s \<noteq> None" using j(2) by (auto simp: smp_step_def Let_def)
  then show ?thesis using j(1) by blast
qed

lemma step_In_bcast:
  assumes inv: "smp_inv L s" and ni: "n < length L" "i < length (L ! n)" and p: "spc s n i 0 = In_bcast"
    and all: "\<And>j. j < length (L ! n) \<Longrightarrow> phase_calls s 4 n i \<le> phase_calls s 4 n j"
  shows "\<exists>j<length (L ! n). smp_step L n j 0 s \<noteq> None"
proof -
  have nc: "has_node_comm L n"
    using leader_normD(2) [OF inv ni] p by (auto simp: leader_ok_def sub_ok_def split: if_splits)
  obtain j where j: "j < length (L ! n)" "bcast_step (length (L ! n)) 0 j (node_bc s n) \<noteq> None"
    using binomial.progress [OF smp_reaches(2) [OF inv ni(1)] ni(2)] node_calls(3,6) [OF inv ni(1) _ nc] ni(2) p all
    by metis
  then have "spc s n j 0 = In_bcast"
    using binomial.step_busy node_calls(6) [OF inv ni(1) j(1) nc] by metis
  then have "smp_step L n j 0 s \<noteq> None" using j(2) by (auto simp: smp_step_def Let_def)
  then show ?thesis using j(1) by blast
qed

definition valid_layout :: "layout \<Rightarrow> bool" where
  "valid_layout L \<longleftrightarrow> (\<forall>ns\<in>set L. ns \<noteq> [] \<and> (\<forall>c\<in>set ns. 0 < c))"

lemma valid_node: "valid_layout L \<Longrightarrow> n < length L \<Longrightarrow> 0 < length (L ! n)"
  by (simp add: valid_layout_def)

lemma valid_leader: "valid_layout L \<Longrightarrow> n < length L \<Longrightarrow> i < length (L ! n) \<Longrightarrow> is_proc L n i 0"
  using nth_mem [of n L] nth_mem [of i "L ! n"] unfolding valid_layout_def is_proc_def by blast

lemma step_In_roots:
  assumes v: "valid_layout L" and inv: "smp_inv L s" and ni: "n < length L" "i < length (L ! n)"
    and p: "spc s n i 0 = In_roots"
    and all: "\<And>m. m < length L \<Longrightarrow> phase_calls s 3 n i \<le> phase_calls s 3 m 0"
  shows "\<exists>m<length L. smp_step L m 0 0 s \<noteq> None"
proof -
  have r: "i = 0" "1 < length L"
    using leader_normD(2) [OF inv ni] p by (auto simp: leader_ok_def sub_ok_def has_node_roots_def split: if_splits)
  note c = roots_calls [OF inv _ valid_node [OF v] r(2)]
  obtain m where m: "m < length L" "barrier_step (length L) m (roots_bar s) \<noteq> None"
    using dissemination.progress [OF smp_reaches(3) [OF inv] ni(1)] c(1,3) ni(1) p all r(1) by metis
  then have "spc s m 0 0 = In_roots" using dissemination.step_busy c(3) [OF m(1,1)] by metis
  then have "smp_step L m 0 0 s \<noteq> None" using m(2) by (auto simp: smp_step_def Let_def)
  then show ?thesis using m(1) by blast
qed

text \<open>A member that has entered the current call of its leader, or none of its leader's later calls.\<close>

lemma stuck_member:
  assumes inv: "smp_inv L s" and x: "is_proc L n i r" "r \<noteq> 0" and st: "smp_step L n i r s = None"
  shows "(spc s n i r = Outside \<and> entered s n i r = left s n i 0) \<or>
    (spc s n i r \<noteq> Outside \<and> entered s n i r = Suc (left s n i 0))"
proof -
  have ni: "n < length L" "i < length (L ! n)" and r: "r < L ! n ! i" using x by (simp_all add: is_proc_def)
  have h: "hwp_ok (L ! n ! i) (bvars s n i) (phase (spc s n i 0)) (spc s n i) (entered s n i) (left s n i)"
    using leader_normD(2) [OF inv ni] by (simp add: leader_ok_def)
  have "1 < L ! n ! i" "r \<in> {1..<L ! n ! i}" using r x(2) by auto
  note m = hwp_ok_member [OF h this]
  have "1 - int (e mod 2) \<noteq> int (e mod 2)" for e by presburger
  then have "spc s n i r \<noteq> Member (1 - int (left s n i 0 mod 2))"
    using st m(2) by (auto simp: smp_step_def split: if_splits)
  then show ?thesis using m(1) by (auto simp: member_ok_def)
qed

lemma leader_entered:
  assumes "smp_inv L s" "n < length L" "i < length (L ! n)"
  shows "entered s n i 0 = left s n i 0 + of_bool (spc s n i 0 \<noteq> Outside)"
proof -
  have "leader_norm L s n i" using assms by (simp add: smp_inv_def)
  then show ?thesis by (cases "spc s n i 0") (auto simp: leader_norm_def leader_ok_def hwp_ok_def)
qed

text \<open>
  \<open>nobody_missing\<close>: whoever is outside has entered the barrier as often as anyone.  If nothing can
  move, the leaders with the fewest calls behind them are all inside, their members have all
  entered, and a leader in the lowest phase among them can move after all.
\<close>

definition nobody_missing :: "layout \<Rightarrow> smp \<Rightarrow> bool" where
  "nobody_missing L s \<longleftrightarrow>
     (\<forall>n i r n' i' r'. is_proc L n i r \<longrightarrow> is_proc L n' i' r' \<longrightarrow> spc s n i r = Outside \<longrightarrow>
        entered s n' i' r' \<le> entered s n i r)"

lemma nobody_missingD:
  "nobody_missing L s \<Longrightarrow> is_proc L n i r \<Longrightarrow> is_proc L n' i' r' \<Longrightarrow> spc s n i r = Outside \<Longrightarrow>
   entered s n' i' r' \<le> entered s n i r"
  unfolding nobody_missing_def by blast

lemma least_leader:
  assumes "n < length L" "i < length (L ! n)"
  obtains n0 i0 where "n0 < length L" "i0 < length (L ! n0)"
    "\<And>n i. n < length L \<Longrightarrow> i < length (L ! n) \<Longrightarrow> left s n0 i0 0 \<le> left s n i 0"
proof -
  let ?P = "\<lambda>(n, i). n < length L \<and> i < length (L ! n)"
  have "?P (n, i)" using assms by simp
  from ex_has_least_nat [of ?P, OF this, of "\<lambda>(n, i). left s n i 0"]
  obtain x where x: "?P x" "\<forall>y. ?P y \<longrightarrow> (case x of (n, i) \<Rightarrow> left s n i 0) \<le> (case y of (n, i) \<Rightarrow> left s n i 0)"
    by blast
  then show ?thesis using that [of "fst x" "snd x"] by (auto simp: split_beta)
qed

text \<open>The leaders with the fewest calls behind them are past the co-located part when nothing moves.\<close>

lemma stuck_leader:
  assumes v: "valid_layout L" and inv: "smp_inv L s" and nm: "nobody_missing L s"
    and stuck: "\<And>n i r. is_proc L n i r \<Longrightarrow> smp_step L n i r s = None"
    and x: "is_proc L nx ix rx" "spc s nx ix rx \<noteq> Outside"
    and ni: "n < length L" "i < length (L ! n)"
    and least: "\<And>n' i'. n' < length L \<Longrightarrow> i' < length (L ! n') \<Longrightarrow> left s n i 0 \<le> left s n' i' 0"
  shows "2 \<le> phase (spc s n i 0)"
proof -
  have lp: "is_proc L n i 0" by (rule valid_leader [OF v ni])
  have ent: "entered s n i 0 = left s n i 0 + of_bool (spc s n i 0 \<noteq> Outside)" by (rule leader_entered [OF inv ni])
  have nx: "nx < length L" "ix < length (L ! nx)" using x(1) by (simp_all add: is_proc_def)
  have inside: "spc s n i 0 \<noteq> Outside"
  proof
    assume out: "spc s n i 0 = Outside"
    have "entered s nx ix rx \<le> left s n i 0" using nobody_missingD [OF nm lp x(1) out] ent out by simp
    moreover have "entered s nx ix rx = Suc (left s nx ix 0)"
      using stuck_member [OF inv x(1) _ stuck [OF x(1)]] leader_entered [OF inv nx] x(2) by (cases "rx = 0") auto
    ultimately show False using least [OF nx] by simp
  qed
  have h: "hwp_ok (L ! n ! i) (bvars s n i) (phase (spc s n i 0)) (spc s n i) (entered s n i) (left s n i)"
    using leader_normD(2) [OF inv ni] by (simp add: leader_ok_def)
  have all: "entered s n i r = Suc (left s n i 0)" if "r \<in> {1..<L ! n ! i}" for r
  proof -
    have p: "is_proc L n i r" "r \<noteq> 0" using that ni by (simp_all add: is_proc_def)
    show ?thesis
      using stuck_member [OF inv p stuck [OF p(1)]] nobody_missingD [OF nm p(1) lp] ent inside by auto
  qed
  have "spc s n i 0 \<noteq> Leader"
  proof
    assume l: "spc s n i 0 = Leader"
    then have c: "1 < L ! n ! i" using leader_normD(1) [OF inv ni] by (simp add: leader_norm_def has_colocated_def)
    then have "leader_signal (bvars s n i) = 1" using h all by (simp add: hwp_ok_def)
    then show False using stuck [OF lp] l by (simp add: smp_step_def)
  qed
  then show ?thesis using inside leader_normD(1) [OF inv ni] by (cases "spc s n i 0") (auto simp: leader_norm_def)
qed

lemma smp_inv_progress:
  assumes v: "valid_layout L" and inv: "smp_inv L s" and nm: "nobody_missing L s"
    and x: "is_proc L nx ix rx" "spc s nx ix rx \<noteq> Outside"
  shows "\<exists>n i r. is_proc L n i r \<and> smp_step L n i r s \<noteq> None"
proof (rule ccontr)
  assume "\<not> ?thesis"
  then have stuck: "smp_step L n i r s = None" if "is_proc L n i r" for n i r using that by blast
  obtain n0 i0 where n0: "n0 < length L" "i0 < length (L ! n0)"
    and least: "\<And>n i. n < length L \<Longrightarrow> i < length (L ! n) \<Longrightarrow> left s n0 i0 0 \<le> left s n i 0"
    using least_leader [of nx L ix s] x(1) unfolding is_proc_def by blast
  let ?m = "left s n0 i0 0"
  have ph2: "2 \<le> phase (spc s n i 0)" if "n < length L" "i < length (L ! n)" "left s n i 0 = ?m" for n i
    by (rule stuck_leader [OF v inv nm stuck x that(1,2)]) (use least that(3) in auto)
  have calls: "Suc ?m \<le> phase_calls s k n i"
    if "n < length L" "i < length (L ! n)" "left s n i 0 = ?m \<Longrightarrow> k \<le> phase (spc s n i 0)" for n i k
    using least [OF that(1,2)] that(3) by (cases "left s n i 0 = ?m") (auto simp: phase_calls_def)
  have own: "phase_calls s k n i = Suc ?m" if "left s n i 0 = ?m" "phase (spc s n i 0) = k" for n i k
    using that by (simp add: phase_calls_def)
  have no_node: "spc s n i 0 \<noteq> In_node" if "n < length L" "i < length (L ! n)" "left s n i 0 = ?m" for n i
  proof
    assume p: "spc s n i 0 = In_node"
    have "\<exists>j<length (L ! n). smp_step L n j 0 s \<noteq> None"
    proof (rule step_In_node [OF inv that(1,2) p])
      fix j assume j: "j < length (L ! n)"
      have "Suc ?m \<le> phase_calls s 2 n j" by (rule calls [OF that(1) j]) (rule ph2 [OF that(1) j])
      moreover have "phase (spc s n i 0) = 2" using p by simp
      ultimately show "phase_calls s 2 n i \<le> phase_calls s 2 n j" using own [OF that(3)] by simp
    qed
    then obtain j where "j < length (L ! n)" "smp_step L n j 0 s \<noteq> None" by blast
    then show False using stuck [OF valid_leader [OF v that(1)]] by simp
  qed
  have ph3: "3 \<le> phase (spc s n i 0)" if "n < length L" "i < length (L ! n)" "left s n i 0 = ?m" for n i
    using ph2 [OF that] no_node [OF that] by (cases "spc s n i 0") simp_all
  have no_roots: "spc s n i 0 \<noteq> In_roots" if "n < length L" "i < length (L ! n)" "left s n i 0 = ?m" for n i
  proof
    assume p: "spc s n i 0 = In_roots"
    have "\<exists>k<length L. smp_step L k 0 0 s \<noteq> None"
    proof (rule step_In_roots [OF v inv that(1,2) p])
      fix k assume k: "k < length L"
      have "Suc ?m \<le> phase_calls s 3 k 0"
        by (rule calls [OF k valid_node [OF v k]]) (rule ph3 [OF k valid_node [OF v k]])
      moreover have "phase (spc s n i 0) = 3" using p by simp
      ultimately show "phase_calls s 3 n i \<le> phase_calls s 3 k 0" using own [OF that(3)] by simp
    qed
    then obtain k where "k < length L" "smp_step L k 0 0 s \<noteq> None" by blast
    then show False using stuck [OF valid_leader [OF v _ valid_node [OF v]]] by simp
  qed
  have ph4: "spc s n i 0 = In_bcast" if "n < length L" "i < length (L ! n)" "left s n i 0 = ?m" for n i
    using ph3 [OF that] no_roots [OF that] by (cases "spc s n i 0") simp_all
  have "\<exists>j<length (L ! n0). smp_step L n0 j 0 s \<noteq> None"
  proof (rule step_In_bcast [OF inv n0 ph4 [OF n0 refl]])
    fix j assume j: "j < length (L ! n0)"
    have "4 \<le> phase (spc s n0 j 0)" if "left s n0 j 0 = ?m" using ph4 [OF n0(1) j that] by simp
    then have "Suc ?m \<le> phase_calls s 4 n0 j" by (rule calls [OF n0(1) j])
    moreover have "phase (spc s n0 i0 0) = 4" using ph4 [OF n0 refl] by simp
    ultimately show "phase_calls s 4 n0 i0 \<le> phase_calls s 4 n0 j" using own [OF refl] by simp
  qed
  then obtain j where "j < length (L ! n0)" "smp_step L n0 j 0 s \<noteq> None" by blast
  then show False using stuck [OF valid_leader [OF v n0(1)]] by simp
qed

subsection \<open>The barrier is correct\<close>

text \<open>
  C8. However the processes of a communicator interleave, on any layout of operating-system
  processes and nodes and over any number of successive barriers, no process leaves its \<open>e\<close>-th
  barrier before every process has entered its \<open>e\<close>-th; and when some process is inside and
  nobody stays away, some process can take a step.
\<close>

theorem smp_barrier_correct:
  assumes "smp_reach L s" "is_proc L n i r" "is_proc L n' i' r'"
  shows "left s n i r \<le> entered s n' i' r' \<and>
    (valid_layout L \<and> nobody_missing L s \<and> spc s n i r \<noteq> Outside \<longrightarrow>
       (\<exists>m j q. is_proc L m j q \<and> smp_step L m j q s \<noteq> None))"
  using smp_inv_safe [OF smp_reach_inv [OF assms(1)] assms(2,3)]
    smp_inv_progress [OF _ smp_reach_inv [OF assms(1)] _ assms(2)] by blast

text \<open>
  One node with two operating-system processes of two and one processes: all three have entered,
  the member polls, and both leaders are in the barrier of the node.
\<close>

definition two_one :: smp where
  "two_one = barrier_smp_intra [[2, 1]] 0 1 0
     (barrier_smp_intra [[2, 1]] 0 0 0 (barrier_smp_intra [[2, 1]] 0 0 1 smp_init))"

lemmas smp_eval = barrier_smp_intra_def node_phase_def has_colocated_def has_node_comm_def
  MPIR_Barrier_intra_def barrier_round_def coll_defs set_spc_def set_bvars_def smp_init_def
  zero_bvars_def coll_init_def upd3_def Let_def

lemma two_one_reach: "smp_reach [[2, 1]] two_one"
proof -
  let ?a = "barrier_smp_intra [[2, 1]] 0 0 1 smp_init"
  have "smp_reach [[2, 1]] ?a"
    by (rule smp_reach.call [OF smp_reach.init]) (simp_all add: is_proc_def smp_init_def)
  then have "smp_reach [[2, 1]] (barrier_smp_intra [[2, 1]] 0 0 0 ?a)"
    by (rule smp_reach.call) (simp_all add: is_proc_def smp_eval)
  then show ?thesis unfolding two_one_def
    by (rule smp_reach.call) (simp_all add: is_proc_def smp_eval)
qed

lemma two_one_pcs: "spc two_one 0 0 0 = In_node" "spc two_one 0 0 1 = Member 0" "spc two_one 0 1 0 = In_node"
  by (simp_all add: two_one_def smp_eval)

lemma two_one_procs: "is_proc [[2, 1]] n i r \<longleftrightarrow> (n, i, r) \<in> {(0, 0, 0), (0, 0, 1), (0, 1, 0)}"
  by (auto simp: is_proc_def less_Suc_eq numeral_2_eq_2 nth_Cons split: nat.splits)

lemma two_one_all_in: "nobody_missing [[2, 1]] two_one"
  unfolding nobody_missing_def two_one_procs using two_one_pcs by auto

theorem smp_barrier_correct_witness:
  "left two_one 0 0 1 \<le> entered two_one 0 1 0 \<and>
   (\<exists>m j q. is_proc [[2, 1]] m j q \<and> smp_step [[2, 1]] m j q two_one \<noteq> None)"
proof -
  have "is_proc [[2, 1]] 0 0 1" "is_proc [[2, 1]] 0 1 0" by (simp_all add: is_proc_def)
  moreover have "valid_layout [[2, 1]]" by (simp add: valid_layout_def)
  ultimately show ?thesis
    using smp_barrier_correct [OF two_one_reach, of 0 0 1 0 1 0] two_one_all_in two_one_pcs(2) by (metis smp_pc.distinct(1))
qed

end
