(* ===== verification/Nbc_Sched.thy ===== *)
theory Nbc_Sched
  imports Rank_Map Recv_Queue
begin

section \<open>Schedules of nonblocking collectives (\<^verbatim>\<open>mpid_sched.c\<close>)\<close>

text \<open>
  A nonblocking collective is a vector of entries (sends, receives, local reductions and copies,
  callbacks), some of them marked as barriers.  \<^verbatim>\<open>MPID_Sched_start\<close> and the progress engine start
  the entries in order, but nothing behind a barrier before everything up to it is over;
  \<^verbatim>\<open>idx\<close> is the first entry that is not over.  In FG-MPI every coroutine has its own list of
  schedules, while the hook of the progress engine and the count of the pending schedules are
  shared by the coroutines of the process.

  What the device and the user's callbacks do is an argument of the operations (\<open>nbc_env\<close>): the
  outcome of posting a message, of a local operation and of a callback, which may append entries,
  and which requests are complete with what status, and whether the hook can be registered.  A callback may append callbacks for ever, so the loops are
  partial functions; \<open>None\<close> is not returning.  Reference counts are not modelled.
\<close>

subsection \<open>Entries and schedules\<close>

datatype MPIR_Errflag_t = MPIR_ERR_NONE | MPIR_ERR_PROC_FAILED | MPIR_ERR_OTHER

text \<open>The class of the code a call of the device or a callback returns.\<close>

datatype ret = MPI_SUCCESS | MPIX_ERR_PROC_FAILED | MPIX_ERR_REVOKED | Other_error

datatype MPIDU_Sched_entry_status = NOT_STARTED | STARTED | COMPLETE | FAILED | INVALID

record MPIDU_Sched_send =
  send_buf :: addr
  send_count :: int
  send_count_p :: addr
  send_datatype :: int
  send_dest :: int
  send_comm :: addr
  sreq :: addr
  is_sync :: bool

record MPIDU_Sched_recv =
  recv_buf :: addr
  recv_count :: int
  recv_datatype :: int
  recv_src :: int
  recv_comm :: addr
  rreq :: addr
  recv_status :: addr

record MPIDU_Sched_reduce =
  red_inbuf :: addr
  red_inoutbuf :: addr
  red_count :: int
  red_datatype :: int
  red_op :: int

record MPIDU_Sched_copy =
  cp_inbuf :: addr
  cp_incount :: int
  cp_intype :: int
  cp_outbuf :: addr
  cp_outcount :: int
  cp_outtype :: int

datatype MPIDU_Sched_cb_type = MPIDU_SCHED_CB_TYPE_1 | MPIDU_SCHED_CB_TYPE_2

record MPIDU_Sched_cb =
  cb_type :: MPIDU_Sched_cb_type
  cb_p :: addr
  cb_state :: addr
  cb_state2 :: addr

datatype entry_u =
    SEND MPIDU_Sched_send
  | RECV MPIDU_Sched_recv
  | REDUCE MPIDU_Sched_reduce
  | COPY MPIDU_Sched_copy
  | NOP
  | CB MPIDU_Sched_cb

record MPIDU_Sched_entry =
  e_u :: entry_u
  e_status :: MPIDU_Sched_entry_status
  is_barrier :: bool

text \<open>\<^verbatim>\<open>num_entries\<close> is the length of \<open>entries\<close>; \<open>entries_null\<close> is set when a reallocation failed.\<close>

record MPIDU_Sched =
  capacity :: nat
  idx :: nat
  tag :: int
  req :: addr
  entries :: "MPIDU_Sched_entry list"
  entries_null :: bool
  errflag :: MPIR_Errflag_t

text \<open>The test \<^verbatim>\<open>status >= MPIDU_SCHED_ENTRY_STATUS_COMPLETE\<close>.\<close>

definition over :: "MPIDU_Sched_entry \<Rightarrow> bool" where
  "over e \<longleftrightarrow> e_status e \<in> {COMPLETE, FAILED, INVALID}"

definition MPIDU_SCHED_INITIAL_ENTRIES :: nat where
  "MPIDU_SCHED_INITIAL_ENTRIES = 16"

definition MPID_Sched_create :: MPIDU_Sched where
  "MPID_Sched_create = \<lparr>capacity = MPIDU_SCHED_INITIAL_ENTRIES, idx = 0, tag = -1, req = NULL,
     entries = [], entries_null = False, errflag = MPIR_ERR_NONE\<rparr>"

subsection \<open>Building a schedule\<close>

text \<open>The result is false when the memory for a larger vector is not to be had (\<^verbatim>\<open>**nomem\<close>).\<close>

definition MPIDU_Sched_add_entry :: "(nat \<Rightarrow> bool) \<Rightarrow> entry_u \<Rightarrow> MPIDU_Sched \<Rightarrow> (bool \<times> MPIDU_Sched) outcome" where
  "MPIDU_Sched_add_entry ok u s =
     bind_outcome (check (\<not> entries_null s) ''s->entries != NULL'') (\<lambda>_.
     bind_outcome (check (capacity s > 0) ''s->size > 0'') (\<lambda>_.
     let e = \<lparr>e_u = u, e_status = NOT_STARTED, is_barrier = False\<rparr> in
     if length (entries s) = capacity s then
       if ok (2 * capacity s) then Inr (True, s\<lparr>capacity := 2 * capacity s, entries := entries s @ [e]\<rparr>)
       else Inr (False, s\<lparr>entries_null := True\<rparr>)
     else Inr (True, s\<lparr>entries := entries s @ [e]\<rparr>)))"

definition MPID_Sched_send where
  "MPID_Sched_send ok buf count datatype' dest comm s =
     MPIDU_Sched_add_entry ok (SEND \<lparr>send_buf = buf, send_count = count, send_count_p = NULL,
       send_datatype = datatype', send_dest = dest, send_comm = comm, sreq = NULL, is_sync = False\<rparr>) s"

definition MPID_Sched_ssend where
  "MPID_Sched_ssend ok buf count datatype' dest comm s =
     MPIDU_Sched_add_entry ok (SEND \<lparr>send_buf = buf, send_count = count, send_count_p = NULL,
       send_datatype = datatype', send_dest = dest, send_comm = comm, sreq = NULL, is_sync = True\<rparr>) s"

definition MPID_Sched_send_defer where
  "MPID_Sched_send_defer ok buf count_p datatype' dest comm s =
     MPIDU_Sched_add_entry ok (SEND \<lparr>send_buf = buf, send_count = MPI_UNDEFINED, send_count_p = count_p,
       send_datatype = datatype', send_dest = dest, send_comm = comm, sreq = NULL, is_sync = False\<rparr>) s"

definition MPID_Sched_recv_status where
  "MPID_Sched_recv_status ok buf count datatype' src comm status s =
     MPIDU_Sched_add_entry ok (RECV \<lparr>recv_buf = buf, recv_count = count, recv_datatype = datatype',
       recv_src = src, recv_comm = comm, rreq = NULL, recv_status = status\<rparr>) s"

definition MPI_STATUS_IGNORE :: addr where
  "MPI_STATUS_IGNORE = 1"

definition MPID_Sched_recv where
  "MPID_Sched_recv ok buf count datatype' src comm s =
     MPIDU_Sched_add_entry ok (RECV \<lparr>recv_buf = buf, recv_count = count, recv_datatype = datatype',
       recv_src = src, recv_comm = comm, rreq = NULL, recv_status = MPI_STATUS_IGNORE\<rparr>) s"

definition MPID_Sched_reduce where
  "MPID_Sched_reduce ok inbuf inoutbuf count datatype' op s =
     MPIDU_Sched_add_entry ok (REDUCE \<lparr>red_inbuf = inbuf, red_inoutbuf = inoutbuf, red_count = count,
       red_datatype = datatype', red_op = op\<rparr>) s"

definition MPID_Sched_copy where
  "MPID_Sched_copy ok inbuf incount intype outbuf outcount outtype s =
     MPIDU_Sched_add_entry ok (COPY \<lparr>cp_inbuf = inbuf, cp_incount = incount, cp_intype = intype,
       cp_outbuf = outbuf, cp_outcount = outcount, cp_outtype = outtype\<rparr>) s"

definition MPID_Sched_barrier :: "MPIDU_Sched \<Rightarrow> (bool \<times> MPIDU_Sched) outcome" where
  "MPID_Sched_barrier s =
     (if length (entries s) > 0 then
        let k = length (entries s) - 1 in
        Inr (True, s\<lparr>entries := (entries s)[k := (entries s ! k)\<lparr>is_barrier := True\<rparr>]\<rparr>)
      else Inr (True, s))"

definition MPID_Sched_cb where
  "MPID_Sched_cb ok p state s =
     MPIDU_Sched_add_entry ok (CB \<lparr>cb_type = MPIDU_SCHED_CB_TYPE_1, cb_p = p, cb_state = state, cb_state2 = NULL\<rparr>) s"

definition MPID_Sched_cb2 where
  "MPID_Sched_cb2 ok p state state2 s =
     MPIDU_Sched_add_entry ok (CB \<lparr>cb_type = MPIDU_SCHED_CB_TYPE_2, cb_p = p, cb_state = state, cb_state2 = state2\<rparr>) s"

text \<open>A call of the building interface, as a user of the schedule or a callback makes it.\<close>

datatype build =
    B_send addr int int int addr
  | B_ssend addr int int int addr
  | B_send_defer addr addr int int addr
  | B_recv_status addr int int int addr addr
  | B_recv addr int int int addr
  | B_reduce addr addr int int int
  | B_copy addr int int addr int int
  | B_barrier
  | B_cb addr addr
  | B_cb2 addr addr addr

fun build_call :: "(nat \<Rightarrow> bool) \<Rightarrow> build \<Rightarrow> MPIDU_Sched \<Rightarrow> (bool \<times> MPIDU_Sched) outcome" where
  "build_call ok (B_send b c d t m) s = MPID_Sched_send ok b c d t m s"
| "build_call ok (B_ssend b c d t m) s = MPID_Sched_ssend ok b c d t m s"
| "build_call ok (B_send_defer b c d t m) s = MPID_Sched_send_defer ok b c d t m s"
| "build_call ok (B_recv_status b c d t m st) s = MPID_Sched_recv_status ok b c d t m st s"
| "build_call ok (B_recv b c d t m) s = MPID_Sched_recv ok b c d t m s"
| "build_call ok (B_reduce i j c d p) s = MPID_Sched_reduce ok i j c d p s"
| "build_call ok (B_copy i c t j d u) s = MPID_Sched_copy ok i c t j d u s"
| "build_call ok B_barrier s = MPID_Sched_barrier s"
| "build_call ok (B_cb p a) s = MPID_Sched_cb ok p a s"
| "build_call ok (B_cb2 p a b) s = MPID_Sched_cb2 ok p a b s"

fun build_all :: "(nat \<Rightarrow> bool) \<Rightarrow> build list \<Rightarrow> MPIDU_Sched \<Rightarrow> (bool \<times> MPIDU_Sched) outcome" where
  "build_all ok [] s = Inr (True, s)"
| "build_all ok (b # bs) s =
     bind_outcome (build_call ok b s) (\<lambda>(done, s1). if done then build_all ok bs s1 else Inr (False, s1))"

subsection \<open>Starting entries\<close>

datatype posted = Posted addr | Refused ret

record MPI_Status =
  MPI_SOURCE :: int
  MPI_TAG :: "32 word"
  MPI_ERROR :: ret

record nbc_env =
  env_ok :: "nat \<Rightarrow> bool"
  env_issue :: "nat \<Rightarrow> entry_u \<Rightarrow> int \<Rightarrow> posted"
  env_local :: "nat \<Rightarrow> entry_u \<Rightarrow> ret"
  env_cb :: "nat \<Rightarrow> MPIDU_Sched_cb \<Rightarrow> int \<Rightarrow> ret \<times> build list"
  env_done :: "addr \<Rightarrow> bool"
  env_stat :: "addr \<Rightarrow> MPI_Status"
  env_hook :: ret

definition set_entry :: "nat \<Rightarrow> entry_u \<Rightarrow> MPIDU_Sched_entry_status \<Rightarrow> MPIDU_Sched \<Rightarrow> MPIDU_Sched" where
  "set_entry i u st s = s\<lparr>entries := (entries s)[i := (entries s ! i)\<lparr>e_u := u, e_status := st\<rparr>]\<rparr>"

text \<open>An error that does not end the schedule is kept in the request's flag, the first one only.\<close>

definition note_error :: "ret \<Rightarrow> MPIDU_Sched \<Rightarrow> MPIDU_Sched" where
  "note_error c s =
     (if errflag s = MPIR_ERR_NONE
      then s\<lparr>errflag := (if c = MPIX_ERR_PROC_FAILED then MPIR_ERR_PROC_FAILED else MPIR_ERR_OTHER)\<rparr>
      else s)"

text \<open>The first component is the returned code.\<close>

definition MPIDU_Sched_start_entry :: "nbc_env \<Rightarrow> nat \<Rightarrow> MPIDU_Sched \<Rightarrow> (ret \<times> MPIDU_Sched) outcome" where
  "MPIDU_Sched_start_entry env i s =
     (let e = entries s ! i in
      bind_outcome (check (e_status e = NOT_STARTED) ''e->status == NOT_STARTED'') (\<lambda>_.
      case e_u e of
        SEND a \<Rightarrow>
          (case env_issue env i (SEND a) (tag s) of
             Posted r \<Rightarrow> Inr (MPI_SUCCESS, set_entry i (SEND (a\<lparr>sreq := r\<rparr>)) STARTED s)
           | Refused c \<Rightarrow> Inr (MPI_SUCCESS, set_entry i (SEND a) FAILED (note_error c s)))
      | RECV a \<Rightarrow>
          (case env_issue env i (RECV a) (tag s) of
             Posted r \<Rightarrow> Inr (MPI_SUCCESS, set_entry i (RECV (a\<lparr>rreq := r\<rparr>)) STARTED s)
           | Refused c \<Rightarrow> Inr (MPI_SUCCESS, set_entry i (RECV a) FAILED (note_error c s)))
      | REDUCE a \<Rightarrow>
          if env_local env i (REDUCE a) = MPI_SUCCESS then Inr (MPI_SUCCESS, set_entry i (REDUCE a) COMPLETE s)
          else Inr (env_local env i (REDUCE a), set_entry i (REDUCE a) FAILED s)
      | COPY a \<Rightarrow>
          if env_local env i (COPY a) = MPI_SUCCESS then Inr (MPI_SUCCESS, set_entry i (COPY a) COMPLETE s)
          else Inr (env_local env i (COPY a), set_entry i (COPY a) FAILED s)
      | NOP \<Rightarrow> Inr (MPI_SUCCESS, s)
      | CB a \<Rightarrow>
          let (c, bs) = env_cb env i a (tag s) in
          bind_outcome (build_all (env_ok env) bs s) (\<lambda>(_, s1).
          if entries_null s1 then Inl (Undefined ''s->entries[idx]'')
          else Inr (MPI_SUCCESS, set_entry i (CB a) COMPLETE (if c = MPI_SUCCESS then s1 else note_error c s1)))))"

partial_function (option) continue_from ::
  "nbc_env \<Rightarrow> nat \<Rightarrow> MPIDU_Sched \<Rightarrow> (ret \<times> MPIDU_Sched) outcome option" where
  "continue_from env i s =
     (if i < length (entries s) then
        (case (if e_status (entries s ! i) = NOT_STARTED then MPIDU_Sched_start_entry env i s
               else Inr (MPI_SUCCESS, s)) of
           Inl f \<Rightarrow> Some (Inl f)
         | Inr (c, s1) \<Rightarrow>
             if c \<noteq> MPI_SUCCESS then Some (Inr (c, s1))
             else
               let e = entries s1 ! i;
                   s2 = (if i = idx s1 \<and> over e then s1\<lparr>idx := Suc (idx s1)\<rparr> else s1)
               in if is_barrier e \<and> (\<not> over e \<or> idx s2 \<noteq> Suc i) then Some (Inr (MPI_SUCCESS, s2))
                  else continue_from env (Suc i) s2)
      else Some (Inr (MPI_SUCCESS, s)))"

definition MPIDU_Sched_continue :: "nbc_env \<Rightarrow> MPIDU_Sched \<Rightarrow> (ret \<times> MPIDU_Sched) outcome option" where
  "MPIDU_Sched_continue env s = continue_from env (idx s) s"

subsection \<open>Progress on one schedule\<close>

text \<open>The flag an error that came with a received message leaves; the first error stays.\<close>

definition MPIR_Process_status :: "MPI_Status \<Rightarrow> MPIR_Errflag_t \<Rightarrow> MPIR_Errflag_t" where
  "MPIR_Process_status status flag =
     (if MPI_PROC_NULL \<noteq> MPI_SOURCE status \<and>
         (MPI_ERROR status = MPIX_ERR_REVOKED \<or> MPI_ERROR status = MPIX_ERR_PROC_FAILED \<or>
          MPIR_TAG_CHECK_ERROR_BIT (MPI_TAG status)) \<and> flag = MPIR_ERR_NONE then
        if MPIR_TAG_CHECK_PROC_FAILURE_BIT (MPI_TAG status) \<or> MPI_ERROR status = MPIX_ERR_PROC_FAILED
        then MPIR_ERR_PROC_FAILED else MPIR_ERR_OTHER
      else flag)"

text \<open>Whether the request of an entry is complete, and what is done with it.\<close>

definition check_entry :: "nbc_env \<Rightarrow> nat \<Rightarrow> MPIDU_Sched \<Rightarrow> MPIDU_Sched" where
  "check_entry env i s =
     (case e_u (entries s ! i) of
        SEND a \<Rightarrow>
          if sreq a \<noteq> NULL \<and> env_done env (sreq a) then
            set_entry i (SEND (a\<lparr>sreq := NULL\<rparr>)) (if errflag s \<noteq> MPIR_ERR_NONE then FAILED else COMPLETE) s
          else s
      | RECV a \<Rightarrow>
          if rreq a \<noteq> NULL \<and> env_done env (rreq a) then
            let s1 = s\<lparr>errflag := MPIR_Process_status (env_stat env (rreq a)) (errflag s)\<rparr> in
            set_entry i (RECV (a\<lparr>rreq := NULL\<rparr>)) (if errflag s1 \<noteq> MPIR_ERR_NONE then FAILED else COMPLETE) s1
          else s
      | _ \<Rightarrow> s)"

partial_function (option) progress_from ::
  "nbc_env \<Rightarrow> nat \<Rightarrow> MPIDU_Sched \<Rightarrow> (ret \<times> MPIDU_Sched) outcome option" where
  "progress_from env i s =
     (if i < length (entries s) then
        let s1 = check_entry env i s; e = entries s1 ! i in
        if i = idx s1 \<and> over e then
          let s2 = s1\<lparr>idx := Suc (idx s1)\<rparr> in
          if is_barrier e then
            Option.bind (MPIDU_Sched_continue env s2) (\<lambda>r.
              case r of
                Inl f \<Rightarrow> Some (Inl f)
              | Inr (c, s3) \<Rightarrow> if c \<noteq> MPI_SUCCESS then Some (Inr (c, s3)) else progress_from env (Suc i) s3)
          else progress_from env (Suc i) s2
        else if is_barrier e \<and> \<not> over e then Some (Inr (MPI_SUCCESS, s1))
        else progress_from env (Suc i) s1
      else Some (Inr (MPI_SUCCESS, s)))"

definition poll_sched :: "nbc_env \<Rightarrow> MPIDU_Sched \<Rightarrow> (ret \<times> MPIDU_Sched) outcome option" where
  "poll_sched env s = progress_from env (idx s) s"

subsection \<open>What holds of a schedule\<close>

text \<open>A send or receive has a request exactly while it is under way.\<close>

definition entry_ok :: "MPIDU_Sched_entry \<Rightarrow> bool" where
  "entry_ok e \<longleftrightarrow>
     e_status e \<noteq> INVALID \<and>
     (case e_u e of
        SEND a \<Rightarrow> sreq a \<noteq> NULL \<longleftrightarrow> e_status e = STARTED
      | RECV a \<Rightarrow> rreq a \<noteq> NULL \<longleftrightarrow> e_status e = STARTED
      | NOP \<Rightarrow> False
      | _ \<Rightarrow> e_status e \<noteq> STARTED)"

lemma entry_ok_cong: "e_u e = e_u e' \<Longrightarrow> e_status e = e_status e' \<Longrightarrow> entry_ok e = entry_ok e'"
  by (cases "e_u e'") (simp_all add: entry_ok_def)

definition entries_ok :: "MPIDU_Sched \<Rightarrow> bool" where
  "entries_ok s \<longleftrightarrow> capacity s > 0 \<and> length (entries s) \<le> capacity s \<and> \<not> entries_null s \<and> (\<forall>e\<in>set (entries s). entry_ok e)"

definition over_at :: "MPIDU_Sched \<Rightarrow> nat \<Rightarrow> bool" where
  "over_at s k \<longleftrightarrow> over (entries s ! k)"

definition begun_at :: "MPIDU_Sched \<Rightarrow> nat \<Rightarrow> bool" where
  "begun_at s k \<longleftrightarrow> e_status (entries s ! k) \<noteq> NOT_STARTED"

definition barrier_at :: "MPIDU_Sched \<Rightarrow> nat \<Rightarrow> bool" where
  "barrier_at s k \<longleftrightarrow> is_barrier (entries s ! k)"

text \<open>Nothing behind a barrier has been started before everything up to the barrier is over.\<close>

definition barriers_respected :: "MPIDU_Sched \<Rightarrow> bool" where
  "barriers_respected s \<longleftrightarrow>
     (\<forall>b j. b < j \<and> j < length (entries s) \<and> barrier_at s b \<and> begun_at s j \<longrightarrow> (\<forall>k\<le>b. over_at s k))"

definition over_before_idx :: "MPIDU_Sched \<Rightarrow> bool" where
  "over_before_idx s \<longleftrightarrow> idx s \<le> length (entries s) \<and> (\<forall>k<idx s. over_at s k)"

definition sched_base :: "MPIDU_Sched \<Rightarrow> bool" where
  "sched_base s \<longleftrightarrow> entries_ok s \<and> barriers_respected s \<and> over_before_idx s"

text \<open>Everything from \<open>idx\<close> up to the next barrier has been started.\<close>

definition window_begun :: "MPIDU_Sched \<Rightarrow> bool" where
  "window_begun s \<longleftrightarrow>
     (\<forall>j. idx s \<le> j \<and> j < length (entries s) \<and> (\<forall>b. idx s \<le> b \<and> b < j \<longrightarrow> \<not> barrier_at s b) \<longrightarrow> begun_at s j)"

definition idx_waits :: "MPIDU_Sched \<Rightarrow> bool" where
  "idx_waits s \<longleftrightarrow> (idx s < length (entries s) \<longrightarrow> \<not> over_at s (idx s))"

text \<open>What a device and a callback are relied on for: requests are not null, memory does not run out.\<close>

definition device_ok :: "nbc_env \<Rightarrow> bool" where
  "device_ok env \<longleftrightarrow> (\<forall>i u t r. env_issue env i u t = Posted r \<longrightarrow> r \<noteq> NULL) \<and> (\<forall>n. env_ok env n)"

text \<open>Local operations succeed; and, moreover, callbacks append nothing.\<close>

definition no_fatal :: "nbc_env \<Rightarrow> bool" where
  "no_fatal env \<longleftrightarrow> (\<forall>i u. env_local env i u = MPI_SUCCESS)"

definition quiet :: "nbc_env \<Rightarrow> bool" where
  "quiet env \<longleftrightarrow> device_ok env \<and> no_fatal env \<and> (\<forall>i a t. snd (env_cb env i a t) = [])"

lemma at_idx [simp]:
  "over_at (s\<lparr>idx := x\<rparr>) = over_at s" "begun_at (s\<lparr>idx := x\<rparr>) = begun_at s" "barrier_at (s\<lparr>idx := x\<rparr>) = barrier_at s"
  by (simp_all add: fun_eq_iff over_at_def begun_at_def barrier_at_def)

lemma over_begun: "over_at s k \<Longrightarrow> begun_at s k"
  by (auto simp: over_at_def over_def begun_at_def)

subsection \<open>Appending\<close>

text \<open>\<open>grown s s'\<close>: entries were appended and the last old one may have been marked as a barrier.\<close>

definition grown :: "MPIDU_Sched \<Rightarrow> MPIDU_Sched \<Rightarrow> bool" where
  "grown s s' \<longleftrightarrow>
     length (entries s) \<le> length (entries s') \<and> idx s' = idx s \<and> req s' = req s \<and>
     (\<forall>k<length (entries s). e_u (entries s' ! k) = e_u (entries s ! k) \<and> e_status (entries s' ! k) = e_status (entries s ! k)) \<and>
     (\<forall>k. Suc k < length (entries s) \<longrightarrow> is_barrier (entries s' ! k) = is_barrier (entries s ! k)) \<and>
     (\<forall>k. length (entries s) \<le> k \<and> k < length (entries s') \<longrightarrow>
        e_status (entries s' ! k) = NOT_STARTED \<and> entry_ok (entries s' ! k)) \<and>
     (entries_ok s \<longrightarrow> entries_ok s')"

lemma grown_refl [simp]: "grown s s"
  by (auto simp: grown_def)

lemma grownD:
  assumes "grown s s'"
  shows "length (entries s) \<le> length (entries s')" "idx s' = idx s"
    "k < length (entries s) \<Longrightarrow> e_u (entries s' ! k) = e_u (entries s ! k)"
    "k < length (entries s) \<Longrightarrow> e_status (entries s' ! k) = e_status (entries s ! k)"
    "Suc k < length (entries s) \<Longrightarrow> is_barrier (entries s' ! k) = is_barrier (entries s ! k)"
    "length (entries s) \<le> k \<Longrightarrow> k < length (entries s') \<Longrightarrow> e_status (entries s' ! k) = NOT_STARTED"
    "length (entries s) \<le> k \<Longrightarrow> k < length (entries s') \<Longrightarrow> entry_ok (entries s' ! k)"
    "entries_ok s \<Longrightarrow> entries_ok s'"
  using assms by (simp_all add: grown_def)

lemma grown_req: "grown s s' \<Longrightarrow> req s' = req s"
  by (simp add: grown_def)

lemma grown_trans: "grown s s' \<Longrightarrow> grown s' s'' \<Longrightarrow> grown s s''"
proof -
  assume a: "grown s s'" "grown s' s''"
  note x = grownD [OF a(1)] and y = grownD [OF a(2)]
  have new: "e_status (entries s'' ! k) = NOT_STARTED \<and> entry_ok (entries s'' ! k)"
    if "length (entries s) \<le> k" "k < length (entries s'')" for k
  proof (cases "k < length (entries s')")
    case True
    then have "e_u (entries s'' ! k) = e_u (entries s' ! k)" "e_status (entries s'' ! k) = e_status (entries s' ! k)"
      using y(3,4) by blast+
    then show ?thesis using x(6,7) [OF that(1) True] entry_ok_cong by metis
  next
    case False
    then show ?thesis using y(6,7) [of k] that(2) by simp
  qed
  have old: "e_u (entries s'' ! k) = e_u (entries s ! k)" "e_status (entries s'' ! k) = e_status (entries s ! k)"
    if "k < length (entries s)" for k
    using x(1,3,4) y(3,4) that less_le_trans by metis+
  have bar: "is_barrier (entries s'' ! k) = is_barrier (entries s ! k)" if "Suc k < length (entries s)" for k
    using x(1,5) y(5) that less_le_trans by metis
  show "grown s s''" unfolding grown_def using x(1,2,8) y(1,2,8) grown_req [OF a(1)] grown_req [OF a(2)] new old bar by simp
qed

definition fresh_u :: "entry_u \<Rightarrow> bool" where
  "fresh_u u \<longleftrightarrow> (case u of SEND a \<Rightarrow> sreq a = NULL | RECV a \<Rightarrow> rreq a = NULL | NOP \<Rightarrow> False | _ \<Rightarrow> True)"

lemma add_entry_grown:
  assumes "MPIDU_Sched_add_entry ok u s = Inr (d, s')" "fresh_u u" "\<And>n. ok n"
  shows "grown s s' \<and> d"
proof -
  let ?e = "\<lparr>e_u = u, e_status = NOT_STARTED, is_barrier = False\<rparr>"
  have e: "entry_ok ?e" using assms(2) by (auto simp: entry_ok_def fresh_u_def split: entry_u.splits)
  show ?thesis
    using assms(1,3) e
    by (auto simp: MPIDU_Sched_add_entry_def bind_outcome_Inr_iff Let_def grown_def entries_ok_def nth_append
        split: if_splits)
qed

lemma barrier_grown:
  assumes "MPID_Sched_barrier s = Inr (d, s')"
  shows "grown s s' \<and> d"
proof (cases "entries s = []")
  case True
  then show ?thesis using assms by (simp add: MPID_Sched_barrier_def)
next
  case False
  let ?k = "length (entries s) - 1"
  let ?e = "(entries s ! ?k)\<lparr>is_barrier := True\<rparr>"
  have s': "s' = s\<lparr>entries := (entries s)[?k := ?e]\<rparr>" "d" using assms False by (auto simp: MPID_Sched_barrier_def Let_def)
  have "entry_ok ?e = entry_ok (entries s ! ?k)" by (rule entry_ok_cong) simp_all
  moreover have "entries s ! ?k \<in> set (entries s)" using False by simp
  ultimately have "entries_ok s'" if "entries_ok s"
    using that set_update_subset_insert [of "entries s" ?k ?e] unfolding s' entries_ok_def by auto
  then show ?thesis using s' False by (auto simp: grown_def nth_list_update)
qed

lemma build_call_grown:
  assumes "build_call ok b s = Inr (d, s')" "\<And>n. ok n"
  shows "grown s s' \<and> d"
  using assms
  by (cases b) (auto simp: MPID_Sched_send_def MPID_Sched_ssend_def MPID_Sched_send_defer_def MPID_Sched_recv_status_def
      MPID_Sched_recv_def MPID_Sched_reduce_def MPID_Sched_copy_def MPID_Sched_cb_def MPID_Sched_cb2_def
      fresh_u_def dest!: add_entry_grown barrier_grown)

lemma build_all_grown:
  assumes "\<And>n. ok n"
  shows "build_all ok bs s = Inr (d, s') \<Longrightarrow> grown s s' \<and> d"
proof (induction bs arbitrary: s)
  case (Cons b bs)
  then obtain d1 s1 where b: "build_call ok b s = Inr (d1, s1)"
    by (auto simp: bind_outcome_Inr_iff)
  then have "grown s s1" "d1" using build_call_grown assms by blast+
  then show ?case using Cons b grown_trans by auto
qed auto

lemma build_call_ok:
  assumes "entries_ok s"
  shows "\<exists>d s'. build_call ok b s = Inr (d, s')"
proof -
  have "\<exists>d s'. MPIDU_Sched_add_entry ok u s = Inr (d, s')" for u
    using assms by (cases "ok (2 * capacity s)") (auto simp: MPIDU_Sched_add_entry_def entries_ok_def Let_def)
  then show ?thesis
    by (cases b) (simp_all add: MPID_Sched_send_def MPID_Sched_ssend_def MPID_Sched_send_defer_def MPID_Sched_recv_status_def
        MPID_Sched_recv_def MPID_Sched_reduce_def MPID_Sched_copy_def MPID_Sched_cb_def MPID_Sched_cb2_def
        MPID_Sched_barrier_def Let_def, blast)
qed

lemma build_all_ok:
  assumes "\<And>n. ok n"
  shows "entries_ok s \<Longrightarrow> \<exists>s'. build_all ok bs s = Inr (True, s') \<and> grown s s'"
proof (induction bs arbitrary: s)
  case (Cons b bs)
  obtain d s1 where b: "build_call ok b s = Inr (d, s1)" using build_call_ok [OF Cons.prems] by blast
  then have g: "grown s s1" "d" using build_call_grown assms by blast+
  then have "entries_ok s1" using Cons.prems by (simp add: grown_def)
  then obtain s' where "build_all ok bs s1 = Inr (True, s')" "grown s1 s'" using Cons.IH by blast
  then show ?case using b g grown_trans by auto
qed simp

subsection \<open>Starting an entry\<close>

definition started :: "nat \<Rightarrow> MPIDU_Sched \<Rightarrow> MPIDU_Sched \<Rightarrow> bool" where
  "started i s s' \<longleftrightarrow>
     idx s' = idx s \<and> length (entries s) \<le> length (entries s') \<and> entries_ok s' \<and> begun_at s' i \<and>
     (\<forall>k<length (entries s). k \<noteq> i \<longrightarrow> e_status (entries s' ! k) = e_status (entries s ! k)) \<and>
     (\<forall>k. Suc k < length (entries s) \<longrightarrow> barrier_at s' k = barrier_at s k) \<and>
     (\<forall>k. length (entries s) \<le> k \<and> k < length (entries s') \<longrightarrow> \<not> begun_at s' k)"

lemma note_error_simps [simp]:
  "entries (note_error c s) = entries s" "idx (note_error c s) = idx s" "capacity (note_error c s) = capacity s"
  "entries_null (note_error c s) = entries_null s" "tag (note_error c s) = tag s" "req (note_error c s) = req s"
  by (simp_all add: note_error_def)

lemma set_entry_simps [simp]:
  "idx (set_entry i u st s) = idx s" "length (entries (set_entry i u st s)) = length (entries s)"
  "k \<noteq> i \<Longrightarrow> entries (set_entry i u st s) ! k = entries s ! k"
  "i < length (entries s) \<Longrightarrow> entries (set_entry i u st s) ! i = (entries s ! i)\<lparr>e_u := u, e_status := st\<rparr>"
  "capacity (set_entry i u st s) = capacity s" "entries_null (set_entry i u st s) = entries_null s"
  "errflag (set_entry i u st s) = errflag s"
  by (simp_all add: set_entry_def)

lemma set_entry_barrier [simp]: "i < length (entries s) \<Longrightarrow> barrier_at (set_entry i u st s) k = barrier_at s k"
  by (cases "k = i") (simp_all add: barrier_at_def)

definition pair_ok :: "entry_u \<Rightarrow> MPIDU_Sched_entry_status \<Rightarrow> bool" where
  "pair_ok u st \<longleftrightarrow> entry_ok \<lparr>e_u = u, e_status = st, is_barrier = False\<rparr>"

lemma set_entry_ok:
  assumes "entries_ok s" "i < length (entries s)" "pair_ok u st"
  shows "entries_ok (set_entry i u st s)"
proof -
  have "entry_ok ((entries s ! i)\<lparr>e_u := u, e_status := st\<rparr>) = pair_ok u st"
    unfolding pair_ok_def by (rule entry_ok_cong) simp_all
  then show ?thesis
    using assms set_update_subset_insert [of "entries s" i "(entries s ! i)\<lparr>e_u := u, e_status := st\<rparr>"]
    by (auto simp: entries_ok_def set_entry_def)
qed

lemma started_set_entry:
  assumes "grown s s0" "entries_ok s" "i < length (entries s)" "pair_ok u st" "st \<noteq> NOT_STARTED"
    "entries s1 = entries s0" "idx s1 = idx s0" "capacity s1 = capacity s0" "entries_null s1 = entries_null s0"
  shows "started i s (set_entry i u st s1)"
proof -
  note g = grownD [OF assms(1)]
  have i: "i < length (entries s1)" using assms(3,6) g(1) by simp
  have "entries_ok s1" using g(8) [OF assms(2)] assms(6,8,9) by (simp add: entries_ok_def)
  then have "entries_ok (set_entry i u st s1)" using set_entry_ok i assms(4) by blast
  moreover have "barrier_at (set_entry i u st s1) k = barrier_at s k" if "Suc k < length (entries s)" for k
    using trans [OF set_entry_barrier [OF i]] g(5) [OF that] assms(6) by (simp add: barrier_at_def)
  ultimately show ?thesis unfolding started_def
    using i g(1,2,4,6) assms(3,5,6,7) by (auto simp: begun_at_def)
qed

lemma start_entry_effect:
  assumes i: "i < length (entries s)" and ns: "e_status (entries s ! i) = NOT_STARTED"
    and ok: "entries_ok s" and dev: "device_ok env"
  shows "\<exists>c s'. MPIDU_Sched_start_entry env i s = Inr (c, s') \<and> started i s s' \<and>
    (no_fatal env \<longrightarrow> c = MPI_SUCCESS) \<and> (quiet env \<longrightarrow> length (entries s') = length (entries s))"
proof -
  have e: "entry_ok (entries s ! i)" using ok i by (simp add: entries_ok_def)
  have st: "started i s (set_entry i u st (note_error c s))" "started i s (set_entry i u st s)"
    if "pair_ok u st" "st \<noteq> NOT_STARTED" for u st c
    by (rule started_set_entry [OF grown_refl ok i that]; simp)+
  have dn: "env_issue env i u t = Posted r \<Longrightarrow> r \<noteq> NULL" for u t r using dev by (simp add: device_ok_def)
  show ?thesis
  proof (cases "e_u (entries s ! i)")
    case (SEND a)
    have "pair_ok (SEND a) FAILED" "r \<noteq> NULL \<Longrightarrow> pair_ok (SEND (a\<lparr>sreq := r\<rparr>)) STARTED" for r
      using e ns SEND by (simp_all add: pair_ok_def entry_ok_def)
    then show ?thesis using SEND ns dn st
      by (cases "env_issue env i (SEND a) (tag s)") (auto simp: MPIDU_Sched_start_entry_def Let_def)
  next
    case (RECV a)
    have "pair_ok (RECV a) FAILED" "r \<noteq> NULL \<Longrightarrow> pair_ok (RECV (a\<lparr>rreq := r\<rparr>)) STARTED" for r
      using e ns RECV by (simp_all add: pair_ok_def entry_ok_def)
    then show ?thesis using RECV ns dn st
      by (cases "env_issue env i (RECV a) (tag s)") (auto simp: MPIDU_Sched_start_entry_def Let_def)
  next
    case (REDUCE a)
    have "pair_ok (REDUCE a) FAILED" "pair_ok (REDUCE a) COMPLETE" by (simp_all add: pair_ok_def entry_ok_def)
    then show ?thesis using REDUCE ns st i
      by (auto simp: MPIDU_Sched_start_entry_def Let_def no_fatal_def)
  next
    case (COPY a)
    have "pair_ok (COPY a) FAILED" "pair_ok (COPY a) COMPLETE" by (simp_all add: pair_ok_def entry_ok_def)
    then show ?thesis using COPY ns st i
      by (auto simp: MPIDU_Sched_start_entry_def Let_def no_fatal_def)
  next
    case NOP
    then show ?thesis using e by (simp add: entry_ok_def)
  next
    case (CB a)
    obtain c bs where cb: "env_cb env i a (tag s) = (c, bs)" by (cases "env_cb env i a (tag s)")
    obtain s1 where s1: "build_all (env_ok env) bs s = Inr (True, s1)" "grown s s1"
      using build_all_ok [of "env_ok env" s bs] ok dev by (auto simp: device_ok_def)
    have "\<not> entries_null s1" using grownD(8) [OF s1(2) ok] by (simp add: entries_ok_def)
    moreover have "started i s (set_entry i (CB a) COMPLETE (if c = MPI_SUCCESS then s1 else note_error c s1))"
      by (rule started_set_entry [OF s1(2) ok i]) (simp_all add: pair_ok_def entry_ok_def)
    moreover have "length (entries s1) = length (entries s)" if "quiet env"
    proof -
      have "snd (env_cb env i a (tag s)) = []" using that by (simp add: quiet_def)
      then show ?thesis using s1(1) cb by simp
    qed
    ultimately show ?thesis using CB ns cb s1(1) by (simp add: MPIDU_Sched_start_entry_def Let_def)
  qed
qed

subsection \<open>The loop that starts entries\<close>

text \<open>
  Before the entry \<open>i\<close>: everything below \<open>i\<close> has been started, \<open>idx\<close> has stopped at the first
  entry that is not over, and every barrier passed lies below \<open>idx\<close>.
\<close>

definition cont_inv :: "nat \<Rightarrow> MPIDU_Sched \<Rightarrow> bool" where
  "cont_inv i s \<longleftrightarrow>
     sched_base s \<and> idx s \<le> i \<and> i \<le> length (entries s) \<and> (\<forall>k<i. begun_at s k) \<and>
     (idx s < i \<longrightarrow> \<not> over_at s (idx s)) \<and> (\<forall>b<i. barrier_at s b \<longrightarrow> b < idx s)"

lemma cont_inv_idx:
  assumes "sched_base s"
  shows "cont_inv (idx s) s"
  using assms over_begun by (auto simp: cont_inv_def sched_base_def over_before_idx_def)

lemma started_base:
  assumes inv: "cont_inv i s" and i: "i < length (entries s)" and ns: "\<not> begun_at s i" and st: "started i s s'"
  shows "sched_base s'"
proof -
  have base: "sched_base s" and ii: "idx s \<le> i" and ba: "\<forall>b<i. barrier_at s b \<longrightarrow> b < idx s"
    using inv by (simp_all add: cont_inv_def)
  have s1: "idx s' = idx s" "length (entries s) \<le> length (entries s')" "entries_ok s'"
    and same: "\<And>k. k < length (entries s) \<Longrightarrow> k \<noteq> i \<Longrightarrow> e_status (entries s' ! k) = e_status (entries s ! k)"
    and bar: "\<And>k. Suc k < length (entries s) \<Longrightarrow> barrier_at s' k = barrier_at s k"
    and new: "\<And>k. length (entries s) \<le> k \<Longrightarrow> k < length (entries s') \<Longrightarrow> \<not> begun_at s' k"
    using st by (simp_all add: started_def)
  have ov: "over_at s' k = over_at s k" if "k < length (entries s)" "k \<noteq> i" for k
    using same [OF that] by (simp add: over_at_def over_def)
  have bg: "begun_at s' k = begun_at s k" if "k < length (entries s)" "k \<noteq> i" for k
    using same [OF that] by (simp add: begun_at_def)
  have low: "over_at s' k" if "k < idx s" for k
    using that ov [of k] base ii i by (auto simp: sched_base_def over_before_idx_def)
  have "barriers_respected s'" unfolding barriers_respected_def
  proof (intro allI impI)
    fix b j k assume a: "b < j \<and> j < length (entries s') \<and> barrier_at s' b \<and> begun_at s' j" and k: "k \<le> b"
    have j: "j < length (entries s)" using a new [of j] by (meson not_le)
    then have bb: "barrier_at s b" using a bar [of b] by simp
    show "over_at s' k"
    proof (cases "j = i")
      case True
      then have "b < idx s" using a ba bb by simp
      then show ?thesis using low k by simp
    next
      case False
      then have all: "\<forall>k\<le>b. over_at s k"
        using a bb j bg [OF j False] base unfolding sched_base_def barriers_respected_def by blast
      then have "k \<noteq> i" using ns over_begun k by blast
      then show ?thesis using ov [of k] all k a j by simp
    qed
  qed
  then show ?thesis using s1 low base by (auto simp: sched_base_def over_before_idx_def)
qed

text \<open>The entry at \<open>i\<close> is started; then \<open>idx\<close> may step over it.\<close>

lemma cont_inv_step:
  assumes base: "sched_base s1" and ii: "idx s1 \<le> i" and i: "i < length (entries s1)"
    and bg: "\<forall>k\<le>i. begun_at s1 k" and wait: "idx s1 < i \<longrightarrow> \<not> over_at s1 (idx s1)"
    and ba: "\<forall>b<i. barrier_at s1 b \<longrightarrow> b < idx s1"
  defines "s2 \<equiv> (if i = idx s1 \<and> over_at s1 i then s1\<lparr>idx := Suc (idx s1)\<rparr> else s1)"
  shows "sched_base s2" "idx s2 \<le> Suc i" "\<forall>k<Suc i. begun_at s2 k" "idx s2 < Suc i \<longrightarrow> \<not> over_at s2 (idx s2)"
    "\<forall>b<i. barrier_at s2 b \<longrightarrow> b < idx s2" "entries s2 = entries s1" "idx s1 \<le> idx s2"
proof -
  have e: "entries s2 = entries s1" by (simp add: s2_def)
  have at: "over_at s2 = over_at s1" "begun_at s2 = begun_at s1" "barrier_at s2 = barrier_at s1"
    by (simp_all add: fun_eq_iff over_at_def begun_at_def barrier_at_def e)
  show "entries s2 = entries s1" by (rule e)
  show "idx s2 \<le> Suc i" "idx s1 \<le> idx s2" using ii by (simp_all add: s2_def)
  show "\<forall>k<Suc i. begun_at s2 k" using bg by (simp add: at less_Suc_eq_le)
  show "\<forall>b<i. barrier_at s2 b \<longrightarrow> b < idx s2" using ba by (auto simp: at s2_def less_SucI)
  show "idx s2 < Suc i \<longrightarrow> \<not> over_at s2 (idx s2)"
    using wait ii by (auto simp: at s2_def)
  show "sched_base s2"
    using base i unfolding sched_base_def entries_ok_def barriers_respected_def over_before_idx_def
    by (auto simp: s2_def less_Suc_eq)
qed

text \<open>The body of the loop, with the rest of the loop as an argument.\<close>

definition cont_body where
  "cont_body env rest i s =
     (if i < length (entries s) then
        (case (if e_status (entries s ! i) = NOT_STARTED then MPIDU_Sched_start_entry env i s
               else Inr (MPI_SUCCESS, s)) of
           Inl f \<Rightarrow> Some (Inl f)
         | Inr (c, s1) \<Rightarrow>
             if c \<noteq> MPI_SUCCESS then Some (Inr (c, s1))
             else
               let e = entries s1 ! i;
                   s2 = (if i = idx s1 \<and> over e then s1\<lparr>idx := Suc (idx s1)\<rparr> else s1)
               in if is_barrier e \<and> (\<not> over e \<or> idx s2 \<noteq> Suc i) then Some (Inr (MPI_SUCCESS, s2))
                  else rest (Suc i) s2)
      else Some (Inr (MPI_SUCCESS, s)))"

lemma continue_from_body: "continue_from env i s = cont_body env (continue_from env) i s"
  by (subst continue_from.simps) (simp add: cont_body_def)

fun loop_result :: "bool \<Rightarrow> MPIDU_Sched \<Rightarrow> (ret \<times> MPIDU_Sched) outcome \<Rightarrow> bool" where
  "loop_result nf s (Inl f) = False"
| "loop_result nf s (Inr (c, s')) \<longleftrightarrow> (nf \<longrightarrow> c = MPI_SUCCESS) \<and>
     sched_base s' \<and> idx s \<le> idx s' \<and> length (entries s) \<le> length (entries s') \<and>
     (c = MPI_SUCCESS \<longrightarrow> window_begun s' \<and> idx_waits s')"

lemma loop_result_mono:
  "loop_result nf s2 r \<Longrightarrow> idx s \<le> idx s2 \<Longrightarrow> length (entries s) \<le> length (entries s2) \<Longrightarrow> loop_result nf s r"
  by (cases "(nf, s, r)" rule: loop_result.cases) auto

lemma cont_body_cases:
  assumes inv: "cont_inv i s" and dev: "device_ok env"
  shows "(\<exists>c s'. (\<forall>rest. cont_body env rest i s = Some (Inr (c, s'))) \<and> loop_result (no_fatal env) s (Inr (c, s')) \<and>
            (quiet env \<longrightarrow> length (entries s') = length (entries s))) \<or>
    (i < length (entries s) \<and> (\<exists>s2. (\<forall>rest. cont_body env rest i s = rest (Suc i) s2) \<and> cont_inv (Suc i) s2 \<and>
       idx s \<le> idx s2 \<and> length (entries s) \<le> length (entries s2) \<and>
       (quiet env \<longrightarrow> length (entries s2) = length (entries s))))"
proof (cases "i < length (entries s)")
  case False
  then have "i = length (entries s)" using inv by (simp add: cont_inv_def)
  then have "loop_result (no_fatal env) s (Inr (MPI_SUCCESS, s))"
    using inv by (auto simp: cont_inv_def window_begun_def idx_waits_def)
  then show ?thesis using False by (auto simp: cont_body_def)
next
  case i: True
  have base: "sched_base s" and ii: "idx s \<le> i" and bg: "\<forall>k<i. begun_at s k"
    and wait: "idx s < i \<longrightarrow> \<not> over_at s (idx s)" and ba: "\<forall>b<i. barrier_at s b \<longrightarrow> b < idx s"
    using inv by (simp_all add: cont_inv_def)
  define st where "st = (if e_status (entries s ! i) = NOT_STARTED then MPIDU_Sched_start_entry env i s else Inr (MPI_SUCCESS, s))"
  have "\<exists>c s1. st = Inr (c, s1) \<and> sched_base s1 \<and> idx s1 = idx s \<and> length (entries s) \<le> length (entries s1) \<and>
      begun_at s1 i \<and> (\<forall>k<i. e_status (entries s1 ! k) = e_status (entries s ! k) \<and> barrier_at s1 k = barrier_at s k) \<and>
      (no_fatal env \<longrightarrow> c = MPI_SUCCESS) \<and> (quiet env \<longrightarrow> length (entries s1) = length (entries s))"
  proof (cases "begun_at s i")
    case True
    then show ?thesis using base by (auto simp: st_def begun_at_def)
  next
    case False
    have "entries_ok s" using base by (simp add: sched_base_def)
    moreover have ns: "e_status (entries s ! i) = NOT_STARTED" using False by (simp add: begun_at_def)
    ultimately obtain c s1 where s1: "MPIDU_Sched_start_entry env i s = Inr (c, s1)" "started i s s1"
      "no_fatal env \<longrightarrow> c = MPI_SUCCESS" "quiet env \<longrightarrow> length (entries s1) = length (entries s)"
      using start_entry_effect [OF i _ _ dev] by blast
    have "sched_base s1" by (rule started_base [OF inv i False s1(2)])
    then show ?thesis using s1 i ns by (auto simp: st_def started_def)
  qed
  then obtain c s1 where s1: "st = Inr (c, s1)" "sched_base s1" "idx s1 = idx s" "length (entries s) \<le> length (entries s1)"
    "begun_at s1 i" "\<And>k. k < i \<Longrightarrow> e_status (entries s1 ! k) = e_status (entries s ! k)"
    "\<And>k. k < i \<Longrightarrow> barrier_at s1 k = barrier_at s k"
    "no_fatal env \<Longrightarrow> c = MPI_SUCCESS" "quiet env \<Longrightarrow> length (entries s1) = length (entries s)"
    by blast
  define s2 where "s2 = (if i = idx s1 \<and> over_at s1 i then s1\<lparr>idx := Suc (idx s1)\<rparr> else s1)"
  have i1: "i < length (entries s1)" using i s1(4) by simp
  have bg1: "\<forall>k\<le>i. begun_at s1 k"
    using bg s1(5,6) unfolding begun_at_def by (metis le_neq_implies_less)
  have wait1: "idx s1 < i \<longrightarrow> \<not> over_at s1 (idx s1)"
    using wait s1(3) s1(6) [of "idx s"] by (auto simp: over_at_def over_def)
  have ba1: "\<forall>b<i. barrier_at s1 b \<longrightarrow> b < idx s1" using ba s1(3,7) by auto
  have ii1: "idx s1 \<le> i" using ii s1(3) by simp
  note c2 = cont_inv_step [OF s1(2) ii1 i1 bg1 wait1 ba1, folded s2_def]
  have bar: "barrier_at s2 i = barrier_at s1 i" by (simp add: barrier_at_def c2(6))
  have body: "cont_body env rest i s =
     (if c \<noteq> MPI_SUCCESS then Some (Inr (c, s1))
      else if barrier_at s1 i \<and> (\<not> over_at s1 i \<or> idx s2 \<noteq> Suc i) then Some (Inr (MPI_SUCCESS, s2))
      else rest (Suc i) s2)" for rest
    using i s1(1) unfolding cont_body_def st_def [symmetric] s2_def by (auto simp: Let_def over_at_def barrier_at_def)
  have mono: "idx s \<le> idx s2" "length (entries s) \<le> length (entries s2)"
    "quiet env \<Longrightarrow> length (entries s2) = length (entries s)"
    using c2(6,7) s1(3,4,9) by simp_all
  consider (err) "c \<noteq> MPI_SUCCESS" | (stop) "c = MPI_SUCCESS" "barrier_at s1 i \<and> (\<not> over_at s1 i \<or> idx s2 \<noteq> Suc i)"
    | (go) "c = MPI_SUCCESS" "\<not> (barrier_at s1 i \<and> (\<not> over_at s1 i \<or> idx s2 \<noteq> Suc i))" by blast
  then show ?thesis
  proof cases
    case err
    then have "loop_result (no_fatal env) s (Inr (c, s1))" using s1(2-4,8) by auto
    then show ?thesis using err body s1(8,9) by (intro disjI1 exI [of _ c] exI [of _ s1]) auto
  next
    case stop
    have le: "idx s2 \<le> i" using stop(2) c2(2) ii1 by (auto simp: s2_def split: if_splits)
    have "window_begun s2" unfolding window_begun_def
    proof (intro allI impI, elim conjE)
      fix j assume j: "idx s2 \<le> j" "\<forall>b. idx s2 \<le> b \<and> b < j \<longrightarrow> \<not> barrier_at s2 b"
      have "\<not> i < j" using j(2) le bar stop(2) by blast
      then show "begun_at s2 j" using c2(3) by simp
    qed
    moreover have "idx_waits s2" using c2(4) le by (simp add: idx_waits_def)
    ultimately have "loop_result (no_fatal env) s (Inr (MPI_SUCCESS, s2))" using c2(1) mono by simp
    then show ?thesis using body stop mono(3) by (intro disjI1 exI [of _ MPI_SUCCESS] exI [of _ s2]) simp
  next
    case go
    have "\<forall>b<Suc i. barrier_at s2 b \<longrightarrow> b < idx s2" using c2(5) go(2) bar by (auto simp: less_Suc_eq)
    then have "cont_inv (Suc i) s2" unfolding cont_inv_def using c2(1-4,6) i1 by simp
    then show ?thesis using body go i mono by (intro disjI2 conjI exI [of _ s2]) auto
  qed
qed

lemma continue_from_partial:
  assumes "continue_from env i s = Some r" "cont_inv i s" "device_ok env"
  shows "loop_result (no_fatal env) s r"
proof -
  have "device_ok env \<longrightarrow> cont_inv i s \<longrightarrow> loop_result (no_fatal env) s r"
  proof (rule continue_from.raw_induct [where P = "\<lambda>env i s r. device_ok env \<longrightarrow> cont_inv i s \<longrightarrow> loop_result (no_fatal env) s r", OF _ assms(1)],
      intro impI)
    fix rec env i s r
    assume IH: "\<And>env i s r. rec env i s = Some r \<Longrightarrow> device_ok env \<longrightarrow> cont_inv i s \<longrightarrow> loop_result (no_fatal env) s r"
      and dev: "device_ok env" and inv: "cont_inv i s"
    assume "(if i < length (entries s) then
        (case (if e_status (entries s ! i) = NOT_STARTED then MPIDU_Sched_start_entry env i s
               else Inr (MPI_SUCCESS, s)) of
           Inl f \<Rightarrow> Some (Inl f)
         | Inr (c, s1) \<Rightarrow>
             if c \<noteq> MPI_SUCCESS then Some (Inr (c, s1))
             else
               let e = entries s1 ! i;
                   s2 = (if i = idx s1 \<and> over e then s1\<lparr>idx := Suc (idx s1)\<rparr> else s1)
               in if is_barrier e \<and> (\<not> over e \<or> idx s2 \<noteq> Suc i) then Some (Inr (MPI_SUCCESS, s2))
                  else rec env (Suc i) s2)
      else Some (Inr (MPI_SUCCESS, s))) = Some r"
    then have body: "cont_body env (rec env) i s = Some r" unfolding cont_body_def .
    from cont_body_cases [OF inv dev] show "loop_result (no_fatal env) s r"
    proof (elim disjE exE conjE)
      fix c s' assume "\<forall>rest. cont_body env rest i s = Some (Inr (c, s'))" "loop_result (no_fatal env) s (Inr (c, s'))"
      then show ?thesis using body by (metis option.inject)
    next
      fix s2 assume a: "\<forall>rest. cont_body env rest i s = rest (Suc i) s2" "cont_inv (Suc i) s2" "idx s \<le> idx s2"
        "length (entries s) \<le> length (entries s2)"
      have "rec env (Suc i) s2 = Some r" using body a(1) by simp
      then have "loop_result (no_fatal env) s2 r" using IH a(2) dev by blast
      then show ?thesis using loop_result_mono a(3,4) by blast
    qed
  qed
  then show ?thesis using assms(2,3) by blast
qed

lemma continue_from_returns:
  assumes "cont_inv i s" "quiet env"
  shows "\<exists>s'. continue_from env i s = Some (Inr (MPI_SUCCESS, s')) \<and> length (entries s') = length (entries s)"
  using assms(1)
proof (induction "length (entries s) - i" arbitrary: i s rule: less_induct)
  case less
  have dev: "device_ok env" using assms(2) by (simp add: quiet_def)
  show ?case
  proof (cases "i < length (entries s)")
    case False
    then show ?thesis by (subst continue_from.simps) simp
  next
    case True
    from cont_body_cases [OF less.prems dev] show ?thesis
    proof (elim disjE exE conjE)
      fix c s' assume a: "\<forall>rest. cont_body env rest i s = Some (Inr (c, s'))" "loop_result (no_fatal env) s (Inr (c, s'))"
        "quiet env \<longrightarrow> length (entries s') = length (entries s)"
      moreover have "no_fatal env" using assms(2) by (simp add: quiet_def)
      ultimately show ?thesis using assms(2) continue_from_body [of env i s] by simp
    next
      fix s2 assume a: "\<forall>rest. cont_body env rest i s = rest (Suc i) s2" "cont_inv (Suc i) s2"
        "quiet env \<longrightarrow> length (entries s2) = length (entries s)"
      have l: "length (entries s2) = length (entries s)" using a(3) assms(2) by blast
      have "\<exists>s'. continue_from env (Suc i) s2 = Some (Inr (MPI_SUCCESS, s')) \<and> length (entries s') = length (entries s2)"
        by (rule less.hyps) (use True l a(2) in auto)
      then show ?thesis using continue_from_body [of env i s] a(1) l by simp
    qed
  qed
qed

lemma continue_result:
  assumes "MPIDU_Sched_continue env s = Some r" "sched_base s" "device_ok env"
  shows "loop_result (no_fatal env) s r"
  using continue_from_partial assms cont_inv_idx unfolding MPIDU_Sched_continue_def by blast

lemma continue_returns:
  assumes "sched_base s" "quiet env"
  obtains s' where "MPIDU_Sched_continue env s = Some (Inr (MPI_SUCCESS, s'))"
    "loop_result (no_fatal env) s (Inr (MPI_SUCCESS, s'))" "length (entries s') = length (entries s)"
proof -
  have dev: "device_ok env" using assms(2) by (simp add: quiet_def)
  obtain s' where s': "MPIDU_Sched_continue env s = Some (Inr (MPI_SUCCESS, s'))" "length (entries s') = length (entries s)"
    using continue_from_returns [OF cont_inv_idx [OF assms(1)] assms(2)] unfolding MPIDU_Sched_continue_def by blast
  then show ?thesis using that continue_result [OF s'(1) assms(1) dev] by blast
qed

subsection \<open>The loop that looks at the requests\<close>

text \<open>Looking at the request of entry \<open>i\<close> can only turn it from started to over.\<close>

definition checked :: "nat \<Rightarrow> MPIDU_Sched \<Rightarrow> MPIDU_Sched \<Rightarrow> bool" where
  "checked i s s' \<longleftrightarrow>
     idx s' = idx s \<and> length (entries s') = length (entries s) \<and> entries_ok s' \<and>
     (\<forall>k. barrier_at s' k = barrier_at s k) \<and> (\<forall>k. k \<noteq> i \<longrightarrow> entries s' ! k = entries s ! k) \<and>
     (entries s' ! i = entries s ! i \<or> (e_status (entries s ! i) = STARTED \<and> over_at s' i))"

lemma checked_set_entry:
  assumes "entries_ok s" "i < length (entries s)" "e_status (entries s ! i) = STARTED" "pair_ok u st"
    "st = COMPLETE \<or> st = FAILED" "entries s1 = entries s" "idx s1 = idx s" "capacity s1 = capacity s" "entries_null s1 = entries_null s"
  shows "checked i s (set_entry i u st s1)"
proof -
  have ok: "entries_ok s1" using assms by (simp add: entries_ok_def)
  have i: "i < length (entries s1)" using assms by simp
  have "barrier_at (set_entry i u st s1) k = barrier_at s k" for k
    using set_entry_barrier [OF i, of u st k] assms(6) by (simp add: barrier_at_def)
  then show ?thesis
    using set_entry_ok [OF ok i assms(4)] assms(2,3,5-7) by (auto simp: checked_def over_at_def over_def)
qed

lemma check_entry_effect:
  assumes ok: "entries_ok s" and i: "i < length (entries s)"
  shows "checked i s (check_entry env i s)"
proof -
  have e: "entry_ok (entries s ! i)" using ok i by (simp add: entries_ok_def)
  have same: "checked i s s" using ok by (simp add: checked_def)
  show ?thesis
  proof (cases "e_u (entries s ! i)")
    case (SEND a)
    have "checked i s (set_entry i (SEND (a\<lparr>sreq := NULL\<rparr>)) (if errflag s \<noteq> MPIR_ERR_NONE then FAILED else COMPLETE) s)"
      if "sreq a \<noteq> NULL"
      by (rule checked_set_entry [OF ok i]) (use e SEND that in \<open>auto simp: entry_ok_def pair_ok_def\<close>)
    then show ?thesis using SEND same by (simp add: check_entry_def)
  next
    case (RECV a)
    have "checked i s (set_entry i (RECV (a\<lparr>rreq := NULL\<rparr>)) (if f \<noteq> MPIR_ERR_NONE then FAILED else COMPLETE) (s\<lparr>errflag := f\<rparr>))"
      if "rreq a \<noteq> NULL" for f
      by (rule checked_set_entry [OF ok i]) (use e RECV that in \<open>auto simp: entry_ok_def pair_ok_def\<close>)
    then show ?thesis using RECV same by (simp add: check_entry_def Let_def)
  qed (simp_all add: check_entry_def same)
qed

lemma checked_base:
  assumes base: "sched_base s" and w: "window_begun s" and c: "checked i s s'"
  shows "sched_base s'" "window_begun s'" "over_at s k \<Longrightarrow> over_at s' k" "k \<noteq> i \<Longrightarrow> over_at s' k = over_at s k"
proof -
  have f: "idx s' = idx s" "length (entries s') = length (entries s)" "entries_ok s'"
    "\<And>k. barrier_at s' k = barrier_at s k" "\<And>k. k \<noteq> i \<Longrightarrow> entries s' ! k = entries s ! k"
    "entries s' ! i = entries s ! i \<or> (e_status (entries s ! i) = STARTED \<and> over_at s' i)"
    using c by (simp_all add: checked_def)
  have ov: "over_at s' k" if "over_at s k" for k
    using that f(5) [of k] f(6) by (cases "k = i") (auto simp: over_at_def)
  have bg: "begun_at s' k \<longleftrightarrow> begun_at s k" for k
    using f(5) [of k] f(6) over_begun [of s' i] by (cases "k = i") (auto simp: begun_at_def)
  show "over_at s k \<Longrightarrow> over_at s' k" by (rule ov)
  show "k \<noteq> i \<Longrightarrow> over_at s' k = over_at s k" using f(5) [of k] by (simp add: over_at_def)
  show "window_begun s'" using w by (simp add: window_begun_def f bg)
  show "sched_base s'"
    using base ov unfolding sched_base_def barriers_respected_def over_before_idx_def f(1,2,4) bg
    by (metis f(3))
qed

definition prog_inv :: "nat \<Rightarrow> MPIDU_Sched \<Rightarrow> bool" where
  "prog_inv i s \<longleftrightarrow>
     sched_base s \<and> window_begun s \<and> i \<le> length (entries s) \<and> (idx s < i \<longrightarrow> \<not> over_at s (idx s))"

definition prog_body where
  "prog_body env rest i s =
     (if i < length (entries s) then
        let s1 = check_entry env i s; e = entries s1 ! i in
        if i = idx s1 \<and> over e then
          let s2 = s1\<lparr>idx := Suc (idx s1)\<rparr> in
          if is_barrier e then
            Option.bind (MPIDU_Sched_continue env s2) (\<lambda>r.
              case r of
                Inl f \<Rightarrow> Some (Inl f)
              | Inr (c, s3) \<Rightarrow> if c \<noteq> MPI_SUCCESS then Some (Inr (c, s3)) else rest (Suc i) s3)
          else rest (Suc i) s2
        else if is_barrier e \<and> \<not> over e then Some (Inr (MPI_SUCCESS, s1))
        else rest (Suc i) s1
      else Some (Inr (MPI_SUCCESS, s)))"

lemma progress_from_body: "progress_from env i s = prog_body env (progress_from env) i s"
  by (subst progress_from.simps) (simp add: prog_body_def)

lemma idx_step_base:
  assumes "sched_base s" "idx s < length (entries s)" "over_at s (idx s)"
  shows "sched_base (s\<lparr>idx := Suc (idx s)\<rparr>)"
  using assms unfolding sched_base_def entries_ok_def barriers_respected_def over_before_idx_def
  by (auto simp: less_Suc_eq)

text \<open>
  One round of the loop ends it, or goes on with the next entry; with a quiet environment it does one
  of these.
\<close>

lemma prog_body_cases:
  assumes inv: "prog_inv i s" and dev: "device_ok env"
  shows "(\<exists>r. (\<forall>rest. prog_body env rest i s = Some r) \<and> loop_result (no_fatal env) s r \<and>
            (quiet env \<longrightarrow> (\<exists>s'. r = Inr (MPI_SUCCESS, s'))) \<and>
            (i < length (entries s) \<and> i = idx s \<and> over_at (check_entry env i s) i \<longrightarrow> (\<forall>s'. r \<noteq> Inr (MPI_SUCCESS, s')))) \<or>
    ((\<forall>rest. prog_body env rest i s = None) \<and> \<not> quiet env) \<or>
    (i < length (entries s) \<and> (\<exists>s2. (\<forall>rest. prog_body env rest i s = rest (Suc i) s2) \<and> prog_inv (Suc i) s2 \<and>
       idx s \<le> idx s2 \<and> length (entries s) \<le> length (entries s2) \<and>
       (quiet env \<longrightarrow> length (entries s2) = length (entries s)) \<and>
       (i = idx s \<and> over_at (check_entry env i s) i \<longrightarrow> idx s < idx s2)))"
proof (cases "i < length (entries s)")
  case False
  then have "loop_result (no_fatal env) s (Inr (MPI_SUCCESS, s))"
    using inv by (auto simp: prog_inv_def idx_waits_def)
  then show ?thesis using False by (intro disjI1 exI [of _ "Inr (MPI_SUCCESS, s)"]) (simp add: prog_body_def)
next
  case i: True
  have base: "sched_base s" and win: "window_begun s" and wait: "idx s < i \<longrightarrow> \<not> over_at s (idx s)"
    using inv by (simp_all add: prog_inv_def)
  define s1 where "s1 = check_entry env i s"
  have ch: "checked i s s1"
    unfolding s1_def by (rule check_entry_effect [OF _ i]) (use base in \<open>simp add: sched_base_def\<close>)
  note c1 = checked_base [OF base win ch]
  have f: "idx s1 = idx s" "length (entries s1) = length (entries s)" using ch by (simp_all add: checked_def)
  consider (step) "i = idx s1" "over_at s1 i" "\<not> barrier_at s1 i" | (bar) "i = idx s1" "over_at s1 i" "barrier_at s1 i"
    | (stop) "\<not> (i = idx s1 \<and> over_at s1 i)" "barrier_at s1 i \<and> \<not> over_at s1 i"
    | (go) "\<not> (i = idx s1 \<and> over_at s1 i)" "\<not> (barrier_at s1 i \<and> \<not> over_at s1 i)" by blast
  then show ?thesis
  proof cases
    case step
    let ?s2 = "s1\<lparr>idx := Suc (idx s1)\<rparr>"
    have b: "sched_base ?s2" by (rule idx_step_base [OF c1(1)]) (use step i f in auto)
    have "window_begun ?s2" unfolding window_begun_def
    proof (intro allI impI, elim conjE)
      fix j assume j: "idx ?s2 \<le> j" "j < length (entries ?s2)" "\<forall>b. idx ?s2 \<le> b \<and> b < j \<longrightarrow> \<not> barrier_at ?s2 b"
      have "\<forall>b. idx s1 \<le> b \<and> b < j \<longrightarrow> \<not> barrier_at s1 b"
        using j(3) step(1,3) by (auto simp: Suc_le_eq) (metis le_neq_implies_less)
      then show "begun_at ?s2 j" using c1(2) j(1,2) unfolding window_begun_def by simp
    qed
    then have "prog_inv (Suc i) ?s2" using b step(1) i f by (simp add: prog_inv_def)
    moreover have "prog_body env rest i s = rest (Suc i) ?s2" for rest
      using i step unfolding prog_body_def s1_def [symmetric] by (simp add: Let_def over_at_def barrier_at_def)
    ultimately show ?thesis using i f by (intro disjI2 conjI exI [of _ ?s2]) auto
  next
    case bar
    let ?s2 = "s1\<lparr>idx := Suc (idx s1)\<rparr>"
    have b: "sched_base ?s2" by (rule idx_step_base [OF c1(1)]) (use bar i f in auto)
    have body: "prog_body env rest i s = Option.bind (MPIDU_Sched_continue env ?s2) (\<lambda>r.
              case r of
                Inl f \<Rightarrow> Some (Inl f)
              | Inr (c, s3) \<Rightarrow> if c \<noteq> MPI_SUCCESS then Some (Inr (c, s3)) else rest (Suc i) s3)" for rest
      using i bar unfolding prog_body_def s1_def [symmetric] by (simp add: Let_def over_at_def barrier_at_def)
    show ?thesis
    proof (cases "MPIDU_Sched_continue env ?s2")
      case None
      then have "\<not> quiet env" using continue_returns [OF b, of env] by auto
      then show ?thesis using body None by simp
    next
      case (Some r)
      have lr: "loop_result (no_fatal env) ?s2 r" by (rule continue_result [OF Some b dev])
      then obtain c s3 where r: "r = Inr (c, s3)" by (cases "(no_fatal env, ?s2, r)" rule: loop_result.cases) auto
      have q: "c = MPI_SUCCESS \<and> length (entries s3) = length (entries s)" if qu: "quiet env"
      proof -
        obtain s' where "MPIDU_Sched_continue env ?s2 = Some (Inr (MPI_SUCCESS, s'))" "length (entries s') = length (entries ?s2)"
          using continue_returns [OF b qu] by blast
        then show ?thesis using Some r f(2) by simp
      qed
      have l3: "loop_result (no_fatal env) s (Inr (c, s3))" using lr r loop_result_mono [of _ ?s2 r s] f by simp
      show ?thesis
      proof (cases "c = MPI_SUCCESS")
        case True
        then have "prog_inv (Suc i) s3" "idx s < idx s3"
          using lr r bar(1) i f by (auto simp: prog_inv_def)
        then show ?thesis using body Some r True i l3 q by (intro disjI2 conjI exI [of _ s3]) auto
      next
        case False
        then show ?thesis using body Some r l3 q by (intro disjI1 exI [of _ r]) auto
      qed
    qed
  next
    case stop
    have "idx_waits s1" unfolding idx_waits_def
    proof
      show "\<not> over_at s1 (idx s1)"
        using stop wait c1(4) [of "idx s"] f(1) c1(1) unfolding sched_base_def over_before_idx_def
        by (metis linorder_neqE_nat)
    qed
    then have "loop_result (no_fatal env) s (Inr (MPI_SUCCESS, s1))" using c1(1,2) f by simp
    moreover have "prog_body env rest i s = Some (Inr (MPI_SUCCESS, s1))" for rest
      using i stop unfolding prog_body_def s1_def [symmetric] by (simp add: Let_def over_at_def barrier_at_def)
    ultimately show ?thesis using stop f by (intro disjI1 exI [of _ "Inr (MPI_SUCCESS, s1)"]) (auto simp: s1_def [symmetric])
  next
    case go
    have "prog_inv (Suc i) s1"
      using c1(1,2) i f go(1) wait c1(4) [of "idx s"] by (auto simp: prog_inv_def less_Suc_eq)
    moreover have "prog_body env rest i s = rest (Suc i) s1" for rest
      using i go unfolding prog_body_def s1_def [symmetric] by (auto simp: Let_def over_at_def barrier_at_def)
    ultimately show ?thesis using i f go(1) by (intro disjI2 conjI exI [of _ s1]) (auto simp: s1_def [symmetric])
  qed
qed

lemma progress_from_partial:
  assumes "progress_from env i s = Some r" "prog_inv i s" "device_ok env"
  shows "loop_result (no_fatal env) s r"
proof -
  have "device_ok env \<longrightarrow> prog_inv i s \<longrightarrow> loop_result (no_fatal env) s r"
  proof (rule progress_from.raw_induct [where P = "\<lambda>env i s r. device_ok env \<longrightarrow> prog_inv i s \<longrightarrow> loop_result (no_fatal env) s r", OF _ assms(1)],
      intro impI)
    fix rec env i s r
    assume IH: "\<And>env i s r. rec env i s = Some r \<Longrightarrow> device_ok env \<longrightarrow> prog_inv i s \<longrightarrow> loop_result (no_fatal env) s r"
      and dev: "device_ok env" and inv: "prog_inv i s"
    assume "(if i < length (entries s) then
        let s1 = check_entry env i s; e = entries s1 ! i in
        if i = idx s1 \<and> over e then
          let s2 = s1\<lparr>idx := Suc (idx s1)\<rparr> in
          if is_barrier e then
            Option.bind (MPIDU_Sched_continue env s2) (\<lambda>r.
              case r of
                Inl f \<Rightarrow> Some (Inl f)
              | Inr (c, s3) \<Rightarrow> if c \<noteq> MPI_SUCCESS then Some (Inr (c, s3)) else rec env (Suc i) s3)
          else rec env (Suc i) s2
        else if is_barrier e \<and> \<not> over e then Some (Inr (MPI_SUCCESS, s1))
        else rec env (Suc i) s1
      else Some (Inr (MPI_SUCCESS, s))) = Some r"
    then have body: "prog_body env (rec env) i s = Some r" unfolding prog_body_def .
    from prog_body_cases [OF inv dev] show "loop_result (no_fatal env) s r"
    proof (elim disjE exE conjE)
      fix r' assume "\<forall>rest. prog_body env rest i s = Some r'" "loop_result (no_fatal env) s r'"
      then show ?thesis using body by (metis option.inject)
    next
      assume "\<forall>rest. prog_body env rest i s = None"
      then show ?thesis using body by simp
    next
      fix s2 assume a: "\<forall>rest. prog_body env rest i s = rest (Suc i) s2" "prog_inv (Suc i) s2" "idx s \<le> idx s2"
        "length (entries s) \<le> length (entries s2)"
      have "rec env (Suc i) s2 = Some r" using body a(1) by simp
      then have "loop_result (no_fatal env) s2 r" using IH a(2) dev by blast
      then show ?thesis using loop_result_mono a(3,4) by blast
    qed
  qed
  then show ?thesis using assms(2,3) by blast
qed

lemma progress_from_returns:
  assumes "prog_inv i s" "quiet env"
  shows "\<exists>s'. progress_from env i s = Some (Inr (MPI_SUCCESS, s'))"
  using assms(1)
proof (induction "length (entries s) - i" arbitrary: i s rule: less_induct)
  case less
  have dev: "device_ok env" using assms(2) by (simp add: quiet_def)
  from prog_body_cases [OF less.prems dev] show ?case
  proof (elim disjE exE conjE)
    fix r assume "\<forall>rest. prog_body env rest i s = Some r" "quiet env \<longrightarrow> (\<exists>s'. r = Inr (MPI_SUCCESS, s'))"
    then show ?thesis using assms(2) progress_from_body [of env i s] by auto
  next
    assume "\<not> quiet env"
    then show ?thesis using assms(2) by blast
  next
    fix s2 assume a: "\<forall>rest. prog_body env rest i s = rest (Suc i) s2" "prog_inv (Suc i) s2"
      "quiet env \<longrightarrow> length (entries s2) = length (entries s)" "i < length (entries s)"
    have "\<exists>s'. progress_from env (Suc i) s2 = Some (Inr (MPI_SUCCESS, s'))"
      by (rule less.hyps) (use a assms(2) in auto)
    then show ?thesis using progress_from_body [of env i s] a(1) by simp
  qed
qed

subsection \<open>Polling\<close>

definition sched_live :: "MPIDU_Sched \<Rightarrow> bool" where
  "sched_live s \<longleftrightarrow> sched_base s \<and> window_begun s \<and> idx_waits s"

lemma poll_inv: "sched_live s \<Longrightarrow> prog_inv (idx s) s"
  by (simp add: sched_live_def prog_inv_def sched_base_def over_before_idx_def)

lemma poll_result:
  assumes "poll_sched env s = Some r" "sched_live s" "device_ok env"
  shows "loop_result (no_fatal env) s r"
  using progress_from_partial assms poll_inv unfolding poll_sched_def by blast

lemma poll_returns:
  assumes "sched_live s" "quiet env"
  shows "\<exists>s'. poll_sched env s = Some (Inr (MPI_SUCCESS, s'))"
  using progress_from_returns [OF poll_inv [OF assms(1)] assms(2)] unfolding poll_sched_def .

text \<open>The request the schedule waits for: that of the entry at \<open>idx\<close>.\<close>

definition idx_request :: "MPIDU_Sched \<Rightarrow> addr" where
  "idx_request s = (case e_u (entries s ! idx s) of SEND a \<Rightarrow> sreq a | RECV a \<Rightarrow> rreq a | _ \<Rightarrow> NULL)"

lemma live_waits:
  assumes "sched_live s" "idx s < length (entries s)"
  shows "e_status (entries s ! idx s) = STARTED" "idx_request s \<noteq> NULL"
proof -
  have e: "entry_ok (entries s ! idx s)" using assms by (simp add: sched_live_def sched_base_def entries_ok_def)
  have "begun_at s (idx s)" using assms unfolding sched_live_def window_begun_def by (meson le_refl leD)
  moreover have "\<not> over_at s (idx s)" using assms by (simp add: sched_live_def idx_waits_def)
  ultimately show st: "e_status (entries s ! idx s) = STARTED"
    by (cases "e_status (entries s ! idx s)") (simp_all add: begun_at_def over_at_def over_def)
  show "idx_request s \<noteq> NULL"
    using e st by (cases "e_u (entries s ! idx s)") (simp_all add: entry_ok_def idx_request_def)
qed

lemma poll_advances:
  assumes live: "sched_live s" and lt: "idx s < length (entries s)" and dn: "env_done env (idx_request s)"
    and dev: "device_ok env" and r: "poll_sched env s = Some (Inr (MPI_SUCCESS, s'))"
  shows "idx s < idx s'"
proof -
  note w = live_waits [OF live lt]
  have ov: "over_at (check_entry env (idx s) s) (idx s)"
    using dn w lt
    by (cases "e_u (entries s ! idx s)") (simp_all add: check_entry_def idx_request_def Let_def over_at_def over_def)
  have "progress_from env (idx s) s = Some (Inr (MPI_SUCCESS, s'))" using r by (simp add: poll_sched_def)
  then have body: "prog_body env (progress_from env) (idx s) s = Some (Inr (MPI_SUCCESS, s'))"
    using progress_from_body [of env "idx s" s] by simp
  from prog_body_cases [OF poll_inv [OF live] dev] show ?thesis
  proof (elim disjE exE conjE)
    fix r' assume a: "\<forall>rest. prog_body env rest (idx s) s = Some r'"
      "idx s < length (entries s) \<and> idx s = idx s \<and> over_at (check_entry env (idx s) s) (idx s) \<longrightarrow> (\<forall>s'. r' \<noteq> Inr (MPI_SUCCESS, s'))"
    have "r' = Inr (MPI_SUCCESS, s')" using a(1) body by (metis option.inject)
    then show ?thesis using a(2) ov lt by blast
  next
    assume "\<forall>rest. prog_body env rest (idx s) s = None"
    then show ?thesis using body by simp
  next
    fix s2 assume a: "\<forall>rest. prog_body env rest (idx s) s = rest (Suc (idx s)) s2" "prog_inv (Suc (idx s)) s2"
      "idx s = idx s \<and> over_at (check_entry env (idx s) s) (idx s) \<longrightarrow> idx s < idx s2"
    have "progress_from env (Suc (idx s)) s2 = Some (Inr (MPI_SUCCESS, s'))" using a(1) body by simp
    then have "loop_result (no_fatal env) s2 (Inr (MPI_SUCCESS, s'))" using progress_from_partial a(2) dev by blast
    then show ?thesis using a(3) ov by simp
  qed
qed

end
