(* ===== verification/Nbc_Progress.thy ===== *)
theory Nbc_Progress
  imports Nbc_Sched
begin

section \<open>The schedules of the coroutines of a process (\<^verbatim>\<open>mpid_sched.c\<close>)\<close>

text \<open>
  Starting a schedule, the progress hook, and the tags of nonblocking collectives.  Every coroutine
  has its own list \<^verbatim>\<open>all_schedules\<close>; the count \<^verbatim>\<open>all_schedules_global\<close> of the pending schedules of
  all coroutines decides when the hook of the progress engine is registered and removed.
\<close>

record nbc =
  all_schedules :: "nat \<Rightarrow> MPIDU_Sched list"
  all_schedules_global :: int
  hook_active :: bool
  completed :: "(addr \<times> MPIR_Errflag_t) list"

definition nbc_init :: nbc where
  "nbc_init = \<lparr>all_schedules = (\<lambda>_. []), all_schedules_global = 0, hook_active = False, completed = []\<rparr>"

definition MPIDU_Sched_are_pending :: "nbc \<Rightarrow> bool" where
  "MPIDU_Sched_are_pending st \<longleftrightarrow> all_schedules_global st \<noteq> 0"

text \<open>The schedule is appended to the coroutine's list; the first one of the process registers the hook.\<close>

definition queue_sched :: "nat \<Rightarrow> MPIDU_Sched \<Rightarrow> nbc \<Rightarrow> nbc" where
  "queue_sched p s st =
     st\<lparr>all_schedules := (all_schedules st)(p := all_schedules st p @ [s]),
        all_schedules_global := all_schedules_global st + 1,
        hook_active := (all_schedules_global st = 0 \<or> hook_active st)\<rparr>"

text \<open>
  \<open>r\<close> is the request \<^verbatim>\<open>MPID_Request_create\<close> returns.  When starting the first entries or registering the hook fails the
  request is released and the schedule is not queued.
\<close>

definition MPID_Sched_start ::
  "nbc_env \<Rightarrow> nat \<Rightarrow> int \<Rightarrow> addr \<Rightarrow> MPIDU_Sched \<Rightarrow> nbc \<Rightarrow> (ret \<times> nbc) outcome option" where
  "MPID_Sched_start env p tg r s st =
     (if \<not> (length (entries s) \<le> capacity s) then Some (Inl (Assert_failed ''s->num_entries <= s->size''))
      else if \<not> (entries s = [] \<or> idx s < length (entries s)) then
        Some (Inl (Assert_failed ''s->num_entries == 0 || s->idx < s->num_entries''))
      else if req s \<noteq> NULL then Some (Inl (Assert_failed ''s->req == NULL''))
      else if entries_null s then Some (Inl (Assert_failed ''s->entries != NULL''))
      else if r = NULL then Some (Inr (Other_error, st))
      else
        Option.bind (MPIDU_Sched_continue env (s\<lparr>req := r, tag := tg\<rparr>)) (\<lambda>x.
          case x of
            Inl f \<Rightarrow> Some (Inl f)
          | Inr (c, s1) \<Rightarrow>
              if c \<noteq> MPI_SUCCESS then Some (Inr (c, st))
              else if all_schedules_global st = 0 \<and> env_hook env \<noteq> MPI_SUCCESS then Some (Inr (env_hook env, st))
              else Some (Inr (MPI_SUCCESS, queue_sched p s1 st))))"

text \<open>
  One pass over the list of a coroutine: the returned code, the schedules left and the requests
  completed.  An error ends the pass.
\<close>

fun progress_list ::
  "nbc_env \<Rightarrow> MPIDU_Sched list \<Rightarrow> (ret \<times> MPIDU_Sched list \<times> (addr \<times> MPIR_Errflag_t) list) outcome option" where
  "progress_list env [] = Some (Inr (MPI_SUCCESS, [], []))"
| "progress_list env (s # ss) =
     Option.bind (poll_sched env s) (\<lambda>x.
       case x of
         Inl f \<Rightarrow> Some (Inl f)
       | Inr (c, s1) \<Rightarrow>
           if c \<noteq> MPI_SUCCESS then Some (Inr (c, s1 # ss, []))
           else
             Option.bind (progress_list env ss) (\<lambda>y.
               case y of
                 Inl f \<Rightarrow> Some (Inl f)
               | Inr (c', ss', cs) \<Rightarrow>
                   if idx s1 = length (entries s1) then Some (Inr (c', ss', (req s1, errflag s1) # cs))
                   else Some (Inr (c', s1 # ss', cs))))"

definition MPIDU_Sched_progress_state ::
  "nbc_env \<Rightarrow> nat \<Rightarrow> nbc \<Rightarrow> (ret \<times> nbc) outcome option" where
  "MPIDU_Sched_progress_state env p st =
     Option.bind (progress_list env (all_schedules st p)) (\<lambda>x.
       case x of
         Inl f \<Rightarrow> Some (Inl f)
       | Inr (c, ss, cs) \<Rightarrow>
           Some (Inr (c, st\<lparr>all_schedules := (all_schedules st)(p := ss),
                            all_schedules_global := all_schedules_global st - int (length cs),
                            completed := completed st @ cs\<rparr>)))"

definition MPIDU_Sched_progress :: "nbc_env \<Rightarrow> nat \<Rightarrow> nbc \<Rightarrow> (ret \<times> nbc) outcome option" where
  "MPIDU_Sched_progress env p st =
     Option.bind (MPIDU_Sched_progress_state env p st) (\<lambda>x.
       case x of
         Inl f \<Rightarrow> Some (Inl f)
       | Inr (c, st1) \<Rightarrow>
           Some (Inr (c, if c = MPI_SUCCESS \<and> all_schedules_global st1 = 0 then st1\<lparr>hook_active := False\<rparr> else st1)))"

text \<open>
  The tag of the next collective on a communicator: \<open>tags\<close> are those of the pending schedules of
  the calling coroutine.  The first component is false for \<^verbatim>\<open>**toomanynbc\<close>; the second is the tag.
\<close>

definition MPIR_FIRST_NBC_TAG :: int where
  "MPIR_FIRST_NBC_TAG = 31"

definition MPID_Sched_next_tag :: "int \<Rightarrow> int list \<Rightarrow> int \<Rightarrow> bool \<times> int \<times> int" where
  "MPID_Sched_next_tag tag_ub tags next_sched_tag =
     (let tg = next_sched_tag; nx = next_sched_tag + 1;
          range = (if nx = tag_ub div 2 then Some (tag_ub div 2, tag_ub)
                   else if nx = tag_ub then Some (MPIR_FIRST_NBC_TAG, tag_ub div 2)
                   else None)
      in case range of
           Some (start, end) \<Rightarrow>
             if \<exists>t\<in>set tags. start \<le> t \<and> t < end then (False, tg, nx)
             else (True, tg, if nx = tag_ub then MPIR_FIRST_NBC_TAG else nx)
         | None \<Rightarrow> (True, tg, if nx = tag_ub then MPIR_FIRST_NBC_TAG else nx))"

text \<open>
  The tags handed out stay in the range of the nonblocking collectives as long as the call succeeds.
  Refused at the upper bound the counter is left there, and the next call hands out the bound itself,
  a tag that is out of range, and goes on beyond it.
\<close>

lemma next_tag_range:
  assumes "MPIR_FIRST_NBC_TAG \<le> n" "n < tag_ub" "MPID_Sched_next_tag tag_ub tags n = (True, tg, n')"
  shows "tg = n" "MPIR_FIRST_NBC_TAG \<le> n'" "n' < tag_ub"
  using assms by (auto simp: MPID_Sched_next_tag_def Let_def MPIR_FIRST_NBC_TAG_def split: option.splits if_splits)

lemma next_tag_escapes:
  assumes "MPIR_FIRST_NBC_TAG \<le> t" "t < tag_ub div 2" "t \<in> set tags"
  shows "MPID_Sched_next_tag tag_ub tags (tag_ub - 1) = (False, tag_ub - 1, tag_ub)"
    and "MPID_Sched_next_tag tag_ub tags' tag_ub = (True, tag_ub, tag_ub + 1)"
  using assms by (auto simp: MPID_Sched_next_tag_def Let_def MPIR_FIRST_NBC_TAG_def)

subsection \<open>Reachable states\<close>

text \<open>
  A state of \<open>N\<close> coroutines is reached by starting schedules that were built with the building
  interface and by polling, in any order, whatever the device does, as long as no local operation
  fails.
\<close>

inductive nbc_reach :: "nat \<Rightarrow> nbc \<Rightarrow> bool" for N where
  init: "nbc_reach N nbc_init"
| start: "nbc_reach N st \<Longrightarrow> p < N \<Longrightarrow> device_ok env \<Longrightarrow> no_fatal env \<Longrightarrow> (\<And>n. ok n) \<Longrightarrow>
    build_all ok bs MPID_Sched_create = Inr (True, s) \<Longrightarrow>
    MPID_Sched_start env p tg r s st = Some (Inr (c, st')) \<Longrightarrow> nbc_reach N st'"
| poll: "nbc_reach N st \<Longrightarrow> p < N \<Longrightarrow> device_ok env \<Longrightarrow> no_fatal env \<Longrightarrow>
    MPIDU_Sched_progress env p st = Some (Inr (c, st')) \<Longrightarrow> nbc_reach N st'"

definition nbc_inv :: "nat \<Rightarrow> nbc \<Rightarrow> bool" where
  "nbc_inv N st \<longleftrightarrow>
     (\<forall>p. \<forall>s\<in>set (all_schedules st p). sched_live s) \<and>
     all_schedules_global st = (\<Sum>p<N. int (length (all_schedules st p))) \<and>
     hook_active st = (all_schedules_global st \<noteq> 0)"

lemma bind_outcome_Some:
  "Option.bind m (\<lambda>x. case x of Inl f \<Rightarrow> Some (Inl f) | Inr y \<Rightarrow> g y) = Some (Inr z) \<longleftrightarrow>
     (\<exists>y. m = Some (Inr y) \<and> g y = Some (Inr z))"
  by (cases m; simp) (auto split: sum.splits)

lemma bind_outcome_SomeE:
  assumes "Option.bind m (\<lambda>x. case x of Inl f \<Rightarrow> Some (Inl f) | Inr y \<Rightarrow> g y) = Some (Inr z)"
  obtains y where "m = Some (Inr y)" "g y = Some (Inr z)"
  using assms unfolding bind_outcome_Some by (elim exE conjE)

lemma sum_list_upd:
  assumes "p < (N::nat)"
  shows "(\<Sum>q<N. int (length ((f(p := xs)) q))) = (\<Sum>q<N. int (length (f q))) + int (length xs) - int (length (f p))"
  using assms by (simp add: sum.remove [of "{..<N}" p])

text \<open>A schedule fresh from the building interface passes the checks of \<^verbatim>\<open>MPID_Sched_start\<close>.\<close>

lemma create_ok: "entries_ok MPID_Sched_create"
  by (simp add: entries_ok_def MPID_Sched_create_def MPIDU_SCHED_INITIAL_ENTRIES_def)

lemma fresh_base:
  assumes "build_all ok bs MPID_Sched_create = Inr (True, s)" "\<And>n. ok n"
  shows "sched_base s" "idx s = 0" "req s = NULL" "\<not> entries_null s" "length (entries s) \<le> capacity s"
proof -
  have g: "grown MPID_Sched_create s" using build_all_grown assms by blast
  have ok: "entries_ok s" by (rule grownD(8) [OF g create_ok])
  show i0: "idx s = 0" "req s = NULL" using grownD(2) [OF g] grown_req [OF g] by (simp_all add: MPID_Sched_create_def)
  show "\<not> entries_null s" "length (entries s) \<le> capacity s" using ok by (simp_all add: entries_ok_def)
  have "\<not> begun_at s k" if "k < length (entries s)" for k
    using grownD(6) [OF g _ that] by (simp add: begun_at_def MPID_Sched_create_def)
  then show "sched_base s" using ok i0 by (auto simp: sched_base_def barriers_respected_def over_before_idx_def)
qed

lemma base_req: "sched_base s \<Longrightarrow> sched_base (s\<lparr>req := r, tag := t\<rparr>)"
  by (auto simp: sched_base_def entries_ok_def barriers_respected_def over_before_idx_def barrier_at_def begun_at_def over_at_def)

lemma loop_live: "loop_result True s (Inr (c, s')) \<Longrightarrow> c = MPI_SUCCESS \<and> sched_live s'"
  by (auto simp: sched_live_def)

lemma Sched_start_effect:
  assumes "MPID_Sched_start env p tg r s st = Some (Inr (c, st'))" "sched_base s" "device_ok env" "no_fatal env"
  obtains "st' = st" | s1 where "sched_live s1" "st' = queue_sched p s1 st"
proof -
  let ?s = "s\<lparr>req := r, tag := tg\<rparr>"
  let ?k = "\<lambda>(c, s1). if c \<noteq> MPI_SUCCESS then Some (Inr (c, st) :: (ret \<times> nbc) outcome)
    else if all_schedules_global st = 0 \<and> env_hook env \<noteq> MPI_SUCCESS then Some (Inr (env_hook env, st))
    else Some (Inr (MPI_SUCCESS, queue_sched p s1 st))"
  have k: "Option.bind (MPIDU_Sched_continue env ?s) (\<lambda>x. case x of Inl f \<Rightarrow> Some (Inl f) | Inr y \<Rightarrow> ?k y) = Some (Inr (c, st'))"
    if "st' \<noteq> st"
    using assms(1) that unfolding MPID_Sched_start_def by (simp only: split: if_splits) auto
  show ?thesis
  proof (cases "st' = st")
    case False
    obtain y where y: "MPIDU_Sched_continue env ?s = Some (Inr y)" and st': "?k y = Some (Inr (c, st'))"
      by (rule bind_outcome_SomeE [OF k [OF False]])
    obtain c1 s1 where c: "y = (c1, s1)" by (cases y)
    have t: "no_fatal env = True" using assms(4) by simp
    have "loop_result True ?s (Inr (c1, s1))"
      using continue_result [OF y base_req [OF assms(2)] assms(3)] unfolding c t .
    then have "c1 = MPI_SUCCESS" "sched_live s1" using loop_live by blast+
    then show ?thesis using st' c that False by (auto split: if_splits)
  qed (rule that(1))
qed

lemma progress_list_effect:
  assumes "device_ok env" "no_fatal env"
  shows "\<forall>s\<in>set ss. sched_live s \<Longrightarrow> progress_list env ss = Some (Inr (c, ss', cs)) \<Longrightarrow>
    c = MPI_SUCCESS \<and> (\<forall>s\<in>set ss'. sched_live s) \<and> length ss = length ss' + length cs"
proof (induction ss arbitrary: ss' cs c)
  case (Cons s ss)
  obtain x where x: "poll_sched env s = Some x" using Cons.prems(2) by (auto simp: bind_eq_Some_conv)
  have lr: "loop_result (no_fatal env) s x" by (rule poll_result [OF x _ assms(1)]) (use Cons.prems(1) in simp)
  then obtain s1 where s1: "x = Inr (MPI_SUCCESS, s1)" "sched_live s1"
    using assms(2) loop_live [of s] by (cases x) (auto simp: sched_live_def)
  have b: "Option.bind (progress_list env ss) (\<lambda>y.
      case y of
        Inl f \<Rightarrow> Some (Inl f)
      | Inr (c', ss', cs) \<Rightarrow>
          if idx s1 = length (entries s1) then Some (Inr (c', ss', (req s1, errflag s1) # cs))
          else Some (Inr (c', s1 # ss', cs))) = Some (Inr (c, ss', cs))"
    using Cons.prems(2) x s1 by simp
  obtain z where y: "progress_list env ss = Some (Inr z)"
    and r: "(case z of (c', ss', cs) \<Rightarrow>
      if idx s1 = length (entries s1) then Some (Inr (c', ss', (req s1, errflag s1) # cs))
      else Some (Inr (c', s1 # ss', cs))) = Some (Inr (c, ss', cs) :: (ret \<times> _) outcome)"
    by (rule bind_outcome_SomeE [OF b])
  obtain c1 ss1 cs1 where z: "z = (c1, ss1, cs1)" by (cases z)
  show ?case using Cons.IH [OF _ y [unfolded z]] Cons.prems(1) s1(2) r z by (auto split: if_splits)
qed simp

lemma nbc_inv_reach: "nbc_reach N st \<Longrightarrow> nbc_inv N st"
proof (induction rule: nbc_reach.induct)
  case init
  then show ?case by (simp add: nbc_inv_def nbc_init_def)
next
  case (start st p env ok bs s tg r c st')
  have "sched_base s" by (rule fresh_base(1) [OF start(6,5)])
  from start(7) this start(3,4) show ?case
  proof (cases rule: Sched_start_effect)
    case 1
    then show ?thesis using start.IH by simp
  next
    case (2 s1)
    have "0 \<le> all_schedules_global st" using start.IH by (simp add: nbc_inv_def sum_nonneg)
    then show ?thesis using 2 start.IH sum_list_upd [OF start(2), of "all_schedules st" "all_schedules st p @ [s1]"]
      by (auto simp: nbc_inv_def queue_sched_def)
  qed
next
  case (poll st p env c st')
  obtain ss cs where l: "progress_list env (all_schedules st p) = Some (Inr (c, ss, cs))"
    and st': "all_schedules st' = (all_schedules st)(p := ss)"
      "all_schedules_global st' = all_schedules_global st - int (length cs)"
      "hook_active st' = (hook_active st \<and> \<not> (c = MPI_SUCCESS \<and> all_schedules_global st' = 0))"
    using poll(5) unfolding MPIDU_Sched_progress_def MPIDU_Sched_progress_state_def bind_outcome_Some by auto
  have e: "c = MPI_SUCCESS" "\<forall>s\<in>set ss. sched_live s" "length (all_schedules st p) = length ss + length cs"
    using progress_list_effect [OF poll(3,4) _ l] poll.IH by (auto simp: nbc_inv_def)
  have sum: "all_schedules_global st' = (\<Sum>q<N. int (length (all_schedules st' q)))"
    using sum_list_upd [OF poll(2), of "all_schedules st" ss] poll.IH e(3) st'(1,2) by (simp add: nbc_inv_def)
  have "all_schedules_global st \<noteq> 0" if "all_schedules_global st' \<noteq> 0"
  proof -
    have "0 \<le> all_schedules_global st'" unfolding sum by (simp add: sum_nonneg)
    then show ?thesis using that st'(2) by simp
  qed
  then show ?case using poll.IH e st' sum by (auto simp: nbc_inv_def)
qed

subsection \<open>Schedules run in order and get on\<close>

text \<open>
  C40. In every reachable state of the coroutines of a process, for a device that hands out requests and has
  memory, and whatever else it and the callbacks do: no entry of a pending schedule has been started
  before everything up to each earlier barrier is over, and everything below \<open>idx\<close> is over; a poll that
  returns keeps both, never takes \<open>idx\<close> back and meets no failed assertion.  When local operations
  succeed and callbacks append nothing the poll does return, with success, and it gets past the entry
  at \<open>idx\<close> if the request of that entry is complete.  The progress hook is active exactly while
  schedules are pending, and their count is the sum over the coroutines.
\<close>

theorem nbc_schedule_order:
  assumes "nbc_reach N st" "s \<in> set (all_schedules st p)" "device_ok env"
  shows "barriers_respected s \<and> over_before_idx s \<and>
    (\<forall>r. poll_sched env s = Some r \<longrightarrow>
       (\<exists>c s'. r = Inr (c, s') \<and> barriers_respected s' \<and> over_before_idx s' \<and> idx s \<le> idx s')) \<and>
    (quiet env \<longrightarrow>
       (\<exists>s'. poll_sched env s = Some (Inr (MPI_SUCCESS, s')) \<and>
          (idx s < length (entries s) \<and> env_done env (idx_request s) \<longrightarrow> idx s < idx s'))) \<and>
    hook_active st = MPIDU_Sched_are_pending st \<and>
    all_schedules_global st = (\<Sum>q<N. int (length (all_schedules st q)))"
proof -
  have inv: "nbc_inv N st" by (rule nbc_inv_reach [OF assms(1)])
  then have live: "sched_live s" using assms(2) by (auto simp: nbc_inv_def)
  have "\<exists>c s'. r = Inr (c, s') \<and> barriers_respected s' \<and> over_before_idx s' \<and> idx s \<le> idx s'"
    if "poll_sched env s = Some r" for r
    using poll_result [OF that live assms(3)] by (cases r) (auto simp: sched_base_def)
  moreover have "\<exists>s'. poll_sched env s = Some (Inr (MPI_SUCCESS, s')) \<and>
      (idx s < length (entries s) \<and> env_done env (idx_request s) \<longrightarrow> idx s < idx s')" if "quiet env"
    using poll_returns [OF live that] poll_advances [OF live _ _ assms(3)] by blast
  ultimately show ?thesis
    using live inv by (auto simp: sched_live_def sched_base_def nbc_inv_def MPIDU_Sched_are_pending_def)
qed

text \<open>
  A schedule that sends, then has a barrier, then receives; the device posts requests 1 and 2 and the
  send is complete.
\<close>

definition demo_env :: nbc_env where
  "demo_env = \<lparr>env_ok = (\<lambda>_. True), env_issue = (\<lambda>i u t. case u of SEND _ \<Rightarrow> Posted 1 | _ \<Rightarrow> Posted 2),
     env_local = (\<lambda>_ _. MPI_SUCCESS), env_cb = (\<lambda>_ _ _. (MPI_SUCCESS, [])), env_done = (\<lambda>r. r = 1),
     env_stat = (\<lambda>_. \<lparr>MPI_SOURCE = 1, MPI_TAG = 31, MPI_ERROR = MPI_SUCCESS\<rparr>), env_hook = MPI_SUCCESS\<rparr>"

definition demo_builds :: "build list" where
  "demo_builds = [B_send 5 1 0 1 9, B_barrier, B_recv 6 1 0 1 9]"

definition demo_fresh :: MPIDU_Sched where
  "demo_fresh = \<lparr>capacity = 16, idx = 0, tag = -1, req = NULL,
     entries =
       [\<lparr>e_u = SEND \<lparr>send_buf = 5, send_count = 1, send_count_p = NULL, send_datatype = 0, send_dest = 1,
           send_comm = 9, sreq = NULL, is_sync = False\<rparr>, e_status = NOT_STARTED, is_barrier = True\<rparr>,
        \<lparr>e_u = RECV \<lparr>recv_buf = 6, recv_count = 1, recv_datatype = 0, recv_src = 1, recv_comm = 9,
           rreq = NULL, recv_status = MPI_STATUS_IGNORE\<rparr>, e_status = NOT_STARTED, is_barrier = False\<rparr>],
     entries_null = False, errflag = MPIR_ERR_NONE\<rparr>"

definition demo_sched :: MPIDU_Sched where
  "demo_sched = \<lparr>capacity = 16, idx = 0, tag = 31, req = 3,
     entries =
       [\<lparr>e_u = SEND \<lparr>send_buf = 5, send_count = 1, send_count_p = NULL, send_datatype = 0, send_dest = 1,
           send_comm = 9, sreq = 1, is_sync = False\<rparr>, e_status = STARTED, is_barrier = True\<rparr>,
        \<lparr>e_u = RECV \<lparr>recv_buf = 6, recv_count = 1, recv_datatype = 0, recv_src = 1, recv_comm = 9,
           rreq = NULL, recv_status = MPI_STATUS_IGNORE\<rparr>, e_status = NOT_STARTED, is_barrier = False\<rparr>],
     entries_null = False, errflag = MPIR_ERR_NONE\<rparr>"

lemma demo_quiet: "quiet demo_env" "device_ok demo_env" "no_fatal demo_env"
  by (auto simp: quiet_def device_ok_def no_fatal_def demo_env_def split: entry_u.splits)

lemma demo_build: "build_all (\<lambda>_. True) demo_builds MPID_Sched_create = Inr (True, demo_fresh)"
  by (simp add: demo_builds_def MPID_Sched_create_def demo_fresh_def MPID_Sched_send_def MPID_Sched_recv_def
      MPID_Sched_barrier_def MPIDU_Sched_add_entry_def MPIDU_SCHED_INITIAL_ENTRIES_def check_def Let_def)

lemma demo_start: "MPID_Sched_start demo_env 0 31 3 demo_fresh nbc_init = Some (Inr (MPI_SUCCESS, queue_sched 0 demo_sched nbc_init))"
proof -
  have "MPIDU_Sched_continue demo_env (demo_fresh\<lparr>req := 3, tag := 31\<rparr>) = Some (Inr (MPI_SUCCESS, demo_sched))"
    unfolding MPIDU_Sched_continue_def
    by (subst continue_from.simps) (simp add: demo_fresh_def demo_sched_def demo_env_def MPIDU_Sched_start_entry_def
        check_def set_entry_def over_def)
  then show ?thesis by (simp add: MPID_Sched_start_def) (simp add: demo_fresh_def nbc_init_def demo_env_def)
qed

lemma demo_reach: "nbc_reach 1 (queue_sched 0 demo_sched nbc_init)"
  by (rule nbc_reach.start [OF nbc_reach.init _ demo_quiet(2,3) _ demo_build demo_start]) simp_all

theorem nbc_schedule_order_witness:
  "barriers_respected demo_sched \<and>
   (\<exists>s'. poll_sched demo_env demo_sched = Some (Inr (MPI_SUCCESS, s')) \<and> 0 < idx s') \<and>
   hook_active (queue_sched 0 demo_sched nbc_init)"
proof -
  have m: "demo_sched \<in> set (all_schedules (queue_sched 0 demo_sched nbc_init) 0)" by (simp add: queue_sched_def)
  have i: "idx demo_sched = 0" "idx demo_sched < length (entries demo_sched)" "env_done demo_env (idx_request demo_sched)"
    by (simp_all add: demo_sched_def idx_request_def demo_env_def)
  have "MPIDU_Sched_are_pending (queue_sched 0 demo_sched nbc_init)"
    by (simp add: MPIDU_Sched_are_pending_def queue_sched_def nbc_init_def)
  then show ?thesis using nbc_schedule_order [OF demo_reach m demo_quiet(2)] demo_quiet(1) i by auto
qed

end
