(* ===== verification/Topo_Dims.thy ===== *)
theory Topo_Dims
  imports Topo_Primes "HOL-Library.Multiset"
begin

section \<open>Choosing the dimensions of a grid (\<^verbatim>\<open>mpi/topo/dims_create.c\<close>)\<close>

text \<open>
  \<^verbatim>\<open>MPI_Dims_create\<close> fills the unspecified (zero) entries of an array of dimensions so that the
  product is the given number of processes.  The number left over by the specified entries is
  factored over the table of primes and the factors are dealt out to the free dimensions.

  The product of the given dimensions is computed in an \<^verbatim>\<open>int\<close>: the scan of the array faults where it
  passes the largest value.  Every other product the code forms divides the number of processes, an
  \<^verbatim>\<open>int\<close>, so it stays in range and is left unbounded.  The
  division loop does not return for 0, so it is a partial function, as is the loop that deals out
  the copies of a single prime.
\<close>

subsection \<open>Factoring\<close>

record Factors =
  val :: nat
  cnt :: nat

definition MAX_FACTORS :: nat where
  "MAX_FACTORS = 10"

definition MAX_DIMS :: nat where
  "MAX_DIMS = 20"

text \<open>The number of bits of \<open>n\<close>, and the approximate root.\<close>

fun bits :: "nat \<Rightarrow> nat" where
  "bits n = (if n = 0 then 0 else Suc (bits (n div 2)))"

declare bits.simps [simp del]

definition n_root :: "nat \<Rightarrow> nat" where
  "n_root n = 2 ^ (bits n div 2)"

text \<open>The index of the first prime above \<open>r\<close>; the length of the table if there is none.\<close>

fun first_above :: "nat list \<Rightarrow> nat \<Rightarrow> nat \<Rightarrow> nat" where
  "first_above [] r i = i"
| "first_above (p # ps) r i = (if p > r then i else first_above ps r (Suc i))"

partial_function (option) divide_out :: "nat \<Rightarrow> nat \<Rightarrow> nat \<Rightarrow> (nat \<times> nat) option" where
  "divide_out p n c = (if n mod p = 0 then divide_out p (n div p) (Suc c) else Some (n, c))"

declare divide_out.simps [code]

text \<open>
  \<open>factor_loop (i + 1)\<close> is the loop from index \<open>i\<close> down.  The left value is the early return with too
  many factors.
\<close>

fun factor_loop :: "nat \<Rightarrow> nat \<Rightarrow> Factors list \<Rightarrow> (Factors list + nat \<times> Factors list) option" where
  "factor_loop 0 n fs = Some (Inr (n, fs))"
| "factor_loop (Suc i) n fs =
     Option.bind (divide_out (primes ! i) n 0) (\<lambda>(n1, c).
       if c > 0 then
         if length fs + 1 = MAX_FACTORS then Some (Inl fs)
         else factor_loop i n1 (fs @ [\<lparr>val = primes ! i, cnt = c\<rparr>])
       else factor_loop i n1 fs)"

text \<open>
  The factors and \<^verbatim>\<open>ndivisors\<close>, which the early return leaves at the caller's 0; \<^verbatim>\<open>nall\<close> is the sum of
  the counts.
\<close>

definition MPIR_Factor :: "nat \<Rightarrow> (Factors list \<times> nat) outcome option" where
  "MPIR_Factor n =
     (let i = first_above primes (n_root n) 0 in
      if \<not> i < length primes then Some (Inl (Undefined ''primes[i]''))
      else
        Option.bind (factor_loop (Suc i) n []) (\<lambda>r.
          case r of
            Inl fs \<Rightarrow> Some (Inr (fs, 0))
          | Inr (n1, fs) \<Rightarrow>
              if fs = [] then Some (Inr ([\<lparr>val = n1, cnt = 1\<rparr>], 1))
              else if n1 > 1 then Some (Inr (fs @ [\<lparr>val = n1, cnt = 1\<rparr>], sum_list (map cnt fs) + 1))
              else Some (Inr (fs, sum_list (map cnt fs)))))"

subsection \<open>Dealing out the factors\<close>

text \<open>The index of the smallest entry.\<close>

definition iMin :: "int list \<Rightarrow> nat" where
  "iMin chosen =
     snd (fold (\<lambda>ii (c, m). if chosen ! ii < c then (chosen ! ii, ii) else (c, m)) [1..<length chosen] (chosen ! 0, 0))"

text \<open>One copy of a factor: the comparison is that of the code, of an entry with an index.\<close>

definition deal :: "nat \<Rightarrow> nat \<times> int list \<Rightarrow> nat \<times> int list" where
  "deal v = (\<lambda>(i, chosen).
     let i1 = (if chosen ! i > int (iMin chosen) then iMin chosen else i) in
     (if i1 + 1 \<ge> length chosen then 0 else i1 + 1, chosen[i1 := chosen ! i1 * int v]))"

definition exchange :: "nat \<Rightarrow> nat \<Rightarrow> int list \<Rightarrow> int list" where
  "exchange i j chosen =
     (if chosen ! j > chosen ! i then chosen[i := chosen ! j, j := chosen ! i] else chosen)"

definition sort_chosen :: "int list \<Rightarrow> int list" where
  "sort_chosen chosen =
     fold (\<lambda>i ch. fold (exchange i) [i + 1..<length chosen] ch) [0..<length chosen - 1] chosen"

definition MPIR_ChooseFactors :: "Factors list \<Rightarrow> nat \<Rightarrow> int list" where
  "MPIR_ChooseFactors factors needed =
     sort_chosen (snd (fold (\<lambda>f. deal (val f) ^^ cnt f) factors (0, replicate needed 1)))"

text \<open>The zero entries of \<^verbatim>\<open>dims\<close> are filled from \<^verbatim>\<open>chosen\<close> in order.\<close>

fun fill :: "int list \<Rightarrow> int list \<Rightarrow> int list" where
  "fill [] chosen = []"
| "fill (d # ds) chosen = (if d = 0 then hd chosen # fill ds (tl chosen) else d # fill ds chosen)"

text \<open>The copies of a single factor are dealt out in turn; free entries are negative meanwhile.\<close>

partial_function (option) deal_power :: "int \<Rightarrow> nat \<Rightarrow> nat \<Rightarrow> int list \<Rightarrow> int list option" where
  "deal_power factor c i dims =
     (if c > 0 then
        let nx = (if i + 1 \<ge> length dims then 0 else i + 1) in
        if dims ! i < 0 then deal_power factor (c - 1) nx (dims[i := dims ! i * factor])
        else deal_power factor c nx dims
      else Some dims)"

declare deal_power.simps [code]

subsection \<open>The operation\<close>

datatype dims_error = ARGNEG | ARGARRAYNEG | DIMSPARTITION | DIMSMANY

definition dims_needed :: "int list \<Rightarrow> nat" where
  "dims_needed dims = length (filter (\<lambda>d. d = 0) dims)"

definition dims_product :: "int list \<Rightarrow> int" where
  "dims_product dims = prod_list (filter (\<lambda>d. d \<noteq> 0) dims)"

text \<open>
  The loop over the array: a negative entry is an error, a zero one is counted, any other multiplies
  \<^verbatim>\<open>dims_product\<close>, a signed \<^verbatim>\<open>int\<close> whose overflow is undefined.  The left value of the inner sum is
  the error returned.
\<close>

fun dims_scan :: "int list \<Rightarrow> nat \<Rightarrow> int \<Rightarrow> (dims_error + nat \<times> int) outcome" where
  "dims_scan [] needed product = Inr (Inr (needed, product))"
| "dims_scan (d # ds) needed product =
     (if d < 0 then Inr (Inl ARGARRAYNEG)
      else if d = 0 then dims_scan ds (Suc needed) product
      else if product * d \<ge> 2 ^ 31 then Inl (Undefined ''dims_product *= dims[i]'')
      else dims_scan ds needed (product * d))"

text \<open>The left value of the inner sum is the error returned; the right one the array \<^verbatim>\<open>dims\<close>.\<close>

definition MPIR_Dims_create :: "int \<Rightarrow> int list \<Rightarrow> (dims_error + int list) outcome option" where
  "MPIR_Dims_create nnodes dims =
     (case dims_scan dims 0 1 of
        Inl f \<Rightarrow> Some (Inl f)
      | Inr (Inl e) \<Rightarrow> Some (Inr (Inl e))
      | Inr (Inr (needed, product)) \<Rightarrow>
          if nnodes div product * product \<noteq> nnodes then Some (Inr (Inl DIMSPARTITION))
          else if needed = 0 then Some (Inr (Inr dims))
          else if needed > MAX_DIMS then Some (Inr (Inl DIMSMANY))
          else
            Option.bind (MPIR_Factor (nat (nnodes div product))) (\<lambda>r.
              case r of
                Inl f \<Rightarrow> Some (Inl f)
              | Inr (factors, ndivisors) \<Rightarrow>
                  if ndivisors \<le> needed then
                    Some (Inr (Inr (fill dims (MPIR_ChooseFactors factors needed))))
                  else if length factors = 1 then
                    Option.bind
                      (deal_power (int (val (factors ! 0))) (cnt (factors ! 0)) 0 (map (\<lambda>d. if d = 0 then -1 else d) dims))
                      (\<lambda>ds. Some (Inr (Inr (map (\<lambda>d. if d < 0 then - d else d) ds))))
                  else Some (Inr (Inr (fill dims (MPIR_ChooseFactors factors needed))))))"

definition MPI_Dims_create :: "int \<Rightarrow> int list \<Rightarrow> (dims_error + int list) outcome option" where
  "MPI_Dims_create nnodes dims =
     (if dims = [] then Some (Inr (Inr dims))
      else if nnodes < 0 then Some (Inr (Inl ARGNEG))
      else MPIR_Dims_create nnodes dims)"


subsection \<open>Factoring returns the factors\<close>

lemma divide_out_0: "divide_out p 0 c = None"
proof -
  have "n \<noteq> 0" if "divide_out p n c = Some r" for n c r
  proof (rule divide_out.raw_induct [where P = "\<lambda>p n c r. n \<noteq> 0", OF _ that])
    fix f p n c r
    assume "\<And>p n c r. f p n c = Some r \<Longrightarrow> n \<noteq> (0::nat)"
      and "(if n mod p = 0 then f p (n div p) (Suc c) else Some (n, c)) = Some r"
    then show "n \<noteq> 0" by (metis div_0 mod_0)
  qed
  then show ?thesis by (cases "divide_out p 0 c") auto
qed

lemma divide_out_returns:
  assumes "2 \<le> p"
  shows "0 < n \<Longrightarrow> \<exists>n1 k. divide_out p n c = Some (n1, c + k) \<and> n = n1 * p ^ k \<and> 0 < n1"
proof (induction n arbitrary: c rule: less_induct)
  case (less n)
  show ?case
  proof (cases "n mod p = 0")
    case True
    then have n: "n = p * (n div p)" by auto
    have "n div p < n" "0 < n div p" using less.prems assms n by (auto intro: Nat.gr0I)
    from less.IH [OF this, of "Suc c"] obtain n1 k where
      "divide_out p (n div p) (Suc c) = Some (n1, Suc c + k)" "n div p = n1 * p ^ k" "0 < n1" by blast
    moreover have "divide_out p n c = divide_out p (n div p) (Suc c)" using True by (simp add: divide_out.simps [of p n c])
    ultimately have "divide_out p n c = Some (n1, c + Suc k) \<and> n = n1 * p ^ Suc k \<and> 0 < n1"
      using n by (metis add_Suc_right add_Suc_shift mult.left_commute power_Suc)
    then show ?thesis by blast
  next
    case False
    then have "divide_out p n c = Some (n, c + 0) \<and> n = n * p ^ 0 \<and> 0 < n"
      using less.prems by (simp add: divide_out.simps [of p n c])
    then show ?thesis by blast
  qed
qed

definition fprod :: "Factors list \<Rightarrow> nat" where
  "fprod fs = prod_list (map (\<lambda>f. val f ^ cnt f) fs)"

lemma fprod_simps [simp]: "fprod [] = 1" "fprod (fs @ gs) = fprod fs * fprod gs" "fprod (f # fs) = val f ^ cnt f * fprod fs"
  by (simp_all add: fprod_def)

definition factors_ok :: "Factors list \<Rightarrow> bool" where
  "factors_ok fs \<longleftrightarrow> (\<forall>f\<in>set fs. 0 < val f \<and> 0 < cnt f)"

lemma vals_le_fprod: "factors_ok fs \<Longrightarrow> prod_list (map val fs) \<le> fprod fs"
  by (induction fs) (auto simp: factors_ok_def intro!: mult_le_mono self_le_power)

text \<open>Factors found at indices from \<open>k\<close> on are at least as large as the entries from \<open>k\<close> on.\<close>

lemma primes_block_mono:
  assumes "i \<le> k" "k + m \<le> length primes"
  shows "(\<Prod>j<m. primes ! (i + j)) \<le> (\<Prod>j<m. primes ! (k + j))"
  using assms by (intro prod_mono) (auto intro: primes_mono)

lemma factor_loop_returns:
  assumes "0 < n" "n * fprod fs = N" "N < 6469693230" "factors_ok fs" "length fs < MAX_FACTORS"
    "k + length fs \<le> length primes" "(\<Prod>j<length fs. primes ! (k + j)) \<le> prod_list (map val fs)"
  shows "\<exists>n1 fs'. factor_loop k n fs = Some (Inr (n1, fs')) \<and> n1 * fprod fs' = N \<and> 0 < n1 \<and> factors_ok fs'"
  using assms
proof (induction k arbitrary: n fs)
  case 0
  then show ?case by simp
next
  case (Suc i)
  let ?p = "primes ! i"
  have p: "2 \<le> ?p" using primes_ge_2 Suc.prems(6) by simp
  obtain n1 k where d: "divide_out ?p n 0 = Some (n1, k)" "n = n1 * ?p ^ k" "0 < n1"
    using divide_out_returns [OF p Suc.prems(1), of 0] by auto
  show ?case
  proof (cases "k = 0")
    case True
    have "(\<Prod>j<length fs. primes ! (i + j)) \<le> prod_list (map val fs)"
      using primes_block_mono [of i "Suc i" "length fs"] Suc.prems(6,7) by simp
    then show ?thesis using Suc.IH [of n1 fs] Suc.prems d True by simp
  next
    case False
    let ?fs = "fs @ [\<lparr>val = ?p, cnt = k\<rparr>]"
    have ok: "factors_ok ?fs" using Suc.prems(4) p False by (auto simp: factors_ok_def)
    have N: "n1 * fprod ?fs = N" using Suc.prems(2) d(2) by (simp add: ac_simps)
    have split: "(\<Prod>j<Suc (length fs). primes ! (i + j)) = ?p * (\<Prod>j<length fs. primes ! (Suc i + j))"
      by (simp add: prod.lessThan_Suc_shift del: prod.lessThan_Suc)
    have le: "(\<Prod>j<length ?fs. primes ! (i + j)) \<le> prod_list (map val ?fs)"
      using mult_le_mono2 [OF Suc.prems(7), of ?p] split by (simp add: mult.commute del: prod.lessThan_Suc)
    have len: "length fs + 1 \<noteq> MAX_FACTORS"
    proof
      assume "length fs + 1 = MAX_FACTORS"
      then have l: "length ?fs = 10" by (simp add: MAX_FACTORS_def)
      have "6469693230 \<le> (\<Prod>j<10. primes ! (i + j))"
        using primes_block_mono [of 0 i 10] primes_first_ten(1) Suc.prems(6) l by simp
      also have "\<dots> \<le> prod_list (map val ?fs)" using le unfolding l .
      also have "\<dots> \<le> fprod ?fs" by (rule vals_le_fprod [OF ok])
      also have "\<dots> \<le> N" using N d(3) by (metis One_nat_def Suc_leI mult_le_mono1 nat_mult_1)
      finally show False using Suc.prems(3) by simp
    qed
    have "\<exists>n' fs'. factor_loop i n1 ?fs = Some (Inr (n', fs')) \<and> n' * fprod fs' = N \<and> 0 < n' \<and> factors_ok fs'"
      by (rule Suc.IH) (use d(3) N Suc.prems(3,5,6) ok len le in auto)
    then show ?thesis using d(1) False len by simp
  qed
qed

lemma first_above_bound: "p \<in> set ps \<Longrightarrow> r < p \<Longrightarrow> first_above ps r i < i + length ps"
  by (induction ps r i rule: first_above.induct) auto

lemma bits_bound: "n < 2 ^ k \<Longrightarrow> bits n \<le> k"
proof (induction k arbitrary: n)
  case (Suc k)
  have "n div 2 < 2 ^ k" using Suc.prems by auto
  then show ?case using Suc.IH [of "n div 2"] by (simp add: bits.simps [of n])
qed (simp add: bits.simps)

lemma n_root_bound: "n < 2 ^ 31 \<Longrightarrow> n_root n \<le> 2 ^ 15"
  using div_le_mono [OF bits_bound [of n 31], of 2] unfolding n_root_def by (intro power_increasing) simp_all

lemma MPIR_Factor_correct:
  assumes "0 < n" "n < 2 ^ 31"
  shows "\<exists>fs. MPIR_Factor n = Some (Inr (fs, sum_list (map cnt fs))) \<and> fprod fs = n \<and> factors_ok fs \<and> fs \<noteq> []"
proof -
  let ?i = "first_above primes (n_root n) 0"
  obtain q where "q \<in> set primes" "n_root n < q" using primes_large n_root_bound [OF assms(2)] by force
  then have i: "?i < length primes" using first_above_bound [of q primes "n_root n" 0] by simp
  have "\<exists>n1 fs. factor_loop (Suc ?i) n [] = Some (Inr (n1, fs)) \<and> n1 * fprod fs = n \<and> 0 < n1 \<and> factors_ok fs"
    by (rule factor_loop_returns) (use assms i in \<open>simp_all add: factors_ok_def MAX_FACTORS_def\<close>)
  then obtain n1 fs where fs: "factor_loop (Suc ?i) n [] = Some (Inr (n1, fs))" "n1 * fprod fs = n" "0 < n1" "factors_ok fs"
    by blast
  show ?thesis
  proof (cases "fs = [] \<or> n1 > 1")
    case True
    let ?fs = "fs @ [\<lparr>val = n1, cnt = 1\<rparr>]"
    have "MPIR_Factor n = Some (Inr (?fs, sum_list (map cnt ?fs)))"
      using i fs(1) True by (auto simp: MPIR_Factor_def Let_def simp del: factor_loop.simps)
    then show ?thesis using fs by (intro exI [of _ ?fs]) (auto simp: factors_ok_def mult.commute)
  next
    case False
    then have "n1 = 1" "fs \<noteq> []" using fs(3) by auto
    then have "MPIR_Factor n = Some (Inr (fs, sum_list (map cnt fs)))"
      using i fs(1) by (simp add: MPIR_Factor_def Let_def del: factor_loop.simps)
    then show ?thesis using fs \<open>n1 = 1\<close> \<open>fs \<noteq> []\<close> by (intro exI [of _ fs]) simp
  qed
qed

subsection \<open>Dealing keeps the product\<close>

lemma iMin_bound: "chosen \<noteq> [] \<Longrightarrow> iMin chosen < length chosen"
proof -
  assume ne: "chosen \<noteq> []"
  let ?f = "\<lambda>ii (c, m). if chosen ! ii < c then (chosen ! ii, ii) else (c, m)"
  have "snd (fold ?f is (c, m)) \<in> insert m (set is)" for "is" c m
    by (induction "is" arbitrary: c m) (auto split: if_splits)
  from this [of "[1..<length chosen]" "chosen ! 0" 0] show ?thesis using ne by (auto simp: iMin_def)
qed

lemma prod_list_update_mult:
  "i < length (xs :: int list) \<Longrightarrow> prod_list (xs[i := xs ! i * v]) = prod_list xs * v"
  by (induction xs arbitrary: i) (auto split: nat.splits)

definition dealt :: "nat \<Rightarrow> int \<Rightarrow> nat \<times> int list \<Rightarrow> bool" where
  "dealt needed P = (\<lambda>(i, ch). i < needed \<and> length ch = needed \<and> prod_list ch = P \<and> (\<forall>x\<in>set ch. 0 < x))"

lemma deal_step:
  assumes "dealt needed P s" "0 < v"
  shows "dealt needed (P * int v) (deal v s)"
proof -
  obtain i ch where s: "s = (i, ch)" by (cases s)
  let ?i = "if ch ! i > int (iMin ch) then iMin ch else i"
  have "ch \<noteq> []" "i < length ch" using assms(1) by (auto simp: dealt_def s)
  then have "?i < length ch" using iMin_bound [of ch] by simp
  then show ?thesis using assms
    by (auto simp: dealt_def s deal_def Let_def prod_list_update_mult dest!: set_update_subset_insert [THEN subsetD])
qed

lemma deal_copies: "dealt needed P s \<Longrightarrow> 0 < v \<Longrightarrow> dealt needed (P * int v ^ c) ((deal v ^^ c) s)"
  by (induction c) (auto simp: mult.assoc [symmetric] mult.commute [of "int v"] dest: deal_step [where v = v])

lemma deal_all:
  "factors_ok fs \<Longrightarrow> dealt needed P s \<Longrightarrow> dealt needed (P * int (fprod fs)) (fold (\<lambda>f. deal (val f) ^^ cnt f) fs s)"
proof (induction fs arbitrary: P s)
  case (Cons f fs)
  have "dealt needed (P * int (val f) ^ cnt f) ((deal (val f) ^^ cnt f) s)"
    using deal_copies Cons.prems by (simp add: factors_ok_def)
  moreover have "factors_ok fs" using Cons.prems(1) by (simp add: factors_ok_def)
  ultimately have "dealt needed (P * int (val f) ^ cnt f * int (fprod fs)) (fold (\<lambda>f. deal (val f) ^^ cnt f) (f # fs) s)"
    using Cons.IH by simp
  then show ?case by (simp add: mult.assoc)
qed simp

subsection \<open>The exchange sort\<close>

lemma exchange_simps [simp]: "length (exchange i j ch) = length ch"
  by (simp add: exchange_def)

lemma exchange_mset: "i < length ch \<Longrightarrow> j < length ch \<Longrightarrow> mset (exchange i j ch) = mset ch"
  by (simp add: exchange_def mset_swap)

text \<open>After the inner loop the entry at \<open>i\<close> is the largest from \<open>i\<close> on; what is before stays.\<close>

lemma inner_loop:
  assumes "i < m" "m \<le> length ch"
  defines "r \<equiv> fold (exchange i) [i + 1..<m] ch"
  shows "length r = length ch \<and> mset r = mset ch \<and> (\<forall>k<i. r ! k = ch ! k) \<and>
    (\<forall>k. i \<le> k \<and> k < m \<longrightarrow> r ! k \<le> r ! i) \<and> (\<forall>k. m \<le> k \<and> k < length ch \<longrightarrow> r ! k = ch ! k)"
  using assms(1,2) unfolding r_def
proof (induction m)
  case (Suc m)
  show ?case
  proof (cases "i = m")
    case False
    then have m: "i < m" using Suc.prems by simp
    let ?r = "fold (exchange i) [i + 1..<m] ch"
    have IH: "length ?r = length ch" "mset ?r = mset ch" "\<forall>k<i. ?r ! k = ch ! k"
      "\<forall>k. i \<le> k \<and> k < m \<longrightarrow> ?r ! k \<le> ?r ! i" "\<forall>k. m \<le> k \<and> k < length ch \<longrightarrow> ?r ! k = ch ! k"
      using Suc.IH [OF m] Suc.prems by simp_all
    have e: "fold (exchange i) [i + 1..<Suc m] ch = exchange i m ?r" using m by simp
    show ?thesis unfolding e
    proof (intro conjI)
      show "mset (exchange i m ?r) = mset ch" using exchange_mset [of i ?r m] IH(1,2) m Suc.prems by simp
      show "\<forall>k. i \<le> k \<and> k < Suc m \<longrightarrow> exchange i m ?r ! k \<le> exchange i m ?r ! i"
        using IH(1,4) m Suc.prems by (fastforce simp: exchange_def nth_list_update less_Suc_eq)
    qed (use IH(1,3,5) m Suc.prems in \<open>auto simp: exchange_def nth_list_update\<close>)
  next
    case True
    then show ?thesis using Suc.prems by (auto simp: le_less_Suc_eq)
  qed
qed simp

lemma in_set_drop: "x \<in> set (drop m xs) \<longleftrightarrow> (\<exists>k\<ge>m. k < length xs \<and> x = xs ! k)"
proof
  assume "x \<in> set (drop m xs)"
  then obtain j where "j < length xs - m" "x = drop m xs ! j" by (auto simp: in_set_conv_nth)
  then show "\<exists>k\<ge>m. k < length xs \<and> x = xs ! k" by (intro exI [of _ "m + j"]) auto
next
  assume "\<exists>k\<ge>m. k < length xs \<and> x = xs ! k"
  then obtain k where "m \<le> k" "k < length xs" "x = xs ! k" by blast
  then show "x \<in> set (drop m xs)" by (auto simp: in_set_conv_nth intro!: exI [of _ "k - m"])
qed

lemma sort_chosen_sorts: "mset (sort_chosen ch) = mset ch" "sorted_wrt (\<ge>) (sort_chosen ch)"
proof -
  let ?n = "length ch"
  have inv: "length r = ?n \<and> mset r = mset ch \<and> (\<forall>a<m. \<forall>b. a < b \<and> b < ?n \<longrightarrow> r ! b \<le> r ! a)"
    if "m \<le> ?n - 1" "r = fold (\<lambda>i ch. fold (exchange i) [i + 1..<?n] ch) [0..<m] ch" for m r
    using that
  proof (induction m arbitrary: r)
    case (Suc m)
    define Q where "Q = fold (\<lambda>i ch. fold (exchange i) [i + 1..<?n] ch) [0..<m] ch"
    have q: "length Q = ?n" "mset Q = mset ch" "\<forall>a<m. \<forall>b. a < b \<and> b < ?n \<longrightarrow> Q ! b \<le> Q ! a"
      using Suc.IH [OF _ Q_def] Suc.prems by simp_all
    have r: "r = fold (exchange m) [m + 1..<?n] Q" using Suc.prems(2) by (simp add: Q_def)
    have "m < ?n" "?n \<le> length Q" using Suc.prems(1) q(1) by simp_all
    note il = inner_loop [OF this, folded r]
    have i: "length r = ?n" "mset r = mset Q" "\<forall>k<m. r ! k = Q ! k" "\<forall>k. m \<le> k \<and> k < ?n \<longrightarrow> r ! k \<le> r ! m"
      using il q(1) by simp_all
    have "take m r = take m Q" using i(1,3) q(1) by (intro nth_equalityI) auto
    moreover have "mset (take m r) + mset (drop m r) = mset (take m Q) + mset (drop m Q)"
      using i(2) by (simp only: mset_append [symmetric] append_take_drop_id)
    ultimately have "mset (drop m r) = mset (drop m Q)" by simp
    then have drops: "set (drop m r) = set (drop m Q)" by (rule mset_eq_setD)
    have "r ! b \<le> r ! a" if ab: "a < m" "a < b" "b < ?n" for a b
    proof (cases "b < m")
      case True
      then show ?thesis using q(3) ab i(3) by simp
    next
      case False
      then have "r ! b \<in> set (drop m Q)" using ab(3) i(1) drops [symmetric] by (auto simp: in_set_drop intro!: exI [of _ b])
      then obtain k where "m \<le> k" "k < ?n" "r ! b = Q ! k" using q(1) by (auto simp: in_set_drop)
      then show ?thesis using q(3) ab i(3) by simp
    qed
    then show ?case using i q(2) by (auto simp: less_Suc_eq)
  qed simp
  from inv [of "?n - 1"] have r: "length (sort_chosen ch) = ?n" "mset (sort_chosen ch) = mset ch"
      "\<forall>a<?n - 1. \<forall>b. a < b \<and> b < ?n \<longrightarrow> sort_chosen ch ! b \<le> sort_chosen ch ! a"
    by (simp_all add: sort_chosen_def)
  show "mset (sort_chosen ch) = mset ch" by (rule r(2))
  show "sorted_wrt (\<ge>) (sort_chosen ch)" unfolding sorted_wrt_iff_nth_less using r(1,3) by auto
qed

lemma ChooseFactors_correct:
  assumes "factors_ok fs" "0 < needed"
  shows "length (MPIR_ChooseFactors fs needed) = needed" "prod_list (MPIR_ChooseFactors fs needed) = int (fprod fs)"
    "sorted_wrt (\<ge>) (MPIR_ChooseFactors fs needed)" "\<forall>x\<in>set (MPIR_ChooseFactors fs needed). 0 < x"
proof -
  let ?s = "fold (\<lambda>f. deal (val f) ^^ cnt f) fs (0, replicate needed 1)"
  have "dealt needed 1 (0, replicate needed 1)" using assms(2) by (simp add: dealt_def)
  then have "dealt needed (int (fprod fs)) ?s" using deal_all [OF assms(1), of needed 1] by simp
  then have d: "length (snd ?s) = needed" "prod_list (snd ?s) = int (fprod fs)" "\<forall>x\<in>set (snd ?s). 0 < x"
    by (cases ?s; simp add: dealt_def)+
  have m: "mset (MPIR_ChooseFactors fs needed) = mset (snd ?s)" by (simp add: MPIR_ChooseFactors_def sort_chosen_sorts(1))
  show "length (MPIR_ChooseFactors fs needed) = needed" using m d(1) by (metis size_mset)
  show "prod_list (MPIR_ChooseFactors fs needed) = int (fprod fs)" using m d(2) by (metis prod_mset_prod_list)
  show "\<forall>x\<in>set (MPIR_ChooseFactors fs needed). 0 < x" using m d(3) by (metis set_mset_mset)
  show "sorted_wrt (\<ge>) (MPIR_ChooseFactors fs needed)" by (simp add: MPIR_ChooseFactors_def sort_chosen_sorts(2))
qed

subsection \<open>Filling the free dimensions\<close>

text \<open>\<open>ds\<close> keeps what was given and has positive entries, the filled ones not increasing.\<close>

definition fills :: "int list \<Rightarrow> int list \<Rightarrow> bool" where
  "fills dims ds \<longleftrightarrow>
     length ds = length dims \<and>
     (\<forall>k<length dims. 0 < ds ! k \<and> (dims ! k \<noteq> 0 \<longrightarrow> ds ! k = dims ! k)) \<and>
     (\<forall>a b. a < b \<and> b < length dims \<and> dims ! a = 0 \<and> dims ! b = 0 \<longrightarrow> ds ! b \<le> ds ! a)"

lemma dims_counts [simp]:
  "dims_needed [] = 0" "dims_product [] = 1"
  "dims_needed (d # ds) = (if d = 0 then Suc (dims_needed ds) else dims_needed ds)"
  "dims_product (d # ds) = (if d = 0 then dims_product ds else d * dims_product ds)"
  "dims_needed (ds @ es) = dims_needed ds + dims_needed es"
  "dims_product (ds @ es) = dims_product ds * dims_product es"
  by (simp_all add: dims_needed_def dims_product_def)

lemma dims_product_pos: "\<forall>d\<in>set dims. 0 \<le> d \<Longrightarrow> 0 < dims_product dims"
  by (induction dims) (auto simp: le_less)

lemma fill_length [simp]: "length (fill dims ch) = length dims"
  by (induction dims ch rule: fill.induct) auto

lemma fill_product: "length ch = dims_needed dims \<Longrightarrow> prod_list (fill dims ch) = dims_product dims * prod_list ch"
proof (induction dims ch rule: fill.induct)
  case (2 d ds ch)
  then show ?case by (cases ch) auto
qed simp

lemma fill_fills:
  assumes "\<forall>d\<in>set dims. 0 \<le> d"
  shows "length ch = dims_needed dims \<Longrightarrow> sorted_wrt (\<ge>) ch \<Longrightarrow> \<forall>x\<in>set ch. 0 < x \<Longrightarrow>
    fills dims (fill dims ch) \<and> (\<forall>k<length dims. dims ! k = 0 \<longrightarrow> fill dims ch ! k \<in> set ch)"
  using assms
proof (induction dims ch rule: fill.induct)
  case (2 d ds ch)
  show ?case
  proof (cases "d = 0")
    case True
    then obtain c cs where ch: "ch = c # cs" using 2 by (cases ch) auto
    have IH: "fills ds (fill ds cs)" "\<forall>k<length ds. ds ! k = 0 \<longrightarrow> fill ds cs ! k \<in> set cs"
      using 2(1) [OF True] 2(3-) ch True by auto
    show ?thesis using IH True ch 2(4,5) by (auto simp: fills_def nth_Cons split: nat.splits)
  next
    case False
    then have IH: "fills ds (fill ds ch)" "\<forall>k<length ds. ds ! k = 0 \<longrightarrow> fill ds ch ! k \<in> set ch"
      using 2(2) 2(3-) by auto
    show ?thesis using IH False 2(6) by (auto simp: fills_def nth_Cons split: nat.splits)
  qed
qed (simp add: fills_def)

subsection \<open>Dealing out the copies of one factor\<close>

text \<open>The array when the free dimensions below \<open>i\<close> have had \<open>q + 1\<close> copies and the others \<open>q\<close>.\<close>

definition round_state :: "int list \<Rightarrow> int \<Rightarrow> int \<Rightarrow> nat \<Rightarrow> nat \<Rightarrow> int list" where
  "round_state dims sg f q i =
     map (\<lambda>k. if dims ! k = 0 then sg * f ^ (if k < i then Suc q else q) else dims ! k) [0..<length dims]"

lemma round_state_nth [simp]:
  "k < length dims \<Longrightarrow> round_state dims sg f q i ! k = (if dims ! k = 0 then sg * f ^ (if k < i then Suc q else q) else dims ! k)"
  "length (round_state dims sg f q i) = length dims"
  by (simp_all add: round_state_def)

lemma round_state_wrap: "round_state dims sg f q (length dims) = round_state dims sg f (Suc q) 0"
  by (intro nth_equalityI) simp_all

lemma round_state_step:
  assumes "i < length dims"
  shows "dims ! i = 0 \<Longrightarrow> (round_state dims sg f q i)[i := round_state dims sg f q i ! i * f] = round_state dims sg f q (Suc i)"
    "dims ! i \<noteq> 0 \<Longrightarrow> round_state dims sg f q i = round_state dims sg f q (Suc i)"
  using assms by (auto intro!: nth_equalityI simp: nth_list_update less_Suc_eq)

definition dealt_out :: "int list \<Rightarrow> nat \<Rightarrow> nat \<Rightarrow> nat" where
  "dealt_out dims q i = q * dims_needed dims + dims_needed (take i dims)"

lemma dealt_out_Suc:
  "i < length dims \<Longrightarrow> dealt_out dims q (Suc i) = dealt_out dims q i + (if dims ! i = 0 then 1 else 0)"
  by (simp add: dealt_out_def take_Suc_conv_app_nth)

lemma dealt_out_wrap: "dealt_out dims q (length dims) = dealt_out dims (Suc q) 0"
  by (simp add: dealt_out_def)

text \<open>The next position, with the round it belongs to.\<close>

lemma next_round:
  assumes "i < length dims" "nx = (if i + 1 \<ge> length dims then 0 else i + 1)"
  obtains q' where "round_state dims sg f q (Suc i) = round_state dims sg f q' nx"
    "dealt_out dims q (Suc i) = dealt_out dims q' nx" "nx < length dims"
proof (cases "i + 1 \<ge> length dims")
  case True
  then have n: "Suc i = length dims" "nx = 0" using assms by auto
  show ?thesis
  proof (rule that [of "Suc q"])
    show "nx < length dims" using n(2) assms(1) by (cases dims) simp_all
  qed (simp_all only: n round_state_wrap dealt_out_wrap)
next
  case False
  then show ?thesis using that [of q] assms by simp
qed

text \<open>The steps to the next free dimension, going round.\<close>

definition free_from :: "int list \<Rightarrow> nat \<Rightarrow> bool" where
  "free_from dims i \<longleftrightarrow> (\<exists>k\<ge>i. k < length dims \<and> dims ! k = 0)"

definition ahead :: "int list \<Rightarrow> nat \<Rightarrow> nat" where
  "ahead dims i = (if free_from dims i then length dims - i else 2 * length dims - i)"

lemma ahead_next:
  assumes "i < length dims" "dims ! i \<noteq> 0" "0 < dims_needed dims" "nx = (if i + 1 \<ge> length dims then 0 else i + 1)"
  shows "ahead dims nx < ahead dims i"
proof -
  obtain k where k: "k < length dims" "dims ! k = 0"
    using assms(3) by (auto simp: dims_needed_def in_set_conv_nth filter_empty_conv)
  show ?thesis
  proof (cases "i + 1 \<ge> length dims")
    case True
    then have n: "nx = 0" "Suc i = length dims" using assms by auto
    have "\<not> free_from dims i"
    proof
      assume "free_from dims i"
      then obtain j where "i \<le> j" "j < length dims" "dims ! j = 0" unfolding free_from_def by blast
      moreover from this n(2) have "j = i" by simp
      ultimately show False using assms(2) by simp
    qed
    moreover have "free_from dims 0" using k unfolding free_from_def by blast
    ultimately show ?thesis using n by (simp add: ahead_def)
  next
    case False
    have "free_from dims (Suc i) = free_from dims i"
      using assms(2) unfolding free_from_def by (metis Suc_leD Suc_leI le_neq_implies_less)
    then show ?thesis using False assms(1,4) by (cases "free_from dims i") (simp_all add: ahead_def)
  qed
qed

lemma ahead_le: "ahead dims i \<le> 2 * length dims"
  unfolding ahead_def by (cases "free_from dims i") simp_all

lemma deal_power_returns:
  assumes "\<forall>d\<in>set dims. 0 \<le> d" "0 < dims_needed dims" "0 < f"
  shows "i < length dims \<Longrightarrow> \<exists>q' i'. deal_power f c i (round_state dims (-1) f q i) = Some (round_state dims (-1) f q' i') \<and>
    dealt_out dims q' i' = dealt_out dims q i + c"
proof (induction "c * (2 * length dims + 1) + ahead dims i" arbitrary: c i q rule: less_induct)
  case less
  let ?s = "round_state dims (-1) f q i"
  show ?case
  proof (cases "c = 0")
    case True
    then have "deal_power f c i ?s = Some ?s" by (simp add: deal_power.simps)
    then show ?thesis using True by (intro exI [of _ q] exI [of _ i]) simp
  next
    case c: False
    define nx where "nx = (if i + 1 \<ge> length dims then 0 else i + 1)"
    obtain q' where q': "round_state dims (-1) f q (Suc i) = round_state dims (-1) f q' nx"
      "dealt_out dims q (Suc i) = dealt_out dims q' nx" "nx < length dims"
      using next_round [OF less.prems nx_def] by metis
    show ?thesis
    proof (cases "dims ! i = 0")
      case True
      have "deal_power f c i ?s = deal_power f (c - 1) nx (?s[i := ?s ! i * f])"
        using c True less.prems assms(3) by (subst deal_power.simps) (simp add: Let_def nx_def)
      then have e: "deal_power f c i ?s = deal_power f (c - 1) nx (round_state dims (-1) f q' nx)"
        using round_state_step(1) [OF less.prems True] q'(1) by simp
      obtain c' where c': "c = Suc c'" using c by (cases c) auto
      obtain q'' i'' where r: "deal_power f c' nx (round_state dims (-1) f q' nx) = Some (round_state dims (-1) f q'' i'')"
        "dealt_out dims q'' i'' = dealt_out dims q' nx + c'"
        using less.hyps [OF _ q'(3), of c' q'] ahead_le [of dims nx] c' by auto
      then have "dealt_out dims q'' i'' = dealt_out dims q i + c"
        using q'(2) dealt_out_Suc [OF less.prems, of q] True c' by simp
      then show ?thesis using e r(1) c' by auto
    next
      case False
      have "0 \<le> dims ! i" using assms(1) less.prems by simp
      then have "deal_power f c i ?s = deal_power f c nx ?s"
        using c False less.prems by (subst deal_power.simps) (simp add: Let_def nx_def)
      then have e: "deal_power f c i ?s = deal_power f c nx (round_state dims (-1) f q' nx)"
        using round_state_step(2) [OF less.prems False] q'(1) by simp
      have "ahead dims nx < ahead dims i" by (rule ahead_next [OF less.prems False assms(2) nx_def])
      then have "\<exists>q'' i''. deal_power f c nx (round_state dims (-1) f q' nx) = Some (round_state dims (-1) f q'' i'') \<and>
          dealt_out dims q'' i'' = dealt_out dims q' nx + c"
        using less.hyps [OF _ q'(3), of c q'] by simp
      then show ?thesis using e q'(2) dealt_out_Suc [OF less.prems, of q] False by simp
    qed
  qed
qed

lemma round_state_product:
  "prod_list (round_state dims 1 f q i) = dims_product dims * f ^ dealt_out dims q i"
proof -
  let ?g = "\<lambda>k. if dims ! k = 0 then f ^ (if k < i then Suc q else q) else dims ! k"
  let ?e = "\<lambda>m. q * dims_needed (take m dims) + dims_needed (take (min m i) dims)"
  have step: "?e (Suc m) = ?e m + (if dims ! m = 0 then if m < i then Suc q else q else 0)" if "m < length dims" for m
    using that by (cases "m < i") (simp_all add: take_Suc_conv_app_nth min_def not_less)
  have all: "m \<le> length dims \<Longrightarrow> prod_list (map ?g [0..<m]) = dims_product (take m dims) * f ^ ?e m" for m
  proof (induction m)
    case (Suc m)
    then show ?case using step [of m] by (cases "dims ! m = 0") (simp_all add: take_Suc_conv_app_nth power_add)
  qed simp
  have "round_state dims 1 f q i = map ?g [0..<length dims]" by (simp add: round_state_def cong: if_cong)
  moreover have "?e (length dims) = dealt_out dims q i" by (simp add: dealt_out_def min_def)
  ultimately show ?thesis using all [of "length dims"] by simp
qed

lemma round_state_fills:
  assumes "\<forall>d\<in>set dims. 0 \<le> d" "0 < f"
  shows "fills dims (round_state dims 1 f q i)"
proof -
  have "1 \<le> f" using assms(2) by simp
  then have "f ^ q \<le> f * f ^ q" using assms(2) by simp
  moreover have "0 \<le> dims ! k" if "k < length dims" for k using assms(1) that by simp
  ultimately show ?thesis using assms(2) unfolding fills_def by (auto simp: le_less)
qed

subsection \<open>The dimensions chosen\<close>

lemma deal_power_fills:
  assumes "\<forall>d\<in>set dims. 0 \<le> d" "0 < dims_needed dims" "0 < f"
  shows "\<exists>ds. deal_power f c 0 (map (\<lambda>d. if d = 0 then -1 else d) dims) = Some ds \<and>
    fills dims (map (\<lambda>d. if d < 0 then - d else d) ds) \<and>
    prod_list (map (\<lambda>d. if d < 0 then - d else d) ds) = dims_product dims * f ^ c"
proof -
  have start: "map (\<lambda>d. if d = 0 then -1 else d) dims = round_state dims (-1) f 0 0"
    by (intro nth_equalityI) simp_all
  have "0 < length dims" using assms(2) by (cases dims) auto
  from deal_power_returns [OF assms this, of c 0] obtain q i where
    r: "deal_power f c 0 (round_state dims (-1) f 0 0) = Some (round_state dims (-1) f q i)" "dealt_out dims q i = c"
    by (auto simp: dealt_out_def)
  have "map (\<lambda>d. if d < 0 then - d else d) (round_state dims (-1) f q i) = round_state dims 1 f q i"
  proof (intro nth_equalityI)
    fix k assume "k < length (map (\<lambda>d. if d < 0 then - d else d) (round_state dims (-1) f q i))"
    then have k: "k < length dims" by simp
    then have "0 \<le> dims ! k" using assms(1) by simp
    then show "map (\<lambda>d. if d < 0 then - d else d) (round_state dims (-1) f q i) ! k = round_state dims 1 f q i ! k"
      using k assms(3) by auto
  qed simp
  then show ?thesis
    using r start round_state_fills [OF assms(1,3), of q i] round_state_product [of dims f q i] by simp
qed

text \<open>
  The scan overflows when the product of the entries before the first negative one does not fit:
  the partial products only grow.
\<close>

lemma dims_product_takeWhile_pos: "0 < dims_product (takeWhile (\<lambda>d. 0 \<le> d) dims)"
  by (rule dims_product_pos) (auto dest: set_takeWhileD)

lemma dims_scan_correct:
  assumes "0 < product" "product < 2 ^ 31"
  shows "dims_scan dims needed product =
    (if product * dims_product (takeWhile (\<lambda>d. 0 \<le> d) dims) \<ge> 2 ^ 31 then Inl (Undefined ''dims_product *= dims[i]'')
     else if \<exists>d\<in>set dims. d < 0 then Inr (Inl ARGARRAYNEG)
     else Inr (Inr (needed + dims_needed dims, product * dims_product dims)))"
  using assms
proof (induction dims needed product rule: dims_scan.induct)
  case (2 d ds needed product)
  let ?r = "dims_product (takeWhile (\<lambda>d. 0 \<le> d) ds)"
  consider "d < 0" | "d = 0" | "0 < d" by linarith
  then show ?case
  proof cases
    case 3
    show ?thesis
    proof (cases "product * d \<ge> 2 ^ 31")
      case True
      have "product * d * 1 \<le> product * d * ?r"
        using dims_product_takeWhile_pos [of ds] 2(3) 3 by (intro mult_left_mono) auto
      then show ?thesis using True 3 by (simp add: mult.assoc)
    next
      case False
      then show ?thesis using 2(2) [of] 2(3) 3 by (simp add: mult.assoc)
    qed
  qed (use 2 in auto)
qed simp

lemma dims_scan_nonneg:
  assumes "\<forall>d\<in>set dims. 0 \<le> d"
  shows "dims_product dims < 2 ^ 31 \<Longrightarrow> dims_scan dims 0 1 = Inr (Inr (dims_needed dims, dims_product dims))"
proof -
  have "takeWhile (\<lambda>d. 0 \<le> d) dims = dims" using assms by (simp only: takeWhile_eq_all_conv)
  then show "dims_product dims < 2 ^ 31 \<Longrightarrow> dims_scan dims 0 1 = Inr (Inr (dims_needed dims, dims_product dims))"
    using assms dims_scan_correct [of 1 dims 0] by (auto simp: not_less simp del: takeWhile_eq_all_conv)
qed

lemma Dims_create_fills:
  assumes "0 < nnodes" "nnodes < 2 ^ 31" "\<forall>d\<in>set dims. 0 \<le> d" "dims_product dims dvd nnodes"
    "0 < dims_needed dims" "dims_needed dims \<le> MAX_DIMS"
  shows "\<exists>ds. MPIR_Dims_create nnodes dims = Some (Inr (Inr ds)) \<and> fills dims ds \<and> prod_list ds = nnodes"
proof -
  let ?P = "dims_product dims" and ?n = "nat (nnodes div dims_product dims)"
  have P: "0 < ?P" by (rule dims_product_pos [OF assms(3)])
  obtain q where q: "nnodes = ?P * q" using assms(4) by (elim dvdE)
  then have "0 < q" using P assms(1) by (simp add: zero_less_mult_iff)
  have "q \<le> nnodes" using mult_right_mono [of 1 ?P q] q P \<open>0 < q\<close> by simp
  then have "q < 2 ^ 31" using assms(2) by simp
  then have n: "?n = nat q" "0 < nat q" "nat q < 2 ^ 31" using q P \<open>0 < q\<close> by auto
  obtain fs where fs: "MPIR_Factor (nat q) = Some (Inr (fs, sum_list (map cnt fs)))" "fprod fs = nat q" "factors_ok fs" "fs \<noteq> []"
    using MPIR_Factor_correct [OF n(2,3)] by blast
  have guards: "dims_scan dims 0 1 = Inr (Inr (dims_needed dims, ?P))" "nnodes div ?P * ?P = nnodes"
    "dims_needed dims \<noteq> 0" "\<not> dims_needed dims > MAX_DIMS"
    using dims_scan_nonneg [OF assms(3)] zdvd_imp_le [OF assms(4,1)] assms(2,5,6) dvd_div_mult_self [OF assms(4)]
    by (simp_all add: not_less)
  show ?thesis
  proof (cases "sum_list (map cnt fs) \<le> dims_needed dims \<or> length fs \<noteq> 1")
    case True
    note c = ChooseFactors_correct [OF fs(3) assms(5)]
    let ?ds = "fill dims (MPIR_ChooseFactors fs (dims_needed dims))"
    have "MPIR_Dims_create nnodes dims = Some (Inr (Inr ?ds))"
      using guards n(1) fs(1) True by (auto simp: MPIR_Dims_create_def)
    moreover have "fills dims ?ds" using fill_fills [OF assms(3) c(1,3,4)] by simp
    moreover have "prod_list ?ds = nnodes" using fill_product [OF c(1)] c(2) fs(2) q \<open>0 < q\<close> by simp
    ultimately show ?thesis by blast
  next
    case False
    then obtain f where f: "fs = [f]" by (cases fs) auto
    have v: "0 < int (val f)" "int (val f) ^ cnt f = q" using fs(2,3) f \<open>0 < q\<close> by (auto simp: factors_ok_def simp flip: of_nat_power)
    obtain ds where ds: "deal_power (int (val f)) (cnt f) 0 (map (\<lambda>d. if d = 0 then -1 else d) dims) = Some ds"
      "fills dims (map (\<lambda>d. if d < 0 then - d else d) ds)"
      "prod_list (map (\<lambda>d. if d < 0 then - d else d) ds) = ?P * int (val f) ^ cnt f"
      using deal_power_fills [OF assms(3,5) v(1), of "cnt f"] by blast
    have "MPIR_Dims_create nnodes dims = Some (Inr (Inr (map (\<lambda>d. if d < 0 then - d else d) ds)))"
      using guards n(1) fs(1) False f ds(1) by (simp add: MPIR_Dims_create_def)
    then show ?thesis using ds(2,3) v(2) q by simp
  qed
qed

text \<open>
  C9. For every positive number of processes and every array with at least one dimension,
  \<^verbatim>\<open>MPI_Dims_create\<close> returns, unless the product of the given dimensions leaves the range of \<^verbatim>\<open>int\<close>: then
  the scan overflows, which is undefined (the entries after the first negative one are not
  reached and do not count).  A negative entry is an error; otherwise, when the product of the given
  dimensions does not divide the number of processes the error is \<^verbatim>\<open>**dimspartition\<close>; without a free
  dimension the array stays as it is; with more than \<^verbatim>\<open>MAX_DIMS\<close> free ones the error is
  \<^verbatim>\<open>**dimsmany\<close>.  In all other cases the given dimensions are kept, the free ones get positive values
  in non-increasing order, and the product of all is the number of processes.
\<close>

theorem dims_create_correct:
  assumes "0 < nnodes" "nnodes < 2 ^ 31" "dims \<noteq> []"
  shows "if dims_product (takeWhile (\<lambda>d. 0 \<le> d) dims) \<ge> 2 ^ 31
    then MPI_Dims_create nnodes dims = Some (Inl (Undefined ''dims_product *= dims[i]''))
    else \<exists>r. MPI_Dims_create nnodes dims = Some (Inr r) \<and>
      (if \<exists>d\<in>set dims. d < 0 then r = Inl ARGARRAYNEG
       else if \<not> dims_product dims dvd nnodes then r = Inl DIMSPARTITION
       else if dims_needed dims = 0 then r = Inr dims
       else if dims_needed dims > MAX_DIMS then r = Inl DIMSMANY
       else \<exists>ds. r = Inr ds \<and> fills dims ds \<and> prod_list ds = nnodes)"
proof -
  have e: "MPI_Dims_create nnodes dims = MPIR_Dims_create nnodes dims" using assms(1,3) by (simp add: MPI_Dims_create_def)
  have d: "nnodes div dims_product dims * dims_product dims \<noteq> nnodes \<longleftrightarrow> \<not> dims_product dims dvd nnodes"
    by (metis dvd_div_mult_self dvd_triv_right)
  have scan: "dims_scan dims 0 1 =
    (if dims_product (takeWhile (\<lambda>d. 0 \<le> d) dims) \<ge> 2 ^ 31 then Inl (Undefined ''dims_product *= dims[i]'')
     else if \<exists>d\<in>set dims. d < 0 then Inr (Inl ARGARRAYNEG)
     else Inr (Inr (dims_needed dims, dims_product dims)))"
    by (simp add: dims_scan_correct)
  show ?thesis
  proof (cases "dims_product (takeWhile (\<lambda>d. 0 \<le> d) dims) \<ge> 2 ^ 31 \<or> (\<exists>d\<in>set dims. d < 0) \<or>
      \<not> dims_product dims dvd nnodes \<or> dims_needed dims = 0 \<or> dims_needed dims > MAX_DIMS")
    case True
    then show ?thesis unfolding e MPIR_Dims_create_def scan by (auto simp: d)
  next
    case False
    then have "\<forall>d\<in>set dims. 0 \<le> d" "dims_product dims dvd nnodes" "0 < dims_needed dims" "dims_needed dims \<le> MAX_DIMS"
      by (auto simp: not_less)
    from Dims_create_fills [OF assms(1,2) this] show ?thesis unfolding e using False by auto
  qed
qed

theorem dims_create_correct_witness:
  "(\<exists>ds. MPI_Dims_create 24 [0, 2, 0] = Some (Inr (Inr ds)) \<and> fills [0, 2, 0] ds \<and> prod_list ds = 24) \<and>
   MPI_Dims_create 24 [65536, 65536] = Some (Inl (Undefined ''dims_product *= dims[i]''))"
  using dims_create_correct [of 24 "[0, 2, 0]"] dims_create_correct [of 24 "[65536, 65536]"] by (auto simp: MAX_DIMS_def)

text \<open>With no processes the division loop does not return.\<close>

lemma dims_create_0_diverges: "MPI_Dims_create 0 [0] = None"
proof -
  have "factor_loop (Suc i) 0 fs = None" for i fs by (simp add: divide_out_0)
  moreover have "first_above primes (n_root 0) 0 < length primes"
    using primes_large first_above_bound [of _ primes "n_root 0" 0] n_root_bound [of 0] by force
  ultimately show ?thesis
    by (simp add: MPI_Dims_create_def MPIR_Dims_create_def MPIR_Factor_def MAX_DIMS_def Let_def del: factor_loop.simps)
qed

text \<open>
  Primes between the approximate root and the root are not tried: 361 is the square of 19, the
  approximate root is 16 and the largest prime tried is 17, so 361 is taken for a prime.
\<close>

lemma first_above_append: "q \<in> set xs \<Longrightarrow> r < q \<Longrightarrow> first_above (xs @ ys) r i = first_above xs r i"
  by (induction xs r i rule: first_above.induct) auto

lemma primes_nth_low: "i < 10 \<Longrightarrow> primes ! i = [2, 3, 5, 7, 11, 13, 17, 19, 23, 29] ! i"
  using nth_take [of i 10 primes] unfolding primes_take_10 by (rule sym)

lemma factor_361: "MPIR_Factor 361 = Some (Inr ([\<lparr>val = 361, cnt = 1\<rparr>], 1))"
proof -
  have r: "n_root 361 = 16" by (simp add: n_root_def bits.simps)
  have split: "take 10 primes @ drop 10 primes = primes" by (rule append_take_drop_id)
  have "first_above primes 16 0 = first_above (take 10 primes) 16 0"
  proof (rule first_above_append [of 17 "take 10 primes" 16 "drop 10 primes" 0, unfolded split])
    show "17 \<in> set (take 10 primes)" unfolding primes_take_10 by simp
  qed simp
  also have "first_above (take 10 primes) 16 0 = 6" unfolding primes_take_10 by simp
  finally have i: "first_above primes 16 0 = 6" .
  have l: "6 < length primes" using primes_first_ten(2) by simp
  have d: "361 mod p \<noteq> 0 \<Longrightarrow> divide_out p 361 0 = Some (361, 0)" for p by (simp add: divide_out.simps)
  have nd: "361 mod (primes ! k) \<noteq> 0" if "k < Suc 6" for k
  proof -
    have "k \<in> {0, 1, 2, 3, 4, 5, 6}" using that by auto
    then show ?thesis by (auto simp: primes_nth_low)
  qed
  have "k \<le> Suc 6 \<Longrightarrow> factor_loop k 361 [] = Some (Inr (361, []))" for k
    by (induction k) (simp_all add: d nd)
  then have "factor_loop (Suc 6) 361 [] = Some (Inr (361, []))" by blast
  then show ?thesis unfolding MPIR_Factor_def Let_def r i using l by (simp del: factor_loop.simps)
qed

lemma dims_create_361: "MPI_Dims_create 361 [0, 0] = Some (Inr (Inr [361, 1]))"
  by (simp add: MPI_Dims_create_def MPIR_Dims_create_def factor_361 MAX_DIMS_def MPIR_ChooseFactors_def deal_def iMin_def
      sort_chosen_def exchange_def upt_rec numeral_2_eq_2)

end
