(* ===== verification/Topo_Cart.thy ===== *)
theory Topo_Cart
  imports Comm_Split
begin

section \<open>Cartesian topologies (\<^verbatim>\<open>mpi/topo/cart_*.c\<close>, \<^verbatim>\<open>topoutil.c\<close>)\<close>

text \<open>
  A Cartesian communicator carries the sizes of the dimensions, which of them are periodic, and the
  coordinates of the calling process.  Modelled are the routines that go between ranks and coordinates,
  the shifts and neighbours, and the part of \<^verbatim>\<open>MPI_Cart_create\<close> and \<^verbatim>\<open>MPI_Cart_sub\<close> that computes the
  topology; the communicator itself is made by the split or copy of \<open>Comm_Run\<close>, so the rank in the
  new communicator is an argument.  The ranks, the sizes and the products the code forms are those of
  the processes of a communicator, so they are in the range of \<^verbatim>\<open>int\<close> and left unbounded; the sum of a
  coordinate and a displacement, which the caller chooses, faults where it overflows.  A topology
  attached by the user's own functions (\<^verbatim>\<open>topo_fns\<close>) is not modelled.
\<close>

subsection \<open>Division in C\<close>

definition c_div :: "int \<Rightarrow> int \<Rightarrow> int" where
  "c_div a b = sgn a * sgn b * (\<bar>a\<bar> div \<bar>b\<bar>)"

definition c_rem :: "int \<Rightarrow> int \<Rightarrow> int" where
  "c_rem a b = sgn a * (\<bar>a\<bar> mod \<bar>b\<bar>)"

lemma c_div_pos [simp]: "0 \<le> a \<Longrightarrow> 0 < b \<Longrightarrow> c_div a b = a div b"
  by (cases "a = 0") (simp_all add: c_div_def)

lemma c_rem_pos [simp]: "0 \<le> a \<Longrightarrow> 0 < b \<Longrightarrow> c_rem a b = a mod b"
  by (cases "a = 0") (simp_all add: c_rem_def)

subsection \<open>The topology\<close>

record MPIR_Cart_topology =
  c_nnodes :: int
  c_dims :: "int list"
  c_periodic :: "bool list"
  c_position :: "int list"

definition ndims :: "MPIR_Cart_topology \<Rightarrow> nat" where
  "ndims t = length (c_dims t)"

datatype topo_error = ERR_CARTDIM | ERR_TOPOTOOLARGE | ERR_NDIMS_NEG | ERR_DIMSZERO | ERR_DIMSMANY | ERR_ARG | ERR_RANK
  | ERR_CARTCOORD

text \<open>The loop that turns a rank into coordinates: \<open>n\<close> is the number of processes not yet divided up.\<close>

fun positions :: "int \<Rightarrow> int list \<Rightarrow> int \<Rightarrow> int list" where
  "positions n [] rank = []"
| "positions n (d # ds) rank =
     (let n1 = c_div n d in c_div rank n1 # positions n1 ds (c_rem rank n1))"

definition MPIR_Cart_map :: "int \<Rightarrow> int \<Rightarrow> int list \<Rightarrow> topo_error + int" where
  "MPIR_Cart_map remote_size rank dims =
     (let nranks = foldl (*) 1 dims in
      if remote_size < nranks then Inl ERR_TOPOTOOLARGE
      else if rank < nranks then Inr rank else Inr MPI_UNDEFINED)"

text \<open>
  The result is the topology of the calling process, or \<open>None\<close> when it gets no communicator.  The
  0-dimensional topology is built on a duplicate of \<^verbatim>\<open>MPI_COMM_SELF\<close>, by rank 0 only.
\<close>

definition MPIR_Cart_create ::
  "int \<Rightarrow> int \<Rightarrow> int list \<Rightarrow> bool list \<Rightarrow> bool \<Rightarrow> topo_error + MPIR_Cart_topology option" where
  "MPIR_Cart_create remote_size comm_rank dims periods reorder =
     (let newsize = foldl (*) 1 dims in
      if newsize > remote_size then Inl ERR_CARTDIM
      else if dims = [] then
        if comm_rank = 0 then Inr (Some \<lparr>c_nnodes = 1, c_dims = [], c_periodic = [], c_position = []\<rparr>)
        else Inr None
      else
        case (if reorder then MPIR_Cart_map remote_size comm_rank dims else Inr comm_rank) of
          Inl e \<Rightarrow> Inl e
        | Inr rank \<Rightarrow>
            if rank \<ge> newsize \<or> rank = MPI_UNDEFINED then Inr None
            else Inr (Some \<lparr>c_nnodes = newsize, c_dims = dims, c_periodic = periods,
                           c_position = positions newsize dims rank\<rparr>))"

subsection \<open>Ranks and coordinates\<close>

definition wrap_coord :: "bool \<Rightarrow> int \<Rightarrow> int \<Rightarrow> int" where
  "wrap_coord periodic dim coord =
     (if periodic then
        if coord \<ge> dim then c_rem coord dim
        else if coord < 0 then let c = c_rem coord dim in if c \<noteq> 0 then dim + c else c
        else coord
      else coord)"

definition MPIR_Cart_rank_impl :: "MPIR_Cart_topology \<Rightarrow> int list \<Rightarrow> int" where
  "MPIR_Cart_rank_impl t coords =
     fst (foldr (\<lambda>i (rank, multiplier).
         (rank + multiplier * wrap_coord (c_periodic t ! i) (c_dims t ! i) (coords ! i), multiplier * c_dims t ! i))
       [0..<ndims t] (0, 1))"

definition MPI_Cart_rank :: "MPIR_Cart_topology \<Rightarrow> int list \<Rightarrow> topo_error + int" where
  "MPI_Cart_rank t coords =
     (if \<exists>i<ndims t. \<not> c_periodic t ! i \<and> (coords ! i < 0 \<or> coords ! i \<ge> c_dims t ! i) then Inl ERR_CARTCOORD
      else Inr (MPIR_Cart_rank_impl t coords))"

text \<open>\<open>sz\<close> is the size of the communicator, against which the rank is checked.\<close>

definition MPI_Cart_coords :: "int \<Rightarrow> MPIR_Cart_topology \<Rightarrow> int \<Rightarrow> int \<Rightarrow> topo_error + int list" where
  "MPI_Cart_coords sz t rank maxdims =
     (if rank < 0 \<or> rank \<ge> sz then Inl ERR_RANK
      else if int (ndims t) > maxdims then Inl ERR_DIMSMANY
      else Inr (positions (c_nnodes t) (c_dims t) rank))"

subsection \<open>Shifts and neighbours\<close>

definition MAX_CART_DIM :: nat where
  "MAX_CART_DIM = 16"

text \<open>The rank at the position moved along a dimension, or none over an edge.\<close>

definition shifted :: "MPIR_Cart_topology \<Rightarrow> nat \<Rightarrow> int \<Rightarrow> int" where
  "shifted t direction x =
     (if \<not> c_periodic t ! direction \<and> (x \<ge> c_dims t ! direction \<or> x < 0) then MPI_PROC_NULL
      else MPIR_Cart_rank_impl t ((c_position t)[direction := x]))"

text \<open>The new coordinate is a signed \<^verbatim>\<open>int\<close> whose overflow is undefined.\<close>

definition in_int :: "int \<Rightarrow> bool" where
  "in_int x \<longleftrightarrow> - (2 ^ 31) \<le> x \<and> x < 2 ^ 31"

definition shifted_to :: "MPIR_Cart_topology \<Rightarrow> nat \<Rightarrow> int \<Rightarrow> int outcome" where
  "shifted_to t direction x =
     (if in_int x then Inr (shifted t direction x) else Inl (Undefined ''pos[direction]''))"

text \<open>
  The pair of source and destination, the destination computed first.  The local array of positions
  has a fixed size; a negative direction, which only callers inside the library can pass, goes
  through the checks and indexes the array below its start.
\<close>

definition MPIR_Cart_shift_impl ::
  "int \<Rightarrow> MPIR_Cart_topology \<Rightarrow> int \<Rightarrow> int \<Rightarrow> (topo_error + int \<times> int) outcome" where
  "MPIR_Cart_shift_impl rank t direction disp =
     (if ndims t = 0 then Inr (Inl ERR_DIMSZERO)
      else if direction \<ge> int (ndims t) then Inr (Inl ERR_DIMSMANY)
      else if disp = 0 then Inr (Inr (rank, rank))
      else if ndims t > MAX_CART_DIM then Inl (Undefined ''pos[i]'')
      else if direction < 0 then Inl (Undefined ''pos[direction]'')
      else
        bind_outcome (shifted_to t (nat direction) (c_position t ! nat direction + disp)) (\<lambda>rank_dest.
        bind_outcome (shifted_to t (nat direction) (c_position t ! nat direction - disp)) (\<lambda>rank_source.
        Inr (Inr (rank_source, rank_dest)))))"

definition MPI_Cart_shift ::
  "int \<Rightarrow> MPIR_Cart_topology \<Rightarrow> int \<Rightarrow> int \<Rightarrow> (topo_error + int \<times> int) outcome" where
  "MPI_Cart_shift rank t direction disp =
     (if direction < 0 then Inr (Inl ERR_ARG) else MPIR_Cart_shift_impl rank t direction disp)"

text \<open>
  The neighbours of a Cartesian topology, the same list for sources and destinations: for every
  dimension the one below and the one above.
\<close>

fun canon_nhb_from :: "int \<Rightarrow> MPIR_Cart_topology \<Rightarrow> nat list \<Rightarrow> (topo_error + int list) outcome" where
  "canon_nhb_from rank t [] = Inr (Inr [])"
| "canon_nhb_from rank t (d # ds) =
     bind_outcome (MPIR_Cart_shift_impl rank t (int d) 1) (\<lambda>r.
       case r of
         Inl e \<Rightarrow> Inr (Inl e)
       | Inr (src, dst) \<Rightarrow>
           bind_outcome (canon_nhb_from rank t ds) (\<lambda>r'.
             case r' of Inl e \<Rightarrow> Inr (Inl e) | Inr ns \<Rightarrow> Inr (Inr (src # dst # ns))))"

definition MPIR_Topo_canon_nhb :: "int \<Rightarrow> MPIR_Cart_topology \<Rightarrow> (topo_error + int list) outcome" where
  "MPIR_Topo_canon_nhb rank t = canon_nhb_from rank t [0..<ndims t]"

subsection \<open>Subgrids\<close>

text \<open>Color and key of the split: the remaining dimensions make the key, the others the color.\<close>

definition sub_color_key :: "MPIR_Cart_topology \<Rightarrow> bool list \<Rightarrow> int \<times> int" where
  "sub_color_key t remain =
     foldl (\<lambda>(color, key) i.
         if remain ! i then (color, key * c_dims t ! i + c_position t ! i)
         else (color * c_dims t ! i + c_position t ! i, key))
       (0, 0) [0..<ndims t]"

definition kept :: "bool list \<Rightarrow> 'a list \<Rightarrow> 'a list" where
  "kept remain xs = map ((!) xs) (filter ((!) remain) [0..<length xs])"

text \<open>The topology of the subgrid, for a process of the given rank in the new communicator.\<close>

definition sub_topology :: "MPIR_Cart_topology \<Rightarrow> bool list \<Rightarrow> int \<Rightarrow> MPIR_Cart_topology" where
  "sub_topology t remain newrank =
     (let dims = kept remain (c_dims t); nnodes = foldl (*) 1 dims in
      \<lparr>c_nnodes = nnodes, c_dims = dims, c_periodic = kept remain (c_periodic t),
       c_position = positions nnodes dims newrank\<rparr>)"

text \<open>
  \<^verbatim>\<open>MPI_Cart_sub\<close> up to the point where it calls the split, which needs the other processes: either it
  is finished, or it calls the split with a color and a key and goes on with its rank in the new
  communicator.  With no dimension left the 0-dimensional topology is created.
\<close>

datatype 'a sub_call = Finished 'a | Comm_split int int "int \<Rightarrow> 'a"

definition MPI_Cart_sub ::
  "int \<Rightarrow> int \<Rightarrow> MPIR_Cart_topology \<Rightarrow> bool list \<Rightarrow> (topo_error + MPIR_Cart_topology option) sub_call" where
  "MPI_Cart_sub remote_size comm_rank t remain =
     (if \<not> (\<exists>i<ndims t. remain ! i) then Finished (MPIR_Cart_create remote_size comm_rank [] [] False)
      else case sub_color_key t remain of (color, key) \<Rightarrow>
        Comm_split color key (\<lambda>newrank. Inr (Some (sub_topology t remain newrank))))"

text \<open>
  The calls of all processes, in the order of their ranks, together: the all-gather of the split
  delivers the colors and keys of all, and each process finds its new rank from them.  \<open>lookup\<close> is the
  rank-to-world lookup of the communicator.
\<close>

fun call_entry :: "'a sub_call \<Rightarrow> splittype" where
  "call_entry (Finished r) = \<lparr>sp_color = MPI_UNDEFINED, sp_key = 0\<rparr>"
| "call_entry (Comm_split color key k) = \<lparr>sp_color = color, sp_key = key\<rparr>"

definition run_call :: "(int \<Rightarrow> int outcome) \<Rightarrow> bool \<Rightarrow> int \<Rightarrow> 'a sub_call list \<Rightarrow> nat \<Rightarrow> 'a outcome" where
  "run_call lookup use_qsort old calls p =
     (case calls ! p of
        Finished r \<Rightarrow> Inr r
      | Comm_split color key k \<Rightarrow>
          bind_outcome (split_newrank lookup use_qsort (map call_entry calls) color (int p) old) (\<lambda>newrank. Inr (k newrank)))"

subsection \<open>Mixed-radix numbers\<close>

text \<open>The rank of coordinates, the first dimension most significant; \<open>in_grid\<close>: every coordinate in its range.\<close>

fun radix :: "int list \<Rightarrow> int list \<Rightarrow> int" where
  "radix (d # ds) (c # cs) = c * prod_list ds + radix ds cs"
| "radix _ _ = 0"

definition in_grid :: "int list \<Rightarrow> int list \<Rightarrow> bool" where
  "in_grid ds cs \<longleftrightarrow> list_all2 (\<lambda>d c. 0 \<le> c \<and> c < d) ds cs"

lemma in_grid_simps [simp]:
  "in_grid [] cs \<longleftrightarrow> cs = []" "in_grid ds [] \<longleftrightarrow> ds = []"
  "in_grid (d # ds) (c # cs) \<longleftrightarrow> 0 \<le> c \<and> c < d \<and> in_grid ds cs"
  by (simp_all add: in_grid_def)

lemma in_grid_nth: "in_grid ds cs \<longleftrightarrow> length cs = length ds \<and> (\<forall>i<length ds. 0 \<le> cs ! i \<and> cs ! i < ds ! i)"
  by (auto simp: in_grid_def list_all2_conv_all_nth)

lemma foldl_prod: "foldl (*) (a::int) ds = a * prod_list ds"
  by (induction ds arbitrary: a) (simp_all add: mult.assoc)

lemma prod_list_pos: "\<forall>d\<in>set ds. 0 < d \<Longrightarrow> 0 < prod_list (ds :: int list)"
  by (induction ds) simp_all

lemma radix_bounds: "in_grid ds cs \<Longrightarrow> 0 \<le> radix ds cs \<and> radix ds cs < prod_list ds"
proof (induction ds cs rule: radix.induct)
  case (1 d ds c cs)
  then have IH: "0 \<le> radix ds cs" "radix ds cs < prod_list ds" and c: "0 \<le> c" "c + 1 \<le> d" by simp_all
  have "(c + 1) * prod_list ds \<le> d * prod_list ds" using IH c(2) by (intro mult_right_mono) auto
  moreover have "0 \<le> c * prod_list ds" using c(1) IH by (intro mult_nonneg_nonneg) auto
  ultimately show ?case using IH by (simp add: distrib_right)
qed (auto simp: in_grid_def)

lemma positions_radix: "in_grid ds cs \<Longrightarrow> positions (prod_list ds) ds (radix ds cs) = cs"
proof (induction ds cs rule: radix.induct)
  case (1 d ds c cs)
  then have g: "in_grid ds cs" and c: "0 \<le> c" "c < d" by simp_all
  note b = radix_bounds [OF g]
  have P: "0 < prod_list ds" using b by simp
  have n: "c_div (d * prod_list ds) d = prod_list ds" using c P by (simp add: c_div_def sgn_mult abs_mult)
  have r: "0 \<le> c * prod_list ds + radix ds cs" using radix_bounds [OF 1(2)] by simp
  have "(c * prod_list ds + radix ds cs) div prod_list ds = c" "(c * prod_list ds + radix ds cs) mod prod_list ds = radix ds cs"
    using b P by simp_all
  then show ?case using n r P 1(1) [OF g] by (simp add: Let_def)
qed (auto simp: in_grid_def)

lemma radix_positions:
  assumes "\<forall>d\<in>set ds. 0 < d" "0 \<le> r" "r < prod_list ds"
  shows "in_grid ds (positions (prod_list ds) ds r) \<and> radix ds (positions (prod_list ds) ds r) = r"
  using assms
proof (induction ds arbitrary: r)
  case (Cons d ds)
  let ?P = "prod_list ds"
  have P: "0 < ?P" and d: "0 < d" using Cons.prems(1) prod_list_pos by simp_all
  have n: "c_div (d * ?P) d = ?P" using d P by (simp add: c_div_def sgn_mult abs_mult)
  have m: "0 \<le> r mod ?P" "r mod ?P < ?P" using P by simp_all
  have "\<not> d \<le> r div ?P"
  proof
    assume "d \<le> r div ?P"
    then have "d * ?P \<le> r div ?P * ?P" using P by (intro mult_right_mono) simp_all
    also have "\<dots> \<le> r" using div_mult_mod_eq [of r ?P] m(1) by linarith
    finally show False using Cons.prems(3) by simp
  qed
  then have "r div ?P < d" by simp
  moreover have "0 \<le> r div ?P" using Cons.prems(2) P by (simp add: pos_imp_zdiv_nonneg_iff)
  ultimately show ?case using Cons.IH [OF _ m] Cons.prems n P by (simp add: Let_def)
qed simp

subsection \<open>Wrapping\<close>

lemma wrap_coord_periodic: "0 < d \<Longrightarrow> wrap_coord True d c = c mod d"
proof -
  assume d: "0 < d"
  consider "c \<ge> d" | "0 \<le> c" "c < d" | "c < 0" by linarith
  then show ?thesis
  proof cases
    case 3
    have "c mod d = (if (- c) mod d = 0 then 0 else d - (- c) mod d)"
      using zmod_zminus1_eq_if [of "- c" d] by simp
    then show ?thesis using 3 d by (simp add: wrap_coord_def c_rem_def Let_def)
  qed (use d in \<open>simp_all add: wrap_coord_def\<close>)
qed

text \<open>What a coordinate stands for: itself, or its remainder in a periodic dimension.\<close>

definition wrapped :: "MPIR_Cart_topology \<Rightarrow> int list \<Rightarrow> int list" where
  "wrapped t cs = map (\<lambda>i. if c_periodic t ! i then cs ! i mod c_dims t ! i else cs ! i) [0..<ndims t]"

lemma wrapped_simps [simp]:
  "length (wrapped t cs) = ndims t"
  "i < ndims t \<Longrightarrow> wrapped t cs ! i = (if c_periodic t ! i then cs ! i mod c_dims t ! i else cs ! i)"
  by (simp_all add: wrapped_def)

lemma cart_rank_radix:
  assumes "\<forall>d\<in>set (c_dims t). 0 < d" "length cs = ndims t"
  shows "MPIR_Cart_rank_impl t cs = radix (c_dims t) (wrapped t cs)"
proof -
  let ?n = "ndims t"
  let ?f = "\<lambda>i (rank, multiplier). (rank + multiplier * wrap_coord (c_periodic t ! i) (c_dims t ! i) (cs ! i), multiplier * c_dims t ! i)"
  have w: "wrap_coord (c_periodic t ! i) (c_dims t ! i) (cs ! i) = wrapped t cs ! i" if "i < ?n" for i
  proof -
    have "0 < c_dims t ! i" using assms(1) that by (simp add: ndims_def)
    then show ?thesis using that wrap_coord_periodic [of "c_dims t ! i" "cs ! i"] by (cases "c_periodic t ! i") (simp_all add: wrap_coord_def)
  qed
  have "k \<le> ?n \<Longrightarrow> foldr ?f [k..<?n] (0, 1) = (radix (drop k (c_dims t)) (drop k (wrapped t cs)), prod_list (drop k (c_dims t)))" for k
  proof (induction "?n - k" arbitrary: k)
    case 0
    then show ?case by (simp add: ndims_def)
  next
    case (Suc m)
    have k: "k < ?n" "m = ?n - Suc k" using Suc.hyps(2) by auto
    have d: "drop k (c_dims t) = c_dims t ! k # drop (Suc k) (c_dims t)" "drop k (wrapped t cs) = wrapped t cs ! k # drop (Suc k) (wrapped t cs)"
      using k(1) Cons_nth_drop_Suc [of k "wrapped t cs"] by (simp_all add: Cons_nth_drop_Suc ndims_def)
    show ?case using Suc.hyps(1) [OF k(2)] k(1) w [OF k(1)] d by (simp add: upt_conv_Cons mult.commute add.commute)
  qed
  from this [of 0] show ?thesis by (simp add: MPIR_Cart_rank_impl_def)
qed

subsection \<open>A grid and its processes\<close>

text \<open>The topology the process of rank \<open>r\<close> has on a grid.\<close>

definition grid_at :: "int list \<Rightarrow> bool list \<Rightarrow> int \<Rightarrow> MPIR_Cart_topology" where
  "grid_at dims periods r =
     \<lparr>c_nnodes = prod_list dims, c_dims = dims, c_periodic = periods, c_position = positions (prod_list dims) dims r\<rparr>"

definition grid_ok :: "int list \<Rightarrow> bool list \<Rightarrow> bool" where
  "grid_ok dims periods \<longleftrightarrow> (\<forall>d\<in>set dims. 0 < d) \<and> length periods = length dims"

lemma grid_at_simps [simp]:
  "c_dims (grid_at dims periods r) = dims" "c_periodic (grid_at dims periods r) = periods"
  "c_nnodes (grid_at dims periods r) = prod_list dims" "ndims (grid_at dims periods r) = length dims"
  "c_position (grid_at dims periods r) = positions (prod_list dims) dims r"
  by (simp_all add: grid_at_def ndims_def)

lemma wrapped_in_grid:
  assumes "grid_ok dims periods" "length cs = length dims" "\<forall>i<length dims. \<not> periods ! i \<longrightarrow> 0 \<le> cs ! i \<and> cs ! i < dims ! i"
  shows "in_grid dims (wrapped (grid_at dims periods q) cs)"
  using assms by (auto simp: in_grid_nth grid_ok_def)

lemma wrapped_id: "in_grid dims cs \<Longrightarrow> wrapped (grid_at dims periods q) cs = cs"
  by (intro nth_equalityI) (auto simp: in_grid_nth)

lemma cart_create_grid:
  assumes "grid_ok dims periods" "dims \<noteq> []" "prod_list dims \<le> size'" "0 \<le> r"
  shows "MPIR_Cart_create size' r dims periods reorder =
    Inr (if r < prod_list dims then Some (grid_at dims periods r) else None)"
  using assms by (auto simp: MPIR_Cart_create_def MPIR_Cart_map_def foldl_prod MPI_UNDEFINED_def grid_at_def Let_def not_less)

lemma position_in_grid:
  assumes "grid_ok dims periods" "0 \<le> r" "r < prod_list dims"
  shows "in_grid dims (positions (prod_list dims) dims r)" "radix dims (positions (prod_list dims) dims r) = r"
  using radix_positions [of dims r] assms by (simp_all add: grid_ok_def)

lemma cart_rank_grid:
  assumes "grid_ok dims periods" "length cs = length dims" "\<forall>i<length dims. \<not> periods ! i \<longrightarrow> 0 \<le> cs ! i \<and> cs ! i < dims ! i"
  shows "MPIR_Cart_rank_impl (grid_at dims periods q) cs = radix dims (wrapped (grid_at dims periods q) cs)"
  using cart_rank_radix [of "grid_at dims periods q" cs] assms by (simp add: grid_ok_def)

text \<open>
  C3. On a grid whose dimensions are positive and fit into the communicator, \<^verbatim>\<open>MPIR_Cart_create\<close> gives
  the first ranks their place in the grid and the others no communicator.  \<^verbatim>\<open>MPI_Cart_coords\<close> and
  \<^verbatim>\<open>MPI_Cart_rank\<close> are inverse to each other: the coordinates of a rank lie in the grid and lead back to
  it; coordinates that are in range, or lie in a periodic dimension, belong to a rank of the grid
  whose coordinates they are after wrapping, and any others are refused.
\<close>

theorem cart_ranks_and_coords:
  assumes "grid_ok dims periods" "dims \<noteq> []" "prod_list dims \<le> size'" "0 \<le> r" "length cs = length dims"
  shows "MPIR_Cart_create size' r dims periods reorder =
      Inr (if r < prod_list dims then Some (grid_at dims periods r) else None) \<and>
    (r < prod_list dims \<longrightarrow>
       in_grid dims (c_position (grid_at dims periods r)) \<and>
       MPI_Cart_coords (prod_list dims) (grid_at dims periods q) r (int (length dims)) = Inr (c_position (grid_at dims periods r)) \<and>
       MPI_Cart_rank (grid_at dims periods q) (c_position (grid_at dims periods r)) = Inr r) \<and>
    (if \<forall>i<length dims. periods ! i \<or> 0 \<le> cs ! i \<and> cs ! i < dims ! i
     then \<exists>k. MPI_Cart_rank (grid_at dims periods q) cs = Inr k \<and> 0 \<le> k \<and> k < prod_list dims \<and>
       c_position (grid_at dims periods k) = wrapped (grid_at dims periods q) cs
     else MPI_Cart_rank (grid_at dims periods q) cs = Inl ERR_CARTCOORD)" (is "?A \<and> ?B \<and> ?C")
proof (intro conjI)
  show ?A by (rule cart_create_grid [OF assms(1-4)])
  show ?B
  proof (intro impI)
    assume r: "r < prod_list dims"
    note p = position_in_grid [OF assms(1,4) r]
    then have rng: "\<forall>i<length dims. 0 \<le> positions (prod_list dims) dims r ! i \<and> positions (prod_list dims) dims r ! i < dims ! i"
      "length (positions (prod_list dims) dims r) = length dims" by (simp_all add: in_grid_nth)
    then have "MPI_Cart_rank (grid_at dims periods q) (positions (prod_list dims) dims r) = Inr r"
      using cart_rank_grid [OF assms(1), of "positions (prod_list dims) dims r" q] wrapped_id [OF p(1)] p(2)
      by (auto simp: MPI_Cart_rank_def)
    then show "in_grid dims (c_position (grid_at dims periods r)) \<and>
       MPI_Cart_coords (prod_list dims) (grid_at dims periods q) r (int (length dims)) = Inr (c_position (grid_at dims periods r)) \<and>
       MPI_Cart_rank (grid_at dims periods q) (c_position (grid_at dims periods r)) = Inr r"
      using p(1) r assms(4) by (simp add: MPI_Cart_coords_def)
  qed
  show ?C
  proof (cases "\<forall>i<length dims. periods ! i \<or> 0 \<le> cs ! i \<and> cs ! i < dims ! i")
    case True
    then have rng: "\<forall>i<length dims. \<not> periods ! i \<longrightarrow> 0 \<le> cs ! i \<and> cs ! i < dims ! i" by blast
    let ?w = "wrapped (grid_at dims periods q) cs"
    have g: "in_grid dims ?w" by (rule wrapped_in_grid [OF assms(1,5) rng])
    have "MPI_Cart_rank (grid_at dims periods q) cs = Inr (radix dims ?w)"
      using rng cart_rank_grid [OF assms(1,5) rng, of q] by (auto simp: MPI_Cart_rank_def)
    then show ?thesis using True radix_bounds [OF g] positions_radix [OF g] by auto
  next
    case False
    then show ?thesis by (auto simp: MPI_Cart_rank_def)
  qed
qed

theorem cart_ranks_and_coords_witness:
  "MPIR_Cart_create 8 4 [2, 3] [True, False] False = Inr (Some (grid_at [2, 3] [True, False] 4)) \<and>
   MPI_Cart_rank (grid_at [2, 3] [True, False] 0) (c_position (grid_at [2, 3] [True, False] 4)) = Inr 4 \<and>
   (\<exists>k. MPI_Cart_rank (grid_at [2, 3] [True, False] 0) [-1, 2] = Inr k \<and> 0 \<le> k \<and> k < 6)"
  using cart_ranks_and_coords [of "[2, 3]" "[True, False]" 8 4 "[-1, 2]" False 0]
  by (auto simp: grid_ok_def less_Suc_eq)

subsection \<open>Shifts are dual\<close>

lemma shifted_grid:
  assumes "grid_ok dims periods" "0 \<le> p" "p < prod_list dims" "k < length dims"
  shows "shifted (grid_at dims periods p) k x =
    (if \<not> periods ! k \<and> (x \<ge> dims ! k \<or> x < 0) then MPI_PROC_NULL
     else radix dims ((positions (prod_list dims) dims p)[k := if periods ! k then x mod dims ! k else x]))"
proof -
  let ?c = "positions (prod_list dims) dims p"
  have g: "length ?c = length dims" "\<forall>i<length dims. 0 \<le> ?c ! i \<and> ?c ! i < dims ! i"
    using position_in_grid(1) [OF assms(1-3)] by (simp_all add: in_grid_nth)
  have "wrapped (grid_at dims periods p) (?c[k := x]) = ?c[k := if periods ! k then x mod dims ! k else x]"
    using g assms(4) by (intro nth_equalityI) (auto simp: nth_list_update)
  then show ?thesis using cart_rank_radix [of "grid_at dims periods p" "?c[k := x]"] assms(1) g(1)
    by (simp add: shifted_def grid_ok_def)
qed

lemma shift_back:
  assumes "grid_ok dims periods" "0 \<le> p" "p < prod_list dims" "k < length dims"
    "shifted (grid_at dims periods p) k (c_position (grid_at dims periods p) ! k + e) = q" "q \<noteq> MPI_PROC_NULL"
  shows "0 \<le> q \<and> q < prod_list dims \<and> shifted (grid_at dims periods q) k (c_position (grid_at dims periods q) ! k - e) = p"
proof -
  let ?c = "positions (prod_list dims) dims p" and ?d = "dims ! k"
  let ?y = "if periods ! k then (?c ! k + e) mod ?d else ?c ! k + e"
  note pos = position_in_grid [OF assms(1-3)]
  have g: "length ?c = length dims" "\<forall>i<length dims. 0 \<le> ?c ! i \<and> ?c ! i < dims ! i" using pos(1) by (simp_all add: in_grid_nth)
  have d: "0 < ?d" using assms(1,4) by (simp add: grid_ok_def)
  have q: "q = radix dims (?c[k := ?y])" "periods ! k \<or> 0 \<le> ?c ! k + e \<and> ?c ! k + e < ?d"
    using assms(5,6) shifted_grid [OF assms(1-4), of "?c ! k + e"] by (auto split: if_splits)
  have gy: "in_grid dims (?c[k := ?y])" using g q(2) d assms(4) by (auto simp: in_grid_nth nth_list_update)
  note b = radix_bounds [OF gy, folded q(1)]
  have cq: "positions (prod_list dims) dims q = ?c[k := ?y]" unfolding q(1) by (rule positions_radix [OF gy])
  have undo: "(if periods ! k then (?y - e) mod ?d else ?y - e) = ?c ! k"
    using g(2) assms(4) by (auto simp: mod_diff_left_eq)
  have "?c[k := ?y] ! k = ?y" using assms(4) g(1) by simp
  then have "shifted (grid_at dims periods q) k (c_position (grid_at dims periods q) ! k - e) = radix dims (?c[k := ?c ! k])"
    using shifted_grid [OF assms(1) _ _ assms(4), of q "?y - e"] b undo cq g assms(4) by auto
  then show ?thesis using b pos(2) by simp
qed

text \<open>
  The process at distance \<open>e\<close> along dimension \<open>k\<close>: none over the edge of a dimension that is not
  periodic, otherwise the one with that coordinate, wrapped if periodic, and the other coordinates
  of \<open>p\<close>.
\<close>

definition at_distance :: "int list \<Rightarrow> bool list \<Rightarrow> int \<Rightarrow> nat \<Rightarrow> int \<Rightarrow> int \<Rightarrow> bool" where
  "at_distance dims periods p k e q \<longleftrightarrow>
     (let c = c_position (grid_at dims periods p); x = c ! k + e in
      if \<not> periods ! k \<and> \<not> (0 \<le> x \<and> x < dims ! k) then q = MPI_PROC_NULL
      else 0 \<le> q \<and> q < prod_list dims \<and>
        c_position (grid_at dims periods q) = c[k := if periods ! k then x mod dims ! k else x])"

text \<open>The shift of the process of rank \<open>p\<close> stays within the range of \<^verbatim>\<open>int\<close>.\<close>

definition shift_fits :: "int list \<Rightarrow> bool list \<Rightarrow> int \<Rightarrow> nat \<Rightarrow> int \<Rightarrow> bool" where
  "shift_fits dims periods p k disp \<longleftrightarrow>
     disp = 0 \<or> in_int (c_position (grid_at dims periods p) ! k + disp) \<and> in_int (c_position (grid_at dims periods p) ! k - disp)"

lemma shifted_at_distance:
  assumes "grid_ok dims periods" "0 \<le> p" "p < prod_list dims" "k < length dims"
  shows "at_distance dims periods p k e (shifted (grid_at dims periods p) k (c_position (grid_at dims periods p) ! k + e))"
proof -
  let ?c = "positions (prod_list dims) dims p"
  let ?x = "?c ! k + e"
  have g: "length ?c = length dims" "\<forall>i<length dims. 0 \<le> ?c ! i \<and> ?c ! i < dims ! i"
    using position_in_grid(1) [OF assms(1-3)] by (simp_all add: in_grid_nth)
  have d: "0 < dims ! k" using assms(1,4) by (simp add: grid_ok_def)
  have "in_grid dims (?c[k := if periods ! k then ?x mod dims ! k else ?x])" if "periods ! k \<or> 0 \<le> ?x \<and> ?x < dims ! k"
    using that g d assms(4) by (auto simp: in_grid_nth nth_list_update)
  then show ?thesis
    using shifted_grid [OF assms, of ?x] radix_bounds positions_radix by (auto simp: at_distance_def Let_def)
qed

lemma at_distance_0:
  assumes "grid_ok dims periods" "0 \<le> p" "p < prod_list dims" "k < length dims"
  shows "at_distance dims periods p k 0 p"
  using position_in_grid(1) [OF assms(1-3)] assms(2-4) by (auto simp: at_distance_def Let_def in_grid_nth)

lemma cart_shift_grid:
  assumes "length dims \<le> MAX_CART_DIM" "dims \<noteq> []" "0 \<le> direction" "direction < int (length dims)"
  shows "MPI_Cart_shift p (grid_at dims periods p) direction disp =
    (if \<not> shift_fits dims periods p (nat direction) disp then Inl (Undefined ''pos[direction]'')
     else if disp = 0 then Inr (Inr (p, p))
     else Inr (Inr (shifted (grid_at dims periods p) (nat direction) (c_position (grid_at dims periods p) ! nat direction - disp),
                    shifted (grid_at dims periods p) (nat direction) (c_position (grid_at dims periods p) ! nat direction + disp))))"
  using assms by (simp add: MPI_Cart_shift_def MPIR_Cart_shift_impl_def shifted_to_def shift_fits_def)

text \<open>
  C20. Shifts along a dimension fit together.  On a grid of at most \<^verbatim>\<open>MAX_CART_DIM\<close> dimensions
  \<^verbatim>\<open>MPI_Cart_shift\<close> refuses a negative direction and one that is not a dimension of the grid.  For any
  other direction it overflows (which is undefined) when the coordinate of the process plus or minus
  a non-zero displacement is not an \<^verbatim>\<open>int\<close>.  Otherwise it returns the processes at the displacement
  before and after the caller (wrapped around in a periodic dimension, none over an edge), and
  when the destination is a process whose own shift does not overflow, that process has the caller
  as its source for the same shift, and conversely.
\<close>

theorem cart_shift_dual:
  assumes "grid_ok dims periods" "length dims \<le> MAX_CART_DIM" "0 \<le> p" "p < prod_list dims" "dims \<noteq> []"
  shows "if direction < 0 then MPI_Cart_shift p (grid_at dims periods p) direction disp = Inr (Inl ERR_ARG)
    else if direction \<ge> int (length dims) then MPI_Cart_shift p (grid_at dims periods p) direction disp = Inr (Inl ERR_DIMSMANY)
    else if \<not> shift_fits dims periods p (nat direction) disp then
      MPI_Cart_shift p (grid_at dims periods p) direction disp = Inl (Undefined ''pos[direction]'')
    else \<exists>src dst. MPI_Cart_shift p (grid_at dims periods p) direction disp = Inr (Inr (src, dst)) \<and>
      at_distance dims periods p (nat direction) (- disp) src \<and> at_distance dims periods p (nat direction) disp dst \<and>
      (dst \<noteq> MPI_PROC_NULL \<and> shift_fits dims periods dst (nat direction) disp \<longrightarrow>
         (\<exists>d. MPI_Cart_shift dst (grid_at dims periods dst) direction disp = Inr (Inr (p, d)))) \<and>
      (src \<noteq> MPI_PROC_NULL \<and> shift_fits dims periods src (nat direction) disp \<longrightarrow>
         (\<exists>s. MPI_Cart_shift src (grid_at dims periods src) direction disp = Inr (Inr (s, p))))"
proof (cases "0 \<le> direction \<and> direction < int (length dims) \<and> shift_fits dims periods p (nat direction) disp")
  case True
  define k where "k = nat direction"
  have k: "k < length dims" and d: "0 \<le> direction" "direction < int (length dims)" and f: "shift_fits dims periods p k disp"
    using True by (auto simp: k_def)
  note sh = cart_shift_grid [OF assms(2,5) d, of _ periods disp, folded k_def]
  show ?thesis
  proof (cases "disp = 0")
    case True
    have "at_distance dims periods p k 0 p" by (rule at_distance_0 [OF assms(1,3,4) k])
    then show ?thesis using d f True sh [of p] by (simp add: k_def)
  next
    case False
    let ?at = "\<lambda>e. shifted (grid_at dims periods p) k (c_position (grid_at dims periods p) ! k + e)"
    have r: "MPI_Cart_shift p (grid_at dims periods p) direction disp = Inr (Inr (?at (- disp), ?at disp))"
      using sh [of p] f False by simp
    have fwd: "\<exists>d. MPI_Cart_shift (?at disp) (grid_at dims periods (?at disp)) direction disp = Inr (Inr (p, d))"
      if "?at disp \<noteq> MPI_PROC_NULL" "shift_fits dims periods (?at disp) k disp"
      using shift_back [OF assms(1,3,4) k refl that(1)] sh [of "?at disp"] that(2) False by simp
    have bwd: "\<exists>s. MPI_Cart_shift (?at (- disp)) (grid_at dims periods (?at (- disp))) direction disp = Inr (Inr (s, p))"
      if "?at (- disp) \<noteq> MPI_PROC_NULL" "shift_fits dims periods (?at (- disp)) k disp"
      using shift_back [OF assms(1,3,4) k refl that(1)] sh [of "?at (- disp)"] that(2) False by simp
    have "\<exists>src dst. MPI_Cart_shift p (grid_at dims periods p) direction disp = Inr (Inr (src, dst)) \<and>
      at_distance dims periods p k (- disp) src \<and> at_distance dims periods p k disp dst \<and>
      (dst \<noteq> MPI_PROC_NULL \<and> shift_fits dims periods dst k disp \<longrightarrow>
         (\<exists>d. MPI_Cart_shift dst (grid_at dims periods dst) direction disp = Inr (Inr (p, d)))) \<and>
      (src \<noteq> MPI_PROC_NULL \<and> shift_fits dims periods src k disp \<longrightarrow>
         (\<exists>s. MPI_Cart_shift src (grid_at dims periods src) direction disp = Inr (Inr (s, p))))"
      by (rule exI [of _ "?at (- disp)"], rule exI [of _ "?at disp"])
        (use r fwd bwd shifted_at_distance [OF assms(1,3,4) k, of disp] shifted_at_distance [OF assms(1,3,4) k, of "- disp"] in blast)
    then show ?thesis using d f by (simp add: k_def)
  qed
next
  case False
  show ?thesis
  proof (cases "0 \<le> direction \<and> direction < int (length dims)")
    case True
    then show ?thesis using False cart_shift_grid [OF assms(2,5), of direction p periods disp] by simp
  next
    case False
    then show ?thesis using assms(5) by (auto simp: MPI_Cart_shift_def MPIR_Cart_shift_impl_def)
  qed
qed

lemma demo_shift: "MPI_Cart_shift 4 (grid_at [2, 3] [True, False] 4) 1 1 = Inr (Inr (3, 5))"
  by (simp add: MPI_Cart_shift_def MPIR_Cart_shift_impl_def MAX_CART_DIM_def shifted_to_def in_int_def shifted_def
      MPIR_Cart_rank_impl_def wrap_coord_def c_div_def c_rem_def MPI_PROC_NULL_def upt_rec)

lemma demo_fits: "shift_fits [2, 3] [True, False] p 1 1" if "p \<in> {3, 4, 5}"
  using that by (auto simp: shift_fits_def in_int_def c_div_def c_rem_def)

theorem cart_shift_dual_witness:
  "MPI_Cart_shift 4 (grid_at [2, 3] [True, False] 4) 1 1 = Inr (Inr (3, 5)) \<and>
   (\<exists>d. MPI_Cart_shift 5 (grid_at [2, 3] [True, False] 5) 1 1 = Inr (Inr (4, d))) \<and>
   (\<exists>s. MPI_Cart_shift 3 (grid_at [2, 3] [True, False] 3) 1 1 = Inr (Inr (s, 4))) \<and>
   MPI_Cart_shift 1 (grid_at [3] [True] 1) 0 (2 ^ 31 - 1) = Inl (Undefined ''pos[direction]'')"
proof -
  have "\<not> shift_fits [3] [True] 1 0 (2 ^ 31 - 1)" by (simp add: shift_fits_def in_int_def c_div_def c_rem_def)
  then show ?thesis
    using cart_shift_dual [of "[2, 3]" "[True, False]" 4 1 1] cart_shift_dual [of "[3]" "[True]" 1 0 "2 ^ 31 - 1"]
      demo_shift demo_fits
    by (simp add: grid_ok_def MAX_CART_DIM_def MPI_PROC_NULL_def)
qed

text \<open>The neighbours of a process are, dimension by dimension, the source and destination of a shift by one.\<close>

lemma canon_nhb_shifts:
  assumes "grid_ok dims periods" "length dims \<le> MAX_CART_DIM" "\<forall>d\<in>set dims. d < 2 ^ 31" "0 \<le> p" "p < prod_list dims" "dims \<noteq> []"
  shows "\<exists>ns. MPIR_Topo_canon_nhb p (grid_at dims periods p) = Inr (Inr ns) \<and> length ns = 2 * length dims \<and>
    (\<forall>k<length dims. MPI_Cart_shift p (grid_at dims periods p) (int k) 1 = Inr (Inr (ns ! (2 * k), ns ! (2 * k + 1))))"
proof -
  let ?t = "grid_at dims periods p"
  let ?s = "\<lambda>k. shifted ?t k (c_position ?t ! k - 1)" and ?d = "\<lambda>k. shifted ?t k (c_position ?t ! k + 1)"
  have fits: "shift_fits dims periods p k 1" if "k < length dims" for k
  proof -
    have "0 \<le> c_position ?t ! k" "c_position ?t ! k < dims ! k" "dims ! k < 2 ^ 31"
      using position_in_grid(1) [OF assms(1,4,5)] that assms(3) by (simp_all add: in_grid_nth)
    then show ?thesis by (simp add: shift_fits_def in_int_def)
  qed
  have sh: "MPI_Cart_shift p ?t (int k) 1 = Inr (Inr (?s k, ?d k))" if "k < length dims" for k
    using cart_shift_grid [OF assms(2,6), of "int k" p periods 1] fits [OF that] that by simp
  then have impl: "MPIR_Cart_shift_impl p ?t (int k) 1 = Inr (Inr (?s k, ?d k))" if "k < length dims" for k
    using that by (simp add: MPI_Cart_shift_def)
  have "\<forall>k\<in>set ks. k < length dims \<Longrightarrow> canon_nhb_from p ?t ks = Inr (Inr (concat (map (\<lambda>k. [?s k, ?d k]) ks)))" for ks
    by (induction ks) (simp_all add: impl)
  then have e: "MPIR_Topo_canon_nhb p ?t = Inr (Inr (concat (map (\<lambda>k. [?s k, ?d k]) [0..<length dims])))"
    by (simp add: MPIR_Topo_canon_nhb_def)
  have "length (concat (map (\<lambda>k. [?s k, ?d k]) [0..<n])) = 2 * n \<and>
      (\<forall>k<n. concat (map (\<lambda>k. [?s k, ?d k]) [0..<n]) ! (2 * k) = ?s k \<and> concat (map (\<lambda>k. [?s k, ?d k]) [0..<n]) ! (2 * k + 1) = ?d k)" for n
    by (induction n) (auto simp: nth_append less_Suc_eq)
  then show ?thesis using e sh by fastforce
qed

text \<open>Negative dimensions whose product is positive are accepted.\<close>

lemma negative_dims_accepted:
  "MPIR_Cart_create 6 0 [-2, -3] [False, False] False =
    Inr (Some \<lparr>c_nnodes = 6, c_dims = [-2, -3], c_periodic = [False, False], c_position = [0, 0]\<rparr>)"
  by (simp add: MPIR_Cart_create_def MPI_UNDEFINED_def c_div_def c_rem_def)

subsection \<open>Subgrids keep the coordinates\<close>

lemma radix_snoc: "length ds = length cs \<Longrightarrow> radix (ds @ [d]) (cs @ [c]) = radix ds cs * d + c"
  by (induction ds cs rule: list_induct2) (simp_all add: algebra_simps)

lemma color_key_radix:
  assumes "length (c_position t) = ndims t" "length remain = ndims t"
  shows "sub_color_key t remain =
    (radix (kept (map Not remain) (c_dims t)) (kept (map Not remain) (c_position t)),
     radix (kept remain (c_dims t)) (kept remain (c_position t)))"
proof -
  let ?f = "\<lambda>(color, key) i. if remain ! i then (color, key * c_dims t ! i + c_position t ! i)
         else (color * c_dims t ! i + c_position t ! i, key)"
  let ?k = "\<lambda>P xs n. map ((!) xs) (filter P [0..<n])"
  have "foldl ?f (0, 0) [0..<n] =
      (radix (?k (\<lambda>i. \<not> remain ! i) (c_dims t) n) (?k (\<lambda>i. \<not> remain ! i) (c_position t) n),
       radix (?k ((!) remain) (c_dims t) n) (?k ((!) remain) (c_position t) n))" for n
    by (induction n) (simp_all add: radix_snoc)
  moreover have "filter (\<lambda>i. \<not> remain ! i) [0..<ndims t] = filter ((!) (map Not remain)) [0..<ndims t]"
    using assms(2) by (intro filter_cong) simp_all
  ultimately show ?thesis using assms(1) by (simp add: sub_color_key_def kept_def ndims_def)
qed

lemma kept_in_grid: "in_grid ds cs \<Longrightarrow> in_grid (kept remain ds) (kept remain cs)"
proof -
  assume "in_grid ds cs"
  then have "length cs = length ds" "\<forall>i<length ds. 0 \<le> cs ! i \<and> cs ! i < ds ! i" by (simp_all add: in_grid_nth)
  moreover have "filter ((!) remain) [0..<length ds] ! j < length ds" if "j < length (filter ((!) remain) [0..<length ds])" for j
    using nth_mem [OF that] by simp
  ultimately show ?thesis unfolding in_grid_nth kept_def by simp
qed

lemma kept_eq: "length xs = length ys \<Longrightarrow> kept remain xs = kept remain ys \<Longrightarrow> i < length xs \<Longrightarrow> remain ! i \<Longrightarrow> xs ! i = ys ! i"
  by (auto simp: kept_def)

lemma kept_determines:
  assumes "length xs = length ys" "length remain = length xs" "kept remain xs = kept remain ys"
    "kept (map Not remain) xs = kept (map Not remain) ys"
  shows "xs = ys"
proof (rule nth_equalityI [OF assms(1)])
  fix i assume i: "i < length xs"
  show "xs ! i = ys ! i"
    using kept_eq [OF assms(1,3) i] kept_eq [OF assms(1,4) i] assms(2) i by (cases "remain ! i") simp_all
qed

lemma prod_list_partition:
  "prod_list (map f (filter P xs)) * prod_list (map f (filter (\<lambda>x. \<not> P x) xs)) = (prod_list (map f xs) :: int)"
  by (induction xs) (simp_all add: ac_simps)

lemma kept_prod:
  assumes "length remain = length ds"
  shows "prod_list (kept remain ds) * prod_list (kept (map Not remain) ds) = prod_list (ds :: int list)"
proof -
  have "filter ((!) (map Not remain)) [0..<length ds] = filter (\<lambda>i. \<not> remain ! i) [0..<length ds]"
    using assms by (intro filter_cong) simp_all
  then show ?thesis
    using prod_list_partition [of "(!) ds" "(!) remain" "[0..<length ds]"] by (simp add: kept_def map_nth)
qed

lemma kept_pos: "\<forall>d\<in>set ds. 0 < d \<Longrightarrow> \<forall>d\<in>set (kept remain ds). 0 < (d::int)"
  by (auto simp: kept_def)

text \<open>Color and key of the process of a rank, and the table that the all-gather of the split delivers.\<close>

definition sub_color :: "int list \<Rightarrow> bool list \<Rightarrow> int \<Rightarrow> int" where
  "sub_color dims remain r =
     radix (kept (map Not remain) dims) (kept (map Not remain) (positions (prod_list dims) dims r))"

definition sub_key :: "int list \<Rightarrow> bool list \<Rightarrow> int \<Rightarrow> int" where
  "sub_key dims remain r = radix (kept remain dims) (kept remain (positions (prod_list dims) dims r))"

text \<open>The calls of \<^verbatim>\<open>MPI_Cart_sub\<close> by the processes of a grid.\<close>

definition sub_calls :: "int list \<Rightarrow> bool list \<Rightarrow> bool list \<Rightarrow> (topo_error + MPIR_Cart_topology option) sub_call list" where
  "sub_calls dims periods remain =
     map (\<lambda>r. MPI_Cart_sub (prod_list dims) (int r) (grid_at dims periods (int r)) remain) [0..<nat (prod_list dims)]"

definition sub_table :: "int list \<Rightarrow> bool list \<Rightarrow> splittype list" where
  "sub_table dims remain =
     map (\<lambda>r. \<lparr>sp_color = sub_color dims remain (int r), sp_key = sub_key dims remain (int r)\<rparr>) [0..<nat (prod_list dims)]"

lemma grid_color_key:
  assumes "grid_ok dims periods" "length remain = length dims" "0 \<le> r" "r < prod_list dims"
  shows "sub_color_key (grid_at dims periods r) remain = (sub_color dims remain r, sub_key dims remain r)"
proof -
  have "length (positions (prod_list dims) dims r) = length dims" using position_in_grid(1) [OF assms(1,3,4)] by (simp add: in_grid_nth)
  then show ?thesis using color_key_radix [of "grid_at dims periods r" remain] assms(2) by (simp add: sub_color_def sub_key_def)
qed

text \<open>Every pair of a color and a key belongs to exactly one rank.\<close>

lemma color_key_bij:
  assumes "grid_ok dims periods" "length remain = length dims"
  shows "bij_betw (\<lambda>r. (sub_color dims remain r, sub_key dims remain r)) {0..<prod_list dims}
    ({0..<prod_list (kept (map Not remain) dims)} \<times> {0..<prod_list (kept remain dims)})" (is "bij_betw ?f ?A ?B")
proof -
  have g: "in_grid dims (positions (prod_list dims) dims r)" if "r \<in> ?A" for r
    using position_in_grid(1) [OF assms(1)] that by simp
  have into: "?f ` ?A \<subseteq> ?B"
    using radix_bounds [OF kept_in_grid [OF g]] by (auto simp: sub_color_def sub_key_def)
  have inj: "inj_on ?f ?A"
  proof (rule inj_onI)
    fix r s assume rs: "r \<in> ?A" "s \<in> ?A" "?f r = ?f s"
    let ?c = "\<lambda>r. positions (prod_list dims) dims r"
    have "kept remain (?c r) = kept remain (?c s)" "kept (map Not remain) (?c r) = kept (map Not remain) (?c s)"
      using rs positions_radix [OF kept_in_grid [OF g]] unfolding sub_color_def sub_key_def by (metis prod.inject)+
    moreover have "length (?c r) = length dims" "length (?c s) = length dims" using g rs(1,2) by (simp_all add: in_grid_nth)
    ultimately have "?c r = ?c s" using kept_determines assms(2) by metis
    then show "r = s" using position_in_grid(2) [OF assms(1)] rs(1,2) by (metis atLeastLessThan_iff)
  qed
  have pos: "\<forall>d\<in>set dims. 0 < d" using assms(1) by (simp add: grid_ok_def)
  have "card ?A = card ?B"
    using kept_prod [OF assms(2)] prod_list_pos [OF kept_pos [OF pos], of remain] prod_list_pos [OF kept_pos [OF pos], of "map Not remain"]
    by (simp add: card_cartesian_product nat_mult_distrib [symmetric] mult.commute)
  then have "?f ` ?A = ?B" using into inj by (intro card_subset_eq) (simp_all add: card_image)
  then show ?thesis using inj by (simp add: bij_betw_def)
qed

text \<open>The color is the same for the processes that agree in the dropped coordinates.\<close>

lemma sub_color_eq:
  assumes "grid_ok dims periods" "length remain = length dims" "0 \<le> r" "r < prod_list dims" "0 \<le> q" "q < prod_list dims"
  shows "sub_color dims remain r = sub_color dims remain q \<longleftrightarrow>
    (\<forall>i<length dims. \<not> remain ! i \<longrightarrow> c_position (grid_at dims periods r) ! i = c_position (grid_at dims periods q) ! i)"
proof -
  let ?c = "\<lambda>r. positions (prod_list dims) dims r" and ?n = "map Not remain"
  note g = position_in_grid(1) [OF assms(1,3,4)] position_in_grid(1) [OF assms(1,5,6)]
  have len: "length (?c r) = length dims" "length (?c q) = length dims" using g by (simp_all add: in_grid_nth)
  have "sub_color dims remain r = sub_color dims remain q \<longleftrightarrow> kept ?n (?c r) = kept ?n (?c q)"
    using positions_radix [OF kept_in_grid [OF g(1)], of ?n] positions_radix [OF kept_in_grid [OF g(2)], of ?n]
    unfolding sub_color_def by metis
  also have "\<dots> \<longleftrightarrow> (\<forall>i<length dims. \<not> remain ! i \<longrightarrow> ?c r ! i = ?c q ! i)"
    using len assms(2) by (auto simp: kept_def)
  finally show ?thesis by simp
qed

lemma sub_table_nth:
  "i < nat (prod_list dims) \<Longrightarrow> sub_table dims remain ! i = \<lparr>sp_color = sub_color dims remain (int i), sp_key = sub_key dims remain (int i)\<rparr>"
  by (simp add: sub_table_def)

text \<open>What every process of the grid passes to the split, and goes on with.\<close>

lemma sub_calls_nth:
  assumes "grid_ok dims periods" "length remain = length dims" "\<exists>i<length dims. remain ! i" "i < nat (prod_list dims)"
  shows "sub_calls dims periods remain ! i = Comm_split (sub_color dims remain (int i)) (sub_key dims remain (int i))
    (\<lambda>newrank. Inr (Some (grid_at (kept remain dims) (kept remain periods) newrank)))"
proof -
  have "int i < prod_list dims" using assms(4) by linarith
  then show ?thesis
    using assms grid_color_key [OF assms(1,2), of "int i"]
    by (auto simp: sub_calls_def MPI_Cart_sub_def sub_topology_def grid_at_def foldl_prod Let_def ndims_def)
qed

lemma sub_calls_table:
  assumes "grid_ok dims periods" "length remain = length dims" "\<exists>i<length dims. remain ! i"
  shows "map call_entry (sub_calls dims periods remain) = sub_table dims remain"
proof (rule nth_equalityI)
  fix i assume "i < length (map call_entry (sub_calls dims periods remain))"
  then have i: "i < nat (prod_list dims)" by (simp add: sub_calls_def)
  then have "map call_entry (sub_calls dims periods remain) ! i = call_entry (sub_calls dims periods remain ! i)"
    by (simp add: sub_calls_def)
  then show "map call_entry (sub_calls dims periods remain) ! i = sub_table dims remain ! i"
    using sub_calls_nth [OF assms i] sub_table_nth [OF i] by simp
qed (simp add: sub_calls_def sub_table_def)

text \<open>The split orders the processes of a color by their keys, which are the ranks of the subgrid.\<close>

lemma sub_order:
  assumes "grid_ok dims periods" "length remain = length dims" "0 \<le> c" "c < prod_list (kept (map Not remain) dims)"
  defines "L \<equiv> split_order (sub_table dims remain) c"
  shows "set L = {i. i < nat (prod_list dims) \<and> sub_color dims remain (int i) = c}"
    "map (\<lambda>i. sub_key dims remain (int i)) L = map int [0..<nat (prod_list (kept remain dims))]"
proof -
  let ?N = "nat (prod_list dims)" and ?m = "prod_list (kept remain dims)" and ?t = "sub_table dims remain"
  let ?key = "\<lambda>i. sub_key dims remain (int i)"
  have len: "length ?t = ?N" by (simp add: sub_table_def)
  show set: "set L = {i. i < ?N \<and> sub_color dims remain (int i) = c}"
    using sub_table_nth len by (auto simp: L_def split_order_def members_def)
  have keyL: "map ?key L = map (\<lambda>i. sp_key (?t ! i)) L"
    using set sub_table_nth by (intro map_cong) auto
  have sorted: "sorted (map ?key L)" unfolding keyL by (simp add: L_def split_order_def)
  have b: "bij_betw (\<lambda>r. (sub_color dims remain r, sub_key dims remain r)) {0..<prod_list dims}
    ({0..<prod_list (kept (map Not remain) dims)} \<times> {0..<?m})" by (rule color_key_bij [OF assms(1,2)])
  have inA: "int i \<in> {0..<prod_list dims}" if "i \<in> set L" for i
  proof -
    have "i < ?N" using that unfolding set by simp
    then show ?thesis by (simp add: zless_nat_eq_int_zless)
  qed
  have "inj_on ?key (set L)"
  proof (rule inj_onI)
    fix x y assume xy: "x \<in> set L" "y \<in> set L" "?key x = ?key y"
    then have "(sub_color dims remain (int x), ?key x) = (sub_color dims remain (int y), ?key y)" using set by simp
    then have "int x = int y" using b inA [OF xy(1)] inA [OF xy(2)] unfolding bij_betw_def by (meson inj_onD)
    then show "x = y" by simp
  qed
  moreover have "distinct L" by (simp add: L_def split_order_def members_def)
  ultimately have dist: "distinct (map ?key L)" by (simp add: distinct_map)
  have keys: "set (map ?key L) = {0..<?m}"
  proof
    show "set (map ?key L) \<subseteq> {0..<?m}" using b set by (force simp: bij_betw_def)
    show "{0..<?m} \<subseteq> set (map ?key L)"
    proof
      fix k assume "k \<in> {0..<?m}"
      then have "(c, k) \<in> (\<lambda>r. (sub_color dims remain r, sub_key dims remain r)) ` {0..<prod_list dims}"
        using b assms(3,4) by (simp add: bij_betw_def)
      then obtain r where "0 \<le> r" "r < prod_list dims" "c = sub_color dims remain r" "k = sub_key dims remain r" by auto
      then have "nat r \<in> set L" "k = ?key (nat r)" using set by auto
      then show "k \<in> set (map ?key L)" unfolding set_map by (rule rev_image_eqI)
    qed
  qed
  have "set (map int [0..<nat ?m]) = {0..<?m}" by (auto simp: image_iff intro!: bexI [of _ "nat _"])
  moreover have "sorted (map int [0..<nat ?m])" "distinct (map int [0..<nat ?m])" by (simp_all add: sorted_map distinct_map inj_on_def)
  ultimately show "map ?key L = map int [0..<nat ?m]" using sorted dist keys by (intro sorted_distinct_set_unique) simp_all
qed

text \<open>
  C29. \<^verbatim>\<open>MPI_Cart_sub\<close> cuts a grid into subgrids.  When a dimension remains, each process calls the split
  with a color and a key, and from the colors and keys of all processes the code of the split
  gives each its new rank.  For every process \<open>p\<close> the processes that agree with it in the dropped
  coordinates, and no others, form one communicator: in some order of them, as many as the subgrid has,
  the process at index \<open>j\<close> ends with the topology of rank \<open>j\<close> of the subgrid of the remaining
  dimensions and periods, and its coordinates there are its own remaining coordinates.  When no
  dimension remains, rank 0 gets the 0-dimensional topology and no one else a communicator.
\<close>

theorem cart_sub_keeps_coordinates:
  assumes "grid_ok dims periods" "length remain = length dims" "p < nat (prod_list dims)"
    "\<forall>i < nat (prod_list dims). lookup (int i) = Inr (W i)"
  shows "if \<exists>i<length dims. remain ! i then
      (\<exists>L. distinct L \<and> p \<in> set L \<and> int (length L) = prod_list (kept remain dims) \<and>
         set L = {r. r < nat (prod_list dims) \<and> (\<forall>i<length dims. \<not> remain ! i \<longrightarrow>
           c_position (grid_at dims periods (int r)) ! i = c_position (grid_at dims periods (int p)) ! i)} \<and>
         (\<forall>j<length L.
           run_call lookup use_qsort old (sub_calls dims periods remain) (L ! j) =
             Inr (Inr (Some (grid_at (kept remain dims) (kept remain periods) (int j)))) \<and>
           c_position (grid_at (kept remain dims) (kept remain periods) (int j)) =
             kept remain (c_position (grid_at dims periods (int (L ! j))))))
    else run_call lookup use_qsort old (sub_calls dims periods remain) p =
      Inr (Inr (if p = 0 then Some (grid_at [] [] 0) else None))"
proof (cases "\<exists>i<length dims. remain ! i")
  case True
  have p: "0 \<le> int p" "int p < prod_list dims" using assms(3) by simp_all
  define c where "c = sub_color dims remain (int p)"
  define L where "L = split_order (sub_table dims remain) c"
  let ?m = "prod_list (kept remain dims)" and ?N = "nat (prod_list dims)"
  have c: "0 \<le> c" "c < prod_list (kept (map Not remain) dims)"
    using color_key_bij [OF assms(1,2)] p by (force simp: bij_betw_def c_def)+
  note o = sub_order [OF assms(1,2) c, folded L_def]
  have m: "0 < ?m" using prod_list_pos [OF kept_pos] assms(1) by (simp add: grid_ok_def)
  have len: "int (length L) = ?m" using arg_cong [OF o(2), of length] m by simp
  have "set L = {r. r < ?N \<and> (\<forall>i<length dims. \<not> remain ! i \<longrightarrow>
      c_position (grid_at dims periods (int r)) ! i = c_position (grid_at dims periods (int p)) ! i)}"
    using o(1) sub_color_eq [OF assms(1,2) _ _ p] unfolding c_def by auto
  moreover have "p \<in> set L" using o(1) assms(3) by (simp add: c_def)
  moreover have "distinct L" by (simp add: L_def split_order_distinct)
  moreover have "run_call lookup use_qsort old (sub_calls dims periods remain) (L ! j) =
        Inr (Inr (Some (grid_at (kept remain dims) (kept remain periods) (int j)))) \<and>
      c_position (grid_at (kept remain dims) (kept remain periods) (int j)) = kept remain (c_position (grid_at dims periods (int (L ! j))))"
    if j: "j < length L" for j
  proof -
    have q: "L ! j < ?N" "sub_color dims remain (int (L ! j)) = c" using o(1) nth_mem [OF j] by auto
    then have qb: "0 \<le> int (L ! j)" "int (L ! j) < prod_list dims" by linarith+
    have "map (\<lambda>i. sub_key dims remain (int i)) L ! j = int j" unfolding o(2) using j len by simp
    then have "sub_key dims remain (int (L ! j)) = int j" using j by simp
    then have "positions ?m (kept remain dims) (int j) = kept remain (positions (prod_list dims) dims (int (L ! j)))"
      using positions_radix [OF kept_in_grid [OF position_in_grid(1) [OF assms(1) qb]], of remain] by (simp add: sub_key_def)
    moreover have "split_newrank lookup use_qsort (sub_table dims remain) c (int (L ! j)) old = Inr (int j)"
      by (rule split_newrank_order [where W = W]) (use assms(4) j in \<open>simp_all add: sub_table_def L_def\<close>)
    ultimately show ?thesis
      using sub_calls_nth [OF assms(1,2) True q(1)] sub_calls_table [OF assms(1,2) True] q(2) by (simp add: run_call_def)
  qed
  ultimately show ?thesis using True len by (simp only: if_True) blast
next
  case False
  have "grid_at [] [] 0 = \<lparr>c_nnodes = 1, c_dims = [], c_periodic = [], c_position = []\<rparr>" by (simp add: grid_at_def)
  then show ?thesis using False assms(3) by (auto simp: run_call_def sub_calls_def MPI_Cart_sub_def MPIR_Cart_create_def Let_def)
qed

theorem cart_sub_keeps_coordinates_witness:
  "\<exists>L. set L = {r. r < 6 \<and> c_position (grid_at [2, 3] [True, False] (int r)) ! 0 = 1} \<and> 4 \<in> set L \<and> length L = 3 \<and>
     (\<forall>j<3. run_call Inr True 0 (sub_calls [2, 3] [True, False] [False, True]) (L ! j) =
       Inr (Inr (Some (grid_at [3] [False] (int j)))))"
proof -
  have k: "kept [False, True] [2, 3] = [3 :: int]" "kept [False, True] [True, False] = [False]"
    "c_position (grid_at [2, 3] [True, False] (int 4)) ! 0 = 1"
    by (simp_all add: kept_def upt_rec c_div_def c_rem_def)
  have e: "\<exists>i<length [2, 3 :: int]. [False, True] ! i" by (intro exI [of _ 1]) simp
  have a: "(\<forall>i<length [2, 3 :: int]. \<not> [False, True] ! i \<longrightarrow> f i = g i) \<longleftrightarrow> f 0 = g 0" for f g :: "nat \<Rightarrow> int"
    by (auto simp: less_Suc_eq)
  have "\<exists>L. distinct L \<and> 4 \<in> set L \<and> int (length L) = prod_list (kept [False, True] [2, 3]) \<and>
      set L = {r. r < nat (prod_list [2, 3]) \<and> (\<forall>i<length [2, 3 :: int]. \<not> [False, True] ! i \<longrightarrow>
        c_position (grid_at [2, 3] [True, False] (int r)) ! i = c_position (grid_at [2, 3] [True, False] (int 4)) ! i)} \<and>
      (\<forall>j<length L. run_call Inr True 0 (sub_calls [2, 3] [True, False] [False, True]) (L ! j) =
          Inr (Inr (Some (grid_at (kept [False, True] [2, 3]) (kept [False, True] [True, False]) (int j)))) \<and>
        c_position (grid_at (kept [False, True] [2, 3]) (kept [False, True] [True, False]) (int j)) =
          kept [False, True] (c_position (grid_at [2, 3] [True, False] (int (L ! j)))))"
    using cart_sub_keeps_coordinates [of "[2, 3]" "[True, False]" "[False, True]" 4 "Inr :: int \<Rightarrow> int outcome" int True 0, unfolded if_P [OF e]]
    by (simp add: grid_ok_def)
  then show ?thesis unfolding a k(3) unfolding k(1,2) by auto
qed

end
