(* ===== verification/Comm_Nested.thy ===== *)
theory Comm_Nested
  imports Rank_Map
begin

section \<open>Maps of the nested communicators (\<^verbatim>\<open>util/procmap/local_proc.c\<close>)\<close>

text \<open>
  A communicator is split along the machine: the processes that are first on their node
  (\<^verbatim>\<open>node_roots_comm\<close>), those that are first in an operating-system process of the caller's node
  (\<^verbatim>\<open>node_comm\<close>), and those in the caller's operating-system process (\<^verbatim>\<open>osproc_colocated_comm\<close>).
  \<^verbatim>\<open>MPIU_Nested_maps_for_communicators\<close> goes once over the ranks and fills three tables from ranks
  of the nested communicators to world ranks, and one from ranks of the communicator to ranks of the
  nested ones.  The tables are those of \<^verbatim>\<open>hashmap.h\<close>, over the hash table of \<^verbatim>\<open>hashlib.c\<close> (the variant
  with \<^verbatim>\<open>COMM_COMMIT_USES_UTHASH\<close> undefined, as in the header).

  The node ids of the processes, which the device sets up at start, are a list; \<open>ok\<close> says which
  table sizes can be allocated.  The creation of the nested communicators from these maps, in
  \<^verbatim>\<open>MPIR_Comm_commit\<close>, is not modelled.
\<close>

subsection \<open>The tables\<close>

text \<open>A null pointer is \<open>None\<close>; the tables are not tested for it.\<close>

definition RTW_HASH_INSERT ::
  "(nat \<Rightarrow> bool) \<Rightarrow> ranktoworlditem hshtbl option \<Rightarrow> int \<Rightarrow> int \<Rightarrow> ranktoworlditem hshtbl option outcome" where
  "RTW_HASH_INSERT ok h rank wr =
     (case h of
        None \<Rightarrow> Inl (Undefined ''hshinsert on NULL'')
      | Some t \<Rightarrow> bind_outcome (RTWhashInsert ok t rank wr) (\<lambda>t'. Inr (Some t')))"

definition PTN_HASH_INSERT ::
  "(nat \<Rightarrow> bool) \<Rightarrow> ptnLookupHashItem hshtbl option \<Rightarrow> int \<Rightarrow> Parent_to_Nested_comm_tables_t \<Rightarrow>
   ptnLookupHashItem hshtbl option outcome" where
  "PTN_HASH_INSERT ok h parent_rank e =
     (case h of
        None \<Rightarrow> Inl (Undefined ''hshinsert on NULL'')
      | Some t \<Rightarrow>
          bind_outcome (ptnLookupHashInsert ok t parent_rank e) (\<lambda>(stored, t').
          bind_outcome (check (stored \<noteq> None) ''NULL != stored'') (\<lambda>_. Inr (Some t'))))"

fun extract_from :: "ranktoworlditem hshtbl \<Rightarrow> int list \<Rightarrow> int list outcome" where
  "extract_from t [] = Inr []"
| "extract_from t (count # counts) =
     bind_outcome (RTWhashFind t count) (\<lambda>(worldrank, t').
     bind_outcome (extract_from t' counts) (\<lambda>ws. Inr (worldrank # ws)))"

text \<open>
  The contents of a table as an array, after which the table is freed; with a null pointer the
  array is left as it is (\<open>None\<close>).
\<close>

definition EXTRACT_ARRAY_FREE_HASH :: "ranktoworlditem hshtbl option \<Rightarrow> int \<Rightarrow> int list option outcome" where
  "EXTRACT_ARRAY_FREE_HASH h arraysize =
     (case h of
        None \<Rightarrow> Inr None
      | Some t \<Rightarrow> bind_outcome (extract_from t (map int [0..<nat arraysize])) (\<lambda>ws. Inr (Some ws)))"

subsection \<open>Building the maps\<close>

text \<open>The variables of the routine.\<close>

record nested_maps =
  parent_to_nested_hash_p :: "ptnLookupHashItem hshtbl option"
  internode_rtw_hash_p :: "ranktoworlditem hshtbl option"
  intranode_rtw_hash_p :: "ranktoworlditem hshtbl option"
  intra_osproc_rtw_hash_p :: "ranktoworlditem hshtbl option"
  nm_nodes :: "int list"
  nm_osprocs :: "int list"
  nm_external_size :: int
  nm_local_size :: int
  nm_fg_local_size :: int

definition MPID_Get_node_id :: "int list \<Rightarrow> int \<Rightarrow> int outcome" where
  "MPID_Get_node_id node_ids rank =
     (if 0 \<le> rank \<and> rank < int (length node_ids) then Inr (node_ids ! nat rank) else Inl (Undefined ''vcr_table[rank]''))"

text \<open>The three lists a process may be added to; the result is its rank there or -1.\<close>

definition add_osproc :: "(nat \<Rightarrow> bool) \<Rightarrow> int \<Rightarrow> int \<Rightarrow> int \<Rightarrow> nested_maps \<Rightarrow> (int \<times> nested_maps) outcome" where
  "add_osproc ok mypid pid wr m =
     (if mypid = pid then
        bind_outcome (RTW_HASH_INSERT ok (intra_osproc_rtw_hash_p m) (nm_fg_local_size m) wr) (\<lambda>h.
        Inr (nm_fg_local_size m, m\<lparr>intra_osproc_rtw_hash_p := h, nm_fg_local_size := nm_fg_local_size m + 1\<rparr>))
      else Inr (-1, m))"

definition add_external :: "(nat \<Rightarrow> bool) \<Rightarrow> int \<Rightarrow> int \<Rightarrow> nested_maps \<Rightarrow> (int \<times> nested_maps) outcome" where
  "add_external ok node_id wr m =
     (if nm_nodes m ! nat node_id = -1 then
        bind_outcome (RTW_HASH_INSERT ok (internode_rtw_hash_p m) (nm_external_size m) wr) (\<lambda>h.
        Inr (nm_external_size m, m\<lparr>internode_rtw_hash_p := h, nm_nodes := (nm_nodes m)[nat node_id := nm_external_size m],
               nm_external_size := nm_external_size m + 1\<rparr>))
      else Inr (-1, m))"

definition add_local :: "(nat \<Rightarrow> bool) \<Rightarrow> int \<Rightarrow> int \<Rightarrow> int \<Rightarrow> int \<Rightarrow> nested_maps \<Rightarrow> (int \<times> nested_maps) outcome" where
  "add_local ok my_node_id node_id pid wr m =
     (if node_id = my_node_id \<and> nm_osprocs m ! nat pid = -1 then
        bind_outcome (RTW_HASH_INSERT ok (intranode_rtw_hash_p m) (nm_local_size m) wr) (\<lambda>h.
        Inr (nm_local_size m, m\<lparr>intranode_rtw_hash_p := h, nm_osprocs := (nm_osprocs m)[nat pid := nm_local_size m],
               nm_local_size := nm_local_size m + 1\<rparr>))
      else Inr (-1, m))"

text \<open>One round of the loop; the left value of the inner sum is the error returned.\<close>

definition nested_round ::
  "(nat \<Rightarrow> bool) \<Rightarrow> fg_ranks \<Rightarrow> fg_comm \<Rightarrow> int list \<Rightarrow> int \<Rightarrow> int \<Rightarrow> int \<Rightarrow> int \<Rightarrow> nested_maps \<Rightarrow>
   (string + nested_maps) outcome" where
  "nested_round ok g comm node_ids max_node_id mypid my_node_id i m =
     bind_outcome (MPIDI_Comm_get_pid_worldrank g comm i True) (\<lambda>(wr, p).
     let pid = (case p of None \<Rightarrow> -1 | Some q \<Rightarrow> q) in
     bind_outcome (add_osproc ok mypid pid wr m) (\<lambda>(fg_rank, m1).
     bind_outcome (MPID_Get_node_id node_ids pid) (\<lambda>node_id.
     if node_id < 0 then Inr (Inl ''**dynamic_node_ids'')
     else
       bind_outcome (check (node_id \<le> max_node_id) ''node_id <= max_node_id'') (\<lambda>_.
       bind_outcome (add_external ok node_id wr m1) (\<lambda>(external_rank, m2).
       if \<not> nat pid < length (nm_osprocs m2) then Inl (Undefined ''osprocs[pid]'')
       else
         bind_outcome (add_local ok my_node_id node_id pid wr m2) (\<lambda>(local_rank, m3).
         bind_outcome (PTN_HASH_INSERT ok (parent_to_nested_hash_p m3) i
           \<lparr>internode_comm_root = nm_nodes m3 ! nat node_id, internode_comm_external_rank = external_rank,
            intranode_comm_root = nm_osprocs m3 ! nat pid, intranode_comm_local_rank = local_rank,
            intra_osproc_fg_rank = fg_rank\<rparr>) (\<lambda>h.
         Inr (Inr (m3\<lparr>parent_to_nested_hash_p := h\<rparr>)))))))))"

fun nested_loop ::
  "(nat \<Rightarrow> bool) \<Rightarrow> fg_ranks \<Rightarrow> fg_comm \<Rightarrow> int list \<Rightarrow> int \<Rightarrow> int \<Rightarrow> int \<Rightarrow> int list \<Rightarrow> nested_maps \<Rightarrow>
   (string + nested_maps) outcome" where
  "nested_loop ok g comm node_ids max_node_id mypid my_node_id [] m = Inr (Inr m)"
| "nested_loop ok g comm node_ids max_node_id mypid my_node_id (i # is) m =
     bind_outcome (nested_round ok g comm node_ids max_node_id mypid my_node_id i m) (\<lambda>r.
     case r of
       Inl e \<Rightarrow> Inr (Inl e)
     | Inr m' \<Rightarrow> nested_loop ok g comm node_ids max_node_id mypid my_node_id is m')"

text \<open>
  \<open>rank\<close> and \<open>num_osprocs\<close> are fields of the communicator.  The maps that are returned are what the
  routine stores in the shared variables of the communicator.
\<close>

definition MPIU_Nested_maps_for_communicators ::
  "(nat \<Rightarrow> bool) \<Rightarrow> bool \<Rightarrow> bool \<Rightarrow> fg_ranks \<Rightarrow> fg_comm \<Rightarrow> int \<Rightarrow> nat \<Rightarrow> int list \<Rightarrow> int \<Rightarrow> (string + nested_maps) outcome" where
  "MPIU_Nested_maps_for_communicators ok nodes_ok osprocs_ok g comm rank num_osprocs node_ids g_max_node_id =
     bind_outcome (check (g_max_node_id \<ge> 0) ''max_node_id >= 0'') (\<lambda>_.
     if \<not> nodes_ok then Inr (Inl ''**nomem2 nodes'')
     else if \<not> osprocs_ok then Inr (Inl ''**nomem2 osprocs'')
     else
       bind_outcome (MPIDI_Comm_get_pid_worldrank g comm rank True) (\<lambda>(wr, p).
       let mypid = (case p of None \<Rightarrow> -1 | Some q \<Rightarrow> q) in
       bind_outcome (MPID_Get_node_id node_ids mypid) (\<lambda>my_node_id.
       bind_outcome (check (my_node_id \<ge> 0) ''my_node_id >= 0'') (\<lambda>_.
       bind_outcome (check (my_node_id \<le> g_max_node_id) ''my_node_id <= max_node_id'') (\<lambda>_.
       nested_loop ok g comm node_ids g_max_node_id mypid my_node_id (map int [0..<nat (local_size comm)])
         \<lparr>parent_to_nested_hash_p = ptnLookupHashCreate ok, internode_rtw_hash_p = RTWhashCreate ok 0,
          intranode_rtw_hash_p = RTWhashCreate ok 0, intra_osproc_rtw_hash_p = RTWhashCreate ok 0,
          nm_nodes = replicate (nat g_max_node_id + 1) (-1), nm_osprocs = replicate (num_osprocs + 1) (-1),
          nm_external_size = 0, nm_local_size = 0, nm_fg_local_size = 0\<rparr>)))))"

subsection \<open>Looking up ranks of the nested communicators\<close>

definition ptn_entry :: "int \<Rightarrow> nested_maps \<Rightarrow> int \<Rightarrow> Parent_to_Nested_comm_tables_t outcome" where
  "ptn_entry remote_size m r =
     bind_outcome (check (r < remote_size) ''r < comm_ptr->remote_size'') (\<lambda>_.
     case parent_to_nested_hash_p m of
       None \<Rightarrow> Inl (Assert_failed ''comm_ptr->co_shared_vars->ptn_hash != NULL'')
     | Some t \<Rightarrow>
         bind_outcome (ptnLookupHashFind t r) (\<lambda>(stored, t').
         case stored of
           None \<Rightarrow> Inl (Assert_failed ''ptn_tables_hash_entry_stored != NULL'')
         | Some x \<Rightarrow> Inr (parent_to_nested x)))"

definition MPIU_Get_internode_rank :: "int \<Rightarrow> nested_maps \<Rightarrow> int \<Rightarrow> int outcome" where
  "MPIU_Get_internode_rank remote_size m r = bind_outcome (ptn_entry remote_size m r) (\<lambda>e. Inr (internode_comm_root e))"

definition MPIU_Get_intranode_rank :: "int \<Rightarrow> nested_maps \<Rightarrow> int \<Rightarrow> int outcome" where
  "MPIU_Get_intranode_rank remote_size m r = bind_outcome (ptn_entry remote_size m r) (\<lambda>e. Inr (intranode_comm_root e))"

definition MPIU_Get_intra_osproc_rank :: "int \<Rightarrow> nested_maps \<Rightarrow> int \<Rightarrow> int outcome" where
  "MPIU_Get_intra_osproc_rank remote_size m r = bind_outcome (ptn_entry remote_size m r) (\<lambda>e. Inr (intra_osproc_fg_rank e))"

subsection \<open>The specification\<close>

text \<open>
  A nested communicator consists of the ranks with a property, in rank order.  The rank of a member
  there is the number of members below it.
\<close>

definition member_list :: "(nat \<Rightarrow> bool) \<Rightarrow> nat \<Rightarrow> nat list" where
  "member_list Q n = filter Q [0..<n]"

definition rank_among :: "(nat \<Rightarrow> bool) \<Rightarrow> nat \<Rightarrow> int" where
  "rank_among Q i = (if Q i then int (length (member_list Q i)) else -1)"

text \<open>The first rank with the same value as \<open>i\<close>.\<close>

definition first_rank :: "(nat \<Rightarrow> 'a) \<Rightarrow> nat \<Rightarrow> nat" where
  "first_rank f i = hd (filter (\<lambda>j. f j = f i) [0..<Suc i])"

definition is_first :: "(nat \<Rightarrow> 'a) \<Rightarrow> nat \<Rightarrow> bool" where
  "is_first f i \<longleftrightarrow> (\<forall>j<i. f j \<noteq> f i)"

text \<open>
  The three kinds of member, seen from the process of rank \<open>r\<close>: \<open>P\<close> gives the operating-system process of a
  rank, \<open>nd\<close> its node.
\<close>

definition colocated :: "(nat \<Rightarrow> int) \<Rightarrow> nat \<Rightarrow> nat \<Rightarrow> bool" where
  "colocated P r i \<longleftrightarrow> P i = P r"

definition node_root :: "(nat \<Rightarrow> int) \<Rightarrow> nat \<Rightarrow> bool" where
  "node_root nd i \<longleftrightarrow> is_first nd i"

definition osproc_root :: "(nat \<Rightarrow> int) \<Rightarrow> (nat \<Rightarrow> int) \<Rightarrow> nat \<Rightarrow> nat \<Rightarrow> bool" where
  "osproc_root P nd r i \<longleftrightarrow> nd i = nd r \<and> is_first P i"

lemma member_list_Suc: "member_list Q (Suc k) = member_list Q k @ (if Q k then [k] else [])"
  by (simp add: member_list_def)

lemma member_list_nth:
  assumes "Q i" "i < n"
  shows "length (member_list Q i) < length (member_list Q n)" "member_list Q n ! length (member_list Q i) = i"
proof -
  have "[0..<n] = [0..<i] @ i # [Suc i..<n]" using assms(2) by (metis less_imp_add_positive upt_add_eq_append upt_conv_Cons le0 less_imp_le_nat)
  then have "member_list Q n = member_list Q i @ i # filter Q [Suc i..<n]" using assms(1) by (simp add: member_list_def)
  then show "length (member_list Q i) < length (member_list Q n)" "member_list Q n ! length (member_list Q i) = i" by simp_all
qed

lemma first_rank_props:
  shows "f (first_rank f i) = f i" "first_rank f i \<le> i" "is_first f (first_rank f i)"
proof -
  let ?xs = "filter (\<lambda>j. f j = f i) [0..<Suc i]"
  have ne: "?xs \<noteq> []" by simp
  then have m: "first_rank f i \<in> set ?xs" unfolding first_rank_def by (rule hd_in_set)
  then show 1: "f (first_rank f i) = f i" "first_rank f i \<le> i" by auto
  have "first_rank f i \<le> j" if "f j = f i" "j \<le> i" for j
  proof -
    have "sorted ?xs" using sorted_filter [of id "[0..<Suc i]" "\<lambda>j. f j = f i"] by (simp del: upt_Suc)
    moreover have "j \<in> set ?xs" using that by auto
    ultimately show ?thesis unfolding first_rank_def using ne by (metis hd_Cons_tl list.set_intros(1) set_ConsD sorted_simps(2) order_refl)
  qed
  then show "is_first f (first_rank f i)" using 1 unfolding is_first_def by (metis less_le_trans less_imp_le_nat not_le)
qed

lemma first_rank_first: "is_first f i \<Longrightarrow> first_rank f i = i"
  using first_rank_props(1,2) [of f i] unfolding is_first_def by (metis le_neq_implies_less)

lemma is_first_unique: "is_first f i \<Longrightarrow> is_first f j \<Longrightarrow> f i = f j \<Longrightarrow> i = j"
  unfolding is_first_def by (metis nat_neq_iff)

lemma first_rank_eq: "f i = f j \<Longrightarrow> first_rank f i = first_rank f j"
  using first_rank_props [of f i] first_rank_props [of f j] is_first_unique by metis

definition nested_entry :: "(nat \<Rightarrow> int) \<Rightarrow> (nat \<Rightarrow> int) \<Rightarrow> nat \<Rightarrow> nat \<Rightarrow> Parent_to_Nested_comm_tables_t" where
  "nested_entry P nd r i =
     \<lparr>internode_comm_root = rank_among (node_root nd) (first_rank nd i),
      internode_comm_external_rank = rank_among (node_root nd) i,
      intranode_comm_root = (if nd i = nd r then rank_among (osproc_root P nd r) (first_rank P i) else -1),
      intranode_comm_local_rank = rank_among (osproc_root P nd r) i,
      intra_osproc_fg_rank = rank_among (colocated P r) i\<rparr>"

subsection \<open>The tables hold the maps\<close>

definition rtw_list :: "int list \<Rightarrow> int \<rightharpoonup> ranktoworlditem" where
  "rtw_list ws k = (if 0 \<le> k \<and> k < int (length ws) then Some \<lparr>fgrank = k, worldrank = ws ! nat k\<rparr> else None)"

lemma rtw_list_dom: "card (dom (rtw_list ws)) = length ws"
proof -
  have "dom (rtw_list ws) = {0..<int (length ws)}" by (auto simp: rtw_list_def dom_def)
  then show ?thesis by simp
qed

lemma rtw_list_snoc: "(rtw_list ws)(int (length ws) \<mapsto> \<lparr>fgrank = int (length ws), worldrank = w\<rparr>) = rtw_list (ws @ [w])"
  by (rule ext) (auto simp: rtw_list_def nth_append nat_less_iff)

definition rtw_holds :: "ranktoworlditem hshtbl option \<Rightarrow> int list \<Rightarrow> bool" where
  "rtw_holds h ws \<longleftrightarrow> (\<exists>t. h = Some t \<and> rtw_rep t (rtw_list ws))"

lemma rtw_holds_create:
  assumes "\<forall>k \<in> set table_sizes. ok k"
  shows "rtw_holds (RTWhashCreate ok sz) []"
proof -
  have "ok INITSZ" using assms by (simp add: table_sizes_def)
  then obtain t where t: "RTWhashCreate ok sz = Some t" using rtw.rep_init [of ok] by (auto simp: RTWhashCreate_def ranktoworlddupe_def)
  have "rtw_list [] = Map.empty" by (auto simp: rtw_list_def)
  then show ?thesis using RTWhashCreate_rep [OF t assms] t by (simp add: rtw_holds_def)
qed

lemma rtw_holds_insert:
  assumes "rtw_holds h ws" "\<forall>k \<in> set table_sizes. ok k" "length ws \<le> HSH_CAPACITY" "k = int (length ws)"
  shows "\<exists>h'. RTW_HASH_INSERT ok h k w = Inr h' \<and> rtw_holds h' (ws @ [w])"
proof -
  obtain t where t: "h = Some t" "rtw_rep t (rtw_list ws)" using assms(1) by (auto simp: rtw_holds_def)
  have n: "rtw_list ws (int (length ws)) = None" by (simp add: rtw_list_def)
  obtain t' where "RTWhashInsert ok t (int (length ws)) w = Inr t'" "rtw_rep t' (rtw_list (ws @ [w]))"
    using RTWhashInsert_map [OF t(2) assms(2), of "int (length ws)" w] assms(3) n by (auto simp: rtw_list_dom rtw_list_snoc)
  then show ?thesis using t(1) assms(4) by (simp add: RTW_HASH_INSERT_def rtw_holds_def)
qed

lemma extract_from_list:
  assumes "rtw_rep t (rtw_list ws)" "\<forall>w\<in>set ws. 0 \<le> w"
  shows "\<forall>k\<in>set ks. 0 \<le> k \<and> k < int (length ws) \<Longrightarrow> extract_from t ks = Inr (map (\<lambda>k. ws ! nat k) ks)"
  using assms(1)
proof (induction ks arbitrary: t)
  case (Cons k ks)
  have k: "rtw_list ws k = Some \<lparr>fgrank = k, worldrank = ws ! nat k\<rparr>" "ws ! nat k \<in> set ws"
    using Cons.prems(1) by (simp_all add: rtw_list_def nat_less_iff)
  obtain t' where "RTWhashFind t k = Inr (ws ! nat k, t')" "rtw_rep t' (rtw_list ws)"
    using RTWhashFind_map [OF Cons.prems(2), of k] k assms(2) by auto
  then show ?case using Cons.IH [of t'] Cons.prems(1) by simp
qed simp

lemma extract_holds:
  assumes "rtw_holds h ws" "\<forall>w\<in>set ws. 0 \<le> w"
  shows "EXTRACT_ARRAY_FREE_HASH h (int (length ws)) = Inr (Some ws)"
proof -
  obtain t where t: "h = Some t" "rtw_rep t (rtw_list ws)" using assms(1) by (auto simp: rtw_holds_def)
  have "map (\<lambda>k. ws ! nat k) (map int [0..<length ws]) = ws" by (simp add: comp_def map_nth)
  then show ?thesis using extract_from_list [OF t(2) assms(2), of "map int [0..<length ws]"] t(1)
    by (simp add: EXTRACT_ARRAY_FREE_HASH_def)
qed

abbreviation "ptn_rep \<equiv> hsh_rep ptnLookupHash ptnLookupRehash ptnLookupCmp parent_comm_rank"

definition ptn_list :: "(nat \<Rightarrow> Parent_to_Nested_comm_tables_t) \<Rightarrow> nat \<Rightarrow> int \<rightharpoonup> ptnLookupHashItem" where
  "ptn_list e n k = (if 0 \<le> k \<and> k < int n then Some \<lparr>parent_comm_rank = k, parent_to_nested = e (nat k)\<rparr> else None)"

lemma ptn_list_dom: "card (dom (ptn_list e n)) = n"
proof -
  have "dom (ptn_list e n) = {0..<int n}" by (auto simp: ptn_list_def dom_def)
  then show ?thesis by simp
qed

definition ptn_holds :: "ptnLookupHashItem hshtbl option \<Rightarrow> (nat \<Rightarrow> Parent_to_Nested_comm_tables_t) \<Rightarrow> nat \<Rightarrow> bool" where
  "ptn_holds h e n \<longleftrightarrow> (\<exists>t. h = Some t \<and> ptn_rep t (ptn_list e n))"

lemma ptn_holds_create:
  assumes "\<forall>k \<in> set table_sizes. ok k"
  shows "ptn_holds (ptnLookupHashCreate ok) e 0"
proof -
  have "ok INITSZ" using assms by (simp add: table_sizes_def)
  moreover have "ptn_list e 0 = Map.empty" by (auto simp: ptn_list_def)
  ultimately show ?thesis using ptn.rep_init [of ok] by (auto simp: ptn_holds_def ptnLookupHashCreate_def ptnLookupDupe_def)
qed

lemma ptn_holds_insert:
  assumes "ptn_holds h e n" "\<forall>k \<in> set table_sizes. ok k" "n \<le> HSH_CAPACITY"
  shows "\<exists>h'. PTN_HASH_INSERT ok h (int n) (e n) = Inr h' \<and> ptn_holds h' e (Suc n)"
proof -
  obtain t where t: "h = Some t" "ptn_rep t (ptn_list e n)" using assms(1) by (auto simp: ptn_holds_def)
  have n: "ptn_list e n (int n) = None" by (simp add: ptn_list_def)
  have s: "(ptn_list e n)(int n \<mapsto> \<lparr>parent_comm_rank = int n, parent_to_nested = e n\<rparr>) = ptn_list e (Suc n)"
    by (rule ext) (auto simp: ptn_list_def)
  obtain t' x where "ptnLookupHashInsert ok t (int n) (e n) = Inr (Some x, t')" "ptn_rep t' (ptn_list e (Suc n))"
    using ptnLookupHash_map(2) [OF t(2) assms(2), of "int n" "e n"] assms(3) n s by (auto simp: ptn_list_dom)
  then show ?thesis using t(1) by (simp add: PTN_HASH_INSERT_def ptn_holds_def)
qed

lemma ptn_entry_holds:
  assumes "ptn_holds (parent_to_nested_hash_p m) e n" "i < n" "int i < sz" "n \<le> HSH_CAPACITY"
  shows "ptn_entry sz m (int i) = Inr (e i)"
proof -
  obtain t where t: "parent_to_nested_hash_p m = Some t" "ptn_rep t (ptn_list e n)" using assms(1) by (auto simp: ptn_holds_def)
  obtain t' where "ptnLookupHashFind t (int i) = Inr (ptn_list e n (int i), t')"
    using ptnLookupHash_map(1) [OF t(2), of "\<lambda>_. True" "int i"] assms(4) by (auto simp: ptn_list_dom)
  then show ?thesis using t(1) assms(2,3) by (simp add: ptn_entry_def ptn_list_def check_def)
qed

subsection \<open>The loop\<close>

text \<open>What the variables hold when the ranks below \<open>k\<close> have been entered, list by list.\<close>

definition fg_inv :: "(nat \<Rightarrow> int) \<Rightarrow> (nat \<Rightarrow> int) \<Rightarrow> nat \<Rightarrow> nat \<Rightarrow> nested_maps \<Rightarrow> bool" where
  "fg_inv W P r k m \<longleftrightarrow>
     rtw_holds (intra_osproc_rtw_hash_p m) (map W (member_list (colocated P r) k)) \<and>
     nm_fg_local_size m = int (length (member_list (colocated P r) k))"

definition external_inv :: "(nat \<Rightarrow> int) \<Rightarrow> (nat \<Rightarrow> int) \<Rightarrow> nat \<Rightarrow> nat \<Rightarrow> nested_maps \<Rightarrow> bool" where
  "external_inv W nd ln k m \<longleftrightarrow>
     rtw_holds (internode_rtw_hash_p m) (map W (member_list (node_root nd) k)) \<and>
     nm_external_size m = int (length (member_list (node_root nd) k)) \<and> length (nm_nodes m) = ln \<and>
     (\<forall>j<k. nm_nodes m ! nat (nd j) = rank_among (node_root nd) (first_rank nd j)) \<and>
     (\<forall>v<ln. (\<forall>j<k. nat (nd j) \<noteq> v) \<longrightarrow> nm_nodes m ! v = -1)"

definition local_inv :: "(nat \<Rightarrow> int) \<Rightarrow> (nat \<Rightarrow> int) \<Rightarrow> (nat \<Rightarrow> int) \<Rightarrow> nat \<Rightarrow> nat \<Rightarrow> nat \<Rightarrow> nested_maps \<Rightarrow> bool" where
  "local_inv W P nd r lo k m \<longleftrightarrow>
     rtw_holds (intranode_rtw_hash_p m) (map W (member_list (osproc_root P nd r) k)) \<and>
     nm_local_size m = int (length (member_list (osproc_root P nd r) k)) \<and> length (nm_osprocs m) = lo \<and>
     (\<forall>j<k. nm_osprocs m ! nat (P j) = (if nd j = nd r then rank_among (osproc_root P nd r) (first_rank P j) else -1)) \<and>
     (\<forall>p<lo. (\<forall>j<k. nat (P j) \<noteq> p) \<longrightarrow> nm_osprocs m ! p = -1)"

definition nested_inv ::
  "(nat \<Rightarrow> int) \<Rightarrow> (nat \<Rightarrow> int) \<Rightarrow> (nat \<Rightarrow> int) \<Rightarrow> nat \<Rightarrow> nat \<Rightarrow> nat \<Rightarrow> nat \<Rightarrow> nested_maps \<Rightarrow> bool" where
  "nested_inv W P nd r ln lo k m \<longleftrightarrow>
     ptn_holds (parent_to_nested_hash_p m) (nested_entry P nd r) k \<and>
     fg_inv W P r k m \<and> external_inv W nd ln k m \<and> local_inv W P nd r lo k m"

lemma member_list_le: "length (member_list Q k) \<le> k"
  unfolding member_list_def by (rule order_trans [OF length_filter_le]) simp

text \<open>A member joins a table.\<close>

lemma rtw_member_insert:
  assumes "rtw_holds h (map W (member_list Q k))" "\<forall>k \<in> set table_sizes. ok k" "k \<le> HSH_CAPACITY" "Q k"
    "sz = int (length (member_list Q k))"
  shows "\<exists>h'. RTW_HASH_INSERT ok h sz (W k) = Inr h' \<and> rtw_holds h' (map W (member_list Q (Suc k))) \<and>
    sz = rank_among Q k \<and> sz + 1 = int (length (member_list Q (Suc k)))"
  using rtw_holds_insert [OF assms(1,2), of sz "W k"] member_list_le [of Q k] assms(3-5)
  by (simp add: member_list_Suc rank_among_def)

lemma add_osproc_step:
  assumes "fg_inv W P r k m" "\<forall>k \<in> set table_sizes. ok k" "k \<le> HSH_CAPACITY"
  shows "\<exists>h sz m'. add_osproc ok (P r) (P k) (W k) m = Inr (rank_among (colocated P r) k, m') \<and>
    m' = m\<lparr>intra_osproc_rtw_hash_p := h, nm_fg_local_size := sz\<rparr> \<and> fg_inv W P r (Suc k) m'"
proof (cases "colocated P r k")
  case True
  obtain h where h: "RTW_HASH_INSERT ok (intra_osproc_rtw_hash_p m) (nm_fg_local_size m) (W k) = Inr h"
    "rtw_holds h (map W (member_list (colocated P r) (Suc k)))" "nm_fg_local_size m = rank_among (colocated P r) k"
    "nm_fg_local_size m + 1 = int (length (member_list (colocated P r) (Suc k)))"
    using rtw_member_insert [where Q = "colocated P r" and k = k and h = "intra_osproc_rtw_hash_p m" and W = W and sz = "nm_fg_local_size m", OF _ assms(2,3) True] assms(1) by (auto simp: fg_inv_def)
  then show ?thesis using True by (auto simp: add_osproc_def fg_inv_def colocated_def)
next
  case False
  then show ?thesis using assms(1)
    by (intro exI [of _ "intra_osproc_rtw_hash_p m"] exI [of _ "nm_fg_local_size m"] exI [of _ m])
      (auto simp: add_osproc_def fg_inv_def member_list_Suc rank_among_def colocated_def)
qed

text \<open>A node, or an operating-system process of the node, has been met exactly when its slot is set.\<close>

lemma unmet:
  assumes "is_first f k" "\<forall>j\<le>k. 0 \<le> f j"
  shows "\<forall>j<k. nat (f j) \<noteq> nat (f k)"
proof (intro allI impI)
  fix j assume "j < k"
  then have "f j \<noteq> f k" "0 \<le> f j" "0 \<le> f k" using assms by (auto simp: is_first_def)
  then show "nat (f j) \<noteq> nat (f k)" by (simp add: eq_nat_nat_iff)
qed

lemma node_slot:
  assumes "external_inv W nd ln k m" "\<forall>j\<le>k. 0 \<le> nd j" "nat (nd k) < ln"
  shows "nm_nodes m ! nat (nd k) = -1 \<longleftrightarrow> node_root nd k"
proof (cases "node_root nd k")
  case True
  then show ?thesis using unmet [of nd k, OF _ assms(2)] assms(1,3) by (simp add: external_inv_def node_root_def)
next
  case False
  then obtain j where j: "j < k" "nd j = nd k" by (auto simp: node_root_def is_first_def)
  have "nm_nodes m ! nat (nd j) = rank_among (node_root nd) (first_rank nd j)" using assms(1) j(1) by (simp add: external_inv_def)
  then have "nm_nodes m ! nat (nd k) = rank_among (node_root nd) (first_rank nd j)" using j(2) by simp
  moreover have "node_root nd (first_rank nd j)" using first_rank_props(3) [of nd j] by (simp add: node_root_def)
  ultimately show ?thesis using False by (simp add: rank_among_def)
qed

lemma osproc_slot:
  assumes "local_inv W P nd r lo k m" "\<forall>j\<le>k. 0 \<le> P j" "nat (P k) < lo" "\<forall>i j. P i = P j \<longrightarrow> nd i = nd j" "nd k = nd r"
  shows "nm_osprocs m ! nat (P k) = -1 \<longleftrightarrow> osproc_root P nd r k"
proof (cases "is_first P k")
  case True
  then show ?thesis using unmet [of P k, OF _ assms(2)] assms(1,3,5) by (simp add: local_inv_def osproc_root_def)
next
  case False
  then obtain j where j: "j < k" "P j = P k" by (auto simp: is_first_def)
  then have nj: "nd j = nd r" using assms(4,5) by metis
  have "nm_osprocs m ! nat (P j) = rank_among (osproc_root P nd r) (first_rank P j)" using assms(1) j(1) nj by (simp add: local_inv_def)
  then have "nm_osprocs m ! nat (P k) = rank_among (osproc_root P nd r) (first_rank P j)" using j(2) by simp
  moreover have "osproc_root P nd r (first_rank P j)"
    using first_rank_props(1,3) [of P j] assms(4) nj by (metis osproc_root_def)
  ultimately show ?thesis using False by (simp add: rank_among_def osproc_root_def)
qed

lemma add_external_step:
  assumes "external_inv W nd ln k m" "\<forall>k \<in> set table_sizes. ok k" "k \<le> HSH_CAPACITY"
    "\<forall>j\<le>k. 0 \<le> nd j" "nat (nd k) < ln"
  shows "\<exists>h ns sz m'. add_external ok (nd k) (W k) m = Inr (rank_among (node_root nd) k, m') \<and>
    m' = m\<lparr>internode_rtw_hash_p := h, nm_nodes := ns, nm_external_size := sz\<rparr> \<and> external_inv W nd ln (Suc k) m' \<and>
    nm_nodes m' ! nat (nd k) = rank_among (node_root nd) (first_rank nd k)"
proof -
  note slot = node_slot [OF assms(1,4,5)]
  show ?thesis
  proof (cases "node_root nd k")
    case True
    obtain h where h: "RTW_HASH_INSERT ok (internode_rtw_hash_p m) (nm_external_size m) (W k) = Inr h"
      "rtw_holds h (map W (member_list (node_root nd) (Suc k)))" "nm_external_size m = rank_among (node_root nd) k"
      "nm_external_size m + 1 = int (length (member_list (node_root nd) (Suc k)))"
      using rtw_member_insert [where Q = "node_root nd" and k = k and h = "internode_rtw_hash_p m" and W = W and sz = "nm_external_size m", OF _ assms(2,3) True] assms(1) by (auto simp: external_inv_def)
    let ?ns = "(nm_nodes m)[nat (nd k) := nm_external_size m]"
    have f: "first_rank nd k = k" "\<forall>j<k. nat (nd j) \<noteq> nat (nd k)"
      using True unmet [of nd k, OF _ assms(4)] first_rank_first [of nd k] by (auto simp: node_root_def)
    have new: "?ns ! nat (nd k) = rank_among (node_root nd) (first_rank nd k)"
      using f(1) h(3) assms(1,5) by (simp add: external_inv_def)
    have "external_inv W nd ln (Suc k) (m\<lparr>internode_rtw_hash_p := h, nm_nodes := ?ns, nm_external_size := nm_external_size m + 1\<rparr>)"
      unfolding external_inv_def
    proof (intro conjI allI impI)
      fix j assume "j < Suc k"
      then show "nm_nodes (m\<lparr>internode_rtw_hash_p := h, nm_nodes := ?ns, nm_external_size := nm_external_size m + 1\<rparr>) ! nat (nd j) =
          rank_among (node_root nd) (first_rank nd j)"
        using new f(2) assms(1) by (cases "j = k") (auto simp: external_inv_def less_Suc_eq)
    qed (use h assms(1) in \<open>auto simp: external_inv_def nth_list_update\<close>)
    then show ?thesis using h(1,3) True slot new by (auto simp: add_external_def)
  next
    case False
    then obtain j where j: "j < k" "nd j = nd k" by (auto simp: node_root_def is_first_def)
    have "nm_nodes m ! nat (nd j) = rank_among (node_root nd) (first_rank nd j)" using assms(1) j(1) by (simp add: external_inv_def)
    then have v: "nm_nodes m ! nat (nd k) = rank_among (node_root nd) (first_rank nd k)" using j(2) first_rank_eq [of nd j k] by simp
    have "external_inv W nd ln (Suc k) m" using assms(1) False v by (auto simp: external_inv_def member_list_Suc less_Suc_eq)
    then show ?thesis using False slot v
      by (intro exI [of _ "internode_rtw_hash_p m"] exI [of _ "nm_nodes m"] exI [of _ "nm_external_size m"] exI [of _ m])
        (auto simp: add_external_def rank_among_def)
  qed
qed

lemma add_local_step:
  assumes "local_inv W P nd r lo k m" "\<forall>k \<in> set table_sizes. ok k" "k \<le> HSH_CAPACITY"
    "\<forall>j\<le>k. 0 \<le> P j" "nat (P k) < lo" "\<forall>i j. P i = P j \<longrightarrow> nd i = nd j"
  shows "\<exists>h os sz m'. add_local ok (nd r) (nd k) (P k) (W k) m = Inr (rank_among (osproc_root P nd r) k, m') \<and>
    m' = m\<lparr>intranode_rtw_hash_p := h, nm_osprocs := os, nm_local_size := sz\<rparr> \<and> local_inv W P nd r lo (Suc k) m' \<and>
    nm_osprocs m' ! nat (P k) = (if nd k = nd r then rank_among (osproc_root P nd r) (first_rank P k) else -1)"
proof -
  note slot = osproc_slot [OF assms(1,4-6)]
  let ?at = "\<lambda>j. if nd j = nd r then rank_among (osproc_root P nd r) (first_rank P j) else -1"
  show ?thesis
  proof (cases "osproc_root P nd r k")
    case True
    then have n: "nd k = nd r" by (simp add: osproc_root_def)
    obtain h where h: "RTW_HASH_INSERT ok (intranode_rtw_hash_p m) (nm_local_size m) (W k) = Inr h"
      "rtw_holds h (map W (member_list (osproc_root P nd r) (Suc k)))" "nm_local_size m = rank_among (osproc_root P nd r) k"
      "nm_local_size m + 1 = int (length (member_list (osproc_root P nd r) (Suc k)))"
      using rtw_member_insert [where Q = "osproc_root P nd r" and k = k and h = "intranode_rtw_hash_p m" and W = W and sz = "nm_local_size m", OF _ assms(2,3) True] assms(1) by (auto simp: local_inv_def)
    let ?os = "(nm_osprocs m)[nat (P k) := nm_local_size m]"
    have f: "first_rank P k = k" "\<forall>j<k. nat (P j) \<noteq> nat (P k)"
      using True unmet [of P k, OF _ assms(4)] first_rank_first [of P k] by (auto simp: osproc_root_def)
    have new: "?os ! nat (P k) = ?at k" using f(1) h(3) n assms(1,5) by (simp add: local_inv_def)
    have "local_inv W P nd r lo (Suc k) (m\<lparr>intranode_rtw_hash_p := h, nm_osprocs := ?os, nm_local_size := nm_local_size m + 1\<rparr>)"
      unfolding local_inv_def
    proof (intro conjI allI impI)
      fix j assume "j < Suc k"
      then show "nm_osprocs (m\<lparr>intranode_rtw_hash_p := h, nm_osprocs := ?os, nm_local_size := nm_local_size m + 1\<rparr>) ! nat (P j) = ?at j"
        using new f(2) assms(1) by (cases "j = k") (auto simp: local_inv_def less_Suc_eq)
    qed (use h assms(1) in \<open>auto simp: local_inv_def nth_list_update\<close>)
    then show ?thesis using h(1,3) slot [OF n] n new True by (auto simp: add_local_def)
  next
    case False
    have v: "nm_osprocs m ! nat (P k) = ?at k"
    proof (cases "is_first P k")
      case True
      then have "nd k \<noteq> nd r" using False by (simp add: osproc_root_def)
      then show ?thesis using unmet [of P k, OF True assms(4)] assms(1,5) by (simp add: local_inv_def)
    next
      case False
      then obtain j where j: "j < k" "P j = P k" by (auto simp: is_first_def)
      have "nm_osprocs m ! nat (P j) = ?at j" using assms(1) j(1) by (simp add: local_inv_def)
      moreover have "nd j = nd k" using assms(6) j(2) by blast
      ultimately show ?thesis using j(2) first_rank_eq [of P j k] by simp
    qed
    have "local_inv W P nd r lo (Suc k) m" using assms(1) False v by (auto simp: local_inv_def member_list_Suc less_Suc_eq)
    then show ?thesis using False slot v
      by (intro exI [of _ "intranode_rtw_hash_p m"] exI [of _ "nm_osprocs m"] exI [of _ "nm_local_size m"] exI [of _ m])
        (auto simp: add_local_def rank_among_def)
  qed
qed

text \<open>One round and the whole loop; \<open>nd i\<close> is the node of the process \<open>P i\<close> of rank \<open>i\<close>.\<close>

lemma nested_round_step:
  assumes inv: "nested_inv W P nd r ln lo k m" and ok: "\<forall>k \<in> set table_sizes. ok k" and cap: "k \<le> HSH_CAPACITY"
    and look: "MPIDI_Comm_get_pid_worldrank g comm (int k) True = Inr (W k, Some (P k))"
    and P: "\<forall>j\<le>k. 0 \<le> P j" "P k < int (length node_ids)" "nat (P k) < lo"
    and nd: "\<And>i. nd i = node_ids ! nat (P i)" "\<And>j. j < k \<Longrightarrow> 0 \<le> nd j" "nd k \<le> max_node_id" "ln = nat max_node_id + 1"
  shows "if nd k < 0 then nested_round ok g comm node_ids max_node_id (P r) (nd r) (int k) m = Inr (Inl ''**dynamic_node_ids'')
    else \<exists>m'. nested_round ok g comm node_ids max_node_id (P r) (nd r) (int k) m = Inr (Inr m') \<and> nested_inv W P nd r ln lo (Suc k) m'"
proof -
  have same: "\<forall>i j. P i = P j \<longrightarrow> nd i = nd j" using nd(1) by simp
  have node: "MPID_Get_node_id node_ids (P k) = Inr (nd k)" using P(1,2) nd(1) by (simp add: MPID_Get_node_id_def)
  have I: "ptn_holds (parent_to_nested_hash_p m) (nested_entry P nd r) k" "fg_inv W P r k m" "external_inv W nd ln k m" "local_inv W P nd r lo k m"
    using inv by (simp_all add: nested_inv_def)
  obtain h1 z1 m1 where 1: "add_osproc ok (P r) (P k) (W k) m = Inr (rank_among (colocated P r) k, m1)"
    "m1 = m\<lparr>intra_osproc_rtw_hash_p := h1, nm_fg_local_size := z1\<rparr>" "fg_inv W P r (Suc k) m1"
    using add_osproc_step [OF I(2) ok cap] by blast
  show ?thesis
  proof (cases "nd k < 0")
    case True
    then show ?thesis using look 1(1) node by (simp add: nested_round_def)
  next
    case False
    then have pos: "\<forall>j\<le>k. 0 \<le> nd j" using nd(2) by (auto simp: le_less)
    have "external_inv W nd ln k m1" "nat (nd k) < ln" using I(3) nd(3,4) False by (auto simp: 1(2) external_inv_def)
    then obtain h2 ns z2 m2 where 2: "add_external ok (nd k) (W k) m1 = Inr (rank_among (node_root nd) k, m2)"
      "m2 = m1\<lparr>internode_rtw_hash_p := h2, nm_nodes := ns, nm_external_size := z2\<rparr>" "external_inv W nd ln (Suc k) m2"
      "nm_nodes m2 ! nat (nd k) = rank_among (node_root nd) (first_rank nd k)"
      using add_external_step [OF _ ok cap pos] by blast
    have "local_inv W P nd r lo k m2" using I(4) by (simp add: 1(2) 2(2) local_inv_def)
    then obtain h3 os z3 m3 where 3: "add_local ok (nd r) (nd k) (P k) (W k) m2 = Inr (rank_among (osproc_root P nd r) k, m3)"
      "m3 = m2\<lparr>intranode_rtw_hash_p := h3, nm_osprocs := os, nm_local_size := z3\<rparr>" "local_inv W P nd r lo (Suc k) m3"
      "nm_osprocs m3 ! nat (P k) = (if nd k = nd r then rank_among (osproc_root P nd r) (first_rank P k) else -1)"
      using add_local_step [OF _ ok cap P(1,3) same] by blast
    obtain h4 where 4: "PTN_HASH_INSERT ok (parent_to_nested_hash_p m) (int k) (nested_entry P nd r k) = Inr h4"
      "ptn_holds h4 (nested_entry P nd r) (Suc k)"
      using ptn_holds_insert [OF I(1) ok cap] by blast
    have len: "nat (P k) < length (nm_osprocs m2)" using I(4) P(3) by (simp add: 1(2) 2(2) local_inv_def)
    have e: "\<lparr>internode_comm_root = nm_nodes m3 ! nat (nd k), internode_comm_external_rank = rank_among (node_root nd) k,
        intranode_comm_root = nm_osprocs m3 ! nat (P k), intranode_comm_local_rank = rank_among (osproc_root P nd r) k,
        intra_osproc_fg_rank = rank_among (colocated P r) k\<rparr> = nested_entry P nd r k"
      using 2(4) 3(4) by (simp add: nested_entry_def 3(2))
    have p3: "parent_to_nested_hash_p m3 = parent_to_nested_hash_p m" by (simp add: 1(2) 2(2) 3(2))
    have "nested_round ok g comm node_ids max_node_id (P r) (nd r) (int k) m = Inr (Inr (m3\<lparr>parent_to_nested_hash_p := h4\<rparr>))"
      using look 1(1) node False nd(3) 2(1) len 3(1) 4(1) by (simp add: nested_round_def check_def e p3)
    moreover have "nested_inv W P nd r ln lo (Suc k) (m3\<lparr>parent_to_nested_hash_p := h4\<rparr>)"
      using 1(3) 2(3) 3(3) 4(2) by (simp add: nested_inv_def fg_inv_def external_inv_def local_inv_def 1(2) 2(2) 3(2))
    ultimately show ?thesis using False by simp
  qed
qed

lemma nested_loop_correct:
  assumes ok: "\<forall>k \<in> set table_sizes. ok k" and cap: "n \<le> HSH_CAPACITY"
    and look: "\<And>i. i < n \<Longrightarrow> MPIDI_Comm_get_pid_worldrank g comm (int i) True = Inr (W i, Some (P i))"
    and P: "\<And>i. i < n \<Longrightarrow> 0 \<le> P i \<and> P i < int (length node_ids) \<and> nat (P i) < lo"
    and nd: "\<And>i. nd i = node_ids ! nat (P i)" "\<And>i. i < n \<Longrightarrow> nd i \<le> max_node_id" "ln = nat max_node_id + 1"
  shows "nested_inv W P nd r ln lo k m \<Longrightarrow> k \<le> n \<Longrightarrow> \<forall>j<k. 0 \<le> nd j \<Longrightarrow>
    if \<exists>i<n. nd i < 0 then nested_loop ok g comm node_ids max_node_id (P r) (nd r) (map int [k..<n]) m = Inr (Inl ''**dynamic_node_ids'')
    else \<exists>m'. nested_loop ok g comm node_ids max_node_id (P r) (nd r) (map int [k..<n]) m = Inr (Inr m') \<and> nested_inv W P nd r ln lo n m'"
proof (induction "n - k" arbitrary: k m)
  case 0
  then have "k = n" by simp
  then show ?case using 0 by auto
next
  case (Suc d)
  have k: "k < n" using Suc.hyps(2) by simp
  have up: "map int [k..<n] = int k # map int [Suc k..<n]" using k by (simp add: upt_conv_Cons)
  have round: "if nd k < 0 then nested_round ok g comm node_ids max_node_id (P r) (nd r) (int k) m = Inr (Inl ''**dynamic_node_ids'')
    else \<exists>m'. nested_round ok g comm node_ids max_node_id (P r) (nd r) (int k) m = Inr (Inr m') \<and> nested_inv W P nd r ln lo (Suc k) m'"
    by (rule nested_round_step [OF Suc.prems(1) ok]) (use k cap look P nd Suc.prems(3) in auto)
  show ?case
  proof (cases "nd k < 0")
    case True
    then have "\<exists>i<n. nd i < 0" using k by blast
    then show ?thesis using True round by (simp add: up)
  next
    case False
    then obtain m' where m': "nested_round ok g comm node_ids max_node_id (P r) (nd r) (int k) m = Inr (Inr m')"
      "nested_inv W P nd r ln lo (Suc k) m'" using round by auto
    have d: "d = n - Suc k" "Suc k \<le> n" "\<forall>j<Suc k. 0 \<le> nd j" using Suc.hyps(2) Suc.prems(3) False by (auto simp: less_Suc_eq)
    show ?thesis using Suc.hyps(1) [OF d(1) m'(2) d(2,3)] m'(1) by (simp add: up)
  qed
qed

subsection \<open>The result\<close>

text \<open>
  C35. \<^verbatim>\<open>MPIU_Nested_maps_for_communicators\<close> maps a communicator onto the machine.  When every rank can be
  looked up (a world rank that is not negative and a process with a node id, within the bounds
  \<^verbatim>\<open>num_osprocs\<close> and \<^verbatim>\<open>max_node_id\<close> the code allocates for), the caller's own node id is not
  negative, and memory and the capacity of the tables suffice, it returns: with the error \<^verbatim>\<open>**dynamic_node_ids\<close> if a process has a negative node id, and
  otherwise with the sizes and maps of the three nested communicators of the calling process.  They are, in rank
  order, the first processes of the nodes, the first processes of the operating-system processes
  on the caller's node, and the processes in the caller's operating-system process; the array read
  from each table holds their world ranks.  The lookups give for any rank the rank of the first process of its node among
  the first, the rank of the first process in its operating-system process among the
  second (-1 when it is on another node), and its own rank among the third (-1 when it is not
  co-located).
\<close>

theorem nested_maps_correct:
  fixes W P :: "nat \<Rightarrow> int" and node_ids :: "int list"
  defines "nd \<equiv> \<lambda>i. node_ids ! nat (P i)"
  assumes "\<forall>k \<in> set table_sizes. ok k" "n \<le> HSH_CAPACITY" "local_size comm = int n" "r < n" "0 \<le> max_node_id"
    "\<forall>i<n. MPIDI_Comm_get_pid_worldrank g comm (int i) True = Inr (W i, Some (P i)) \<and> 0 \<le> W i"
    "\<forall>i<n. 0 \<le> P i \<and> P i < int (length node_ids) \<and> P i \<le> int num_osprocs \<and> nd i \<le> max_node_id" "0 \<le> nd r"
  shows "if \<exists>i<n. nd i < 0 then
      MPIU_Nested_maps_for_communicators ok True True g comm (int r) num_osprocs node_ids max_node_id = Inr (Inl ''**dynamic_node_ids'')
    else \<exists>m. MPIU_Nested_maps_for_communicators ok True True g comm (int r) num_osprocs node_ids max_node_id = Inr (Inr m) \<and>
      nm_external_size m = int (length (member_list (node_root nd) n)) \<and>
      nm_local_size m = int (length (member_list (osproc_root P nd r) n)) \<and>
      nm_fg_local_size m = int (length (member_list (colocated P r) n)) \<and>
      EXTRACT_ARRAY_FREE_HASH (internode_rtw_hash_p m) (nm_external_size m) = Inr (Some (map W (member_list (node_root nd) n))) \<and>
      EXTRACT_ARRAY_FREE_HASH (intranode_rtw_hash_p m) (nm_local_size m) = Inr (Some (map W (member_list (osproc_root P nd r) n))) \<and>
      EXTRACT_ARRAY_FREE_HASH (intra_osproc_rtw_hash_p m) (nm_fg_local_size m) = Inr (Some (map W (member_list (colocated P r) n))) \<and>
      (\<forall>i<n. MPIU_Get_internode_rank (int n) m (int i) = Inr (rank_among (node_root nd) (first_rank nd i)) \<and>
        MPIU_Get_intranode_rank (int n) m (int i) =
          Inr (if nd i = nd r then rank_among (osproc_root P nd r) (first_rank P i) else -1) \<and>
        MPIU_Get_intra_osproc_rank (int n) m (int i) = Inr (rank_among (colocated P r) i))"
proof -
  define m0 where "m0 = \<lparr>parent_to_nested_hash_p = ptnLookupHashCreate ok, internode_rtw_hash_p = RTWhashCreate ok 0,
      intranode_rtw_hash_p = RTWhashCreate ok 0, intra_osproc_rtw_hash_p = RTWhashCreate ok 0,
      nm_nodes = replicate (nat max_node_id + 1) (-1), nm_osprocs = replicate (num_osprocs + 1) (-1),
      nm_external_size = 0, nm_local_size = 0, nm_fg_local_size = 0\<rparr>"
  have nodes: "nd i = node_ids ! nat (P i)" for i by (simp add: nd_def)
  have inv0: "nested_inv W P nd r (nat max_node_id + 1) (num_osprocs + 1) 0 m0"
    using rtw_holds_create [OF assms(2)] ptn_holds_create [OF assms(2)]
    by (simp add: nested_inv_def fg_inv_def external_inv_def local_inv_def m0_def member_list_def nth_Cons split: nat.splits)
  have call: "MPIU_Nested_maps_for_communicators ok True True g comm (int r) num_osprocs node_ids max_node_id =
      nested_loop ok g comm node_ids max_node_id (P r) (nd r) (map int [0..<n]) m0"
    using assms(4-9)
    by (simp add: MPIU_Nested_maps_for_communicators_def MPID_Get_node_id_def check_def m0_def flip: nodes)
  have loop: "if \<exists>i<n. nd i < 0 then nested_loop ok g comm node_ids max_node_id (P r) (nd r) (map int [0..<n]) m0 = Inr (Inl ''**dynamic_node_ids'')
    else \<exists>m'. nested_loop ok g comm node_ids max_node_id (P r) (nd r) (map int [0..<n]) m0 = Inr (Inr m') \<and>
      nested_inv W P nd r (nat max_node_id + 1) (num_osprocs + 1) n m'"
    by (rule nested_loop_correct [OF assms(2,3) _ _ nodes _ _ inv0]) (use assms(7,8) in fastforce)+
  show ?thesis
  proof (cases "\<exists>i<n. nd i < 0")
    case True
    then show ?thesis using loop call by simp
  next
    case False
    then obtain m where m: "MPIU_Nested_maps_for_communicators ok True True g comm (int r) num_osprocs node_ids max_node_id = Inr (Inr m)"
      "nested_inv W P nd r (nat max_node_id + 1) (num_osprocs + 1) n m" using loop [unfolded if_not_P [OF False]] call by auto
    then have I: "ptn_holds (parent_to_nested_hash_p m) (nested_entry P nd r) n" "fg_inv W P r n m"
      "external_inv W nd (nat max_node_id + 1) n m" "local_inv W P nd r (num_osprocs + 1) n m" by (simp_all add: nested_inv_def)
    have pos: "\<forall>w\<in>set (map W (member_list Q n)). 0 \<le> w" for Q using assms(7) by (auto simp: member_list_def)
    have x: "EXTRACT_ARRAY_FREE_HASH (internode_rtw_hash_p m) (nm_external_size m) = Inr (Some (map W (member_list (node_root nd) n)))"
      "EXTRACT_ARRAY_FREE_HASH (intranode_rtw_hash_p m) (nm_local_size m) = Inr (Some (map W (member_list (osproc_root P nd r) n)))"
      "EXTRACT_ARRAY_FREE_HASH (intra_osproc_rtw_hash_p m) (nm_fg_local_size m) = Inr (Some (map W (member_list (colocated P r) n)))"
      using extract_holds [OF _ pos, of _ "node_root nd"] extract_holds [OF _ pos, of _ "osproc_root P nd r"]
        extract_holds [OF _ pos, of _ "colocated P r"] I(2-4) by (auto simp: fg_inv_def external_inv_def local_inv_def)
    have l: "ptn_entry (int n) m (int i) = Inr (nested_entry P nd r i)" if "i < n" for i
      by (rule ptn_entry_holds [OF I(1) that]) (use that assms(3) in auto)
    have "\<forall>i<n. MPIU_Get_internode_rank (int n) m (int i) = Inr (rank_among (node_root nd) (first_rank nd i)) \<and>
        MPIU_Get_intranode_rank (int n) m (int i) =
          Inr (if nd i = nd r then rank_among (osproc_root P nd r) (first_rank P i) else -1) \<and>
        MPIU_Get_intra_osproc_rank (int n) m (int i) = Inr (rank_among (colocated P r) i)"
      using l by (simp add: MPIU_Get_internode_rank_def MPIU_Get_intranode_rank_def MPIU_Get_intra_osproc_rank_def nested_entry_def)
    moreover have "nm_external_size m = int (length (member_list (node_root nd) n))"
      "nm_local_size m = int (length (member_list (osproc_root P nd r) n))"
      "nm_fg_local_size m = int (length (member_list (colocated P r) n))"
      using I(2-4) by (simp_all add: fg_inv_def external_inv_def local_inv_def)
    ultimately show ?thesis using False m(1) x by (intro if_not_P [THEN iffD2, OF False] exI [of _ m]) blast
  qed
qed

text \<open>
  Five processes: 0 and 1 in the first operating-system process, 2 and 3 in the second, both on node
  0, and 4 in the third on node 1.  The maps are built by rank 2.
\<close>

definition nested_sample_ranks :: fg_ranks where
  "nested_sample_ranks = \<lparr>pid_size = 3,
     pid_to_fgps = [\<lparr>fg_startrank = 0, numfgps = 2\<rparr>, \<lparr>fg_startrank = 2, numfgps = 2\<rparr>, \<lparr>fg_startrank = 4, numfgps = 1\<rparr>],
     worldcomm_rtw_map = 8, rtw_maps = (\<lambda>_. [])\<rparr>"

definition nested_sample_comm :: fg_comm where
  "nested_sample_comm = \<lparr>rtw_map = 8, local_size = 5, p_rank = 1\<rparr>"

definition nested_sample_pid :: "nat \<Rightarrow> int" where
  "nested_sample_pid i = [0, 0, 1, 1, 2] ! i"

lemma less_5: "i < (5 :: nat) \<longleftrightarrow> i = 0 \<or> i = 1 \<or> i = 2 \<or> i = 3 \<or> i = 4"
  by auto

lemma sample_lookup: "i < 5 \<Longrightarrow> MPIDI_Comm_get_pid_worldrank nested_sample_ranks nested_sample_comm (int i) True = Inr (int i, Some (nested_sample_pid i))"
  unfolding less_5
  by (elim disjE) (simp_all add: MPIDI_Comm_get_pid_worldrank_def MPI_PROC_NULL_def RTWPmapFind_def nested_sample_ranks_def nested_sample_comm_def
      nested_sample_pid_def FG_worldrank_to_pid_def FGI_worldrank_to_pid_def fgi_loop.simps FG_is_within_def LESS_def EQUAL_def GREATER_def
      Let_def check_def)

theorem nested_maps_correct_witness:
  "\<exists>m. MPIU_Nested_maps_for_communicators (\<lambda>_. True) True True nested_sample_ranks nested_sample_comm 2 3 [0, 0, 1] 1 = Inr (Inr m) \<and>
     EXTRACT_ARRAY_FREE_HASH (internode_rtw_hash_p m) (nm_external_size m) = Inr (Some [0, 4]) \<and>
     EXTRACT_ARRAY_FREE_HASH (intranode_rtw_hash_p m) (nm_local_size m) = Inr (Some [0, 2]) \<and>
     EXTRACT_ARRAY_FREE_HASH (intra_osproc_rtw_hash_p m) (nm_fg_local_size m) = Inr (Some [2, 3]) \<and>
     MPIU_Get_internode_rank 5 m 4 = Inr 1 \<and> MPIU_Get_intranode_rank 5 m 3 = Inr 1 \<and> MPIU_Get_intranode_rank 5 m 4 = Inr (-1)"
proof -
  let ?nd = "\<lambda>i. [0, 0, 1] ! nat (nested_sample_pid i) :: int"
  have m: "map int (member_list (node_root ?nd) 5) = [0, 4]"
    "map int (member_list (osproc_root nested_sample_pid ?nd 2) 5) = [0, 2]"
    "map int (member_list (colocated nested_sample_pid 2) 5) = [2, 3]"
    "rank_among (node_root ?nd) (first_rank ?nd 4) = 1" "rank_among (osproc_root nested_sample_pid ?nd 2) (first_rank nested_sample_pid 3) = 1"
    "?nd 4 \<noteq> ?nd 2" "?nd 3 = ?nd 2"
    by code_simp+
  have nn: "\<not> (\<exists>i<5. ?nd i < 0)"
  proof (intro notI, elim exE conjE)
    fix i :: nat assume "i < 5" "?nd i < 0"
    then show False unfolding less_5 by (elim disjE) (simp_all add: nested_sample_pid_def)
  qed
  have b: "\<forall>i<5. 0 \<le> nested_sample_pid i \<and> nested_sample_pid i < int (length [0 :: int, 0, 1]) \<and> nested_sample_pid i \<le> int 3 \<and> ?nd i \<le> 1"
  proof (intro allI impI)
    fix i :: nat assume "i < 5"
    then show "0 \<le> nested_sample_pid i \<and> nested_sample_pid i < int (length [0 :: int, 0, 1]) \<and> nested_sample_pid i \<le> int 3 \<and> ?nd i \<le> 1"
      unfolding less_5 by (elim disjE) (simp_all add: nested_sample_pid_def)
  qed
  have h: "\<forall>k\<in>set table_sizes. (\<lambda>_. True) k" "5 \<le> HSH_CAPACITY" "local_size nested_sample_comm = int 5" "(2 :: nat) < 5" "(0 :: int) \<le> 1" "0 \<le> ?nd 2"
    by (simp_all add: HSH_CAPACITY_def nested_sample_comm_def nested_sample_pid_def)
  have look: "\<forall>i<5. MPIDI_Comm_get_pid_worldrank nested_sample_ranks nested_sample_comm (int i) True = Inr (int i, Some (nested_sample_pid i)) \<and> 0 \<le> int i"
    using sample_lookup by simp
  note T = nested_maps_correct [where P = nested_sample_pid and node_ids = "[0, 0, 1]" and W = int, OF h(1-5) look b h(6), unfolded if_not_P [OF nn] m(1-3)]
  then obtain q where q: "MPIU_Nested_maps_for_communicators (\<lambda>_. True) True True nested_sample_ranks nested_sample_comm (int 2) 3 [0, 0, 1] 1 = Inr (Inr q)"
    "EXTRACT_ARRAY_FREE_HASH (internode_rtw_hash_p q) (nm_external_size q) = Inr (Some [0, 4])"
    "EXTRACT_ARRAY_FREE_HASH (intranode_rtw_hash_p q) (nm_local_size q) = Inr (Some [0, 2])"
    "EXTRACT_ARRAY_FREE_HASH (intra_osproc_rtw_hash_p q) (nm_fg_local_size q) = Inr (Some [2, 3])"
    "\<forall>i<5. MPIU_Get_internode_rank (int 5) q (int i) = Inr (rank_among (node_root ?nd) (first_rank ?nd i)) \<and>
       MPIU_Get_intranode_rank (int 5) q (int i) =
         Inr (if ?nd i = ?nd 2 then rank_among (osproc_root nested_sample_pid ?nd 2) (first_rank nested_sample_pid i) else -1) \<and>
       MPIU_Get_intra_osproc_rank (int 5) q (int i) = Inr (rank_among (colocated nested_sample_pid 2) i)"
    by (elim exE conjE)
  have "MPIU_Get_internode_rank (int 5) q (int 4) = Inr 1" "MPIU_Get_intranode_rank (int 5) q (int 3) = Inr 1"
    "MPIU_Get_intranode_rank (int 5) q (int 4) = Inr (-1)"
    using q(5) [rule_format, of 4] q(5) [rule_format, of 3] m(4-7) by simp_all
  then show ?thesis using q(1-4) by (intro exI [of _ q]) simp
qed

end
