(* ===== verification/Spec2Isabelle.thy ===== *)
theory Spec2Isabelle
  imports Linked_List Sleep_Queue Recv_Queue Comm_Run Context_Gcn Smp_Barrier Nbc_Progress Topo_Dims Topo_Cart Comm_Nested
begin

section \<open>FG-MPI: a verification development\<close>

text \<open>
  FG-MPI (Fine-Grain MPI) is a fork of MPICH that runs many MPI processes as coroutines inside one
  operating-system process (an HWP).  This development models the parts that make it differ from
  MPICH and the parts of MPICH they rest on, each from its C source under \<^verbatim>\<open>src/src\<close>, and proves
  what makes each part correct.  The configuration modelled is the one with \<^verbatim>\<open>FINEGRAIN_MPI\<close>
  defined, error checking on, and the CH3 device.

  \<^bold>\<open>The parts and how they interact.\<close>  The coroutine library (\<^verbatim>\<open>fgutil\<close>) creates the MPI processes
  of an HWP as threads and switches between them; its run, sleep and thread lists are the lists of
  \<^verbatim>\<open>linked_list.c\<close> in pools of \<^verbatim>\<open>object_pool.c\<close>, and its block-queue scheduler keeps blocked threads in
  a table of \<^verbatim>\<open>hashlib.c\<close>.  At start-up the HWPs tell each other through the process manager which
  world ranks they host (\<^verbatim>\<open>mpid_vc.c\<close>); \<^verbatim>\<open>fginit.c\<close> finds the HWP of a world rank in that table.
  Creating a communicator takes a context id that is free for all its members (\<^verbatim>\<open>contextid.c\<close>),
  orders the members (\<^verbatim>\<open>comm_split.c\<close>) and shares one rank map and one set of barrier variables among
  the co-located members, found through a table keyed by context id and leader and counted by
  references (\<^verbatim>\<open>commutil.c\<close>, \<^verbatim>\<open>comm_free.c\<close>).  Messages are matched in per-process queues
  (\<^verbatim>\<open>ch3u_recvq.c\<close>).  A barrier on a communicator runs on the shared barrier variables inside an HWP
  and by messages between the HWPs of a node and between nodes (\<^verbatim>\<open>barrier.c\<close>, \<^verbatim>\<open>bcast.c\<close>).
  A nonblocking collective is a schedule of sends, receives and local operations that the coroutine
  starts and the progress engine carries on (\<^verbatim>\<open>mpid_sched.c\<close>); each coroutine has its own list of
  schedules, the hook of the progress engine is shared.  A Cartesian topology gives the ranks of a
  communicator coordinates in a grid; its subgrids are made by splitting (\<^verbatim>\<open>mpi/topo\<close>).
\<close>

subsection \<open>Theories\<close>

text \<open>
  \<^item> \<open>FG_Prelude\<close>: addresses, the fault values of failed assertions, \<^verbatim>\<open>exit\<close>, undefined accesses and
    loops that do not return, and the pointer chains (\<open>links\<close>) the list proofs rest on.
  \<^item> \<open>Object_Pool\<close> (\<^verbatim>\<open>fgutil/src/util/object_pool.c\<close>): the pool over an explicit store and a bump
    allocator; objects handed out do not overlap (C1).
  \<^item> \<open>Linked_List\<close> (\<^verbatim>\<open>fgutil/src/util/linked_list.c\<close>): every operation, assignment by assignment; the
    locale \<open>pointer_list\<close> is the contract of a double-ended list, interpreted on the code's
    operations; refinement to lists (C2), removal of a given entry (C4).
  \<^item> \<open>Hash_Primes\<close>, \<open>Hash_Lib\<close>, \<open>Hash_Map\<close> (\<^verbatim>\<open>fgutil/src/hash/hashlib.c\<close>, \<^verbatim>\<open>hashmap.c\<close>): table sizes,
    probing, deletion marks and reorganisation; the locale \<open>hash_client\<close> states what a client's hash,
    rehash and comparison functions owe the table, and is interpreted on each of the five clients;
    refinement to finite maps, round trips, leaders (C5 to C7).
  \<^item> \<open>Scheduler\<close> (\<^verbatim>\<open>fgutil/src/schedulers\<close>): round robin, inverse round robin and the block queue; the
    locale \<open>run_queue\<close> is the first-in first-out contract, interpreted on each scheduler (C10, C11).
  \<^item> \<open>Thread_Lib\<close>, \<open>Thread_Inv\<close>, \<open>Sleep_Queue\<close> (\<^verbatim>\<open>fgutil/src/threadlib.c\<close>): the operations on threads,
    the step relation of those that callers use within their contract, suspension with a time limit
    apart, with its invariant (C12 to C15), and the delta-encoded sleep queue against the times the
    sleepers have left, with the ties on which it fails (C16 to C19).
  \<^item> \<open>Recv_Queue\<close> (\<^verbatim>\<open>mpid/ch3/src/ch3u_recvq.c\<close>): posting, arrival, probing, cancelling, failure and
    revocation over the two queues of each process, and the state machine of all of them (C21 to
    C27).
  \<^item> \<open>Rank_Map\<close> (\<^verbatim>\<open>mpi/init/fginit.c\<close>, \<^verbatim>\<open>mpid/ch3/src/mpid_vc.c\<close>): publication and search of the world
    ranks of each HWP (C30, C31).  \<open>Comm_Nested\<close> (\<^verbatim>\<open>util/procmap/local_proc.c\<close>): the maps of the
    communicators nested in a communicator, one across nodes, one across the HWPs of a node and one
    inside an HWP (C35).
  \<^item> \<open>Comm_Split\<close> (\<^verbatim>\<open>mpi/comm/comm_split.c\<close>): the local work of a split; \<open>Comm_Share\<close>
    (\<^verbatim>\<open>commutil.c\<close>, \<^verbatim>\<open>comm_free.c\<close>, \<^verbatim>\<open>mpid_init.c\<close>): the shared variables, their reference counts, and
    the store they live in; \<open>Comm_Refs\<close>, \<open>Comm_Life\<close>, \<open>Comm_Run\<close>: the invariant, that every operation
    keeps it, and the state machine of all coroutines of an HWP (C32 to C34, under a condition on
    context ids that the code does not enforce; C36 is what happens without it).
  \<^item> \<open>Context_Id\<close>, \<open>Context_Gcn\<close> (\<^verbatim>\<open>mpi/comm/contextid.c\<close>): the bit vector of free ids at 32-bit words
    and the collective agreement (C37 to C39).
  \<^item> \<open>Coll_Base\<close>, \<open>Coll_Barrier\<close>, \<open>Coll_Bcast\<close>, \<open>Smp_Barrier\<close> (\<^verbatim>\<open>mpi/coll/barrier.c\<close>, \<^verbatim>\<open>bcast.c\<close>): processes
    that send and wait in any interleaving; the locale \<open>collective\<close> is the contract of a collective
    call (nobody overtakes those it waits for, a call everybody entered does not get stuck),
    interpreted on the dissemination barrier and the binomial broadcast; the hierarchical barrier is
    proved from the two interpretations (C8, C28).
  \<^item> \<open>Nbc_Sched\<close>, \<open>Nbc_Progress\<close> (\<^verbatim>\<open>mpid/common/sched/mpid_sched.c\<close>): building, starting and polling
    schedules with barriers in them, the lists of the coroutines, the shared hook and count, and the
    tags (C40).  The device and the callbacks are a record of functions.
  \<^item> \<open>Topo_Primes\<close>, \<open>Topo_Dims\<close> (\<^verbatim>\<open>mpi/topo/dims_create.c\<close>, \<^verbatim>\<open>primes.h\<close>): factoring the number of
    processes and dealing the factors out to the dimensions (C9).  \<open>Topo_Cart\<close> (\<^verbatim>\<open>mpi/topo/cart_*.c\<close>,
    \<^verbatim>\<open>topoutil.c\<close>): ranks and coordinates are inverse, shifts are dual, and a subgrid, run through the
    split it calls, has as members the processes that agree in the coordinates dropped, each at the
    coordinates kept (C3, C20, C29).
\<close>

subsection \<open>Conventions\<close>

text \<open>
  \<^item> A C object is an address and its fields are functions of it, or it is a record where nothing
    points into it.  A failed assertion, an \<^verbatim>\<open>exit\<close> and an access to freed or foreign memory are
    values of \<open>fault\<close>; theorems that an operation returns exclude them all.
  \<^item> Loops are recursive functions with a termination proof where they end for every input.  The
    probing loops of the hash table, the queue walks, the loops over schedules and those of the factoring are partial
    functions, and the theorems show that they return on every state the program reaches (the
    schedule loops when no callback appends entries: one that keeps appending callbacks keeps the
    loop going; the division loop for every positive number).  No fuel is used.
  \<^item> Bounds.  A hash table takes up to \<open>HSH_CAPACITY\<close> = 88080332 entries: below it the largest prime of
    the table never fills up.  The context-id agreement needs at most two rounds when the callers
    are alone with the mask, which is the bound of C39.
  \<^item> Code outside the sources is an argument: \<^verbatim>\<open>malloc\<close> and \<^verbatim>\<open>calloc\<close> (a predicate on the sizes that
    are granted, and the contents of fresh memory), the key-value space of the process manager, the
    clock, the result of the all-gather of a split and of the all-reduce of the context ids, and the
    channel's hooks in the receive queues.
  \<^item> Integers.  Words where the code works on bits (context ids, hash values); mathematical integers
    elsewhere, with the overflow of a C \<^verbatim>\<open>int\<close> written out where the arguments of a call can reach it:
    the product of the dimensions (C9) and the shifted coordinate (C20) are \<open>Undefined\<close> outside the
    range of \<^verbatim>\<open>int\<close>.  Sizes of blocks and counts of entries are taken to fit.
  \<^item> The coroutines of an HWP switch only where they yield, so a step of a state machine is a whole
    operation or, in the barrier, the code between two yields.
\<close>

subsection \<open>Not modelled\<close>

text \<open>
  \<^item> The context switch itself (PCL: assembler, \<^verbatim>\<open>setjmp\<close>), stacks, clocks, debug output, and the
    process start-up and shut-down around them: I/O and machine code.
  \<^item> Intercommunicators, in the split, the context ids and the barrier.  \<^verbatim>\<open>MPIR_Comm_commit\<close> and
    \<^verbatim>\<open>MPIR_Comm_share_commit\<close>, which the split and the copy call at their end, and
    \<^verbatim>\<open>MPIR_Comm_release\<close>, which the free calls at its end: they create and release the nested
    communicators, whose shared blocks, counters and table entries are thus not in the states of
    \<open>Comm_Run\<close>.  Only the maps they start from (\<open>Comm_Nested\<close>) and what the barrier uses of them
    (\<open>Smp_Barrier\<close>) are modelled.
  \<^item> A failed allocation of a request, of a communicator object or of a temporary table, where a
    definition says so.
  \<^item> Graph topologies, groups, attributes and the argument checks of the user interface around the
    operations that are modelled.
  \<^item> The data of messages: the datatype engine, and with it the collectives that move or combine data.
  \<^item> The network channels (nemesis, sock), the rendezvous and one-sided packet handlers of CH3, the
    PAMI device, ROMIO, Hydra and the other process managers, the language bindings and the generated
    error tables: separate packages or layers below the ones modelled, with their own protocols.
  \<^item> Error codes that the source records and passes over, where a definition says so.
\<close>

end
